(* ===== verification/Prelude.thy ===== *)
theory Prelude
  imports Main "HOL-Library.Word" "HOL-Library.Multiset" "HOL-Library.AList"
begin

unbundle bit_operations_syntax

text \<open>
  Shared vocabulary of the development: the machine integers of the target
  (\<open>usize\<close> is 64 bits wide), \<open>std::task::Poll\<close>, wakers, and the list, option and word
  facts that several components use.
\<close>

section \<open>Types shared by the components\<close>

type_synonym u8 = "8 word"
type_synonym u16 = "16 word"
type_synonym u32 = "32 word"
type_synonym u64 = "64 word"

text \<open>
  A \<open>std::task::Waker\<close> is an opaque capability. The model names it by a number, and an
  operation that calls \<open>wake\<close> or \<open>wake_by_ref\<close> returns the wakers it has called, in order.
\<close>

type_synonym waker = nat

text \<open>\<open>std::task::Poll\<close>.\<close>

datatype 'a poll = Pending | Ready (ready_value: 'a)

primrec is_pending :: "'a poll \<Rightarrow> bool" where
  "is_pending Pending = True"
| "is_pending (Ready x) = False"

text \<open>\<open>Option::take\<close> on a waker slot, followed by \<open>wake\<close> on what was there.\<close>

definition wakes_of :: "waker option \<Rightarrow> waker list" where
  "wakes_of w = (case w of None \<Rightarrow> [] | Some x \<Rightarrow> [x])"

text \<open>Sequencing of operations that may fail: \<open>Inl\<close> is the failure.\<close>

definition and_then :: "'e + 'a \<Rightarrow> ('a \<Rightarrow> 'e + 'b) \<Rightarrow> 'e + 'b" where
  "and_then m f = (case m of Inl e \<Rightarrow> Inl e | Inr x \<Rightarrow> f x)"

text \<open>A \<open>usize\<close> kept as a natural number, with its saturating addition.\<close>

definition usize_max :: nat where "usize_max = 2 ^ 64 - 1"

definition usize_saturating_add :: "nat \<Rightarrow> nat \<Rightarrow> nat" where
  "usize_saturating_add a b = min (a + b) usize_max"

text \<open>\<open>u64::leading_zeros\<close> and \<open>u64::trailing_zeros\<close>.\<close>

definition leading_zeros :: "u64 \<Rightarrow> nat" where
  "leading_zeros w = length (takeWhile (\<lambda>i. \<not> bit w i) (rev [0..<64]))"

definition trailing_zeros :: "u64 \<Rightarrow> nat" where
  "trailing_zeros w = length (takeWhile (\<lambda>i. \<not> bit w i) [0..<64])"

text \<open>The neighbours of a linked segment: its first node, or what follows, and its last node, or
  what precedes.\<close>

definition first :: "'a list \<Rightarrow> 'a option \<Rightarrow> 'a option" where
  "first xs n = (case xs of [] \<Rightarrow> n | x # _ \<Rightarrow> Some x)"

definition final :: "'a option \<Rightarrow> 'a list \<Rightarrow> 'a option" where
  "final p xs = (if xs = [] then p else Some (last xs))"

text \<open>How many of the live objects of a store have a property.\<close>

definition tally :: "('f \<Rightarrow> bool) \<Rightarrow> (nat \<Rightarrow> 'f) \<Rightarrow> nat set \<Rightarrow> nat" where
  "tally P f live = (\<Sum>i\<in>live. of_bool (P (f i)))"

section \<open>Collections of rewrite and introduction rules\<close>

named_theorems flag_simps "bit-level facts about the packed words of the runtime"
named_theorems ring_simps "index arithmetic of ring buffers and wheels"
named_theorems wake_simps "what a waker slot contributes to the list of wakes"

section \<open>Generic lemmas\<close>

lemma wakes_of_simps [simp, wake_simps]:
  "wakes_of None = []"
  "wakes_of (Some w) = [w]"
  by (simp_all add: wakes_of_def)

lemma set_wakes_of [wake_simps]: "set (wakes_of w) = set_option w"
  by (cases w) auto

lemma and_then_simps [simp]:
  "and_then (Inl e) f = Inl e"
  "and_then (Inr x) f = f x"
  by (simp_all add: and_then_def)

lemma and_then_eq_Inr: "and_then m f = Inr y \<longleftrightarrow> (\<exists>x. m = Inr x \<and> f x = Inr y)"
  by (cases m) auto

lemma and_then_not_Inl:
  "m \<noteq> Inl e \<Longrightarrow> (\<And>x. m = Inr x \<Longrightarrow> f x \<noteq> Inl e) \<Longrightarrow> and_then m f \<noteq> Inl e"
  by (cases m) auto

lemma is_pending_iff: "is_pending p \<longleftrightarrow> p = Pending"
  by (cases p) auto

lemma not_is_pending_iff: "\<not> is_pending p \<longleftrightarrow> (\<exists>x. p = Ready x)"
  by (cases p) auto

lemma unat_of_nat_lt: "n < 2 ^ LENGTH('a) \<Longrightarrow> unat (of_nat n :: 'a::len word) = n"
  by (simp add: unat_of_nat take_bit_nat_eq_self)

lemma filter_neq_append [simp]:
  "x \<notin> set xs \<Longrightarrow> filter (\<lambda>y. y \<noteq> x) xs = xs"
  by (induction xs) auto

lemma first_simps [simp]: "first [] n = n" "first (x # xs) n = Some x"
  by (simp_all add: first_def)

lemma final_simps [simp]: "final p [] = p" "final p (x # xs) = final (Some x) xs" "final p (xs @ [x]) = Some x"
  by (simp_all add: final_def)

lemma first_append [simp]: "first (xs @ ys) n = first xs (first ys n)"
  by (cases xs) simp_all

lemma final_append [simp]: "final p (xs @ ys) = final (final p xs) ys"
  by (simp add: final_def)

text \<open>Bit scans and power-of-two shifts, read as naturals.\<close>

lemma takeWhile_upt:
  assumes "\<exists>i. a \<le> i \<and> i < n \<and> P i"
  shows "\<exists>k. a \<le> k \<and> k < n \<and> P k \<and> (\<forall>i. a \<le> i \<and> i < k \<longrightarrow> \<not> P i)
    \<and> length (takeWhile (\<lambda>i. \<not> P i) [a..<n]) = k - a"
  using assms
proof (induction "n - a" arbitrary: a)
  case (Suc d)
  then have lt: "a < n" by simp
  show ?case
  proof (cases "P a")
    case True
    then show ?thesis using lt by (intro exI [of _ a]) (auto simp: upt_conv_Cons)
  next
    case False
    have "\<exists>i. Suc a \<le> i \<and> i < n \<and> P i"
      using Suc.prems False by (metis Suc_leI le_neq_implies_less)
    then obtain k where k: "Suc a \<le> k" "k < n" "P k" "\<forall>i. Suc a \<le> i \<and> i < k \<longrightarrow> \<not> P i"
      "length (takeWhile (\<lambda>i. \<not> P i) [Suc a..<n]) = k - Suc a"
      using Suc.hyps(1) [of "Suc a"] Suc.hyps(2) by (metis Suc_diff_Suc diff_Suc_Suc lt nat.inject)
    then show ?thesis using lt False
      by (intro exI [of _ k]) (auto simp: upt_conv_Cons le_Suc_eq, metis Suc_leI le_neq_implies_less)
  qed
qed auto

lemma word_neq_0_bit: "(w :: u64) \<noteq> 0 \<Longrightarrow> \<exists>i<64. bit w i"
  by (rule ccontr) (auto intro: bit_word_eqI)

lemma trailing_zeros_least:
  assumes "w \<noteq> 0"
  shows "trailing_zeros w < 64" "bit w (trailing_zeros w)" "i < trailing_zeros w \<Longrightarrow> \<not> bit w i"
  using takeWhile_upt [of 0 64 "bit w"] word_neq_0_bit [OF assms] unfolding trailing_zeros_def
  by auto

lemma rev_upt_64: "rev [0..<64] = map (\<lambda>i. 63 - i) [0..<64]"
  by (simp add: rev_nth list_eq_iff_nth_eq)

lemma leading_zeros_greatest:
  assumes "w \<noteq> 0"
  shows "leading_zeros w \<le> 63" "bit w (63 - leading_zeros w)"
    "63 - leading_zeros w < i \<Longrightarrow> \<not> bit w i"
proof -
  obtain j where j: "j < 64" "bit w j" using word_neq_0_bit [OF assms] by blast
  then have "\<exists>i. 0 \<le> i \<and> i < 64 \<and> bit w (63 - i)"
    by (intro exI [of _ "63 - j"]) auto
  from takeWhile_upt [OF this] obtain k where k: "k < 64" "bit w (63 - k)"
    "\<forall>i<k. \<not> bit w (63 - i)" "length (takeWhile (\<lambda>i. \<not> bit w (63 - i)) [0..<64]) = k"
    by auto
  then have lz: "leading_zeros w = k"
    by (simp add: leading_zeros_def rev_upt_64 takeWhile_map comp_def)
  show "leading_zeros w \<le> 63" "bit w (63 - leading_zeros w)" using k lz by auto
  show "\<not> bit w i" if "63 - leading_zeros w < i"
  proof (cases "i < 64")
    case True
    with that lz k(1) have "63 - i < k" "63 - (63 - i) = i" by linarith+
    with k(3) show ?thesis by metis
  next
    case False
    then show ?thesis using bit_imp_le_length [of w i] by auto
  qed
qed

lemma unat_drop_bit: "unat (drop_bit n (w :: u64)) = unat w div 2 ^ n"
  by (metis unat_drop_bit_eq drop_bit_eq_div)

lemma bit_drop_bit_word: "bit (drop_bit n (w :: u64)) i \<longleftrightarrow> bit w (n + i)"
  by (simp add: bit_drop_bit_eq)

lemma bit_push_bit_1: "bit (push_bit n 1 :: u64) i \<longleftrightarrow> i = n \<and> n < 64"
  by (auto simp: bit_exp_iff)

text \<open>Updates of a tally.\<close>

lemma tally_empty [simp]: "tally P f {} = 0"
  by (simp add: tally_def)

lemma tally_upd:
  assumes "finite live" "i \<in> live"
  shows "tally P (f(i := x)) live + of_bool (P (f i)) = tally P f live + of_bool (P x)"
proof -
  have "(\<Sum>j\<in>live - {i}. of_bool (P ((f(i := x)) j))) = ((\<Sum>j\<in>live - {i}. of_bool (P (f j))) :: nat)"
    by (rule sum.cong) auto
  then show ?thesis unfolding tally_def using sum.remove [OF assms, of "\<lambda>j. of_bool (P (f j)) :: nat"]
      sum.remove [OF assms, of "\<lambda>j. of_bool (P ((f(i := x)) j)) :: nat"] by simp
qed

lemma tally_remove:
  "finite live \<Longrightarrow> i \<in> live \<Longrightarrow> tally P f live = of_bool (P (f i)) + tally P f (live - {i})"
  unfolding tally_def by (rule sum.remove)

lemma tally_insert:
  assumes "finite live" "i \<notin> live"
  shows "tally P (f(i := x)) (insert i live) = of_bool (P x) + tally P f live"
proof -
  have "(\<Sum>j\<in>live. of_bool (P ((f(i := x)) j))) = ((\<Sum>j\<in>live. of_bool (P (f j))) :: nat)"
    using assms(2) by (intro sum.cong) auto
  then show ?thesis by (simp only: tally_def sum.insert [OF assms] fun_upd_same)
qed

lemma tally_same: "(P (f i) = P x) \<Longrightarrow> tally P (f(i := x)) live = tally P f live"
  unfolding tally_def by (rule sum.cong) auto

lemma tally_0: "finite live \<Longrightarrow> tally P f live = 0 \<longleftrightarrow> (\<forall>i\<in>live. \<not> P (f i))"
  unfolding tally_def by auto

lemma tally_leave:
  assumes "finite live" "i \<in> live"
  shows "tally P f live = of_bool (P (f i)) + tally P (f(i := x)) (live - {i})"
proof -
  have "tally P (f(i := x)) (live - {i}) = tally P f (live - {i})"
    unfolding tally_def by (rule sum.cong) auto
  then show ?thesis using tally_remove [OF assms, of P f] by simp
qed

lemma update_fresh: "k \<notin> fst ` set al \<Longrightarrow> AList.update k v al = al @ [(k, v)]"
  by (induction al) auto

end
