(* ===== verification/Coop.thy ===== *)
theory Coop
  imports Prelude
begin

text \<open>
  The cooperative budget of \<open>src/crates/eddy/src/coop.rs\<close>. The thread-local
  \<open>BUDGET_CELL\<close> is passed explicitly. \<open>poll_proceed\<close> is called first by the \<open>poll\<close>
  method of every resource future; \<open>coop_poll\<close> is that common prologue.
\<close>

section \<open>The budget cell\<close>

type_synonym budget = "u8 option"

definition BUDGET :: u8 where
  "BUDGET = 128"

text \<open>\<open>budget_guard\<close> replaces the cell and remembers what was there; dropping the guard
  restores it.\<close>

record BudgetGuard =
  previous :: budget

definition budget_guard :: "budget \<Rightarrow> BudgetGuard \<times> budget" where
  "budget_guard b = (\<lparr>previous = b\<rparr>, Some BUDGET)"

definition budget_guard_drop :: "BudgetGuard \<Rightarrow> budget \<Rightarrow> budget" where
  "budget_guard_drop g b = previous g"

text \<open>\<open>poll_proceed\<close>: the new cell, the answer, and the wakers called.\<close>

definition poll_proceed :: "budget \<Rightarrow> waker \<Rightarrow> budget \<times> unit poll \<times> waker list" where
  "poll_proceed b cx =
     (case b of
        None \<Rightarrow> (None, Ready (), [])
      | Some remaining \<Rightarrow>
          if remaining = 0 then (Some 0, Pending, [cx])
          else (Some (remaining - 1), Ready (), []))"

definition has_budget_remaining :: "budget \<Rightarrow> bool" where
  "has_budget_remaining b = (case b of None \<Rightarrow> True | Some remaining \<Rightarrow> remaining > 0)"

text \<open>\<open>Unconstrained::poll\<close>: the inner future runs with no budget, and the outer budget is put
  back whatever the inner future did to the cell.\<close>

definition unconstrained_poll ::
  "(budget \<Rightarrow> 's \<Rightarrow> budget \<times> 's \<times> 'r poll \<times> waker list) \<Rightarrow>
   budget \<Rightarrow> 's \<Rightarrow> budget \<times> 's \<times> 'r poll \<times> waker list" where
  "unconstrained_poll inner b s =
     (let prev = b; (b', s', r, ws) = inner None s in (prev, s', r, ws))"

text \<open>The prologue of a resource future's \<open>poll\<close>: return \<open>Pending\<close> at once when the budget is
  spent, otherwise run the body.\<close>

definition coop_poll ::
  "budget \<Rightarrow> waker \<Rightarrow> 's \<Rightarrow> ('s \<times> 'r poll \<times> waker list) \<Rightarrow>
   budget \<times> 's \<times> 'r poll \<times> waker list" where
  "coop_poll b cx s body =
     (case poll_proceed b cx of
        (b', Pending, ws) \<Rightarrow> (b', s, Pending, ws)
      | (b', Ready _, ws) \<Rightarrow> (case body of (s', r, ws') \<Rightarrow> (b', s', r, ws @ ws')))"

text \<open>A task poll that performs \<open>n\<close> resource operations one after the other, counting those
  that were allowed to proceed.\<close>

fun proceed_times :: "nat \<Rightarrow> budget \<Rightarrow> waker \<Rightarrow> budget \<times> nat \<times> waker list" where
  "proceed_times 0 b cx = (b, 0, [])"
| "proceed_times (Suc n) b cx =
     (case poll_proceed b cx of
        (b', Pending, ws) \<Rightarrow> (b', 0, ws)
      | (b', Ready _, ws) \<Rightarrow>
          (case proceed_times n b' cx of (b'', k, ws') \<Rightarrow> (b'', Suc k, ws @ ws')))"

section \<open>Lemmas\<close>

lemma poll_proceed_simps [simp]:
  "poll_proceed None cx = (None, Ready (), [])"
  "poll_proceed (Some 0) cx = (Some 0, Pending, [cx])"
  "r \<noteq> 0 \<Longrightarrow> poll_proceed (Some r) cx = (Some (r - 1), Ready (), [])"
  by (simp_all add: poll_proceed_def)

lemma poll_proceed_pending_wakes:
  "poll_proceed b cx = (b', Pending, ws) \<Longrightarrow> ws = [cx] \<and> b = Some 0 \<and> b' = b"
  by (auto simp: poll_proceed_def split: option.splits if_splits)

lemma coop_poll_spent [simp]: "coop_poll (Some 0) cx s body = (Some 0, s, Pending, [cx])"
  by (simp add: coop_poll_def)

lemma coop_poll_proceeds:
  "b \<noteq> Some 0 \<Longrightarrow> coop_poll b cx s (s', r, ws) = (fst (poll_proceed b cx), s', r, ws)"
  by (auto simp: coop_poll_def poll_proceed_def split: option.splits)

text \<open>What a resource poll can do: yield with the budget spent, or what its body does.\<close>

lemma coop_poll_cases:
  "coop_poll b cx s body = (b', s', r, ws) \<Longrightarrow>
     b = Some 0 \<and> s' = s \<and> r = Pending \<and> ws = [cx] \<or> b \<noteq> Some 0 \<and> body = (s', r, ws)"
  by (cases body) (auto simp: coop_poll_def poll_proceed_def split: option.splits if_splits)

lemma proceed_times_None: "proceed_times n None cx = (None, n, [])"
  by (induction n) auto

lemma unat_pred: "r \<noteq> 0 \<Longrightarrow> unat (r - 1 :: u8) = unat r - 1"
  by (metis unat_minus_one)

lemma proceed_times_within:
  "n \<le> unat r \<Longrightarrow> proceed_times n (Some r) cx = (Some (r - of_nat n), n, [])"
proof (induction n arbitrary: r)
  case (Suc n)
  then have r: "r \<noteq> 0" by auto
  with Suc.prems have "n \<le> unat (r - 1)" by (simp add: unat_pred)
  from Suc.IH [OF this] r show ?case by (simp add: algebra_simps)
qed simp

lemma proceed_times_beyond:
  "unat r < n \<Longrightarrow> proceed_times n (Some r) cx = (Some 0, unat r, [cx])"
proof (induction n arbitrary: r)
  case (Suc n)
  show ?case
  proof (cases "r = 0")
    case False
    then have pos: "0 < unat r" by (simp add: unat_gt_0)
    with Suc.prems False have "unat (r - 1) < n" by (simp add: unat_pred)
    from Suc.IH [OF this] False show ?thesis
      using pos by (simp add: unat_pred)
  qed simp
qed simp

section \<open>Properties\<close>

text \<open>C40. A task poll that is armed with a fresh budget is let through for exactly
  \<open>BUDGET = 128\<close> resource operations, however many it attempts; the first operation beyond
  that returns \<open>Pending\<close> after re-waking the task exactly once, so a hot loop over ready
  resources always yields and is always rescheduled.\<close>

theorem budget_bounds_one_poll:
  "proceed_times n (snd (budget_guard b)) cx =
     (if n \<le> 128 then (Some (128 - of_nat n), n, []) else (Some 0, 128, [cx]))"
proof -
  have u: "unat BUDGET = 128" by (simp add: BUDGET_def)
  show ?thesis
    using proceed_times_within [of n BUDGET cx] proceed_times_beyond [of BUDGET n cx]
    by (auto simp: budget_guard_def u) (simp add: BUDGET_def)
qed

end
