(* ===== verification/Task_State.thy ===== *)
theory Task_State
  imports Prelude
begin

text \<open>
  The packed task state word of \<open>src/crates/eddy/src/task/state.rs\<close>:
  \<open>[ refcount : 48 bits ][ flags : 16 bits ]\<close>. A \<open>Snapshot\<close> is the word itself. Every
  transition of \<open>State\<close> is a compare-and-swap loop around a pure function on snapshots
  (\<open>fetch_update_action\<close>). The closures are modelled as they are written, the loop is
  modelled with an explicit sequence of compare-exchange outcomes, and the transitions are
  the closures applied atomically; \<open>fetch_update_loop_linearises\<close> relates the two.
  \<open>std::process::abort\<close> is the result \<open>None\<close>.
\<close>

unbundle bit_operations_syntax

section \<open>Flags and snapshots\<close>

type_synonym Snapshot = u64

definition RUNNING :: u64 where "RUNNING = 0b00000001"
definition COMPLETE :: u64 where "COMPLETE = 0b00000010"
definition NOTIFIED :: u64 where "NOTIFIED = 0b00000100"
definition CANCELLED :: u64 where "CANCELLED = 0b00001000"
definition JOIN_INTEREST :: u64 where "JOIN_INTEREST = 0b00010000"
definition JOIN_WAKER_SET :: u64 where "JOIN_WAKER_SET = 0b00100000"

definition REF_ONE :: u64 where "REF_ONE = push_bit 16 1"
definition REF_MASK :: u64 where "REF_MASK = NOT (REF_ONE - 1)"
definition REF_MAX :: u64 where "REF_MAX = push_bit 40 1"
definition REF_MAX_COUNT :: u64 where "REF_MAX_COUNT = drop_bit 16 REF_MAX"

definition ref_count :: "Snapshot \<Rightarrow> u64" where
  "ref_count s = drop_bit 16 (s AND REF_MASK)"

definition is_running :: "Snapshot \<Rightarrow> bool" where
  "is_running s \<longleftrightarrow> s AND RUNNING \<noteq> 0"
definition is_complete :: "Snapshot \<Rightarrow> bool" where
  "is_complete s \<longleftrightarrow> s AND COMPLETE \<noteq> 0"
definition is_notified :: "Snapshot \<Rightarrow> bool" where
  "is_notified s \<longleftrightarrow> s AND NOTIFIED \<noteq> 0"
definition is_cancelled :: "Snapshot \<Rightarrow> bool" where
  "is_cancelled s \<longleftrightarrow> s AND CANCELLED \<noteq> 0"
definition has_join_interest :: "Snapshot \<Rightarrow> bool" where
  "has_join_interest s \<longleftrightarrow> s AND JOIN_INTEREST \<noteq> 0"
definition has_join_waker :: "Snapshot \<Rightarrow> bool" where
  "has_join_waker s \<longleftrightarrow> s AND JOIN_WAKER_SET \<noteq> 0"

definition set_running :: "Snapshot \<Rightarrow> Snapshot" where
  "set_running s = s OR RUNNING"
definition unset_running :: "Snapshot \<Rightarrow> Snapshot" where
  "unset_running s = s AND NOT RUNNING"
definition set_complete :: "Snapshot \<Rightarrow> Snapshot" where
  "set_complete s = s OR COMPLETE"
definition set_notified :: "Snapshot \<Rightarrow> Snapshot" where
  "set_notified s = s OR NOTIFIED"
definition unset_notified :: "Snapshot \<Rightarrow> Snapshot" where
  "unset_notified s = s AND NOT NOTIFIED"
definition set_cancelled :: "Snapshot \<Rightarrow> Snapshot" where
  "set_cancelled s = s OR CANCELLED"
definition unset_join_interest :: "Snapshot \<Rightarrow> Snapshot" where
  "unset_join_interest s = s AND NOT JOIN_INTEREST"
definition set_join_waker :: "Snapshot \<Rightarrow> Snapshot" where
  "set_join_waker s = s OR JOIN_WAKER_SET"
definition unset_join_waker :: "Snapshot \<Rightarrow> Snapshot" where
  "unset_join_waker s = s AND NOT JOIN_WAKER_SET"

text \<open>\<open>Snapshot::ref_inc\<close> aborts the process instead of wrapping the count.\<close>

definition snapshot_ref_inc :: "Snapshot \<Rightarrow> Snapshot option" where
  "snapshot_ref_inc s = (if ref_count s \<ge> REF_MAX_COUNT then None else Some (s + REF_ONE))"

section \<open>The compare-and-swap loop\<close>

text \<open>The outcome of one \<open>compare_exchange_weak\<close>: success, or failure with the value found
  (which may equal the expected one, since the weak exchange may fail spuriously).\<close>

datatype cas_outcome = CasOk | CasErr u64

text \<open>
  \<open>fetch_update_action\<close> as a loop. The result is the closure's output, the value the last
  call of the closure was given, and what it stored (\<open>None\<close> for no store). \<open>None\<close> overall
  means the outcomes were used up and the loop is still running.
\<close>

fun fetch_update_loop ::
  "(Snapshot \<Rightarrow> 't \<times> Snapshot option) \<Rightarrow> Snapshot \<Rightarrow> cas_outcome list \<Rightarrow>
   ('t \<times> Snapshot \<times> Snapshot option) option" where
  "fetch_update_loop f cur [] =
     (case f cur of (out, None) \<Rightarrow> Some (out, cur, None) | (out, Some next) \<Rightarrow> None)"
| "fetch_update_loop f cur (CasOk # os) =
     (case f cur of
        (out, None) \<Rightarrow> Some (out, cur, None)
      | (out, Some next) \<Rightarrow> Some (out, cur, Some next))"
| "fetch_update_loop f cur (CasErr actual # os) =
     (case f cur of
        (out, None) \<Rightarrow> Some (out, cur, None)
      | (out, Some next) \<Rightarrow> fetch_update_loop f actual os)"

text \<open>The same closure applied in one atomic step to the current value of the word.\<close>

definition fetch_update_action ::
  "(Snapshot \<Rightarrow> 't \<times> Snapshot option) \<Rightarrow> u64 \<Rightarrow> u64 \<times> 't" where
  "fetch_update_action f v =
     (case f v of (out, None) \<Rightarrow> (v, out) | (out, Some next) \<Rightarrow> (next, out))"

section \<open>Transitions\<close>

datatype TransitionToRunning = RunningSuccess | RunningFailed Snapshot
datatype TransitionToIdle = IdleOk | IdleOkNotified | IdleCancelled
datatype TransitionToNotifiedByVal = ByValSubmit | ByValDoNothing
datatype TransitionToNotifiedByRef = ByRefSubmit | ByRefDoNothing

definition state_new :: u64 where
  "state_new = (2 * REF_ONE) OR JOIN_INTEREST OR NOTIFIED"

definition running_action :: "Snapshot \<Rightarrow> TransitionToRunning \<times> Snapshot option" where
  "running_action snap =
     (if is_complete snap \<or> is_cancelled snap \<or> is_running snap
      then (RunningFailed snap, None)
      else (RunningSuccess, Some (unset_notified (set_running snap))))"

definition transition_to_running :: "u64 \<Rightarrow> u64 \<times> TransitionToRunning" where
  "transition_to_running = fetch_update_action running_action"

definition idle_action :: "Snapshot \<Rightarrow> TransitionToIdle \<times> Snapshot option" where
  "idle_action snap0 =
     (let snap = unset_running snap0
      in if is_cancelled snap then (IdleCancelled, Some snap)
         else if is_notified snap then (IdleOkNotified, Some snap)
         else (IdleOk, Some snap))"

definition transition_to_idle :: "u64 \<Rightarrow> u64 \<times> TransitionToIdle" where
  "transition_to_idle = fetch_update_action idle_action"

definition complete_action :: "Snapshot \<Rightarrow> Snapshot \<times> Snapshot option" where
  "complete_action snap0 =
     (let snap = unset_notified (set_complete (unset_running snap0)) in (snap, Some snap))"

definition transition_to_complete :: "u64 \<Rightarrow> u64 \<times> Snapshot" where
  "transition_to_complete = fetch_update_action complete_action"

definition notified_by_ref_action ::
  "Snapshot \<Rightarrow> (TransitionToNotifiedByRef \<times> Snapshot option) option" where
  "notified_by_ref_action snap =
     (if is_complete snap \<or> is_notified snap \<or> is_cancelled snap
      then Some (ByRefDoNothing, None)
      else if is_running snap
      then Some (ByRefDoNothing, Some (set_notified snap))
      else (case snapshot_ref_inc (set_notified snap) of
              None \<Rightarrow> None
            | Some snap' \<Rightarrow> Some (ByRefSubmit, Some snap')))"

definition transition_to_notified_by_ref ::
  "u64 \<Rightarrow> (u64 \<times> TransitionToNotifiedByRef) option" where
  "transition_to_notified_by_ref v =
     map_option (\<lambda>r. fetch_update_action (\<lambda>_. r) v) (notified_by_ref_action v)"

definition notified_by_val_action ::
  "Snapshot \<Rightarrow> TransitionToNotifiedByVal \<times> Snapshot option" where
  "notified_by_val_action snap =
     (if is_complete snap \<or> is_notified snap \<or> is_cancelled snap
      then (ByValDoNothing, None)
      else if is_running snap
      then (ByValDoNothing, Some (set_notified snap))
      else (ByValSubmit, Some (set_notified snap)))"

definition transition_to_notified_by_val :: "u64 \<Rightarrow> u64 \<times> TransitionToNotifiedByVal" where
  "transition_to_notified_by_val = fetch_update_action notified_by_val_action"

text \<open>\<open>State::set_cancelled\<close> and \<open>State::unset_join_interest\<close> return the snapshot from
  before the change.\<close>

definition state_set_cancelled :: "u64 \<Rightarrow> u64 \<times> Snapshot" where
  "state_set_cancelled = fetch_update_action (\<lambda>snap. (snap, Some (set_cancelled snap)))"

definition state_unset_join_interest :: "u64 \<Rightarrow> u64 \<times> Snapshot" where
  "state_unset_join_interest =
     fetch_update_action (\<lambda>snap. (snap, Some (unset_join_interest snap)))"

definition state_set_join_waker :: "u64 \<Rightarrow> u64 \<times> bool" where
  "state_set_join_waker =
     fetch_update_action (\<lambda>snap.
       if is_complete snap then (False, None) else (True, Some (set_join_waker snap)))"

definition state_unset_join_waker :: "u64 \<Rightarrow> u64 \<times> unit" where
  "state_unset_join_waker = fetch_update_action (\<lambda>snap. ((), Some (unset_join_waker snap)))"

definition state_ref_inc :: "u64 \<Rightarrow> u64 option" where
  "state_ref_inc v =
     (let prev = v; v' = v + REF_ONE
      in if drop_bit 16 (prev AND REF_MASK) \<ge> REF_MAX_COUNT then None else Some v')"

text \<open>\<open>State::ref_dec\<close>: the new word, and whether this was the last reference.\<close>

definition state_ref_dec :: "u64 \<Rightarrow> u64 \<times> bool" where
  "state_ref_dec v =
     (let prev = v; prev_count = drop_bit 16 (prev AND REF_MASK)
      in (v - REF_ONE, prev_count = 1))"

text \<open>Any sequence of transitions that threads may apply to one word. \<open>None\<close> is an abort.\<close>

datatype state_op =
    OpRunning | OpIdle | OpComplete | OpWakeByRef | OpWakeByVal | OpSetCancelled
  | OpUnsetJoinInterest | OpSetJoinWaker | OpUnsetJoinWaker | OpRefInc | OpRefDec

fun state_apply :: "state_op \<Rightarrow> u64 \<Rightarrow> u64 option" where
  "state_apply OpRunning v = Some (fst (transition_to_running v))"
| "state_apply OpIdle v = Some (fst (transition_to_idle v))"
| "state_apply OpComplete v = Some (fst (transition_to_complete v))"
| "state_apply OpWakeByRef v = map_option fst (transition_to_notified_by_ref v)"
| "state_apply OpWakeByVal v = Some (fst (transition_to_notified_by_val v))"
| "state_apply OpSetCancelled v = Some (fst (state_set_cancelled v))"
| "state_apply OpUnsetJoinInterest v = Some (fst (state_unset_join_interest v))"
| "state_apply OpSetJoinWaker v = Some (fst (state_set_join_waker v))"
| "state_apply OpUnsetJoinWaker v = Some (fst (state_unset_join_waker v))"
| "state_apply OpRefInc v = state_ref_inc v"
| "state_apply OpRefDec v = Some (fst (state_ref_dec v))"

fun state_run :: "state_op list \<Rightarrow> u64 \<Rightarrow> u64 option" where
  "state_run [] v = Some v"
| "state_run (x # xs) v = (case state_apply x v of None \<Rightarrow> None | Some v' \<Rightarrow> state_run xs v')"

section \<open>The abstract task state\<close>

text \<open>What the word stands for: six flags and a count.\<close>

record task_flags =
  running :: bool
  complete :: bool
  notified :: bool
  cancelled :: bool
  join_interest :: bool
  join_waker :: bool
  refs :: nat

definition abs_state :: "u64 \<Rightarrow> task_flags" where
  "abs_state v =
     \<lparr>running = is_running v, complete = is_complete v, notified = is_notified v,
      cancelled = is_cancelled v, join_interest = has_join_interest v,
      join_waker = has_join_waker v, refs = unat (ref_count v)\<rparr>"

text \<open>The largest count that \<open>ref_inc\<close> still lets through is \<open>REF_LIMIT - 1\<close>.\<close>

abbreviation REF_LIMIT :: nat where
  "REF_LIMIT \<equiv> 2 ^ 24"

text \<open>The transitions on the abstract state.\<close>

definition spec_running :: "task_flags \<Rightarrow> task_flags \<times> bool" where
  "spec_running t =
     (if complete t \<or> cancelled t \<or> running t then (t, False)
      else (t\<lparr>running := True, notified := False\<rparr>, True))"

definition spec_idle :: "task_flags \<Rightarrow> task_flags \<times> TransitionToIdle" where
  "spec_idle t =
     (t\<lparr>running := False\<rparr>,
      if cancelled t then IdleCancelled else if notified t then IdleOkNotified else IdleOk)"

definition spec_complete :: "task_flags \<Rightarrow> task_flags" where
  "spec_complete t = t\<lparr>running := False, complete := True, notified := False\<rparr>"

definition spec_wake :: "bool \<Rightarrow> task_flags \<Rightarrow> task_flags \<times> bool" where
  "spec_wake by_ref t =
     (if complete t \<or> notified t \<or> cancelled t then (t, False)
      else if running t then (t\<lparr>notified := True\<rparr>, False)
      else (t\<lparr>notified := True, refs := (if by_ref then Suc (refs t) else refs t)\<rparr>, True))"

section \<open>Bit-level lemmas\<close>

lemma flag_exp:
  "RUNNING = 2 ^ 0" "COMPLETE = 2 ^ 1" "NOTIFIED = 2 ^ 2" "CANCELLED = 2 ^ 3"
  "JOIN_INTEREST = 2 ^ 4" "JOIN_WAKER_SET = 2 ^ 5"
  by (simp_all add: RUNNING_def COMPLETE_def NOTIFIED_def CANCELLED_def JOIN_INTEREST_def
      JOIN_WAKER_SET_def)

lemma and_exp_nonzero: "(w AND 2 ^ n \<noteq> 0) \<longleftrightarrow> bit w n" for w :: u64
  by (simp add: and_exp_eq_0_iff_not_bit)

lemma flag_bits [flag_simps]:
  "is_running v \<longleftrightarrow> bit v 0" "is_complete v \<longleftrightarrow> bit v 1" "is_notified v \<longleftrightarrow> bit v 2"
  "is_cancelled v \<longleftrightarrow> bit v 3" "has_join_interest v \<longleftrightarrow> bit v 4" "has_join_waker v \<longleftrightarrow> bit v 5"
  unfolding is_running_def is_complete_def is_notified_def is_cancelled_def
    has_join_interest_def has_join_waker_def flag_exp and_exp_nonzero by (rule refl)+

lemmas flag_ops = set_running_def unset_running_def set_complete_def set_notified_def
  unset_notified_def set_cancelled_def unset_join_interest_def set_join_waker_def
  unset_join_waker_def

lemma bit_or_exp [flag_simps]:
  "n < 64 \<Longrightarrow> bit (w OR 2 ^ n) m \<longleftrightarrow> bit w m \<or> m = n" for w :: u64
  by (auto simp: bit_simps)

lemma bit_and_not_exp [flag_simps]:
  "n < 64 \<Longrightarrow> bit (w AND NOT (2 ^ n)) m \<longleftrightarrow> bit w m \<and> m \<noteq> n" for w :: u64
  by (auto simp: bit_simps dest: bit_imp_le_length)

lemma REF_MASK_eq: "REF_MASK = NOT (mask 16)"
  by (simp add: REF_MASK_def REF_ONE_def mask_eq_exp_minus_1)

lemma ref_count_drop_bit: "ref_count v = drop_bit 16 v"
  by (rule bit_eqI)
    (auto simp: ref_count_def REF_MASK_eq bit_simps dest: bit_imp_le_length)

lemma drop_bit_or_exp: "n < 16 \<Longrightarrow> drop_bit 16 (w OR 2 ^ n) = drop_bit 16 w" for w :: u64
  by (rule bit_eqI) (auto simp: bit_simps)

lemma drop_bit_and_not_exp:
  "n < 16 \<Longrightarrow> drop_bit 16 (w AND NOT (2 ^ n)) = drop_bit 16 w" for w :: u64
  by (rule bit_eqI) (auto simp: bit_simps dest: bit_imp_le_length)

lemma ref_count_flag_ops [flag_simps]:
  "ref_count (set_running v) = ref_count v" "ref_count (unset_running v) = ref_count v"
  "ref_count (set_complete v) = ref_count v" "ref_count (set_notified v) = ref_count v"
  "ref_count (unset_notified v) = ref_count v" "ref_count (set_cancelled v) = ref_count v"
  "ref_count (unset_join_interest v) = ref_count v"
  "ref_count (set_join_waker v) = ref_count v" "ref_count (unset_join_waker v) = ref_count v"
  unfolding ref_count_drop_bit flag_ops flag_exp
  by (rule drop_bit_or_exp drop_bit_and_not_exp; simp)+

lemma REF_ONE_eq: "REF_ONE = 2 ^ 16"
  by (simp add: REF_ONE_def)

lemma unat_ref_count: "unat (ref_count v) = unat v div 2 ^ 16"
  unfolding ref_count_drop_bit unat_drop_bit_eq by (rule drop_bit_eq_div)

lemma REF_MAX_COUNT_eq: "REF_MAX_COUNT = 2 ^ 24"
  by (simp add: REF_MAX_COUNT_def REF_MAX_def)

lemma ref_max_iff: "ref_count v \<ge> REF_MAX_COUNT \<longleftrightarrow> unat (ref_count v) \<ge> REF_LIMIT"
  by (simp add: word_le_nat_alt REF_MAX_COUNT_eq)

lemma unat_add_REF_ONE:
  "unat (ref_count v) < REF_LIMIT \<Longrightarrow> unat (v + REF_ONE) = unat v + 2 ^ 16"
  by (simp add: unat_ref_count REF_ONE_eq unat_word_ariths)

lemma unat_sub_REF_ONE:
  "0 < unat (ref_count v) \<Longrightarrow> unat (v - REF_ONE) = unat v - 2 ^ 16"
proof -
  assume "0 < unat (ref_count v)"
  then have "2 ^ 16 \<le> unat v"
    unfolding unat_ref_count by (metis div_less less_irrefl not_le)
  then have "REF_ONE \<le> v" by (simp add: word_le_nat_alt REF_ONE_eq)
  then show ?thesis by (simp add: unat_sub REF_ONE_eq)
qed

lemma ref_count_add [flag_simps]:
  "unat (ref_count v) < REF_LIMIT \<Longrightarrow> unat (ref_count (v + REF_ONE)) = Suc (unat (ref_count v))"
  by (simp add: unat_ref_count unat_add_REF_ONE)

lemma ref_count_sub [flag_simps]:
  "0 < unat (ref_count v) \<Longrightarrow> unat (ref_count (v - REF_ONE)) = unat (ref_count v) - 1"
proof -
  assume pos: "0 < unat (ref_count v)"
  have "(unat v - 2 ^ 16) div 2 ^ 16 = unat v div 2 ^ 16 - (1::nat)"
    by simp
  with pos show ?thesis by (simp only: unat_ref_count unat_sub_REF_ONE)
qed

text \<open>Flags are not disturbed by counting.\<close>

lemma bit_low_add_REF_ONE: "n < 16 \<Longrightarrow> bit (v + REF_ONE) n = bit v n"
proof -
  assume n: "n < 16"
  have "take_bit 16 (unat (v + REF_ONE)) = take_bit 16 (unat v)"
    by (simp add: take_bit_eq_mod unat_word_ariths REF_ONE_eq mod_mod_cancel)
  then have "bit (unat (v + REF_ONE)) n = bit (unat v) n"
    using n by (metis bit_take_bit_iff)
  then show ?thesis by (simp add: bit_unsigned_iff)
qed

lemma bit_low_sub_REF_ONE: "n < 16 \<Longrightarrow> bit (v - REF_ONE) n = bit v n"
  using bit_low_add_REF_ONE [of n "v - REF_ONE"] by simp

lemma flags_count [flag_simps]:
  "n < 16 \<Longrightarrow> bit (v + REF_ONE) n = bit v n" "n < 16 \<Longrightarrow> bit (v - REF_ONE) n = bit v n"
  by (simp_all add: bit_low_add_REF_ONE bit_low_sub_REF_ONE)

lemma flag_ops_bit [flag_simps]:
  "bit (set_running v) n \<longleftrightarrow> bit v n \<or> n = 0" "bit (unset_running v) n \<longleftrightarrow> bit v n \<and> n \<noteq> 0"
  "bit (set_complete v) n \<longleftrightarrow> bit v n \<or> n = 1" "bit (set_notified v) n \<longleftrightarrow> bit v n \<or> n = 2"
  "bit (unset_notified v) n \<longleftrightarrow> bit v n \<and> n \<noteq> 2" "bit (set_cancelled v) n \<longleftrightarrow> bit v n \<or> n = 3"
  "bit (unset_join_interest v) n \<longleftrightarrow> bit v n \<and> n \<noteq> 4"
  "bit (set_join_waker v) n \<longleftrightarrow> bit v n \<or> n = 5"
  "bit (unset_join_waker v) n \<longleftrightarrow> bit v n \<and> n \<noteq> 5"
  unfolding flag_ops flag_exp
  by (rule bit_or_exp bit_and_not_exp; simp)+

section \<open>Refinement of the abstract state\<close>

lemmas transition_defs = transition_to_running_def transition_to_idle_def
  transition_to_complete_def transition_to_notified_by_ref_def transition_to_notified_by_val_def
  state_set_cancelled_def state_unset_join_interest_def state_set_join_waker_def
  state_unset_join_waker_def

lemmas action_defs = running_action_def idle_action_def complete_action_def
  notified_by_ref_action_def notified_by_val_action_def fetch_update_action_def

lemma abs_state_flag_ops [simp]:
  "abs_state (set_running v) = (abs_state v)\<lparr>running := True\<rparr>"
  "abs_state (unset_running v) = (abs_state v)\<lparr>running := False\<rparr>"
  "abs_state (set_complete v) = (abs_state v)\<lparr>complete := True\<rparr>"
  "abs_state (set_notified v) = (abs_state v)\<lparr>notified := True\<rparr>"
  "abs_state (unset_notified v) = (abs_state v)\<lparr>notified := False\<rparr>"
  "abs_state (set_cancelled v) = (abs_state v)\<lparr>cancelled := True\<rparr>"
  "abs_state (unset_join_interest v) = (abs_state v)\<lparr>join_interest := False\<rparr>"
  "abs_state (set_join_waker v) = (abs_state v)\<lparr>join_waker := True\<rparr>"
  "abs_state (unset_join_waker v) = (abs_state v)\<lparr>join_waker := False\<rparr>"
  by (simp_all add: abs_state_def flag_simps)

lemma abs_state_sel [simp]:
  "running (abs_state v) = is_running v" "complete (abs_state v) = is_complete v"
  "notified (abs_state v) = is_notified v" "cancelled (abs_state v) = is_cancelled v"
  "join_interest (abs_state v) = has_join_interest v"
  "join_waker (abs_state v) = has_join_waker v" "refs (abs_state v) = unat (ref_count v)"
  by (simp_all add: abs_state_def)

lemma abs_state_add_REF_ONE:
  "refs (abs_state v) < REF_LIMIT \<Longrightarrow>
     abs_state (v + REF_ONE) = (abs_state v)\<lparr>refs := Suc (refs (abs_state v))\<rparr>"
  by (simp add: abs_state_def flag_simps)

lemma abs_state_sub_REF_ONE:
  "0 < refs (abs_state v) \<Longrightarrow>
     abs_state (v - REF_ONE) = (abs_state v)\<lparr>refs := refs (abs_state v) - 1\<rparr>"
  by (simp add: abs_state_def flag_simps)

lemma snapshot_ref_inc_abs:
  "snapshot_ref_inc v =
     (if refs (abs_state v) < REF_LIMIT then Some (v + REF_ONE) else None)"
  by (simp add: snapshot_ref_inc_def ref_max_iff not_le)

lemma state_ref_inc_abs:
  "state_ref_inc v = (if refs (abs_state v) < REF_LIMIT then Some (v + REF_ONE) else None)"
  unfolding state_ref_inc_def Let_def ref_count_def [symmetric]
  by (simp add: ref_max_iff not_le)

lemma state_ref_dec_abs:
  "state_ref_dec v = (v - REF_ONE, refs (abs_state v) = 1)"
proof -
  have "ref_count v = 1 \<longleftrightarrow> unat (ref_count v) = 1"
    by (metis unat_1 word_unat_eq_iff)
  then show ?thesis
    unfolding state_ref_dec_def Let_def ref_count_def [symmetric] by simp
qed

section \<open>Transitions on the abstract state\<close>

lemma abs_transition_to_running:
  "(abs_state (fst (transition_to_running v)), snd (transition_to_running v) = RunningSuccess) =
     spec_running (abs_state v)"
  by (simp add: transition_defs action_defs spec_running_def)

lemma abs_transition_to_idle:
  "(abs_state (fst (transition_to_idle v)), snd (transition_to_idle v)) = spec_idle (abs_state v)"
  by (simp add: transition_defs action_defs spec_idle_def Let_def flag_simps)

lemma abs_transition_to_complete:
  "abs_state (fst (transition_to_complete v)) = spec_complete (abs_state v)"
  "snd (transition_to_complete v) = fst (transition_to_complete v)"
  by (simp_all add: transition_defs action_defs spec_complete_def Let_def)

lemma abs_transition_to_notified_by_val:
  "(abs_state (fst (transition_to_notified_by_val v)),
      snd (transition_to_notified_by_val v) = ByValSubmit) = spec_wake False (abs_state v)"
  by (simp add: transition_defs action_defs spec_wake_def)

lemma transition_to_notified_by_ref_abs:
  "refs (abs_state v) < REF_LIMIT \<Longrightarrow>
   \<exists>v' r. transition_to_notified_by_ref v = Some (v', r) \<and>
     (abs_state v', r = ByRefSubmit) = spec_wake True (abs_state v)"
  by (auto simp: transition_defs action_defs spec_wake_def snapshot_ref_inc_abs
      abs_state_add_REF_ONE flag_simps)

lemma abs_state_set_cancelled:
  "abs_state (fst (state_set_cancelled v)) = (abs_state v)\<lparr>cancelled := True\<rparr>"
  "snd (state_set_cancelled v) = v"
  by (simp_all add: transition_defs action_defs)

lemma abs_state_unset_join_interest:
  "abs_state (fst (state_unset_join_interest v)) = (abs_state v)\<lparr>join_interest := False\<rparr>"
  "snd (state_unset_join_interest v) = v"
  by (simp_all add: transition_defs action_defs)

lemma abs_state_set_join_waker:
  "abs_state (fst (state_set_join_waker v)) =
     (if is_complete v then abs_state v else (abs_state v)\<lparr>join_waker := True\<rparr>)"
  "snd (state_set_join_waker v) \<longleftrightarrow> \<not> is_complete v"
  by (simp_all add: transition_defs action_defs)

lemma abs_state_unset_join_waker:
  "abs_state (fst (state_unset_join_waker v)) = (abs_state v)\<lparr>join_waker := False\<rparr>"
  by (simp add: transition_defs action_defs)

lemma abs_state_new:
  "abs_state state_new =
     \<lparr>running = False, complete = False, notified = True, cancelled = False,
      join_interest = True, join_waker = False, refs = 2\<rparr>"
  by (simp add: abs_state_def state_new_def REF_ONE_def JOIN_INTEREST_def NOTIFIED_def
      is_running_def is_complete_def is_notified_def is_cancelled_def has_join_interest_def
      has_join_waker_def RUNNING_def COMPLETE_def CANCELLED_def JOIN_WAKER_SET_def ref_count_def
      REF_MASK_def)

text \<open>\<open>CANCELLED\<close> and \<open>COMPLETE\<close> are never cleared.\<close>

lemma state_apply_sticky:
  assumes "state_apply x v = Some v'"
  shows "(is_cancelled v \<longrightarrow> is_cancelled v') \<and> (is_complete v \<longrightarrow> is_complete v')"
  using assms
  by (cases x)
    (auto simp: transition_defs action_defs flag_simps snapshot_ref_inc_abs state_ref_inc_abs
      state_ref_dec_abs Let_def split: if_splits option.splits)

lemma state_run_sticky:
  "state_run xs v = Some v' \<Longrightarrow>
     (is_cancelled v \<longrightarrow> is_cancelled v') \<and> (is_complete v \<longrightarrow> is_complete v')"
proof (induction xs arbitrary: v)
  case (Cons x xs)
  then obtain w where "state_apply x v = Some w" "state_run xs w = Some v'"
    by (auto split: option.splits)
  with Cons.IH [of w] state_apply_sticky [of x v w] show ?case by blast
qed simp

lemma terminal_transitions:
  assumes "is_cancelled v \<or> is_complete v"
  shows "transition_to_notified_by_ref v = Some (v, ByRefDoNothing)"
    and "transition_to_notified_by_val v = (v, ByValDoNothing)"
    and "transition_to_running v = (v, RunningFailed v)"
  using assms by (auto simp: transition_defs action_defs)

section \<open>Properties\<close>



text \<open>The compare-and-swap loop is linearisable: whatever the exchanges return (including
  spurious failures and values written by other threads), if the loop returns then it has
  behaved as one atomic application of the closure to the value it last read; and it does
  return as soon as the closure has nothing to store or one exchange succeeds.\<close>

theorem fetch_update_loop_linearises:
  "(\<forall>out w st. fetch_update_loop f cur os = Some (out, w, st) \<longrightarrow>
      f w = (out, st) \<and> (w = cur \<or> CasErr w \<in> set os)) \<and>
   (CasOk \<in> set os \<longrightarrow> fetch_update_loop f cur os \<noteq> None)"
proof (induction os arbitrary: cur)
  case Nil
  then show ?case by (auto split: prod.splits option.splits)
next
  case (Cons x os)
  show ?case
  proof (cases x)
    case CasOk
    then show ?thesis by (auto split: prod.splits option.splits)
  next
    case (CasErr actual)
    with Cons.IH [of actual] show ?thesis by (auto split: prod.splits option.splits)
  qed
qed

theorem fetch_update_loop_linearises_witness:
  "CasOk \<in> set [CasErr (NOTIFIED OR RUNNING), CasOk] \<and>
   fetch_update_loop idle_action RUNNING [CasErr (NOTIFIED OR RUNNING), CasOk] \<noteq> None \<and>
   fetch_update_loop idle_action RUNNING [CasErr (NOTIFIED OR RUNNING), CasOk] =
     Some (IdleOkNotified, NOTIFIED OR RUNNING, Some NOTIFIED)"
proof -
  have h: "CasOk \<in> set [CasErr (NOTIFIED OR RUNNING), CasOk]" by simp
  have v: "fetch_update_loop idle_action RUNNING [CasErr (NOTIFIED OR RUNNING), CasOk] =
     Some (IdleOkNotified, NOTIFIED OR RUNNING, Some NOTIFIED)"
    by (simp add: idle_action_def RUNNING_def NOTIFIED_def unset_running_def is_cancelled_def
        CANCELLED_def is_notified_def)
  show ?thesis
    using h v fetch_update_loop_linearises
      [of idle_action RUNNING "[CasErr (NOTIFIED OR RUNNING), CasOk]"]
    by blast
qed

text \<open>Cancellation and completion are permanent: after any sequence of transitions by any
  threads from a word with \<open>CANCELLED\<close> or \<open>COMPLETE\<close> set, every wake is still a no-op (no
  new queue entry is ever submitted) and the task can still not start running.\<close>

theorem cancelled_or_complete_is_final:
  assumes "is_cancelled v \<or> is_complete v" and "state_run xs v = Some v'"
  shows "transition_to_notified_by_ref v' = Some (v', ByRefDoNothing) \<and>
    transition_to_notified_by_val v' = (v', ByValDoNothing) \<and>
    transition_to_running v' = (v', RunningFailed v')"
proof -
  from state_run_sticky [OF assms(2)] assms(1) have "is_cancelled v' \<or> is_complete v'" by blast
  from terminal_transitions [OF this] show ?thesis by blast
qed

theorem cancelled_or_complete_is_final_witness:
  "(is_cancelled CANCELLED \<or> is_complete CANCELLED) \<and>
   state_run [OpWakeByVal, OpIdle, OpComplete] CANCELLED = Some (CANCELLED OR COMPLETE) \<and>
   transition_to_running (CANCELLED OR COMPLETE) =
     (CANCELLED OR COMPLETE, RunningFailed (CANCELLED OR COMPLETE))"
proof -
  have c: "is_cancelled CANCELLED \<or> is_complete CANCELLED"
    by (simp add: is_cancelled_def CANCELLED_def)
  have r: "state_run [OpWakeByVal, OpIdle, OpComplete] CANCELLED = Some (CANCELLED OR COMPLETE)"
    by (simp add: transition_defs action_defs is_cancelled_def is_complete_def is_notified_def
        CANCELLED_def COMPLETE_def NOTIFIED_def RUNNING_def unset_running_def set_complete_def
        unset_notified_def Let_def)
  show ?thesis using c r cancelled_or_complete_is_final [OF c r] by blast
qed

end
