(* ===== verification/Task_Harness.thy ===== *)
theory Task_Harness
  imports Task_State
begin

text \<open>
  One task and everything that refers to it: \<open>src/crates/eddy/src/task/raw.rs\<close>
  (\<open>RawTask\<close>, reference counting, waking), \<open>task/waker.rs\<close> (the waker vtable),
  \<open>task/harness.rs\<close> (polling, completion, abort, reading the output), \<open>task/join.rs\<close>
  (\<open>JoinHandle\<close>, \<open>AbortHandle\<close>), \<open>task/mod.rs\<close> (\<open>Notified\<close>) and the \<open>Schedule\<close>
  implementation of \<open>scheduler/multi_thread/worker.rs\<close> as far as one task sees it (its
  queue entries, its registry entry, the shutdown flag).

  Every handler is a function on the task record. The step relation \<open>task_step\<close> lets the
  holders of references (queue entry, poll in flight, join handle, wakers, abort handles,
  registry, runtime shutdown) run handlers in any order. A poll is two steps, so that
  everything else can happen while the future is being polled; the other handlers are one
  step each. Instrumentation events and metrics are left out.
\<close>

section \<open>Data\<close>

datatype NotifiedKind = PollKind | DeallocKind

datatype JoinErrorRepr = PanicErr nat | CancelledErr

type_synonym 'o join_result = "JoinErrorRepr + 'o"

datatype 'o Stage = StageRunning | Finished "'o join_result" | Consumed

text \<open>What ends the program instead of returning: \<open>std::process::abort\<close>, and the
  \<open>unreachable!\<close> of \<open>poll\<close>.\<close>

datatype fault = ProcessAbort | UnreachablePanic

text \<open>
  The task cell (state word, stage, trailer) with what the scheduler keeps of this task: its
  queue entries, whether the registry holds it, whether the scheduler has been shut down.
  \<open>woken\<close> logs the join wakers that were called, \<open>deallocs\<close> counts frees of the cell.
\<close>

record 'o task =
  hdr :: u64
  stage :: "'o Stage"
  trailer :: "waker option"
  queue :: "NotifiedKind list"
  registered :: bool
  sched_shutdown :: bool
  woken :: "waker list"
  deallocs :: nat

section \<open>References\<close>

definition dealloc_now :: "'o task \<Rightarrow> 'o task" where
  "dealloc_now t = t\<lparr>deallocs := Suc (deallocs t)\<rparr>"

text \<open>\<open>owner\<close> is the value of \<open>is_owner_thread() || can_dealloc_remotely()\<close> for the calling
  thread. Elsewhere the last reference is restored and handed back to the owner as a
  \<open>Dealloc\<close> entry.\<close>

definition dealloc :: "bool \<Rightarrow> 'o task \<Rightarrow> fault + 'o task" where
  "dealloc owner t =
     (if owner then Inr (dealloc_now t)
      else case state_ref_inc (hdr t) of
             None \<Rightarrow> Inl ProcessAbort
           | Some v \<Rightarrow> Inr (t\<lparr>hdr := v, queue := queue t @ [DeallocKind]\<rparr>))"

definition drop_reference :: "bool \<Rightarrow> 'o task \<Rightarrow> fault + 'o task" where
  "drop_reference owner t =
     (case state_ref_dec (hdr t) of
        (v, last_ref) \<Rightarrow>
          if last_ref then dealloc owner (t\<lparr>hdr := v\<rparr>) else Inr (t\<lparr>hdr := v\<rparr>))"

text \<open>\<open>Notified\<close>: what dropping an unconsumed entry does.\<close>

definition notified_drop :: "bool \<Rightarrow> NotifiedKind \<Rightarrow> 'o task \<Rightarrow> fault + 'o task" where
  "notified_drop owner k t =
     (case k of PollKind \<Rightarrow> drop_reference owner t | DeallocKind \<Rightarrow> Inr (dealloc_now t))"

text \<open>\<open>schedule\<close>: push the entry, or drop it once the scheduler is shut down.\<close>

definition schedule :: "bool \<Rightarrow> 'o task \<Rightarrow> fault + 'o task" where
  "schedule owner t =
     (if sched_shutdown t then notified_drop owner PollKind t
      else Inr (t\<lparr>queue := queue t @ [PollKind]\<rparr>))"

definition clone_ref :: "'o task \<Rightarrow> fault + 'o task" where
  "clone_ref t =
     (case state_ref_inc (hdr t) of None \<Rightarrow> Inl ProcessAbort | Some v \<Rightarrow> Inr (t\<lparr>hdr := v\<rparr>))"

definition register_task :: "'o task \<Rightarrow> fault + 'o task" where
  "register_task t = and_then (clone_ref t) (\<lambda>t'. Inr (t'\<lparr>registered := True\<rparr>))"

definition task_complete :: "bool \<Rightarrow> 'o task \<Rightarrow> fault + 'o task" where
  "task_complete owner t =
     (if registered t then drop_reference owner (t\<lparr>registered := False\<rparr>) else Inr t)"

section \<open>Waking\<close>

definition wake_by_val :: "bool \<Rightarrow> 'o task \<Rightarrow> fault + 'o task" where
  "wake_by_val owner t =
     (case transition_to_notified_by_val (hdr t) of
        (v, ByValSubmit) \<Rightarrow> schedule owner (t\<lparr>hdr := v\<rparr>)
      | (v, ByValDoNothing) \<Rightarrow> drop_reference owner (t\<lparr>hdr := v\<rparr>))"

definition wake_by_ref :: "bool \<Rightarrow> 'o task \<Rightarrow> fault + 'o task" where
  "wake_by_ref owner t =
     (case transition_to_notified_by_ref (hdr t) of
        None \<Rightarrow> Inl ProcessAbort
      | Some (v, ByRefSubmit) \<Rightarrow> schedule owner (t\<lparr>hdr := v\<rparr>)
      | Some (v, ByRefDoNothing) \<Rightarrow> Inr (t\<lparr>hdr := v\<rparr>))"

section \<open>Completion\<close>

definition wake_join_handle :: "'o task \<Rightarrow> 'o task" where
  "wake_join_handle t = t\<lparr>trailer := None, woken := woken t @ wakes_of (trailer t)\<rparr>"

definition discard_finished_output :: "'o task \<Rightarrow> 'o task" where
  "discard_finished_output t =
     (case stage t of Finished r \<Rightarrow> t\<lparr>stage := Consumed\<rparr> | _ \<Rightarrow> t)"

definition finalize :: "bool \<Rightarrow> 'o join_result \<Rightarrow> 'o task \<Rightarrow> fault + 'o task" where
  "finalize owner r t =
     (let t1 = t\<lparr>stage := Finished r\<rparr>;
          (v, completed) = transition_to_complete (hdr t1);
          t2 = wake_join_handle (t1\<lparr>hdr := v\<rparr>);
          t3 = (if has_join_interest completed then t2 else discard_finished_output t2)
      in task_complete owner t3)"

definition complete_task :: "bool \<Rightarrow> 'o join_result \<Rightarrow> 'o task \<Rightarrow> fault + 'o task" where
  "complete_task owner r t = and_then (finalize owner r t) (drop_reference owner)"

section \<open>Polling\<close>

text \<open>\<open>poll\<close> up to the call of the future; the flag says whether the future is polled.\<close>

definition poll_begin :: "bool \<Rightarrow> 'o task \<Rightarrow> fault + ('o task \<times> bool)" where
  "poll_begin owner t =
     (case transition_to_running (hdr t) of
        (v, RunningFailed snap) \<Rightarrow>
          and_then
            (if is_cancelled snap \<and> \<not> is_complete snap
             then complete_task owner (Inl CancelledErr) (t\<lparr>hdr := v\<rparr>)
             else drop_reference owner (t\<lparr>hdr := v\<rparr>))
            (\<lambda>t'. Inr (t', False))
      | (v, RunningSuccess) \<Rightarrow>
          (case stage t of
             StageRunning \<Rightarrow> Inr (t\<lparr>hdr := v\<rparr>, True)
           | _ \<Rightarrow> Inl UnreachablePanic))"

datatype 'o poll_result = PollReady 'o | PollPending | PollPanicked nat

text \<open>\<open>poll\<close> from the return of the future on.\<close>

definition poll_end :: "bool \<Rightarrow> 'o poll_result \<Rightarrow> 'o task \<Rightarrow> fault + 'o task" where
  "poll_end owner res t =
     (case res of
        PollReady out \<Rightarrow> complete_task owner (Inr out) t
      | PollPending \<Rightarrow>
          (case transition_to_idle (hdr t) of
             (v, IdleOk) \<Rightarrow> drop_reference owner (t\<lparr>hdr := v\<rparr>)
           | (v, IdleOkNotified) \<Rightarrow> schedule owner (t\<lparr>hdr := v\<rparr>)
           | (v, IdleCancelled) \<Rightarrow> complete_task owner (Inl CancelledErr) (t\<lparr>hdr := v\<rparr>))
      | PollPanicked p \<Rightarrow> complete_task owner (Inl (PanicErr p)) t)"

section \<open>Join and abort handles\<close>

definition try_read_output ::
  "bool \<Rightarrow> waker \<Rightarrow> 'o task \<Rightarrow> fault + ('o join_result option \<times> 'o task)" where
  "try_read_output owner w t =
     (case stage t of
        Finished r \<Rightarrow>
          and_then (drop_reference owner (t\<lparr>stage := Consumed\<rparr>)) (\<lambda>t'. Inr (Some r, t'))
      | _ \<Rightarrow>
          (let t1 = t\<lparr>trailer := Some w\<rparr>;
               (v, ok) = state_set_join_waker (hdr t1);
               t2 = t1\<lparr>hdr := v\<rparr>
           in Inr (None, if ok then t2 else wake_join_handle t2)))"

definition drop_join_handle_slow :: "bool \<Rightarrow> 'o task \<Rightarrow> fault + 'o task" where
  "drop_join_handle_slow owner t =
     (let (v1, before) = state_unset_join_interest (hdr t);
          (v2, _) = state_unset_join_waker v1;
          t1 = t\<lparr>hdr := v2, trailer := None\<rparr>;
          t2 = (if is_complete before then discard_finished_output t1 else t1)
      in drop_reference owner t2)"

definition shutdown_task :: "bool \<Rightarrow> 'o task \<Rightarrow> fault + 'o task" where
  "shutdown_task owner t =
     (let (v, before) = state_set_cancelled (hdr t);
          t1 = t\<lparr>hdr := v\<rparr>
      in if is_complete before \<or> is_cancelled before then Inr t1
         else if is_running before then Inr t1
         else if is_notified before then Inr t1
         else finalize owner (Inl CancelledErr) t1)"

section \<open>Spawning\<close>

definition raw_task_new :: "'o task" where
  "raw_task_new =
     \<lparr>hdr = state_new, stage = StageRunning, trailer = None, queue = [], registered = False,
      sched_shutdown = False, woken = [], deallocs = 0\<rparr>"

text \<open>\<open>spawn_named\<close>: allocate, register, push the first entry.\<close>

definition spawn_named :: "fault + 'o task" where
  "spawn_named = and_then (register_task raw_task_new) (schedule True)"

section \<open>All holders of one task\<close>

text \<open>
  The task together with the references that exist: a poll in flight, the join handle, owned
  wakers, abort handles, and the registry entries that a runtime shutdown has taken over.
  \<open>outputs\<close> records what the join handle has returned.
\<close>

record 'o sys =
  tsk :: "'o task"
  polling :: bool
  join :: bool
  wakers :: nat
  aborts :: nat
  taken :: bool
  outputs :: "'o join_result list"

definition spawned :: "'o task \<Rightarrow> 'o sys" where
  "spawned t = \<lparr>tsk = t, polling = False, join = True, wakers = 0, aborts = 0, taken = False,
     outputs = []\<rparr>"

text \<open>
  One step of one holder. \<open>owner\<close> is arbitrary: any thread may perform the step. Each rule
  requires the reference that the Rust code holds at that point and nothing else.
\<close>

inductive task_step :: "'o sys \<Rightarrow> 'o sys \<Rightarrow> bool" where
  PollBegin: "queue (tsk s) = xs @ PollKind # ys \<Longrightarrow>
    poll_begin owner ((tsk s)\<lparr>queue := xs @ ys\<rparr>) = Inr (t, b) \<Longrightarrow>
    task_step s (s\<lparr>tsk := t, polling := polling s \<or> b\<rparr>)"
| PollEnd: "polling s \<Longrightarrow> poll_end owner r (tsk s) = Inr t \<Longrightarrow>
    task_step s (s\<lparr>tsk := t, polling := False\<rparr>)"
| CloneWaker: "polling s \<or> 0 < wakers s \<Longrightarrow> clone_ref (tsk s) = Inr t \<Longrightarrow>
    task_step s (s\<lparr>tsk := t, wakers := Suc (wakers s)\<rparr>)"
| WakeByRef: "polling s \<or> 0 < wakers s \<Longrightarrow> wake_by_ref owner (tsk s) = Inr t \<Longrightarrow>
    task_step s (s\<lparr>tsk := t\<rparr>)"
| WakeByVal: "0 < wakers s \<Longrightarrow> wake_by_val owner (tsk s) = Inr t \<Longrightarrow>
    task_step s (s\<lparr>tsk := t, wakers := wakers s - 1\<rparr>)"
| DropWaker: "0 < wakers s \<Longrightarrow> drop_reference owner (tsk s) = Inr t \<Longrightarrow>
    task_step s (s\<lparr>tsk := t, wakers := wakers s - 1\<rparr>)"
| JoinPending: "join s \<Longrightarrow> try_read_output owner w (tsk s) = Inr (None, t) \<Longrightarrow>
    task_step s (s\<lparr>tsk := t\<rparr>)"
| JoinReady: "join s \<Longrightarrow> try_read_output owner w (tsk s) = Inr (Some r, t) \<Longrightarrow>
    task_step s (s\<lparr>tsk := t, join := False, outputs := outputs s @ [r]\<rparr>)"
| JoinDrop: "join s \<Longrightarrow> drop_join_handle_slow owner (tsk s) = Inr t \<Longrightarrow>
    task_step s (s\<lparr>tsk := t, join := False\<rparr>)"
| Abort: "join s \<or> 0 < aborts s \<or> taken s \<Longrightarrow> shutdown_task owner (tsk s) = Inr t \<Longrightarrow>
    task_step s (s\<lparr>tsk := t\<rparr>)"
| NewAbortHandle: "join s \<or> 0 < aborts s \<Longrightarrow> clone_ref (tsk s) = Inr t \<Longrightarrow>
    task_step s (s\<lparr>tsk := t, aborts := Suc (aborts s)\<rparr>)"
| DropAbortHandle: "0 < aborts s \<Longrightarrow> drop_reference owner (tsk s) = Inr t \<Longrightarrow>
    task_step s (s\<lparr>tsk := t, aborts := aborts s - 1\<rparr>)"
| RuntimeShutdown: "task_step s (s\<lparr>tsk := (tsk s)\<lparr>sched_shutdown := True\<rparr>\<rparr>)"
| RuntimeTake: "sched_shutdown (tsk s) \<Longrightarrow> registered (tsk s) \<Longrightarrow> \<not> taken s \<Longrightarrow>
    task_step s (s\<lparr>tsk := (tsk s)\<lparr>registered := False\<rparr>, taken := True\<rparr>)"
| RuntimeDrop: "taken s \<Longrightarrow> drop_reference owner (tsk s) = Inr t \<Longrightarrow>
    task_step s (s\<lparr>tsk := t, taken := False\<rparr>)"
| RunDealloc: "queue (tsk s) = xs @ DeallocKind # ys \<Longrightarrow>
    task_step s (s\<lparr>tsk := dealloc_now ((tsk s)\<lparr>queue := xs @ ys\<rparr>)\<rparr>)"

inductive task_reachable :: "'o sys \<Rightarrow> bool" where
  task_init: "spawn_named = Inr t \<Longrightarrow> task_reachable (spawned t)"
| task_next: "task_reachable s \<Longrightarrow> task_step s s' \<Longrightarrow> task_reachable s'"

section \<open>The invariant\<close>

abbreviation flags :: "'o sys \<Rightarrow> task_flags" where
  "flags s \<equiv> abs_state (hdr (tsk s))"

text \<open>The number of references that exist.\<close>

definition nrefs :: "'o sys \<Rightarrow> nat" where
  "nrefs s = count_list (queue (tsk s)) PollKind + of_bool (polling s) + of_bool (join s)
     + wakers s + aborts s + of_bool (registered (tsk s)) + of_bool (taken s)"

definition task_core :: "'o sys \<Rightarrow> bool" where
  "task_core s \<longleftrightarrow>
     (let t = tsk s; a = abs_state (hdr t) in
      (queue t = [] \<or> queue t = [PollKind]) \<and>
      (running a = polling s) \<and>
      (polling s \<longrightarrow> queue t = [] \<and> \<not> complete a) \<and>
      (queue t = [PollKind] \<longrightarrow> notified a \<and> \<not> complete a) \<and>
      (complete a \<longrightarrow> \<not> notified a \<and> trailer t = None) \<and>
      (complete a \<longleftrightarrow> stage t \<noteq> StageRunning) \<and>
      (join s \<longrightarrow> join_interest a \<and> outputs s = [] \<and> stage t \<noteq> Consumed) \<and>
      (\<not> join s \<longrightarrow> (join_interest a \<longrightarrow> stage t = Consumed) \<and> (\<forall>r. stage t \<noteq> Finished r)) \<and>
      length (outputs s) \<le> 1 \<and>
      (\<not> sched_shutdown t \<longrightarrow> notified a \<and> \<not> polling s \<longrightarrow> queue t = [PollKind]) \<and>
      (\<not> sched_shutdown t \<longrightarrow> cancelled a \<and> \<not> complete a \<longrightarrow>
         polling s \<or> queue t = [PollKind]))"

definition task_alive :: "'o sys \<Rightarrow> bool" where
  "task_alive s \<longleftrightarrow> task_core s \<and> deallocs (tsk s) = 0 \<and> refs (flags s) = nrefs s \<and> 0 < nrefs s"

definition task_dead :: "'o sys \<Rightarrow> bool" where
  "task_dead s \<longleftrightarrow> \<not> polling s \<and> \<not> join s \<and> wakers s = 0 \<and> aborts s = 0 \<and> \<not> taken s \<and>
     \<not> registered (tsk s) \<and> length (outputs s) \<le> 1 \<and>
     (deallocs (tsk s) = 1 \<and> queue (tsk s) = [] \<or>
      deallocs (tsk s) = 0 \<and> queue (tsk s) = [DeallocKind])"

definition task_inv :: "'o sys \<Rightarrow> bool" where
  "task_inv s \<longleftrightarrow> task_alive s \<or> task_dead s"

section \<open>Handlers on the abstract state\<close>

text \<open>From here on every flag test is read on the abstract state.\<close>

lemmas sel_abs = abs_state_sel [symmetric]

declare abs_state_sel [simp del] sel_abs [simp]

lemma drop_reference_many:
  "1 < refs (abs_state (hdr t)) \<Longrightarrow> drop_reference owner t = Inr (t\<lparr>hdr := hdr t - REF_ONE\<rparr>)"
  by (simp add: drop_reference_def state_ref_dec_abs)

lemma refs_zero_flags:
  "refs (abs_state v) = 1 \<Longrightarrow> refs (abs_state (v - REF_ONE)) = 0"
  by (subst abs_state_sub_REF_ONE) auto

lemma drop_reference_last:
  assumes "refs (abs_state (hdr t)) = 1"
  shows "drop_reference owner t =
    (if owner then Inr (dealloc_now (t\<lparr>hdr := hdr t - REF_ONE\<rparr>))
     else Inr (t\<lparr>queue := queue t @ [DeallocKind]\<rparr>))"
proof -
  have "refs (abs_state (hdr t - REF_ONE)) < REF_LIMIT"
    using refs_zero_flags [OF assms] by simp
  then show ?thesis
    using assms by (simp add: drop_reference_def state_ref_dec_abs dealloc_def state_ref_inc_abs)
qed

text \<open>Dropping the reference that a holder has just given up keeps the invariant: the count
  still includes it, the holders no longer do.\<close>

lemma drop_reference_inv:
  assumes core: "task_core s" and alive: "deallocs (tsk s) = 0"
    and count: "refs (flags s) = Suc (nrefs s)" and drop: "drop_reference owner (tsk s) = Inr t"
  shows "task_inv (s\<lparr>tsk := t\<rparr>)"
proof (cases "nrefs s = 0")
  case True
  with count have one: "refs (flags s) = 1" by simp
  from True core have "queue (tsk s) = []"
    by (auto simp: nrefs_def task_core_def Let_def)
  with True core drop alive have "task_dead (s\<lparr>tsk := t\<rparr>)"
    unfolding drop_reference_last [OF one]
    by (auto simp: task_dead_def nrefs_def task_core_def dealloc_now_def Let_def split: if_splits)
  then show ?thesis by (simp add: task_inv_def)
next
  case False
  with count have many: "1 < refs (flags s)" by simp
  then have t: "t = (tsk s)\<lparr>hdr := hdr (tsk s) - REF_ONE\<rparr>"
    using drop by (simp add: drop_reference_many)
  have "abs_state (hdr (tsk s) - REF_ONE) = (flags s)\<lparr>refs := nrefs s\<rparr>"
    using count by (subst abs_state_sub_REF_ONE) auto
  with core False alive have "task_alive (s\<lparr>tsk := t\<rparr>)"
    by (simp add: t task_alive_def task_core_def nrefs_def Let_def) blast
  then show ?thesis by (simp add: task_inv_def)
qed

text \<open>Updates of the holders commute; one order is the normal form.\<close>

lemma sys_upd_swap:
  "s\<lparr>polling := p, tsk := t\<rparr> = s\<lparr>tsk := t, polling := p\<rparr>"
  "s\<lparr>join := p, tsk := t\<rparr> = s\<lparr>tsk := t, join := p\<rparr>"
  "s\<lparr>wakers := n, tsk := t\<rparr> = s\<lparr>tsk := t, wakers := n\<rparr>"
  "s\<lparr>aborts := n, tsk := t\<rparr> = s\<lparr>tsk := t, aborts := n\<rparr>"
  "s\<lparr>taken := p, tsk := t\<rparr> = s\<lparr>tsk := t, taken := p\<rparr>"
  "s\<lparr>outputs := os, tsk := t\<rparr> = s\<lparr>tsk := t, outputs := os\<rparr>"
  by simp_all

text \<open>Handing over a queue entry: the reference in hand becomes the entry's, or is dropped
  when the scheduler has been shut down.\<close>

lemma schedule_inv:
  assumes queued: "\<not> sched_shutdown (tsk s) \<Longrightarrow>
      task_core (s\<lparr>tsk := (tsk s)\<lparr>queue := [PollKind]\<rparr>\<rparr>)"
    and dropped: "sched_shutdown (tsk s) \<Longrightarrow> task_core s"
    and empty: "queue (tsk s) = []" and alive: "deallocs (tsk s) = 0"
    and count: "refs (flags s) = Suc (nrefs s)" and sched: "schedule owner (tsk s) = Inr t"
  shows "task_inv (s\<lparr>tsk := t\<rparr>)"
proof (cases "sched_shutdown (tsk s)")
  case True
  with sched have "drop_reference owner (tsk s) = Inr t"
    by (simp add: schedule_def notified_drop_def)
  with dropped [OF True] alive count show ?thesis by (rule drop_reference_inv)
next
  case False
  with sched empty have t: "t = (tsk s)\<lparr>queue := [PollKind]\<rparr>"
    by (simp add: schedule_def)
  from queued [OF False] alive count empty have "task_alive (s\<lparr>tsk := t\<rparr>)"
    by (simp add: t task_alive_def nrefs_def)
  then show ?thesis by (simp add: task_inv_def)
qed

text \<open>What \<open>finalize\<close> needs: nothing queued, the output not produced yet, and the
  \<open>JOIN_INTEREST\<close> flag in agreement with the join handle.\<close>

definition finalizable :: "'o sys \<Rightarrow> bool" where
  "finalizable s \<longleftrightarrow> queue (tsk s) = [] \<and> stage (tsk s) = StageRunning \<and>
     join_interest (flags s) = join s \<and> (join s \<longrightarrow> outputs s = []) \<and> length (outputs s) \<le> 1"

lemma finalize_eq:
  assumes "registered t \<Longrightarrow> 1 < refs (abs_state (hdr t))"
  shows "finalize owner r t =
    Inr (t\<lparr>stage := (if join_interest (abs_state (hdr t)) then Finished r else Consumed),
       hdr := fst (transition_to_complete (hdr t)) - (if registered t then REF_ONE else 0),
       trailer := None, woken := woken t @ wakes_of (trailer t), registered := False\<rparr>)"
proof -
  obtain v where fin: "transition_to_complete (hdr t) = (v, v)"
    by (metis abs_transition_to_complete(2) prod.collapse)
  have abs: "abs_state v = spec_complete (abs_state (hdr t))"
    using abs_transition_to_complete(1) [of "hdr t"] by (simp add: fin)
  have "registered t \<Longrightarrow> 1 < refs (abs_state v)"
    using assms by (simp add: abs spec_complete_def)
  then show ?thesis
    by (cases "registered t"; cases "join_interest (abs_state (hdr t))")
      (simp_all add: finalize_def Let_def fin abs spec_complete_def wake_join_handle_def
        discard_finished_output_def task_complete_def drop_reference_many)
qed

lemma finalize_core:
  assumes fin: "finalizable s" and reg: "registered (tsk s) \<Longrightarrow> 1 < refs (flags s)"
    and res: "finalize owner r (tsk s) = Inr t"
  defines "s' \<equiv> s\<lparr>tsk := t, polling := False\<rparr>"
  shows "task_core s'" "deallocs t = deallocs (tsk s)"
    "refs (flags s') = refs (flags s) - of_bool (registered (tsk s))"
    "nrefs s' = nrefs s - of_bool (polling s) - of_bool (registered (tsk s))"
proof -
  let ?v = "fst (transition_to_complete (hdr (tsk s)))"
  have abs: "abs_state ?v = spec_complete (flags s)"
    by (rule abs_transition_to_complete)
  have t: "t = (tsk s)\<lparr>stage := (if join_interest (flags s) then Finished r else Consumed),
       hdr := ?v - (if registered (tsk s) then REF_ONE else 0),
       trailer := None, woken := woken (tsk s) @ wakes_of (trailer (tsk s)),
       registered := False\<rparr>"
    using res finalize_eq [OF reg] by simp
  have flags': "flags s' = (spec_complete (flags s))
      \<lparr>refs := refs (flags s) - of_bool (registered (tsk s))\<rparr>"
    using reg by (auto simp: s'_def t abs spec_complete_def abs_state_sub_REF_ONE)
  show "task_core s'"
    using fin unfolding task_core_def Let_def flags'
    by (auto simp: s'_def t finalizable_def spec_complete_def)
  show "deallocs t = deallocs (tsk s)" by (simp add: t)
  show "refs (flags s') = refs (flags s) - of_bool (registered (tsk s))"
    by (simp add: flags' spec_complete_def)
  show "nrefs s' = nrefs s - of_bool (polling s) - of_bool (registered (tsk s))"
    by (simp add: nrefs_def s'_def t)
qed

lemma complete_task_inv:
  assumes fin: "finalizable s" and alive: "deallocs (tsk s) = 0"
    and count: "refs (flags s) = Suc (nrefs (s\<lparr>polling := False\<rparr>))"
    and res: "complete_task owner r (tsk s) = Inr t"
  shows "task_inv (s\<lparr>tsk := t, polling := False\<rparr>)"
proof -
  have reg: "registered (tsk s) \<Longrightarrow> 1 < refs (flags s)"
    using count by (simp add: nrefs_def)
  from res obtain t1 where t1: "finalize owner r (tsk s) = Inr t1"
    and drop: "drop_reference owner t1 = Inr t"
    by (auto simp: complete_task_def and_then_eq_Inr)
  note core = finalize_core [OF fin reg t1]
  let ?s1 = "s\<lparr>tsk := t1, polling := False\<rparr>"
  have "refs (flags ?s1) = Suc (nrefs ?s1)"
    using core(3,4) count by (cases "registered (tsk s)"; cases "polling s") (auto simp: nrefs_def)
  with core(1,2) alive drop have "task_inv (?s1\<lparr>tsk := t\<rparr>)"
    by (intro drop_reference_inv) auto
  moreover have "?s1\<lparr>tsk := t\<rparr> = s\<lparr>tsk := t, polling := False\<rparr>" by simp
  ultimately show ?thesis by metis
qed

section \<open>Every step keeps the invariant\<close>

lemma alive_of_holder:
  assumes "task_inv s"
    and "polling s \<or> join s \<or> 0 < wakers s \<or> 0 < aborts s \<or> taken s \<or> registered (tsk s)"
  shows "task_alive s"
  using assms by (auto simp: task_inv_def task_dead_def)

lemma alive_of_queued:
  assumes "task_inv s" and "queue (tsk s) = xs @ PollKind # ys"
  shows "task_alive s" "xs = []" "ys = []"
  using assms
  by (auto simp: task_inv_def task_dead_def task_alive_def task_core_def Let_def
      append_eq_Cons_conv Cons_eq_append_conv)

lemmas alive_defs = task_alive_def task_core_def nrefs_def Let_def

text \<open>The pieces of the invariant that the case analyses use.\<close>

lemma task_aliveD:
  assumes "task_alive s"
  shows "running (flags s) = polling s" "deallocs (tsk s) = 0" "refs (flags s) = nrefs s"
    "task_core s" "complete (flags s) \<longleftrightarrow> stage (tsk s) \<noteq> StageRunning"
    "join s \<Longrightarrow> stage (tsk s) \<noteq> Consumed"
    "\<not> notified (flags s) \<Longrightarrow> queue (tsk s) = []"
  using assms by (auto simp: task_alive_def task_core_def Let_def)

lemma task_core_holders [simp]:
  "task_core (s\<lparr>wakers := n\<rparr>) = task_core s" "task_core (s\<lparr>aborts := n\<rparr>) = task_core s"
  "task_core (s\<lparr>taken := b\<rparr>) = task_core s"
  by (simp_all add: task_core_def)

lemma poll_begin_inv:
  assumes inv: "task_inv s" and q: "queue (tsk s) = xs @ PollKind # ys"
    and res: "poll_begin owner ((tsk s)\<lparr>queue := xs @ ys\<rparr>) = Inr (t, b)"
  shows "task_inv (s\<lparr>tsk := t, polling := polling s \<or> b\<rparr>)"
proof -
  note alive = alive_of_queued [OF inv q]
  let ?t0 = "(tsk s)\<lparr>queue := []\<rparr>"
  let ?s0 = "s\<lparr>tsk := ?t0\<rparr>"
  from alive q have q1: "queue (tsk s) = [PollKind]" by simp
  with alive(1) have idle: "\<not> polling s" "\<not> running (flags s)" "\<not> complete (flags s)"
    "stage (tsk s) = StageRunning" "deallocs (tsk s) = 0" "refs (flags s) = Suc (nrefs ?s0)"
    by (auto simp: alive_defs)
  show ?thesis
  proof (cases "cancelled (flags s)")
    case True
    with idle res alive(2,3) have c: "complete_task owner (Inl CancelledErr) (tsk ?s0) = Inr t"
      and b: "\<not> b"
      by (auto simp: poll_begin_def transition_to_running_def fetch_update_action_def
          running_action_def and_then_eq_Inr)
    have "finalizable ?s0" using alive(1) q1 by (auto simp: finalizable_def alive_defs)
    from complete_task_inv [OF this _ _ c] idle b show ?thesis
      by (simp add: nrefs_def)
  next
    case False
    let ?v = "unset_notified (set_running (hdr (tsk s)))"
    from False idle res alive(2,3) have t: "t = ?t0\<lparr>hdr := ?v\<rparr>" and b: "b"
      by (auto simp: poll_begin_def transition_to_running_def fetch_update_action_def
          running_action_def)
    have "task_alive (s\<lparr>tsk := t, polling := True\<rparr>)"
      using alive(1) idle q1 False by (auto simp: t alive_defs)
    with b show ?thesis by (simp add: task_inv_def)
  qed
qed

lemma poll_end_inv:
  assumes inv: "task_inv s" and pol: "polling s" and res: "poll_end owner r (tsk s) = Inr t"
  shows "task_inv (s\<lparr>tsk := t, polling := False\<rparr>)"
proof -
  from alive_of_holder [OF inv] pol have alive: "task_alive s" by blast
  let ?s0 = "s\<lparr>polling := False\<rparr>"
  let ?v = "unset_running (hdr (tsk s))"
  let ?s1 = "s\<lparr>tsk := (tsk s)\<lparr>hdr := ?v\<rparr>, polling := False\<rparr>"
  from alive pol have f: "finalizable s" "deallocs (tsk s) = 0"
    "refs (flags s) = Suc (nrefs ?s0)"
    by (auto simp: finalizable_def alive_defs)
  have f1: "finalizable ?s1" "refs (flags ?s1) = Suc (nrefs ?s1)"
    using f by (auto simp: finalizable_def nrefs_def)
  consider (ready) x where "complete_task owner x (tsk s) = Inr t"
    | (cancel) "complete_task owner (Inl CancelledErr) (tsk ?s1) = Inr t"
    | (idle) "\<not> notified (flags s)" "\<not> cancelled (flags s)" "drop_reference owner (tsk ?s1) = Inr t"
    | (again) "notified (flags s)" "\<not> cancelled (flags s)" "schedule owner (tsk ?s1) = Inr t"
    using res
    by (cases r) (auto simp: poll_end_def transition_to_idle_def fetch_update_action_def
        idle_action_def Let_def split: if_splits)
  then show ?thesis
  proof cases
    case ready
    from complete_task_inv [OF f ready] show ?thesis .
  next
    case cancel
    from complete_task_inv [OF f1(1) _ _ cancel] f f1 show ?thesis
      by (simp add: nrefs_def)
  next
    case idle
    have "task_core ?s1" using alive pol idle(1,2) by (auto simp: alive_defs)
    from drop_reference_inv [OF this _ f1(2) idle(3)] f have "task_inv (?s1\<lparr>tsk := t\<rparr>)" by simp
    then show ?thesis by (simp add: sys_upd_swap)
  next
    case again
    have "task_core (?s1\<lparr>tsk := (tsk ?s1)\<lparr>queue := [PollKind]\<rparr>\<rparr>)"
      using alive pol again(1,2) by (auto simp: alive_defs)
    moreover have "sched_shutdown (tsk ?s1) \<Longrightarrow> task_core ?s1"
      using alive pol again(1,2) by (auto simp: alive_defs)
    moreover have "queue (tsk ?s1) = []" using f1 by (simp add: finalizable_def)
    ultimately have "task_inv (?s1\<lparr>tsk := t\<rparr>)"
      using f f1 again(3) by (intro schedule_inv) auto
    then show ?thesis by (simp add: sys_upd_swap)
  qed
qed

lemma clone_ref_inv:
  assumes alive: "task_alive s" and res: "clone_ref (tsk s) = Inr t"
  shows "task_inv (s\<lparr>tsk := t, wakers := Suc (wakers s)\<rparr>)"
    and "task_inv (s\<lparr>tsk := t, aborts := Suc (aborts s)\<rparr>)"
proof -
  from res have lim: "refs (flags s) < REF_LIMIT"
    and t: "t = (tsk s)\<lparr>hdr := hdr (tsk s) + REF_ONE\<rparr>"
    by (auto simp: clone_ref_def state_ref_inc_abs split: if_splits)
  from alive have "task_alive (s\<lparr>tsk := t, wakers := Suc (wakers s)\<rparr>)"
    and "task_alive (s\<lparr>tsk := t, aborts := Suc (aborts s)\<rparr>)"
    by (auto simp: t alive_defs abs_state_add_REF_ONE [OF lim])
  then show "task_inv (s\<lparr>tsk := t, wakers := Suc (wakers s)\<rparr>)"
    and "task_inv (s\<lparr>tsk := t, aborts := Suc (aborts s)\<rparr>)"
    by (simp_all add: task_inv_def)
qed


lemma wake_by_ref_inv:
  assumes alive: "task_alive s" and res: "wake_by_ref owner (tsk s) = Inr t"
  shows "task_inv (s\<lparr>tsk := t\<rparr>)"
proof -
  let ?v = "set_notified (hdr (tsk s))"
  let ?s1 = "s\<lparr>tsk := (tsk s)\<lparr>hdr := ?v + REF_ONE\<rparr>\<rparr>"
  consider (nothing) "t = tsk s"
    | (deferred) "polling s" "t = (tsk s)\<lparr>hdr := ?v\<rparr>" "\<not> complete (flags s)" "\<not> cancelled (flags s)"
    | (submit) "\<not> polling s" "\<not> complete (flags s)" "\<not> notified (flags s)" "\<not> cancelled (flags s)"
      "refs (flags s) < REF_LIMIT" "schedule owner (tsk ?s1) = Inr t"
    using res task_aliveD(1) [OF alive]
    by (auto simp: wake_by_ref_def transition_to_notified_by_ref_def notified_by_ref_action_def
        fetch_update_action_def snapshot_ref_inc_abs split: if_splits)
  then show ?thesis
  proof cases
    case nothing
    with alive show ?thesis by (simp add: task_inv_def)
  next
    case deferred
    with alive have "task_alive (s\<lparr>tsk := t\<rparr>)" by (auto simp: alive_defs)
    then show ?thesis by (simp add: task_inv_def)
  next
    case submit
    have lim: "refs (abs_state ?v) < REF_LIMIT" using submit(5) by simp
    have q: "queue (tsk s) = []" using task_aliveD(7) [OF alive submit(3)] .
    have "task_core (?s1\<lparr>tsk := (tsk ?s1)\<lparr>queue := [PollKind]\<rparr>\<rparr>)"
      and "sched_shutdown (tsk ?s1) \<Longrightarrow> task_core ?s1"
      and "refs (flags ?s1) = Suc (nrefs ?s1)"
      using alive submit(1-4) q by (auto simp: alive_defs abs_state_add_REF_ONE [OF lim])
    then have "task_inv (?s1\<lparr>tsk := t\<rparr>)"
      using alive q submit(6) by (intro schedule_inv) (auto simp: task_alive_def)
    then show ?thesis by simp
  qed
qed

text \<open>A holder with a spendable reference: waking by value or dropping.\<close>

lemma drop_holder_inv:
  assumes "task_alive s" "drop_reference owner (tsk s) = Inr t"
  shows "0 < wakers s \<Longrightarrow> task_inv (s\<lparr>tsk := t, wakers := wakers s - 1\<rparr>)"
    and "0 < aborts s \<Longrightarrow> task_inv (s\<lparr>tsk := t, aborts := aborts s - 1\<rparr>)"
    and "taken s \<Longrightarrow> task_inv (s\<lparr>tsk := t, taken := False\<rparr>)"
proof -
  note alive = task_aliveD [OF assms(1)]
  show "0 < wakers s \<Longrightarrow> task_inv (s\<lparr>tsk := t, wakers := wakers s - 1\<rparr>)"
    using drop_reference_inv [of "s\<lparr>wakers := wakers s - 1\<rparr>" owner t] alive(2-4) assms(2)
    by (simp add: nrefs_def sys_upd_swap)
  show "0 < aborts s \<Longrightarrow> task_inv (s\<lparr>tsk := t, aborts := aborts s - 1\<rparr>)"
    using drop_reference_inv [of "s\<lparr>aborts := aborts s - 1\<rparr>" owner t] alive(2-4) assms(2)
    by (simp add: nrefs_def sys_upd_swap)
  show "taken s \<Longrightarrow> task_inv (s\<lparr>tsk := t, taken := False\<rparr>)"
    using drop_reference_inv [of "s\<lparr>taken := False\<rparr>" owner t] alive(2-4) assms(2)
    by (simp add: nrefs_def sys_upd_swap)
qed

lemma wake_by_val_inv:
  assumes alive: "task_alive s" and w: "0 < wakers s" and res: "wake_by_val owner (tsk s) = Inr t"
  shows "task_inv (s\<lparr>tsk := t, wakers := wakers s - 1\<rparr>)"
proof -
  let ?v = "set_notified (hdr (tsk s))"
  let ?s1 = "s\<lparr>tsk := (tsk s)\<lparr>hdr := ?v\<rparr>\<rparr>"
  let ?s2 = "?s1\<lparr>wakers := wakers s - 1\<rparr>"
  consider (nothing) "drop_reference owner (tsk s) = Inr t"
    | (deferred) "polling s" "\<not> complete (flags s)" "\<not> cancelled (flags s)"
      "drop_reference owner (tsk ?s1) = Inr t"
    | (submit) "\<not> polling s" "\<not> complete (flags s)" "\<not> notified (flags s)" "\<not> cancelled (flags s)"
      "schedule owner (tsk ?s2) = Inr t"
    using res task_aliveD(1) [OF alive]
    by (auto simp: wake_by_val_def transition_to_notified_by_val_def notified_by_val_action_def
        fetch_update_action_def split: if_splits)
  then show ?thesis
  proof cases
    case nothing
    with alive w show ?thesis by (intro drop_holder_inv)
  next
    case deferred
    with alive have "task_alive ?s1" by (auto simp: alive_defs)
    from drop_holder_inv(1) [OF this deferred(4)] w show ?thesis by simp
  next
    case submit
    have q: "queue (tsk s) = []" using task_aliveD(7) [OF alive submit(3)] .
    have "task_core (?s2\<lparr>tsk := (tsk ?s2)\<lparr>queue := [PollKind]\<rparr>\<rparr>)"
      and "sched_shutdown (tsk ?s2) \<Longrightarrow> task_core ?s2"
      and "refs (flags ?s2) = Suc (nrefs ?s2)"
      using alive submit(1-4) q w by (auto simp: alive_defs)
    then have "task_inv (?s2\<lparr>tsk := t\<rparr>)"
      using alive q submit(5) by (intro schedule_inv) (auto simp: task_alive_def)
    then show ?thesis by (simp add: sys_upd_swap)
  qed
qed

lemma try_read_output_pending_inv:
  assumes alive: "task_alive s" and j: "join s"
    and res: "try_read_output owner w (tsk s) = Inr (None, t)"
  shows "task_inv (s\<lparr>tsk := t\<rparr>)"
proof -
  have st: "stage (tsk s) = StageRunning" "\<not> complete (flags s)"
    using res task_aliveD(5,6) [OF alive] j
    by (cases "stage (tsk s)"; auto simp: try_read_output_def and_then_eq_Inr)+
  with res have "t = (tsk s)\<lparr>hdr := set_join_waker (hdr (tsk s)), trailer := Some w\<rparr>"
    by (auto simp: try_read_output_def state_set_join_waker_def fetch_update_action_def Let_def)
  with alive st have "task_alive (s\<lparr>tsk := t\<rparr>)" by (auto simp: alive_defs)
  then show ?thesis by (simp add: task_inv_def)
qed

lemma try_read_output_ready_inv:
  assumes alive: "task_alive s" and j: "join s"
    and res: "try_read_output owner w (tsk s) = Inr (Some r, t)"
  shows "task_inv (s\<lparr>tsk := t, join := False, outputs := outputs s @ [r]\<rparr>)"
proof -
  let ?s1 = "s\<lparr>tsk := (tsk s)\<lparr>stage := Consumed\<rparr>, join := False, outputs := outputs s @ [r]\<rparr>"
  have st: "stage (tsk s) = Finished r" and drop: "drop_reference owner (tsk ?s1) = Inr t"
    using res by (auto simp: try_read_output_def Let_def and_then_eq_Inr
        split: Stage.splits prod.splits if_splits)
  have "task_core ?s1" and "refs (flags ?s1) = Suc (nrefs ?s1)" and "deallocs (tsk ?s1) = 0"
    using alive j st by (auto simp: alive_defs)
  from drop_reference_inv [OF this(1) this(3) this(2) drop] show ?thesis
    by (simp add: sys_upd_swap)
qed

lemma drop_join_handle_inv:
  assumes alive: "task_alive s" and j: "join s"
    and res: "drop_join_handle_slow owner (tsk s) = Inr t"
  shows "task_inv (s\<lparr>tsk := t, join := False\<rparr>)"
proof -
  let ?v = "unset_join_waker (unset_join_interest (hdr (tsk s)))"
  let ?st = "if complete (flags s) then Consumed else stage (tsk s)"
  let ?s1 = "s\<lparr>tsk := (tsk s)\<lparr>hdr := ?v, trailer := None, stage := ?st\<rparr>, join := False\<rparr>"
  have fin: "complete (flags s) \<Longrightarrow> \<exists>r. stage (tsk s) = Finished r"
    using alive j by (cases "stage (tsk s)") (auto simp: alive_defs)
  have drop: "drop_reference owner (tsk ?s1) = Inr t"
    using res fin
    by (auto simp: drop_join_handle_slow_def state_unset_join_interest_def
        state_unset_join_waker_def fetch_update_action_def Let_def discard_finished_output_def
        split: if_splits)
  have "task_core ?s1" and "refs (flags ?s1) = Suc (nrefs ?s1)" and "deallocs (tsk ?s1) = 0"
    using alive j by (auto simp: alive_defs)
  from drop_reference_inv [OF this(1) this(3) this(2) drop] show ?thesis
    by (simp add: sys_upd_swap)
qed

lemma shutdown_task_inv:
  assumes alive: "task_alive s" and h: "join s \<or> 0 < aborts s \<or> taken s"
    and res: "shutdown_task owner (tsk s) = Inr t"
  shows "task_inv (s\<lparr>tsk := t\<rparr>)"
proof -
  let ?v = "set_cancelled (hdr (tsk s))"
  let ?s1 = "s\<lparr>tsk := (tsk s)\<lparr>hdr := ?v\<rparr>\<rparr>"
  consider (flag) "complete (flags s) \<or> cancelled (flags s) \<or> polling s \<or> notified (flags s)"
      "t = tsk ?s1"
    | (idle) "\<not> complete (flags s)" "\<not> polling s" "\<not> notified (flags s)"
      "finalize owner (Inl CancelledErr) (tsk ?s1) = Inr t"
    using res task_aliveD(1) [OF alive]
    by (auto simp: shutdown_task_def state_set_cancelled_def fetch_update_action_def Let_def
        split: if_splits)
  then show ?thesis
  proof cases
    case flag
    with alive have "task_alive (s\<lparr>tsk := t\<rparr>)" by (auto simp: alive_defs)
    then show ?thesis by (simp add: task_inv_def)
  next
    case idle
    have f: "finalizable ?s1" using alive idle(1-3) by (auto simp: finalizable_def alive_defs)
    have reg: "registered (tsk ?s1) \<Longrightarrow> 1 < refs (flags ?s1)"
      using alive h by (auto simp: alive_defs)
    note core = finalize_core [OF f reg idle(4)]
    have p: "s\<lparr>tsk := t, polling := False\<rparr> = s\<lparr>tsk := t\<rparr>" using idle(2) by simp
    have "task_alive (s\<lparr>tsk := t\<rparr>)"
      unfolding task_alive_def
      using core alive h idle(2) by (auto simp: p task_alive_def nrefs_def)
    then show ?thesis by (simp add: task_inv_def)
  qed
qed

theorem task_step_inv: "task_step s s' \<Longrightarrow> task_inv s \<Longrightarrow> task_inv s'"
proof (induction rule: task_step.induct)
  case (RuntimeShutdown s)
  have "task_alive s \<Longrightarrow> task_alive (s\<lparr>tsk := (tsk s)\<lparr>sched_shutdown := True\<rparr>\<rparr>)"
    by (simp add: alive_defs) blast
  moreover have "task_dead s \<Longrightarrow> task_dead (s\<lparr>tsk := (tsk s)\<lparr>sched_shutdown := True\<rparr>\<rparr>)"
    by (simp add: task_dead_def)
  ultimately show ?case using RuntimeShutdown by (auto simp: task_inv_def)
next
  case (RuntimeTake s)
  from alive_of_holder [OF RuntimeTake(4)] RuntimeTake have "task_alive s" by blast
  with RuntimeTake(1-3)
  have "task_alive (s\<lparr>tsk := (tsk s)\<lparr>registered := False\<rparr>, taken := True\<rparr>)"
    by (auto simp: alive_defs)
  then show ?case by (simp add: task_inv_def)
next
  case (RunDealloc s xs ys)
  then have "task_dead s" and "queue (tsk s) = [DeallocKind]"
    by (auto simp: task_inv_def alive_defs task_dead_def append_eq_Cons_conv Cons_eq_append_conv)
  with RunDealloc(1) show ?case
    by (auto simp: task_inv_def task_dead_def dealloc_now_def append_eq_Cons_conv
        Cons_eq_append_conv)
qed (use alive_of_holder in
    \<open>blast intro: poll_begin_inv poll_end_inv clone_ref_inv wake_by_ref_inv wake_by_val_inv
      drop_holder_inv try_read_output_pending_inv try_read_output_ready_inv drop_join_handle_inv
      shutdown_task_inv\<close>)+

section \<open>Reachable states\<close>

lemma spawn_named_eq:
  "spawn_named = Inr \<lparr>hdr = 0x30014, stage = StageRunning, trailer = None, queue = [PollKind],
     registered = True, sched_shutdown = False, woken = [], deallocs = 0\<rparr>"
  by (simp add: spawn_named_def register_task_def raw_task_new_def clone_ref_def state_ref_inc_def
      Let_def state_new_def REF_ONE_def REF_MASK_def REF_MAX_COUNT_def REF_MAX_def
      JOIN_INTEREST_def NOTIFIED_def schedule_def)

lemma abs_state_spawned:
  "abs_state 0x30014 = \<lparr>running = False, complete = False, notified = True, cancelled = False,
     join_interest = True, join_waker = False, refs = 3\<rparr>"
  by (simp del: sel_abs add: abs_state_def is_running_def is_complete_def is_notified_def
      is_cancelled_def has_join_interest_def has_join_waker_def RUNNING_def COMPLETE_def
      NOTIFIED_def CANCELLED_def JOIN_INTEREST_def JOIN_WAKER_SET_def ref_count_def REF_MASK_def
      REF_ONE_def)

lemma task_reachable_inv: "task_reachable s \<Longrightarrow> task_inv s"
proof (induction rule: task_reachable.induct)
  case (task_init t)
  then have t: "t = \<lparr>hdr = 0x30014, stage = StageRunning, trailer = None, queue = [PollKind],
     registered = True, sched_shutdown = False, woken = [], deallocs = 0\<rparr>"
    unfolding spawn_named_eq by simp
  have "task_alive (spawned t)"
    by (simp add: t spawned_def abs_state_spawned alive_defs)
  then show ?case by (simp add: task_inv_def)
qed (rule task_step_inv)

lemma reachable_alive:
  assumes "task_reachable s" and "0 < nrefs s"
  shows "task_alive s"
  using task_reachable_inv [OF assms(1)] assms(2)
  by (auto simp: task_inv_def task_dead_def nrefs_def)

section \<open>Progress of an aborted task\<close>

lemma complete_task_total:
  assumes "0 < refs (abs_state (hdr t))" "registered t \<Longrightarrow> 1 < refs (abs_state (hdr t))"
  shows "\<exists>t'. complete_task True r t = Inr t' \<and> stage t' \<noteq> StageRunning"
proof -
  obtain t1 where t1: "finalize True r t = Inr t1" "stage t1 \<noteq> StageRunning"
    using finalize_eq [OF assms(2)] by auto
  have "\<exists>t2. drop_reference True t1 = Inr t2 \<and> stage t2 = stage t1"
    by (simp add: drop_reference_def dealloc_def dealloc_now_def split: prod.split)
  then obtain t2 where "drop_reference True t1 = Inr t2" "stage t2 = stage t1" by blast
  with t1 show ?thesis by (auto simp: complete_task_def)
qed

lemma cancelled_poll_begin:
  assumes "cancelled (abs_state (hdr t))" "\<not> complete (abs_state (hdr t))"
    and "0 < refs (abs_state (hdr t))" "registered t \<Longrightarrow> 1 < refs (abs_state (hdr t))"
  shows "\<exists>t'. poll_begin True t = Inr (t', False) \<and> stage t' \<noteq> StageRunning"
proof -
  obtain t' where "complete_task True (Inl CancelledErr) t = Inr t'" "stage t' \<noteq> StageRunning"
    using complete_task_total [OF assms(3,4)] by blast
  with assms(1,2) show ?thesis
    by (simp add: poll_begin_def transition_to_running_def fetch_update_action_def
        running_action_def)
qed

lemma cancelled_poll_end:
  assumes "cancelled (abs_state (hdr t))"
    and "0 < refs (abs_state (hdr t))" "registered t \<Longrightarrow> 1 < refs (abs_state (hdr t))"
  shows "\<exists>t'. poll_end True r t = Inr t' \<and> stage t' \<noteq> StageRunning"
proof (cases r)
  case PollPending
  have "\<exists>t'. complete_task True (Inl CancelledErr) (t\<lparr>hdr := unset_running (hdr t)\<rparr>) = Inr t' \<and>
      stage t' \<noteq> StageRunning"
    using assms by (intro complete_task_total) auto
  with assms(1) PollPending show ?thesis
    by (auto simp: poll_end_def transition_to_idle_def fetch_update_action_def idle_action_def
        Let_def)
qed (use complete_task_total [OF assms(2,3)] in \<open>auto simp: poll_end_def\<close>)

section \<open>Which faults a handler can raise\<close>

lemma drop_reference_fault: "drop_reference owner t \<noteq> Inl UnreachablePanic"
  by (simp add: drop_reference_def dealloc_def split: prod.split option.split)

lemma finalize_fault: "finalize owner r t \<noteq> Inl UnreachablePanic"
  by (simp add: finalize_def task_complete_def Let_def drop_reference_fault split: prod.split)

lemma complete_task_fault: "complete_task owner r t \<noteq> Inl UnreachablePanic"
  unfolding complete_task_def by (intro and_then_not_Inl finalize_fault drop_reference_fault)

lemma poll_begin_fault:
  assumes "stage t = StageRunning"
  shows "poll_begin owner t \<noteq> Inl UnreachablePanic"
proof -
  obtain v r where tr: "transition_to_running (hdr t) = (v, r)" by fastforce
  show ?thesis
  proof (cases r)
    case RunningSuccess
    with tr assms show ?thesis by (simp add: poll_begin_def)
  next
    case (RunningFailed snap)
    have f: "and_then m (\<lambda>t'. Inr (t', False)) \<noteq> Inl UnreachablePanic"
      if "m \<noteq> Inl UnreachablePanic" for m :: "fault + 'a task"
      using that by (cases m) auto
    from RunningFailed tr show ?thesis
      by (simp add: poll_begin_def f [OF complete_task_fault] f [OF drop_reference_fault])
  qed
qed

section \<open>Entries dropped by a shut down scheduler\<close>

text \<open>A cancelled task whose only queue entry was dropped: nothing will finalize it.\<close>

definition stranded :: "'o sys \<Rightarrow> bool" where
  "stranded s \<longleftrightarrow> sched_shutdown (tsk s) \<and> cancelled (flags s) \<and> \<not> complete (flags s) \<and>
     \<not> polling s \<and> PollKind \<notin> set (queue (tsk s)) \<and> stage (tsk s) = StageRunning"

lemma drop_reference_stranded:
  assumes "task_alive s" "stranded s" "drop_reference owner (tsk s) = Inr t"
  shows "sched_shutdown t \<and> cancelled (abs_state (hdr t)) \<and> \<not> complete (abs_state (hdr t)) \<and>
    PollKind \<notin> set (queue t) \<and> stage t = StageRunning"
proof (cases "refs (flags s) = 1")
  case True
  have "abs_state (hdr (tsk s) - REF_ONE) = (flags s)\<lparr>refs := 0\<rparr>"
    using True by (subst abs_state_sub_REF_ONE) auto
  with True assms(2,3) show ?thesis
    unfolding drop_reference_last [OF True]
    by (auto simp: stranded_def dealloc_now_def split: if_splits)
next
  case False
  with assms(1) have "1 < refs (flags s)" by (auto simp: task_alive_def)
  with assms(2,3) show ?thesis
    by (auto simp: stranded_def drop_reference_many abs_state_sub_REF_ONE)
qed

lemma stranded_step:
  assumes "task_step s s'" "task_inv s" "stranded s"
  shows "stranded s'"
  using assms
proof (induction rule: task_step.induct)
  case (CloneWaker s t)
  then show ?case
    by (auto simp: stranded_def clone_ref_def state_ref_inc_abs abs_state_add_REF_ONE
        split: if_splits)
next
  case (NewAbortHandle s t)
  then show ?case
    by (auto simp: stranded_def clone_ref_def state_ref_inc_abs abs_state_add_REF_ONE
        split: if_splits)
next
  case (WakeByRef s owner t)
  then show ?case
    by (auto simp: stranded_def wake_by_ref_def transition_to_notified_by_ref_def
        notified_by_ref_action_def fetch_update_action_def)
next
  case (WakeByVal s owner t)
  then have "drop_reference owner (tsk s) = Inr t"
    by (auto simp: stranded_def wake_by_val_def transition_to_notified_by_val_def
        notified_by_val_action_def fetch_update_action_def)
  moreover have "task_alive s" using WakeByVal alive_of_holder by blast
  ultimately show ?case
    using drop_reference_stranded [of s owner t] WakeByVal(4) by (simp add: stranded_def)
next
  case (JoinPending s owner w t)
  then show ?case
    by (auto simp: stranded_def try_read_output_def state_set_join_waker_def
        fetch_update_action_def Let_def)
next
  case (JoinReady s owner w r t)
  then show ?case
    by (auto simp: stranded_def try_read_output_def Let_def split: prod.splits if_splits)
next
  case (JoinDrop s owner t)
  let ?v = "unset_join_waker (unset_join_interest (hdr (tsk s)))"
  let ?s1 = "s\<lparr>tsk := (tsk s)\<lparr>hdr := ?v, trailer := None\<rparr>\<rparr>"
  have alive: "task_alive s" using JoinDrop alive_of_holder by blast
  then have pos: "0 < refs (flags s)" by (simp add: task_alive_def)
  have drop: "drop_reference owner (tsk ?s1) = Inr t"
    using JoinDrop
    by (auto simp: drop_join_handle_slow_def state_unset_join_interest_def stranded_def
        state_unset_join_waker_def fetch_update_action_def Let_def)
  show ?case
  proof (cases "refs (flags s) = 1")
    case True
    then have one: "refs (abs_state (hdr (tsk ?s1))) = 1" by simp
    show ?thesis
      using drop JoinDrop(4) True unfolding drop_reference_last [OF one]
      by (auto simp: stranded_def dealloc_now_def abs_state_sub_REF_ONE split: if_splits)
  next
    case False
    with pos drop JoinDrop(4) show ?thesis
      by (auto simp: stranded_def drop_reference_many abs_state_sub_REF_ONE)
  qed
next
  case (Abort s owner t)
  then show ?case
    by (auto simp: stranded_def shutdown_task_def state_set_cancelled_def
        fetch_update_action_def Let_def)
next
  case (DropWaker s owner t)
  moreover from this have "task_alive s" using alive_of_holder by blast
  ultimately show ?case
    using drop_reference_stranded [of s owner t] by (simp add: stranded_def)
next
  case (DropAbortHandle s owner t)
  moreover from this have "task_alive s" using alive_of_holder by blast
  ultimately show ?case
    using drop_reference_stranded [of s owner t] by (simp add: stranded_def)
next
  case (RuntimeDrop s owner t)
  moreover from this have "task_alive s" using alive_of_holder by blast
  ultimately show ?case
    using drop_reference_stranded [of s owner t] by (simp add: stranded_def)
qed (auto simp: stranded_def dealloc_now_def)

section \<open>Properties\<close>

text \<open>A concrete run, used by the witnesses: the state right after \<open>spawn\<close>.\<close>

definition spawn_example :: "nat sys" where
  "spawn_example = spawned \<lparr>hdr = 0x30014, stage = StageRunning, trailer = None,
     queue = [PollKind], registered = True, sched_shutdown = False, woken = [], deallocs = 0\<rparr>"

lemma spawn_example_reachable: "task_reachable spawn_example"
  unfolding spawn_example_def by (rule task_init) (rule spawn_named_eq)

lemma spawn_example_refs: "nrefs spawn_example = 3"
  by (simp add: spawn_example_def spawned_def nrefs_def)

text \<open>C1. Reference counting is exact in every interleaving of polls, wakes, joins, aborts and
  runtime shutdown: while any holder exists, the count in the word equals the number of
  holders and the cell has not been freed; once none is left it has been freed exactly once,
  or exactly one deferred deallocation entry is on its way to the owner thread. So there is
  no use after free, no double free and no leak.\<close>

theorem task_refcount_exact:
  assumes "task_reachable s"
  shows "deallocs (tsk s) \<le> 1 \<and>
    (0 < nrefs s \<longrightarrow> deallocs (tsk s) = 0 \<and> unat (ref_count (hdr (tsk s))) = nrefs s) \<and>
    (nrefs s = 0 \<longrightarrow> deallocs (tsk s) = 1 \<and> queue (tsk s) = [] \<or>
       deallocs (tsk s) = 0 \<and> queue (tsk s) = [DeallocKind])"
  using task_reachable_inv [OF assms]
  by (auto simp: task_inv_def task_alive_def task_dead_def nrefs_def)

theorem task_refcount_exact_witness:
  "task_reachable spawn_example \<and> unat (ref_count (hdr (tsk spawn_example))) = 3"
  using task_refcount_exact [OF spawn_example_reachable] spawn_example_reachable
  by (simp add: spawn_example_refs)

text \<open>C2. A task is polled by at most one worker and queued at most once: while a poll is in
  flight there is no queue entry, otherwise at most one, and the \<open>RUNNING\<close> bit says exactly
  whether a poll is in flight. Hence the \<open>unreachable!\<close> of \<open>poll\<close> is never reached.\<close>

theorem task_polled_by_one_worker:
  assumes "task_reachable s" and "0 < nrefs s"
  shows "length (queue (tsk s)) \<le> 1 \<and> (polling s \<longrightarrow> queue (tsk s) = []) \<and>
    is_running (hdr (tsk s)) = polling s \<and>
    (\<forall>xs ys owner. queue (tsk s) = xs @ PollKind # ys \<longrightarrow>
       poll_begin owner ((tsk s)\<lparr>queue := xs @ ys\<rparr>) \<noteq> Inl UnreachablePanic)"
proof -
  have alive: "task_alive s" using assms by (rule reachable_alive)
  have "poll_begin owner ((tsk s)\<lparr>queue := xs @ ys\<rparr>) \<noteq> Inl UnreachablePanic"
    if "queue (tsk s) = xs @ PollKind # ys" for xs ys owner
  proof -
    from that alive have "stage (tsk s) = StageRunning"
      by (auto simp: task_alive_def task_core_def Let_def append_eq_Cons_conv
          Cons_eq_append_conv)
    then show ?thesis by (intro poll_begin_fault) simp
  qed
  then show ?thesis
    using alive by (auto simp: task_alive_def task_core_def Let_def)
qed

theorem task_polled_by_one_worker_witness:
  "0 < nrefs spawn_example \<and> task_reachable spawn_example \<and>
   length (queue (tsk spawn_example)) \<le> 1 \<and>
   is_running (hdr (tsk spawn_example)) = polling spawn_example"
proof -
  have h: "0 < nrefs spawn_example" by (simp add: spawn_example_refs)
  show ?thesis
    using h spawn_example_reachable task_polled_by_one_worker [OF spawn_example_reachable h]
    by blast
qed


text \<open>The task of \<open>spawn_example\<close> while it is being polled: the entry is consumed, \<open>RUNNING\<close> is
  set and \<open>NOTIFIED\<close> is clear.\<close>

definition polling_example :: "nat sys" where
  "polling_example = spawn_example\<lparr>tsk := (tsk spawn_example)\<lparr>hdr := 0x30011, queue := []\<rparr>,
     polling := True\<rparr>"

lemma polling_example_reachable: "task_reachable polling_example"
proof -
  have "task_step spawn_example (spawn_example\<lparr>tsk := (tsk spawn_example)\<lparr>hdr := 0x30011,
      queue := []\<rparr>, polling := polling spawn_example \<or> True\<rparr>)"
    by (rule PollBegin [where xs = "[]" and ys = "[]" and owner = True])
      (simp_all del: sel_abs add: spawn_example_def spawned_def poll_begin_def
        transition_to_running_def running_action_def fetch_update_action_def is_complete_def
        is_cancelled_def is_running_def COMPLETE_def CANCELLED_def RUNNING_def set_running_def
        unset_notified_def NOTIFIED_def)
  then show ?thesis
    using task_next [OF spawn_example_reachable] by (simp add: polling_example_def)
qed


text \<open>C4. An aborted task always finishes while the scheduler runs: if it is cancelled but not
  complete then either its queue entry is still there and running that entry completes it
  without polling the future again, or a poll is in flight and its end completes the task,
  whatever the future returned.\<close>

theorem aborted_task_completes:
  assumes "task_reachable s" and "0 < nrefs s" and "\<not> sched_shutdown (tsk s)"
    and "is_cancelled (hdr (tsk s))" and "\<not> is_complete (hdr (tsk s))"
  shows "queue (tsk s) = [PollKind] \<and>
      (\<exists>t. poll_begin True ((tsk s)\<lparr>queue := []\<rparr>) = Inr (t, False) \<and> stage t \<noteq> StageRunning) \<or>
    polling s \<and> (\<forall>r. \<exists>t. poll_end True r (tsk s) = Inr t \<and> stage t \<noteq> StageRunning)"
proof -
  have alive: "task_alive s" using assms(1,2) by (rule reachable_alive)
  then have pos: "0 < refs (flags s)" by (simp add: task_alive_def)
  have one: "polling s \<or> queue (tsk s) = [PollKind]"
    using alive assms(3-5) by (simp add: task_alive_def task_core_def Let_def)
  have many: "registered (tsk s) \<Longrightarrow> 1 < refs (flags s)"
    using one task_aliveD(3) [OF alive] by (auto simp: nrefs_def)
  show ?thesis
    using one cancelled_poll_begin [of "(tsk s)\<lparr>queue := []\<rparr>"]
      cancelled_poll_end [of "tsk s"] pos many assms(4,5)
    by auto
qed

theorem aborted_task_completes_witness:
  "\<exists>s :: nat sys. task_reachable s \<and> 0 < nrefs s \<and> \<not> sched_shutdown (tsk s) \<and>
     is_cancelled (hdr (tsk s)) \<and> \<not> is_complete (hdr (tsk s)) \<and> queue (tsk s) = [PollKind] \<and>
     (\<exists>t. poll_begin True ((tsk s)\<lparr>queue := []\<rparr>) = Inr (t, False) \<and> stage t \<noteq> StageRunning)"
proof -
  let ?s = "spawn_example\<lparr>tsk := (tsk spawn_example)\<lparr>hdr := 0x3001C\<rparr>\<rparr>"
  have "task_step spawn_example ?s"
    by (rule Abort [where owner = True])
      (simp_all del: sel_abs add: spawn_example_def spawned_def shutdown_task_def
        state_set_cancelled_def fetch_update_action_def set_cancelled_def CANCELLED_def
        is_complete_def is_cancelled_def is_running_def is_notified_def COMPLETE_def
        RUNNING_def NOTIFIED_def Let_def)
  then have r: "task_reachable ?s" by (rule task_next [OF spawn_example_reachable])
  have h: "0 < nrefs ?s" "\<not> sched_shutdown (tsk ?s)" "is_cancelled (hdr (tsk ?s))"
    "\<not> is_complete (hdr (tsk ?s))" "queue (tsk ?s) = [PollKind]" "\<not> polling ?s"
    by (simp_all del: sel_abs add: spawn_example_def spawned_def nrefs_def is_cancelled_def
        is_complete_def CANCELLED_def COMPLETE_def)
  show ?thesis using r h aborted_task_completes [OF r h(1-4)] by blast
qed

text \<open>The run that strands a task: it parks with one waker outstanding, the scheduler's shutdown
  flag goes up, the waker fires (the entry is dropped), the runtime then cancels the task.\<close>

definition stranded_example :: "nat sys" where
  "stranded_example = \<lparr>tsk = \<lparr>hdr = 0x2001C, stage = StageRunning, trailer = None, queue = [],
       registered = False, sched_shutdown = True, woken = [], deallocs = 0\<rparr>,
     polling = False, join = True, wakers = 0, aborts = 0, taken = True, outputs = []\<rparr>"

definition run_state :: "u64 \<Rightarrow> bool \<Rightarrow> bool \<Rightarrow> bool \<Rightarrow> nat \<Rightarrow> bool \<Rightarrow> nat sys" where
  "run_state h reg sd pol ws tk =
     \<lparr>tsk = \<lparr>hdr = h, stage = StageRunning, trailer = None, queue = [],
       registered = reg, sched_shutdown = sd, woken = [], deallocs = 0\<rparr>,
     polling = pol, join = True, wakers = ws, aborts = 0, taken = tk, outputs = []\<rparr>"

lemmas word_eval = is_complete_def is_cancelled_def is_running_def is_notified_def COMPLETE_def
  CANCELLED_def RUNNING_def NOTIFIED_def REF_ONE_def REF_MASK_def REF_MAX_COUNT_def REF_MAX_def
  fetch_update_action_def Let_def

lemma stranded_example_reachable: "task_reachable stranded_example"
proof -
  have 1: "task_reachable (run_state 0x30011 True False True 0 False)"
    using polling_example_reachable
    by (simp add: polling_example_def spawn_example_def spawned_def run_state_def)
  have 2: "task_reachable (run_state 0x40011 True False True 1 False)"
    using task_next [OF 1, OF CloneWaker [where t = "tsk (run_state 0x40011 True False True 1 False)"]]
    by (simp del: sel_abs add: run_state_def clone_ref_def state_ref_inc_def word_eval)
  have 3: "task_reachable (run_state 0x30010 True False False 1 False)"
    using task_next [OF 2, OF PollEnd [where owner = True and r = PollPending
          and t = "tsk (run_state 0x30010 True False False 1 False)"]]
    by (simp del: sel_abs add: run_state_def poll_end_def transition_to_idle_def idle_action_def
        unset_running_def drop_reference_def state_ref_dec_def word_eval)
  have 4: "task_reachable (run_state 0x30010 True True False 1 False)"
    using task_next [OF 3, OF RuntimeShutdown] by (simp add: run_state_def)
  have 5: "task_reachable (run_state 0x20014 True True False 0 False)"
    using task_next [OF 4, OF WakeByVal [where owner = True
          and t = "tsk (run_state 0x20014 True True False 0 False)"]]
    by (simp del: sel_abs add: run_state_def wake_by_val_def transition_to_notified_by_val_def
        notified_by_val_action_def set_notified_def schedule_def notified_drop_def
        drop_reference_def state_ref_dec_def word_eval)
  have 6: "task_reachable (run_state 0x20014 False True False 0 True)"
    using task_next [OF 5, OF RuntimeTake] by (simp add: run_state_def)
  have "task_reachable (run_state 0x2001C False True False 0 True)"
    using task_next [OF 6, OF Abort [where owner = True
          and t = "tsk (run_state 0x2001C False True False 0 True)"]]
    by (simp del: sel_abs add: run_state_def shutdown_task_def state_set_cancelled_def
        set_cancelled_def word_eval)
  then show ?thesis by (simp add: run_state_def stranded_example_def)
qed

lemma stranded_example_stranded: "stranded stranded_example"
  by (simp del: sel_abs add: stranded_def stranded_example_def abs_state_sel word_eval)

lemma stranded_forever:
  assumes "task_step\<^sup>*\<^sup>* s s'" "task_inv s" "stranded s"
  shows "task_inv s' \<and> stranded s'"
  using assms by (induction rule: rtranclp_induct) (auto intro: task_step_inv stranded_step)

text \<open>The guarantee of the previous property does not survive a runtime shutdown: there is a
  reachable state in which the task has been cancelled by the shutdown, the join handle is
  still held, and in no continuation does the task ever leave its running stage, so the join
  handle never resolves. (A wake that lands between raising the shutdown flag and cancelling
  the task submits it, the shut down scheduler drops the entry, and the cancellation then
  defers to an entry that no longer exists.)\<close>

theorem shutdown_can_strand_a_join_handle:
  "\<exists>s :: nat sys. task_reachable s \<and> join s \<and> is_cancelled (hdr (tsk s)) \<and>
     (\<forall>s'. task_step\<^sup>*\<^sup>* s s' \<longrightarrow> stage (tsk s') = StageRunning \<and> outputs s' = outputs s)"
proof -
  have inv: "task_inv stranded_example"
    using stranded_example_reachable by (rule task_reachable_inv)
  have out: "outputs s' = outputs s" if "task_step s s'" "stranded s" for s s' :: "nat sys"
    using that
    by (cases rule: task_step.cases)
      (auto simp: stranded_def try_read_output_def Let_def split: prod.splits if_splits)
  have "stage (tsk s') = StageRunning \<and> outputs s' = outputs stranded_example"
    if "task_step\<^sup>*\<^sup>* stranded_example s'" for s'
    using that
  proof (induction rule: rtranclp_induct)
    case base
    then show ?case by (simp add: stranded_example_def)
  next
    case (step s' s'')
    have "stranded s'" "stranded s''"
      using stranded_forever [OF _ inv stranded_example_stranded] step(1,2)
      by (blast intro: rtranclp.rtrancl_into_rtrancl)+
    with step(2,3) out show ?case by (auto simp: stranded_def)
  qed
  moreover have "join stranded_example" "is_cancelled (hdr (tsk stranded_example))"
    by (simp_all del: sel_abs add: stranded_example_def word_eval)
  ultimately show ?thesis using stranded_example_reachable by blast
qed

theorem shutdown_can_strand_a_join_handle_witness:
  "\<exists>s :: nat sys. task_reachable s \<and> join s \<and> stage (tsk s) = StageRunning"
  using shutdown_can_strand_a_join_handle by blast

end
