(* ===== verification/Timer_Wheel.thy ===== *)
theory Timer_Wheel
  imports Prelude
begin

text \<open>
  The hierarchical timing wheel of \<open>time/wheel.rs\<close>: six levels of 64 slots over 64-bit
  millisecond times. A \<open>TimerEntry\<close> is shared (an \<open>Arc\<close>) between the wheel and the future that
  waits for it, so the entries live in a store indexed by their id and the intrusive lists of
  the wheel hold ids; \<open>Intrusive_List\<close> shows that the pointer lists implement these lists.
\<close>

section \<open>Data\<close>

definition LEVEL_COUNT :: nat where "LEVEL_COUNT = 6"
definition SLOT_COUNT :: nat where "SLOT_COUNT = 64"
definition SLOT_MASK :: u64 where "SLOT_MASK = of_nat SLOT_COUNT - 1"
definition PENDING_LEVEL :: nat where "PENDING_LEVEL = LEVEL_COUNT"
definition UNLINKED_LEVEL :: nat where "UNLINKED_LEVEL = 255"

type_synonym timer_id = nat

record timer_entry =
  te_deadline :: u64
  te_fired :: bool
  te_level :: nat
  te_slot :: nat
  te_waker :: "waker option"
  te_linked :: bool

definition timer_entry_new :: timer_entry where
  "timer_entry_new = \<lparr>te_deadline = 0, te_fired = False, te_level = UNLINKED_LEVEL, te_slot = 0,
     te_waker = None, te_linked = False\<rparr>"

definition timer_entry_reset :: "timer_entry \<Rightarrow> timer_entry" where
  "timer_entry_reset e = e\<lparr>te_fired := False\<rparr>"

record level =
  occupied :: u64
  slots :: "timer_id list list"

definition level_new :: level where
  "level_new = \<lparr>occupied = 0, slots = replicate SLOT_COUNT []\<rparr>"

record wheel =
  elapsed :: u64
  levels :: "level list"
  pending :: "timer_id list"
  timers :: "timer_id \<Rightarrow> timer_entry"

definition wheel_new :: wheel where
  "wheel_new = \<lparr>elapsed = 0, levels = replicate LEVEL_COUNT level_new, pending = [],
     timers = (\<lambda>_. timer_entry_new)\<rparr>"

section \<open>Operations\<close>

definition level_for :: "u64 \<Rightarrow> u64 \<Rightarrow> nat" where
  "level_for el when' =
     (let masked = (when' XOR el) OR SLOT_MASK;
          significant = 63 - leading_zeros masked
      in min (significant div 6) (LEVEL_COUNT - 1))"

text \<open>The slot of a time at a level: \<open>((t >> (level * 6)) & SLOT_MASK) as usize\<close>.\<close>

definition slot_of :: "nat \<Rightarrow> u64 \<Rightarrow> nat" where
  "slot_of l t = unat (drop_bit (l * 6) t AND SLOT_MASK)"

text \<open>\<open>self.levels[level].slots[slot]\<close>, \<open>self.levels[level].occupied\<close> and their updates.\<close>

definition slot_list :: "wheel \<Rightarrow> nat \<Rightarrow> nat \<Rightarrow> timer_id list" where
  "slot_list w l s = slots (levels w ! l) ! s"

definition occ :: "wheel \<Rightarrow> nat \<Rightarrow> u64" where
  "occ w l = occupied (levels w ! l)"

definition set_slot :: "nat \<Rightarrow> nat \<Rightarrow> timer_id list \<Rightarrow> wheel \<Rightarrow> wheel" where
  "set_slot l s ids w = w\<lparr>levels := (levels w)[l := (levels w ! l)\<lparr>slots := (slots (levels w ! l))[s := ids]\<rparr>]\<rparr>"

definition set_occ :: "nat \<Rightarrow> u64 \<Rightarrow> wheel \<Rightarrow> wheel" where
  "set_occ l m w = w\<lparr>levels := (levels w)[l := (levels w ! l)\<lparr>occupied := m\<rparr>]\<rparr>"

definition upd_timer :: "timer_id \<Rightarrow> (timer_entry \<Rightarrow> timer_entry) \<Rightarrow> wheel \<Rightarrow> wheel" where
  "upd_timer i f w = w\<lparr>timers := (timers w)(i := f (timers w i))\<rparr>"

text \<open>\<open>self.pending.push_back(into_raw(entry))\<close> after the level store.\<close>

definition push_pending :: "timer_id \<Rightarrow> wheel \<Rightarrow> wheel" where
  "push_pending i w =
     (let w = upd_timer i (\<lambda>e. e\<lparr>te_level := PENDING_LEVEL, te_linked := True\<rparr>) w
      in w\<lparr>pending := pending w @ [i]\<rparr>)"

definition wheel_insert :: "timer_id \<Rightarrow> wheel \<Rightarrow> wheel" where
  "wheel_insert i w =
     (let deadline = te_deadline (timers w i) in
      if deadline \<le> elapsed w then push_pending i w
      else
        let l = level_for (elapsed w) deadline;
            s = slot_of l deadline;
            w = upd_timer i (\<lambda>e. e\<lparr>te_level := l, te_slot := s, te_linked := True\<rparr>) w;
            w = set_occ l (occ w l OR push_bit s 1) w
        in set_slot l s (slot_list w l s @ [i]) w)"

definition wheel_remove :: "timer_id \<Rightarrow> wheel \<Rightarrow> wheel \<times> bool" where
  "wheel_remove i w =
     (if \<not> te_linked (timers w i) then (w, False)
      else
        let l = te_level (timers w i); s = te_slot (timers w i) in
        if l = PENDING_LEVEL then
          (upd_timer i (\<lambda>e. e\<lparr>te_level := UNLINKED_LEVEL, te_linked := False\<rparr>)
             (w\<lparr>pending := remove1 i (pending w)\<rparr>), True)
        else if l < LEVEL_COUNT \<and> s < SLOT_COUNT then
          let w = set_slot l s (remove1 i (slot_list w l s)) w;
              w = (if slot_list w l s = [] then set_occ l (occ w l AND NOT (push_bit s 1)) w else w)
          in (upd_timer i (\<lambda>e. e\<lparr>te_level := UNLINKED_LEVEL, te_linked := False\<rparr>) w, True)
        else (w, False))"

text \<open>The \<open>pop_front\<close> loops: every popped entry is unlinked and loses its level.\<close>

definition unlink_all :: "timer_id list \<Rightarrow> wheel \<Rightarrow> wheel" where
  "unlink_all ids w =
     fold (\<lambda>i. upd_timer i (\<lambda>e. e\<lparr>te_level := UNLINKED_LEVEL, te_linked := False\<rparr>)) ids w"

definition take_slot :: "nat \<Rightarrow> nat \<Rightarrow> wheel \<Rightarrow> timer_id list \<times> wheel" where
  "take_slot l s w =
     (let ids = slot_list w l s;
          w = unlink_all ids (set_slot l s [] w)
      in (ids, set_occ l (occ w l AND NOT (push_bit s 1)) w))"

definition take_pending :: "wheel \<Rightarrow> timer_id list \<times> wheel" where
  "take_pending w =
     (let ids = pending w in (ids, unlink_all ids (w\<lparr>pending := []\<rparr>)))"

text \<open>The distance to the next occupied slot of one level, in slots, looking around the ring.\<close>

definition slot_delta :: "u64 \<Rightarrow> nat \<Rightarrow> nat" where
  "slot_delta oc current =
     (if current < SLOT_COUNT - 1 then
        let after = drop_bit (current + 1) oc in
        if after \<noteq> 0 then trailing_zeros after + 1
        else
          let lower = oc AND (push_bit current 1 - 1) in
          if lower \<noteq> 0 then SLOT_COUNT - current + trailing_zeros lower
          else SLOT_COUNT
      else trailing_zeros oc + 1)"

text \<open>
  \<open>saturating_add\<close>, and \<open>checked_shl(shift).unwrap_or(u64::MAX)\<close>: the check is on the shift
  amount only, bits shifted out at the top are lost.
\<close>

definition saturating_add :: "u64 \<Rightarrow> u64 \<Rightarrow> u64" where
  "saturating_add a b = (if unat a + unat b < 2 ^ 64 then a + b else - 1)"

definition checked_shl :: "u64 \<Rightarrow> nat \<Rightarrow> u64" where
  "checked_shl a n = (if n < 64 then push_bit n a else - 1)"

definition level_event_at :: "u64 \<Rightarrow> nat \<Rightarrow> u64 \<Rightarrow> u64" where
  "level_event_at el l oc =
     (let shift = l * 6;
          current = slot_of l el;
          delta = slot_delta oc current;
          bucket = saturating_add (drop_bit shift el) (of_nat delta)
      in checked_shl bucket shift)"

definition next_event_at :: "wheel \<Rightarrow> u64 option" where
  "next_event_at w =
     (if pending w \<noteq> [] then Some (elapsed w)
      else fold (\<lambda>l next.
             if occ w l = 0 then next
             else let at = level_event_at (elapsed w) l (occ w l)
                  in Some (case next of None \<Rightarrow> at | Some n \<Rightarrow> min n at))
           [0..<LEVEL_COUNT] None)"

text \<open>One level of the cascade: the current slot is emptied and its entries are re-inserted.\<close>

definition cascade_level :: "nat \<Rightarrow> wheel \<Rightarrow> wheel" where
  "cascade_level l w =
     (let s = slot_of l (elapsed w) in
      if occ w l AND push_bit s 1 = 0 then w
      else let (ids, w) = take_slot l s w in fold wheel_insert ids w)"

definition expire_level0 :: "u64 \<Rightarrow> wheel \<Rightarrow> wheel" where
  "expire_level0 now w =
     (let s = unat (elapsed w AND SLOT_MASK) in
      if occ w 0 AND push_bit s 1 \<noteq> 0 then
        let (ids, w) = take_slot 0 s w in
        fold (\<lambda>i w. if te_deadline (timers w i) \<le> now then push_pending i w else wheel_insert i w) ids w
      else w)"

text \<open>The body of the loop of \<open>advance_to\<close> once a boundary at or before \<open>now\<close> is found.\<close>

definition advance_tick :: "u64 \<Rightarrow> u64 \<Rightarrow> wheel \<Rightarrow> wheel" where
  "advance_tick now next w =
     expire_level0 now (fold cascade_level (rev [1..<LEVEL_COUNT]) (w\<lparr>elapsed := next\<rparr>))"

partial_function (option) advance_loop :: "u64 \<Rightarrow> wheel \<Rightarrow> wheel option" where
  "advance_loop now w =
     (case next_event_at w of
        None \<Rightarrow> Some (w\<lparr>elapsed := now\<rparr>)
      | Some next \<Rightarrow>
          if now < next then Some (w\<lparr>elapsed := now\<rparr>)
          else
            let w = advance_tick now next w in
            if pending w \<noteq> [] then Some w
            else if next_event_at w = None then Some (w\<lparr>elapsed := now\<rparr>)
            else advance_loop now w)"

declare advance_loop.simps [code]

definition advance_to :: "u64 \<Rightarrow> wheel \<Rightarrow> wheel option" where
  "advance_to now w = (if now \<le> elapsed w then Some w else advance_loop now w)"

section \<open>Arithmetic of levels and slots\<close>

text \<open>The bucket of a time at a level, as a natural number.\<close>

definition bucket :: "nat \<Rightarrow> u64 \<Rightarrow> nat" where
  "bucket l t = unat t div 64 ^ l"

lemma pow_6: "(2::nat) ^ (l * 6) = 64 ^ l"
proof -
  have "(2::nat) ^ (l * 6) = (2 ^ 6) ^ l" by (simp only: power_mult [symmetric] mult.commute)
  then show ?thesis by simp
qed

lemma bucket_drop_bit: "unat (drop_bit (l * 6) t) = bucket l t"
  by (simp only: unat_drop_bit pow_6 bucket_def)

lemma SLOT_MASK_eq: "SLOT_MASK = mask 6"
  by (simp add: SLOT_MASK_def SLOT_COUNT_def mask_eq_exp_minus_1)

lemma slot_of_bucket: "slot_of l t = bucket l t mod 64"
proof -
  have "slot_of l t = take_bit 6 (unat (drop_bit (l * 6) t))"
    unfolding slot_of_def SLOT_MASK_eq take_bit_eq_mask [symmetric] by (rule unsigned_take_bit_eq)
  then show ?thesis by (simp only: bucket_drop_bit take_bit_eq_mod) simp
qed

lemma slot_of_less [simp]: "slot_of l t < 64"
  by (simp add: slot_of_bucket)

lemma slot_of_0: "unat (t AND SLOT_MASK) = slot_of 0 t"
  by (simp add: slot_of_def)

lemma bucket_Suc: "bucket (Suc l) t = bucket l t div 64"
  by (simp add: bucket_def div_mult2_eq [symmetric] mult.commute)

lemma bucket_0 [simp]: "bucket 0 t = unat t"
  by (simp add: bucket_def)

lemma bucket_mono: "t \<le> u \<Longrightarrow> bucket l t \<le> bucket l u"
  by (simp add: bucket_def div_le_mono word_le_nat_alt)

lemma bucket_less_D: "bucket l t < bucket l u \<Longrightarrow> t < u"
  using bucket_mono [of u t l] by (meson linorder_not_less)

lemma bucket_eq_iff: "bucket l t = bucket l u \<longleftrightarrow> (\<forall>i\<ge>l * 6. bit t i = bit u i)"
proof -
  have "bucket l t = bucket l u \<longleftrightarrow> drop_bit (l * 6) t = drop_bit (l * 6) u"
    by (metis bucket_drop_bit word_unat_eq_iff)
  also have "\<dots> \<longleftrightarrow> (\<forall>i. bit t (l * 6 + i) = bit u (l * 6 + i))"
    by (metis bit_drop_bit_word bit_eqI)
  also have "\<dots> \<longleftrightarrow> (\<forall>i\<ge>l * 6. bit t i = bit u i)"
    by (metis le_add1 le_Suc_ex)
  finally show ?thesis .
qed

text \<open>
  \<open>level_for\<close> picks the highest group of six bits in which the two times differ: below the
  top level the buckets above agree, and the buckets of the chosen level differ.
\<close>

lemma level_for_less: "level_for el d < LEVEL_COUNT"
  by (simp add: level_for_def LEVEL_COUNT_def Let_def)

lemma level_for_agree:
  assumes "level_for el d < LEVEL_COUNT - 1"
  shows "bucket (Suc (level_for el d)) d = bucket (Suc (level_for el d)) el"
proof -
  let ?m = "(d XOR el) OR SLOT_MASK"
  let ?s = "63 - leading_zeros ?m"
  have "bit ?m 0" by (simp add: SLOT_MASK_eq bit_or_iff bit_mask_iff)
  then have nz: "?m \<noteq> 0" by auto
  have l: "level_for el d = ?s div 6" using assms by (simp add: level_for_def Let_def)
  have "bit d i = bit el i" if "Suc (level_for el d) * 6 \<le> i" for i
  proof -
    have "?s < i" using that l by simp
    from leading_zeros_greatest(3) [OF nz this] show ?thesis
      by (cases "i < 64") (auto simp: bit_or_iff bit_xor_iff dest: bit_imp_le_length)
  qed
  then show ?thesis by (simp add: bucket_eq_iff)
qed

lemma level_for_differ:
  assumes "d \<noteq> el"
  shows "bucket (level_for el d) d \<noteq> bucket (level_for el d) el"
proof (cases "level_for el d = 0")
  case True
  with assms show ?thesis by (simp add: word_unat_eq_iff)
next
  case False
  let ?m = "(d XOR el) OR SLOT_MASK"
  let ?s = "63 - leading_zeros ?m"
  have "bit ?m 0" by (simp add: SLOT_MASK_eq bit_or_iff bit_mask_iff)
  then have nz: "?m \<noteq> 0" by auto
  have "level_for el d \<le> ?s div 6" by (simp add: level_for_def Let_def)
  with False have s: "level_for el d * 6 \<le> ?s" "6 \<le> ?s" by linarith+
  have "bit d ?s \<noteq> bit el ?s"
    using leading_zeros_greatest(2) [OF nz] s(2)
    by (simp add: SLOT_MASK_eq bit_or_iff bit_xor_iff bit_mask_iff)
  with s(1) show ?thesis by (auto simp: bucket_eq_iff)
qed

text \<open>\<open>slot_delta\<close> is the least positive distance to an occupied slot, around the ring.\<close>

lemma ring_index: "c < 64 \<Longrightarrow> k \<le> 64 \<Longrightarrow> (c + k) mod 64 = (if c + k < 64 then c + k else c + k - 64)" for c k :: nat
  by (auto simp: mod_if)

lemma bit_below: "c < 64 \<Longrightarrow> bit (oc AND (push_bit c 1 - 1)) i \<longleftrightarrow> bit oc i \<and> i < c" for oc :: u64
  by (auto simp: bit_and_iff push_bit_of_1 mask_eq_exp_minus_1 [symmetric] bit_mask_iff)

definition least_gap :: "u64 \<Rightarrow> nat \<Rightarrow> nat \<Rightarrow> bool" where
  "least_gap oc c g \<longleftrightarrow> 1 \<le> g \<and> g \<le> 64 \<and> bit oc ((c + g) mod 64)
     \<and> (\<forall>k. 1 \<le> k \<and> k < g \<longrightarrow> \<not> bit oc ((c + k) mod 64))"

lemma least_gap_after:
  assumes "c < 63" "drop_bit (c + 1) oc \<noteq> 0"
  shows "least_gap oc c (trailing_zeros (drop_bit (c + 1) oc) + 1)"
proof -
  let ?t = "trailing_zeros (drop_bit (c + 1) oc)"
  have t: "bit oc (c + 1 + ?t)" using trailing_zeros_least(2) [OF assms(2)]
    by (simp only: bit_drop_bit_word)
  then have lt: "c + 1 + ?t < 64" using bit_imp_le_length [OF t] by simp
  have "\<not> bit oc (c + k)" if "1 \<le> k" "k < ?t + 1" for k
    using trailing_zeros_least(3) [OF assms(2), of "k - 1"] that unfolding bit_drop_bit_word by simp
  then show ?thesis unfolding least_gap_def using t lt by (auto simp: add.assoc)
qed

lemma least_gap_lower:
  assumes c: "c < 64" and above: "\<forall>i>c. \<not> bit oc i" and low: "oc AND (push_bit c 1 - 1) \<noteq> 0"
  shows "least_gap oc c (64 - c + trailing_zeros (oc AND (push_bit c 1 - 1)))"
proof -
  let ?l = "oc AND (push_bit c 1 - 1)"
  let ?t = "trailing_zeros ?l"
  have t: "bit oc ?t" "?t < c" using trailing_zeros_least(2) [OF low] by (simp_all only: bit_below [OF c])
  have "\<not> bit oc ((c + k) mod 64)" if "1 \<le> k" "k < 64 - c + ?t" for k
  proof (cases "c + k < 64")
    case True
    then show ?thesis using above that by simp
  next
    case False
    then have "(c + k) mod 64 = c + k - 64" "c + k - 64 < ?t"
      using that c t(2) ring_index [of c k] by auto
    moreover from this have "\<not> bit ?l (c + k - 64)" by (intro trailing_zeros_least(3) [OF low])
    ultimately show ?thesis using t(2) by (simp only: bit_below [OF c]) linarith
  qed
  moreover have "(c + (64 - c + ?t)) mod 64 = ?t" using t(2) c by simp
  ultimately show ?thesis unfolding least_gap_def using t c by auto
qed

lemma least_gap_self:
  assumes c: "c < 64" and oc: "oc \<noteq> 0" and only: "\<forall>i. i \<noteq> c \<longrightarrow> \<not> bit oc i"
  shows "least_gap oc c 64"
proof -
  have "bit oc c" using word_neq_0_bit [OF oc] only by auto
  moreover have "(c + k) mod 64 \<noteq> c" if "1 \<le> k" "k < 64" for k
    using that c ring_index [of c k] by auto
  ultimately show ?thesis unfolding least_gap_def using c only by auto
qed

lemma least_gap_wrap:
  assumes oc: "oc \<noteq> 0"
  shows "least_gap oc 63 (trailing_zeros oc + 1)"
proof -
  have "(63 + k) mod 64 = k - 1" if "1 \<le> k" "k \<le> 64" for k :: nat
    using that ring_index [of 63 k] by auto
  then show ?thesis unfolding least_gap_def using trailing_zeros_least [OF oc] by auto
qed

lemma slot_delta_least:
  assumes oc: "oc \<noteq> 0" and c: "c < 64"
  shows "least_gap oc c (slot_delta oc c)"
proof (cases "c < 63")
  case True
  show ?thesis
  proof (cases "drop_bit (c + 1) oc = 0")
    case False
    then show ?thesis using least_gap_after [OF True] True
      by (simp add: slot_delta_def SLOT_COUNT_def)
  next
    case after: True
    then have above: "\<forall>i>c. \<not> bit oc i"
      by (metis bit_drop_bit_word bit_0_eq bot_apply bot_bool_def less_iff_Suc_add add_Suc_right Suc_eq_plus1 add_Suc)
    show ?thesis
    proof (cases "oc AND (push_bit c 1 - 1) = 0")
      case False
      then show ?thesis using least_gap_lower [OF c above] True after
        by (simp add: slot_delta_def SLOT_COUNT_def)
    next
      case low: True
      then have "\<forall>i<c. \<not> bit oc i" using bit_below [OF c, of oc] by auto
      with above have "\<forall>i. i \<noteq> c \<longrightarrow> \<not> bit oc i" by (meson linorder_neqE_nat)
      then show ?thesis using least_gap_self [OF c oc] True after low
        by (simp add: slot_delta_def SLOT_COUNT_def)
    qed
  qed
next
  case False
  with c have "c = 63" by simp
  then show ?thesis using least_gap_wrap [OF oc] by (simp add: slot_delta_def SLOT_COUNT_def)
qed

section \<open>The wheel and its store of entries\<close>

text \<open>
  The structural invariant: the lists of the wheel are exactly what the \<open>level\<close>, \<open>slot\<close> and
  link fields of the entries say, without repetition, and a bit of \<open>occupied\<close> is set exactly
  when its slot is not empty.
\<close>

definition wheel_shape :: "wheel \<Rightarrow> bool" where
  "wheel_shape w \<longleftrightarrow>
     length (levels w) = 6 \<and> (\<forall>l<6. length (slots (levels w ! l)) = 64)
   \<and> (\<forall>l<6. \<forall>s<64. bit (occ w l) s = (slot_list w l s \<noteq> []))
   \<and> (\<forall>l<6. \<forall>s<64. distinct (slot_list w l s)
        \<and> set (slot_list w l s) = {i. te_linked (timers w i) \<and> te_level (timers w i) = l \<and> te_slot (timers w i) = s})
   \<and> distinct (pending w) \<and> set (pending w) = {i. te_linked (timers w i) \<and> te_level (timers w i) = 6}"

text \<open>What insertion and unlinking write into an entry.\<close>

definition place :: "u64 \<Rightarrow> timer_entry \<Rightarrow> timer_entry" where
  "place el e =
     (if te_deadline e \<le> el then e\<lparr>te_level := 6, te_linked := True\<rparr>
      else e\<lparr>te_level := level_for el (te_deadline e),
             te_slot := slot_of (level_for el (te_deadline e)) (te_deadline e), te_linked := True\<rparr>)"

definition unlink :: "timer_entry \<Rightarrow> timer_entry" where
  "unlink e = e\<lparr>te_level := UNLINKED_LEVEL, te_linked := False\<rparr>"

lemma wheel_accessors [simp]:
  "elapsed (set_slot l s ids w) = elapsed w" "pending (set_slot l s ids w) = pending w"
  "timers (set_slot l s ids w) = timers w" "length (levels (set_slot l s ids w)) = length (levels w)"
  "elapsed (set_occ l m w) = elapsed w" "pending (set_occ l m w) = pending w"
  "timers (set_occ l m w) = timers w" "length (levels (set_occ l m w)) = length (levels w)"
  "elapsed (upd_timer i f w) = elapsed w" "pending (upd_timer i f w) = pending w"
  "levels (upd_timer i f w) = levels w" "timers (upd_timer i f w) = (timers w)(i := f (timers w i))"
  by (simp_all add: set_slot_def set_occ_def upd_timer_def)

lemma slot_accessors [simp]:
  "slot_list (upd_timer i f w) = slot_list w" "occ (upd_timer i f w) = occ w"
  "slot_list (w\<lparr>pending := p\<rparr>) = slot_list w" "occ (w\<lparr>pending := p\<rparr>) = occ w"
  "slot_list (w\<lparr>elapsed := t\<rparr>) = slot_list w" "occ (w\<lparr>elapsed := t\<rparr>) = occ w"
  by (simp_all add: slot_list_def occ_def fun_eq_iff)

lemma level_updates [simp]:
  assumes "l < length (levels w)" "l' < length (levels w)"
  shows "occ (set_slot l s ids w) l' = occ w l'"
    "occ (set_occ l m w) l' = (if l' = l then m else occ w l')"
    "slot_list (set_occ l m w) l' = slot_list w l'"
    "slots (levels (set_occ l m w) ! l') = slots (levels w ! l')"
    "length (slots (levels (set_slot l s ids w) ! l')) = length (slots (levels w ! l'))"
    "s < length (slots (levels w ! l)) \<Longrightarrow>
       slot_list (set_slot l s ids w) l' s' = (if l' = l \<and> s' = s then ids else slot_list w l' s')"
  using assms by (auto simp: set_slot_def set_occ_def occ_def slot_list_def nth_list_update fun_eq_iff)

lemma wheel_shapeD:
  assumes "wheel_shape w"
  shows "length (levels w) = 6" "l < 6 \<Longrightarrow> length (slots (levels w ! l)) = 64"
    "l < 6 \<Longrightarrow> s < 64 \<Longrightarrow> bit (occ w l) s = (slot_list w l s \<noteq> [])"
    "l < 6 \<Longrightarrow> s < 64 \<Longrightarrow> distinct (slot_list w l s)"
    "l < 6 \<Longrightarrow> s < 64 \<Longrightarrow> set (slot_list w l s) =
       {i. te_linked (timers w i) \<and> te_level (timers w i) = l \<and> te_slot (timers w i) = s}"
    "distinct (pending w)" "set (pending w) = {i. te_linked (timers w i) \<and> te_level (timers w i) = 6}"
  using assms unfolding wheel_shape_def by blast+

lemma bit_set_clear:
  "s' < 64 \<Longrightarrow> bit (m OR 2 ^ s :: u64) s' = (s' = s \<or> bit m s')"
  "s' < 64 \<Longrightarrow> bit (m AND NOT (2 ^ s) :: u64) s' = (s' \<noteq> s \<and> bit m s')"
  by (auto simp: bit_or_iff bit_and_iff bit_not_iff bit_exp_iff)

lemma wheel_insert_fields [simp]:
  "elapsed (wheel_insert i w) = elapsed w"
  "timers (wheel_insert i w) = (timers w)(i := place (elapsed w) (timers w i))"
  "elapsed (push_pending i w) = elapsed w"
  "timers (push_pending i w) = (timers w)(i := (timers w i)\<lparr>te_level := 6, te_linked := True\<rparr>)"
  "pending (push_pending i w) = pending w @ [i]"
  "slot_list (push_pending i w) = slot_list w" "occ (push_pending i w) = occ w"
  "levels (push_pending i w) = levels w"
  by (simp_all add: wheel_insert_def push_pending_def place_def Let_def PENDING_LEVEL_def LEVEL_COUNT_def)

lemma push_pending_shape:
  assumes "wheel_shape w" "\<not> te_linked (timers w i)"
  shows "wheel_shape (push_pending i w)"
  using wheel_shapeD [OF assms(1)] assms(2) unfolding wheel_shape_def by auto

lemma wheel_insert_shape:
  assumes "wheel_shape w" "\<not> te_linked (timers w i)"
  shows "wheel_shape (wheel_insert i w)"
proof (cases "te_deadline (timers w i) \<le> elapsed w")
  case True
  then show ?thesis using push_pending_shape [OF assms] by (simp add: wheel_insert_def)
next
  case False
  define d where "d = te_deadline (timers w i)"
  define l where "l = level_for (elapsed w) d"
  define s where "s = slot_of l d"
  have ls: "l < 6" "s < 64" using level_for_less [of "elapsed w" d] by (simp_all add: l_def s_def LEVEL_COUNT_def)
  define w' where "w' = wheel_insert i w"
  have w': "w' = set_slot l s (slot_list w l s @ [i]) (set_occ l (occ w l OR push_bit s 1)
      (upd_timer i (\<lambda>e. e\<lparr>te_level := l, te_slot := s, te_linked := True\<rparr>) w))"
    using False ls wheel_shapeD(1) [OF assms(1)]
    by (simp add: w'_def wheel_insert_def d_def l_def s_def Let_def)
  note sh = wheel_shapeD [OF assms(1)]
  have f: "length (levels w') = 6" "\<And>k. k < 6 \<Longrightarrow> length (slots (levels w' ! k)) = 64"
    "\<And>k t. k < 6 \<Longrightarrow> slot_list w' k t = (if k = l \<and> t = s then slot_list w l s @ [i] else slot_list w k t)"
    "\<And>k. k < 6 \<Longrightarrow> occ w' k = (if k = l then occ w l OR push_bit s 1 else occ w k)"
    "pending w' = pending w"
    "timers w' = (timers w)(i := (timers w i)\<lparr>te_level := l, te_slot := s, te_linked := True\<rparr>)"
    using sh(1,2) ls unfolding w' by simp_all
  have "wheel_shape w'" unfolding wheel_shape_def using f sh ls assms(2) by (auto simp: bit_set_clear)
  then show ?thesis by (simp add: w'_def)
qed

lemma unlink_all_fields [simp]:
  "elapsed (unlink_all ids w) = elapsed w" "levels (unlink_all ids w) = levels w"
  "pending (unlink_all ids w) = pending w"
  "timers (unlink_all ids w) = (\<lambda>j. if j \<in> set ids then unlink (timers w j) else timers w j)"
  unfolding unlink_all_def by (induction ids arbitrary: w) (auto simp: unlink_def fun_eq_iff)

lemma unlink_all_slots [simp]:
  "slot_list (unlink_all ids w) = slot_list w" "occ (unlink_all ids w) = occ w"
  by (simp_all add: slot_list_def occ_def fun_eq_iff)

lemma unlink_not_linked [simp]: "\<not> te_linked (unlink e)" "te_deadline (unlink e) = te_deadline e"
  by (simp_all add: unlink_def)

lemma take_slot_fields:
  assumes "wheel_shape w" "l < 6" "s < 64" "take_slot l s w = (ids, w')"
  shows "ids = slot_list w l s" "elapsed w' = elapsed w" "pending w' = pending w"
    "timers w' = (\<lambda>j. if j \<in> set ids then unlink (timers w j) else timers w j)"
  using assms wheel_shapeD(1,2) [OF assms(1)] by (auto simp: take_slot_def Let_def)

lemma take_slot_shape:
  assumes sh: "wheel_shape w" and ls: "l < 6" "s < 64" and tk: "take_slot l s w = (ids, w')"
  shows "wheel_shape w'"
proof -
  note wf = wheel_shapeD [OF sh]
  have w': "w' = set_occ l (occ w l AND NOT (push_bit s 1)) (unlink_all ids (set_slot l s [] w))"
    and ids: "ids = slot_list w l s" using tk wf(1) ls by (auto simp: take_slot_def Let_def)
  have f: "length (levels w') = 6" "\<And>k. k < 6 \<Longrightarrow> length (slots (levels w' ! k)) = 64"
    "\<And>k t. k < 6 \<Longrightarrow> slot_list w' k t = (if k = l \<and> t = s then [] else slot_list w k t)"
    "\<And>k. k < 6 \<Longrightarrow> occ w' k = (if k = l then occ w l AND NOT (push_bit s 1) else occ w k)"
    using wf(1,2) ls unfolding w' by simp_all
  show ?thesis
    unfolding wheel_shape_def using f wf ls take_slot_fields [OF sh ls tk]
    by (auto simp: bit_set_clear)
qed

lemma take_pending_fields:
  assumes "take_pending w = (ids, w')"
  shows "ids = pending w" "elapsed w' = elapsed w" "pending w' = []"
    "timers w' = (\<lambda>j. if j \<in> set ids then unlink (timers w j) else timers w j)"
    "slot_list w' = slot_list w" "occ w' = occ w" "levels w' = levels w"
  using assms by (auto simp: take_pending_def Let_def)

lemma take_pending_shape:
  assumes "wheel_shape w" "take_pending w = (ids, w')"
  shows "wheel_shape w'"
  unfolding wheel_shape_def using wheel_shapeD [OF assms(1)] take_pending_fields [OF assms(2)] by auto

lemma fold_wheel_insert:
  assumes "wheel_shape w" "distinct ids" "\<forall>i\<in>set ids. \<not> te_linked (timers w i)"
  shows "wheel_shape (fold wheel_insert ids w) \<and> elapsed (fold wheel_insert ids w) = elapsed w
    \<and> timers (fold wheel_insert ids w) =
        (\<lambda>j. if j \<in> set ids then place (elapsed w) (timers w j) else timers w j)"
  using assms
proof (induction ids arbitrary: w)
  case (Cons i ids)
  have "wheel_shape (wheel_insert i w)" using Cons.prems by (simp add: wheel_insert_shape)
  moreover have "\<forall>j\<in>set ids. \<not> te_linked (timers (wheel_insert i w) j)" using Cons.prems by auto
  ultimately show ?case using Cons.IH [of "wheel_insert i w"] Cons.prems(2) by (auto simp: fun_eq_iff)
qed simp

lemma cascade_level_effect:
  assumes sh: "wheel_shape w" and l: "l < 6"
  shows "wheel_shape (cascade_level l w) \<and> elapsed (cascade_level l w) = elapsed w
    \<and> timers (cascade_level l w) = (\<lambda>j. let e = timers w j in
         if te_linked e \<and> te_level e = l \<and> te_slot e = slot_of l (elapsed w)
         then place (elapsed w) (unlink e) else e)"
proof -
  let ?s = "slot_of l (elapsed w)"
  have mem: "set (slot_list w l ?s) =
      {i. te_linked (timers w i) \<and> te_level (timers w i) = l \<and> te_slot (timers w i) = ?s}"
    by (rule wheel_shapeD(5) [OF sh l]) simp
  have occ: "(occ w l AND push_bit ?s 1 = 0) = (slot_list w l ?s = [])"
    using wheel_shapeD(3) [OF sh l, of ?s] by (simp add: and_exp_eq_0_iff_not_bit)
  show ?thesis
  proof (cases "slot_list w l ?s = []")
    case True
    then show ?thesis using occ sh mem by (auto simp: cascade_level_def Let_def fun_eq_iff)
  next
    case False
    obtain ids w1 where tk: "take_slot l ?s w = (ids, w1)" by fastforce
    note t = take_slot_fields [OF sh l _ tk, simplified] and sh1 = take_slot_shape [OF sh l _ tk, simplified]
    have "distinct ids" using wheel_shapeD(4) [OF sh l, of ?s] t(1) by simp
    with fold_wheel_insert [OF sh1, of ids] t show ?thesis
      using False occ tk mem by (auto simp: cascade_level_def Let_def fun_eq_iff)
  qed
qed

lemma fold_expire:
  assumes "wheel_shape w" "distinct ids" "\<forall>i\<in>set ids. \<not> te_linked (timers w i) \<and> te_deadline (timers w i) \<le> now"
  shows "let w' = fold (\<lambda>i w. if te_deadline (timers w i) \<le> now then push_pending i w else wheel_insert i w) ids w
     in wheel_shape w' \<and> elapsed w' = elapsed w
    \<and> timers w' = (\<lambda>j. if j \<in> set ids then (timers w j)\<lparr>te_level := 6, te_linked := True\<rparr> else timers w j)"
  using assms
proof (induction ids arbitrary: w)
  case (Cons i ids)
  have "wheel_shape (push_pending i w)" using Cons.prems by (simp add: push_pending_shape)
  moreover have "\<forall>j\<in>set ids. \<not> te_linked (timers (push_pending i w) j)
      \<and> te_deadline (timers (push_pending i w) j) \<le> now" using Cons.prems by auto
  ultimately show ?case using Cons.IH [of "push_pending i w"] Cons.prems(2,3)
    by (auto simp: fun_eq_iff Let_def)
qed simp

lemma expire_level0_effect:
  assumes sh: "wheel_shape w"
    and due: "\<forall>i. te_linked (timers w i) \<and> te_level (timers w i) = 0 \<and> te_slot (timers w i) = slot_of 0 (elapsed w)
      \<longrightarrow> te_deadline (timers w i) \<le> now"
  shows "wheel_shape (expire_level0 now w) \<and> elapsed (expire_level0 now w) = elapsed w
    \<and> timers (expire_level0 now w) = (\<lambda>j. let e = timers w j in
         if te_linked e \<and> te_level e = 0 \<and> te_slot e = slot_of 0 (elapsed w)
         then (unlink e)\<lparr>te_level := 6, te_linked := True\<rparr> else e)"
proof -
  let ?s = "slot_of 0 (elapsed w)"
  have mem: "set (slot_list w 0 ?s) =
      {i. te_linked (timers w i) \<and> te_level (timers w i) = 0 \<and> te_slot (timers w i) = ?s}"
    by (rule wheel_shapeD(5) [OF sh]) simp_all
  have occ: "(occ w 0 AND push_bit ?s 1 = 0) = (slot_list w 0 ?s = [])"
    using wheel_shapeD(3) [OF sh, of 0 ?s] by (simp add: and_exp_eq_0_iff_not_bit)
  show ?thesis
  proof (cases "slot_list w 0 ?s = []")
    case True
    then show ?thesis using occ sh mem by (auto simp: expire_level0_def slot_of_0 Let_def fun_eq_iff)
  next
    case False
    obtain ids w1 where tk: "take_slot 0 ?s w = (ids, w1)" by fastforce
    note t = take_slot_fields [OF sh _ _ tk, simplified] and sh1 = take_slot_shape [OF sh _ _ tk, simplified]
    have "distinct ids" using wheel_shapeD(4) [OF sh, of 0 ?s] t(1) by simp
    moreover have "\<forall>i\<in>set ids. \<not> te_linked (timers w1 i) \<and> te_deadline (timers w1 i) \<le> now"
      using t due mem by auto
    ultimately show ?thesis using fold_expire [OF sh1, of ids now] t False occ tk mem
      by (auto simp: expire_level0_def slot_of_0 Let_def fun_eq_iff)
  qed
qed

lemma wheel_remove_effect:
  assumes sh: "wheel_shape w"
    and loc: "te_linked (timers w i) \<longrightarrow> te_level (timers w i) = 6 \<or> te_level (timers w i) < 6 \<and> te_slot (timers w i) < 64"
    and r: "wheel_remove i w = (w', b)"
  shows "wheel_shape w'" "elapsed w' = elapsed w" "b = te_linked (timers w i)"
    "timers w' = (if te_linked (timers w i) then (timers w)(i := unlink (timers w i)) else timers w)"
    "pending w' = remove1 i (pending w)"
proof -
  note wf = wheel_shapeD [OF sh]
  let ?l = "te_level (timers w i)" and ?s = "te_slot (timers w i)"
  consider (un) "\<not> te_linked (timers w i)" | (pend) "te_linked (timers w i)" "?l = 6"
    | (slot) "te_linked (timers w i)" "?l < 6" "?s < 64" using loc by auto
  then have "wheel_shape w' \<and> elapsed w' = elapsed w \<and> b = te_linked (timers w i)
    \<and> timers w' = (if te_linked (timers w i) then (timers w)(i := unlink (timers w i)) else timers w)
    \<and> pending w' = remove1 i (pending w)"
  proof cases
    case un
    then show ?thesis using r sh wf(7) by (simp add: wheel_remove_def remove1_idem)
  next
    case pend
    then have w': "w' = upd_timer i unlink (w\<lparr>pending := remove1 i (pending w)\<rparr>)" "b"
      using r by (auto simp: wheel_remove_def unlink_def [abs_def] PENDING_LEVEL_def LEVEL_COUNT_def)
    have "wheel_shape w'" unfolding wheel_shape_def w' using wf pend by auto
    then show ?thesis using w' pend by simp
  next
    case slot
    define w1 where "w1 = set_slot ?l ?s (remove1 i (slot_list w ?l ?s)) w"
    define w2 where "w2 = (if slot_list w1 ?l ?s = [] then set_occ ?l (occ w1 ?l AND NOT (push_bit ?s 1)) w1 else w1)"
    have w': "w' = upd_timer i unlink w2" "b"
      using r slot by (auto simp: wheel_remove_def unlink_def [abs_def] PENDING_LEVEL_def LEVEL_COUNT_def SLOT_COUNT_def
          Let_def w1_def w2_def split: if_splits)
    have f: "length (levels w2) = 6" "\<And>k. k < 6 \<Longrightarrow> length (slots (levels w2 ! k)) = 64"
      "\<And>k t. k < 6 \<Longrightarrow> slot_list w2 k t = (if k = ?l \<and> t = ?s then remove1 i (slot_list w ?l ?s) else slot_list w k t)"
      "\<And>k. k < 6 \<Longrightarrow> occ w2 k = (if k = ?l \<and> remove1 i (slot_list w ?l ?s) = [] then occ w ?l AND NOT (push_bit ?s 1) else occ w k)"
      "pending w2 = pending w" "timers w2 = timers w" "elapsed w2 = elapsed w"
      using wf(1,2) slot unfolding w2_def w1_def by simp_all
    have np: "remove1 i (pending w) = pending w" using slot wf(7) by (simp add: remove1_idem)
    have bits: "\<And>k t. k < 6 \<Longrightarrow> t < 64 \<Longrightarrow> bit (occ w2 k) t = (slot_list w2 k t \<noteq> [])"
      using f(3,4) wf(3,5) slot by (auto simp: bit_set_clear)
    have sets: "\<And>k t. k < 6 \<Longrightarrow> t < 64 \<Longrightarrow> distinct (slot_list w2 k t) \<and> set (slot_list w2 k t)
        = {j. te_linked (timers w' j) \<and> te_level (timers w' j) = k \<and> te_slot (timers w' j) = t}"
      using f(3,6) wf(4,5) slot w' by auto
    have "wheel_shape w'" unfolding wheel_shape_def using f bits sets wf(6,7) slot w' by auto
    then show ?thesis using w' f np slot by simp
  qed
  then show "wheel_shape w'" "elapsed w' = elapsed w" "b = te_linked (timers w i)"
    "timers w' = (if te_linked (timers w i) then (timers w)(i := unlink (timers w i)) else timers w)"
    "pending w' = remove1 i (pending w)" by blast+
qed

section \<open>Placement of the entries\<close>

definition entry_ok :: "u64 \<Rightarrow> nat \<Rightarrow> nat \<Rightarrow> u64 \<Rightarrow> bool" where
  "entry_ok el l s d \<longleftrightarrow> l < 6 \<and> s = slot_of l d \<and> bucket l el < bucket l d
     \<and> (l < 5 \<longrightarrow> bucket (Suc l) d = bucket (Suc l) el)"

definition entry_good :: "u64 \<Rightarrow> timer_entry \<Rightarrow> bool" where
  "entry_good el e \<longleftrightarrow> te_linked e \<longrightarrow>
     te_level e = 6 \<and> te_deadline e \<le> el \<or> entry_ok el (te_level e) (te_slot e) (te_deadline e)"

definition wheel_inv :: "wheel \<Rightarrow> bool" where
  "wheel_inv w \<longleftrightarrow> wheel_shape w \<and> (\<forall>i. entry_good (elapsed w) (timers w i))"

text \<open>Right after \<open>elapsed\<close> moved to a boundary, entries of the current slots may be due.\<close>

definition entry_due :: "nat \<Rightarrow> u64 \<Rightarrow> timer_entry \<Rightarrow> bool" where
  "entry_due b el e \<longleftrightarrow> te_linked e \<and> te_level e < b \<and> te_slot e = slot_of (te_level e) (te_deadline e)
     \<and> bucket (te_level e) el = bucket (te_level e) (te_deadline e)"

lemma entry_ok_less: "entry_ok el l s d \<Longrightarrow> el < d"
  by (auto simp: entry_ok_def dest: bucket_less_D)

lemma entry_ok_slot: "entry_ok el l s d \<Longrightarrow> l < 6 \<and> s < 64"
  by (simp add: entry_ok_def)

lemma place_good: "entry_good el (place el e)"
proof (cases "te_deadline e \<le> el")
  case True
  then show ?thesis by (simp add: place_def entry_good_def)
next
  case False
  let ?l = "level_for el (te_deadline e)"
  have "bucket ?l el \<noteq> bucket ?l (te_deadline e)" using False level_for_differ [of "te_deadline e" el] by (metis order_refl)
  moreover have "bucket ?l el \<le> bucket ?l (te_deadline e)" using False by (intro bucket_mono) auto
  ultimately have "entry_ok el ?l (slot_of ?l (te_deadline e)) (te_deadline e)"
    using level_for_less [of el "te_deadline e"] level_for_agree [of el "te_deadline e"]
    by (auto simp: entry_ok_def LEVEL_COUNT_def)
  then show ?thesis using False by (simp add: place_def entry_good_def)
qed

lemma wheel_inv_location:
  "wheel_inv w \<Longrightarrow> te_linked (timers w i) \<longrightarrow> te_level (timers w i) = 6 \<or> te_level (timers w i) < 6 \<and> te_slot (timers w i) < 64"
  unfolding wheel_inv_def entry_good_def by (auto dest: entry_ok_slot)

lemma wheel_new_inv: "wheel_inv wheel_new"
  by (auto simp: wheel_inv_def wheel_shape_def wheel_new_def entry_good_def timer_entry_new_def slot_list_def
      occ_def level_new_def LEVEL_COUNT_def SLOT_COUNT_def UNLINKED_LEVEL_def)

lemma wheel_insert_inv:
  "wheel_inv w \<Longrightarrow> \<not> te_linked (timers w i) \<Longrightarrow> wheel_inv (wheel_insert i w)"
  by (simp add: wheel_inv_def wheel_insert_shape place_good)

lemma wheel_remove_inv:
  assumes "wheel_inv w" "wheel_remove i w = (w', b)"
  shows "wheel_inv w'"
  using wheel_remove_effect [OF _ wheel_inv_location [OF assms(1)] assms(2)] assms(1)
  by (auto simp: wheel_inv_def entry_good_def)

text \<open>Moving the clock within the current gap keeps every entry placed or makes it due.\<close>

lemma sandwich: "bucket l a = bucket l b \<Longrightarrow> a \<le> t \<Longrightarrow> t \<le> b \<Longrightarrow> bucket l t = bucket l a"
  using bucket_mono [of a t l] bucket_mono [of t b l] by simp

lemma entry_ok_move:
  assumes ok: "entry_ok el l s d" and t: "el \<le> t" "t \<le> d"
  shows "entry_ok t l s d \<or> bucket l t = bucket l d"
proof -
  have "bucket l t \<le> bucket l d" using t(2) by (rule bucket_mono)
  moreover have "bucket (Suc l) d = bucket (Suc l) t" if "l < 5"
    using ok that t sandwich [of "Suc l" el d t] by (auto simp: entry_ok_def)
  ultimately show ?thesis using ok by (auto simp: entry_ok_def)
qed

lemma entry_good_move:
  assumes "entry_good el e" "el \<le> t" "te_linked e \<longrightarrow> te_level e < 6 \<longrightarrow> t \<le> te_deadline e"
  shows "entry_good t e \<or> entry_due 6 t e"
proof (cases "te_linked e \<and> te_level e \<noteq> 6")
  case True
  then have ok: "entry_ok el (te_level e) (te_slot e) (te_deadline e)"
    using assms(1) by (simp add: entry_good_def)
  then have "te_level e < 6" "te_slot e = slot_of (te_level e) (te_deadline e)" by (auto simp: entry_ok_def)
  with entry_ok_move [OF ok assms(2)] True assms(3) show ?thesis by (auto simp: entry_good_def entry_due_def)
next
  case False
  then show ?thesis using assms by (auto simp: entry_good_def entry_ok_def)
qed

text \<open>The cascade brings every due entry to its place, level by level.\<close>

lemma cascade_level_good:
  assumes sh: "wheel_shape w" and l: "l < 6"
    and g: "\<forall>i. entry_good (elapsed w) (timers w i) \<or> entry_due (Suc l) (elapsed w) (timers w i)"
  shows "\<forall>i. entry_good (elapsed w) (timers (cascade_level l w) i) \<or> entry_due l (elapsed w) (timers (cascade_level l w) i)"
proof
  fix i
  let ?e = "timers w i"
  have t: "timers (cascade_level l w) i = (if te_linked ?e \<and> te_level ?e = l \<and> te_slot ?e = slot_of l (elapsed w)
      then place (elapsed w) (unlink ?e) else ?e)"
    using cascade_level_effect [OF sh l] by (simp add: Let_def)
  show "entry_good (elapsed w) (timers (cascade_level l w) i) \<or> entry_due l (elapsed w) (timers (cascade_level l w) i)"
    using g [rule_format, of i] unfolding t
    by (auto simp: place_good entry_due_def slot_of_bucket less_Suc_eq)
qed

lemma cascade_levels_good:
  assumes "wheel_shape w" "k \<le> 6"
    and "\<forall>i. entry_good (elapsed w) (timers w i) \<or> entry_due k (elapsed w) (timers w i)"
    and "1 \<le> k" "w' = fold cascade_level (rev [1..<k]) w"
  shows "wheel_shape w' \<and> elapsed w' = elapsed w
    \<and> (\<forall>i. entry_good (elapsed w) (timers w' i) \<or> entry_due 1 (elapsed w) (timers w' i))"
  using assms(4,1,2,3,5)
proof (induction k arbitrary: w rule: dec_induct)
  case (step k)
  have eq: "rev [1..<Suc k] = k # rev [1..<k]" using step.hyps by simp
  show ?case
    using step.IH [of "cascade_level k w"] step.prems step.hyps
      cascade_level_effect [of w k] cascade_level_good [of w k] unfolding eq by simp
qed simp

text \<open>Re-arranging the wheel touches only the location of an entry.\<close>

definition same_timers :: "wheel \<Rightarrow> wheel \<Rightarrow> bool" where
  "same_timers w w' \<longleftrightarrow> (\<forall>i. te_linked (timers w' i) = te_linked (timers w i)
     \<and> te_deadline (timers w' i) = te_deadline (timers w i)
     \<and> te_fired (timers w' i) = te_fired (timers w i) \<and> te_waker (timers w' i) = te_waker (timers w i))"

lemma same_timers_refl [simp]: "same_timers w w"
  by (simp add: same_timers_def)

lemma same_timers_trans: "same_timers u v \<Longrightarrow> same_timers v w \<Longrightarrow> same_timers u w"
  by (simp add: same_timers_def)

lemma same_timers_elapsed [simp]:
  "same_timers u (v\<lparr>elapsed := t\<rparr>) = same_timers u v" "same_timers (u\<lparr>elapsed := t\<rparr>) v = same_timers u v"
  by (simp_all add: same_timers_def)

lemma place_unlink_fields [simp]:
  "te_linked (place el e)" "te_deadline (place el e) = te_deadline e"
  "te_fired (place el e) = te_fired e" "te_waker (place el e) = te_waker e"
  "te_fired (unlink e) = te_fired e" "te_waker (unlink e) = te_waker e"
  by (simp_all add: place_def unlink_def)

lemma cascade_level_same: "wheel_shape w \<Longrightarrow> l < 6 \<Longrightarrow> same_timers w (cascade_level l w)"
  using cascade_level_effect [of w l] by (simp add: same_timers_def Let_def)

lemma cascade_levels_same:
  assumes "1 \<le> k" "wheel_shape w" "k \<le> 6"
  shows "same_timers w (fold cascade_level (rev [1..<k]) w)"
  using assms
proof (induction k arbitrary: w rule: dec_induct)
  case (step k)
  have eq: "rev [1..<Suc k] = k # rev [1..<k]" using step.hyps by simp
  show ?case
    using step.IH [of "cascade_level k w"] step.prems step.hyps
      cascade_level_effect [of w k] cascade_level_same [of w k] unfolding eq
    by (auto intro: same_timers_trans)
qed simp

section \<open>The next boundary\<close>

lemma bucket_le: "bucket l t * 64 ^ l \<le> unat t"
  by (simp add: bucket_def)

text \<open>
  For every entry of a level the computed boundary is after \<open>elapsed\<close> and not after the entry's
  deadline; in particular neither the saturation nor the shift can lose bits.
\<close>

lemma level_event_at_bounds:
  assumes l: "l < 6" and d: "bucket l el < bucket l d" and occ: "bit oc (slot_of l d)"
  shows "el < level_event_at el l oc" "unat (level_event_at el l oc) \<le> bucket l d * 64 ^ l"
proof -
  define g where "g = slot_delta oc (slot_of l el)"
  define k where "k = bucket l d - bucket l el"
  have oc0: "oc \<noteq> 0" using occ by auto
  have lg: "least_gap oc (slot_of l el) g" unfolding g_def by (rule slot_delta_least [OF oc0 slot_of_less])
  have kd: "bucket l d = bucket l el + k" "1 \<le> k" using d by (simp_all add: k_def)
  have g: "1 \<le> g" "g \<le> 64" using lg by (simp_all add: least_gap_def)
  have "g \<le> k"
  proof (rule ccontr)
    assume "\<not> g \<le> k"
    then have "\<not> bit oc ((slot_of l el + k) mod 64)" using lg kd(2) by (simp add: least_gap_def)
    with occ kd(1) show False by (simp add: slot_of_bucket mod_add_left_eq)
  qed
  then have b: "bucket l el + g \<le> bucket l d" using kd by simp
  have p: "(bucket l el + g) * 64 ^ l \<le> unat d"
    using b bucket_le [of l d] mult_le_mono1 [OF b, of "64 ^ l"] by linarith
  have d64: "unat d < 2 ^ 64" using unsigned_less [of d] by simp
  have "bucket l d \<le> unat d" by (simp add: bucket_def)
  with b d64 have s: "unat (drop_bit (l * 6) el) + unat (of_nat g :: u64) = bucket l el + g" "bucket l el + g < 2 ^ 64"
    using g by (simp_all add: bucket_drop_bit unat_of_nat_lt)
  define m where "m = saturating_add (drop_bit (l * 6) el) (of_nat g)"
  have m: "unat m = bucket l el + g"
    using s unat_word_ariths(1) [of "drop_bit (l * 6) el" "of_nat g"] by (simp add: m_def saturating_add_def)
  have at: "level_event_at el l oc = push_bit (l * 6) m"
    using l by (simp add: level_event_at_def checked_shl_def Let_def m_def g_def)
  have "unat (push_bit (l * 6) m) = (unat m * 2 ^ (l * 6)) mod 2 ^ 64"
    unfolding unsigned_push_bit_eq by (simp add: take_bit_eq_mod push_bit_eq_mult)
  also have "\<dots> = (bucket l el + g) * 64 ^ l" using p d64 by (simp only: m pow_6) simp
  finally have u: "unat (level_event_at el l oc) = (bucket l el + g) * 64 ^ l" by (simp add: at)
  show "unat (level_event_at el l oc) \<le> bucket l d * 64 ^ l" using u b by simp
  have "unat el < (bucket l el + 1) * 64 ^ l"
    unfolding bucket_def using dividend_less_times_div [of "64 ^ l" "unat el"] by (simp add: algebra_simps)
  also have "\<dots> \<le> (bucket l el + g) * 64 ^ l" using g(1) by (intro mult_le_mono1) simp
  finally show "el < level_event_at el l oc" using u by (simp add: word_less_nat_alt)
qed

lemma next_event_fold:
  "case fold (\<lambda>l next. if f l = 0 then next
        else let at = g l (f l) in Some (case next of None \<Rightarrow> at | Some n \<Rightarrow> min n at)) [0..<k] None of
     None \<Rightarrow> \<forall>l<k. f l = 0
   | Some n \<Rightarrow> (\<exists>l<k. f l \<noteq> 0 \<and> n = g l (f l)) \<and> (\<forall>l<k. f l \<noteq> 0 \<longrightarrow> n \<le> g l (f l))"
  for f :: "nat \<Rightarrow> u64" and g :: "nat \<Rightarrow> u64 \<Rightarrow> u64"
proof (induction k)
  case (Suc k)
  then show ?case by (auto simp: less_Suc_eq Let_def min_def split: option.splits)
qed simp

definition armed :: "wheel \<Rightarrow> timer_id set" where
  "armed w = {i. te_linked (timers w i)}"

lemma occ_entry:
  assumes inv: "wheel_inv w" and l: "l < 6" and nz: "occ w l \<noteq> 0"
  shows "\<exists>i. te_linked (timers w i) \<and> te_level (timers w i) = l
    \<and> bucket l (elapsed w) < bucket l (te_deadline (timers w i)) \<and> bit (occ w l) (slot_of l (te_deadline (timers w i)))"
proof -
  obtain s where s: "s < 64" "bit (occ w l) s" using word_neq_0_bit [OF nz] by blast
  have sh: "wheel_shape w" using inv by (simp add: wheel_inv_def)
  obtain i where i: "i \<in> set (slot_list w l s)"
    using wheel_shapeD(3) [OF sh l s(1)] s(2) by (meson all_not_in_conv set_empty)
  then have e: "te_linked (timers w i)" "te_level (timers w i) = l" "te_slot (timers w i) = s"
    using wheel_shapeD(5) [OF sh l s(1)] by auto
  moreover have "entry_ok (elapsed w) l s (te_deadline (timers w i))"
    using inv e l unfolding wheel_inv_def entry_good_def by fastforce
  ultimately show ?thesis using s(2) by (auto simp: entry_ok_def)
qed

lemma entry_occ:
  assumes inv: "wheel_inv w" and i: "te_linked (timers w i)" "te_level (timers w i) \<noteq> 6"
  shows "te_level (timers w i) < 6" "bucket (te_level (timers w i)) (elapsed w) < bucket (te_level (timers w i)) (te_deadline (timers w i))"
    "bit (occ w (te_level (timers w i))) (slot_of (te_level (timers w i)) (te_deadline (timers w i)))"
proof -
  let ?l = "te_level (timers w i)" and ?d = "te_deadline (timers w i)"
  have sh: "wheel_shape w" using inv by (simp add: wheel_inv_def)
  have ok: "entry_ok (elapsed w) ?l (te_slot (timers w i)) ?d"
    using inv i unfolding wheel_inv_def entry_good_def by blast
  then show l: "?l < 6" and "bucket ?l (elapsed w) < bucket ?l ?d" by (auto simp: entry_ok_def)
  have "i \<in> set (slot_list w ?l (slot_of ?l ?d))"
    using wheel_shapeD(5) [OF sh l, of "slot_of ?l ?d"] ok i by (auto simp: entry_ok_def)
  then show "bit (occ w ?l) (slot_of ?l ?d)" using wheel_shapeD(3) [OF sh l, of "slot_of ?l ?d"] by auto
qed

lemma next_event_None:
  assumes inv: "wheel_inv w"
  shows "next_event_at w = None \<longleftrightarrow> armed w = {}"
proof (cases "pending w = []")
  case True
  then have np: "\<And>i. te_linked (timers w i) \<Longrightarrow> te_level (timers w i) \<noteq> 6"
    using inv wheel_shapeD(7) [of w] by (auto simp: wheel_inv_def)
  have "next_event_at w = None \<longleftrightarrow> (\<forall>l<6. occ w l = 0)"
    using next_event_fold [where f = "occ w" and g = "level_event_at (elapsed w)" and k = 6] True
    by (auto simp: next_event_at_def LEVEL_COUNT_def split: option.splits)
  also have "\<dots> \<longleftrightarrow> armed w = {}"
    unfolding armed_def using occ_entry [OF inv] entry_occ [OF inv] np
    by (metis (mono_tags, lifting) Collect_empty_eq bit_0_eq bot_apply bot_bool_def)
  finally show ?thesis .
next
  case False
  then show ?thesis using inv wheel_shapeD(7) [of w]
    by (auto simp: next_event_at_def wheel_inv_def armed_def neq_Nil_conv)
qed

lemma next_event_Some:
  assumes inv: "wheel_inv w" and pd: "pending w = []" and n: "next_event_at w = Some n"
  shows "elapsed w < n"
    "i \<in> armed w \<Longrightarrow> unat n \<le> bucket (te_level (timers w i)) (te_deadline (timers w i)) * 64 ^ te_level (timers w i)"
proof -
  have f: "(\<exists>l<6. occ w l \<noteq> 0 \<and> n = level_event_at (elapsed w) l (occ w l))"
    "\<forall>l<6. occ w l \<noteq> 0 \<longrightarrow> n \<le> level_event_at (elapsed w) l (occ w l)"
    using next_event_fold [where f = "occ w" and g = "level_event_at (elapsed w)" and k = 6] n pd
    by (auto simp: next_event_at_def LEVEL_COUNT_def)
  show "elapsed w < n" using f(1) occ_entry [OF inv] level_event_at_bounds(1) by blast
  show "unat n \<le> bucket (te_level (timers w i)) (te_deadline (timers w i)) * 64 ^ te_level (timers w i)" if "i \<in> armed w"
  proof -
    have i: "te_linked (timers w i)" "te_level (timers w i) \<noteq> 6"
      using that inv pd wheel_shapeD(7) [of w] by (auto simp: armed_def wheel_inv_def)
    note e = entry_occ [OF inv i]
    have "occ w (te_level (timers w i)) \<noteq> 0" using e(3) by auto
    then show ?thesis using f(2) e(1) level_event_at_bounds(2) [OF e] by (meson order_trans word_le_nat_alt)
  qed
qed

lemma next_event_le:
  assumes inv: "wheel_inv w" and n: "next_event_at w = Some n"
  shows "elapsed w \<le> n" "pending w = [] \<or> n = elapsed w"
  using next_event_Some(1) [OF inv _ n] n by (cases "pending w = []"; auto simp: next_event_at_def)+

lemma next_event_deadline:
  assumes "wheel_inv w" "pending w = []" "next_event_at w = Some n" "i \<in> armed w"
  shows "n \<le> te_deadline (timers w i)"
  using next_event_Some(2) [OF assms] bucket_le by (meson order_trans word_le_nat_alt)

section \<open>Advancing the clock\<close>

lemma advance_tick_effect:
  assumes inv: "wheel_inv w" and n: "next_event_at w = Some n" and now: "n \<le> now"
  defines "w' \<equiv> advance_tick now n w"
  shows "wheel_inv w'" "elapsed w' = n" "same_timers w w'"
proof -
  define w1 where "w1 = w\<lparr>elapsed := n\<rparr>"
  define w2 where "w2 = fold cascade_level (rev [1..<6]) w1"
  have sh1: "wheel_shape w1" using inv by (simp add: w1_def wheel_inv_def wheel_shape_def)
  have bound: "n \<le> te_deadline (timers w i)" if "te_linked (timers w i)" "te_level (timers w i) < 6" for i
  proof (cases "pending w = []")
    case True
    then show ?thesis using next_event_deadline [OF inv _ n] that by (simp add: armed_def)
  next
    case False
    then have "n = elapsed w" using next_event_le(2) [OF inv n] by simp
    moreover have "entry_ok (elapsed w) (te_level (timers w i)) (te_slot (timers w i)) (te_deadline (timers w i))"
      using inv that unfolding wheel_inv_def entry_good_def by fastforce
    ultimately show ?thesis using entry_ok_less by fastforce
  qed
  have g1: "\<forall>i. entry_good n (timers w1 i) \<or> entry_due 6 n (timers w1 i)"
    using entry_good_move [of "elapsed w" _ n] next_event_le(1) [OF inv n] bound inv
    by (simp add: w1_def wheel_inv_def)
  have w2: "wheel_shape w2" "elapsed w2 = n" "\<forall>i. entry_good n (timers w2 i) \<or> entry_due 1 n (timers w2 i)"
    using cascade_levels_good [OF sh1 _ _ _ w2_def] g1 by (simp_all add: w1_def)
  have zero: "te_deadline e = n"
    if "te_linked e" "te_level e = 0" "te_slot e = slot_of 0 n" "entry_good n e \<or> entry_due 1 n e" for e
  proof -
    from that consider "entry_ok n 0 (slot_of 0 n) (te_deadline e)" | "bucket 0 n = bucket 0 (te_deadline e)"
      by (auto simp: entry_good_def entry_due_def)
    then show ?thesis
    proof cases
      case 1
      then have "unat n mod 64 = unat (te_deadline e) mod 64" "unat n div 64 = unat (te_deadline e) div 64"
        by (auto simp: entry_ok_def slot_of_bucket bucket_Suc)
      then have "unat n = unat (te_deadline e)" by (metis div_mult_mod_eq)
      then show ?thesis by (simp add: word_unat_eq_iff)
    qed (simp add: word_unat_eq_iff)
  qed
  have eff: "wheel_shape w' \<and> elapsed w' = n \<and> timers w' = (\<lambda>j. let e = timers w2 j in
         if te_linked e \<and> te_level e = 0 \<and> te_slot e = slot_of 0 n
         then (unlink e)\<lparr>te_level := 6, te_linked := True\<rparr> else e)"
    using expire_level0_effect [OF w2(1), of now] w2(2,3) zero now
    by (auto simp: w'_def advance_tick_def LEVEL_COUNT_def w1_def w2_def)
  show "elapsed w' = n" using eff by simp
  have "same_timers w1 w2" unfolding w2_def using cascade_levels_same [OF _ sh1, of 6] by simp
  then show "same_timers w w'" using eff by (auto simp: same_timers_def Let_def w1_def)
  have "entry_good n (timers w' i)" for i
  proof (cases "te_linked (timers w2 i) \<and> te_level (timers w2 i) = 0 \<and> te_slot (timers w2 i) = slot_of 0 n")
    case True
    then have "te_deadline (timers w2 i) = n" using zero w2(3) by blast
    then show ?thesis using eff True by (simp add: entry_good_def)
  next
    case False
    then have "\<not> entry_due 1 n (timers w2 i)" by (auto simp: entry_due_def slot_of_bucket)
    then show ?thesis using eff False w2(3) by (auto simp: Let_def)
  qed
  then show "wheel_inv w'" using eff by (simp add: wheel_inv_def)
qed

lemma due_pending:
  assumes "wheel_inv w" "i \<in> armed w" "te_deadline (timers w i) \<le> elapsed w"
  shows "i \<in> set (pending w)"
proof -
  have "te_level (timers w i) = 6"
    using assms unfolding wheel_inv_def entry_good_def armed_def by (metis entry_ok_less mem_Collect_eq not_le)
  then show ?thesis using assms wheel_shapeD(7) [of w] by (simp add: wheel_inv_def armed_def)
qed

lemma pending_mem_due:
  assumes "wheel_inv w" "i \<in> set (pending w)"
  shows "i \<in> armed w" "te_deadline (timers w i) \<le> elapsed w"
proof -
  have i: "te_linked (timers w i)" "te_level (timers w i) = 6"
    using assms wheel_shapeD(7) [of w] by (auto simp: wheel_inv_def)
  then show "i \<in> armed w" by (simp add: armed_def)
  show "te_deadline (timers w i) \<le> elapsed w"
    using assms(1) i unfolding wheel_inv_def entry_good_def entry_ok_def by fastforce
qed

lemma pending_due:
  assumes "wheel_inv w" "pending w \<noteq> []"
  shows "\<exists>i. i \<in> armed w \<and> te_deadline (timers w i) \<le> elapsed w"
  using pending_mem_due [OF assms(1), of "hd (pending w)"] assms(2) by auto

text \<open>Jumping over a gap in which nothing happens.\<close>

lemma wheel_jump:
  assumes inv: "wheel_inv w" and pd: "pending w = []" and le: "elapsed w \<le> now"
    and gap: "\<And>n. next_event_at w = Some n \<Longrightarrow> now < n"
  shows "wheel_inv (w\<lparr>elapsed := now\<rparr>)"
proof -
  have "entry_good now (timers w i)" for i
  proof (cases "i \<in> armed w")
    case True
    then obtain n where n: "next_event_at w = Some n" using next_event_None [OF inv] by fastforce
    let ?l = "te_level (timers w i)" and ?d = "te_deadline (timers w i)"
    have lt: "unat now < bucket ?l ?d * 64 ^ ?l"
      using next_event_Some(2) [OF inv pd n True] gap [OF n] by (simp add: word_less_nat_alt)
    then have ne: "bucket ?l now < bucket ?l ?d" unfolding bucket_def [of _ now] by (rule less_mult_imp_div_less)
    have "now \<le> ?d" using next_event_deadline [OF inv pd n True] gap [OF n] by order
    then have "entry_good now (timers w i) \<or> entry_due 6 now (timers w i)"
      using inv le by (intro entry_good_move) (auto simp: wheel_inv_def)
    then show ?thesis using ne by (auto simp: entry_due_def)
  qed (simp add: entry_good_def armed_def)
  then show ?thesis using inv by (simp add: wheel_inv_def wheel_shape_def)
qed

lemma advance_loop_total:
  assumes "wheel_inv w" "elapsed w \<le> now"
  shows "\<exists>w'. advance_loop now w = Some w' \<and> wheel_inv w' \<and> same_timers w w'
    \<and> elapsed w \<le> elapsed w' \<and> elapsed w' \<le> now \<and> (pending w' = [] \<longrightarrow> elapsed w' = now)
    \<and> (pending w = [] \<longrightarrow> (\<forall>i\<in>armed w. elapsed w' \<le> te_deadline (timers w i)))"
  using assms
proof (induction "unat now - unat (elapsed w)" arbitrary: w rule: less_induct)
  case less
  note inv = less.prems(1)
  show ?case
  proof (cases "\<exists>n. next_event_at w = Some n \<and> n \<le> now")
    case False
    then have gap: "\<And>n. next_event_at w = Some n \<Longrightarrow> now < n" by (simp add: not_le)
    have pd: "pending w = []"
      using False less.prems(2) by (auto simp: next_event_at_def split: if_splits)
    have "advance_loop now w = Some (w\<lparr>elapsed := now\<rparr>)"
      using gap by (subst advance_loop.simps) (auto split: option.splits)
    moreover have "now \<le> te_deadline (timers w i)" if "i \<in> armed w" for i
      using that gap next_event_None [OF inv] next_event_deadline [OF inv pd _ that]
      by (cases "next_event_at w") (blast, meson order_less_imp_le order_trans)
    ultimately show ?thesis using wheel_jump [OF inv pd less.prems(2) gap] less.prems(2) pd by simp
  next
    case True
    then obtain n where n: "next_event_at w = Some n" "n \<le> now" by blast
    define w1 where "w1 = advance_tick now n w"
    note t = advance_tick_effect [OF inv n, folded w1_def]
    have up: "elapsed w \<le> n" by (rule next_event_le(1) [OF inv n(1)])
    have step: "advance_loop now w = (if pending w1 \<noteq> [] then Some w1
        else if next_event_at w1 = None then Some (w1\<lparr>elapsed := now\<rparr>) else advance_loop now w1)"
      using n by (subst advance_loop.simps) (auto simp: w1_def Let_def not_less)
    have dl: "pending w = [] \<Longrightarrow> i \<in> armed w \<Longrightarrow> n \<le> te_deadline (timers w i)" for i
      by (rule next_event_deadline [OF inv _ n(1)])
    have same: "armed w1 = armed w" "te_deadline (timers w1 i) = te_deadline (timers w i)" for i
      using t(3) by (simp_all add: same_timers_def armed_def)
    show ?thesis
    proof (cases "pending w1 = []")
      case False
      then show ?thesis using step t up n(2) dl by auto
    next
      case pd1: True
      have pd: "pending w = []"
      proof (rule ccontr)
        assume "pending w \<noteq> []"
        then have "i \<in> armed w \<Longrightarrow> \<not> te_deadline (timers w i) \<le> n" for i
          using due_pending [OF t(1), of i] t(2,3) pd1 by (auto simp: armed_def same_timers_def)
        with \<open>pending w \<noteq> []\<close> show False using pending_due [OF inv] up by (meson order_trans)
      qed
      show ?thesis
      proof (cases "next_event_at w1")
        case None
        then show ?thesis using step pd1 t up n(2) wheel_jump [OF t(1) pd1, of now]
            next_event_None [OF t(1)] same by auto
      next
        case (Some m)
        have "elapsed w < n" by (rule next_event_Some(1) [OF inv pd n(1)])
        then have "unat now - unat (elapsed w1) < unat now - unat (elapsed w)"
          using t(2) n(2) by (auto simp: word_less_nat_alt word_le_nat_alt)
        from less.hyps [OF this t(1)] t(2) n(2) obtain w' where
          "advance_loop now w1 = Some w'" "wheel_inv w'" "same_timers w1 w'" "n \<le> elapsed w'"
          "elapsed w' \<le> now" "pending w' = [] \<longrightarrow> elapsed w' = now"
          "\<forall>i\<in>armed w. elapsed w' \<le> te_deadline (timers w i)" using pd1 same by auto
        then show ?thesis using step pd1 Some t(3) up by (auto intro: same_timers_trans)
      qed
    qed
  qed
qed

lemma wheel_upd_unlinked:
  assumes "wheel_inv w" "\<not> te_linked (timers w i)" "\<not> te_linked (f (timers w i))"
  shows "wheel_inv (upd_timer i f w)"
  using assms unfolding wheel_inv_def wheel_shape_def by (auto simp: entry_good_def)

lemma advance_to_result:
  assumes "wheel_inv w"
  shows "\<exists>w'. advance_to now w = Some w' \<and> wheel_inv w' \<and> same_timers w w'
    \<and> elapsed w \<le> elapsed w' \<and> elapsed w' \<le> max now (elapsed w)
    \<and> (\<forall>i\<in>set (pending w'). te_deadline (timers w i) \<le> max now (elapsed w))
    \<and> (pending w' = [] \<longrightarrow> (\<forall>i\<in>armed w. now < te_deadline (timers w i)))
    \<and> (pending w = [] \<longrightarrow> (\<forall>i\<in>armed w. elapsed w' \<le> te_deadline (timers w i)))"
proof -
  have ex: "\<exists>w'. advance_to now w = Some w' \<and> wheel_inv w' \<and> same_timers w w'
    \<and> elapsed w \<le> elapsed w' \<and> elapsed w' \<le> max now (elapsed w) \<and> (pending w' = [] \<longrightarrow> now \<le> elapsed w')
    \<and> (pending w = [] \<longrightarrow> (\<forall>i\<in>armed w. elapsed w' \<le> te_deadline (timers w i)))"
  proof (cases "now \<le> elapsed w")
    case True
    have "elapsed w \<le> te_deadline (timers w i)" if "pending w = []" "i \<in> armed w" for i
      using due_pending [OF assms that(2)] that(1) by (metis empty_iff empty_set linear)
    then show ?thesis using assms True by (simp add: advance_to_def)
  next
    case False
    then have "max now (elapsed w) = now" "elapsed w \<le> now" by auto
    with advance_loop_total [OF assms, of now] False show ?thesis by (auto simp: advance_to_def)
  qed
  then obtain w' where w': "advance_to now w = Some w'" "wheel_inv w'" "same_timers w w'"
    "elapsed w \<le> elapsed w'" "elapsed w' \<le> max now (elapsed w)" "pending w' = [] \<longrightarrow> now \<le> elapsed w'"
    "pending w = [] \<longrightarrow> (\<forall>i\<in>armed w. elapsed w' \<le> te_deadline (timers w i))"
    by blast
  have "te_deadline (timers w i) \<le> max now (elapsed w)" if "i \<in> set (pending w')" for i
    using pending_mem_due [OF w'(2) that] w'(3,5) by (auto simp: same_timers_def intro: order_trans)
  moreover have "now < te_deadline (timers w i)" if "pending w' = []" "i \<in> armed w" for i
  proof -
    have "\<not> te_deadline (timers w i) \<le> elapsed w'"
      using due_pending [OF w'(2), of i] that w'(3) by (auto simp: armed_def same_timers_def)
    then show ?thesis using w'(6) that(1) by auto
  qed
  ultimately show ?thesis using w' by blast
qed

section \<open>Properties of the wheel\<close>

text \<open>A wheel with two timers, at 70 and at 5000 milliseconds, for the concrete instances.\<close>

definition two_timers :: wheel where
  "two_timers = wheel_insert 2 (upd_timer 2 (\<lambda>e. e\<lparr>te_deadline := 5000\<rparr>)
     (wheel_insert 1 (upd_timer 1 (\<lambda>e. e\<lparr>te_deadline := 70\<rparr>) wheel_new)))"

lemma two_timers_inv: "wheel_inv two_timers"
  unfolding two_timers_def
  by (intro wheel_insert_inv wheel_upd_unlinked wheel_new_inv) (simp_all add: wheel_new_def timer_entry_new_def)

lemma two_timers_simps:
  "elapsed two_timers = 0" "armed two_timers = {1, 2}"
  "te_deadline (timers two_timers 1) = 70" "te_deadline (timers two_timers 2) = 5000"
  by (auto simp: two_timers_def armed_def wheel_new_def timer_entry_new_def)

text \<open>C17. \<open>Wheel::advance_to\<close> always returns, keeps the wheel well-formed and loses no timer
  (the linked entries, their deadlines and wakers are unchanged). The clock of the wheel does not
  go back and does not pass \<open>now\<close>. Entries reach \<open>pending\<close> only when their deadline has passed,
  and when \<open>pending\<close> is left empty every armed timer is still in the future. Unless expired
  entries were waiting before, the wheel's clock stops at the earliest armed deadline.\<close>

theorem advance_to_exact:
  assumes "wheel_inv w"
  shows "\<exists>w'. advance_to now w = Some w' \<and> wheel_inv w' \<and> same_timers w w'
    \<and> elapsed w \<le> elapsed w' \<and> elapsed w' \<le> max now (elapsed w)
    \<and> (\<forall>i\<in>set (pending w'). te_deadline (timers w i) \<le> max now (elapsed w))
    \<and> (pending w' = [] \<longrightarrow> (\<forall>i\<in>armed w. now < te_deadline (timers w i)))
    \<and> (pending w = [] \<longrightarrow> (\<forall>i\<in>armed w. elapsed w' \<le> te_deadline (timers w i)))"
  using assms by (rule advance_to_result)

theorem advance_to_exact_witness:
  "\<exists>w'. advance_to 100 two_timers = Some w' \<and> wheel_inv w' \<and> armed w' = {1, 2}
     \<and> 2 \<notin> set (pending w') \<and> pending w' \<noteq> []"
proof -
  obtain w' where w': "advance_to 100 two_timers = Some w'" "wheel_inv w'" "same_timers two_timers w'"
    "\<forall>i\<in>set (pending w'). te_deadline (timers two_timers i) \<le> 100"
    "pending w' = [] \<longrightarrow> (\<forall>i\<in>armed two_timers. 100 < te_deadline (timers two_timers i))"
    using advance_to_exact [OF two_timers_inv, of 100] two_timers_simps(1) by auto
  have "armed w' = {1, 2}" using w'(3) two_timers_simps(2) by (auto simp: same_timers_def armed_def)
  then show ?thesis using w' two_timers_simps by auto
qed

text \<open>C18. \<open>Wheel::next_event_at\<close> bounds a sleep from above: it answers \<open>None\<close> exactly when no timer
  is armed, and otherwise a time that is not before \<open>elapsed\<close> and not after any armed deadline
  (or \<open>elapsed\<close> itself when expired entries are waiting in \<open>pending\<close>), so sleeping until that
  time oversleeps no timer. No shift or addition overflows for any 64-bit deadlines.\<close>

theorem next_event_never_late:
  assumes "wheel_inv w"
  shows "case next_event_at w of
       None \<Rightarrow> armed w = {}
     | Some n \<Rightarrow> armed w \<noteq> {} \<and> elapsed w \<le> n
         \<and> (if pending w = [] then elapsed w < n \<and> (\<forall>i\<in>armed w. n \<le> te_deadline (timers w i)) else n = elapsed w)"
proof (cases "next_event_at w")
  case None
  then show ?thesis using next_event_None [OF assms] by simp
next
  case (Some n)
  then show ?thesis
    using next_event_None [OF assms] next_event_le [OF assms Some]
      next_event_Some(1) [OF assms _ Some] next_event_deadline [OF assms _ Some] by auto
qed

theorem next_event_never_late_witness:
  "\<exists>n. next_event_at two_timers = Some n \<and> 0 \<le> n \<and> n \<le> 70"
  using next_event_never_late [OF two_timers_inv] two_timers_simps
  by (auto split: option.splits if_splits simp: word_le_nat_alt)

end
