(* ===== verification/Timer_Shared.thy ===== *)
theory Timer_Shared
  imports Timer_Wheel
begin

text \<open>
  The shared timer driver of \<open>time/wheel.rs\<close> (\<open>TimerShared\<close>: the clock that can be paused, arming,
  cancelling and firing) and the futures of \<open>time/mod.rs\<close> built on it: \<open>Sleep\<close>, \<open>Timeout\<close> and
  \<open>Interval\<close>. An \<open>Instant\<close> and a \<open>Duration\<close> are nanoseconds; the reading of the operating system's
  monotonic clock is an argument of the operations that read it. The wheel's mutex makes every
  operation atomic. \<open>notify\<close> is a callback of the runtime; the model counts its calls.
\<close>

section \<open>The driver\<close>

type_synonym instant = nat
type_synonym duration = nat

record timer_shared =
  origin :: instant
  ts_wheel :: wheel
  ts_notified :: nat
  paused :: bool
  paused_elapsed :: u64
  auto_advance :: bool

definition timer_shared_new :: "instant \<Rightarrow> timer_shared" where
  "timer_shared_new clk = \<lparr>origin = clk, ts_wheel = wheel_new, ts_notified = 0, paused = False,
     paused_elapsed = 0, auto_advance = False\<rparr>"

definition U64_MAX :: nat where "U64_MAX = 2 ^ 64 - 1"

definition as_millis :: "duration \<Rightarrow> nat" where "as_millis d = d div 1000000"
definition subsec_nanos :: "duration \<Rightarrow> nat" where "subsec_nanos d = d mod 1000000000"

text \<open>Milliseconds rounded up, and capped to 64 bits.\<close>

definition ceil_ms :: "duration \<Rightarrow> u64" where
  "ceil_ms d = of_nat (min (as_millis d + of_bool (subsec_nanos d mod 1000000 \<noteq> 0)) U64_MAX)"

definition real_elapsed_ms :: "instant \<Rightarrow> timer_shared \<Rightarrow> u64" where
  "real_elapsed_ms clk ts = of_nat (min (as_millis (clk - origin ts)) U64_MAX)"

definition now_ms :: "instant \<Rightarrow> timer_shared \<Rightarrow> u64" where
  "now_ms clk ts = (if paused ts then paused_elapsed ts else real_elapsed_ms clk ts)"

definition now_instant :: "instant \<Rightarrow> timer_shared \<Rightarrow> instant" where
  "now_instant clk ts = origin ts + unat (now_ms clk ts) * 1000000"

definition instant_to_ms :: "timer_shared \<Rightarrow> instant \<Rightarrow> u64" where
  "instant_to_ms ts i = (if i < origin ts then 0 else ceil_ms (i - origin ts))"

definition ts_pause :: "instant \<Rightarrow> timer_shared \<Rightarrow> timer_shared" where
  "ts_pause clk ts =
     (if \<not> paused ts then ts\<lparr>paused := True, paused_elapsed := real_elapsed_ms clk ts\<rparr> else ts)"

definition ts_resume :: "timer_shared \<Rightarrow> timer_shared" where
  "ts_resume ts = ts\<lparr>paused := False\<rparr>"

definition set_auto_advance :: "bool \<Rightarrow> timer_shared \<Rightarrow> timer_shared" where
  "set_auto_advance en ts = ts\<lparr>auto_advance := en\<rparr>"

text \<open>Returns the new state and whether the timer was already due.\<close>

definition arm :: "instant \<Rightarrow> timer_id \<Rightarrow> instant \<Rightarrow> waker \<Rightarrow> timer_shared \<Rightarrow> timer_shared \<times> bool" where
  "arm clk i deadline_instant wk ts =
     (let already_due = deadline_instant \<le> now_instant clk ts;
          deadline = instant_to_ms ts deadline_instant;
          w = fst (wheel_remove i (ts_wheel ts));
          w = upd_timer i (\<lambda>e. e\<lparr>te_deadline := deadline, te_fired := False, te_waker := Some wk\<rparr>) w
      in if already_due \<or> deadline \<le> elapsed w
         then (ts\<lparr>ts_wheel := upd_timer i (\<lambda>e. e\<lparr>te_fired := True, te_waker := None\<rparr>) w\<rparr>, True)
         else (ts\<lparr>ts_wheel := wheel_insert i w, ts_notified := ts_notified ts + 1\<rparr>, False))"

definition cancel :: "timer_id \<Rightarrow> timer_shared \<Rightarrow> timer_shared" where
  "cancel i ts = ts\<lparr>ts_wheel := upd_timer i (\<lambda>e. e\<lparr>te_waker := None\<rparr>) (fst (wheel_remove i (ts_wheel ts)))\<rparr>"

text \<open>Firing the taken entries: the flag is set and the waker is collected.\<close>

primrec fire_all :: "timer_id list \<Rightarrow> wheel \<Rightarrow> wheel \<times> waker list" where
  "fire_all [] w = (w, [])"
| "fire_all (i # ids) w =
     (let wk = te_waker (timers w i);
          (w', wks) = fire_all ids (upd_timer i (\<lambda>e. e\<lparr>te_fired := True, te_waker := None\<rparr>) w)
      in (w', wakes_of wk @ wks))"

text \<open>\<open>None\<close> is a loop of \<open>advance_to\<close> that does not return.\<close>

definition advance_to_now :: "instant \<Rightarrow> timer_shared \<Rightarrow> (timer_shared \<times> waker list) option" where
  "advance_to_now clk ts =
     (case advance_to (now_ms clk ts) (ts_wheel ts) of
        None \<Rightarrow> None
      | Some w \<Rightarrow>
          let (ids, w) = take_pending w;
              (w, wks) = fire_all ids w
          in Some (ts\<lparr>ts_wheel := w\<rparr>, wks))"

definition next_timeout :: "instant \<Rightarrow> timer_shared \<Rightarrow> duration option" where
  "next_timeout clk ts =
     (case next_event_at (ts_wheel ts) of
        None \<Rightarrow> None
      | Some at \<Rightarrow> if at \<le> now_ms clk ts then Some 0
                   else Some (unat (at - now_ms clk ts) * 1000000))"

datatype time_panic = AdvanceRequiresPausedTime | NoTimerDriver | ZeroPeriod

definition ts_advance :: "instant \<Rightarrow> duration \<Rightarrow> timer_shared \<Rightarrow> (time_panic + timer_shared \<times> waker list) option" where
  "ts_advance clk d ts =
     (if \<not> paused ts then Some (Inl AdvanceRequiresPausedTime)
      else map_option Inr (advance_to_now clk (ts\<lparr>paused_elapsed := paused_elapsed ts + ceil_ms d\<rparr>)))"

definition paused_advance :: "instant \<Rightarrow> timer_shared \<Rightarrow> (time_panic + (timer_shared \<times> waker list) \<times> bool) option" where
  "paused_advance clk ts =
     (if \<not> paused ts then Some (Inr ((ts, []), False))
      else
        case (case next_timeout clk ts of
                Some t \<Rightarrow> Some t
              | None \<Rightarrow> if auto_advance ts then Some 1000000 else None) of
          None \<Rightarrow> Some (Inr ((ts, []), False))
        | Some step \<Rightarrow> map_option (\<lambda>r. and_then r (\<lambda>x. Inr (x, True))) (ts_advance clk step ts))"

section \<open>Futures on the driver\<close>

text \<open>The argument \<open>drv\<close> says whether \<open>Handle::current()\<close> is a runtime with a timer driver.\<close>

record sleep =
  sl_deadline :: instant
  sl_entry :: timer_id
  sl_driver :: bool

definition sleep_until :: "timer_id \<Rightarrow> instant \<Rightarrow> sleep" where
  "sleep_until i d = \<lparr>sl_deadline = d, sl_entry = i, sl_driver = False\<rparr>"

definition sleep_reset :: "instant \<Rightarrow> instant \<Rightarrow> sleep \<Rightarrow> timer_shared \<Rightarrow> sleep \<times> timer_shared \<times> waker list" where
  "sleep_reset clk d sl ts =
     (let sl = sl\<lparr>sl_deadline := d\<rparr>;
          ts = ts\<lparr>ts_wheel := upd_timer (sl_entry sl) timer_entry_reset (ts_wheel ts)\<rparr>
      in if sl_driver sl then
           let wk = te_waker (timers (ts_wheel ts) (sl_entry sl));
               ts = cancel (sl_entry sl) ts
           in case wk of
                None \<Rightarrow> (sl, ts, [])
              | Some w \<Rightarrow>
                  let (ts, due) = arm clk (sl_entry sl) (sl_deadline sl) w ts
                  in (sl, ts, if due then [w] else [])
         else (sl, ts, []))"

definition sleep_poll :: "instant \<Rightarrow> bool \<Rightarrow> waker \<Rightarrow> sleep \<Rightarrow> timer_shared \<Rightarrow> time_panic + sleep \<times> timer_shared \<times> unit poll" where
  "sleep_poll clk drv cx sl ts =
     (if te_fired (timers (ts_wheel ts) (sl_entry sl)) then Inr (sl, ts, Ready ())
      else if \<not> sl_driver sl \<and> \<not> drv then Inl NoTimerDriver
      else
        let sl = sl\<lparr>sl_driver := True\<rparr>;
            (ts, due) = arm clk (sl_entry sl) (sl_deadline sl) cx ts
        in Inr (sl, ts, if due then Ready () else Pending))"

definition sleep_drop :: "sleep \<Rightarrow> timer_shared \<Rightarrow> timer_shared" where
  "sleep_drop sl ts = (if sl_driver sl then cancel (sl_entry sl) ts else ts)"

text \<open>\<open>Timeout::poll\<close>: the inner future is a state and a poll function of its own.\<close>

definition timeout_poll ::
  "('f \<Rightarrow> 'f \<times> 'o poll) \<Rightarrow> instant \<Rightarrow> bool \<Rightarrow> waker \<Rightarrow> 'f \<times> sleep \<Rightarrow> timer_shared
   \<Rightarrow> time_panic + ('f \<times> sleep) \<times> timer_shared \<times> ('o option) poll" where
  "timeout_poll poll_inner clk drv cx fs ts =
     (case poll_inner (fst fs) of
        (f, Ready x) \<Rightarrow> Inr ((f, snd fs), ts, Ready (Some x))
      | (f, Pending) \<Rightarrow>
          and_then (sleep_poll clk drv cx (snd fs) ts)
            (\<lambda>(sl, ts, p). Inr ((f, sl), ts, case p of Ready _ \<Rightarrow> Ready None | Pending \<Rightarrow> Pending)))"

datatype MissedTickBehavior = Burst | Delay | Skip

record interval =
  period :: duration
  iv_next :: instant
  iv_sleep :: sleep
  missed_tick_behavior :: MissedTickBehavior

definition interval_at :: "timer_id \<Rightarrow> instant \<Rightarrow> duration \<Rightarrow> time_panic + interval" where
  "interval_at i start per =
     (if per = 0 then Inl ZeroPeriod
      else Inr \<lparr>period = per, iv_next = start, iv_sleep = sleep_until i start, missed_tick_behavior = Burst\<rparr>)"

partial_function (option) skip_missed :: "duration \<Rightarrow> instant \<Rightarrow> instant \<Rightarrow> instant option" where
  "skip_missed per now next = (if next \<le> now then skip_missed per now (next + per) else Some next)"

definition next_tick :: "MissedTickBehavior \<Rightarrow> duration \<Rightarrow> instant \<Rightarrow> instant \<Rightarrow> instant option" where
  "next_tick b per deadline now =
     (case b of
        Burst \<Rightarrow> Some (deadline + per)
      | Delay \<Rightarrow> Some (now + per)
      | Skip \<Rightarrow> skip_missed per now (deadline + per))"

text \<open>One poll of \<open>Interval::tick\<close>; the wakes are those of \<open>Sleep::reset\<close>.\<close>

definition tick_poll ::
  "instant \<Rightarrow> bool \<Rightarrow> waker \<Rightarrow> interval \<Rightarrow> timer_shared
   \<Rightarrow> (time_panic + interval \<times> timer_shared \<times> waker list \<times> instant poll) option" where
  "tick_poll clk drv cx iv ts =
     (case sleep_poll clk drv cx (iv_sleep iv) ts of
        Inl e \<Rightarrow> Some (Inl e)
      | Inr (sl, ts, Pending) \<Rightarrow> Some (Inr (iv\<lparr>iv_sleep := sl\<rparr>, ts, [], Pending))
      | Inr (sl, ts, Ready _) \<Rightarrow>
          let deadline = iv_next iv in
          map_option (\<lambda>n.
            let (sl, ts, wks) = sleep_reset clk n sl ts
            in Inr (iv\<lparr>iv_next := n, iv_sleep := sl\<rparr>, ts, wks, Ready deadline))
          (next_tick (missed_tick_behavior iv) (period iv) deadline (now_instant clk ts)))"

section \<open>Invariant of the driver\<close>

text \<open>Between operations nothing waits in \<open>pending\<close>, and a linked timer has not fired and holds the
  waker of the task that waits for it.\<close>

definition ts_inv :: "timer_shared \<Rightarrow> bool" where
  "ts_inv ts \<longleftrightarrow> wheel_inv (ts_wheel ts) \<and> pending (ts_wheel ts) = []
     \<and> (\<forall>i\<in>armed (ts_wheel ts). \<not> te_fired (timers (ts_wheel ts) i) \<and> te_waker (timers (ts_wheel ts) i) \<noteq> None)"

lemma ts_inv_new [simp]: "ts_inv (timer_shared_new clk)"
  using wheel_new_inv by (simp add: ts_inv_def timer_shared_new_def wheel_new_def armed_def timer_entry_new_def)

lemma ts_inv_clock [simp]:
  "ts_inv (ts\<lparr>paused := p\<rparr>) = ts_inv ts" "ts_inv (ts\<lparr>paused_elapsed := t\<rparr>) = ts_inv ts"
  "ts_inv (ts\<lparr>ts_notified := n\<rparr>) = ts_inv ts" "ts_inv (ts\<lparr>auto_advance := a\<rparr>) = ts_inv ts"
  by (simp_all add: ts_inv_def)

lemma remove_fst:
  assumes "wheel_inv w"
  shows "wheel_inv (fst (wheel_remove i w))" "elapsed (fst (wheel_remove i w)) = elapsed w"
    "\<not> te_linked (timers (fst (wheel_remove i w)) i)"
    "j \<noteq> i \<Longrightarrow> timers (fst (wheel_remove i w)) j = timers w j"
    "te_waker (timers (fst (wheel_remove i w)) i) = te_waker (timers w i)"
    "te_fired (timers (fst (wheel_remove i w)) i) = te_fired (timers w i)"
    "pending (fst (wheel_remove i w)) = remove1 i (pending w)"
proof -
  obtain w' b where r: "wheel_remove i w = (w', b)" by fastforce
  have sh: "wheel_shape w" using assms by (simp add: wheel_inv_def)
  note e = wheel_remove_effect [OF sh wheel_inv_location [OF assms] r]
  show "wheel_inv (fst (wheel_remove i w))" using wheel_remove_inv [OF assms r] r by simp
  show "elapsed (fst (wheel_remove i w)) = elapsed w"
    "\<not> te_linked (timers (fst (wheel_remove i w)) i)"
    "j \<noteq> i \<Longrightarrow> timers (fst (wheel_remove i w)) j = timers w j"
    "te_waker (timers (fst (wheel_remove i w)) i) = te_waker (timers w i)"
    "te_fired (timers (fst (wheel_remove i w)) i) = te_fired (timers w i)"
    "pending (fst (wheel_remove i w)) = remove1 i (pending w)"
    using e r by simp_all
qed

lemma ts_inv_upd_unlinked:
  assumes "ts_inv ts" "\<not> te_linked (timers (ts_wheel ts) i)" "\<not> te_linked (f (timers (ts_wheel ts) i))"
  shows "ts_inv (ts\<lparr>ts_wheel := upd_timer i f (ts_wheel ts)\<rparr>)"
  using assms wheel_upd_unlinked [of "ts_wheel ts" i f] by (simp add: ts_inv_def armed_def)

lemma ts_inv_remove:
  assumes "ts_inv ts"
  shows "ts_inv (ts\<lparr>ts_wheel := fst (wheel_remove i (ts_wheel ts))\<rparr>)"
proof -
  have inv: "wheel_inv (ts_wheel ts)" using assms by (simp add: ts_inv_def)
  define w' where "w' = fst (wheel_remove i (ts_wheel ts))"
  note r = remove_fst [OF inv, where i = i, folded w'_def]
  have "\<not> te_fired (timers w' j) \<and> te_waker (timers w' j) \<noteq> None" if "te_linked (timers w' j)" for j
    using that r(3) r(4) [of j] assms unfolding ts_inv_def armed_def by (cases "j = i") auto
  then show ?thesis using r(1,7) assms by (auto simp: ts_inv_def armed_def w'_def)
qed

lemma cancel_effect:
  assumes "ts_inv ts"
  shows "ts_inv (cancel i ts)" "armed (ts_wheel (cancel i ts)) = armed (ts_wheel ts) - {i}"
    "j \<noteq> i \<Longrightarrow> timers (ts_wheel (cancel i ts)) j = timers (ts_wheel ts) j"
    "elapsed (ts_wheel (cancel i ts)) = elapsed (ts_wheel ts)"
proof -
  have inv: "wheel_inv (ts_wheel ts)" using assms by (simp add: ts_inv_def)
  note r = remove_fst [OF inv, where i = i]
  show "ts_inv (cancel i ts)"
    using ts_inv_upd_unlinked [OF ts_inv_remove [OF assms, of i], of i "\<lambda>e. e\<lparr>te_waker := None\<rparr>"] r(3)
    by (simp add: cancel_def)
  show "armed (ts_wheel (cancel i ts)) = armed (ts_wheel ts) - {i}"
    using r(3,4) by (auto simp: cancel_def armed_def)
  show "j \<noteq> i \<Longrightarrow> timers (ts_wheel (cancel i ts)) j = timers (ts_wheel ts) j"
    "elapsed (ts_wheel (cancel i ts)) = elapsed (ts_wheel ts)"
    using r(2,4) by (simp_all add: cancel_def)
qed

lemma arm_effect:
  assumes inv: "ts_inv ts" and a: "arm clk i d wk ts = (ts', due)"
  shows "ts_inv ts'" "due \<longleftrightarrow> d \<le> now_instant clk ts \<or> instant_to_ms ts d \<le> elapsed (ts_wheel ts)"
    "i \<in> armed (ts_wheel ts') \<longleftrightarrow> \<not> due" "te_fired (timers (ts_wheel ts') i) = due"
    "te_deadline (timers (ts_wheel ts') i) = instant_to_ms ts d"
    "te_waker (timers (ts_wheel ts') i) = (if due then None else Some wk)"
    "j \<noteq> i \<Longrightarrow> timers (ts_wheel ts') j = timers (ts_wheel ts) j"
    "elapsed (ts_wheel ts') = elapsed (ts_wheel ts)"
    "ts_notified ts' = ts_notified ts + of_bool (\<not> due)"
proof -
  define dl where "dl = instant_to_ms ts d"
  define w1 where "w1 = upd_timer i (\<lambda>e. e\<lparr>te_deadline := dl, te_fired := False, te_waker := Some wk\<rparr>)
    (fst (wheel_remove i (ts_wheel ts)))"
  have wi: "wheel_inv (ts_wheel ts)" using inv by (simp add: ts_inv_def)
  note r = remove_fst [OF wi, where i = i]
  have i1: "ts_inv (ts\<lparr>ts_wheel := w1\<rparr>)" unfolding w1_def
    using ts_inv_upd_unlinked [OF ts_inv_remove [OF inv, of i],
        of i "\<lambda>e. e\<lparr>te_deadline := dl, te_fired := False, te_waker := Some wk\<rparr>"] r(3) by simp
  have f: "\<not> te_linked (timers w1 i)" "te_deadline (timers w1 i) = dl" "te_waker (timers w1 i) = Some wk"
    "\<not> te_fired (timers w1 i)" "\<And>j. j \<noteq> i \<Longrightarrow> timers w1 j = timers (ts_wheel ts) j" "elapsed w1 = elapsed (ts_wheel ts)"
    using r by (simp_all add: w1_def)
  have res: "due \<longleftrightarrow> d \<le> now_instant clk ts \<or> dl \<le> elapsed (ts_wheel ts)"
    "ts' = (if due then ts\<lparr>ts_wheel := upd_timer i (\<lambda>e. e\<lparr>te_fired := True, te_waker := None\<rparr>) w1\<rparr>
       else ts\<lparr>ts_wheel := wheel_insert i w1, ts_notified := ts_notified ts + 1\<rparr>)"
    using a r(2) by (auto simp: arm_def Let_def w1_def dl_def split: if_splits)
  then show "due \<longleftrightarrow> d \<le> now_instant clk ts \<or> instant_to_ms ts d \<le> elapsed (ts_wheel ts)" by (simp add: dl_def)
  show "ts_inv ts'"
  proof (cases due)
    case True
    then show ?thesis using res ts_inv_upd_unlinked [OF i1, of i "\<lambda>e. e\<lparr>te_fired := True, te_waker := None\<rparr>"] f(1) by simp
  next
    case False
    have "wheel_inv (wheel_insert i w1)" using i1 f(1) by (simp add: ts_inv_def wheel_insert_inv)
    moreover have "pending (wheel_insert i w1) = pending w1"
      using False res(1) f(2,6) by (simp add: wheel_insert_def Let_def)
    ultimately show ?thesis using False res(2) i1 f(3,4) by (auto simp: ts_inv_def armed_def)
  qed
  show "i \<in> armed (ts_wheel ts') \<longleftrightarrow> \<not> due" "te_fired (timers (ts_wheel ts') i) = due"
    "te_deadline (timers (ts_wheel ts') i) = instant_to_ms ts d"
    "te_waker (timers (ts_wheel ts') i) = (if due then None else Some wk)"
    "j \<noteq> i \<Longrightarrow> timers (ts_wheel ts') j = timers (ts_wheel ts) j"
    "elapsed (ts_wheel ts') = elapsed (ts_wheel ts)"
    "ts_notified ts' = ts_notified ts + of_bool (\<not> due)"
    using res(2) f by (simp_all add: armed_def dl_def)
qed

lemma fire_all_effect:
  assumes "fire_all ids w = (w', wks)" "distinct ids"
  shows "elapsed w' = elapsed w \<and> levels w' = levels w \<and> pending w' = pending w
    \<and> timers w' = (\<lambda>j. if j \<in> set ids then (timers w j)\<lparr>te_fired := True, te_waker := None\<rparr> else timers w j)
    \<and> wks = concat (map (\<lambda>i. wakes_of (te_waker (timers w i))) ids)"
  using assms
proof (induction ids arbitrary: w w' wks)
  case (Cons i ids)
  obtain w1 wk1 where f: "fire_all ids (upd_timer i (\<lambda>e. e\<lparr>te_fired := True, te_waker := None\<rparr>) w) = (w1, wk1)"
    by fastforce
  show ?case using Cons.IH [OF f] Cons.prems f
    by (auto simp: Let_def fun_eq_iff intro!: arg_cong [where f = concat] map_cong)
qed simp

lemma fire_all_inv:
  assumes "fire_all ids w = (w', wks)" "distinct ids" "wheel_inv w" "\<forall>i\<in>set ids. \<not> te_linked (timers w i)"
  shows "wheel_inv w'"
proof -
  note e = fire_all_effect [OF assms(1,2)]
  have "slot_list w' = slot_list w" "occ w' = occ w" using e by (simp_all add: slot_list_def occ_def fun_eq_iff)
  then show ?thesis using e assms(3,4) unfolding wheel_inv_def wheel_shape_def
    by (auto simp: entry_good_def)
qed

lemma ts_inv_waker: "ts_inv ts \<Longrightarrow> i \<in> armed (ts_wheel ts) \<Longrightarrow> te_waker (timers (ts_wheel ts) i) \<noteq> None"
  by (simp add: ts_inv_def)

text \<open>
  What one \<open>advance_to_now\<close> does: the fired timers are some of the due ones, at least one when
  any is due; they are unlinked and flagged, and exactly their wakers are woken.
\<close>

definition fires :: "timer_shared \<Rightarrow> timer_id list \<Rightarrow> timer_shared \<Rightarrow> bool" where
  "fires ts ids ts' \<longleftrightarrow> distinct ids \<and> set ids \<subseteq> armed (ts_wheel ts)
     \<and> armed (ts_wheel ts') = armed (ts_wheel ts) - set ids
     \<and> (\<forall>i. te_deadline (timers (ts_wheel ts') i) = te_deadline (timers (ts_wheel ts) i)
         \<and> te_fired (timers (ts_wheel ts') i) = (te_fired (timers (ts_wheel ts) i) \<or> i \<in> set ids)
         \<and> (i \<notin> set ids \<longrightarrow> te_waker (timers (ts_wheel ts') i) = te_waker (timers (ts_wheel ts) i)))"

lemma advance_to_now_effect:
  fixes clk
  assumes inv: "ts_inv ts"
  defines "now \<equiv> now_ms clk ts"
  shows "\<exists>ts' wks ids. advance_to_now clk ts = Some (ts', wks) \<and> ts_inv ts' \<and> fires ts ids ts'
    \<and> wks = concat (map (\<lambda>i. wakes_of (te_waker (timers (ts_wheel ts) i))) ids)
    \<and> (\<forall>i\<in>set ids. te_deadline (timers (ts_wheel ts) i) \<le> max now (elapsed (ts_wheel ts)))
    \<and> (ids = [] \<longrightarrow> (\<forall>i\<in>armed (ts_wheel ts). now < te_deadline (timers (ts_wheel ts) i)))
    \<and> elapsed (ts_wheel ts') \<le> max now (elapsed (ts_wheel ts))
    \<and> (\<forall>i\<in>set ids. \<forall>j\<in>armed (ts_wheel ts). te_deadline (timers (ts_wheel ts) i) \<le> te_deadline (timers (ts_wheel ts) j))
    \<and> (\<exists>w'. ts' = ts\<lparr>ts_wheel := w'\<rparr>)"
proof -
  let ?w = "ts_wheel ts"
  have wi: "wheel_inv ?w" using inv by (simp add: ts_inv_def)
  obtain w1 where w1: "advance_to now ?w = Some w1" "wheel_inv w1" "same_timers ?w w1" "elapsed w1 \<le> max now (elapsed ?w)"
    "\<forall>i\<in>set (pending w1). te_deadline (timers ?w i) \<le> max now (elapsed ?w)"
    "pending w1 = [] \<longrightarrow> (\<forall>i\<in>armed ?w. now < te_deadline (timers ?w i))"
    "\<forall>i\<in>armed ?w. elapsed w1 \<le> te_deadline (timers ?w i)"
    using advance_to_result [OF wi, of now] inv by (auto simp: ts_inv_def)
  obtain ids w2 where tp: "take_pending w1 = (ids, w2)" by fastforce
  obtain w3 wks where fa: "fire_all ids w2 = (w3, wks)" by fastforce
  note t = take_pending_fields [OF tp]
  have sh1: "wheel_shape w1" using w1(2) by (simp add: wheel_inv_def)
  have dist: "distinct ids" using t(1) wheel_shapeD(6) [OF sh1] by simp
  have "wheel_inv w2" using take_pending_shape [OF sh1 tp] t w1(2) by (auto simp: wheel_inv_def entry_good_def)
  moreover have un: "\<forall>i\<in>set ids. \<not> te_linked (timers w2 i)" using t by simp
  ultimately have i3: "wheel_inv w3" by (intro fire_all_inv [OF fa dist])
  note e = fire_all_effect [OF fa dist]
  have "set (pending w1) \<subseteq> armed w1" using pending_mem_due(1) [OF w1(2)] by blast
  then have sub: "set ids \<subseteq> armed ?w" using w1(3) t(1) by (auto simp: armed_def same_timers_def)
  have fl: "te_linked (timers w3 i) \<longleftrightarrow> te_linked (timers ?w i) \<and> i \<notin> set ids"
    "te_deadline (timers w3 i) = te_deadline (timers ?w i)"
    "te_fired (timers w3 i) = (te_fired (timers ?w i) \<or> i \<in> set ids)"
    "i \<notin> set ids \<Longrightarrow> te_waker (timers w3 i) = te_waker (timers ?w i)"
    "te_waker (timers w2 i) = te_waker (timers ?w i)" for i
    using e t(4) w1(3) by (auto simp: same_timers_def)
  have "fires ts ids (ts\<lparr>ts_wheel := w3\<rparr>)"
    using sub dist fl by (auto simp: fires_def armed_def)
  moreover have "ts_inv (ts\<lparr>ts_wheel := w3\<rparr>)"
  proof -
    have "pending w3 = []" using e t(3) by simp
    then show ?thesis using i3 fl inv unfolding ts_inv_def armed_def by simp
  qed
  moreover have "te_deadline (timers ?w i) \<le> te_deadline (timers ?w j)" if "i \<in> set ids" "j \<in> armed ?w" for i j
    using pending_mem_due(2) [OF w1(2), of i] that t(1) w1(3,7) by (auto simp: same_timers_def intro: order_trans)
  moreover have "wks = concat (map (\<lambda>i. wakes_of (te_waker (timers ?w i))) ids)" using e fl(5) by simp
  moreover have "advance_to_now clk ts = Some (ts\<lparr>ts_wheel := w3\<rparr>, wks)"
    using w1(1) tp fa by (simp add: advance_to_now_def now_def)
  ultimately show ?thesis using w1(4,5,6) t(1,2) e
    by (intro exI [of _ "ts\<lparr>ts_wheel := w3\<rparr>"] exI [of _ wks] exI [of _ ids]) auto
qed

lemma now_instant_ms:
  assumes "d \<le> origin ts + U64_MAX * 1000000" "instant_to_ms ts d \<le> m"
  shows "d \<le> origin ts + unat m * 1000000"
proof (cases "d < origin ts")
  case False
  define x where "x = d - origin ts"
  define c where "c = x div 1000000 + of_bool (x mod 1000000000 mod 1000000 \<noteq> 0)"
  have mm: "x mod 1000000000 mod 1000000 = x mod 1000000" by (simp add: mod_mod_cancel)
  have "x \<le> U64_MAX * 1000000" using assms(1) False by (simp add: x_def)
  then have c: "c \<le> U64_MAX" "x \<le> c * 1000000"
    using div_mult_mod_eq [of x 1000000] mod_less_divisor [of 1000000 x]
    unfolding c_def mm by (cases "x mod 1000000 = 0"; simp; linarith)+
  have "ceil_ms x = of_nat c"
    unfolding ceil_ms_def as_millis_def subsec_nanos_def c_def [symmetric] using c(1) by (simp add: min_def)
  then have "unat (ceil_ms x) = c" using c(1) by (simp add: U64_MAX_def unat_of_nat_lt)
  then have "c \<le> unat m" using assms(2) False by (simp add: instant_to_ms_def x_def word_le_nat_alt)
  then have "x \<le> unat m * 1000000" using c(2) by (meson mult_le_mono1 order_trans)
  then show ?thesis using False by (simp add: x_def)
qed simp

lemma skip_missed_result:
  assumes "0 < per"
  shows "\<exists>k. skip_missed per now next = Some (next + k * per) \<and> now < next + k * per
    \<and> (k = 0 \<or> next + (k - 1) * per \<le> now)"
proof (induction "now - next" arbitrary: "next" rule: less_induct)
  case less
  show ?case
  proof (cases "next \<le> now")
    case False
    then show ?thesis by (subst skip_missed.simps) (intro exI [of _ 0], simp)
  next
    case True
    show ?thesis
    proof (cases "next + per \<le> now")
      case True
      then have "now - (next + per) < now - next" using assms by simp
      from less [OF this] obtain k where k: "skip_missed per now (next + per) = Some (next + per + k * per)"
        "now < next + per + k * per" "k = 0 \<or> next + per + (k - 1) * per \<le> now" by blast
      with True \<open>next \<le> now\<close> show ?thesis
        by (subst skip_missed.simps) (intro exI [of _ "Suc k"], cases k, auto simp: algebra_simps)
    next
      case False
      then show ?thesis using True
        by (subst skip_missed.simps, subst skip_missed.simps) (intro exI [of _ 1], simp)
    qed
  qed
qed

text \<open>Repeated calls, as the parked worker makes them, at one reading of the clock.\<close>

primrec advance_times :: "nat \<Rightarrow> instant \<Rightarrow> timer_shared \<Rightarrow> timer_shared option" where
  "advance_times 0 clk ts = Some ts"
| "advance_times (Suc n) clk ts =
     (case advance_to_now clk ts of None \<Rightarrow> None | Some (ts', wks) \<Rightarrow> advance_times n clk ts')"

definition due_timers :: "instant \<Rightarrow> timer_shared \<Rightarrow> timer_id set" where
  "due_timers clk ts = {i \<in> armed (ts_wheel ts). te_deadline (timers (ts_wheel ts) i) \<le> now_ms clk ts}"

lemma armed_finite:
  assumes "wheel_inv w"
  shows "finite (armed w)"
proof -
  have sh: "wheel_shape w" using assms by (simp add: wheel_inv_def)
  have "armed w \<subseteq> set (pending w) \<union> (\<Union>l<6. \<Union>s<64. set (slot_list w l s))"
  proof
    fix i assume "i \<in> armed w"
    then have "te_linked (timers w i)" by (simp add: armed_def)
    then show "i \<in> set (pending w) \<union> (\<Union>l<6. \<Union>s<64. set (slot_list w l s))"
      using wheel_inv_location [OF assms, of i] wheel_shapeD(5,7) [OF sh] by auto
  qed
  then show ?thesis by (rule finite_subset) simp
qed

lemma advance_times_result:
  assumes "ts_inv ts" "card (due_timers clk ts) \<le> n"
  shows "\<exists>ts'. advance_times n clk ts = Some ts' \<and> ts_inv ts' \<and> due_timers clk ts' = {}
    \<and> (\<forall>i\<in>due_timers clk ts. te_fired (timers (ts_wheel ts') i))
    \<and> (\<forall>i. te_fired (timers (ts_wheel ts) i) \<longrightarrow> te_fired (timers (ts_wheel ts') i))"
  using assms
proof (induction n arbitrary: ts)
  case 0
  have "finite (due_timers clk ts)"
    using armed_finite 0(1) by (auto simp: ts_inv_def due_timers_def)
  then show ?case using 0 by simp
next
  case (Suc n)
  obtain ts1 wks ids where a: "advance_to_now clk ts = Some (ts1, wks)" "ts_inv ts1" "fires ts ids ts1"
    "ids = [] \<longrightarrow> (\<forall>i\<in>armed (ts_wheel ts). now_ms clk ts < te_deadline (timers (ts_wheel ts) i))"
    "\<exists>w'. ts1 = ts\<lparr>ts_wheel := w'\<rparr>"
    "\<forall>i\<in>set ids. \<forall>j\<in>armed (ts_wheel ts). te_deadline (timers (ts_wheel ts) i) \<le> te_deadline (timers (ts_wheel ts) j)"
    using advance_to_now_effect [OF Suc.prems(1), of clk] by blast
  have now: "now_ms clk ts1 = now_ms clk ts" using a(5) by (auto simp: now_ms_def real_elapsed_ms_def)
  have d1: "due_timers clk ts1 = due_timers clk ts - set ids"
    using a(3) now by (auto simp: due_timers_def fires_def)
  have fin: "finite (due_timers clk ts)"
    using armed_finite Suc.prems(1) by (auto simp: ts_inv_def due_timers_def)
  have "card (due_timers clk ts1) \<le> n"
  proof (cases "due_timers clk ts = {}")
    case False
    then obtain j where j: "j \<in> armed (ts_wheel ts)" "te_deadline (timers (ts_wheel ts) j) \<le> now_ms clk ts"
      by (auto simp: due_timers_def)
    then obtain i where i: "i \<in> set ids" using a(4) by (cases ids) auto
    then have "i \<in> due_timers clk ts" using a(3,6) j
      by (auto simp: due_timers_def fires_def intro: order_trans)
    then have "card (due_timers clk ts - set ids) < card (due_timers clk ts)"
      using i fin by (intro psubset_card_mono) auto
    then show ?thesis using Suc.prems(2) d1 by simp
  qed (simp add: d1)
  from Suc.IH [OF a(2) this] obtain ts' where t: "advance_times n clk ts1 = Some ts'" "ts_inv ts'"
    "due_timers clk ts' = {}" "\<forall>i\<in>due_timers clk ts1. te_fired (timers (ts_wheel ts') i)"
    "\<forall>i. te_fired (timers (ts_wheel ts1) i) \<longrightarrow> te_fired (timers (ts_wheel ts') i)" by blast
  moreover have "te_fired (timers (ts_wheel ts1) i)" if "i \<in> set ids \<or> te_fired (timers (ts_wheel ts) i)" for i
    using a(3) that by (auto simp: fires_def)
  ultimately show ?case using a(1) d1 by (auto simp: Diff_iff)
qed

section \<open>Properties of the driver\<close>

text \<open>Two sleeps, of 3 and 5 milliseconds, armed on a fresh driver.\<close>

definition two_sleeps :: timer_shared where
  "two_sleeps = fst (arm 0 8 5000000 20 (fst (arm 0 7 3000000 10 (timer_shared_new 0))))"

lemma two_sleeps_inv: "ts_inv two_sleeps"
  unfolding two_sleeps_def by (metis arm_effect(1) prod.collapse ts_inv_new)

lemma two_sleeps_simps:
  "armed (ts_wheel two_sleeps) = {7, 8}" "elapsed (ts_wheel two_sleeps) = 0"
  "te_deadline (timers (ts_wheel two_sleeps) 7) = 3" "te_deadline (timers (ts_wheel two_sleeps) 8) = 5"
  "te_waker (timers (ts_wheel two_sleeps) 7) = Some 10" "te_waker (timers (ts_wheel two_sleeps) 8) = Some 20"
  "\<not> paused two_sleeps" "origin two_sleeps = 0" "now_ms 10000000 two_sleeps = 10"
  by (auto simp: two_sleeps_def arm_def Let_def timer_shared_new_def wheel_new_def timer_entry_new_def
      armed_def wheel_remove_def now_instant_def now_ms_def real_elapsed_ms_def instant_to_ms_def ceil_ms_def
      as_millis_def subsec_nanos_def U64_MAX_def split: if_splits)

text \<open>\<open>TimerShared::arm\<close> never reports a timer early or late. As long as the wheel's clock has not
  passed the runtime's clock, it answers \<open>true\<close> exactly when the deadline has been reached on the
  millisecond clock; otherwise the timer is linked with the caller's waker and its deadline rounded
  up, and the runtime is notified once. Every other timer is left as it was.\<close>

theorem arm_never_early:
  assumes "ts_inv ts" "elapsed (ts_wheel ts) \<le> now_ms clk ts" "d \<le> origin ts + U64_MAX * 1000000"
    and "arm clk i d wk ts = (ts', due)"
  shows "ts_inv ts' \<and> (due \<longleftrightarrow> d \<le> now_instant clk ts)
    \<and> (i \<in> armed (ts_wheel ts') \<longleftrightarrow> \<not> due) \<and> te_fired (timers (ts_wheel ts') i) = due
    \<and> te_deadline (timers (ts_wheel ts') i) = instant_to_ms ts d
    \<and> te_waker (timers (ts_wheel ts') i) = (if due then None else Some wk)
    \<and> ts_notified ts' = ts_notified ts + of_bool (\<not> due)
    \<and> (\<forall>j. j \<noteq> i \<longrightarrow> timers (ts_wheel ts') j = timers (ts_wheel ts) j)"
proof -
  note a = arm_effect [OF assms(1,4)]
  have "instant_to_ms ts d \<le> elapsed (ts_wheel ts) \<longrightarrow> d \<le> now_instant clk ts"
    using now_instant_ms [OF assms(3), of "now_ms clk ts"] assms(2)
    by (auto simp: now_instant_def intro: order_trans)
  then have "due \<longleftrightarrow> d \<le> now_instant clk ts" using a(2) by blast
  then show ?thesis using a by blast
qed

theorem arm_never_early_witness:
  "\<exists>ts'. arm 0 3 4000000 30 two_sleeps = (ts', False) \<and> 3 \<in> armed (ts_wheel ts')
     \<and> timers (ts_wheel ts') 7 = timers (ts_wheel two_sleeps) 7"
proof -
  obtain ts' due where a: "arm 0 3 4000000 30 two_sleeps = (ts', due)" by fastforce
  have "now_instant 0 two_sleeps = 0" by (simp add: now_instant_def now_ms_def real_elapsed_ms_def as_millis_def two_sleeps_simps)
  then show ?thesis using arm_never_early [OF two_sleeps_inv _ _ a] a by (auto simp: two_sleeps_simps U64_MAX_def)
qed

text \<open>One \<open>advance_to_now\<close> returns, fires only timers whose deadline has passed, at least one when any
  is due, and wakes exactly the wakers of the timers it fires, each once. The fired timers are
  all at the one earliest armed deadline: timers due later wait for the next call.\<close>

theorem advance_fires_the_earliest:
  assumes "ts_inv ts" "elapsed (ts_wheel ts) \<le> now_ms clk ts"
  shows "\<exists>ts' wks ids. advance_to_now clk ts = Some (ts', wks) \<and> ts_inv ts' \<and> fires ts ids ts'
    \<and> elapsed (ts_wheel ts') \<le> now_ms clk ts' \<and> wks = map (\<lambda>i. the (te_waker (timers (ts_wheel ts) i))) ids
    \<and> set ids \<subseteq> due_timers clk ts \<and> (ids = [] \<longleftrightarrow> due_timers clk ts = {})
    \<and> (\<forall>i\<in>set ids. \<forall>j\<in>armed (ts_wheel ts). te_deadline (timers (ts_wheel ts) i) \<le> te_deadline (timers (ts_wheel ts) j))"
proof -
  have mx: "max (now_ms clk ts) (elapsed (ts_wheel ts)) = now_ms clk ts" using assms(2) by simp
  obtain ts' wks ids where a: "advance_to_now clk ts = Some (ts', wks)" "ts_inv ts'" "fires ts ids ts'"
    "wks = concat (map (\<lambda>i. wakes_of (te_waker (timers (ts_wheel ts) i))) ids)"
    "\<forall>i\<in>set ids. te_deadline (timers (ts_wheel ts) i) \<le> now_ms clk ts"
    "ids = [] \<longrightarrow> (\<forall>i\<in>armed (ts_wheel ts). now_ms clk ts < te_deadline (timers (ts_wheel ts) i))"
    "elapsed (ts_wheel ts') \<le> now_ms clk ts"
    "\<forall>i\<in>set ids. \<forall>j\<in>armed (ts_wheel ts). te_deadline (timers (ts_wheel ts) i) \<le> te_deadline (timers (ts_wheel ts) j)"
    "\<exists>w'. ts' = ts\<lparr>ts_wheel := w'\<rparr>"
    using advance_to_now_effect [OF assms(1), of clk, unfolded mx] by blast
  have sub: "set ids \<subseteq> due_timers clk ts" using a(3,5) by (auto simp: fires_def due_timers_def)
  have "wakes_of (te_waker (timers (ts_wheel ts) i)) = [the (te_waker (timers (ts_wheel ts) i))]" if "i \<in> set ids" for i
  proof -
    have "i \<in> armed (ts_wheel ts)" using that a(3) by (auto simp: fires_def)
    from ts_inv_waker [OF assms(1) this] show ?thesis by auto
  qed
  then have "map (\<lambda>i. wakes_of (te_waker (timers (ts_wheel ts) i))) ids = map (\<lambda>i. [the (te_waker (timers (ts_wheel ts) i))]) ids"
    by (rule map_cong [OF refl])
  then have "wks = map (\<lambda>i. the (te_waker (timers (ts_wheel ts) i))) ids" using a(4) by (simp only: concat_map_singleton)
  moreover have "now_ms clk ts' = now_ms clk ts" using a(9) by (auto simp: now_ms_def real_elapsed_ms_def)
  moreover have "ids = [] \<longleftrightarrow> due_timers clk ts = {}"
  proof
    show "due_timers clk ts = {}" if "ids = []" using a(6) that by (auto simp: due_timers_def)
    show "ids = []" if "due_timers clk ts = {}" using sub that by (cases ids) auto
  qed
  ultimately show ?thesis using a(1,2,3,7,8) sub by auto
qed

theorem advance_fires_the_earliest_witness:
  "\<exists>ts'. advance_to_now 10000000 two_sleeps = Some (ts', [10]) \<and> armed (ts_wheel ts') = {8}
     \<and> 8 \<in> due_timers 10000000 two_sleeps"
proof -
  obtain ts' wks ids where a: "advance_to_now 10000000 two_sleeps = Some (ts', wks)" "fires two_sleeps ids ts'"
    "wks = map (\<lambda>i. the (te_waker (timers (ts_wheel two_sleeps) i))) ids"
    "ids = [] \<longleftrightarrow> due_timers 10000000 two_sleeps = {}"
    "\<forall>i\<in>set ids. \<forall>j\<in>armed (ts_wheel two_sleeps). te_deadline (timers (ts_wheel two_sleeps) i) \<le> te_deadline (timers (ts_wheel two_sleeps) j)"
    using advance_fires_the_earliest [OF two_sleeps_inv, of 10000000] by (auto simp: two_sleeps_simps)
  have due: "due_timers 10000000 two_sleeps = {7, 8}" by (auto simp: due_timers_def two_sleeps_simps)
  have "set ids \<subseteq> {7}" using a(2,5) by (fastforce simp: fires_def two_sleeps_simps)
  moreover have "ids \<noteq> []" using a(4) due by simp
  moreover have "distinct ids" using a(2) by (simp add: fires_def)
  ultimately have ids: "ids = [7]"
    by (cases ids; cases "tl ids") auto
  then show ?thesis using a due by (auto simp: two_sleeps_simps fires_def)
qed

text \<open>No armed timer is forgotten: as many calls of \<open>advance_to_now\<close> as there are due timers all
  return, leave no due timer armed, and every timer that was due has fired.\<close>

theorem due_timers_all_fire:
  assumes "ts_inv ts" "card (due_timers clk ts) \<le> n"
  shows "\<exists>ts'. advance_times n clk ts = Some ts' \<and> due_timers clk ts' = {}
    \<and> (\<forall>i\<in>due_timers clk ts. te_fired (timers (ts_wheel ts') i))"
  using advance_times_result [OF assms] by blast

theorem due_timers_all_fire_witness:
  "\<exists>ts'. advance_times 2 10000000 two_sleeps = Some ts' \<and> te_fired (timers (ts_wheel ts') 8)"
proof -
  have "due_timers 10000000 two_sleeps = {7, 8}" by (auto simp: due_timers_def two_sleeps_simps)
  then show ?thesis using due_timers_all_fire [OF two_sleeps_inv, of 10000000 2] by auto
qed

text \<open>The deadline \<open>Interval::tick\<close> schedules next. \<open>Burst\<close> keeps the grid of the period, \<open>Delay\<close>
  counts from the current time, and \<open>Skip\<close> returns (its loop ends because the period is not
  zero) the first point of the grid that is strictly in the future.\<close>

theorem next_tick_schedule:
  assumes "0 < per"
  shows "next_tick Burst per deadline now = Some (deadline + per)
    \<and> next_tick Delay per deadline now = Some (now + per)
    \<and> (\<exists>k\<ge>1. next_tick Skip per deadline now = Some (deadline + k * per) \<and> now < deadline + k * per
      \<and> (\<forall>j. 1 \<le> j \<and> j < k \<longrightarrow> deadline + j * per \<le> now))"
proof -
  obtain k where k: "skip_missed per now (deadline + per) = Some (deadline + per + k * per)"
    "now < deadline + per + k * per" "k = 0 \<or> deadline + per + (k - 1) * per \<le> now"
    using skip_missed_result [OF assms, of now "deadline + per"] by blast
  have "deadline + j * per \<le> now" if "1 \<le> j" "j < Suc k" for j
  proof -
    have "j * per \<le> k * per" using that by simp
    moreover have "deadline + k * per \<le> now" using k(3) that by (cases k) (auto simp: algebra_simps)
    ultimately show ?thesis by linarith
  qed
  then have "\<exists>k\<ge>1. next_tick Skip per deadline now = Some (deadline + k * per) \<and> now < deadline + k * per
      \<and> (\<forall>j. 1 \<le> j \<and> j < k \<longrightarrow> deadline + j * per \<le> now)"
    using k by (intro exI [of _ "Suc k"]) (auto simp: next_tick_def algebra_simps)
  then show ?thesis by (simp add: next_tick_def)
qed

theorem next_tick_schedule_witness:
  "next_tick Burst 10 100 135 = Some 110 \<and> (\<exists>k\<ge>1. next_tick Skip 10 100 135 = Some (100 + k * 10) \<and> 135 < 100 + k * 10)"
  using next_tick_schedule [of 10 100 135] by fastforce

text \<open>Resuming after a paused advance turns the clock back below the wheel's clock, and then
  \<open>arm\<close> reports timers as elapsed before their deadline: on a fresh driver, \<open>pause\<close>, \<open>advance\<close> by one
  hour and \<open>resume\<close> make a sleep of ten seconds complete at once.\<close>

theorem resume_fires_early:
  "\<exists>ts wks. ts_advance 0 (3600 * 10 ^ 9) (ts_pause 0 (timer_shared_new 0)) = Some (Inr (ts, wks))
     \<and> now_instant 0 (ts_resume ts) = 0
     \<and> snd (arm 0 1 (10 * 10 ^ 9) 7 (ts_resume ts))"
proof -
  define ts0 where "ts0 = (ts_pause 0 (timer_shared_new 0))\<lparr>paused_elapsed := 3600000\<rparr>"
  have inv: "ts_inv ts0" using ts_inv_new [of 0] by (simp add: ts0_def ts_pause_def)
  have w: "ts_wheel ts0 = wheel_new" and now: "now_ms 0 ts0 = 3600000"
    by (simp_all add: ts0_def ts_pause_def timer_shared_new_def now_ms_def)
  have "next_event_at wheel_new = None"
    unfolding next_event_None [OF wheel_new_inv] by (simp add: armed_def wheel_new_def timer_entry_new_def)
  then have adv: "advance_to 3600000 wheel_new = Some (wheel_new\<lparr>elapsed := 3600000\<rparr>)"
    by (simp add: advance_to_def advance_loop.simps [of _ wheel_new]) (simp add: wheel_new_def)
  define ts1 where "ts1 = ts0\<lparr>ts_wheel := wheel_new\<lparr>elapsed := 3600000\<rparr>\<rparr>"
  have "advance_to_now 0 ts0 = Some (ts1, [])"
    by (simp add: advance_to_now_def w now adv take_pending_def unlink_all_def ts1_def)
      (simp add: wheel_new_def)
  moreover have "ts_advance 0 (3600 * 10 ^ 9) (ts_pause 0 (timer_shared_new 0)) = map_option Inr (advance_to_now 0 ts0)"
    by (simp add: ts_advance_def ts0_def ts_pause_def timer_shared_new_def ceil_ms_def as_millis_def subsec_nanos_def
        U64_MAX_def real_elapsed_ms_def)
  moreover have "now_instant 0 (ts_resume ts1) = 0" "snd (arm 0 1 (10 * 10 ^ 9) 7 (ts_resume ts1))"
    by (simp_all add: ts1_def ts0_def ts_resume_def ts_pause_def timer_shared_new_def now_instant_def now_ms_def
        real_elapsed_ms_def as_millis_def arm_def Let_def wheel_remove_def wheel_new_def timer_entry_new_def
        instant_to_ms_def ceil_ms_def subsec_nanos_def U64_MAX_def)
  ultimately show ?thesis by (intro exI [of _ ts1] exI [of _ "[]"]) simp
qed

end
