(* ===== verification/Queue_Spec.thy ===== *)
theory Queue_Spec
  imports Prelude
begin

text \<open>
  What the clients of a task queue rely on. \<open>task_pool\<close> is the contract of the scheduler: a task
  handed in comes out exactly once. \<open>fifo_queue\<close> adds the order of arrival. The run queues of the
  workers, the injector and the intrusive list interpret these locales in their own theories.
\<close>

section \<open>Pools\<close>

locale task_pool =
  fixes inv :: "'s \<Rightarrow> bool"
    and contents :: "'s \<Rightarrow> 'a list"
    and accepts :: "'a \<Rightarrow> 's \<Rightarrow> bool"
    and put :: "'a \<Rightarrow> 's \<Rightarrow> 's"
    and take_one :: "'s \<Rightarrow> 'a option \<times> 's"
  assumes put_inv: "inv s \<Longrightarrow> accepts x s \<Longrightarrow> inv (put x s)"
    and put_contents: "inv s \<Longrightarrow> accepts x s \<Longrightarrow> mset (contents (put x s)) = add_mset x (mset (contents s))"
    and take_inv: "inv s \<Longrightarrow> inv (snd (take_one s))"
    and take_None: "inv s \<Longrightarrow> fst (take_one s) = None \<Longrightarrow> contents s = [] \<and> contents (snd (take_one s)) = []"
    and take_Some: "inv s \<Longrightarrow> fst (take_one s) = Some x \<Longrightarrow> mset (contents s) = add_mset x (mset (contents (snd (take_one s))))"
begin

primrec drain :: "nat \<Rightarrow> 's \<Rightarrow> 'a list \<times> 's" where
  "drain 0 s = ([], s)"
| "drain (Suc n) s =
     (case take_one s of (None, s') \<Rightarrow> ([], s')
      | (Some x, s') \<Rightarrow> let (xs, s'') = drain n s' in (x # xs, s''))"

text \<open>Taking keeps the account of the pool: what came out and what is left is what was there.\<close>

lemma drain_conserves:
  "inv s \<Longrightarrow> drain n s = (xs, s') \<Longrightarrow> inv s' \<and> mset (contents s) = mset xs + mset (contents s')"
proof (induction n arbitrary: s xs s')
  case (Suc n)
  obtain r s1 where t: "take_one s = (r, s1)" by fastforce
  show ?case
  proof (cases r)
    case None
    then show ?thesis using Suc.prems t take_inv [OF Suc.prems(1)] take_None [OF Suc.prems(1)] by simp
  next
    case (Some x)
    obtain ys s2 where d: "drain n s1 = (ys, s2)" by fastforce
    have "inv s1" using take_inv [OF Suc.prems(1)] t by simp
    from Suc.IH [OF this d] show ?thesis
      using Suc.prems t Some d take_Some [OF Suc.prems(1), of x] by auto
  qed
qed simp

lemma drain_all:
  assumes "inv s" "length (contents s) \<le> n" "drain n s = (xs, s')"
  shows "contents s' = [] \<and> mset xs = mset (contents s)"
proof -
  have "contents s' = []"
    using assms
  proof (induction n arbitrary: s xs s')
    case (Suc n)
    obtain r s1 where t: "take_one s = (r, s1)" by fastforce
    show ?case
    proof (cases r)
      case None
      then show ?thesis using Suc.prems t take_None [OF Suc.prems(1)] by simp
    next
      case (Some x)
      have "mset (contents s) = add_mset x (mset (contents s1))"
        using take_Some [OF Suc.prems(1), of x] t Some by simp
      then have "length (contents s1) \<le> n" using Suc.prems(2)
        by (metis Suc_le_mono size_add_mset size_mset)
      then show ?thesis using Suc.IH [of s1] Suc.prems t Some take_inv [OF Suc.prems(1)]
        by (auto split: prod.splits)
    qed
  qed simp
  then show ?thesis using drain_conserves [OF assms(1,3)] by simp
qed

end

section \<open>Queues in order of arrival\<close>

locale fifo_queue =
  fixes inv :: "'s \<Rightarrow> bool"
    and contents :: "'s \<Rightarrow> 'a list"
    and accepts :: "'a \<Rightarrow> 's \<Rightarrow> bool"
    and put :: "'a \<Rightarrow> 's \<Rightarrow> 's"
    and take_one :: "'s \<Rightarrow> 'a option \<times> 's"
  assumes fifo_put_inv: "inv s \<Longrightarrow> accepts x s \<Longrightarrow> inv (put x s)"
    and fifo_put: "inv s \<Longrightarrow> accepts x s \<Longrightarrow> contents (put x s) = contents s @ [x]"
    and fifo_take_inv: "inv s \<Longrightarrow> inv (snd (take_one s))"
    and fifo_take: "inv s \<Longrightarrow> contents s = [] \<Longrightarrow> take_one s = (None, s)"
    and fifo_take_hd: "inv s \<Longrightarrow> contents s = x # xs \<Longrightarrow> fst (take_one s) = Some x \<and> contents (snd (take_one s)) = xs"

sublocale fifo_queue \<subseteq> task_pool inv contents accepts put take_one
proof (unfold_locales, goal_cases)
  case (1 s x) then show ?case by (rule fifo_put_inv)
next
  case (2 s x) then show ?case by (simp add: fifo_put)
next
  case (3 s) then show ?case by (rule fifo_take_inv)
next
  case (4 s) then show ?case using fifo_take fifo_take_hd by (cases "contents s") auto
next
  case (5 s x) then show ?case using fifo_take fifo_take_hd by (cases "contents s") auto
qed

context fifo_queue
begin

text \<open>Draining answers the contents in order.\<close>

lemma drain_in_order: "inv s \<Longrightarrow> fst (drain n s) = take n (contents s) \<and> contents (snd (drain n s)) = drop n (contents s)"
proof (induction n arbitrary: s)
  case (Suc n)
  show ?case
  proof (cases "contents s")
    case Nil
    then show ?thesis using Suc.prems fifo_take by simp
  next
    case (Cons x xs)
    obtain r s1 where t: "take_one s = (r, s1)" by fastforce
    have "r = Some x" "contents s1 = xs" "inv s1"
      using fifo_take_hd [OF Suc.prems Cons] fifo_take_inv [OF Suc.prems] t by simp_all
    then show ?thesis using Suc.IH [of s1] t Cons by (simp add: split_beta)
  qed
qed simp

end

end
