(* ===== verification/Intrusive_List.thy ===== *)
theory Intrusive_List
  imports Queue_Spec
begin

text \<open>
  The intrusive doubly-linked list of \<open>util/linked_list.rs\<close> over an explicit heap of link
  records, one per node, and its refinement to a list of nodes. The wheel, the semaphore, the
  channels and the notification primitives thread their waiters through such lists; their
  theories use the abstract list.
\<close>

section \<open>Model\<close>

type_synonym node = nat

record pointers =
  prev :: "node option"
  "next" :: "node option"
  linked :: bool

definition pointers_new :: pointers where
  "pointers_new = \<lparr>prev = None, next = None, linked = False\<rparr>"

type_synonym heap = "node \<Rightarrow> pointers"

record linked_list =
  head :: "node option"
  tail :: "node option"
  len :: nat

definition linked_list_new :: linked_list where
  "linked_list_new = \<lparr>head = None, tail = None, len = 0\<rparr>"

definition is_empty :: "linked_list \<Rightarrow> bool" where
  "is_empty l \<longleftrightarrow> head l = None"

type_synonym list_state = "heap \<times> linked_list"

definition push_back :: "node \<Rightarrow> list_state \<Rightarrow> list_state" where
  "push_back x hl =
     (let (h, l) = hl;
          previous = tail l;
          h = h(x := \<lparr>prev = previous, next = None, linked = True\<rparr>)
      in case previous of
           Some t \<Rightarrow> (h(t := (h t)\<lparr>next := Some x\<rparr>), l\<lparr>tail := Some x, len := len l + 1\<rparr>)
         | None \<Rightarrow> (h, l\<lparr>head := Some x, tail := Some x, len := len l + 1\<rparr>))"

definition push_front :: "node \<Rightarrow> list_state \<Rightarrow> list_state" where
  "push_front x hl =
     (let (h, l) = hl;
          nxt = head l;
          h = h(x := \<lparr>prev = None, next = nxt, linked = True\<rparr>)
      in case nxt of
           Some t \<Rightarrow> (h(t := (h t)\<lparr>prev := Some x\<rparr>), l\<lparr>head := Some x, len := len l + 1\<rparr>)
         | None \<Rightarrow> (h, l\<lparr>tail := Some x, head := Some x, len := len l + 1\<rparr>))"

datatype list_panic = IntrusiveListUnderflow

definition unlink_node :: "node \<Rightarrow> list_state \<Rightarrow> list_panic + list_state" where
  "unlink_node x hl =
     (let (h, l) = hl;
          h = h(x := \<lparr>prev = None, next = None, linked = False\<rparr>)
      in if len l = 0 then Inl IntrusiveListUnderflow else Inr (h, l\<lparr>len := len l - 1\<rparr>))"

definition pop_front :: "list_state \<Rightarrow> list_panic + node option \<times> list_state" where
  "pop_front hl =
     (case head (snd hl) of
        None \<Rightarrow> Inr (None, hl)
      | Some x \<Rightarrow>
          let nxt = next (fst hl x) in
          and_then (unlink_node x hl) (\<lambda>(h, l).
            let l = l\<lparr>head := nxt\<rparr> in
            case nxt of
              Some y \<Rightarrow> Inr (Some x, h(y := (h y)\<lparr>prev := None\<rparr>), l)
            | None \<Rightarrow> Inr (Some x, h, l\<lparr>tail := None\<rparr>)))"

definition remove_node :: "node \<Rightarrow> list_state \<Rightarrow> list_panic + list_state" where
  "remove_node x hl =
     (let (h, l) = hl;
          previous = prev (h x);
          nxt = next (h x);
          (h, l) = (case previous of
                      Some p \<Rightarrow> (h(p := (h p)\<lparr>next := nxt\<rparr>), l)
                    | None \<Rightarrow> (h, l\<lparr>head := nxt\<rparr>));
          (h, l) = (case nxt of
                      Some n \<Rightarrow> (h(n := (h n)\<lparr>prev := previous\<rparr>), l)
                    | None \<Rightarrow> (h, l\<lparr>tail := previous\<rparr>))
      in unlink_node x (h, l))"

section \<open>Refinement to lists\<close>

text \<open>A segment of linked nodes between a predecessor and a successor.\<close>

primrec seg :: "heap \<Rightarrow> node option \<Rightarrow> node list \<Rightarrow> node option \<Rightarrow> bool" where
  "seg h p [] n = True"
| "seg h p (x # xs) n = (h x = \<lparr>prev = p, next = first xs n, linked = True\<rparr> \<and> seg h (Some x) xs n)"

definition repr :: "list_state \<Rightarrow> node list \<Rightarrow> bool" where
  "repr hl xs \<longleftrightarrow> seg (fst hl) None xs None \<and> distinct xs
     \<and> snd hl = \<lparr>head = first xs None, tail = final None xs, len = length xs\<rparr>"

lemma seg_append: "seg h p (xs @ ys) n \<longleftrightarrow> seg h p xs (first ys n) \<and> seg h (final p xs) ys n"
  by (induction xs arbitrary: p) auto

lemma seg_frame [simp]: "x \<notin> set xs \<Longrightarrow> seg (h(x := l)) p xs n = seg h p xs n"
  by (induction xs arbitrary: p) auto

text \<open>Redirecting the successor of the last node, or the predecessor of the first.\<close>

lemma seg_set_next:
  "distinct (xs @ [t]) \<Longrightarrow> seg h p (xs @ [t]) n \<Longrightarrow> seg (h(t := (h t)\<lparr>next := m\<rparr>)) p (xs @ [t]) m"
  by (auto simp: seg_append)

lemma seg_set_prev:
  "distinct (t # xs) \<Longrightarrow> seg h p (t # xs) n \<Longrightarrow> seg (h(t := (h t)\<lparr>prev := q\<rparr>)) q (t # xs) n"
  by auto

lemma push_back_repr:
  assumes "repr hl xs" "x \<notin> set xs"
  shows "repr (push_back x hl) (xs @ [x])"
proof (cases xs rule: rev_cases)
  case Nil
  then show ?thesis using assms by (auto simp: repr_def push_back_def split: prod.splits)
next
  case (snoc ys t)
  obtain h l where hl: "hl = (h, l)" by fastforce
  have d: "distinct (ys @ [t])" "seg h None (ys @ [t]) None" using assms snoc by (simp_all add: repr_def hl)
  have xt: "x \<noteq> t" "x \<notin> set ys" using assms(2) snoc by auto
  have "seg (h(t := (h t)\<lparr>next := Some x\<rparr>)) None (ys @ [t]) (Some x)" by (rule seg_set_next [OF d])
  then show ?thesis using assms snoc xt
    by (auto simp: repr_def push_back_def hl seg_append Let_def)
qed

lemma push_front_repr:
  assumes "repr hl xs" "x \<notin> set xs"
  shows "repr (push_front x hl) (x # xs)"
  using assms
  by (cases xs) (auto simp: repr_def push_front_def Let_def split: prod.splits)

lemma pop_front_repr:
  assumes "repr hl (x # xs)"
  shows "\<exists>hl'. pop_front hl = Inr (Some x, hl') \<and> repr hl' xs"
proof -
  obtain h l where hl: "hl = (h, l)" by fastforce
  show ?thesis using assms by (cases xs) (auto simp: repr_def pop_front_def unlink_node_def hl Let_def)
qed

lemma pop_front_empty: "repr hl [] \<Longrightarrow> pop_front hl = Inr (None, hl)"
  by (simp add: repr_def pop_front_def)

lemma remove_node_repr:
  assumes "repr hl (ys @ x # zs)"
  shows "\<exists>hl'. remove_node x hl = Inr hl' \<and> repr hl' (ys @ zs) \<and> \<not> linked (fst hl' x)"
proof -
  obtain h l where hl: "hl = (h, l)" by fastforce
  have s: "seg h None ys (Some x)" "h x = \<lparr>prev = final None ys, next = first zs None, linked = True\<rparr>"
    "seg h (Some x) zs None" and d: "distinct (ys @ x # zs)"
    and l: "l = \<lparr>head = first (ys @ x # zs) None, tail = final None (ys @ x # zs), len = Suc (length (ys @ zs))\<rparr>"
    using assms by (auto simp: repr_def hl seg_append)
  define h1 where "h1 = (case final None ys of Some p \<Rightarrow> h(p := (h p)\<lparr>next := first zs None\<rparr>) | None \<Rightarrow> h)"
  define h2 where "h2 = (case first zs None of Some n \<Rightarrow> h1(n := (h1 n)\<lparr>prev := final None ys\<rparr>) | None \<Rightarrow> h1)"
  have y1: "seg h1 None ys (first zs None)"
    using s(1) d by (cases ys rule: rev_cases) (auto simp: h1_def seg_append)
  have z1: "seg h1 (Some x) zs None" using s(3) d by (cases ys rule: rev_cases) (auto simp: h1_def)
  have y2: "seg h2 None ys (first zs None)" using y1 d by (cases zs) (auto simp: h2_def)
  have z2: "seg h2 (final None ys) zs None" using z1 d by (cases zs) (auto simp: h2_def)
  define h3 where "h3 = h2(x := \<lparr>prev = None, next = None, linked = False\<rparr>)"
  define l3 where "l3 = \<lparr>head = first (ys @ zs) None, tail = final None (ys @ zs), len = length (ys @ zs)\<rparr>"
  have "seg h3 None (ys @ zs) None" using y2 z2 d by (simp add: h3_def seg_append)
  then have r: "repr (h3, l3) (ys @ zs)" using d by (simp add: repr_def l3_def)
  have "remove_node x hl = Inr (h3, l3)"
    using s(2) l d by (cases ys rule: rev_cases; cases zs)
      (auto simp: remove_node_def unlink_node_def hl Let_def h1_def h2_def h3_def l3_def final_def)
  then show ?thesis using r by (simp add: h3_def)
qed

text \<open>The abstract list can be read off the heap by following \<open>next\<close> from the head.\<close>

primrec walk :: "heap \<Rightarrow> nat \<Rightarrow> node option \<Rightarrow> node list" where
  "walk h 0 p = []"
| "walk h (Suc n) p = (case p of None \<Rightarrow> [] | Some x \<Rightarrow> x # walk h n (next (h x)))"

definition to_list :: "list_state \<Rightarrow> node list" where
  "to_list hl = walk (fst hl) (len (snd hl)) (head (snd hl))"

lemma walk_seg: "seg h p xs None \<Longrightarrow> walk h (length xs) (first xs None) = xs"
  by (induction xs arbitrary: p) auto

lemma repr_to_list: "repr hl xs \<Longrightarrow> to_list hl = xs"
  by (auto simp: repr_def to_list_def walk_seg)

definition list_inv :: "list_state \<Rightarrow> bool" where
  "list_inv hl \<longleftrightarrow> repr hl (to_list hl)"

lemma list_inv_iff: "list_inv hl \<longleftrightarrow> (\<exists>xs. repr hl xs)"
  unfolding list_inv_def using repr_to_list by blast

definition pop_or_stay :: "list_state \<Rightarrow> node option \<times> list_state" where
  "pop_or_stay hl = (case pop_front hl of Inr r \<Rightarrow> r | Inl _ \<Rightarrow> (None, hl))"

interpretation ilist: fifo_queue list_inv to_list "\<lambda>x hl. x \<notin> set (to_list hl)" push_back pop_or_stay
proof (unfold_locales, goal_cases)
  case (1 hl x)
  then have "repr (push_back x hl) (to_list hl @ [x])" by (intro push_back_repr) (simp_all add: list_inv_def)
  then show ?case unfolding list_inv_iff by blast
next
  case (2 hl x)
  then have "repr (push_back x hl) (to_list hl @ [x])" by (intro push_back_repr) (simp_all add: list_inv_def)
  then show ?case by (rule repr_to_list)
next
  case (3 hl)
  then show ?case
    using pop_front_repr pop_front_empty [of hl] list_inv_iff
    by (cases "to_list hl") (fastforce simp: list_inv_def pop_or_stay_def)+
next
  case (4 hl) then show ?case using pop_front_empty by (simp add: list_inv_def pop_or_stay_def)
next
  case (5 hl x xs)
  then obtain hl' where "pop_front hl = Inr (Some x, hl')" "repr hl' xs"
    using pop_front_repr [of hl x xs] by (auto simp: list_inv_def)
  then show ?case using repr_to_list by (simp add: pop_or_stay_def)
qed

section \<open>Frame\<close>

text \<open>Two lists may share one heap: an operation writes only the nodes of its own list.\<close>

lemma push_back_frame:
  "repr hl xs \<Longrightarrow> y \<notin> insert x (set xs) \<Longrightarrow> fst (push_back x hl) y = fst hl y"
  by (cases xs rule: rev_cases) (auto simp: repr_def push_back_def Let_def split: prod.splits)

lemma pop_front_frame:
  "repr hl xs \<Longrightarrow> pop_front hl = Inr (r, hl') \<Longrightarrow> y \<notin> set xs \<Longrightarrow> fst hl' y = fst hl y"
  by (cases hl; cases xs; cases "tl xs") (auto simp: repr_def pop_front_def unlink_node_def Let_def)

lemma remove_node_frame:
  assumes "repr hl xs" "x \<in> set xs" "remove_node x hl = Inr hl'" "y \<notin> set xs"
  shows "fst hl' y = fst hl y"
proof -
  obtain ys zs where xs: "xs = ys @ x # zs" using assms(2) by (meson split_list)
  obtain h l where hl: "hl = (h, l)" by fastforce
  have hx: "h x = \<lparr>prev = final None ys, next = first zs None, linked = True\<rparr>" and ln: "len l = length xs"
    using assms(1) xs by (auto simp: repr_def hl seg_append)
  show ?thesis using hx ln assms(3,4) xs
    by (cases ys rule: rev_cases; cases zs) (auto simp: remove_node_def unlink_node_def hl Let_def final_def)
qed

lemma repr_frame:
  assumes "repr (h, l) xs" "\<And>y. y \<in> set xs \<Longrightarrow> h' y = h y"
  shows "repr (h', l) xs"
proof -
  have "seg h p xs n \<Longrightarrow> (\<And>y. y \<in> set xs \<Longrightarrow> h' y = h y) \<Longrightarrow> seg h' p xs n" for p n
    by (induction xs arbitrary: p) auto
  then show ?thesis using assms by (auto simp: repr_def)
qed

section \<open>Properties\<close>

text \<open>Three nodes pushed into an empty list.\<close>

definition three_nodes :: list_state where
  "three_nodes = push_back 30 (push_back 20 (push_back 10 ((\<lambda>_. pointers_new), linked_list_new)))"

lemma three_nodes_repr: "repr three_nodes [10, 20, 30]"
proof -
  have "repr ((\<lambda>_. pointers_new), linked_list_new) []" by (simp add: repr_def linked_list_new_def)
  from push_back_repr [OF push_back_repr [OF push_back_repr [OF this]]] show ?thesis
    by (simp add: three_nodes_def)
qed

text \<open>C16. On a well-formed list the pointer operations are the list operations: append, prepend, take
  the head, and delete at any position. None of them panics, and a removed node is unlinked.\<close>

theorem linked_list_refines_lists:
  assumes "repr hl (ys @ x # zs)" "z \<notin> set (ys @ x # zs)"
  shows "repr (push_back z hl) (ys @ x # zs @ [z]) \<and> repr (push_front z hl) (z # ys @ x # zs)
    \<and> (\<exists>hl'. remove_node x hl = Inr hl' \<and> repr hl' (ys @ zs) \<and> \<not> linked (fst hl' x))
    \<and> (\<exists>hl'. pop_front hl = Inr (Some (hd (ys @ [x])), hl') \<and> repr hl' (tl (ys @ x # zs)))
    \<and> to_list hl = ys @ x # zs"
proof -
  have "\<exists>hl'. pop_front hl = Inr (Some (hd (ys @ [x])), hl') \<and> repr hl' (tl (ys @ x # zs))"
    using pop_front_repr [of hl "hd (ys @ [x])" "tl (ys @ x # zs)"] assms(1) by (cases ys) simp_all
  then show ?thesis
    using push_back_repr [OF assms] push_front_repr [OF assms] remove_node_repr [OF assms(1)] repr_to_list [OF assms(1)]
    by simp
qed

theorem linked_list_refines_lists_witness:
  "\<exists>hl'. remove_node 20 three_nodes = Inr hl' \<and> repr hl' [10, 30] \<and> to_list three_nodes = [10, 20, 30]"
  using linked_list_refines_lists [of three_nodes "[10]" 20 "[30]" 40] three_nodes_repr by auto

text \<open>Lists that share a heap do not disturb each other: after a push, a pop or a removal in one list
  every other list with disjoint nodes still represents the same sequence.\<close>

theorem linked_lists_do_not_interfere:
  assumes "repr (h, l) xs" "repr (h, m) ys" "set xs \<inter> set ys = {}" "z \<notin> set xs \<union> set ys" "x \<in> set xs"
  shows "repr (fst (push_back z (h, l)), m) ys
    \<and> (\<forall>r hl'. pop_front (h, l) = Inr (r, hl') \<longrightarrow> repr (fst hl', m) ys)
    \<and> (\<forall>hl'. remove_node x (h, l) = Inr hl' \<longrightarrow> repr (fst hl', m) ys)"
proof (intro conjI allI impI)
  show "repr (fst (push_back z (h, l)), m) ys"
  proof (rule repr_frame [OF assms(2)])
    fix y assume "y \<in> set ys"
    then have "y \<notin> insert z (set xs)" using assms(3,4) by auto
    from push_back_frame [OF assms(1) this] show "fst (push_back z (h, l)) y = h y" by simp
  qed
next
  fix r hl' assume p: "pop_front (h, l) = Inr (r, hl')"
  show "repr (fst hl', m) ys"
    using pop_front_frame [OF assms(1) p] assms(3) by (intro repr_frame [OF assms(2)]) auto
next
  fix hl' assume p: "remove_node x (h, l) = Inr hl'"
  show "repr (fst hl', m) ys"
    using remove_node_frame [OF assms(1,5) p] assms(3) by (intro repr_frame [OF assms(2)]) auto
qed

theorem linked_lists_do_not_interfere_witness:
  "repr (fst (push_back 40 three_nodes), linked_list_new) []"
proof -
  obtain h l where t: "three_nodes = (h, l)" by fastforce
  have "repr (h, linked_list_new) []" by (simp add: repr_def linked_list_new_def)
  with linked_lists_do_not_interfere [of h l "[10, 20, 30]" linked_list_new "[]" 40 10] three_nodes_repr t
  show ?thesis by simp
qed

end
