(* ===== verification/Injector.thy ===== *)
theory Injector
  imports Queue_Spec
begin

text \<open>
  The global injector of \<open>scheduler/multi_thread/inject.rs\<close>: a queue threaded through the
  \<open>queue_next\<close> links of the task headers, under one mutex, with a closed flag. A task is named by
  its header. Operations return the tasks whose reference they drop. \<open>push\<close> reads the closed flag
  once before it takes the lock; that reading is its argument \<open>early\<close>, since a \<open>close\<close> may come
  in between.
\<close>

section \<open>Model\<close>

type_synonym task_ref = nat

record injector =
  i_head :: "task_ref option"
  i_tail :: "task_ref option"
  i_len :: nat
  i_closed :: bool
  queue_next :: "task_ref \<Rightarrow> task_ref option"

definition injector_new :: injector where
  "injector_new = \<lparr>i_head = None, i_tail = None, i_len = 0, i_closed = False, queue_next = (\<lambda>_. None)\<rparr>"

definition inj_append :: "task_ref \<Rightarrow> injector \<Rightarrow> injector" where
  "inj_append n st =
     (let st = (case i_tail st of
                  Some t \<Rightarrow> st\<lparr>queue_next := (queue_next st)(t := Some n)\<rparr>
                | None \<Rightarrow> st\<lparr>i_head := Some n\<rparr>)
      in st\<lparr>i_tail := Some n, i_len := i_len st + 1\<rparr>)"

definition inj_push :: "bool \<Rightarrow> task_ref \<Rightarrow> injector \<Rightarrow> injector \<times> task_ref list" where
  "inj_push early t st =
     (if early then (st, [t])
      else if i_closed st then (st, [t])
      else (inj_append t (st\<lparr>queue_next := (queue_next st)(t := None)\<rparr>), []))"

primrec inj_push_batch :: "task_ref list \<Rightarrow> injector \<Rightarrow> injector \<times> task_ref list" where
  "inj_push_batch [] st = (st, [])"
| "inj_push_batch (t # ts) st =
     (if i_closed st then let (st, ds) = inj_push_batch ts st in (st, t # ds)
      else inj_push_batch ts (inj_append t (st\<lparr>queue_next := (queue_next st)(t := None)\<rparr>)))"

definition inj_pop :: "injector \<Rightarrow> task_ref option \<times> injector" where
  "inj_pop st =
     (case i_head st of
        None \<Rightarrow> (None, st)
      | Some x \<Rightarrow>
          let nxt = queue_next st x;
              st = st\<lparr>queue_next := (queue_next st)(x := None), i_head := nxt\<rparr>;
              st = (if nxt = None then st\<lparr>i_tail := None\<rparr> else st)
          in (Some x, st\<lparr>i_len := i_len st - 1\<rparr>))"

primrec inj_pop_n :: "nat \<Rightarrow> injector \<Rightarrow> task_ref list \<times> injector" where
  "inj_pop_n 0 st = ([], st)"
| "inj_pop_n (Suc n) st =
     (case i_head st of
        None \<Rightarrow> ([], st)
      | Some x \<Rightarrow>
          let nxt = queue_next st x;
              st = st\<lparr>queue_next := (queue_next st)(x := None), i_head := nxt\<rparr>;
              st = (if nxt = None then st\<lparr>i_tail := None\<rparr> else st);
              st = st\<lparr>i_len := i_len st - 1\<rparr>;
              (ts, st) = inj_pop_n n st
          in (x # ts, st))"

definition inj_close :: "injector \<Rightarrow> injector" where
  "inj_close st = st\<lparr>i_closed := True\<rparr>"

partial_function (option) inj_drop_loop :: "task_ref list \<Rightarrow> injector \<Rightarrow> (task_ref list \<times> injector) option" where
  "inj_drop_loop ds st =
     (case inj_pop st of
        (None, st) \<Rightarrow> Some (ds, st)
      | (Some t, st) \<Rightarrow> inj_drop_loop (ds @ [t]) st)"

definition inj_drop :: "injector \<Rightarrow> (task_ref list \<times> injector) option" where
  "inj_drop st = inj_drop_loop [] (inj_close st)"

section \<open>Refinement to lists\<close>

primrec chain :: "(task_ref \<Rightarrow> task_ref option) \<Rightarrow> task_ref list \<Rightarrow> task_ref option \<Rightarrow> bool" where
  "chain q [] n = True"
| "chain q (x # xs) n = (q x = first xs n \<and> chain q xs n)"

definition queued :: "injector \<Rightarrow> task_ref list \<Rightarrow> bool" where
  "queued st xs \<longleftrightarrow> chain (queue_next st) xs None \<and> distinct xs \<and> i_len st = length xs
     \<and> i_head st = first xs None \<and> i_tail st = final None xs"

primrec follow :: "(task_ref \<Rightarrow> task_ref option) \<Rightarrow> nat \<Rightarrow> task_ref option \<Rightarrow> task_ref list" where
  "follow q 0 p = []"
| "follow q (Suc n) p = (case p of None \<Rightarrow> [] | Some x \<Rightarrow> x # follow q n (q x))"

definition inj_contents :: "injector \<Rightarrow> task_ref list" where
  "inj_contents st = follow (queue_next st) (i_len st) (i_head st)"

definition inj_inv :: "injector \<Rightarrow> bool" where
  "inj_inv st \<longleftrightarrow> queued st (inj_contents st)"

lemma follow_chain: "chain q xs None \<Longrightarrow> follow q (length xs) (first xs None) = xs"
  by (induction xs) auto

lemma queued_contents: "queued st xs \<Longrightarrow> inj_contents st = xs"
  by (simp add: queued_def inj_contents_def follow_chain)

lemma inj_inv_iff: "inj_inv st \<longleftrightarrow> (\<exists>xs. queued st xs)"
  unfolding inj_inv_def using queued_contents by blast

lemma chain_frame [simp]: "x \<notin> set xs \<Longrightarrow> chain (q(x := v)) xs n = chain q xs n"
  by (induction xs) auto

lemma chain_append: "chain q (xs @ ys) n \<longleftrightarrow> chain q xs (first ys n) \<and> chain q ys n"
  by (induction xs) auto

lemma append_queued:
  assumes "queued st xs" "t \<notin> set xs"
  shows "queued (inj_append t (st\<lparr>queue_next := (queue_next st)(t := None)\<rparr>)) (xs @ [t])"
proof (cases xs rule: rev_cases)
  case Nil
  then show ?thesis using assms by (simp add: queued_def inj_append_def)
next
  case (snoc ys y)
  then show ?thesis using assms by (auto simp: queued_def inj_append_def chain_append)
qed

lemma pop_queued:
  assumes "queued st (x # xs)"
  shows "fst (inj_pop st) = Some x" "queued (snd (inj_pop st)) xs"
  using assms by (cases xs; simp add: queued_def inj_pop_def Let_def)+

lemma pop_empty: "queued st [] \<Longrightarrow> inj_pop st = (None, st)"
  by (simp add: queued_def inj_pop_def)

lemma pop_inv:
  assumes "inj_inv st"
  shows "inj_inv (snd (inj_pop st))"
proof -
  have q: "queued st (inj_contents st)" using assms by (simp add: inj_inv_def)
  have "\<exists>xs. queued (snd (inj_pop st)) xs"
  proof (cases "inj_contents st")
    case Nil
    then show ?thesis using q pop_empty by auto
  next
    case (Cons x xs)
    then show ?thesis using q pop_queued(2) by auto
  qed
  then show ?thesis by (simp add: inj_inv_iff)
qed

interpretation inj: fifo_queue inj_inv inj_contents "\<lambda>t st. \<not> i_closed st \<and> t \<notin> set (inj_contents st)"
  "\<lambda>t st. fst (inj_push False t st)" inj_pop
proof (unfold_locales, goal_cases)
  case (1 st t)
  then have "queued (fst (inj_push False t st)) (inj_contents st @ [t])"
    using append_queued by (simp add: inj_inv_def inj_push_def)
  then show ?case unfolding inj_inv_iff by blast
next
  case (2 st t)
  then have "queued (fst (inj_push False t st)) (inj_contents st @ [t])"
    using append_queued by (simp add: inj_inv_def inj_push_def)
  then show ?case by (rule queued_contents)
next
  case (3 st) then show ?case by (rule pop_inv)
next
  case (4 st) then show ?case by (simp add: pop_empty inj_inv_def)
next
  case (5 st x xs) then show ?case using pop_queued [of st x xs] queued_contents by (auto simp: inj_inv_def)
qed

section \<open>Batches and closing\<close>

lemma pop_n_Suc:
  "inj_pop_n (Suc n) st =
     (case inj_pop st of (None, st') \<Rightarrow> ([], st')
      | (Some x, st') \<Rightarrow> let (xs, st'') = inj_pop_n n st' in (x # xs, st''))"
  by (cases "i_head st") (simp_all add: inj_pop_def Let_def)

lemma pop_n_drain: "inj_pop_n n st = inj.drain n st"
proof (induction n arbitrary: st)
  case (Suc n)
  then show ?case by (simp only: pop_n_Suc inj.drain.simps)
qed simp

lemma append_closed [simp]: "i_closed (inj_append t st) = i_closed st"
  by (simp add: inj_append_def Let_def split: option.splits)

lemma push_batch_open:
  assumes "queued st xs" "\<not> i_closed st" "distinct (xs @ ts)"
  shows "queued (fst (inj_push_batch ts st)) (xs @ ts) \<and> snd (inj_push_batch ts st) = []"
  using assms
proof (induction ts arbitrary: st xs)
  case (Cons t ts)
  let ?st = "inj_append t (st\<lparr>queue_next := (queue_next st)(t := None)\<rparr>)"
  have "queued ?st (xs @ [t])" using Cons.prems by (intro append_queued) auto
  from Cons.IH [OF this] show ?case using Cons.prems by simp
qed simp

lemma push_batch_closed: "i_closed st \<Longrightarrow> inj_push_batch ts st = (st, ts)"
  by (induction ts) auto

lemma drop_loop_drains: "queued st xs \<Longrightarrow> \<exists>st'. inj_drop_loop ds st = Some (ds @ xs, st') \<and> queued st' []"
proof (induction xs arbitrary: st ds)
  case Nil
  then show ?case by (subst inj_drop_loop.simps) (simp add: pop_empty)
next
  case (Cons x xs)
  obtain st1 where st1: "inj_pop st = (Some x, st1)" using pop_queued(1) [OF Cons.prems] by (metis prod.collapse)
  then have "queued st1 xs" using pop_queued(2) [OF Cons.prems] by simp
  then show ?case using Cons.IH [of st1 "ds @ [x]"] st1 by (subst inj_drop_loop.simps) simp
qed

section \<open>Properties\<close>

lemma new_queued [simp]: "queued injector_new []"
  by (simp add: queued_def injector_new_def)

lemma new_open: "\<not> i_closed injector_new"
  by (simp add: injector_new_def)

text \<open>C15. The injector is a queue: an open injector appends a batch in order and drops nothing, \<open>pop_n\<close>
  takes the oldest tasks in order and leaves the rest, and the length field counts them.\<close>

theorem injector_is_fifo:
  assumes "queued st xs" "\<not> i_closed st" "distinct (xs @ ts)"
  shows "let (st1, dropped) = inj_push_batch ts st; (out, st2) = inj_pop_n n st1
    in dropped = [] \<and> inj_contents st1 = xs @ ts \<and> i_len st1 = length (xs @ ts)
      \<and> out = take n (xs @ ts) \<and> inj_contents st2 = drop n (xs @ ts)"
proof -
  have q: "queued (fst (inj_push_batch ts st)) (xs @ ts)" "snd (inj_push_batch ts st) = []"
    using push_batch_open [OF assms] by auto
  then have "inj_inv (fst (inj_push_batch ts st))" "inj_contents (fst (inj_push_batch ts st)) = xs @ ts"
    using queued_contents inj_inv_iff by blast+
  then show ?thesis using q inj.drain_in_order [of "fst (inj_push_batch ts st)" n]
    by (simp add: split_beta pop_n_drain queued_def)
qed

theorem injector_is_fifo_witness:
  "let (st1, dropped) = inj_push_batch [4, 5, 6] injector_new; (out, st2) = inj_pop_n 2 st1
   in dropped = [] \<and> out = [4, 5] \<and> inj_contents st2 = [6]"
  using injector_is_fifo [OF new_queued, of "[4, 5, 6]" 2]
  by (simp add: new_open Let_def split_beta del: inj_push_batch.simps inj_pop_n.simps)

text \<open>A closed injector accepts nothing: the task is handed back to be dropped, also when the close
  comes between the two reads of the flag, and dropping the injector releases every queued task
  exactly once, in order.\<close>

theorem closed_injector_releases_all:
  assumes "queued st xs" "t \<notin> set xs"
  shows "inj_push early t (inj_close st) = (inj_close st, [t])
    \<and> inj_push_batch ts (inj_close st) = (inj_close st, ts)
    \<and> (\<exists>st'. inj_drop st = Some (xs, st') \<and> inj_contents st' = [])"
proof -
  have "queued (inj_close st) xs" using assms(1) by (simp add: inj_close_def queued_def)
  from drop_loop_drains [OF this, of "[]"] show ?thesis
    using queued_contents by (auto simp: inj_drop_def inj_push_def inj_close_def push_batch_closed)
qed

theorem closed_injector_releases_all_witness:
  "\<exists>st'. inj_drop (fst (inj_push False 4 injector_new)) = Some ([4], st') \<and> inj_contents st' = []"
proof -
  have "queued (fst (inj_push False 4 injector_new)) [4]"
    using append_queued [OF new_queued, of 4] by (simp add: inj_push_def injector_new_def)
  from closed_injector_releases_all [OF this, of 5] show ?thesis by simp
qed

end
