(* ===== verification/Local_Queue.thy ===== *)
theory Local_Queue
  imports Queue_Spec
begin

text \<open>
  The per-worker run queue of \<open>scheduler/multi_thread/queue.rs\<close>: a ring of 256 slots with a
  packed head word (reservation frontier and committed head, 32 bits each) and a wrapping 32-bit
  tail. First the operations as the owner or a lone thief runs them, with their refinement to
  lists; then the interleaving of one owner and any number of thieves, step by step.
\<close>

section \<open>Words and slots\<close>

definition LOCAL_QUEUE_CAPACITY :: nat where "LOCAL_QUEUE_CAPACITY = 256"
definition INDEX_MASK :: u32 where "INDEX_MASK = of_nat LOCAL_QUEUE_CAPACITY - 1"

definition pack :: "u32 \<Rightarrow> u32 \<Rightarrow> u64" where
  "pack steal_head real_head = push_bit 32 (ucast steal_head) OR ucast real_head"

definition unpack :: "u64 \<Rightarrow> u32 \<times> u32" where
  "unpack v = (ucast (drop_bit 32 v), ucast v)"

text \<open>An uninitialised slot is \<open>None\<close>; reading one is a fault.\<close>

record 'a local_queue =
  q_head :: u64
  q_tail :: u32
  q_buffer :: "nat \<Rightarrow> 'a option"

datatype queue_fault = UninitRead | DestinationFilled

definition local_new :: "'a local_queue" where
  "local_new = \<lparr>q_head = pack 0 0, q_tail = 0, q_buffer = (\<lambda>_. None)\<rparr>"

definition slot_ix :: "u32 \<Rightarrow> nat" where
  "slot_ix i = unat (i AND INDEX_MASK)"

definition read_slot :: "'a local_queue \<Rightarrow> u32 \<Rightarrow> queue_fault + 'a" where
  "read_slot q i = (case q_buffer q (slot_ix i) of None \<Rightarrow> Inl UninitRead | Some x \<Rightarrow> Inr x)"

section \<open>Operations\<close>

text \<open>\<open>Inl\<close> hands the value back: the queue is full.\<close>

definition lq_push_back :: "'a \<Rightarrow> 'a local_queue \<Rightarrow> 'a + 'a local_queue" where
  "lq_push_back x q =
     (let real_head = snd (unpack (q_head q)) in
      if LOCAL_QUEUE_CAPACITY \<le> unat (q_tail q - real_head) then Inl x
      else Inr (q\<lparr>q_buffer := (q_buffer q)(slot_ix (q_tail q) := Some x), q_tail := q_tail q + 1\<rparr>))"

text \<open>\<open>pop\<close> in two parts: withdrawing the tail, and the decision after the fence.\<close>

definition pop_begin :: "'a local_queue \<Rightarrow> (u32 \<times> 'a local_queue) option" where
  "pop_begin q =
     (let t = q_tail q in
      if t = fst (unpack (q_head q)) then None else Some (t, q\<lparr>q_tail := t - 1\<rparr>))"

definition pop_end :: "u32 \<Rightarrow> 'a local_queue \<Rightarrow> queue_fault + 'a option \<times> 'a local_queue" where
  "pop_end t q =
     (let (steal_head, real_head) = unpack (q_head q);
          available = unat (t - steal_head)
      in if available = 0 \<or> real_head \<noteq> steal_head then Inr (None, q\<lparr>q_tail := t\<rparr>)
         else
           let q = (if available = 1
                    then q\<lparr>q_head := pack (steal_head + 1) (real_head + 1), q_tail := t\<rparr> else q)
           in and_then (read_slot q (t - 1)) (\<lambda>x. Inr (Some x, q)))"

definition lq_pop :: "'a local_queue \<Rightarrow> queue_fault + 'a option \<times> 'a local_queue" where
  "lq_pop q = (case pop_begin q of None \<Rightarrow> Inr (None, q) | Some (t, q) \<Rightarrow> pop_end t q)"

definition lq_len :: "'a local_queue \<Rightarrow> nat" where
  "lq_len q = unat (q_tail q - snd (unpack (q_head q)))"

definition available_space :: "'a local_queue \<Rightarrow> nat" where
  "available_space q = LOCAL_QUEUE_CAPACITY - lq_len q"

text \<open>What a thief decides from a head snapshot, a tail reading and its own room: the start of the
  claim, the number of slots, and the head word to install.\<close>

definition steal_plan :: "u64 \<Rightarrow> u32 \<Rightarrow> nat \<Rightarrow> (u32 \<times> nat \<times> u64) option" where
  "steal_plan snapshot t room =
     (let (steal_head, real_head) = unpack snapshot;
          available = unat (t - steal_head)
      in if available = 0 \<or> LOCAL_QUEUE_CAPACITY < available then None
         else if room = 0 then None
         else
           let cnt = max (min (min available room) (max available 1 div 2)) 1
           in Some (steal_head, cnt, pack (steal_head + of_nat cnt) real_head))"

text \<open>The copying loop: the first item is kept, the others go to the thief's queue.\<close>

primrec steal_copy ::
  "'a local_queue \<Rightarrow> u32 \<Rightarrow> nat list \<Rightarrow> 'a option \<Rightarrow> 'a local_queue \<Rightarrow> queue_fault + 'a option \<times> 'a local_queue" where
  "steal_copy q start [] first' dst = Inr (first', dst)"
| "steal_copy q start (offset # offsets) first' dst =
     and_then (read_slot q (start + of_nat offset)) (\<lambda>value.
       case first' of
         None \<Rightarrow> steal_copy q start offsets (Some value) dst
       | Some _ \<Rightarrow>
           (case lq_push_back value dst of
              Inl _ \<Rightarrow> Inl DestinationFilled
            | Inr dst \<Rightarrow> steal_copy q start offsets first' dst))"

text \<open>One iteration of \<open>commit_real_head\<close> and its loop; \<open>None\<close> is a commit that waits for ever.\<close>

definition commit_try :: "u32 \<Rightarrow> u32 \<Rightarrow> 'a local_queue \<Rightarrow> 'a local_queue \<times> bool" where
  "commit_try claim_start claimed_end q =
     (let (steal_head, real_head) = unpack (q_head q) in
      if real_head = claimed_end then (q, True)
      else if q_head q = pack steal_head claim_start then (q\<lparr>q_head := pack steal_head claimed_end\<rparr>, True)
      else (q, False))"

partial_function (option) commit_real_head :: "u32 \<Rightarrow> u32 \<Rightarrow> 'a local_queue \<Rightarrow> 'a local_queue option" where
  "commit_real_head claim_start claimed_end q =
     (case commit_try claim_start claimed_end q of
        (q, ok) \<Rightarrow> if ok then Some q else commit_real_head claim_start claimed_end q)"

text \<open>\<open>steal_into\<close> with no other thread in between: the compare-exchange succeeds.\<close>

definition steal_into ::
  "'a local_queue \<Rightarrow> 'a local_queue \<Rightarrow> (queue_fault + 'a option \<times> 'a local_queue \<times> 'a local_queue) option" where
  "steal_into q dst =
     (case steal_plan (q_head q) (q_tail q) (available_space dst) of
        None \<Rightarrow> Some (Inr (None, q, dst))
      | Some (start, cnt, desired) \<Rightarrow>
          let q = q\<lparr>q_head := desired\<rparr> in
          (case steal_copy q start [0..<cnt] None dst of
             Inl e \<Rightarrow> Some (Inl e)
           | Inr (first', dst) \<Rightarrow>
               map_option (\<lambda>q. Inr (first', q, dst)) (commit_real_head start (start + of_nat cnt) q)))"

text \<open>Emptying the staging queue of \<open>push_overflow\<close>, and its loop.\<close>

partial_function (option) pop_all :: "'a list \<Rightarrow> 'a local_queue \<Rightarrow> (queue_fault + 'a list \<times> 'a local_queue) option" where
  "pop_all acc q =
     (case lq_pop q of
        Inl e \<Rightarrow> Some (Inl e)
      | Inr (None, q) \<Rightarrow> Some (Inr (acc, q))
      | Inr (Some x, q) \<Rightarrow> pop_all (acc @ [x]) q)"

partial_function (option) overflow_loop ::
  "'a \<Rightarrow> 'a local_queue \<Rightarrow> 'a list \<Rightarrow> 'a local_queue \<Rightarrow> (queue_fault + 'a local_queue \<times> 'a list) option" where
  "overflow_loop value staging overflow q =
     (case lq_push_back value q of
        Inr q \<Rightarrow> Some (Inr (q, overflow))
      | Inl value \<Rightarrow>
          (case steal_into q staging of
             None \<Rightarrow> None
           | Some (Inl e) \<Rightarrow> Some (Inl e)
           | Some (Inr (None, q, staging)) \<Rightarrow> overflow_loop value staging overflow q
           | Some (Inr (Some x, q, staging)) \<Rightarrow>
               (case pop_all (overflow @ [x]) staging of
                  None \<Rightarrow> None
                | Some (Inl e) \<Rightarrow> Some (Inl e)
                | Some (Inr (overflow, staging)) \<Rightarrow> overflow_loop value staging overflow q)))"

definition push_overflow :: "'a \<Rightarrow> 'a list \<Rightarrow> 'a local_queue \<Rightarrow> (queue_fault + 'a local_queue \<times> 'a list) option" where
  "push_overflow value overflow q = overflow_loop value local_new overflow q"

text \<open>The items \<open>Drop for Inner\<close> drops in place.\<close>

definition lq_drop :: "'a local_queue \<Rightarrow> (queue_fault + 'a) list" where
  "lq_drop q =
     (let real_head = snd (unpack (q_head q))
      in map (\<lambda>offset. read_slot q (real_head + of_nat offset)) [0..<unat (q_tail q - real_head)])"

section \<open>The packed head\<close>

lemma unpack_pack [simp]: "unpack (pack s r) = (s, r)"
proof -
  have "ucast (drop_bit 32 (pack s r)) = s" unfolding pack_def
    by (rule bit_word_eqI) (auto simp: bit_ucast_iff bit_drop_bit_eq bit_or_iff bit_push_bit_iff dest: bit_imp_le_length)
  moreover have "ucast (pack s r) = r" unfolding pack_def
    by (rule bit_word_eqI) (auto simp: bit_ucast_iff bit_or_iff bit_push_bit_iff dest: bit_imp_le_length)
  ultimately show ?thesis by (simp add: unpack_def)
qed

lemma pack_eq_iff [simp]: "pack s r = pack s' r' \<longleftrightarrow> s = s' \<and> r = r'"
  by (metis unpack_pack prod.inject)

lemma pack_unpack: "pack (fst (unpack v)) (snd (unpack v)) = v"
  unfolding pack_def unpack_def
  by (rule bit_word_eqI) (auto simp: bit_ucast_iff bit_or_iff bit_push_bit_iff bit_drop_bit_eq)

section \<open>Refinement to unbounded positions\<close>

text \<open>
  Behind the wrapping counters stand positions that only grow: \<open>R \<le> S \<le> T\<close> for the committed
  head, the frontier and the tail, at most 256 apart, and \<open>f k\<close> is the item at position \<open>k\<close>.
\<close>

definition lq_rep :: "'a local_queue \<Rightarrow> nat \<Rightarrow> nat \<Rightarrow> nat \<Rightarrow> (nat \<Rightarrow> 'a) \<Rightarrow> bool" where
  "lq_rep q R S T f \<longleftrightarrow> q_head q = pack (of_nat S) (of_nat R) \<and> q_tail q = of_nat T
     \<and> R \<le> S \<and> S \<le> T \<and> T - R \<le> 256 \<and> (\<forall>k. R \<le> k \<and> k < T \<longrightarrow> q_buffer q (k mod 256) = Some (f k))"

lemma slot_ix_of_nat [simp]: "slot_ix (of_nat k) = k mod 256"
proof -
  have m: "INDEX_MASK = mask 8" by (simp add: INDEX_MASK_def LOCAL_QUEUE_CAPACITY_def mask_eq_exp_minus_1)
  have "slot_ix (of_nat k) = take_bit 8 (unat (of_nat k :: u32))"
    unfolding slot_ix_def m take_bit_eq_mask [symmetric] by (rule unsigned_take_bit_eq)
  then show ?thesis by (simp add: unat_of_nat take_bit_eq_mod mod_mod_cancel)
qed

lemma word_gap: "R \<le> T \<Longrightarrow> T - R \<le> 256 \<Longrightarrow> unat (of_nat T - of_nat R :: u32) = T - R"
proof -
  assume "R \<le> T" "T - R \<le> 256"
  then have "of_nat T - of_nat R = (of_nat (T - R) :: u32)" "T - R < 2 ^ 32" by (simp_all add: of_nat_diff)
  then show ?thesis by (simp add: unat_of_nat_lt)
qed

lemma word_gap_eq: "R \<le> T \<Longrightarrow> T - R \<le> 256 \<Longrightarrow> (of_nat T = (of_nat R :: u32)) \<longleftrightarrow> T = R"
  using word_gap [of R T] by auto

lemma mod_gap: "a mod 256 = b mod 256 \<Longrightarrow> a \<le> b \<Longrightarrow> b - a < 256 \<Longrightarrow> a = b" for a b :: nat
proof -
  assume "a mod 256 = b mod 256" "a \<le> b" "b - a < 256"
  then have "256 dvd b - a" by (metis mod_eq_dvd_iff_nat)
  with \<open>b - a < 256\<close> have "b - a = 0" by (meson dvd_imp_le not_gr_zero not_le)
  with \<open>a \<le> b\<close> show ?thesis by simp
qed

lemma lq_rep_new [simp]: "lq_rep local_new 0 0 0 f"
  by (simp add: lq_rep_def local_new_def)

lemma lq_repD:
  assumes "lq_rep q R S T f"
  shows "unpack (q_head q) = (of_nat S, of_nat R)" "q_tail q = of_nat T" "R \<le> S" "S \<le> T" "T - R \<le> 256"
    "R \<le> k \<Longrightarrow> k < T \<Longrightarrow> read_slot q (of_nat k) = Inr (f k)"
    "unat (q_tail q - of_nat S) = T - S" "unat (q_tail q - of_nat R) = T - R" "lq_len q = T - R"
  using assms by (auto simp: lq_rep_def read_slot_def lq_len_def word_gap)

lemma push_rep:
  assumes r: "lq_rep q R S T f"
  shows "lq_push_back x q =
    (if 256 \<le> T - R then Inl x
     else Inr (q\<lparr>q_buffer := (q_buffer q)(T mod 256 := Some x), q_tail := of_nat (Suc T)\<rparr>))"
    "T - R < 256 \<Longrightarrow> lq_rep (q\<lparr>q_buffer := (q_buffer q)(T mod 256 := Some x), q_tail := of_nat (Suc T)\<rparr>) R S (Suc T) (f(T := x))"
proof -
  note d = lq_repD [OF r]
  show "lq_push_back x q = (if 256 \<le> T - R then Inl x
     else Inr (q\<lparr>q_buffer := (q_buffer q)(T mod 256 := Some x), q_tail := of_nat (Suc T)\<rparr>))"
    using d(1,2,8) by (simp add: lq_push_back_def LOCAL_QUEUE_CAPACITY_def add.commute)
  assume lt: "T - R < 256"
  have "k mod 256 \<noteq> T mod 256" if "R \<le> k" "k < T" for k
    using mod_gap [of k T] that lt by linarith
  then show "lq_rep (q\<lparr>q_buffer := (q_buffer q)(T mod 256 := Some x), q_tail := of_nat (Suc T)\<rparr>) R S (Suc T) (f(T := x))"
    using r lt by (auto simp: lq_rep_def less_Suc_eq)
qed

lemma pop_rep_None:
  assumes "lq_rep q R S T f" "S = T \<or> R \<noteq> S"
  shows "lq_pop q = Inr (None, q)"
proof -
  note d = lq_repD [OF assms(1)]
  have "of_nat S \<noteq> (of_nat R :: u32)" if "R \<noteq> S" using word_gap_eq [of R S] d(3,4,5) that by auto
  moreover have "unat (of_nat T - of_nat S :: u32) = 0" if "S = T" using that by simp
  moreover have "q\<lparr>q_tail := of_nat T\<rparr> = q" using d(2) by simp
  ultimately show ?thesis using assms(2) d(1,2) by (auto simp: lq_pop_def pop_begin_def pop_end_def Let_def)
qed

lemma pop_rep_Some:
  assumes r: "lq_rep q S S T f" and lt: "S < T"
  shows "\<exists>q'. lq_pop q = Inr (Some (f (T - 1)), q') \<and>
    (if T = Suc S then lq_rep q' (Suc S) (Suc S) T f else lq_rep q' S S (T - 1) f)"
proof -
  note d = lq_repD [OF r]
  have ne: "of_nat T \<noteq> (of_nat S :: u32)" using word_gap_eq [of S T] d(5) lt by simp
  have t1: "of_nat T - 1 = (of_nat (T - 1) :: u32)" using lt by (simp add: of_nat_diff)
  define q1 where "q1 = q\<lparr>q_tail := of_nat (T - 1)\<rparr>"
  define q2 where "q2 = (if T - S = 1 then q1\<lparr>q_head := pack (of_nat S + 1) (of_nat S + 1), q_tail := of_nat T\<rparr> else q1)"
  have buf: "q_buffer q2 = q_buffer q" by (simp add: q2_def q1_def)
  then have rd: "read_slot q2 (of_nat (T - 1)) = Inr (f (T - 1))"
    using d(6) [of "T - 1"] lt by (simp add: read_slot_def)
  have "lq_pop q = and_then (read_slot q2 (of_nat (T - 1))) (\<lambda>x. Inr (Some x, q2))"
    using d(1,2,7) ne lt t1
    by (simp add: lq_pop_def pop_begin_def pop_end_def q2_def q1_def Let_def)
  then have "lq_pop q = Inr (Some (f (T - 1)), q2)" unfolding rd by simp
  moreover have "if T = Suc S then lq_rep q2 (Suc S) (Suc S) T f else lq_rep q2 S S (T - 1) f"
    using r lt by (auto simp: lq_rep_def q2_def q1_def add.commute)
  ultimately show ?thesis by blast
qed

text \<open>How much a thief takes: half of what is there, at least one, at most its room.\<close>

definition steal_count :: "nat \<Rightarrow> nat \<Rightarrow> nat" where
  "steal_count n room = max (min (min n room) (max n 1 div 2)) 1"

lemma steal_count_bounds: "0 < n \<Longrightarrow> 0 < room \<Longrightarrow> 1 \<le> steal_count n room \<and> steal_count n room \<le> n \<and> steal_count n room \<le> room"
  by (auto simp: steal_count_def)

lemma plan_rep:
  assumes "lq_rep q R S T f"
  shows "steal_plan (q_head q) (q_tail q) room =
    (if T = S \<or> room = 0 then None
     else Some (of_nat S, steal_count (T - S) room, pack (of_nat (S + steal_count (T - S) room)) (of_nat R)))"
  using lq_repD [OF assms] by (auto simp: steal_plan_def LOCAL_QUEUE_CAPACITY_def Let_def steal_count_def)

lemma claim_rep:
  "lq_rep q R S T f \<Longrightarrow> c \<le> T - S \<Longrightarrow> lq_rep (q\<lparr>q_head := pack (of_nat (S + c)) (of_nat R)\<rparr>) R (S + c) T f"
  by (auto simp: lq_rep_def)

lemma commit_rep:
  assumes r: "lq_rep q R S T f" and E: "R < E" "E \<le> S"
  shows "commit_try (of_nat R) (of_nat E) q = (q\<lparr>q_head := pack (of_nat S) (of_nat E)\<rparr>, True)"
    "lq_rep (q\<lparr>q_head := pack (of_nat S) (of_nat E)\<rparr>) E S T f"
proof -
  note d = lq_repD [OF r]
  have "E - R \<le> 256" using d(4,5) E by linarith
  then have "of_nat R \<noteq> (of_nat E :: u32)" using word_gap_eq [of R E] E by auto
  moreover have "q_head q = pack (of_nat S) (of_nat R)" using r by (simp add: lq_rep_def)
  ultimately show "commit_try (of_nat R) (of_nat E) q = (q\<lparr>q_head := pack (of_nat S) (of_nat E)\<rparr>, True)"
    using d(1) by (simp add: commit_try_def)
  show "lq_rep (q\<lparr>q_head := pack (of_nat S) (of_nat E)\<rparr>) E S T f" using r E by (auto simp: lq_rep_def)
qed

section \<open>The queue at rest\<close>

text \<open>No steal in flight: the queue holds a list of at most 256 items.\<close>

definition quiet :: "'a local_queue \<Rightarrow> 'a list \<Rightarrow> bool" where
  "quiet q xs \<longleftrightarrow> (\<exists>S T f. lq_rep q S S T f \<and> xs = map f [S..<T])"

lemma quiet_new [simp]: "quiet local_new []"
  unfolding quiet_def by (intro exI [of _ 0]) simp

lemma quiet_len: "quiet q xs \<Longrightarrow> lq_len q = length xs \<and> length xs \<le> 256"
  using lq_repD(5,9) by (fastforce simp: quiet_def)

lemma quiet_push:
  assumes "quiet q xs"
  shows "if length xs = 256 then lq_push_back x q = Inl x
    else \<exists>q'. lq_push_back x q = Inr q' \<and> quiet q' (xs @ [x])"
proof -
  obtain S T f where r: "lq_rep q S S T f" and xs: "xs = map f [S..<T]" using assms by (auto simp: quiet_def)
  note d = lq_repD [OF r]
  have len: "length xs = T - S" by (simp add: xs)
  show ?thesis
  proof (cases "T - S = 256")
    case True
    then show ?thesis using push_rep(1) [OF r, of x] len by simp
  next
    case False
    then have lt: "T - S < 256" using d(5) by simp
    have "map (f(T := x)) [S..<Suc T] = xs @ [x]" using d(4) by (simp add: xs)
    then have "quiet (q\<lparr>q_buffer := (q_buffer q)(T mod 256 := Some x), q_tail := of_nat (Suc T)\<rparr>) (xs @ [x])"
      using push_rep(2) [OF r lt, of x] unfolding quiet_def by metis
    then show ?thesis using push_rep(1) [OF r, of x] len lt False by auto
  qed
qed

lemma quiet_pop_empty: "quiet q [] \<Longrightarrow> lq_pop q = Inr (None, q)"
proof -
  assume "quiet q []"
  then obtain S T f where r: "lq_rep q S S T f" "map f [S..<T] = []" by (auto simp: quiet_def)
  then have "S = T" using lq_repD(4) [OF r(1)] by auto
  then show ?thesis using pop_rep_None [OF r(1)] by simp
qed

lemma quiet_pop:
  assumes "quiet q (xs @ [x])"
  shows "\<exists>q'. lq_pop q = Inr (Some x, q') \<and> quiet q' xs"
proof -
  obtain S T f where r: "lq_rep q S S T f" and xs: "xs @ [x] = map f [S..<T]" using assms by (auto simp: quiet_def)
  have lt: "S < T" using xs by (metis length_append_singleton length_map length_upt zero_less_Suc zero_less_diff)
  have T: "[S..<T] = [S..<T - 1] @ [T - 1]" using lt by (metis Suc_pred' le_less_Suc_eq less_Suc_eq_le not_less_zero upt_Suc_append zero_less_iff_neq_zero Suc_diff_1 gr_implies_not0)
  have x: "x = f (T - 1)" "xs = map f [S..<T - 1]" using xs T by auto
  obtain q' where p: "lq_pop q = Inr (Some (f (T - 1)), q')"
    "if T = Suc S then lq_rep q' (Suc S) (Suc S) T f else lq_rep q' S S (T - 1) f"
    using pop_rep_Some [OF r lt] by blast
  have "quiet q' xs" unfolding quiet_def
  proof (cases "T = Suc S")
    case True
    then have "lq_rep q' T T T f" "xs = map f [T..<T]" using p(2) x by simp_all
    then show "\<exists>S T f. lq_rep q' S S T f \<and> xs = map f [S..<T]" by blast
  next
    case False
    then show "\<exists>S T f. lq_rep q' S S T f \<and> xs = map f [S..<T]" using p(2) x by auto
  qed
  then show ?thesis using p(1) x by blast
qed

lemma steal_copy_rest:
  assumes "\<forall>i\<in>set os. read_slot q (start + of_nat i) = Inr (g i)" "quiet dst ys" "length ys + length os \<le> 256"
  shows "\<exists>dst'. steal_copy q start os (Some x) dst = Inr (Some x, dst') \<and> quiet dst' (ys @ map g os)"
  using assms
proof (induction os arbitrary: dst ys)
  case (Cons i os)
  obtain d1 where d1: "lq_push_back (g i) dst = Inr d1" "quiet d1 (ys @ [g i])"
    using quiet_push [OF Cons.prems(2), of "g i"] Cons.prems(3) by (auto split: if_splits)
  from Cons.IH [OF _ d1(2)] Cons.prems(1,3) d1(1) show ?case by auto
qed simp

lemma quiet_steal:
  assumes "quiet q (x # xs)" "quiet dst ys" "length ys < 256"
  defines "c \<equiv> steal_count (Suc (length xs)) (256 - length ys)"
  shows "\<exists>q' dst'. steal_into q dst = Some (Inr (Some x, q', dst'))
    \<and> quiet q' (drop c (x # xs)) \<and> quiet dst' (ys @ take (c - 1) xs)"
proof -
  obtain S T f where r: "lq_rep q S S T f" and xs: "x # xs = map f [S..<T]" using assms(1) by (auto simp: quiet_def)
  have len: "T - S = Suc (length xs)" using xs by (metis length_Cons length_map length_upt)
  have room: "available_space dst = 256 - length ys" using quiet_len [OF assms(2)]
    by (simp add: available_space_def LOCAL_QUEUE_CAPACITY_def)
  have c: "1 \<le> c" "c \<le> T - S" "c \<le> 256 - length ys" using steal_count_bounds [of "T - S" "256 - length ys"] assms(3) len
    by (auto simp: c_def)
  have cl: "length ys + (c - 1) \<le> 256" using c(3) assms(3) by linarith
  define q1 where "q1 = q\<lparr>q_head := pack (of_nat (S + c)) (of_nat S)\<rparr>"
  have r1: "lq_rep q1 S (S + c) T f" unfolding q1_def by (rule claim_rep [OF r c(2)])
  have plan: "steal_plan (q_head q) (q_tail q) (available_space dst) = Some (of_nat S, c, pack (of_nat (S + c)) (of_nat S))"
    using plan_rep [OF r, of "256 - length ys"] assms(3) len by (simp add: room c_def)
  have rd: "read_slot q1 (of_nat S + of_nat i) = Inr (f (S + i))" if "i < c" for i
    using lq_repD(6) [OF r1, of "S + i"] that c(2) by simp
  have up: "[0..<c] = 0 # [1..<c]" using c(1) by (simp add: upt_conv_Cons)
  obtain dst' where cp: "steal_copy q1 (of_nat S) [1..<c] (Some (f S)) dst = Inr (Some (f S), dst')"
    "quiet dst' (ys @ map (\<lambda>i. f (S + i)) [1..<c])"
    using steal_copy_rest [of "[1..<c]" q1 "of_nat S" "\<lambda>i. f (S + i)" dst ys "f S"] rd assms(2) cl by auto
  have E: "S < S + c" using c(1) by simp
  define q2 where "q2 = q1\<lparr>q_head := pack (of_nat (S + c)) (of_nat (S + c))\<rparr>"
  note cm = commit_rep [OF r1 E order_refl, folded q2_def]
  have "commit_real_head (of_nat S) (of_nat (S + c)) q1 = Some q2"
    using cm(1) by (subst commit_real_head.simps) simp
  then have "steal_into q dst = Some (Inr (Some (f S), q2, dst'))"
    using plan cp(1) rd [of 0] c(1) up by (simp add: steal_into_def q1_def)
  moreover have "drop c (x # xs) = map f [S + c..<T]" by (simp add: xs drop_map)
  then have "quiet q2 (drop c (x # xs))" using cm(2) unfolding quiet_def by blast
  moreover have "x = f S" "take (c - 1) xs = map (\<lambda>i. f (S + i)) [1..<c]"
  proof -
    have "x # xs = f S # map f [Suc S..<T]" using xs len by (simp add: upt_conv_Cons)
    then have x: "x = f S" "xs = map f [Suc S..<T]" by simp_all
    then show "x = f S" by simp
    show "take (c - 1) xs = map (\<lambda>i. f (S + i)) [1..<c]"
      unfolding x(2) using c(1,2) by (auto simp: take_map list_eq_iff_nth_eq)
  qed
  ultimately show ?thesis using cp(2) by auto
qed

lemma quiet_pop_all: "quiet q xs \<Longrightarrow> \<exists>q'. pop_all acc q = Some (Inr (acc @ rev xs, q')) \<and> quiet q' []"
proof (induction xs arbitrary: q acc rule: rev_induct)
  case Nil
  then show ?case by (subst pop_all.simps) (simp add: quiet_pop_empty)
next
  case (snoc x xs)
  obtain q1 where q1: "lq_pop q = Inr (Some x, q1)" "quiet q1 xs" using quiet_pop [OF snoc.prems] by blast
  from snoc.IH [OF q1(2), of "acc @ [x]"] q1(1) show ?case by (subst pop_all.simps) auto
qed

lemma overflow_room: "quiet q xs \<Longrightarrow> length xs < 256 \<Longrightarrow>
  \<exists>q'. overflow_loop v staging ov q = Some (Inr (q', ov)) \<and> quiet q' (xs @ [v])"
  using quiet_push [of q xs v] by (subst overflow_loop.simps) auto

lemma overflow_full:
  assumes "quiet q xs" "length xs = 256"
  shows "\<exists>q'. push_overflow v ov q = Some (Inr (q', ov @ hd xs # rev (take 127 (tl xs)))) \<and> quiet q' (drop 128 xs @ [v])"
proof -
  obtain x ys where xs: "xs = x # ys" using assms(2) by (cases xs) auto
  have c: "steal_count (Suc (length ys)) (256 - length []) = 128" using assms(2) xs by (simp add: steal_count_def)
  obtain q1 st where s: "steal_into q local_new = Some (Inr (Some x, q1, st))"
    "quiet q1 (drop 128 xs)" "quiet st (take 127 ys)"
    using quiet_steal [of q x ys local_new "[]"] assms xs c by auto
  obtain st1 where p: "pop_all (ov @ [x]) st = Some (Inr (ov @ x # rev (take 127 ys), st1))" "quiet st1 []"
    using quiet_pop_all [OF s(3), of "ov @ [x]"] by auto
  have "lq_push_back v q = Inl v" using quiet_push [OF assms(1), of v] assms(2) by simp
  then have "push_overflow v ov q = overflow_loop v st1 (ov @ x # rev (take 127 ys)) q1"
    unfolding push_overflow_def by (subst overflow_loop.simps) (simp add: s(1) p(1))
  then show ?thesis using overflow_room [OF s(2), of v st1] assms(2) xs by auto
qed

section \<open>The run queue as a pool of tasks\<close>

text \<open>The items, read from the frontier to the tail.\<close>

definition lq_items :: "'a local_queue \<Rightarrow> 'a list" where
  "lq_items q = (let s = fst (unpack (q_head q))
     in map (\<lambda>k. the (q_buffer q (slot_ix (s + of_nat k)))) [0..<unat (q_tail q - s)])"

lemma quiet_items: "quiet q xs \<Longrightarrow> lq_items q = xs"
proof -
  assume "quiet q xs"
  then obtain S T f where r: "lq_rep q S S T f" and xs: "xs = map f [S..<T]" by (auto simp: quiet_def)
  note d = lq_repD [OF r]
  have "the (q_buffer q (slot_ix (of_nat S + of_nat k))) = f (S + k)" if "k < T - S" for k
    using r that slot_ix_of_nat [of "S + k"] by (simp add: lq_rep_def)
  then show ?thesis using d(1,7) by (simp add: lq_items_def xs list_eq_iff_nth_eq)
qed

definition quiet_inv :: "'a local_queue \<Rightarrow> bool" where
  "quiet_inv q \<longleftrightarrow> quiet q (lq_items q)"

lemma quiet_inv_iff: "quiet_inv q \<longleftrightarrow> (\<exists>xs. quiet q xs)"
  unfolding quiet_inv_def using quiet_items by blast

definition lq_put :: "'a \<Rightarrow> 'a local_queue \<Rightarrow> 'a local_queue" where
  "lq_put x q = (case lq_push_back x q of Inl _ \<Rightarrow> q | Inr q' \<Rightarrow> q')"

definition lq_take :: "'a local_queue \<Rightarrow> 'a option \<times> 'a local_queue" where
  "lq_take q = (case lq_pop q of Inl _ \<Rightarrow> (None, q) | Inr r \<Rightarrow> r)"

lemma lq_put_quiet: "quiet q xs \<Longrightarrow> length xs < 256 \<Longrightarrow> quiet (lq_put x q) (xs @ [x])"
  using quiet_push [of q xs x] by (auto simp: lq_put_def split: if_splits)

lemma lq_take_quiet:
  assumes "quiet q xs"
  shows "if xs = [] then lq_take q = (None, q) else fst (lq_take q) = Some (last xs) \<and> quiet (snd (lq_take q)) (butlast xs)"
proof (cases xs rule: rev_cases)
  case Nil
  then show ?thesis using assms by (simp add: lq_take_def quiet_pop_empty)
next
  case (snoc ys y)
  then show ?thesis using assms quiet_pop [of q ys y] by (auto simp: lq_take_def)
qed

interpretation runq: task_pool quiet_inv lq_items "\<lambda>x q. length (lq_items q) < 256" lq_put lq_take
proof (unfold_locales, goal_cases)
  case (1 q x)
  then have "quiet (lq_put x q) (lq_items q @ [x])" by (intro lq_put_quiet) (simp_all add: quiet_inv_def)
  then show ?case unfolding quiet_inv_iff by blast
next
  case (2 q x)
  then have "quiet (lq_put x q) (lq_items q @ [x])" by (intro lq_put_quiet) (simp_all add: quiet_inv_def)
  then show ?case using quiet_items by fastforce
next
  case (3 q)
  then have "quiet q (lq_items q)" by (simp add: quiet_inv_def)
  from lq_take_quiet [OF this] 3 show ?case by (auto simp: quiet_inv_iff split: if_splits)
next
  case (4 q)
  then have "quiet q (lq_items q)" by (simp add: quiet_inv_def)
  from lq_take_quiet [OF this] 4 show ?case by (auto split: if_splits)
next
  case (5 q x)
  then have q: "quiet q (lq_items q)" by (simp add: quiet_inv_def)
  have ne: "lq_items q \<noteq> []" "x = last (lq_items q)" "quiet (snd (lq_take q)) (butlast (lq_items q))"
    using lq_take_quiet [OF q] 5(2) by (auto split: if_splits)
  have "mset (lq_items q) = mset (butlast (lq_items q) @ [last (lq_items q)])" using ne(1) by simp
  also have "\<dots> = add_mset x (mset (butlast (lq_items q)))" by (simp add: ne(2))
  finally show ?case using quiet_items [OF ne(3)] by simp
qed

section \<open>Interleavings of the owner and the thieves\<close>

text \<open>
  The threads of one queue, step by step. The owner pushes, and pops in two steps (the tail is
  withdrawn first). A thief loads the head and the tail, tries its compare-exchange later against
  whatever the head is then, copies its slots one at a time, and commits. \<open>handed_out\<close> records
  every item that a slot read has delivered, to whomever; \<open>pushed\<close> every item accepted.
\<close>

datatype thief =
    Looking
  | Loaded (snapshot: u64) (seen_tail: u32) (room: nat)
  | Copying (claim_start: u32) (claim_count: nat) (copied: nat)

record 'a arena =
  ring :: "'a local_queue"
  popping :: "u32 option"
  thieves :: "nat \<Rightarrow> thief"
  pushed :: "'a list"
  handed_out :: "'a list"

definition arena_new :: "'a arena" where
  "arena_new = \<lparr>ring = local_new, popping = None, thieves = (\<lambda>_. Looking), pushed = [], handed_out = []\<rparr>"

datatype 'a queue_event =
    Push 'a | PopBegin | PopEnd
  | Load nat nat | Claim nat | Copy nat | Commit nat

text \<open>One step of an event; \<open>None\<close> when it is not enabled, or reads an uninitialised slot.\<close>

fun arena_step :: "'a queue_event \<Rightarrow> 'a arena \<Rightarrow> 'a arena option" where
  "arena_step (Push x) a =
     (if popping a = None then
        case lq_push_back x (ring a) of
          Inr q \<Rightarrow> Some (a\<lparr>ring := q, pushed := pushed a @ [x]\<rparr>)
        | Inl _ \<Rightarrow> None
      else None)"
| "arena_step PopBegin a =
     (if popping a = None then
        case pop_begin (ring a) of
          None \<Rightarrow> None
        | Some (t, q) \<Rightarrow> Some (a\<lparr>ring := q, popping := Some t\<rparr>)
      else None)"
| "arena_step PopEnd a =
     (case popping a of
        None \<Rightarrow> None
      | Some t \<Rightarrow>
          (case pop_end t (ring a) of
             Inl _ \<Rightarrow> None
           | Inr (None, q) \<Rightarrow> Some (a\<lparr>ring := q, popping := None\<rparr>)
           | Inr (Some x, q) \<Rightarrow> Some (a\<lparr>ring := q, popping := None, handed_out := handed_out a @ [x]\<rparr>)))"
| "arena_step (Load i rm) a =
     (if thieves a i = Looking
      then Some (a\<lparr>thieves := (thieves a)(i := Loaded (q_head (ring a)) (q_tail (ring a)) rm)\<rparr>) else None)"
| "arena_step (Claim i) a =
     (case thieves a i of
        Loaded sn t rm \<Rightarrow>
          (case steal_plan sn t rm of
             None \<Rightarrow> Some (a\<lparr>thieves := (thieves a)(i := Looking)\<rparr>)
           | Some (start, cnt, desired) \<Rightarrow>
               if q_head (ring a) = sn
               then Some (a\<lparr>ring := (ring a)\<lparr>q_head := desired\<rparr>, thieves := (thieves a)(i := Copying start cnt 0)\<rparr>)
               else Some (a\<lparr>thieves := (thieves a)(i := Looking)\<rparr>))
      | _ \<Rightarrow> None)"
| "arena_step (Copy i) a =
     (case thieves a i of
        Copying start cnt k \<Rightarrow>
          if k < cnt then
            (case read_slot (ring a) (start + of_nat k) of
               Inl _ \<Rightarrow> None
             | Inr x \<Rightarrow> Some (a\<lparr>thieves := (thieves a)(i := Copying start cnt (Suc k)), handed_out := handed_out a @ [x]\<rparr>))
          else None
      | _ \<Rightarrow> None)"
| "arena_step (Commit i) a =
     (case thieves a i of
        Copying start cnt k \<Rightarrow>
          if k = cnt then
            (case commit_try start (start + of_nat cnt) (ring a) of
               (q, ok) \<Rightarrow> Some (if ok then a\<lparr>ring := q, thieves := (thieves a)(i := Looking)\<rparr> else a))
          else None
      | _ \<Rightarrow> None)"

primrec arena_run :: "'a queue_event list \<Rightarrow> 'a arena \<Rightarrow> 'a arena option" where
  "arena_run [] a = Some a"
| "arena_run (e # es) a = (case arena_step e a of None \<Rightarrow> None | Some a' \<Rightarrow> arena_run es a')"

text \<open>A claim whose slots are all still in the queue when the compare-exchange happens.\<close>

fun claim_within :: "'a queue_event \<Rightarrow> 'a arena \<Rightarrow> bool" where
  "claim_within (Claim i) a =
     (case thieves a i of
        Loaded sn t rm \<Rightarrow>
          (case steal_plan sn t rm of
             None \<Rightarrow> True
           | Some (start, cnt, desired) \<Rightarrow>
               q_head (ring a) = sn \<longrightarrow> cnt \<le> unat (q_tail (ring a) - start) \<and> unat (q_tail (ring a) - start) \<le> LOCAL_QUEUE_CAPACITY)
      | _ \<Rightarrow> True)"
| "claim_within _ a = True"

primrec all_claims_within :: "'a queue_event list \<Rightarrow> 'a arena \<Rightarrow> bool" where
  "all_claims_within [] a = True"
| "all_claims_within (e # es) a =
     (claim_within e a \<and> (case arena_step e a of None \<Rightarrow> True | Some a' \<Rightarrow> all_claims_within es a'))"

section \<open>Exactly-once delivery\<close>

text \<open>
  The claims in flight, in the order of their slots: thief, end of its range, slots copied. A
  claim starts where the one before it ends; the first starts at the committed head.
\<close>

type_synonym claims = "(nat \<times> nat \<times> nat) list"

primrec claims_ok :: "claims \<Rightarrow> nat \<Rightarrow> nat \<Rightarrow> bool" where
  "claims_ok [] R S = (R = S)"
| "claims_ok (c # cs) R S = (R < fst (snd c) \<and> snd (snd c) \<le> fst (snd c) - R \<and> claims_ok cs (fst (snd c)) S)"

primrec claim_end :: "claims \<Rightarrow> nat \<Rightarrow> nat" where
  "claim_end [] R = R"
| "claim_end (c # cs) R = claim_end cs (fst (snd c))"

primrec claim_thieves :: "claims \<Rightarrow> nat \<Rightarrow> (nat \<times> thief) list" where
  "claim_thieves [] R = []"
| "claim_thieves (c # cs) R = (fst c, Copying (of_nat R) (fst (snd c) - R) (snd (snd c))) # claim_thieves cs (fst (snd c))"

text \<open>The items of the claims that are not copied yet.\<close>

primrec uncopied :: "claims \<Rightarrow> nat \<Rightarrow> (nat \<Rightarrow> 'a) \<Rightarrow> 'a list" where
  "uncopied [] R f = []"
| "uncopied (c # cs) R f = map f [R + snd (snd c)..<fst (snd c)] @ uncopied cs (fst (snd c)) f"

lemma claims_ok_le: "claims_ok cs R S \<Longrightarrow> R \<le> S"
  by (induction cs arbitrary: R) fastforce+

lemma claims_ok_append: "claims_ok (cs @ ds) R S \<longleftrightarrow> claims_ok cs R (claim_end cs R) \<and> claims_ok ds (claim_end cs R) S"
  by (induction cs arbitrary: R) auto

lemma claims_ok_end: "claims_ok cs R S \<Longrightarrow> claim_end cs R = S"
  by (induction cs arbitrary: R) auto

lemma claim_thieves_append: "claim_thieves (cs @ ds) R = claim_thieves cs R @ claim_thieves ds (claim_end cs R)"
  by (induction cs arbitrary: R) auto

lemma uncopied_append: "uncopied (cs @ ds) R f = uncopied cs R f @ uncopied ds (claim_end cs R) f"
  by (induction cs arbitrary: R) auto

lemma uncopied_cong: "claims_ok cs R S \<Longrightarrow> (\<And>k. k < S \<Longrightarrow> f k = g k) \<Longrightarrow> uncopied cs R f = uncopied cs R g"
proof (induction cs arbitrary: R)
  case (Cons c cs)
  have "fst (snd c) \<le> S" using Cons.prems(1) claims_ok_le by auto
  then show ?case using Cons by auto
qed simp

lemma map_fst_claim_thieves: "map fst (claim_thieves cs R) = map fst cs"
  by (induction cs arbitrary: R) auto

definition is_copying :: "thief \<Rightarrow> bool" where
  "is_copying th = (case th of Copying _ _ _ \<Rightarrow> True | _ \<Rightarrow> False)"

definition arena_ghost :: "'a arena \<Rightarrow> nat \<Rightarrow> nat \<Rightarrow> nat \<Rightarrow> (nat \<Rightarrow> 'a) \<Rightarrow> claims \<Rightarrow> bool" where
  "arena_ghost a R S T f cs \<longleftrightarrow>
     (case popping a of
        None \<Rightarrow> lq_rep (ring a) R S T f
      | Some t \<Rightarrow> t = of_nat T \<and> S < T \<and> q_tail (ring a) = of_nat (T - 1) \<and> lq_rep ((ring a)\<lparr>q_tail := of_nat T\<rparr>) R S T f)
   \<and> claims_ok cs R S \<and> distinct (map fst cs)
   \<and> (\<forall>(i, th)\<in>set (claim_thieves cs R). thieves a i = th)
   \<and> (\<forall>i. is_copying (thieves a i) \<longrightarrow> i \<in> fst ` set cs)
   \<and> mset (pushed a) = mset (handed_out a) + mset (uncopied cs R f) + mset (map f [S..<T])"

definition arena_inv :: "'a arena \<Rightarrow> bool" where
  "arena_inv a \<longleftrightarrow> (\<exists>R S T f cs. arena_ghost a R S T f cs)"

lemma arena_ghostD:
  assumes "arena_ghost a R S T f cs"
  shows "claims_ok cs R S" "distinct (map fst cs)" "(i, th) \<in> set (claim_thieves cs R) \<Longrightarrow> thieves a i = th"
    "is_copying (thieves a i) \<Longrightarrow> i \<in> fst ` set cs"
    "mset (pushed a) = mset (handed_out a) + mset (uncopied cs R f) + mset (map f [S..<T])"
    "q_head (ring a) = pack (of_nat S) (of_nat R)" "R \<le> S" "S \<le> T" "T - R \<le> 256"
    "R \<le> k \<Longrightarrow> k < T \<Longrightarrow> read_slot (ring a) (of_nat k) = Inr (f k)"
    "popping a = None \<Longrightarrow> lq_rep (ring a) R S T f"
    "popping a = Some t \<Longrightarrow> t = of_nat T \<and> S < T \<and> q_tail (ring a) = of_nat (T - 1) \<and> lq_rep ((ring a)\<lparr>q_tail := of_nat T\<rparr>) R S T f"
  using assms unfolding arena_ghost_def by (auto split: option.splits simp: lq_rep_def read_slot_def)

lemma arena_invI: "arena_ghost a R S T f cs \<Longrightarrow> arena_inv a"
  unfolding arena_inv_def by blast

lemma arena_new_ghost: "arena_ghost arena_new 0 0 0 f []"
  by (simp add: arena_ghost_def arena_new_def is_copying_def)

lemmas arena_new_inv = arena_invI [OF arena_new_ghost]

text \<open>A copying thief has a claim in the list.\<close>

lemma copying_split:
  assumes g: "arena_ghost a R S T f cs" and th: "thieves a i = Copying start cnt k"
  shows "\<exists>cs1 b cs2. cs = cs1 @ (i, b, k) # cs2 \<and> start = of_nat (claim_end cs1 R) \<and> cnt = b - claim_end cs1 R
    \<and> claim_end cs1 R < b \<and> k \<le> cnt \<and> R \<le> claim_end cs1 R \<and> b \<le> S"
proof -
  have "i \<in> fst ` set cs" using arena_ghostD(4) [OF g, of i] th by (simp add: is_copying_def)
  then obtain c where c0: "c \<in> set cs" "fst c = i" by auto
  from split_list [OF c0(1)] obtain cs1 cs2 where cs: "cs = cs1 @ c # cs2" by blast
  obtain b k' where c: "c = (i, b, k')" using c0(2) by (cases c) auto
  have "(i, Copying (of_nat (claim_end cs1 R)) (b - claim_end cs1 R) k') \<in> set (claim_thieves cs R)"
    by (simp add: cs c claim_thieves_append)
  then have e: "thieves a i = Copying (of_nat (claim_end cs1 R)) (b - claim_end cs1 R) k'"
    by (rule arena_ghostD(3) [OF g])
  have ok: "claims_ok cs1 R (claim_end cs1 R)" "claim_end cs1 R < b" "k' \<le> b - claim_end cs1 R" "claims_ok cs2 b S"
    using arena_ghostD(1) [OF g] by (auto simp: cs c claims_ok_append)
  then show ?thesis using e th cs c claims_ok_le by (intro exI [of _ cs1] exI [of _ b] exI [of _ cs2]) auto
qed

lemma push_step:
  assumes g: "arena_ghost a R S T f cs" and st: "arena_step (Push x) a = Some a'"
  shows "arena_ghost a' R S (Suc T) (f(T := x)) cs"
proof -
  note d = arena_ghostD [OF g]
  have p: "popping a = None" using st by (auto split: if_splits)
  note r = d(11) [OF p]
  have lt: "T - R < 256" and a': "a' = a\<lparr>ring := (ring a)\<lparr>q_buffer := (q_buffer (ring a))(T mod 256 := Some x), q_tail := of_nat (Suc T)\<rparr>,
      pushed := pushed a @ [x]\<rparr>"
    using st p push_rep(1) [OF r, of x] by (auto split: if_splits)
  have "map (f(T := x)) [S..<Suc T] = map f [S..<T] @ [x]" using d(8) by simp
  moreover have "uncopied cs R (f(T := x)) = uncopied cs R f" using d(8) by (intro uncopied_cong [OF d(1)]) auto
  ultimately show ?thesis
    using g p push_rep(2) [OF r lt, of x] unfolding arena_ghost_def a' by simp
qed

lemma pop_begin_step:
  assumes g: "arena_ghost a R S T f cs" and st: "arena_step PopBegin a = Some a'"
  shows "arena_ghost a' R S T f cs"
proof -
  note d = arena_ghostD [OF g]
  have p: "popping a = None" using st by (auto split: if_splits)
  note r = d(11) [OF p]
  have ne: "of_nat T \<noteq> (of_nat S :: u32)" and a': "a' = a\<lparr>ring := (ring a)\<lparr>q_tail := of_nat T - 1\<rparr>, popping := Some (of_nat T)\<rparr>"
    using st p lq_repD(1,2) [OF r] by (auto simp: pop_begin_def Let_def split: if_splits)
  have lt: "S < T" using ne d(8) by (metis le_neq_implies_less)
  then have "of_nat T - 1 = (of_nat (T - 1) :: u32)" by (simp add: of_nat_diff)
  moreover have "(ring a)\<lparr>q_tail := of_nat T\<rparr> = ring a" using lq_repD(2) [OF r] by simp
  ultimately show ?thesis using g p lt r unfolding arena_ghost_def a' by simp
qed

lemma pop_end_step:
  assumes g: "arena_ghost a R S T f cs" and st: "arena_step PopEnd a = Some a'"
  shows "arena_inv a'"
proof -
  note d = arena_ghostD [OF g]
  obtain t where p: "popping a = Some t" using st by (auto split: option.splits)
  have t: "t = of_nat T" "S < T" "q_tail (ring a) = of_nat (T - 1)" and r: "lq_rep ((ring a)\<lparr>q_tail := of_nat T\<rparr>) R S T f"
    using d(12) [OF p] by auto
  have h: "unpack (q_head (ring a)) = (of_nat S, of_nat R)" by (simp add: d(6))
  have av: "unat (of_nat T - of_nat S :: u32) = T - S" using d(7,8,9) by (intro word_gap) auto
  have t1: "of_nat T - 1 = (of_nat (T - 1) :: u32)" using t(2) by (simp add: of_nat_diff)
  show ?thesis
  proof (cases "R = S")
    case False
    then have "of_nat S \<noteq> (of_nat R :: u32)" using word_gap_eq [of R S] d(7,8,9) by auto
    then have a': "a' = a\<lparr>ring := (ring a)\<lparr>q_tail := of_nat T\<rparr>, popping := None\<rparr>"
      using st p t(1) h by (auto simp: pop_end_def)
    have "arena_ghost a' R S T f cs" using g p r unfolding arena_ghost_def a' by simp
    then show ?thesis by (rule arena_invI)
  next
    case RS: True
    have cs: "cs = []" using d(1) RS claims_ok_le by (cases cs) fastforce+
    define q where "q = (if T - S = 1 then (ring a)\<lparr>q_head := pack (of_nat S + 1) (of_nat S + 1), q_tail := of_nat T\<rparr> else ring a)"
    have "read_slot q (of_nat (T - 1)) = Inr (f (T - 1))"
      using d(10) [of "T - 1"] t(2) d(7) RS by (simp add: q_def read_slot_def)
    then have "and_then (read_slot q (of_nat (T - 1))) (\<lambda>x. Inr (Some x, q)) = Inr (Some (f (T - 1)), q)" by simp
    moreover have "pop_end t (ring a) = and_then (read_slot q (of_nat (T - 1))) (\<lambda>x. Inr (Some x, q))"
      unfolding pop_end_def h using t(1,2) av t1 RS by (simp add: q_def Let_def)
    ultimately have a': "a' = a\<lparr>ring := q, popping := None, handed_out := handed_out a @ [f (T - 1)]\<rparr>"
      using st p by simp
    have m: "mset (map f [S..<T]) = add_mset (f (T - 1)) (mset (map f [S..<T - 1]))"
      using t(2) by (cases T) auto
    show ?thesis
    proof (cases "T = Suc S")
      case True
      have "lq_rep q (Suc S) (Suc S) T f" using r True RS by (auto simp: lq_rep_def q_def add.commute)
      then have "arena_ghost a' (Suc S) (Suc S) T f []"
        using g m True unfolding arena_ghost_def a' by (simp add: cs)
      then show ?thesis by (rule arena_invI)
    next
      case False
      then have "lq_rep q S S (T - 1) f" using r t(2,3) RS by (auto simp: lq_rep_def q_def)
      then have "arena_ghost a' S S (T - 1) f []"
        using g m RS unfolding arena_ghost_def a' by (simp add: cs)
      then show ?thesis by (rule arena_invI)
    qed
  qed
qed

lemma is_copying_simps [simp]:
  "\<not> is_copying Looking" "\<not> is_copying (Loaded sn t rm)" "is_copying (Copying st cnt k)"
  by (simp_all add: is_copying_def)

lemma claim_thieves_copying: "(i, th) \<in> set (claim_thieves cs R) \<Longrightarrow> is_copying th \<and> i \<in> fst ` set cs"
  by (induction cs arbitrary: R) auto

lemma idle_has_no_claim:
  assumes g: "arena_ghost a R S T f cs" and "\<not> is_copying (thieves a i)"
  shows "i \<notin> fst ` set cs"
proof
  assume "i \<in> fst ` set cs"
  then have "i \<in> set (map fst (claim_thieves cs R))" by (simp add: map_fst_claim_thieves)
  then obtain th' where m: "(i, th') \<in> set (claim_thieves cs R)" by auto
  then show False using arena_ghostD(3) [OF g m] claim_thieves_copying [OF m] assms(2) by simp
qed

text \<open>Steps that only change what a thief remembers.\<close>

lemma ghost_thief:
  assumes g: "arena_ghost a R S T f cs" and "\<not> is_copying (thieves a i)" "\<not> is_copying th"
  shows "arena_ghost (a\<lparr>thieves := (thieves a)(i := th)\<rparr>) R S T f cs"
proof -
  let ?a = "a\<lparr>thieves := (thieves a)(i := th)\<rparr>"
  have free: "i \<notin> fst ` set cs" by (rule idle_has_no_claim [OF g assms(2)])
  have "thieves ?a j = th'" if "(j, th') \<in> set (claim_thieves cs R)" for j th'
    using arena_ghostD(3) [OF g that] claim_thieves_copying [OF that] free by (cases "j = i") auto
  moreover have "j \<in> fst ` set cs" if "is_copying (thieves ?a j)" for j
    using arena_ghostD(4) [OF g, of j] that assms(3) by (cases "j = i") auto
  ultimately show ?thesis using g unfolding arena_ghost_def by (auto split: option.splits)
qed

lemma claim_step:
  assumes g: "arena_ghost a R S T f cs" and th: "thieves a i = Loaded sn t rm"
    and plan: "steal_plan sn t rm = Some (start, cnt, desired)" and cas: "q_head (ring a) = sn"
    and within: "cnt \<le> unat (q_tail (ring a) - start)" "unat (q_tail (ring a) - start) \<le> 256"
  shows "arena_ghost (a\<lparr>ring := (ring a)\<lparr>q_head := desired\<rparr>, thieves := (thieves a)(i := Copying start cnt 0)\<rparr>)
    R (S + cnt) T f (cs @ [(i, S + cnt, 0)])"
proof -
  note d = arena_ghostD [OF g]
  have un: "unpack sn = (of_nat S, of_nat R)" using d(6) cas by simp
  have pl: "start = of_nat S" "1 \<le> cnt" "desired = pack (of_nat (S + cnt)) (of_nat R)"
    using plan by (auto simp: steal_plan_def un Let_def split: if_splits)
  define T' where "T' = (if popping a = None then T else T - 1)"
  have tail: "q_tail (ring a) = of_nat T'" "S \<le> T'" "T' \<le> T"
    using lq_repD(2) d(8,11,12) by (cases "popping a"; force simp: T'_def lq_rep_def)+
  have c: "cnt \<le> T' - S" using within(1) word_gap [of S T'] tail d(7,9) by (simp add: pl(1))
  have free: "i \<notin> fst ` set cs" using idle_has_no_claim [OF g, of i] th by simp
  have oth: "\<And>j th'. (j, th') \<in> set (claim_thieves cs R) \<Longrightarrow> j \<noteq> i"
    using free claim_thieves_copying by blast
  have e: "claim_end cs R = S" by (rule claims_ok_end [OF d(1)])
  have sp: "map f [S..<T] = map f [S..<S + cnt] @ map f [S + cnt..<T]"
    using c tail by (metis le_add1 le_add_diff_inverse map_append upt_add_eq_append le_diff_conv2 add.commute order_trans)
  let ?a = "a\<lparr>ring := (ring a)\<lparr>q_head := desired\<rparr>, thieves := (thieves a)(i := Copying start cnt 0)\<rparr>"
  have ringok: "case popping ?a of None \<Rightarrow> lq_rep (ring ?a) R (S + cnt) T f
      | Some t \<Rightarrow> t = of_nat T \<and> S + cnt < T \<and> q_tail (ring ?a) = of_nat (T - 1) \<and> lq_rep ((ring ?a)\<lparr>q_tail := of_nat T\<rparr>) R (S + cnt) T f"
    using d(11,12) c pl(3) by (cases "popping a") (auto simp: lq_rep_def T'_def)
  have cl: "claims_ok (cs @ [(i, S + cnt, 0)]) R (S + cnt)" using d(1) pl(2) e by (simp add: claims_ok_append)
  have th': "\<forall>(j, th)\<in>set (claim_thieves (cs @ [(i, S + cnt, 0)]) R). thieves ?a j = th"
    using d(3) oth e pl(1) by (auto simp: claim_thieves_append)
  have ms: "mset (pushed ?a) = mset (handed_out ?a) + mset (uncopied (cs @ [(i, S + cnt, 0)]) R f) + mset (map f [S + cnt..<T])"
    using d(5) e by (simp add: uncopied_append sp)
  show ?thesis unfolding arena_ghost_def using ringok cl th' ms d(2,4) free by auto
qed

lemma copy_step:
  assumes g: "arena_ghost a R S T f cs" and st: "arena_step (Copy i) a = Some a'"
  shows "arena_inv a'"
proof -
  note d = arena_ghostD [OF g]
  obtain start cnt k where th: "thieves a i = Copying start cnt k" "k < cnt"
    using st by (auto split: thief.splits if_splits)
  obtain cs1 b cs2 where cs: "cs = cs1 @ (i, b, k) # cs2" and c: "start = of_nat (claim_end cs1 R)"
    "cnt = b - claim_end cs1 R" "claim_end cs1 R < b" "R \<le> claim_end cs1 R" "b \<le> S"
    using copying_split [OF g th(1)] by blast
  define A where "A = claim_end cs1 R"
  have "read_slot (ring a) (of_nat (A + k)) = Inr (f (A + k))"
    using d(10) [of "A + k"] th(2) c d(8) by (simp add: A_def)
  then have a': "a' = a\<lparr>thieves := (thieves a)(i := Copying start cnt (Suc k)), handed_out := handed_out a @ [f (A + k)]\<rparr>"
    using st th c(1) by (simp add: A_def)
  define cs' where "cs' = cs1 @ (i, b, Suc k) # cs2"
  have ids: "i \<notin> fst ` set cs1" "i \<notin> fst ` set cs2" "map fst cs' = map fst cs"
    using d(2) by (simp_all add: cs cs'_def)
  have ok: "claims_ok cs' R S" using d(1) th(2) c by (simp add: cs cs'_def claims_ok_append)
  have th': "thieves a' j = t" if "(j, t) \<in> set (claim_thieves cs' R)" for j t
    using that d(3) [of j t] ids claim_thieves_copying [of j t] c(1,2)
    by (auto simp: cs cs'_def claim_thieves_append a')
  have up: "[A + k..<b] = (A + k) # [A + Suc k..<b]" using th(2) c by (simp add: A_def upt_conv_Cons)
  have un: "mset (uncopied cs R f) = add_mset (f (A + k)) (mset (uncopied cs' R f))"
    using up by (simp add: cs cs'_def uncopied_append A_def)
  have cpy: "j \<in> fst ` set cs'" if "is_copying (thieves a' j)" for j
    using that d(4) [of j] ids(3) by (cases "j = i") (auto simp: cs cs'_def a')
  have "arena_ghost a' R S T f cs'"
    using g ok th' ids(3) un cpy unfolding arena_ghost_def by (auto simp: a' split: option.splits)
  then show ?thesis by (rule arena_invI)
qed

lemma commit_step:
  assumes g: "arena_ghost a R S T f cs" and st: "arena_step (Commit i) a = Some a'"
  shows "arena_inv a'"
proof -
  note d = arena_ghostD [OF g]
  obtain start cnt k where th: "thieves a i = Copying start cnt k" "k = cnt"
    using st by (auto split: thief.splits if_splits)
  obtain cs1 b cs2 where cs: "cs = cs1 @ (i, b, k) # cs2" and c: "start = of_nat (claim_end cs1 R)"
    "cnt = b - claim_end cs1 R" "claim_end cs1 R < b" "R \<le> claim_end cs1 R" "b \<le> S"
    using copying_split [OF g th(1)] by blast
  define A where "A = claim_end cs1 R"
  have b: "start + of_nat cnt = of_nat b" using c by simp
  have "R < b" "b - R \<le> 256" using c d(7,8,9) by linarith+
  then have ne: "of_nat R \<noteq> (of_nat b :: u32)" using word_gap_eq [of R b] by auto
  have un: "unpack (q_head (ring a)) = (of_nat S, of_nat R)" by (simp add: d(6))
  have ct: "commit_try start (of_nat b) (ring a) = (if of_nat R = start
      then ((ring a)\<lparr>q_head := pack (of_nat S) (of_nat b)\<rparr>, True) else (ring a, False))"
    using ne un by (simp add: commit_try_def d(6))
  show ?thesis
  proof (cases "of_nat R = start")
    case False
    then have "a' = a" using st th b ct by simp
    then show ?thesis using g by (auto intro: arena_invI)
  next
    case True
    then have RA: "A = R" using word_gap_eq [of R A] c d(7,8,9) by (auto simp: A_def)
    have cs1: "cs1 = []"
    proof (cases cs1)
      case (Cons x xs)
      then have "R < fst (snd x)" "fst (snd x) \<le> A"
        using d(1) claims_ok_le by (auto simp: cs A_def claims_ok_append)
      then show ?thesis using RA by simp
    qed simp
    define q where "q = (ring a)\<lparr>q_head := pack (of_nat S) (of_nat b)\<rparr>"
    have a': "a' = a\<lparr>ring := q, thieves := (thieves a)(i := Looking)\<rparr>"
      using st th b ct True by (simp add: q_def)
    have ids: "i \<notin> fst ` set cs2" "distinct (map fst cs2)" using d(2) by (auto simp: cs)
    have ok: "claims_ok cs2 b S" using d(1) by (simp add: cs cs1)
    have th': "thieves a' j = t" if "(j, t) \<in> set (claim_thieves cs2 b)" for j t
      using that d(3) [of j t] ids claim_thieves_copying [OF that] by (auto simp: cs cs1 a')
    have cpy: "j \<in> fst ` set cs2" if "is_copying (thieves a' j)" for j
      using that d(4) [of j] by (cases "j = i") (auto simp: cs cs1 a')
    have unc: "uncopied cs R f = uncopied cs2 b f" using th(2) c(2,3) RA by (simp add: cs cs1 A_def)
    have "case popping a' of None \<Rightarrow> lq_rep (ring a') b S T f
      | Some t \<Rightarrow> t = of_nat T \<and> S < T \<and> q_tail (ring a') = of_nat (T - 1) \<and> lq_rep ((ring a')\<lparr>q_tail := of_nat T\<rparr>) b S T f"
      using d(11,12) c(3,5) RA by (cases "popping a") (auto simp: lq_rep_def a' q_def A_def)
    then have "arena_ghost a' b S T f cs2"
      using ok th' ids cpy unc d(5) unfolding arena_ghost_def by (auto simp: a')
    then show ?thesis by (rule arena_invI)
  qed
qed

lemma arena_step_inv:
  assumes "arena_inv a" "arena_step e a = Some a'" "claim_within e a"
  shows "arena_inv a'"
proof -
  obtain R S T f cs where g: "arena_ghost a R S T f cs" using assms(1) by (auto simp: arena_inv_def)
  show ?thesis
  proof (cases e)
    case (Push x) then show ?thesis using push_step [OF g] assms(2) by (auto intro: arena_invI)
  next
    case PopBegin then show ?thesis using pop_begin_step [OF g] assms(2) by (auto intro: arena_invI)
  next
    case PopEnd then show ?thesis using pop_end_step [OF g] assms(2) by simp
  next
    case (Load i rm)
    then show ?thesis using ghost_thief [OF g, of i "Loaded (q_head (ring a)) (q_tail (ring a)) rm"] assms(2)
      by (auto intro: arena_invI split: if_splits)
  next
    case (Claim i)
    then obtain sn t rm where th: "thieves a i = Loaded sn t rm" using assms(2) by (auto split: thief.splits)
    have idle: "arena_inv (a\<lparr>thieves := (thieves a)(i := Looking)\<rparr>)" using ghost_thief [OF g, of i Looking] th by (auto intro: arena_invI)
    show ?thesis
    proof (cases "steal_plan sn t rm")
      case None then show ?thesis using Claim th assms(2) idle by auto
    next
      case (Some p)
      obtain start cnt desired where p: "p = (start, cnt, desired)" by (cases p) auto
      show ?thesis
      proof (cases "q_head (ring a) = sn")
        case True
        then show ?thesis using claim_step [OF g th _ True] Some p Claim th assms(2,3)
          by (auto simp: LOCAL_QUEUE_CAPACITY_def intro!: arena_invI)
      next
        case False
        then show ?thesis using Claim th assms(2) idle Some p by auto
      qed
    qed
  next
    case (Copy i) then show ?thesis using copy_step [OF g] assms(2) by simp
  next
    case (Commit i) then show ?thesis using commit_step [OF g] assms(2) by simp
  qed
qed

lemma arena_run_inv:
  "arena_inv a \<Longrightarrow> arena_run es a = Some a' \<Longrightarrow> all_claims_within es a \<Longrightarrow> arena_inv a'"
  by (induction es arbitrary: a) (auto intro: arena_step_inv split: option.splits)

section \<open>Properties\<close>

text \<open>A queue with the given items.\<close>

definition filled :: "'a list \<Rightarrow> 'a local_queue" where
  "filled xs = fold lq_put xs local_new"

lemma filled_quiet: "length xs \<le> 256 \<Longrightarrow> quiet (filled xs) xs"
  unfolding filled_def by (induction xs rule: rev_induct) (simp_all add: lq_put_quiet)

text \<open>C14. With no steal in flight the ring with its wrapping counters is a list of at most 256 items:
  a push appends or hands the value back when full, the owner pops the last item, a thief takes the
  first half (at least one, at most what fits) into its own queue and gets the oldest item, and an
  overflowing push moves the older half to the overflow list and then succeeds. All of them return
  and no slot is read uninitialised.\<close>

theorem run_queue_refines_lists:
  assumes "quiet q (x # xs)" "quiet dst ys" "length ys < 256"
  shows "(if length (x # xs) = 256 then lq_push_back v q = Inl v
      else \<exists>q'. lq_push_back v q = Inr q' \<and> quiet q' (x # xs @ [v]))
    \<and> (\<exists>q'. lq_pop q = Inr (Some (last (x # xs)), q') \<and> quiet q' (butlast (x # xs)))
    \<and> (let c = steal_count (length (x # xs)) (256 - length ys) in
        \<exists>q' dst'. steal_into q dst = Some (Inr (Some x, q', dst'))
          \<and> quiet q' (drop c (x # xs)) \<and> quiet dst' (ys @ take (c - 1) xs))
    \<and> (length (x # xs) = 256 \<longrightarrow> (\<exists>q'. push_overflow v ov q = Some (Inr (q', ov @ x # rev (take 127 xs)))
          \<and> quiet q' (drop 128 (x # xs) @ [v])))"
proof -
  have "quiet q (butlast (x # xs) @ [last (x # xs)])"
    using assms(1) append_butlast_last_id [of "x # xs"] by simp
  from quiet_pop [OF this] quiet_push [OF assms(1), of v] quiet_steal [OF assms] overflow_full [OF assms(1), of v ov]
  show ?thesis by (simp only: Let_def list.size list.sel append_Cons add_Suc_right add_0_right) auto
qed

theorem run_queue_refines_lists_witness:
  "\<exists>q' dst'. steal_into (filled [11, 12, 13, 14, 15 :: nat]) (filled [19]) = Some (Inr (Some 11, q', dst'))
     \<and> quiet q' [13, 14, 15] \<and> quiet dst' [19, 12]"
proof -
  have c: "steal_count (length [11, 12, 13, 14, 15 :: nat]) (256 - length [19 :: nat]) = 2" by (simp add: steal_count_def)
  show ?thesis
    using run_queue_refines_lists [OF filled_quiet filled_quiet, of 11 "[12, 13, 14, 15 :: nat]" "[19]" 0 "[]", unfolded c]
    by (simp add: Let_def)
qed


text \<open>A thief claims two of four items while the owner pops; nothing is lost or doubled.\<close>

definition orderly_run :: "nat queue_event list" where
  "orderly_run = [Push 10, Push 11, Push 12, Push 13, Load 0 256, PopBegin, PopEnd, Claim 0, PopBegin, PopEnd,
     Copy 0, Copy 0, Commit 0, PopBegin, PopEnd]"


text \<open>The claim of a thief is decided from a tail it has read earlier, but its compare-exchange only
  checks the head. If the owner pops in between, which does not touch the head while more than one
  item is left, the claim covers a slot the owner has already taken: with four items and one thief
  the item 11 is handed out twice.\<close>

theorem stale_claim_delivers_twice:
  "\<exists>a. arena_run [Push 10, Push 11, Push 12, Push 13, Load 0 256, PopBegin, PopEnd, PopBegin, PopEnd,
      PopBegin, PopEnd, Claim 0, Copy 0, Copy 0] (arena_new :: nat arena) = Some a
    \<and> pushed a = [10, 11, 12, 13] \<and> handed_out a = [13, 12, 11, 10, 11]"
proof -
  let ?r = "arena_run [Push 10, Push 11, Push 12, Push 13, Load 0 256, PopBegin, PopEnd, PopBegin, PopEnd,
      PopBegin, PopEnd, Claim 0, Copy 0, Copy 0] (arena_new :: nat arena)"
  have "map_option (\<lambda>a. (pushed a, handed_out a)) ?r = Some ([10, 11, 12, 13], [13, 12, 11, 10, 11])" by code_simp
  then show ?thesis by auto
qed

end
