(* ===== verification/Semaphore.thy ===== *)
theory Semaphore
  imports Coop
begin

text \<open>
  The semaphore of \<open>sync/semaphore.rs\<close> and the mutex of \<open>sync/mutex.rs\<close> on top of it. The
  state mutex makes every operation atomic. An \<open>Acquire\<close> future is named by a number; its waiter
  node lives in a store, and the waiter list holds the names. \<open>sem_reach\<close> runs any number of
  futures, permits and callers against one semaphore.
\<close>

section \<open>Model\<close>

record sem_waiter =
  sw_permits :: nat
  sw_waker :: "waker option"
  sw_granted :: bool
  sw_linked :: bool

definition sem_waiter_new :: "nat \<Rightarrow> sem_waiter" where
  "sem_waiter_new n = \<lparr>sw_permits = n, sw_waker = None, sw_granted = False, sw_linked = False\<rparr>"

record semaphore =
  sm_permits :: nat
  sm_closed :: bool
  sm_waiters :: "nat list"
  sm_acq :: "nat \<Rightarrow> sem_waiter"

definition semaphore_new :: "nat \<Rightarrow> semaphore" where
  "semaphore_new n = \<lparr>sm_permits = n, sm_closed = False, sm_waiters = [], sm_acq = (\<lambda>_. sem_waiter_new 1)\<rparr>"

definition upd_acq :: "nat \<Rightarrow> (sem_waiter \<Rightarrow> sem_waiter) \<Rightarrow> semaphore \<Rightarrow> semaphore" where
  "upd_acq i f s = s\<lparr>sm_acq := (sm_acq s)(i := f (sm_acq s i))\<rparr>"

text \<open>The loop of \<open>release_locked\<close> over the waiter list, and the whole function.\<close>

primrec grant_loop :: "nat list \<Rightarrow> semaphore \<Rightarrow> semaphore \<times> waker list" where
  "grant_loop [] s = (s\<lparr>sm_waiters := []\<rparr>, [])"
| "grant_loop (i # is) s =
     (if sm_permits s < sw_permits (sm_acq s i) then (s\<lparr>sm_waiters := i # is\<rparr>, [])
      else
        let wk = sw_waker (sm_acq s i);
            s = s\<lparr>sm_permits := sm_permits s - sw_permits (sm_acq s i)\<rparr>;
            s = upd_acq i (\<lambda>w. w\<lparr>sw_granted := True, sw_waker := None, sw_linked := False\<rparr>) s;
            (s, ws) = grant_loop is s
        in (s, wakes_of wk @ ws))"

definition release_locked :: "nat \<Rightarrow> semaphore \<Rightarrow> semaphore \<times> waker list" where
  "release_locked n s =
     (let s = s\<lparr>sm_permits := usize_saturating_add (sm_permits s) n\<rparr> in grant_loop (sm_waiters s) s)"

text \<open>\<open>Inl ()\<close> is \<open>AcquireError\<close>, \<open>Inr n\<close> a permit for \<open>n\<close>.\<close>

definition acquire_body :: "nat \<Rightarrow> waker \<Rightarrow> semaphore \<Rightarrow> semaphore \<times> (unit + nat) poll \<times> waker list" where
  "acquire_body i cx s =
     (let w = sm_acq s i in
      if sw_granted w then (upd_acq i (\<lambda>w. w\<lparr>sw_granted := False\<rparr>) s, Ready (Inr (sw_permits w)), [])
      else if sm_closed s then
        ((if sw_linked w
          then upd_acq i (\<lambda>w. w\<lparr>sw_linked := False\<rparr>) (s\<lparr>sm_waiters := remove1 i (sm_waiters s)\<rparr>) else s),
         Ready (Inl ()), [])
      else if \<not> sw_linked w \<and> sm_waiters s = [] \<and> sw_permits w \<le> sm_permits s then
        (s\<lparr>sm_permits := sm_permits s - sw_permits w\<rparr>, Ready (Inr (sw_permits w)), [])
      else
        let s = upd_acq i (\<lambda>w. w\<lparr>sw_waker := Some cx\<rparr>) s;
            s = (if \<not> sw_linked w
                 then upd_acq i (\<lambda>w. w\<lparr>sw_linked := True\<rparr>) (s\<lparr>sm_waiters := sm_waiters s @ [i]\<rparr>) else s)
        in (s, Pending, []))"

definition acquire_poll ::
  "budget \<Rightarrow> nat \<Rightarrow> waker \<Rightarrow> semaphore \<Rightarrow> budget \<times> semaphore \<times> (unit + nat) poll \<times> waker list" where
  "acquire_poll b i cx s = coop_poll b cx s (acquire_body i cx s)"

definition acquire_drop :: "nat \<Rightarrow> semaphore \<Rightarrow> semaphore \<times> waker list" where
  "acquire_drop i s =
     (let w = sm_acq s i in
      if sw_linked w
      then (upd_acq i (\<lambda>w. w\<lparr>sw_linked := False\<rparr>) (s\<lparr>sm_waiters := remove1 i (sm_waiters s)\<rparr>), [])
      else if sw_granted w
      then release_locked (sw_permits w) (upd_acq i (\<lambda>w. w\<lparr>sw_granted := False\<rparr>) s)
      else (s, []))"

definition permit_drop :: "nat \<Rightarrow> semaphore \<Rightarrow> semaphore \<times> waker list" where
  "permit_drop n s = release_locked n s"

datatype sem_panic = ZeroPermits | MutexSemaphoreClosed

definition acquire_many :: "nat \<Rightarrow> sem_panic + sem_waiter" where
  "acquire_many n = (if n = 0 then Inl ZeroPermits else Inr (sem_waiter_new n))"

definition try_acquire_many :: "nat \<Rightarrow> semaphore \<Rightarrow> sem_panic + semaphore \<times> (unit + nat)" where
  "try_acquire_many n s =
     (if n = 0 then Inl ZeroPermits
      else if sm_closed s \<or> sm_waiters s \<noteq> [] \<or> sm_permits s < n then Inr (s, Inl ())
      else Inr (s\<lparr>sm_permits := sm_permits s - n\<rparr>, Inr n))"

definition add_permits :: "nat \<Rightarrow> semaphore \<Rightarrow> semaphore \<times> waker list" where
  "add_permits n s = (if n = 0 then (s, []) else release_locked n s)"

primrec close_loop :: "nat list \<Rightarrow> semaphore \<Rightarrow> semaphore \<times> waker list" where
  "close_loop [] s = (s\<lparr>sm_waiters := []\<rparr>, [])"
| "close_loop (i # is) s =
     (let wk = sw_waker (sm_acq s i);
          (s, ws) = close_loop is (upd_acq i (\<lambda>w. w\<lparr>sw_linked := False, sw_waker := None\<rparr>) s)
      in (s, wakes_of wk @ ws))"

definition sem_close :: "semaphore \<Rightarrow> semaphore \<times> waker list" where
  "sem_close s = (let s = s\<lparr>sm_closed := True\<rparr> in close_loop (sm_waiters s) s)"

text \<open>The mutex: a semaphore of one permit, never closed. The guard is the permit.\<close>

definition mutex_new :: semaphore where
  "mutex_new = semaphore_new 1"

definition mutex_lock_poll ::
  "budget \<Rightarrow> nat \<Rightarrow> waker \<Rightarrow> semaphore \<Rightarrow> sem_panic + budget \<times> semaphore \<times> nat poll \<times> waker list" where
  "mutex_lock_poll b i cx s =
     (case acquire_poll b i cx s of
        (b, s, Ready (Inr n), ws) \<Rightarrow> Inr (b, s, Ready n, ws)
      | (b, s, Ready (Inl _), ws) \<Rightarrow> Inl MutexSemaphoreClosed
      | (b, s, Pending, ws) \<Rightarrow> Inr (b, s, Pending, ws))"

definition mutex_try_lock :: "semaphore \<Rightarrow> semaphore \<times> nat option" where
  "mutex_try_lock s =
     (case try_acquire_many 1 s of
        Inr (s, Inr n) \<Rightarrow> (s, Some n)
      | Inr (s, Inl _) \<Rightarrow> (s, None)
      | Inl _ \<Rightarrow> (s, None))"

section \<open>All users of one semaphore\<close>

record sem_sys =
  ss_sem :: semaphore
  ss_live :: "nat set"
  ss_held :: "nat list"
  ss_total :: nat

definition take_result :: "(unit + nat) poll \<Rightarrow> nat list \<Rightarrow> nat list" where
  "take_result r hs = (case r of Ready (Inr n) \<Rightarrow> n # hs | _ \<Rightarrow> hs)"

text \<open>The argument \<open>cancels\<close> says whether futures that are still queued may be dropped.\<close>

inductive sem_reach :: "bool \<Rightarrow> nat \<Rightarrow> sem_sys \<Rightarrow> bool" for cancels :: bool and n0 :: nat where
  start: "n0 \<le> usize_max \<Longrightarrow> sem_reach cancels n0 \<lparr>ss_sem = semaphore_new n0, ss_live = {}, ss_held = [], ss_total = n0\<rparr>"
| acquire: "sem_reach cancels n0 y \<Longrightarrow> i \<notin> ss_live y \<Longrightarrow> acquire_many n = Inr w \<Longrightarrow>
    sem_reach cancels n0 (y\<lparr>ss_sem := (ss_sem y)\<lparr>sm_acq := (sm_acq (ss_sem y))(i := w)\<rparr>, ss_live := insert i (ss_live y)\<rparr>)"
| poll: "sem_reach cancels n0 y \<Longrightarrow> i \<in> ss_live y \<Longrightarrow> acquire_poll b i cx (ss_sem y) = (b', s, r, ws) \<Longrightarrow>
    sem_reach cancels n0 (y\<lparr>ss_sem := s, ss_held := take_result r (ss_held y)\<rparr>)"
| drop: "sem_reach cancels n0 y \<Longrightarrow> i \<in> ss_live y \<Longrightarrow> cancels \<or> \<not> sw_linked (sm_acq (ss_sem y) i) \<Longrightarrow>
    acquire_drop i (ss_sem y) = (s, ws) \<Longrightarrow> sem_reach cancels n0 (y\<lparr>ss_sem := s, ss_live := ss_live y - {i}\<rparr>)"
| release: "sem_reach cancels n0 y \<Longrightarrow> n \<in> set (ss_held y) \<Longrightarrow> permit_drop n (ss_sem y) = (s, ws) \<Longrightarrow>
    sem_reach cancels n0 (y\<lparr>ss_sem := s, ss_held := remove1 n (ss_held y)\<rparr>)"
| forget: "sem_reach cancels n0 y \<Longrightarrow> n \<in> set (ss_held y) \<Longrightarrow>
    sem_reach cancels n0 (y\<lparr>ss_held := remove1 n (ss_held y), ss_total := ss_total y - n\<rparr>)"
| try_now: "sem_reach cancels n0 y \<Longrightarrow> try_acquire_many n (ss_sem y) = Inr (s, r) \<Longrightarrow>
    sem_reach cancels n0 (y\<lparr>ss_sem := s, ss_held := take_result (Ready r) (ss_held y)\<rparr>)"
| add: "sem_reach cancels n0 y \<Longrightarrow> ss_total y + n \<le> usize_max \<Longrightarrow> add_permits n (ss_sem y) = (s, ws) \<Longrightarrow>
    sem_reach cancels n0 (y\<lparr>ss_sem := s, ss_total := ss_total y + n\<rparr>)"
| close: "sem_reach cancels n0 y \<Longrightarrow> sem_close (ss_sem y) = (s, ws) \<Longrightarrow> sem_reach cancels n0 (y\<lparr>ss_sem := s\<rparr>)"

section \<open>The grant loop\<close>

lemma upd_acq_simps [simp]:
  "sm_permits (upd_acq i f s) = sm_permits s" "sm_closed (upd_acq i f s) = sm_closed s"
  "sm_waiters (upd_acq i f s) = sm_waiters s" "sm_acq (upd_acq i f s) = (sm_acq s)(i := f (sm_acq s i))"
  by (simp_all add: upd_acq_def)

definition granted_waiter :: "sem_waiter \<Rightarrow> sem_waiter" where
  "granted_waiter w = w\<lparr>sw_granted := True, sw_waker := None, sw_linked := False\<rparr>"

lemma granted_waiter_simps [simp]:
  "sw_permits (granted_waiter w) = sw_permits w" "sw_granted (granted_waiter w)" "\<not> sw_linked (granted_waiter w)"
  by (simp_all add: granted_waiter_def)

text \<open>A prefix of the queue is granted, in order; the first waiter left wants more than is available.\<close>

definition grants :: "nat list \<Rightarrow> semaphore \<Rightarrow> semaphore \<Rightarrow> waker list \<Rightarrow> nat list \<Rightarrow> nat list \<Rightarrow> bool" where
  "grants is s s' ws gs rest \<longleftrightarrow> is = gs @ rest \<and> sm_waiters s' = rest \<and> sm_closed s' = sm_closed s
     \<and> sm_permits s = sm_permits s' + (\<Sum>i\<leftarrow>gs. sw_permits (sm_acq s i))
     \<and> sm_acq s' = (\<lambda>j. if j \<in> set gs then granted_waiter (sm_acq s j) else sm_acq s j)
     \<and> ws = concat (map (\<lambda>i. wakes_of (sw_waker (sm_acq s i))) gs)
     \<and> (rest \<noteq> [] \<longrightarrow> sm_permits s' < sw_permits (sm_acq s (hd rest)))"

lemma grant_loop_grants:
  "distinct is \<Longrightarrow> grant_loop is s = (s', ws) \<Longrightarrow> \<exists>gs rest. grants is s s' ws gs rest"
proof (induction "is" arbitrary: s s' ws)
  case Nil
  then show ?case by (intro exI [of _ "[]"]) (auto simp: grants_def)
next
  case (Cons i "is")
  show ?case
  proof (cases "sm_permits s < sw_permits (sm_acq s i)")
    case True
    then show ?thesis using Cons.prems by (intro exI [of _ "[]"] exI [of _ "i # is"]) (auto simp: grants_def)
  next
    case False
    define s1 where "s1 = upd_acq i granted_waiter (s\<lparr>sm_permits := sm_permits s - sw_permits (sm_acq s i)\<rparr>)"
    obtain s2 ws2 where l: "grant_loop is s1 = (s2, ws2)" by fastforce
    have r: "s' = s2" "ws = wakes_of (sw_waker (sm_acq s i)) @ ws2"
      using Cons.prems(2) False l by (simp_all add: s1_def granted_waiter_def [abs_def] Let_def)
    obtain gs rest where g: "grants is s1 s2 ws2 gs rest" using Cons.IH [OF _ l] Cons.prems(1) by auto
    have ni: "i \<notin> set gs" "rest \<noteq> [] \<longrightarrow> hd rest \<noteq> i" using Cons.prems(1) g by (auto simp: grants_def)
    have c: "map (\<lambda>j. sw_permits (sm_acq s1 j)) gs = map (\<lambda>j. sw_permits (sm_acq s j)) gs"
      "map (\<lambda>j. wakes_of (sw_waker (sm_acq s1 j))) gs = map (\<lambda>j. wakes_of (sw_waker (sm_acq s j))) gs"
      using ni by (auto simp: s1_def)
    note g = g [unfolded grants_def c]
    have "sm_acq s2 j = (if j \<in> set (i # gs) then granted_waiter (sm_acq s j) else sm_acq s j)" for j
      using g ni by (simp add: s1_def)
    moreover have "sm_permits s1 = sm_permits s - sw_permits (sm_acq s i)" "sm_closed s1 = sm_closed s"
      "rest \<noteq> [] \<longrightarrow> sm_acq s1 (hd rest) = sm_acq s (hd rest)" using ni by (simp_all add: s1_def)
    ultimately have "grants (i # is) s s' ws (i # gs) rest"
      unfolding grants_def r using g False by (auto simp: fun_eq_iff)
    then show ?thesis by blast
  qed
qed

lemma release_grants:
  assumes "distinct (sm_waiters s)" "release_locked n s = (s', ws)"
  shows "\<exists>gs rest. grants (sm_waiters s) (s\<lparr>sm_permits := usize_saturating_add (sm_permits s) n\<rparr>) s' ws gs rest"
  using grant_loop_grants [OF assms(1)] assms(2) by (simp add: release_locked_def)

lemma close_loop_effect:
  "distinct is \<Longrightarrow> close_loop is s = (s', ws) \<Longrightarrow> sm_waiters s' = [] \<and> sm_permits s' = sm_permits s \<and> sm_closed s' = sm_closed s
    \<and> sm_acq s' = (\<lambda>j. if j \<in> set is then (sm_acq s j)\<lparr>sw_linked := False, sw_waker := None\<rparr> else sm_acq s j)
    \<and> ws = concat (map (\<lambda>i. wakes_of (sw_waker (sm_acq s i))) is)"
proof (induction "is" arbitrary: s s' ws)
  case (Cons i "is")
  define s1 where "s1 = upd_acq i (\<lambda>w. w\<lparr>sw_linked := False, sw_waker := None\<rparr>) s"
  obtain s2 ws2 where l: "close_loop is s1 = (s2, ws2)" by fastforce
  show ?case using Cons.IH [OF _ l] Cons.prems l
    by (auto simp: s1_def Let_def fun_eq_iff intro!: arg_cong [where f = concat] map_cong)
qed auto

section \<open>Conservation of permits\<close>

definition granted_sum :: "semaphore \<Rightarrow> nat set \<Rightarrow> nat" where
  "granted_sum s live = (\<Sum>i\<in>live. if sw_granted (sm_acq s i) then sw_permits (sm_acq s i) else 0)"

text \<open>The invariant, with \<open>k\<close> permits on their way back to the semaphore.\<close>

definition sem_owing :: "nat \<Rightarrow> semaphore \<Rightarrow> nat set \<Rightarrow> nat list \<Rightarrow> nat \<Rightarrow> bool" where
  "sem_owing k s live held tot \<longleftrightarrow>
     finite live \<and> distinct (sm_waiters s) \<and> set (sm_waiters s) = {i. sw_linked (sm_acq s i)}
   \<and> (\<forall>i. sw_linked (sm_acq s i) \<longrightarrow> i \<in> live \<and> \<not> sw_granted (sm_acq s i))
   \<and> (\<forall>i. sw_granted (sm_acq s i) \<longrightarrow> i \<in> live)
   \<and> (sm_closed s \<longrightarrow> sm_waiters s = [])
   \<and> (\<forall>i\<in>live. 0 < sw_permits (sm_acq s i)) \<and> (\<forall>n\<in>set held. 0 < n)
   \<and> sm_permits s + granted_sum s live + sum_list held + k = tot \<and> tot \<le> usize_max"

definition sem_inv :: "sem_sys \<Rightarrow> bool" where
  "sem_inv y \<longleftrightarrow> sem_owing 0 (ss_sem y) (ss_live y) (ss_held y) (ss_total y)"

lemma granted_sum_fields [simp]:
  "granted_sum (s\<lparr>sm_permits := p\<rparr>) live = granted_sum s live" "granted_sum (s\<lparr>sm_waiters := ws\<rparr>) live = granted_sum s live"
  "granted_sum (s\<lparr>sm_closed := c\<rparr>) live = granted_sum s live"
  by (simp_all add: granted_sum_def cong: if_cong)

lemma granted_sum_grants:
  assumes "finite live" "set gs \<subseteq> live" "distinct gs" "\<forall>i\<in>set gs. \<not> sw_granted (acq i)"
    "sm_acq s' = (\<lambda>j. if j \<in> set gs then granted_waiter (acq j) else acq j)" "sm_acq s = acq"
  shows "granted_sum s' live = granted_sum s live + (\<Sum>i\<leftarrow>gs. sw_permits (acq i))"
proof -
  have "(\<Sum>i\<leftarrow>gs. sw_permits (acq i)) = (\<Sum>i\<in>live. if i \<in> set gs then sw_permits (acq i) else 0)"
    using assms(1,2,3) by (simp add: sum_list_distinct_conv_sum_set sum.If_cases Int_absorb1 Int_absorb2 inf.absorb2)
  then show ?thesis unfolding granted_sum_def assms(5,6)
    using assms(4) by (auto simp: sum.distrib [symmetric] intro!: sum.cong)
qed

lemma granted_sum_upd:
  assumes "finite live" "i \<in> live"
  shows "granted_sum s live = (if sw_granted (sm_acq s i) then sw_permits (sm_acq s i) else 0) + granted_sum s (live - {i})"
  unfolding granted_sum_def by (rule sum.remove [OF assms])

lemma granted_sum_frame: "(\<And>j. j \<in> live \<Longrightarrow> sm_acq s j = sm_acq t j) \<Longrightarrow> granted_sum s live = granted_sum t live"
  unfolding granted_sum_def by (auto intro!: sum.cong)

lemma release_owing:
  assumes o: "sem_owing k s live held tot" and r: "release_locked k s = (s', ws)"
  shows "sem_owing 0 s' live held tot" "sm_waiters s' \<noteq> [] \<Longrightarrow> sm_permits s' < sw_permits (sm_acq s' (hd (sm_waiters s')))"
proof -
  note I = o [unfolded sem_owing_def]
  have sat: "usize_saturating_add (sm_permits s) k = sm_permits s + k" using I by (simp add: usize_saturating_add_def)
  obtain gs rest where g: "grants (sm_waiters s) (s\<lparr>sm_permits := sm_permits s + k\<rparr>) s' ws gs rest"
    using release_grants [OF _ r] I unfolding sat by blast
  have w: "sm_waiters s = gs @ rest" and f: "sm_waiters s' = rest" "sm_closed s' = sm_closed s"
    "sm_permits s + k = sm_permits s' + (\<Sum>i\<leftarrow>gs. sw_permits (sm_acq s i))"
    "sm_acq s' = (\<lambda>j. if j \<in> set gs then granted_waiter (sm_acq s j) else sm_acq s j)"
    "rest \<noteq> [] \<longrightarrow> sm_permits s' < sw_permits (sm_acq s (hd rest))"
    using g by (simp_all add: grants_def cong: if_cong)
  have d: "distinct gs" "distinct rest" "set gs \<inter> set rest = {}" using I w by auto
  have lk: "\<forall>i\<in>set gs. sw_linked (sm_acq s i)" using I w by (metis UnCI mem_Collect_eq set_append)
  then have gl: "set gs \<subseteq> live" "\<forall>i\<in>set gs. \<not> sw_granted (sm_acq s i)" using I by auto
  have gsum: "granted_sum s' live = granted_sum s live + (\<Sum>i\<leftarrow>gs. sw_permits (sm_acq s i))"
    using I gl d(1) f(4) by (intro granted_sum_grants) auto
  have st: "set rest = {i. sw_linked (sm_acq s' i)}" using I w d(3) f(4) by (auto simp: set_eq_iff)
  show "sem_owing 0 s' live held tot" unfolding sem_owing_def
  proof (intro conjI)
    show "sm_permits s' + granted_sum s' live + sum_list held + 0 = tot" using I f(3) gsum by linarith
    show "set (sm_waiters s') = {i. sw_linked (sm_acq s' i)}" using st f(1) by simp
    show "\<forall>i. sw_linked (sm_acq s' i) \<longrightarrow> i \<in> live \<and> \<not> sw_granted (sm_acq s' i)" using I f(4) by simp
    show "\<forall>i. sw_granted (sm_acq s' i) \<longrightarrow> i \<in> live" using I f(4) gl(1) by auto
    show "\<forall>i\<in>live. 0 < sw_permits (sm_acq s' i)" using I f(4) by simp
    show "sm_closed s' \<longrightarrow> sm_waiters s' = []" using I w f(1,2) by auto
  qed (use I d f(1) in auto)
  show "sm_waiters s' \<noteq> [] \<Longrightarrow> sm_permits s' < sw_permits (sm_acq s' (hd (sm_waiters s')))"
    using f(1,4,5) d(3) by auto
qed

lemma owing_unlink:
  assumes "sem_owing k s live held tot" "sw_linked (sm_acq s i)"
  shows "sem_owing k (upd_acq i (\<lambda>w. w\<lparr>sw_linked := False\<rparr>) (s\<lparr>sm_waiters := remove1 i (sm_waiters s)\<rparr>)) live held tot"
proof -
  let ?s = "upd_acq i (\<lambda>w. w\<lparr>sw_linked := False\<rparr>) (s\<lparr>sm_waiters := remove1 i (sm_waiters s)\<rparr>)"
  have "granted_sum ?s live = granted_sum s live" unfolding granted_sum_def by (auto intro!: sum.cong)
  then show ?thesis using assms unfolding sem_owing_def by auto
qed

text \<open>Taking back a grant, and removing a future that holds none.\<close>

lemma owing_ungrant:
  assumes "sem_owing k s live held tot" "sw_granted (sm_acq s i)"
  shows "sem_owing (k + sw_permits (sm_acq s i)) (upd_acq i (\<lambda>w. w\<lparr>sw_granted := False\<rparr>) s) live held tot"
proof -
  let ?s = "upd_acq i (\<lambda>w. w\<lparr>sw_granted := False\<rparr>) s"
  have i: "finite live" "i \<in> live" using assms by (auto simp: sem_owing_def)
  have "granted_sum ?s (live - {i}) = granted_sum s (live - {i})" by (rule granted_sum_frame) simp
  then have "granted_sum s live = sw_permits (sm_acq s i) + granted_sum ?s live"
    using granted_sum_upd [OF i, of s] granted_sum_upd [OF i, of ?s] assms(2) by simp
  then show ?thesis using assms unfolding sem_owing_def by auto
qed

lemma owing_forget_future:
  assumes "sem_owing k s live held tot" "\<not> sw_linked (sm_acq s i)" "\<not> sw_granted (sm_acq s i)"
  shows "sem_owing k s (live - {i}) held tot"
proof (cases "i \<in> live")
  case True
  have "finite live" using assms(1) by (simp add: sem_owing_def)
  from granted_sum_upd [OF this True, of s] assms show ?thesis unfolding sem_owing_def by auto
next
  case False
  then show ?thesis using assms(1) by simp
qed

section \<open>Every step keeps the account\<close>

lemma body_inv:
  assumes o: "sem_owing 0 s live held tot" and i: "i \<in> live" and b: "acquire_body i cx s = (s', r, ws)"
  shows "sem_owing 0 s' live (take_result r held) tot"
proof -
  let ?w = "sm_acq s i"
  have fin: "finite live" and pos: "0 < sw_permits ?w" using o i by (auto simp: sem_owing_def)
  consider (granted) "sw_granted ?w" | (closed) "\<not> sw_granted ?w" "sm_closed s"
    | (fast) "\<not> sw_granted ?w" "\<not> sm_closed s" "\<not> sw_linked ?w" "sm_waiters s = []" "sw_permits ?w \<le> sm_permits s"
    | (linked) "\<not> sw_granted ?w" "\<not> sm_closed s" "sw_linked ?w"
    | (enq) "\<not> sw_granted ?w" "\<not> sm_closed s" "\<not> sw_linked ?w" "\<not> (sm_waiters s = [] \<and> sw_permits ?w \<le> sm_permits s)"
    by blast
  then show ?thesis
  proof cases
    case granted
    then have "s' = upd_acq i (\<lambda>w. w\<lparr>sw_granted := False\<rparr>) s" "r = Ready (Inr (sw_permits ?w))"
      using b by (auto simp: acquire_body_def Let_def)
    then show ?thesis using owing_ungrant [OF o granted] pos unfolding sem_owing_def by (simp add: take_result_def)
  next
    case closed
    then show ?thesis using b o owing_unlink [OF o, of i] by (auto simp: acquire_body_def take_result_def Let_def)
  next
    case fast
    then have "s' = s\<lparr>sm_permits := sm_permits s - sw_permits ?w\<rparr>" "r = Ready (Inr (sw_permits ?w))"
      using b by (auto simp: acquire_body_def Let_def)
    then show ?thesis using o fast pos unfolding sem_owing_def by (auto simp: take_result_def)
  next
    case linked
    then have s': "s' = upd_acq i (\<lambda>w. w\<lparr>sw_waker := Some cx\<rparr>) s" "r = Pending" using b by (auto simp: acquire_body_def Let_def)
    have "granted_sum s' live = granted_sum s live" unfolding granted_sum_def s' by (auto intro!: sum.cong)
    then show ?thesis using o s' unfolding sem_owing_def by (auto simp: take_result_def)
  next
    case enq
    then have s': "s' = upd_acq i (\<lambda>w. w\<lparr>sw_linked := True\<rparr>)
        ((upd_acq i (\<lambda>w. w\<lparr>sw_waker := Some cx\<rparr>) s)\<lparr>sm_waiters := sm_waiters s @ [i]\<rparr>)" "r = Pending"
      using b by (auto simp: acquire_body_def Let_def split: if_splits)
    have "granted_sum s' live = granted_sum s live" unfolding granted_sum_def s' by (auto intro!: sum.cong)
    then show ?thesis using o i s' enq unfolding sem_owing_def by (auto simp: take_result_def)
  qed
qed

lemma drop_inv:
  assumes o: "sem_owing 0 s live held tot" and d: "acquire_drop i s = (s', ws)"
  shows "sem_owing 0 s' (live - {i}) held tot"
proof -
  let ?w = "sm_acq s i"
  consider (linked) "sw_linked ?w" | (granted) "\<not> sw_linked ?w" "sw_granted ?w" | (idle) "\<not> sw_linked ?w" "\<not> sw_granted ?w"
    by blast
  then show ?thesis
  proof cases
    case linked
    then have s': "s' = upd_acq i (\<lambda>w. w\<lparr>sw_linked := False\<rparr>) (s\<lparr>sm_waiters := remove1 i (sm_waiters s)\<rparr>)"
      using d by (simp add: acquire_drop_def)
    have "\<not> sw_granted ?w" using o linked by (auto simp: sem_owing_def)
    then show ?thesis using owing_forget_future [OF owing_unlink [OF o linked], of i] s' by simp
  next
    case granted
    let ?u = "upd_acq i (\<lambda>w. w\<lparr>sw_granted := False\<rparr>) s"
    have "sem_owing (sw_permits ?w) ?u (live - {i}) held tot"
      using owing_forget_future [OF owing_ungrant [OF o granted(2)], of i] granted by simp
    moreover have "release_locked (sw_permits ?w) ?u = (s', ws)" using d granted by (simp add: acquire_drop_def)
    ultimately show ?thesis by (rule release_owing(1))
  next
    case idle
    then show ?thesis using owing_forget_future [OF o, of i] d by (simp add: acquire_drop_def)
  qed
qed

lemma close_inv:
  assumes o: "sem_owing 0 s live held tot" and c: "sem_close s = (s', ws)"
  shows "sem_owing 0 s' live held tot"
proof -
  have d: "distinct (sm_waiters s)" using o by (simp add: sem_owing_def)
  have l: "close_loop (sm_waiters s) (s\<lparr>sm_closed := True\<rparr>) = (s', ws)"
    using c by (simp add: sem_close_def Let_def)
  note e0 = close_loop_effect [OF d l]
  have e: "sm_waiters s' = []" "sm_permits s' = sm_permits s" "sm_closed s'" using e0 by simp_all
  have acq: "sm_acq s' j = (if j \<in> set (sm_waiters s) then (sm_acq s j)\<lparr>sw_linked := False, sw_waker := None\<rparr> else sm_acq s j)" for j
    using e0 by simp
  have "granted_sum s' live = granted_sum s live" unfolding granted_sum_def acq by (auto intro!: sum.cong)
  then show ?thesis using o e acq unfolding sem_owing_def by auto
qed

lemma sem_reach_inv: "sem_reach cancels n0 y \<Longrightarrow> sem_inv y"
proof (induction rule: sem_reach.induct)
  case start
  then show ?case by (simp add: sem_inv_def sem_owing_def semaphore_new_def sem_waiter_new_def granted_sum_def)
next
  case (acquire y i n w)
  then have w: "w = sem_waiter_new n" "0 < n" by (auto simp: acquire_many_def split: if_splits)
  have o: "sem_owing 0 (ss_sem y) (ss_live y) (ss_held y) (ss_total y)" using acquire.IH by (simp add: sem_inv_def)
  let ?s = "(ss_sem y)\<lparr>sm_acq := (sm_acq (ss_sem y))(i := w)\<rparr>"
  have "granted_sum ?s (insert i (ss_live y)) = granted_sum (ss_sem y) (ss_live y)"
    using o acquire.hyps(2) unfolding granted_sum_def
    by (auto simp: sem_owing_def w(1) sem_waiter_new_def intro!: sum.cong)
  then show ?case using o acquire.hyps(2) w unfolding sem_inv_def sem_owing_def
    by (auto simp: sem_waiter_new_def)
next
  case (poll y i b cx b' s r ws)
  have o: "sem_owing 0 (ss_sem y) (ss_live y) (ss_held y) (ss_total y)" using poll.IH by (simp add: sem_inv_def)
  obtain s1 r1 ws1 where bd: "acquire_body i cx (ss_sem y) = (s1, r1, ws1)" by (cases "acquire_body i cx (ss_sem y)") auto
  have "s = ss_sem y \<and> r = Pending \<or> s = s1 \<and> r = r1"
    using coop_poll_cases [OF poll.hyps(3) [unfolded acquire_poll_def]] bd by auto
  then show ?case using o body_inv [OF o poll.hyps(2) bd] by (auto simp: sem_inv_def take_result_def)
next
  case (drop y i s ws)
  then show ?case using drop_inv by (auto simp: sem_inv_def)
next
  case (release y n s ws)
  have "sem_owing n (ss_sem y) (ss_live y) (remove1 n (ss_held y)) (ss_total y)"
    using release.IH release.hyps(2) sum_list_map_remove1 [OF release.hyps(2), of "\<lambda>x. x"]
    by (auto simp: sem_inv_def sem_owing_def dest: subsetD [OF set_remove1_subset])
  then show ?case using release_owing(1) release.hyps(3) by (auto simp: sem_inv_def permit_drop_def)
next
  case (forget y n)
  then show ?case using sum_list_map_remove1 [OF forget.hyps(2), of "\<lambda>x. x"]
    by (auto simp: sem_inv_def sem_owing_def dest: subsetD [OF set_remove1_subset])
next
  case (try_now y n s r)
  then show ?case by (auto simp: sem_inv_def sem_owing_def try_acquire_many_def take_result_def split: if_splits)
next
  case (add y n s ws)
  have "sem_owing n (ss_sem y) (ss_live y) (ss_held y) (ss_total y + n)"
    using add.IH add.hyps(2) by (simp add: sem_inv_def sem_owing_def)
  then show ?case using release_owing(1) [of n "ss_sem y"] add.hyps(3)
    by (auto simp: sem_inv_def add_permits_def split: if_splits)
next
  case (close y s ws)
  then show ?case using close_inv by (auto simp: sem_inv_def)
qed

section \<open>No waiter is passed over\<close>

definition head_blocked :: "semaphore \<Rightarrow> bool" where
  "head_blocked s \<longleftrightarrow> (sm_waiters s \<noteq> [] \<longrightarrow> sm_permits s < sw_permits (sm_acq s (hd (sm_waiters s))))"

lemma head_linked:
  "sem_owing k s live held tot \<Longrightarrow> sm_waiters s \<noteq> [] \<Longrightarrow> sw_linked (sm_acq s (hd (sm_waiters s))) \<and> hd (sm_waiters s) \<in> live"
  unfolding sem_owing_def by (metis hd_in_set mem_Collect_eq)

lemma body_head_blocked:
  assumes o: "sem_owing 0 s live held tot" and hb: "head_blocked s" and b: "acquire_body i cx s = (s', r, ws)"
  shows "head_blocked s'"
  using b hb head_linked [OF o] o
  by (auto simp: acquire_body_def head_blocked_def Let_def sem_owing_def hd_append split: if_splits)

lemma poll_cases:
  assumes "acquire_poll b i cx s = (b', s', r, ws)"
  shows "s' = s \<and> r = Pending \<or> (\<exists>ws1. acquire_body i cx s = (s', r, ws1))"
  using coop_poll_cases [OF assms [unfolded acquire_poll_def]] by blast

lemma close_empties: "sem_close s = (s', ws) \<Longrightarrow> sm_waiters s' = []"
proof -
  have "close_loop is t = (t', us) \<Longrightarrow> sm_waiters t' = []" for "is" t t' us
    by (induction "is" arbitrary: t us) (auto simp: Let_def split: prod.splits)
  then show "sem_close s = (s', ws) \<Longrightarrow> sm_waiters s' = []" by (auto simp: sem_close_def Let_def)
qed

lemma sem_reach_head_blocked: "sem_reach cancels n0 y \<Longrightarrow> \<not> cancels \<Longrightarrow> head_blocked (ss_sem y)"
proof (induction rule: sem_reach.induct)
  case start
  then show ?case by (simp add: head_blocked_def semaphore_new_def)
next
  case (acquire y i n w)
  then show ?case using sem_reach_inv [OF acquire.hyps(1)] head_linked [of 0 "ss_sem y"]
    by (auto simp: head_blocked_def sem_inv_def)
next
  case (poll y i b cx b' s r ws)
  then show ?case using sem_reach_inv [OF poll.hyps(1)] body_head_blocked poll_cases [OF poll.hyps(3)]
    by (auto simp: sem_inv_def)
next
  case (drop y i s ws)
  let ?s = "ss_sem y"
  have o: "sem_owing 0 ?s (ss_live y) (ss_held y) (ss_total y)" using sem_reach_inv [OF drop.hyps(1)] by (simp add: sem_inv_def)
  have l: "\<not> sw_linked (sm_acq ?s i)" using drop by simp
  show ?case
  proof (cases "sw_granted (sm_acq ?s i)")
    case True
    have "release_locked (sw_permits (sm_acq ?s i)) (upd_acq i (\<lambda>w. w\<lparr>sw_granted := False\<rparr>) ?s) = (s, ws)"
      using drop.hyps(4) l True by (simp add: acquire_drop_def)
    from release_owing(2) [OF _ this] owing_ungrant [OF o True] show ?thesis by (simp add: head_blocked_def)
  next
    case False
    then show ?thesis using drop l by (simp add: acquire_drop_def)
  qed
next
  case (release y n s ws)
  have "sem_owing n (ss_sem y) (ss_live y) (remove1 n (ss_held y)) (ss_total y)"
    using sem_reach_inv [OF release.hyps(1)] release.hyps(2) sum_list_map_remove1 [OF release.hyps(2), of "\<lambda>x. x"]
    by (auto simp: sem_inv_def sem_owing_def dest: subsetD [OF set_remove1_subset])
  from release_owing(2) [OF this] release.hyps(3) show ?case by (simp add: head_blocked_def permit_drop_def)
next
  case (forget y n)
  then show ?case by simp
next
  case (try_now y n s r)
  then show ?case by (auto simp: head_blocked_def try_acquire_many_def split: if_splits)
next
  case (add y n s ws)
  have "sem_owing n (ss_sem y) (ss_live y) (ss_held y) (ss_total y + n)"
    using sem_reach_inv [OF add.hyps(1)] add.hyps(2) by (simp add: sem_inv_def sem_owing_def)
  from release_owing(2) [OF this] add show ?case by (auto simp: head_blocked_def add_permits_def split: if_splits)
next
  case (close y s ws)
  then show ?case using close_empties by (simp add: head_blocked_def)
qed

section \<open>Permit pools and the mutex\<close>

locale permit_pool =
  fixes reach :: "'s \<Rightarrow> bool"
    and free :: "'s \<Rightarrow> nat"
    and held :: "'s \<Rightarrow> nat list"
    and capacity :: "'s \<Rightarrow> nat"
  assumes held_pos: "reach s \<Longrightarrow> n \<in> set (held s) \<Longrightarrow> 0 < n"
    and within_capacity: "reach s \<Longrightarrow> free s + sum_list (held s) \<le> capacity s"
begin

lemma holders_bounded: "reach s \<Longrightarrow> length (held s) \<le> capacity s"
proof -
  assume r: "reach s"
  have "\<forall>n\<in>set xs. 0 < n \<Longrightarrow> length xs \<le> sum_list xs" for xs :: "nat list"
    by (induction xs) auto
  then show ?thesis using held_pos [OF r] within_capacity [OF r] by (meson add_leE order_trans)
qed

end

interpretation sem: permit_pool "sem_reach cancels n0" "\<lambda>y. sm_permits (ss_sem y)" ss_held ss_total
proof
  fix y n assume "sem_reach cancels n0 y" "n \<in> set (ss_held y)"
  then show "0 < n" using sem_reach_inv by (auto simp: sem_inv_def sem_owing_def)
next
  fix y assume "sem_reach cancels n0 y"
  then show "sm_permits (ss_sem y) + sum_list (ss_held y) \<le> ss_total y"
    using sem_reach_inv by (fastforce simp: sem_inv_def sem_owing_def)
qed

text \<open>The users of one mutex: \<open>lock\<close> futures, \<open>try_lock\<close>, and guards that are dropped.\<close>

inductive mutex_reach :: "sem_sys \<Rightarrow> bool" where
  start: "mutex_reach \<lparr>ss_sem = mutex_new, ss_live = {}, ss_held = [], ss_total = 1\<rparr>"
| lock: "mutex_reach y \<Longrightarrow> i \<notin> ss_live y \<Longrightarrow> acquire_many 1 = Inr w \<Longrightarrow>
    mutex_reach (y\<lparr>ss_sem := (ss_sem y)\<lparr>sm_acq := (sm_acq (ss_sem y))(i := w)\<rparr>, ss_live := insert i (ss_live y)\<rparr>)"
| lock_poll: "mutex_reach y \<Longrightarrow> i \<in> ss_live y \<Longrightarrow> mutex_lock_poll b i cx (ss_sem y) = Inr (b', s, r, ws) \<Longrightarrow>
    mutex_reach (y\<lparr>ss_sem := s, ss_held := (case r of Ready n \<Rightarrow> n # ss_held y | Pending \<Rightarrow> ss_held y)\<rparr>)"
| lock_drop: "mutex_reach y \<Longrightarrow> i \<in> ss_live y \<Longrightarrow> acquire_drop i (ss_sem y) = (s, ws) \<Longrightarrow>
    mutex_reach (y\<lparr>ss_sem := s, ss_live := ss_live y - {i}\<rparr>)"
| try_lock: "mutex_reach y \<Longrightarrow> mutex_try_lock (ss_sem y) = (s, r) \<Longrightarrow>
    mutex_reach (y\<lparr>ss_sem := s, ss_held := (case r of Some n \<Rightarrow> n # ss_held y | None \<Rightarrow> ss_held y)\<rparr>)"
| unlock: "mutex_reach y \<Longrightarrow> n \<in> set (ss_held y) \<Longrightarrow> permit_drop n (ss_sem y) = (s, ws) \<Longrightarrow>
    mutex_reach (y\<lparr>ss_sem := s, ss_held := remove1 n (ss_held y)\<rparr>)"

lemma grant_loop_keeps:
  "grant_loop is s = (s', ws) \<Longrightarrow> sw_permits (sm_acq s' j) = sw_permits (sm_acq s j) \<and> sm_closed s' = sm_closed s"
proof (induction "is" arbitrary: s ws)
  case (Cons i "is")
  show ?case
  proof (cases "sm_permits s < sw_permits (sm_acq s i)")
    case True
    then show ?thesis using Cons.prems by auto
  next
    case False
    then show ?thesis using Cons by (fastforce simp: Let_def split: prod.splits)
  qed
qed auto

lemma release_keeps:
  assumes "release_locked n s = (s', ws)"
  shows "sw_permits (sm_acq s' j) = sw_permits (sm_acq s j) \<and> sm_closed s' = sm_closed s"
  using grant_loop_keeps [of "sm_waiters s" "s\<lparr>sm_permits := usize_saturating_add (sm_permits s) n\<rparr>" s' ws j] assms
  by (simp add: release_locked_def Let_def)

lemma body_keeps:
  "acquire_body i cx s = (s', r, ws) \<Longrightarrow> sw_permits (sm_acq s' j) = sw_permits (sm_acq s j) \<and> sm_closed s' = sm_closed s
     \<and> (\<forall>n. r = Ready (Inr n) \<longrightarrow> n = sw_permits (sm_acq s i)) \<and> (r = Ready (Inl ()) \<longrightarrow> sm_closed s)"
  by (auto simp: acquire_body_def Let_def split: if_splits)

lemma drop_keeps:
  "acquire_drop i s = (s', ws) \<Longrightarrow> sw_permits (sm_acq s' j) = sw_permits (sm_acq s j) \<and> sm_closed s' = sm_closed s"
  using release_keeps [of "sw_permits (sm_acq s i)" "upd_acq i (\<lambda>w. w\<lparr>sw_granted := False\<rparr>) s" s' ws j]
  by (auto simp: acquire_drop_def Let_def split: if_splits)

definition mutex_ok :: "sem_sys \<Rightarrow> bool" where
  "mutex_ok y \<longleftrightarrow> ss_total y = 1 \<and> \<not> sm_closed (ss_sem y) \<and> (\<forall>i\<in>ss_live y. sw_permits (sm_acq (ss_sem y) i) = 1)
     \<and> (sm_waiters (ss_sem y) \<noteq> [] \<longrightarrow> sm_permits (ss_sem y) = 0)"

lemma mutex_head:
  assumes "sem_owing k s live held tot" "\<forall>i\<in>live. sw_permits (sm_acq s i) = 1"
  shows "head_blocked s \<longleftrightarrow> (sm_waiters s \<noteq> [] \<longrightarrow> sm_permits s = 0)"
  using head_linked [OF assms(1)] assms(2) by (auto simp: head_blocked_def)

lemma drop_mutex_head:
  assumes o: "sem_owing 0 s live held tot" and one: "\<forall>i\<in>live. sw_permits (sm_acq s i) = 1"
    and w: "sm_waiters s \<noteq> [] \<longrightarrow> sm_permits s = 0" and d: "acquire_drop i s = (s', ws)"
  shows "sm_waiters s' \<noteq> [] \<longrightarrow> sm_permits s' = 0"
proof (cases "\<not> sw_linked (sm_acq s i) \<and> sw_granted (sm_acq s i)")
  case True
  let ?u = "upd_acq i (\<lambda>w. w\<lparr>sw_granted := False\<rparr>) s"
  have r: "release_locked (sw_permits (sm_acq s i)) ?u = (s', ws)" using d True by (simp add: acquire_drop_def)
  have ou: "sem_owing (sw_permits (sm_acq s i)) ?u live held tot" using owing_ungrant [OF o, of i] True by simp
  have "\<forall>j\<in>live. sw_permits (sm_acq s' j) = 1" using release_keeps [OF r] one by simp
  then show ?thesis using mutex_head [OF release_owing(1) [OF ou r]] release_owing(2) [OF ou r] by (simp add: head_blocked_def)
next
  case False
  then show ?thesis using d w by (auto simp: acquire_drop_def Let_def split: if_splits)
qed

lemma mutex_reach_ok: "mutex_reach y \<Longrightarrow> sem_reach True 1 y \<and> mutex_ok y"
proof (induction rule: mutex_reach.induct)
  case start
  then show ?case using sem_reach.start [of 1 True] by (simp add: mutex_ok_def mutex_new_def semaphore_new_def usize_max_def)
next
  case (lock y i w)
  have "sem_inv y" using lock.IH sem_reach_inv by blast
  then have "w = sem_waiter_new 1" using lock.hyps(3) by (simp add: acquire_many_def)
  then show ?case using lock sem_reach.acquire [of True 1 y i 1 w] by (auto simp: mutex_ok_def sem_waiter_new_def)
next
  case (lock_poll y i b cx b' s r ws)
  obtain b1 s1 r1 ws1 where p: "acquire_poll b i cx (ss_sem y) = (b1, s1, r1, ws1)" by (cases "acquire_poll b i cx (ss_sem y)") auto
  have s: "s = s1" "take_result r1 (ss_held y) = (case r of Ready n \<Rightarrow> n # ss_held y | Pending \<Rightarrow> ss_held y)"
    using lock_poll.hyps(3) p by (auto simp: mutex_lock_poll_def take_result_def split: poll.splits sum.splits)
  have re: "sem_reach True 1 (y\<lparr>ss_sem := s, ss_held := take_result r1 (ss_held y)\<rparr>)"
    using sem_reach.poll [OF _ lock_poll.hyps(2) p] lock_poll.IH s by simp
  have o: "sem_owing 0 (ss_sem y) (ss_live y) (ss_held y) (ss_total y)"
    using sem_reach_inv lock_poll.IH by (auto simp: sem_inv_def)
  have m: "mutex_ok y" using lock_poll.IH by simp
  have "mutex_ok (y\<lparr>ss_sem := s, ss_held := take_result r1 (ss_held y)\<rparr>)"
  proof (cases "s = ss_sem y")
    case True
    then show ?thesis using m by (simp add: mutex_ok_def)
  next
    case False
    then obtain ws2 where bd: "acquire_body i cx (ss_sem y) = (s, r1, ws2)" using poll_cases [OF p] s(1) by auto
    have "head_blocked (ss_sem y)" using mutex_head [OF o] m by (simp add: mutex_ok_def)
    then have "head_blocked s" by (rule body_head_blocked [OF o _ bd])
    moreover have "\<forall>j\<in>ss_live y. sw_permits (sm_acq s j) = 1" using body_keeps [OF bd] m by (simp add: mutex_ok_def)
    ultimately show ?thesis
      using mutex_head [OF body_inv [OF o lock_poll.hyps(2) bd]] body_keeps [OF bd] m by (simp add: mutex_ok_def)
  qed
  then show ?case using re s by simp
next
  case (lock_drop y i s ws)
  have o: "sem_owing 0 (ss_sem y) (ss_live y) (ss_held y) (ss_total y)"
    using sem_reach_inv lock_drop.IH by (auto simp: sem_inv_def)
  have "mutex_ok (y\<lparr>ss_sem := s, ss_live := ss_live y - {i}\<rparr>)"
    using drop_mutex_head [OF o _ _ lock_drop.hyps(3)] drop_keeps [OF lock_drop.hyps(3)] lock_drop.IH by (simp add: mutex_ok_def)
  then show ?case using sem_reach.drop [of True 1 y i s ws] lock_drop by simp
next
  case (try_lock y s r)
  have "\<exists>s1 r1. try_acquire_many 1 (ss_sem y) = Inr (s1, r1)" by (simp add: try_acquire_many_def)
  then obtain s1 r1 where t: "try_acquire_many 1 (ss_sem y) = Inr (s1, r1)" by blast
  then have s: "s = s1" "take_result (Ready r1) (ss_held y) = (case r of Some n \<Rightarrow> n # ss_held y | None \<Rightarrow> ss_held y)"
    using try_lock.hyps(2) by (auto simp: mutex_try_lock_def take_result_def split: sum.splits)
  have "mutex_ok (y\<lparr>ss_sem := s, ss_held := take_result (Ready r1) (ss_held y)\<rparr>)"
    using t try_lock.IH s(1) by (auto simp: mutex_ok_def try_acquire_many_def split: if_splits)
  then show ?case using sem_reach.try_now [of True 1 y 1 s1 r1] t try_lock.IH s by simp
next
  case (unlock y n s ws)
  have o: "sem_owing n (ss_sem y) (ss_live y) (remove1 n (ss_held y)) (ss_total y)"
    using sem_reach_inv [of True 1 y] unlock.IH unlock.hyps(2) sum_list_map_remove1 [OF unlock.hyps(2), of "\<lambda>x. x"]
    by (auto simp: sem_inv_def sem_owing_def dest: subsetD [OF set_remove1_subset])
  have r: "release_locked n (ss_sem y) = (s, ws)" using unlock.hyps(3) by (simp add: permit_drop_def)
  have one: "\<forall>j\<in>ss_live y. sw_permits (sm_acq s j) = 1" using release_keeps [OF r] unlock.IH by (simp add: mutex_ok_def)
  have "mutex_ok (y\<lparr>ss_sem := s, ss_held := remove1 n (ss_held y)\<rparr>)"
    using mutex_head [OF release_owing(1) [OF o r] one] release_owing(2) [OF o r] one release_keeps [OF r] unlock.IH
    by (auto simp: mutex_ok_def head_blocked_def)
  then show ?case using sem_reach.release [of True 1 y n s ws] unlock by simp
qed

section \<open>Properties\<close>


text \<open>Two permits wanted, one there, and a second future that wants one: both queue up.\<close>

definition contended :: sem_sys where
  "contended = \<lparr>ss_sem = \<lparr>sm_permits = 1, sm_closed = False, sm_waiters = [5, 6],
       sm_acq = (\<lambda>_. sem_waiter_new 1)
         (5 := \<lparr>sw_permits = 2, sw_waker = Some 50, sw_granted = False, sw_linked = True\<rparr>,
          6 := \<lparr>sw_permits = 1, sw_waker = Some 60, sw_granted = False, sw_linked = True\<rparr>)\<rparr>,
     ss_live = {5, 6}, ss_held = [], ss_total = 1\<rparr>"

definition queue_of :: "nat list \<Rightarrow> (nat \<Rightarrow> sem_waiter) \<Rightarrow> nat set \<Rightarrow> sem_sys" where
  "queue_of ws f live = \<lparr>ss_sem = \<lparr>sm_permits = 1, sm_closed = False, sm_waiters = ws, sm_acq = f\<rparr>,
     ss_live = live, ss_held = [], ss_total = 1\<rparr>"

lemma contended_reach: "sem_reach cancels 1 contended"
proof -
  define q where "q = (\<lambda>p w l. \<lparr>sw_permits = p, sw_waker = w, sw_granted = False, sw_linked = l\<rparr>)"
  define f where "f = (\<lambda>_::nat. sem_waiter_new 1)"
  have "sem_reach cancels 1 \<lparr>ss_sem = semaphore_new 1, ss_live = {}, ss_held = [], ss_total = 1\<rparr>"
    by (rule sem_reach.start) (simp add: usize_max_def)
  from sem_reach.acquire [OF this, of 5 2] have 1: "sem_reach cancels 1 (queue_of [] (f(5 := q 2 None False)) {5})"
    by (simp add: queue_of_def f_def q_def acquire_many_def semaphore_new_def sem_waiter_new_def)
  have 2: "sem_reach cancels 1 (queue_of [5] (f(5 := q 2 (Some 50) True)) {5})"
    using sem_reach.poll [OF 1, of 5 None 50]
    by (simp add: queue_of_def q_def acquire_poll_def acquire_body_def coop_poll_def take_result_def upd_acq_def)
  have 3: "sem_reach cancels 1 (queue_of [5] (f(5 := q 2 (Some 50) True, 6 := q 1 None False)) {5, 6})"
    using sem_reach.acquire [OF 2, of 6 1] by (simp add: queue_of_def q_def acquire_many_def sem_waiter_new_def insert_commute)
  have "sem_reach cancels 1 (queue_of [5, 6] (f(5 := q 2 (Some 50) True, 6 := q 1 (Some 60) True)) {5, 6})"
    using sem_reach.poll [OF 3, of 6 None 60]
    by (simp add: queue_of_def q_def acquire_poll_def acquire_body_def coop_poll_def take_result_def upd_acq_def)
  then show ?thesis by (simp add: contended_def queue_of_def q_def f_def)
qed


text \<open>Releasing permits serves the queue in order of arrival: a prefix of the queue is granted and woken,
  each waker once, until the first future left wants more than remains. If no queued future is ever
  dropped, then at all times the first queued future wants more than is free: nobody waits while it
  could be served.\<close>

theorem semaphore_serves_in_order:
  assumes "sem_reach False n0 y" "n \<in> set (ss_held y)" "permit_drop n (ss_sem y) = (s', ws)"
  shows "head_blocked (ss_sem y) \<and> head_blocked s'
    \<and> (\<exists>gs. sm_waiters (ss_sem y) = gs @ sm_waiters s' \<and> (\<forall>i\<in>set gs. sw_granted (sm_acq s' i))
        \<and> ws = concat (map (\<lambda>i. wakes_of (sw_waker (sm_acq (ss_sem y) i))) gs))"
proof -
  let ?s = "(ss_sem y)\<lparr>sm_permits := usize_saturating_add (sm_permits (ss_sem y)) n\<rparr>"
  have "distinct (sm_waiters (ss_sem y))" using sem_reach_inv [OF assms(1)] by (simp add: sem_inv_def sem_owing_def)
  from release_grants [OF this, of n s' ws] assms(3) obtain gs rest where
    "grants (sm_waiters (ss_sem y)) ?s s' ws gs rest" by (auto simp: permit_drop_def)
  moreover have "head_blocked s'" using sem_reach_head_blocked [OF sem_reach.release [OF assms]] by simp
  moreover have "head_blocked (ss_sem y)" using sem_reach_head_blocked [OF assms(1)] by simp
  ultimately show ?thesis by (auto simp: grants_def intro!: exI [of _ gs])
qed

theorem semaphore_serves_in_order_witness:
  "\<exists>y s'. sem_reach False 1 y \<and> permit_drop 1 (ss_sem y) = (s', []) \<and> head_blocked s'"
proof -
  let ?y0 = "\<lparr>ss_sem = semaphore_new 1, ss_live = {}, ss_held = [], ss_total = 1\<rparr>"
  have 0: "sem_reach False 1 ?y0" by (rule sem_reach.start) (simp add: usize_max_def)
  let ?y = "?y0\<lparr>ss_sem := (semaphore_new 1)\<lparr>sm_permits := 0\<rparr>, ss_held := [1]\<rparr>"
  have y: "sem_reach False 1 ?y"
    using sem_reach.try_now [OF 0, of 1 "(semaphore_new 1)\<lparr>sm_permits := 0\<rparr>" "Inr 1"]
    by (simp add: try_acquire_many_def semaphore_new_def take_result_def)
  have p: "permit_drop 1 (ss_sem ?y) = (semaphore_new 1, [])"
    by (simp add: permit_drop_def release_locked_def semaphore_new_def usize_saturating_add_def usize_max_def)
  from semaphore_serves_in_order [OF y _ p] y p show ?thesis by fastforce
qed

text \<open>Dropping a queued \<open>Acquire\<close> only unlinks it. When it was the first in the queue and wanted more than
  was free, the futures behind it stay queued although the free permits suffice, and polling them
  again returns \<open>Pending\<close>: with one permit free, a future that wants one waits behind a dropped one.\<close>

theorem dropped_acquire_strands_the_queue:
  "\<exists>y. sem_reach True 1 y \<and> sm_waiters (ss_sem y) = [6] \<and> sw_permits (sm_acq (ss_sem y) 6) \<le> sm_permits (ss_sem y)
     \<and> ss_held y = [] \<and> granted_sum (ss_sem y) (ss_live y) = 0
     \<and> (\<forall>cx. \<exists>s. acquire_body 6 cx (ss_sem y) = (s, Pending, []) \<and> sm_waiters s = [6])"
proof -
  obtain s ws where d: "acquire_drop 5 (ss_sem contended) = (s, ws)" by fastforce
  let ?y = "contended\<lparr>ss_sem := s, ss_live := ss_live contended - {5}\<rparr>"
  have r: "sem_reach True 1 ?y" using sem_reach.drop [OF contended_reach _ _ d] by (simp add: contended_def)
  have s: "sm_waiters s = [6]" "sm_permits s = 1" "sm_acq s 6 = \<lparr>sw_permits = 1, sw_waker = Some 60, sw_granted = False, sw_linked = True\<rparr>"
    "sm_closed s = False" using d by (auto simp: acquire_drop_def contended_def)
  have "granted_sum s {6} = 0" by (simp add: granted_sum_def s)
  moreover have "\<forall>cx. \<exists>s'. acquire_body 6 cx s = (s', Pending, []) \<and> sm_waiters s' = [6]"
    by (simp add: acquire_body_def s)
  ultimately show ?thesis using r s by (intro exI [of _ ?y]) (simp add: contended_def)
qed

text \<open>The mutex excludes: at most one guard exists. Its internal \<open>expect\<close> never fires. And no lock request is
  forgotten, cancellations included: while requests are queued, a guard exists or a queued request
  has been granted the lock.\<close>

theorem mutex_excludes:
  assumes "mutex_reach y"
  shows "length (ss_held y) \<le> 1 \<and> mutex_lock_poll b i cx (ss_sem y) \<noteq> Inl e
    \<and> (sm_waiters (ss_sem y) \<noteq> [] \<longrightarrow> ss_held y \<noteq> [] \<or> (\<exists>j\<in>ss_live y. sw_granted (sm_acq (ss_sem y) j)))"
proof -
  have r: "sem_reach True 1 y" and m: "mutex_ok y" using mutex_reach_ok [OF assms] by auto
  have sum: "sm_permits (ss_sem y) + granted_sum (ss_sem y) (ss_live y) + sum_list (ss_held y) = 1"
    using sem_reach_inv [OF r] m by (simp add: sem_inv_def sem_owing_def mutex_ok_def)
  have l: "length (ss_held y) \<le> 1" using sem.holders_bounded [OF r] m by (simp add: mutex_ok_def)
  have "mutex_lock_poll b i cx (ss_sem y) \<noteq> Inl e"
  proof -
    obtain b1 s1 r1 ws1 where p: "acquire_poll b i cx (ss_sem y) = (b1, s1, r1, ws1)" by (cases "acquire_poll b i cx (ss_sem y)") auto
    have "r1 \<noteq> Ready (Inl ())" using poll_cases [OF p] body_keeps m by (fastforce simp: mutex_ok_def)
    then show ?thesis using p by (auto simp: mutex_lock_poll_def split: poll.splits sum.splits)
  qed
  moreover have "ss_held y \<noteq> [] \<or> (\<exists>j\<in>ss_live y. sw_granted (sm_acq (ss_sem y) j))" if "sm_waiters (ss_sem y) \<noteq> []"
  proof (rule ccontr)
    assume "\<not> ?thesis"
    then have "granted_sum (ss_sem y) (ss_live y) = 0" "ss_held y = []" by (auto simp: granted_sum_def)
    then show False using sum m that by (simp add: mutex_ok_def)
  qed
  ultimately show ?thesis using l by blast
qed

theorem mutex_excludes_witness:
  "\<exists>y. mutex_reach y \<and> ss_held y = [1] \<and> length (ss_held y) \<le> 1"
proof -
  let ?y0 = "\<lparr>ss_sem = mutex_new, ss_live = {}, ss_held = [], ss_total = 1\<rparr>"
  have "mutex_reach (?y0\<lparr>ss_sem := mutex_new\<lparr>sm_permits := 0\<rparr>, ss_held := [1]\<rparr>)"
    using mutex_reach.try_lock [OF mutex_reach.start, of "mutex_new\<lparr>sm_permits := 0\<rparr>" "Some 1"]
    by (simp add: mutex_try_lock_def try_acquire_many_def mutex_new_def semaphore_new_def)
  from mutex_excludes [OF this] this show ?thesis by fastforce
qed

end
