(* ===== verification/Mpsc.thy ===== *)
theory Mpsc
  imports Coop
begin

text \<open>
  The multi-producer single-consumer channel of \<open>sync/mpsc.rs\<close>. The state mutex makes every
  operation atomic. The pending \<open>Send\<close> and \<open>Reserve\<close> futures, with their shared waiter nodes, live
  in a store; the list \<open>send_waiters\<close> holds their names. \<open>mpsc_reach\<close> runs any number of senders,
  futures and permits against the receiver, and records what was accepted and received.
\<close>

section \<open>Model\<close>

record 'a send_fut =
  mw_granted :: bool
  mw_reserves :: bool
  mw_waker :: "waker option"
  mf_registered :: bool
  mf_item :: "'a option"

record 'a mpsc =
  mp_queue :: "'a list"
  mp_capacity :: "nat option"
  mp_reserved :: nat
  mp_senders :: nat
  mp_receiver_alive :: bool
  mp_recv_waker :: "waker option"
  mp_send_waiters :: "nat list"
  mp_futs :: "nat \<Rightarrow> 'a send_fut"

datatype mpsc_panic = ZeroCapacity | ReceiverDropped | CounterUnderflow

definition send_fut_new :: "'a \<Rightarrow> 'a send_fut" where
  "send_fut_new x = \<lparr>mw_granted = False, mw_reserves = False, mw_waker = None, mf_registered = False, mf_item = Some x\<rparr>"

definition reserve_fut_new :: "'a send_fut" where
  "reserve_fut_new = \<lparr>mw_granted = False, mw_reserves = True, mw_waker = None, mf_registered = False, mf_item = None\<rparr>"

definition channel_inner :: "nat option \<Rightarrow> 'a mpsc" where
  "channel_inner cap = \<lparr>mp_queue = [], mp_capacity = cap, mp_reserved = 0, mp_senders = 1, mp_receiver_alive = True,
     mp_recv_waker = None, mp_send_waiters = [], mp_futs = (\<lambda>_. reserve_fut_new)\<rparr>"

definition mpsc_channel :: "nat \<Rightarrow> mpsc_panic + 'a mpsc" where
  "mpsc_channel cap = (if cap = 0 then Inl ZeroCapacity else Inr (channel_inner (Some cap)))"

definition unbounded_channel :: "'a mpsc" where
  "unbounded_channel = channel_inner None"

definition capacity_available :: "'a mpsc \<Rightarrow> bool" where
  "capacity_available s =
     (case mp_capacity s of None \<Rightarrow> True | Some cap \<Rightarrow> length (mp_queue s) + mp_reserved s < cap)"

definition wake_receiver :: "'a mpsc \<Rightarrow> 'a mpsc \<times> waker list" where
  "wake_receiver s = (s\<lparr>mp_recv_waker := None\<rparr>, wakes_of (mp_recv_waker s))"

definition upd_fut :: "nat \<Rightarrow> ('a send_fut \<Rightarrow> 'a send_fut) \<Rightarrow> 'a mpsc \<Rightarrow> 'a mpsc" where
  "upd_fut i f s = s\<lparr>mp_futs := (mp_futs s)(i := f (mp_futs s i))\<rparr>"

definition wake_one_sender :: "'a mpsc \<Rightarrow> 'a mpsc \<times> waker list" where
  "wake_one_sender s =
     (if \<not> capacity_available s then (s, [])
      else case mp_send_waiters s of
        [] \<Rightarrow> (s, [])
      | i # is \<Rightarrow>
          let s = s\<lparr>mp_send_waiters := is\<rparr>;
              s = (if mw_reserves (mp_futs s i) then s\<lparr>mp_reserved := mp_reserved s + 1\<rparr> else s);
              wk = mw_waker (mp_futs s i)
          in (upd_fut i (\<lambda>w. w\<lparr>mw_granted := True, mw_waker := None\<rparr>) s, wakes_of wk))"

definition push_item :: "'a \<Rightarrow> 'a mpsc \<Rightarrow> 'a mpsc \<times> waker list" where
  "push_item x s = wake_receiver (s\<lparr>mp_queue := mp_queue s @ [x]\<rparr>)"

definition sender_clone :: "'a mpsc \<Rightarrow> 'a mpsc" where
  "sender_clone s = s\<lparr>mp_senders := mp_senders s + 1\<rparr>"

definition sender_drop :: "'a mpsc \<Rightarrow> mpsc_panic + 'a mpsc \<times> waker list" where
  "sender_drop s =
     (if mp_senders s = 0 then Inl CounterUnderflow
      else
        let s = s\<lparr>mp_senders := mp_senders s - 1\<rparr> in
        if mp_senders s = 0 then Inr (s\<lparr>mp_recv_waker := None\<rparr>, wakes_of (mp_recv_waker s))
        else Inr (s, []))"

text \<open>\<open>Inl\<close> hands the item back.\<close>

definition try_send :: "'a \<Rightarrow> 'a mpsc \<Rightarrow> 'a mpsc \<times> ('a + unit) \<times> waker list" where
  "try_send x s =
     (if \<not> mp_receiver_alive s \<or> \<not> capacity_available s \<or> mp_send_waiters s \<noteq> [] then (s, Inl x, [])
      else case push_item x s of (s, ws) \<Rightarrow> (s, Inr (), ws))"

definition send_body :: "nat \<Rightarrow> waker \<Rightarrow> 'a mpsc \<Rightarrow> 'a mpsc \<times> ('a + unit) poll \<times> waker list" where
  "send_body i cx s =
     (let x = the (mf_item (mp_futs s i)) in
      if \<not> mp_receiver_alive s then (upd_fut i (\<lambda>w. w\<lparr>mf_item := None\<rparr>) s, Ready (Inl x), [])
      else
        let granted = mw_granted (mp_futs s i);
            s = upd_fut i (\<lambda>w. w\<lparr>mw_granted := False\<rparr>) s
        in if granted \<and> capacity_available s
           then case push_item x (upd_fut i (\<lambda>w. w\<lparr>mf_item := None, mf_registered := False\<rparr>) s) of
                  (s, ws) \<Rightarrow> (s, Ready (Inr ()), ws)
           else
             let s = (if granted then upd_fut i (\<lambda>w. w\<lparr>mf_registered := False\<rparr>) s else s) in
             if \<not> mf_registered (mp_futs s i) \<and> mp_send_waiters s = [] \<and> capacity_available s
             then case push_item x (upd_fut i (\<lambda>w. w\<lparr>mf_item := None\<rparr>) s) of (s, ws) \<Rightarrow> (s, Ready (Inr ()), ws)
             else
               let s = upd_fut i (\<lambda>w. w\<lparr>mw_waker := Some cx\<rparr>) s;
                   s = (if \<not> mf_registered (mp_futs s i)
                        then upd_fut i (\<lambda>w. w\<lparr>mf_registered := True\<rparr>) (s\<lparr>mp_send_waiters := mp_send_waiters s @ [i]\<rparr>)
                        else s)
               in (s, Pending, []))"

definition send_poll :: "budget \<Rightarrow> nat \<Rightarrow> waker \<Rightarrow> 'a mpsc \<Rightarrow> budget \<times> 'a mpsc \<times> ('a + unit) poll \<times> waker list" where
  "send_poll b i cx s = coop_poll b cx s (send_body i cx s)"

definition unregister :: "nat \<Rightarrow> 'a mpsc \<Rightarrow> 'a mpsc" where
  "unregister i s =
     (if mf_registered (mp_futs s i) then s\<lparr>mp_send_waiters := filter (\<lambda>j. j \<noteq> i) (mp_send_waiters s)\<rparr> else s)"

definition send_drop :: "nat \<Rightarrow> 'a mpsc \<Rightarrow> 'a mpsc \<times> waker list" where
  "send_drop i s =
     (let granted = mw_granted (mp_futs s i);
          s = unregister i (upd_fut i (\<lambda>w. w\<lparr>mw_granted := False\<rparr>) s)
      in if granted then wake_one_sender s else (s, []))"

text \<open>\<open>Inr ()\<close> is a permit.\<close>

definition reserve_body :: "nat \<Rightarrow> waker \<Rightarrow> 'a mpsc \<Rightarrow> 'a mpsc \<times> (unit + unit) poll \<times> waker list" where
  "reserve_body i cx s =
     (if \<not> mp_receiver_alive s then (s, Ready (Inl ()), [])
      else
        let granted = mw_granted (mp_futs s i);
            s = upd_fut i (\<lambda>w. w\<lparr>mw_granted := False\<rparr>) s
        in if granted then (upd_fut i (\<lambda>w. w\<lparr>mf_registered := False\<rparr>) s, Ready (Inr ()), [])
           else if \<not> mf_registered (mp_futs s i) \<and> mp_send_waiters s = [] \<and> capacity_available s
           then (s\<lparr>mp_reserved := mp_reserved s + 1\<rparr>, Ready (Inr ()), [])
           else
             let s = upd_fut i (\<lambda>w. w\<lparr>mw_waker := Some cx\<rparr>) s;
                 s = (if \<not> mf_registered (mp_futs s i)
                      then upd_fut i (\<lambda>w. w\<lparr>mf_registered := True\<rparr>) (s\<lparr>mp_send_waiters := mp_send_waiters s @ [i]\<rparr>)
                      else s)
             in (s, Pending, []))"

definition reserve_poll :: "budget \<Rightarrow> nat \<Rightarrow> waker \<Rightarrow> 'a mpsc \<Rightarrow> budget \<times> 'a mpsc \<times> (unit + unit) poll \<times> waker list" where
  "reserve_poll b i cx s = coop_poll b cx s (reserve_body i cx s)"

definition reserve_drop :: "nat \<Rightarrow> 'a mpsc \<Rightarrow> mpsc_panic + 'a mpsc \<times> waker list" where
  "reserve_drop i s =
     (let granted = mw_granted (mp_futs s i);
          s = unregister i (upd_fut i (\<lambda>w. w\<lparr>mw_granted := False\<rparr>) s)
      in if granted then
           (if mp_reserved s = 0 then Inl CounterUnderflow
            else Inr (wake_one_sender (s\<lparr>mp_reserved := mp_reserved s - 1\<rparr>)))
         else Inr (s, []))"

definition permit_send :: "'a \<Rightarrow> 'a mpsc \<Rightarrow> mpsc_panic + 'a mpsc \<times> ('a + unit) \<times> waker list" where
  "permit_send x s =
     (if mp_reserved s = 0 then Inl CounterUnderflow
      else
        let s = s\<lparr>mp_reserved := mp_reserved s - 1\<rparr> in
        if \<not> mp_receiver_alive s then Inr (s, Inl x, [])
        else case push_item x s of (s, ws) \<Rightarrow> Inr (s, Inr (), ws))"

definition mpsc_permit_drop :: "'a mpsc \<Rightarrow> mpsc_panic + 'a mpsc \<times> waker list" where
  "mpsc_permit_drop s =
     (if mp_reserved s = 0 then Inl CounterUnderflow
      else Inr (wake_one_sender (s\<lparr>mp_reserved := mp_reserved s - 1\<rparr>)))"

text \<open>The receiver is the channel and whether it still has its \<open>inner\<close>.\<close>

definition recv_body :: "waker \<Rightarrow> 'a mpsc \<times> bool \<Rightarrow> ('a mpsc \<times> bool) \<times> ('a option) poll \<times> waker list" where
  "recv_body cx sr =
     (let (s, rx) = sr in
      case mp_queue s of
        x # xs \<Rightarrow> (case wake_one_sender (s\<lparr>mp_queue := xs\<rparr>) of (s, ws) \<Rightarrow> ((s, rx), Ready (Some x), ws))
      | [] \<Rightarrow>
          if mp_senders s = 0 then ((s, False), Ready None, [])
          else ((s\<lparr>mp_recv_waker := Some cx\<rparr>, rx), Pending, []))"

definition recv_poll ::
  "budget \<Rightarrow> waker \<Rightarrow> 'a mpsc \<times> bool \<Rightarrow> mpsc_panic + budget \<times> ('a mpsc \<times> bool) \<times> ('a option) poll \<times> waker list" where
  "recv_poll b cx sr =
     (if b \<noteq> Some 0 \<and> \<not> snd sr then Inl ReceiverDropped else Inr (coop_poll b cx sr (recv_body cx sr)))"

text \<open>
  \<open>recv_many\<close> between two of its awaits has only the vector, the length it started with and the limit as
  its state. One poll runs the loop until a \<open>recv\<close> is pending; \<open>n\<close> counts the items still wanted.
\<close>

fun recv_many_loop ::
  "nat \<Rightarrow> budget \<Rightarrow> waker \<Rightarrow> 'a mpsc \<times> bool \<Rightarrow> 'a list \<Rightarrow>
   mpsc_panic + budget \<times> ('a mpsc \<times> bool) \<times> 'a list \<times> unit poll \<times> waker list" where
  "recv_many_loop 0 b cx sr out = Inr (b, sr, out, Ready (), [])"
| "recv_many_loop (Suc n) b cx sr out =
     (case recv_poll b cx sr of
        Inl e \<Rightarrow> Inl e
      | Inr (b, sr, Pending, ws) \<Rightarrow> Inr (b, sr, out, Pending, ws)
      | Inr (b, sr, Ready None, ws) \<Rightarrow> Inr (b, sr, out, Ready (), ws)
      | Inr (b, sr, Ready (Some item), ws) \<Rightarrow>
          (case recv_many_loop n b cx sr (out @ [item]) of
             Inl e \<Rightarrow> Inl e
           | Inr (b, sr, out, r, ws') \<Rightarrow> Inr (b, sr, out, r, ws @ ws')))"

definition recv_many_poll ::
  "nat \<Rightarrow> nat \<Rightarrow> budget \<Rightarrow> waker \<Rightarrow> 'a mpsc \<times> bool \<Rightarrow> 'a list \<Rightarrow>
   mpsc_panic + budget \<times> ('a mpsc \<times> bool) \<times> 'a list \<times> nat poll \<times> waker list" where
  "recv_many_poll start limit b cx sr out =
     (case recv_many_loop (limit - (length out - start)) b cx sr out of
        Inl e \<Rightarrow> Inl e
      | Inr (b, sr, out, Pending, ws) \<Rightarrow> Inr (b, sr, out, Pending, ws)
      | Inr (b, sr, out, Ready _, ws) \<Rightarrow> Inr (b, sr, out, Ready (length out - start), ws))"

definition receiver_drop :: "'a mpsc \<times> bool \<Rightarrow> ('a mpsc \<times> bool) \<times> waker list" where
  "receiver_drop sr =
     (let (s, rx) = sr in
      if \<not> rx then (sr, [])
      else
        let waiters = mp_send_waiters s;
            ws = concat (map (\<lambda>i. wakes_of (mw_waker (mp_futs s i))) waiters);
            s = s\<lparr>mp_receiver_alive := False, mp_send_waiters := []\<rparr>
        in ((fold (\<lambda>i. upd_fut i (\<lambda>w. w\<lparr>mw_waker := None\<rparr>)) waiters s, False), ws))"

section \<open>All users of one channel\<close>

record 'a mpsc_sys =
  ms_chan :: "'a mpsc"
  ms_rx :: bool
  ms_live :: "nat set"
  ms_permits :: nat
  ms_accepted :: "'a list"
  ms_received :: "'a list"

definition mpsc_start :: "nat option \<Rightarrow> 'a mpsc_sys" where
  "mpsc_start cap = \<lparr>ms_chan = channel_inner cap, ms_rx = True, ms_live = {}, ms_permits = 0, ms_accepted = [], ms_received = []\<rparr>"

text \<open>
  A \<open>Send\<close> or \<open>Reserve\<close> borrows a sender, so the last sender goes only after the futures; a permit
  does not. A finished \<open>Send\<close> is not polled again.
\<close>

inductive mpsc_reach :: "nat option \<Rightarrow> 'a mpsc_sys \<Rightarrow> bool" for cap :: "nat option" where
  start: "cap \<noteq> Some 0 \<Longrightarrow> mpsc_reach cap (mpsc_start cap)"
| clone: "mpsc_reach cap y \<Longrightarrow> 0 < mp_senders (ms_chan y) \<Longrightarrow> mpsc_reach cap (y\<lparr>ms_chan := sender_clone (ms_chan y)\<rparr>)"
| sender_drop: "mpsc_reach cap y \<Longrightarrow> 1 < mp_senders (ms_chan y) \<or> ms_live y = {} \<Longrightarrow> sender_drop (ms_chan y) = Inr (s, ws) \<Longrightarrow>
    mpsc_reach cap (y\<lparr>ms_chan := s\<rparr>)"
| send: "mpsc_reach cap y \<Longrightarrow> 0 < mp_senders (ms_chan y) \<Longrightarrow> i \<notin> ms_live y \<Longrightarrow>
    mpsc_reach cap (y\<lparr>ms_chan := upd_fut i (\<lambda>_. send_fut_new x) (ms_chan y), ms_live := insert i (ms_live y)\<rparr>)"
| reserve: "mpsc_reach cap y \<Longrightarrow> 0 < mp_senders (ms_chan y) \<Longrightarrow> i \<notin> ms_live y \<Longrightarrow>
    mpsc_reach cap (y\<lparr>ms_chan := upd_fut i (\<lambda>_. reserve_fut_new) (ms_chan y), ms_live := insert i (ms_live y)\<rparr>)"
| send_poll: "mpsc_reach cap y \<Longrightarrow> i \<in> ms_live y \<Longrightarrow> \<not> mw_reserves (mp_futs (ms_chan y) i) \<Longrightarrow> mf_item (mp_futs (ms_chan y) i) = Some x \<Longrightarrow>
    send_poll b i cx (ms_chan y) = (b', s, r, ws) \<Longrightarrow>
    mpsc_reach cap (y\<lparr>ms_chan := s, ms_accepted := ms_accepted y @ (if r = Ready (Inr ()) then [x] else [])\<rparr>)"
| send_drop: "mpsc_reach cap y \<Longrightarrow> i \<in> ms_live y \<Longrightarrow> \<not> mw_reserves (mp_futs (ms_chan y) i) \<Longrightarrow> send_drop i (ms_chan y) = (s, ws) \<Longrightarrow>
    mpsc_reach cap (y\<lparr>ms_chan := s, ms_live := ms_live y - {i}\<rparr>)"
| reserve_poll: "mpsc_reach cap y \<Longrightarrow> i \<in> ms_live y \<Longrightarrow> mw_reserves (mp_futs (ms_chan y) i) \<Longrightarrow>
    reserve_poll b i cx (ms_chan y) = (b', s, r, ws) \<Longrightarrow>
    mpsc_reach cap (y\<lparr>ms_chan := s, ms_permits := ms_permits y + (if r = Ready (Inr ()) then 1 else 0)\<rparr>)"
| reserve_drop: "mpsc_reach cap y \<Longrightarrow> i \<in> ms_live y \<Longrightarrow> mw_reserves (mp_futs (ms_chan y) i) \<Longrightarrow> reserve_drop i (ms_chan y) = Inr (s, ws) \<Longrightarrow>
    mpsc_reach cap (y\<lparr>ms_chan := s, ms_live := ms_live y - {i}\<rparr>)"
| permit_send: "mpsc_reach cap y \<Longrightarrow> 0 < ms_permits y \<Longrightarrow> permit_send x (ms_chan y) = Inr (s, r, ws) \<Longrightarrow>
    mpsc_reach cap (y\<lparr>ms_chan := s, ms_permits := ms_permits y - 1, ms_accepted := ms_accepted y @ (if r = Inr () then [x] else [])\<rparr>)"
| permit_drop: "mpsc_reach cap y \<Longrightarrow> 0 < ms_permits y \<Longrightarrow> mpsc_permit_drop (ms_chan y) = Inr (s, ws) \<Longrightarrow>
    mpsc_reach cap (y\<lparr>ms_chan := s, ms_permits := ms_permits y - 1\<rparr>)"
| try_send: "mpsc_reach cap y \<Longrightarrow> 0 < mp_senders (ms_chan y) \<Longrightarrow> try_send x (ms_chan y) = (s, r, ws) \<Longrightarrow>
    mpsc_reach cap (y\<lparr>ms_chan := s, ms_accepted := ms_accepted y @ (if r = Inr () then [x] else [])\<rparr>)"
| recv: "mpsc_reach cap y \<Longrightarrow> recv_poll b cx (ms_chan y, ms_rx y) = Inr (b', (s, rx), r, ws) \<Longrightarrow>
    mpsc_reach cap (y\<lparr>ms_chan := s, ms_rx := rx, ms_received := ms_received y @ (case r of Ready (Some x) \<Rightarrow> [x] | _ \<Rightarrow> [])\<rparr>)"
| receiver_drop: "mpsc_reach cap y \<Longrightarrow> receiver_drop (ms_chan y, ms_rx y) = ((s, rx), ws) \<Longrightarrow>
    mpsc_reach cap (y\<lparr>ms_chan := s, ms_rx := rx\<rparr>)"

section \<open>Invariant of the channel\<close>

definition slot_holder :: "'a send_fut \<Rightarrow> bool" where "slot_holder w \<longleftrightarrow> mw_reserves w \<and> mw_granted w"
definition slot_offer :: "'a send_fut \<Rightarrow> bool" where "slot_offer w \<longleftrightarrow> \<not> mw_reserves w \<and> mw_granted w"

text \<open>
  The invariant over the live futures and the number of permits handed out, with at most \<open>k\<close> free
  slots that have not been offered to the waiters yet.
\<close>

definition mp_ok :: "nat \<Rightarrow> 'a mpsc \<Rightarrow> nat set \<Rightarrow> nat \<Rightarrow> bool" where
  "mp_ok k s live permits \<longleftrightarrow>
     finite live \<and> distinct (mp_send_waiters s)
   \<and> (\<forall>i\<in>set (mp_send_waiters s). i \<in> live \<and> mf_registered (mp_futs s i) \<and> \<not> mw_granted (mp_futs s i))
   \<and> (\<forall>i\<in>live. mp_receiver_alive s \<and> mf_registered (mp_futs s i) \<and> \<not> mw_granted (mp_futs s i) \<longrightarrow> i \<in> set (mp_send_waiters s))
   \<and> mp_reserved s = permits + tally slot_holder (mp_futs s) live
   \<and> (case mp_capacity s of
        None \<Rightarrow> mp_send_waiters s = []
      | Some c \<Rightarrow> length (mp_queue s) + mp_reserved s \<le> c
          \<and> (mp_receiver_alive s \<and> mp_send_waiters s \<noteq> [] \<longrightarrow>
              c \<le> length (mp_queue s) + mp_reserved s + tally slot_offer (mp_futs s) live + k))"

lemma upd_fut_simps [simp]:
  "mp_queue (upd_fut i f s) = mp_queue s" "mp_capacity (upd_fut i f s) = mp_capacity s"
  "mp_reserved (upd_fut i f s) = mp_reserved s" "mp_senders (upd_fut i f s) = mp_senders s"
  "mp_receiver_alive (upd_fut i f s) = mp_receiver_alive s" "mp_recv_waker (upd_fut i f s) = mp_recv_waker s"
  "mp_send_waiters (upd_fut i f s) = mp_send_waiters s" "mp_futs (upd_fut i f s) = (mp_futs s)(i := f (mp_futs s i))"
  "capacity_available (upd_fut i f s) = capacity_available s"
  by (simp_all add: upd_fut_def capacity_available_def split: option.splits)

lemma push_item_eq [simp]:
  "push_item x s = (s\<lparr>mp_queue := mp_queue s @ [x], mp_recv_waker := None\<rparr>, wakes_of (mp_recv_waker s))"
  by (simp add: push_item_def wake_receiver_def)

lemma capacity_waker [simp]: "capacity_available (s\<lparr>mp_send_waiters := w\<rparr>) = capacity_available s"
  by (simp add: capacity_available_def split: option.splits)

lemma mp_okD:
  assumes "mp_ok k s live p"
  shows "finite live" "distinct (mp_send_waiters s)"
    "i \<in> set (mp_send_waiters s) \<Longrightarrow> i \<in> live \<and> mf_registered (mp_futs s i) \<and> \<not> mw_granted (mp_futs s i)"
    "i \<in> live \<Longrightarrow> mp_receiver_alive s \<Longrightarrow> mf_registered (mp_futs s i) \<Longrightarrow> \<not> mw_granted (mp_futs s i) \<Longrightarrow> i \<in> set (mp_send_waiters s)"
    "mp_reserved s = p + tally slot_holder (mp_futs s) live"
    "mp_capacity s = None \<Longrightarrow> mp_send_waiters s = []"
    "mp_capacity s = Some c \<Longrightarrow> length (mp_queue s) + mp_reserved s \<le> c"
    "mp_capacity s = Some c \<Longrightarrow> mp_receiver_alive s \<Longrightarrow> mp_send_waiters s \<noteq> [] \<Longrightarrow>
       c \<le> length (mp_queue s) + mp_reserved s + tally slot_offer (mp_futs s) live + k"
  using assms unfolding mp_ok_def by auto

lemma mp_ok_slack:
  assumes ok: "mp_ok k s live p" and no: "mp_send_waiters s = [] \<or> \<not> capacity_available s"
  shows "mp_ok 0 s live p"
proof -
  have "mp_capacity s = Some c \<Longrightarrow> mp_send_waiters s \<noteq> [] \<Longrightarrow> c \<le> length (mp_queue s) + mp_reserved s" for c
    using no by (simp add: capacity_available_def)
  then show ?thesis using ok unfolding mp_ok_def by (cases "mp_capacity s") (force simp: le_add1 trans_le_add1)+
qed

text \<open>Replacing one future, the queue, the reservations and the waiter list together.\<close>

lemma mp_ok_change:
  assumes ok: "mp_ok k s live p" and i: "i \<in> live"
    and fs: "mp_futs s' = (mp_futs s)(i := x)" and cap: "mp_capacity s' = mp_capacity s"
    and al: "mp_receiver_alive s' = mp_receiver_alive s"
    and res: "mp_reserved s' + of_bool (slot_holder (mp_futs s i)) + p = mp_reserved s + of_bool (slot_holder x) + p'"
    and dist: "distinct (mp_send_waiters s')"
    and wt: "\<forall>j\<in>set (mp_send_waiters s'). j \<in> live \<and> (if j = i then mf_registered x \<and> \<not> mw_granted x else j \<in> set (mp_send_waiters s))"
    and reg: "mp_receiver_alive s \<longrightarrow> (\<forall>j\<in>set (mp_send_waiters s). j \<noteq> i \<longrightarrow> j \<in> set (mp_send_waiters s'))
      \<and> (mf_registered x \<and> \<not> mw_granted x \<longrightarrow> i \<in> set (mp_send_waiters s'))"
    and bound: "\<And>c. mp_capacity s = Some c \<Longrightarrow> length (mp_queue s') + mp_reserved s' \<le> c"
    and unb: "mp_capacity s = None \<Longrightarrow> mp_send_waiters s' = []"
    and offer: "\<And>c. mp_capacity s = Some c \<Longrightarrow> mp_receiver_alive s \<Longrightarrow> mp_send_waiters s' \<noteq> [] \<Longrightarrow>
      c + of_bool (slot_offer (mp_futs s i)) \<le> length (mp_queue s') + mp_reserved s' + tally slot_offer (mp_futs s) live + of_bool (slot_offer x) + k'"
  shows "mp_ok k' s' live p'"
proof -
  note d = mp_okD [OF ok]
  note fin = d(1)
  have t: "tally slot_holder (mp_futs s') live + of_bool (slot_holder (mp_futs s i)) = tally slot_holder (mp_futs s) live + of_bool (slot_holder x)"
    "tally slot_offer (mp_futs s') live + of_bool (slot_offer (mp_futs s i)) = tally slot_offer (mp_futs s) live + of_bool (slot_offer x)"
    unfolding fs by (rule tally_upd [OF fin i])+
  show ?thesis unfolding mp_ok_def
  proof (intro conjI)
    show "mp_reserved s' = p' + tally slot_holder (mp_futs s') live" using d(5) res t(1) by linarith
    show "\<forall>j\<in>set (mp_send_waiters s'). j \<in> live \<and> mf_registered (mp_futs s' j) \<and> \<not> mw_granted (mp_futs s' j)"
      using wt d(3) by (auto simp: fs)
    show "\<forall>j\<in>live. mp_receiver_alive s' \<and> mf_registered (mp_futs s' j) \<and> \<not> mw_granted (mp_futs s' j) \<longrightarrow> j \<in> set (mp_send_waiters s')"
      using reg d(4) by (auto simp: fs al)
    have "c \<le> length (mp_queue s') + mp_reserved s' + tally slot_offer (mp_futs s') live + k'"
      if "mp_capacity s = Some c" "mp_receiver_alive s" "mp_send_waiters s' \<noteq> []" for c
      using offer [OF that] t(2) by linarith
    then show "case mp_capacity s' of None \<Rightarrow> mp_send_waiters s' = []
      | Some c \<Rightarrow> length (mp_queue s') + mp_reserved s' \<le> c \<and> (mp_receiver_alive s' \<and> mp_send_waiters s' \<noteq> [] \<longrightarrow>
              c \<le> length (mp_queue s') + mp_reserved s' + tally slot_offer (mp_futs s') live + k')"
      using bound unb by (auto simp: cap al split: option.splits)
  qed (use fin dist in auto)
qed

text \<open>Offering one free slot to the first waiter.\<close>

lemma wake_one_ok:
  assumes ok: "mp_ok 1 s live p" and w: "wake_one_sender s = (s', ws)"
  shows "mp_ok 0 s' live p" "mp_queue s' = mp_queue s" "mp_senders s' = mp_senders s" "mp_receiver_alive s' = mp_receiver_alive s"
    "mp_capacity s' = mp_capacity s"
proof -
  note d = mp_okD [OF ok]
  show q: "mp_queue s' = mp_queue s" "mp_senders s' = mp_senders s" "mp_receiver_alive s' = mp_receiver_alive s"
    "mp_capacity s' = mp_capacity s"
    using w by (auto simp: wake_one_sender_def Let_def split: if_splits list.splits)
  show "mp_ok 0 s' live p"
  proof (cases "capacity_available s \<and> mp_send_waiters s \<noteq> []")
    case False
    then have "s' = s" using w by (auto simp: wake_one_sender_def split: if_splits list.splits)
    moreover have "mp_ok 0 s live p" using False by (intro mp_ok_slack [OF ok]) auto
    ultimately show ?thesis by simp
  next
    case True
    then obtain i "is" where wt: "mp_send_waiters s = i # is" by (cases "mp_send_waiters s") auto
    let ?w = "mp_futs s i"
    have s': "s' = upd_fut i (\<lambda>w. w\<lparr>mw_granted := True, mw_waker := None\<rparr>)
        (s\<lparr>mp_send_waiters := is, mp_reserved := mp_reserved s + of_bool (mw_reserves ?w)\<rparr>)"
      using w True wt by (auto simp: wake_one_sender_def Let_def)
    have i: "i \<in> live" "mf_registered ?w" "\<not> mw_granted ?w" using d(3) [of i] wt by auto
    have c: "mp_capacity s = Some c \<Longrightarrow> length (mp_queue s) + mp_reserved s < c" for c
      using True by (simp add: capacity_available_def)
    let ?x = "?w\<lparr>mw_granted := True, mw_waker := None\<rparr>"
    have h: "slot_holder ?x = mw_reserves ?w" "slot_offer ?x = (\<not> mw_reserves ?w)" "\<not> slot_holder ?w" "\<not> slot_offer ?w"
      using i(3) by (simp_all add: slot_holder_def slot_offer_def)
    show ?thesis
    proof (rule mp_ok_change [OF ok i(1), of s' ?x])
      show "\<forall>j\<in>set (mp_send_waiters s'). j \<in> live \<and> (if j = i then mf_registered ?x \<and> \<not> mw_granted ?x else j \<in> set (mp_send_waiters s))"
        using d(2,3) wt by (auto simp: s')
      show "mp_send_waiters s' = []" if "mp_capacity s = None" using d(6) [OF that] wt by simp
      show "length (mp_queue s') + mp_reserved s' \<le> c" if "mp_capacity s = Some c" for c using c [OF that] by (simp add: s')
      show "c + of_bool (slot_offer ?w) \<le> length (mp_queue s') + mp_reserved s' + tally slot_offer (mp_futs s) live + of_bool (slot_offer ?x) + 0"
        if "mp_capacity s = Some c" "mp_receiver_alive s" for c
        using d(8) [OF that] wt h by (simp add: s')
    qed (use d(2) wt h in \<open>auto simp: s'\<close>)
  qed
qed

section \<open>The futures keep the invariant\<close>

lemmas slot_defs = slot_holder_def slot_offer_def

text \<open>A future that consumes its grant or a free slot, and one that queues up or stays queued.\<close>

lemma mp_ok_enqueue:
  assumes ok: "mp_ok 0 s live p" and i: "i \<in> live" "i \<notin> set (mp_send_waiters s)" "mp_receiver_alive s"
    and cause: "mp_send_waiters s \<noteq> [] \<and> \<not> mw_granted (mp_futs s i) \<or> \<not> capacity_available s \<and> (mw_granted (mp_futs s i) \<longrightarrow> \<not> mw_reserves (mp_futs s i))"
    and s': "mp_futs s' = (mp_futs s)(i := (mp_futs s i)\<lparr>mw_granted := False, mf_registered := True, mw_waker := Some cx\<rparr>)"
    "mp_capacity s' = mp_capacity s" "mp_receiver_alive s' = mp_receiver_alive s" "mp_reserved s' = mp_reserved s"
    "mp_queue s' = mp_queue s" "mp_send_waiters s' = mp_send_waiters s @ [i]"
  shows "mp_ok 0 s' live p"
proof (rule mp_ok_change [OF ok i(1) s'(1,2,3)])
  note d = mp_okD [OF ok]
  show "distinct (mp_send_waiters s')" using d(2) i(2) by (simp add: s')
  have full: "mp_capacity s \<noteq> None" using cause d(6) by (auto simp: capacity_available_def split: option.splits)
  then show "mp_send_waiters s' = []" if "mp_capacity s = None" using that by simp
  show "length (mp_queue s') + mp_reserved s' \<le> c" if "mp_capacity s = Some c" for c using d(7) [OF that] by (simp add: s')
  have fin: "finite live" by (rule d(1))
  have pos: "slot_offer (mp_futs s i) \<Longrightarrow> 0 < tally slot_offer (mp_futs s) live"
    using tally_0 [OF fin, of slot_offer "mp_futs s"] i(1) by (metis gr0I)
  show "c + of_bool (slot_offer (mp_futs s i)) \<le> length (mp_queue s') + mp_reserved s' + tally slot_offer (mp_futs s) live
      + of_bool (slot_offer ((mp_futs s i)\<lparr>mw_granted := False, mf_registered := True, mw_waker := Some cx\<rparr>)) + 0"
    if c: "mp_capacity s = Some c" "mp_receiver_alive s" for c
  proof (cases "capacity_available s")
    case True
    then have "mp_send_waiters s \<noteq> []" "\<not> slot_offer (mp_futs s i)" using cause by (auto simp: slot_offer_def)
    then show ?thesis using d(8) [OF c] by (auto simp: s' slot_defs)
  next
    case False
    then have "c \<le> length (mp_queue s) + mp_reserved s" using c by (simp add: capacity_available_def)
    then show ?thesis using pos by (cases "slot_offer (mp_futs s i)") (auto simp: s')
  qed
qed (use mp_okD(3) [OF ok] i cause in \<open>auto simp: s' slot_defs\<close>)

lemma mp_ok_touch:
  assumes ok: "mp_ok 0 s live p" and i: "i \<in> live" "mw_granted x = mw_granted (mp_futs s i)" "mw_reserves x = mw_reserves (mp_futs s i)"
    "mf_registered x = mf_registered (mp_futs s i)"
    and s': "mp_futs s' = (mp_futs s)(i := x)" "mp_capacity s' = mp_capacity s" "mp_receiver_alive s' = mp_receiver_alive s"
    "mp_reserved s' = mp_reserved s" "mp_queue s' = mp_queue s" "mp_send_waiters s' = mp_send_waiters s"
  shows "mp_ok 0 s' live p"
proof (rule mp_ok_change [OF ok i(1) s'(1,2,3)])
  note d = mp_okD [OF ok]
  show "\<forall>j\<in>set (mp_send_waiters s'). j \<in> live \<and> (if j = i then mf_registered x \<and> \<not> mw_granted x else j \<in> set (mp_send_waiters s))"
    using d(3) i by (auto simp: s')
  show "mp_receiver_alive s \<longrightarrow> (\<forall>j\<in>set (mp_send_waiters s). j \<noteq> i \<longrightarrow> j \<in> set (mp_send_waiters s'))
      \<and> (mf_registered x \<and> \<not> mw_granted x \<longrightarrow> i \<in> set (mp_send_waiters s'))"
    using d(4) i by (auto simp: s')
  show "c + of_bool (slot_offer (mp_futs s i)) \<le> length (mp_queue s') + mp_reserved s' + tally slot_offer (mp_futs s) live + of_bool (slot_offer x) + 0"
    if "mp_capacity s = Some c" "mp_receiver_alive s" "mp_send_waiters s' \<noteq> []" for c
    using d(8) [OF that(1,2)] that(3) i by (simp add: s' slot_defs)
qed (use mp_okD(2,6,7) [OF ok] i in \<open>auto simp: s' slot_defs\<close>)

text \<open>A future leaves the channel's lists with its slot: \<open>q\<close> more items, \<open>r\<close> more reservations.\<close>

lemma mp_ok_consume:
  assumes ok: "mp_ok 0 s live p" and i: "i \<in> live" "i \<notin> set (mp_send_waiters s)" "mp_receiver_alive s"
    and x: "\<not> mw_granted x" "\<not> mf_registered x"
    and slot: "mw_granted (mp_futs s i) \<or> mp_send_waiters s = []"
    and s': "mp_futs s' = (mp_futs s)(i := x)" "mp_capacity s' = mp_capacity s" "mp_receiver_alive s' = mp_receiver_alive s"
    "mp_send_waiters s' = mp_send_waiters s"
    and res: "mp_reserved s' + of_bool (slot_holder (mp_futs s i)) + p = mp_reserved s + p'"
    and use_slot: "length (mp_queue s') + mp_reserved s' = length (mp_queue s) + mp_reserved s + of_bool (\<not> slot_holder (mp_futs s i))"
    and room: "\<not> slot_holder (mp_futs s i) \<Longrightarrow> capacity_available s"
  shows "mp_ok 0 s' live p'"
proof (rule mp_ok_change [OF ok i(1) s'(1,2,3)])
  note d = mp_okD [OF ok]
  show "length (mp_queue s') + mp_reserved s' \<le> c" if "mp_capacity s = Some c" for c
    using d(7) [OF that] use_slot room that by (cases "slot_holder (mp_futs s i)") (auto simp: capacity_available_def)
  show "c + of_bool (slot_offer (mp_futs s i)) \<le> length (mp_queue s') + mp_reserved s' + tally slot_offer (mp_futs s) live + of_bool (slot_offer x) + 0"
    if "mp_capacity s = Some c" "mp_receiver_alive s" "mp_send_waiters s' \<noteq> []" for c
    using d(8) [OF that(1,2)] that(3) use_slot slot by (auto simp: s' slot_defs of_bool_def split: if_splits)
qed (use mp_okD(2,3,6) [OF ok] i x res in \<open>auto simp: s' slot_defs\<close>)

definition chan_frame :: "'a mpsc \<Rightarrow> 'a mpsc \<Rightarrow> bool" where
  "chan_frame s s' \<longleftrightarrow> mp_capacity s' = mp_capacity s \<and> mp_senders s' = mp_senders s \<and> mp_receiver_alive s' = mp_receiver_alive s
     \<and> (\<forall>j. mw_reserves (mp_futs s' j) = mw_reserves (mp_futs s j))"

lemma send_body_ok:
  assumes ok: "mp_ok 0 s live p" and i: "i \<in> live" "\<not> mw_reserves (mp_futs s i)" and x: "mf_item (mp_futs s i) = Some x"
    and b: "send_body i cx s = (s', r, ws)"
  shows "mp_ok 0 s' live p \<and> chan_frame s s' \<and> mp_queue s' = mp_queue s @ (if r = Ready (Inr ()) then [x] else [])"
proof -
  note d = mp_okD [OF ok]
  let ?w = "mp_futs s i"
  have ni: "mw_granted ?w \<or> \<not> mf_registered ?w \<Longrightarrow> i \<notin> set (mp_send_waiters s)" using d(3) [of i] by blast
  consider (dead) "\<not> mp_receiver_alive s"
    | (take) "mp_receiver_alive s" "mw_granted ?w" "capacity_available s"
    | (direct) "mp_receiver_alive s" "\<not> mw_granted ?w" "\<not> mf_registered ?w" "mp_send_waiters s = []" "capacity_available s"
    | (enq) "mp_receiver_alive s" "mw_granted ?w \<and> \<not> capacity_available s \<or> \<not> mw_granted ?w \<and> \<not> mf_registered ?w \<and> \<not> (mp_send_waiters s = [] \<and> capacity_available s)"
    | (wait) "mp_receiver_alive s" "\<not> mw_granted ?w" "mf_registered ?w" by blast
  then show ?thesis
  proof cases
    case dead
    then have s': "s' = upd_fut i (\<lambda>w. w\<lparr>mf_item := None\<rparr>) s" "r = Ready (Inl x)" using b x by (auto simp: send_body_def)
    have "mp_ok 0 s' live p" by (rule mp_ok_touch [OF ok i(1), of "?w\<lparr>mf_item := None\<rparr>"]) (simp_all add: s')
    then show ?thesis using s' by (simp add: chan_frame_def)
  next
    case take
    let ?x = "?w\<lparr>mw_granted := False, mf_item := None, mf_registered := False\<rparr>"
    have s': "mp_futs s' = (mp_futs s)(i := ?x)" "mp_queue s' = mp_queue s @ [x]" "mp_reserved s' = mp_reserved s"
      "mp_send_waiters s' = mp_send_waiters s" "chan_frame s s'" "r = Ready (Inr ())"
      using b x take by (auto simp: send_body_def Let_def chan_frame_def split: if_splits)
    have "mp_ok 0 s' live p"
      by (rule mp_ok_consume [OF ok i(1) ni take(1), of ?x]) (use s' take i in \<open>auto simp: slot_holder_def chan_frame_def\<close>)
    then show ?thesis using s' by simp
  next
    case direct
    let ?x = "?w\<lparr>mw_granted := False, mf_item := None\<rparr>"
    have s': "mp_futs s' = (mp_futs s)(i := ?x)" "mp_queue s' = mp_queue s @ [x]" "mp_reserved s' = mp_reserved s"
      "mp_send_waiters s' = mp_send_waiters s" "chan_frame s s'" "r = Ready (Inr ())"
      using b x direct by (auto simp: send_body_def Let_def chan_frame_def split: if_splits)
    have "mp_ok 0 s' live p"
      by (rule mp_ok_consume [OF ok i(1) ni direct(1), of ?x]) (use s' direct i in \<open>auto simp: slot_holder_def chan_frame_def\<close>)
    then show ?thesis using s' by simp
  next
    case enq
    have s': "mp_futs s' = (mp_futs s)(i := ?w\<lparr>mw_granted := False, mf_registered := True, mw_waker := Some cx\<rparr>)"
      "mp_queue s' = mp_queue s" "mp_reserved s' = mp_reserved s" "mp_send_waiters s' = mp_send_waiters s @ [i]" "chan_frame s s'" "r = Pending"
      using b enq by (auto simp: send_body_def Let_def chan_frame_def split: if_splits)
    have "mp_ok 0 s' live p"
      by (rule mp_ok_enqueue [OF ok i(1) ni enq(1)]) (use s' enq(2) i(2) in \<open>auto simp: chan_frame_def\<close>)
    then show ?thesis using s' by simp
  next
    case wait
    let ?x = "?w\<lparr>mw_granted := False, mw_waker := Some cx\<rparr>"
    have s': "mp_futs s' = (mp_futs s)(i := ?x)" "mp_queue s' = mp_queue s" "mp_reserved s' = mp_reserved s"
      "mp_send_waiters s' = mp_send_waiters s" "chan_frame s s'" "r = Pending"
      using b wait by (auto simp: send_body_def Let_def chan_frame_def split: if_splits)
    have "mp_ok 0 s' live p"
      by (rule mp_ok_touch [OF ok i(1), of ?x]) (use s' wait in \<open>auto simp: chan_frame_def\<close>)
    then show ?thesis using s' by simp
  qed
qed

lemma reserve_body_ok:
  assumes ok: "mp_ok 0 s live p" and i: "i \<in> live" "mw_reserves (mp_futs s i)"
    and b: "reserve_body i cx s = (s', r, ws)"
  shows "mp_ok 0 s' live (p + (if r = Ready (Inr ()) then 1 else 0)) \<and> chan_frame s s' \<and> mp_queue s' = mp_queue s"
proof -
  note d = mp_okD [OF ok]
  let ?w = "mp_futs s i"
  have ni: "mw_granted ?w \<or> \<not> mf_registered ?w \<Longrightarrow> i \<notin> set (mp_send_waiters s)" using d(3) [of i] by blast
  consider (dead) "\<not> mp_receiver_alive s"
    | (take) "mp_receiver_alive s" "mw_granted ?w"
    | (direct) "mp_receiver_alive s" "\<not> mw_granted ?w" "\<not> mf_registered ?w" "mp_send_waiters s = []" "capacity_available s"
    | (enq) "mp_receiver_alive s" "\<not> mw_granted ?w" "\<not> mf_registered ?w" "\<not> (mp_send_waiters s = [] \<and> capacity_available s)"
    | (wait) "mp_receiver_alive s" "\<not> mw_granted ?w" "mf_registered ?w" by blast
  then show ?thesis
  proof cases
    case dead
    then show ?thesis using b ok by (auto simp: reserve_body_def chan_frame_def)
  next
    case take
    let ?x = "?w\<lparr>mw_granted := False, mf_registered := False\<rparr>"
    have s': "mp_futs s' = (mp_futs s)(i := ?x)" "mp_queue s' = mp_queue s" "mp_reserved s' = mp_reserved s"
      "mp_send_waiters s' = mp_send_waiters s" "chan_frame s s'" "r = Ready (Inr ())"
      using b take by (auto simp: reserve_body_def Let_def chan_frame_def split: if_splits)
    have "mp_ok 0 s' live (p + 1)"
      by (rule mp_ok_consume [OF ok i(1) ni take(1), of ?x]) (use s' take i in \<open>auto simp: slot_holder_def chan_frame_def\<close>)
    then show ?thesis using s' by simp
  next
    case direct
    let ?x = "?w\<lparr>mw_granted := False\<rparr>"
    have s': "mp_futs s' = (mp_futs s)(i := ?x)" "mp_queue s' = mp_queue s" "mp_reserved s' = mp_reserved s + 1"
      "mp_send_waiters s' = mp_send_waiters s" "chan_frame s s'" "r = Ready (Inr ())"
      using b direct by (auto simp: reserve_body_def Let_def chan_frame_def split: if_splits)
    have "mp_ok 0 s' live (p + 1)"
      by (rule mp_ok_consume [OF ok i(1) ni direct(1), of ?x]) (use s' direct i in \<open>auto simp: slot_holder_def chan_frame_def\<close>)
    then show ?thesis using s' by simp
  next
    case enq
    have s': "mp_futs s' = (mp_futs s)(i := ?w\<lparr>mw_granted := False, mf_registered := True, mw_waker := Some cx\<rparr>)"
      "mp_queue s' = mp_queue s" "mp_reserved s' = mp_reserved s" "mp_send_waiters s' = mp_send_waiters s @ [i]" "chan_frame s s'" "r = Pending"
      using b enq by (auto simp: reserve_body_def Let_def chan_frame_def split: if_splits)
    have "mp_ok 0 s' live p"
      by (rule mp_ok_enqueue [OF ok i(1) ni enq(1)]) (use s' enq in \<open>auto simp: chan_frame_def\<close>)
    then show ?thesis using s' by simp
  next
    case wait
    let ?x = "?w\<lparr>mw_granted := False, mw_waker := Some cx\<rparr>"
    have s': "mp_futs s' = (mp_futs s)(i := ?x)" "mp_queue s' = mp_queue s" "mp_reserved s' = mp_reserved s"
      "mp_send_waiters s' = mp_send_waiters s" "chan_frame s s'" "r = Pending"
      using b wait by (auto simp: reserve_body_def Let_def chan_frame_def split: if_splits)
    have "mp_ok 0 s' live p"
      by (rule mp_ok_touch [OF ok i(1), of ?x]) (use s' wait in \<open>auto simp: chan_frame_def\<close>)
    then show ?thesis using s' by simp
  qed
qed

text \<open>Leaving: the future is taken off the list and its grant is given up; then it is gone.\<close>

lemma mp_ok_leave:
  assumes ok: "mp_ok 0 s live p" and i: "i \<in> live"
    and s': "mp_futs s' = (mp_futs s)(i := (mp_futs s i)\<lparr>mw_granted := False\<rparr>)"
    "mp_send_waiters s' = (if mf_registered (mp_futs s i) then filter (\<lambda>j. j \<noteq> i) (mp_send_waiters s) else mp_send_waiters s)"
    "mp_queue s' = mp_queue s" "mp_capacity s' = mp_capacity s" "mp_receiver_alive s' = mp_receiver_alive s"
    "mp_reserved s' = mp_reserved s - of_bool (slot_holder (mp_futs s i))"
  shows "mp_ok (of_bool (mw_granted (mp_futs s i))) s' (live - {i}) p"
proof -
  note d = mp_okD [OF ok]
  let ?w = "mp_futs s i"
  have w': "mp_send_waiters s' = filter (\<lambda>j. j \<noteq> i) (mp_send_waiters s)"
  proof (cases "mf_registered ?w")
    case False
    then have "i \<notin> set (mp_send_waiters s)" using d(3) [of i] by blast
    then show ?thesis using False by (simp add: s')
  qed (simp add: s')
  have t: "tally P (mp_futs s) live = of_bool (P ?w) + tally P (mp_futs s') (live - {i})" for P
    unfolding s'(1) by (rule tally_leave [OF d(1) i])
  have r: "mp_reserved s' = p + tally slot_holder (mp_futs s') (live - {i})" using d(5) t [of slot_holder] s'(6) by simp
  show ?thesis unfolding mp_ok_def
  proof (intro conjI)
    show "\<forall>j\<in>set (mp_send_waiters s'). j \<in> live - {i} \<and> mf_registered (mp_futs s' j) \<and> \<not> mw_granted (mp_futs s' j)"
      using d(3) by (auto simp: w' s'(1))
    show "\<forall>j\<in>live - {i}. mp_receiver_alive s' \<and> mf_registered (mp_futs s' j) \<and> \<not> mw_granted (mp_futs s' j) \<longrightarrow> j \<in> set (mp_send_waiters s')"
      using d(4) by (auto simp: w' s'(1,5))
    show "case mp_capacity s' of None \<Rightarrow> mp_send_waiters s' = []
      | Some c \<Rightarrow> length (mp_queue s') + mp_reserved s' \<le> c \<and> (mp_receiver_alive s' \<and> mp_send_waiters s' \<noteq> [] \<longrightarrow>
          c \<le> length (mp_queue s') + mp_reserved s' + tally slot_offer (mp_futs s') (live - {i}) + of_bool (mw_granted ?w))"
    proof (cases "mp_capacity s")
      case None
      then show ?thesis using d(6) by (simp add: w' s'(4))
    next
      case (Some c)
      have "mp_send_waiters s' \<noteq> [] \<Longrightarrow> mp_send_waiters s \<noteq> []" by (auto simp: w')
      then show ?thesis using d(7) [OF Some] d(8) [OF Some] t [of slot_offer] s'(3,5,6)
        by (auto simp: Some s'(4) slot_defs of_bool_def split: if_splits)
    qed
  qed (use d(1,2) r w' in auto)
qed

lemma mp_okI:
  assumes "finite live" "distinct (mp_send_waiters s)"
    "\<And>i. i \<in> set (mp_send_waiters s) \<Longrightarrow> i \<in> live \<and> mf_registered (mp_futs s i) \<and> \<not> mw_granted (mp_futs s i)"
    "\<And>i. i \<in> live \<Longrightarrow> mp_receiver_alive s \<Longrightarrow> mf_registered (mp_futs s i) \<Longrightarrow> \<not> mw_granted (mp_futs s i) \<Longrightarrow> i \<in> set (mp_send_waiters s)"
    "mp_reserved s = p + tally slot_holder (mp_futs s) live"
    "mp_capacity s = None \<Longrightarrow> mp_send_waiters s = []"
    "\<And>c. mp_capacity s = Some c \<Longrightarrow> length (mp_queue s) + mp_reserved s \<le> c"
    "\<And>c. mp_capacity s = Some c \<Longrightarrow> mp_receiver_alive s \<Longrightarrow> mp_send_waiters s \<noteq> [] \<Longrightarrow>
       c \<le> length (mp_queue s) + mp_reserved s + tally slot_offer (mp_futs s) live + k"
  shows "mp_ok k s live p"
  unfolding mp_ok_def
proof (intro conjI)
  show "case mp_capacity s of None \<Rightarrow> mp_send_waiters s = []
      | Some c \<Rightarrow> length (mp_queue s) + mp_reserved s \<le> c \<and> (mp_receiver_alive s \<and> mp_send_waiters s \<noteq> [] \<longrightarrow>
          c \<le> length (mp_queue s) + mp_reserved s + tally slot_offer (mp_futs s) live + k)"
    using assms(6,7,8) by (cases "mp_capacity s") simp_all
qed (use assms(1-5) in blast)+

text \<open>Only the numbers change.\<close>

lemma mp_ok_numbers:
  assumes ok: "mp_ok k s live p"
    and s': "mp_futs s' = mp_futs s" "mp_send_waiters s' = mp_send_waiters s" "mp_capacity s' = mp_capacity s"
    "mp_receiver_alive s' = mp_receiver_alive s"
    and res: "mp_reserved s' + p = mp_reserved s + p'"
    and bound: "\<And>c. mp_capacity s = Some c \<Longrightarrow> length (mp_queue s') + mp_reserved s' \<le> c"
    and offer: "mp_send_waiters s \<noteq> [] \<Longrightarrow> length (mp_queue s) + mp_reserved s + k \<le> length (mp_queue s') + mp_reserved s' + k'"
  shows "mp_ok k' s' live p'"
proof -
  note d = mp_okD [OF ok]
  show ?thesis
  proof (rule mp_okI)
    show "c \<le> length (mp_queue s') + mp_reserved s' + tally slot_offer (mp_futs s') live + k'"
      if "mp_capacity s' = Some c" "mp_receiver_alive s'" "mp_send_waiters s' \<noteq> []" for c
      using d(8) [of c] offer that s' by simp
    show "mp_reserved s' = p' + tally slot_holder (mp_futs s') live" using d(5) res s'(1) by simp
  qed (use d(1-4,6) s' bound in simp_all)
qed

lemma mp_ok_fields:
  assumes ok: "mp_ok k s live p"
  shows "mp_ok k (s\<lparr>mp_senders := n\<rparr>) live p" "mp_ok k (s\<lparr>mp_recv_waker := w\<rparr>) live p"
proof -
  show "mp_ok k (s\<lparr>mp_senders := n\<rparr>) live p" by (rule mp_ok_numbers [OF ok]) (use mp_okD(7) [OF ok] in simp_all)
  show "mp_ok k (s\<lparr>mp_recv_waker := w\<rparr>) live p" by (rule mp_ok_numbers [OF ok]) (use mp_okD(7) [OF ok] in simp_all)
qed

lemma mp_ok_new_future:
  assumes ok: "mp_ok 0 s live p" and i: "i \<notin> live" and x: "\<not> mw_granted x" "\<not> mf_registered x"
  shows "mp_ok 0 (upd_fut i (\<lambda>_. x) s) (insert i live) p"
proof -
  note d = mp_okD [OF ok]
  have n: "\<not> slot_holder x" "\<not> slot_offer x" using x by (simp_all add: slot_defs)
  have t: "tally slot_holder ((mp_futs s)(i := x)) (insert i live) = tally slot_holder (mp_futs s) live"
    "tally slot_offer ((mp_futs s)(i := x)) (insert i live) = tally slot_offer (mp_futs s) live"
    using tally_insert [OF d(1) i, of slot_holder "mp_futs s" x] tally_insert [OF d(1) i, of slot_offer "mp_futs s" x] n by simp_all
  have w: "j \<in> set (mp_send_waiters s) \<Longrightarrow> j \<noteq> i" for j using d(3) i by blast
  show ?thesis
  proof (rule mp_okI)
    fix j assume "j \<in> insert i live" "mp_receiver_alive (upd_fut i (\<lambda>_. x) s)" "mf_registered (mp_futs (upd_fut i (\<lambda>_. x) s) j)"
      "\<not> mw_granted (mp_futs (upd_fut i (\<lambda>_. x) s) j)"
    then show "j \<in> set (mp_send_waiters (upd_fut i (\<lambda>_. x) s))" using d(4) [of j] x by (cases "j = i") auto
  next
    fix j assume "j \<in> set (mp_send_waiters (upd_fut i (\<lambda>_. x) s))"
    then show "j \<in> insert i live \<and> mf_registered (mp_futs (upd_fut i (\<lambda>_. x) s) j) \<and> \<not> mw_granted (mp_futs (upd_fut i (\<lambda>_. x) s) j)"
      using d(3) [of j] w [of j] by simp
  qed (use d(1,2,5,6,7,8) t in simp_all)
qed

lemma mp_ok_queue:
  assumes ok: "mp_ok 0 s live p" and c: "capacity_available s" and w: "mp_send_waiters s = []"
  shows "mp_ok 0 (s\<lparr>mp_queue := mp_queue s @ [x], mp_recv_waker := v\<rparr>) live p"
  by (rule mp_ok_numbers [OF ok]) (use c w in \<open>simp_all add: capacity_available_def\<close>)

lemma mp_ok_pop:
  assumes ok: "mp_ok 0 s live p" and q: "mp_queue s = x # xs"
  shows "mp_ok 1 (s\<lparr>mp_queue := xs\<rparr>) live p"
  by (rule mp_ok_numbers [OF ok]) (use mp_okD(7) [OF ok] q in auto)

lemma mp_ok_permit:
  assumes ok: "mp_ok 0 s live p" and p: "0 < p"
  shows "mp_ok 1 (s\<lparr>mp_reserved := mp_reserved s - 1\<rparr>) live (p - 1)"
    "mp_ok 0 (s\<lparr>mp_reserved := mp_reserved s - 1, mp_queue := mp_queue s @ [x], mp_recv_waker := v\<rparr>) live (p - 1)"
    "0 < mp_reserved s"
proof -
  note d = mp_okD [OF ok]
  show r: "0 < mp_reserved s" using d(5) p by simp
  show "mp_ok 1 (s\<lparr>mp_reserved := mp_reserved s - 1\<rparr>) live (p - 1)"
    by (rule mp_ok_numbers [OF ok]) (use r p d(7) in fastforce)+
  show "mp_ok 0 (s\<lparr>mp_reserved := mp_reserved s - 1, mp_queue := mp_queue s @ [x], mp_recv_waker := v\<rparr>) live (p - 1)"
    by (rule mp_ok_numbers [OF ok]) (use r p d(7) in fastforce)+
qed

lemma receiver_drop_fold:
  "mp_ok k s live p \<Longrightarrow> mp_send_waiters s = [] \<Longrightarrow> \<not> mp_receiver_alive s \<Longrightarrow>
   let s' = fold (\<lambda>i. upd_fut i (\<lambda>w. w\<lparr>mw_waker := None\<rparr>)) is s
   in mp_ok k s' live p \<and> mp_queue s' = mp_queue s \<and> mp_capacity s' = mp_capacity s"
proof (induction "is" arbitrary: s)
  case (Cons i "is")
  note d = mp_okD [OF Cons.prems(1)]
  let ?s = "upd_fut i (\<lambda>w. w\<lparr>mw_waker := None\<rparr>) s"
  have t: "tally slot_holder (mp_futs ?s) live = tally slot_holder (mp_futs s) live"
    using tally_same [of slot_holder "mp_futs s" i "(mp_futs s i)\<lparr>mw_waker := None\<rparr>"] by (simp add: slot_defs)
  have "mp_ok k ?s live p"
    by (rule mp_okI) (use d(1,5,7) t Cons.prems(2,3) in auto)
  from Cons.IH [OF this] Cons.prems show ?case by simp
qed simp

section \<open>Reachable channels\<close>

definition mpsc_inv :: "nat option \<Rightarrow> 'a mpsc_sys \<Rightarrow> bool" where
  "mpsc_inv cap y \<longleftrightarrow> mp_ok 0 (ms_chan y) (ms_live y) (ms_permits y) \<and> mp_capacity (ms_chan y) = cap
     \<and> ms_accepted y = ms_received y @ mp_queue (ms_chan y)"

lemma unregister_simps [simp]:
  "mp_futs (unregister i s) = mp_futs s" "mp_queue (unregister i s) = mp_queue s" "mp_capacity (unregister i s) = mp_capacity s"
  "mp_receiver_alive (unregister i s) = mp_receiver_alive s" "mp_reserved (unregister i s) = mp_reserved s"
  "mp_send_waiters (unregister i s) = (if mf_registered (mp_futs s i) then filter (\<lambda>j. j \<noteq> i) (mp_send_waiters s) else mp_send_waiters s)"
  by (simp_all add: unregister_def)

lemma send_drop_ok:
  assumes ok: "mp_ok 0 s live p" and i: "i \<in> live" "\<not> mw_reserves (mp_futs s i)" and dr: "send_drop i s = (s', ws)"
  shows "mp_ok 0 s' (live - {i}) p \<and> mp_queue s' = mp_queue s \<and> mp_capacity s' = mp_capacity s"
proof -
  let ?s = "unregister i (upd_fut i (\<lambda>w. w\<lparr>mw_granted := False\<rparr>) s)"
  have l: "mp_ok (of_bool (mw_granted (mp_futs s i))) ?s (live - {i}) p"
    by (rule mp_ok_leave [OF ok i(1)]) (use i(2) in \<open>simp_all add: slot_holder_def\<close>)
  show ?thesis
  proof (cases "mw_granted (mp_futs s i)")
    case True
    then show ?thesis using wake_one_ok [of ?s "live - {i}" p s' ws] l dr by (simp add: send_drop_def)
  next
    case False
    then show ?thesis using l dr by (auto simp: send_drop_def)
  qed
qed

lemma reserve_drop_ok:
  assumes ok: "mp_ok 0 s live p" and i: "i \<in> live" "mw_reserves (mp_futs s i)"
  shows "\<exists>s' ws. reserve_drop i s = Inr (s', ws) \<and> mp_ok 0 s' (live - {i}) p \<and> mp_queue s' = mp_queue s \<and> mp_capacity s' = mp_capacity s"
proof (cases "mw_granted (mp_futs s i)")
  case True
  let ?s = "(unregister i (upd_fut i (\<lambda>w. w\<lparr>mw_granted := False\<rparr>) s))\<lparr>mp_reserved := mp_reserved s - 1\<rparr>"
  have "0 < tally slot_holder (mp_futs s) live"
    using tally_0 [OF mp_okD(1) [OF ok], of slot_holder "mp_futs s"] i True by (auto simp: slot_holder_def)
  then have r: "0 < mp_reserved s" using mp_okD(5) [OF ok] by simp
  have l: "mp_ok 1 ?s (live - {i}) p"
    using mp_ok_leave [OF ok i(1), of ?s] True i(2) by (simp add: slot_holder_def)
  obtain s' ws where w: "wake_one_sender ?s = (s', ws)" by fastforce
  then show ?thesis using wake_one_ok [OF l w] True r by (auto simp: reserve_drop_def)
next
  case False
  let ?s = "unregister i (upd_fut i (\<lambda>w. w\<lparr>mw_granted := False\<rparr>) s)"
  have "mp_ok 0 ?s (live - {i}) p"
    using mp_ok_leave [OF ok i(1), of ?s] False by (simp add: slot_holder_def)
  then show ?thesis using False by (auto simp: reserve_drop_def)
qed

text \<open>Every operation keeps the invariant.\<close>

lemma permit_send_ok:
  assumes ok: "mp_ok 0 s live p" and p: "0 < p"
  shows "\<exists>s' r ws. permit_send x s = Inr (s', r, ws) \<and> mp_ok 0 s' live (p - 1) \<and> mp_capacity s' = mp_capacity s
    \<and> mp_queue s' = mp_queue s @ (if r = Inr () then [x] else [])"
proof (cases "mp_receiver_alive s")
  case True
  then show ?thesis using mp_ok_permit(2,3) [OF ok p] by (simp add: permit_send_def)
next
  case False
  have w: "mp_ok 0 (s\<lparr>mp_reserved := mp_reserved s - 1\<rparr>) live (p - 1)"
    using mp_okD [OF mp_ok_permit(1) [OF ok p]] False by (intro mp_okI) auto
  then show ?thesis using mp_ok_permit(3) [OF ok p] False by (simp add: permit_send_def)
qed

lemma mpsc_permit_drop_ok:
  assumes ok: "mp_ok 0 s live p" and p: "0 < p"
  shows "\<exists>s' ws. mpsc_permit_drop s = Inr (s', ws) \<and> mp_ok 0 s' live (p - 1) \<and> mp_capacity s' = mp_capacity s \<and> mp_queue s' = mp_queue s"
proof -
  obtain s' ws where w: "wake_one_sender (s\<lparr>mp_reserved := mp_reserved s - 1\<rparr>) = (s', ws)" by fastforce
  show ?thesis using wake_one_ok [OF mp_ok_permit(1) [OF ok p] w] w mp_ok_permit(3) [OF ok p] by (simp add: mpsc_permit_drop_def)
qed

lemma recv_body_ok:
  assumes ok: "mp_ok 0 s live p" and b: "recv_body cx (s, rx) = ((s', rx'), r, ws)"
  shows "mp_ok 0 s' live p \<and> mp_capacity s' = mp_capacity s
    \<and> mp_queue s = (case r of Ready (Some x) \<Rightarrow> [x] | _ \<Rightarrow> []) @ mp_queue s'"
proof (cases "mp_queue s")
  case Nil
  then show ?thesis using ok b mp_ok_fields(2) [OF ok] by (auto simp: recv_body_def split: if_splits)
next
  case (Cons x xs)
  obtain t v where w: "wake_one_sender (s\<lparr>mp_queue := xs\<rparr>) = (t, v)" by fastforce
  show ?thesis using wake_one_ok [OF mp_ok_pop [OF ok Cons] w] w b Cons by (auto simp: recv_body_def)
qed

lemma receiver_drop_ok:
  assumes ok: "mp_ok 0 s live p" and r: "receiver_drop (s, rx) = ((s', rx'), ws)"
  shows "mp_ok 0 s' live p \<and> mp_capacity s' = mp_capacity s \<and> mp_queue s' = mp_queue s"
proof (cases rx)
  case True
  let ?s = "s\<lparr>mp_receiver_alive := False, mp_send_waiters := []\<rparr>"
  have "mp_ok 0 ?s live p" using mp_okD [OF ok] by (intro mp_okI) auto
  from receiver_drop_fold [OF this, of "mp_send_waiters s"] True r show ?thesis by (auto simp: receiver_drop_def Let_def)
qed (use ok r in \<open>simp add: receiver_drop_def\<close>)

lemma mpsc_reach_inv: "mpsc_reach cap y \<Longrightarrow> mpsc_inv cap y"
proof (induction rule: mpsc_reach.induct)
  case start
  then show ?case by (auto simp: mpsc_inv_def mpsc_start_def channel_inner_def intro!: mp_okI)
next
  case (clone y)
  then show ?case by (simp add: mpsc_inv_def sender_clone_def mp_ok_fields)
next
  case (sender_drop y s ws)
  then show ?case by (auto simp: mpsc_inv_def sender_drop_def Let_def mp_ok_fields split: if_splits)
next
  case (send y i x)
  then show ?case by (simp add: mpsc_inv_def mp_ok_new_future send_fut_new_def)
next
  case (reserve y i)
  then show ?case by (simp add: mpsc_inv_def mp_ok_new_future reserve_fut_new_def)
next
  case (send_poll y i x b cx b' s r ws)
  from coop_poll_cases [OF send_poll.hyps(5) [unfolded send_poll_def]] show ?case
    using send_poll.IH send_body_ok [OF _ send_poll.hyps(2-4), of "ms_permits y" cx s r ws]
    by (auto simp: mpsc_inv_def chan_frame_def)
next
  case (send_drop y i s ws)
  then show ?case using send_drop_ok [OF _ send_drop.hyps(2-4), of "ms_permits y"] by (simp add: mpsc_inv_def)
next
  case (reserve_poll y i b cx b' s r ws)
  from coop_poll_cases [OF reserve_poll.hyps(4) [unfolded reserve_poll_def]] show ?case
    using reserve_poll.IH reserve_body_ok [OF _ reserve_poll.hyps(2-3), of "ms_permits y" cx s r ws]
    by (auto simp: mpsc_inv_def chan_frame_def)
next
  case (reserve_drop y i s ws)
  then show ?case using reserve_drop_ok [OF _ reserve_drop.hyps(2,3)] by (fastforce simp: mpsc_inv_def)
next
  case (permit_send y x s r ws)
  then show ?case using permit_send_ok [of "ms_chan y" "ms_live y" "ms_permits y" x] by (simp add: mpsc_inv_def)
next
  case (permit_drop y s ws)
  then show ?case using mpsc_permit_drop_ok [of "ms_chan y" "ms_live y" "ms_permits y"] by (simp add: mpsc_inv_def)
next
  case (try_send y x s r ws)
  then show ?case by (auto simp: mpsc_inv_def try_send_def mp_ok_queue split: if_splits)
next
  case (recv y b cx b' s rx r ws)
  then have "coop_poll b cx (ms_chan y, ms_rx y) (recv_body cx (ms_chan y, ms_rx y)) = (b', (s, rx), r, ws)"
    by (auto simp: recv_poll_def split: if_splits)
  from coop_poll_cases [OF this] show ?case
    using recv.IH recv_body_ok [of "ms_chan y" "ms_live y" "ms_permits y" cx "ms_rx y" s rx r ws]
    by (auto simp: mpsc_inv_def)
next
  case (receiver_drop y s rx ws)
  then show ?case using receiver_drop_ok [OF _ receiver_drop.hyps(2), of "ms_live y" "ms_permits y"] by (simp add: mpsc_inv_def)
qed

lemma mpsc_reach_ok: "mpsc_reach cap y \<Longrightarrow> mp_ok 0 (ms_chan y) (ms_live y) (ms_permits y)"
  "mpsc_reach cap y \<Longrightarrow> mp_capacity (ms_chan y) = cap"
  using mpsc_reach_inv by (auto simp: mpsc_inv_def)

text \<open>A short run used by the examples: one value is sent and a \<open>Reserve\<close> obtains the second slot.\<close>

definition mpsc_demo :: "nat mpsc_sys" where
  "mpsc_demo = \<lparr>ms_chan = (channel_inner (Some 2))\<lparr>mp_queue := [7], mp_reserved := 1\<rparr>, ms_rx = True, ms_live = {0},
     ms_permits = 1, ms_accepted = [7], ms_received = []\<rparr>"

lemma mpsc_demo_reach: "mpsc_reach (Some 2) mpsc_demo"
proof -
  let ?y0 = "mpsc_start (Some 2) :: nat mpsc_sys"
  let ?y1 = "?y0\<lparr>ms_chan := (channel_inner (Some 2))\<lparr>mp_queue := [7]\<rparr>, ms_accepted := [7]\<rparr>"
  let ?y2 = "?y1\<lparr>ms_live := {0}\<rparr>"
  have "mpsc_reach (Some 2) ?y0" by (rule mpsc_reach.start) simp
  from mpsc_reach.try_send [OF this, of 7 "ms_chan ?y1" "Inr ()" "[]"] have "mpsc_reach (Some 2) ?y1"
    by (simp add: mpsc_start_def channel_inner_def try_send_def capacity_available_def wakes_of_def)
  from mpsc_reach.reserve [OF this, of 0] have 2: "mpsc_reach (Some 2) ?y2"
    by (simp add: mpsc_start_def channel_inner_def upd_fut_def fun_upd_idem)
  from mpsc_reach.reserve_poll [OF 2, of 0 None 5 None "ms_chan mpsc_demo" "Ready (Inr ())" "[]"] show ?thesis
    by (simp add: mpsc_demo_def mpsc_start_def channel_inner_def reserve_poll_def coop_poll_def poll_proceed_def reserve_body_def
        reserve_fut_new_def upd_fut_def capacity_available_def fun_upd_idem)
qed

lemmas mpsc_run_defs = mpsc_start_def channel_inner_def upd_fut_def capacity_available_def wakes_of_def coop_poll_def poll_proceed_def
  try_send_def send_poll_def send_body_def send_fut_new_def reserve_poll_def reserve_body_def reserve_fut_new_def reserve_drop_def unregister_def
  sender_drop_def recv_poll_def recv_body_def wake_one_sender_def Let_def

text \<open>Two sends wait on a full channel of capacity one; the receiver takes the value.\<close>

definition mpsc_full :: "nat mpsc_sys" where
  "mpsc_full = (mpsc_start (Some 1))\<lparr>ms_chan := (channel_inner (Some 1))\<lparr>mp_send_waiters := [1], mp_futs := (\<lambda>_. reserve_fut_new)
       (0 := (send_fut_new 8)\<lparr>mw_granted := True, mf_registered := True\<rparr>,
        1 := (send_fut_new 9)\<lparr>mw_waker := Some 6, mf_registered := True\<rparr>)\<rparr>,
     ms_live := {1, 0}, ms_accepted := [7], ms_received := [7]\<rparr>"

lemma mpsc_full_reach: "mpsc_reach (Some 1) mpsc_full"
proof -
  let ?y0 = "mpsc_start (Some 1) :: nat mpsc_sys"
  let ?c1 = "(channel_inner (Some 1))\<lparr>mp_queue := [7::nat]\<rparr>"
  let ?f1 = "(\<lambda>_. reserve_fut_new)(0 := (send_fut_new (8::nat))\<lparr>mw_waker := Some 5, mf_registered := True\<rparr>)"
  let ?c2 = "?c1\<lparr>mp_send_waiters := [0], mp_futs := ?f1\<rparr>"
  let ?c3 = "?c1\<lparr>mp_send_waiters := [0, 1], mp_futs := ?f1(1 := (send_fut_new (9::nat))\<lparr>mw_waker := Some 6, mf_registered := True\<rparr>)\<rparr>"
  have "mpsc_reach (Some 1) ?y0" by (rule mpsc_reach.start) simp
  from mpsc_reach.try_send [OF this, of 7 ?c1 "Inr ()" "[]"] have "mpsc_reach (Some 1) (?y0\<lparr>ms_chan := ?c1, ms_accepted := [7]\<rparr>)"
    by (simp add: mpsc_run_defs)
  note mpsc_reach.send [OF this, of 0 8]
  note mpsc_reach.send_poll [OF this, of 0 8 None 5 None ?c2 Pending "[]"]
  then have "mpsc_reach (Some 1) (?y0\<lparr>ms_chan := ?c2, ms_live := {0}, ms_accepted := [7]\<rparr>)"
    by (simp add: mpsc_run_defs)
  note mpsc_reach.send [OF this, of 1 9]
  note mpsc_reach.send_poll [OF this, of 1 9 None 6 None ?c3 Pending "[]"]
  then have "mpsc_reach (Some 1) (?y0\<lparr>ms_chan := ?c3, ms_live := {1, 0}, ms_accepted := [7]\<rparr>)"
    by (simp add: mpsc_run_defs)
  note mpsc_reach.recv [OF this, of None 3 None "ms_chan mpsc_full" True "Ready (Some 7)" "[5]"]
  then show ?thesis by (simp add: mpsc_run_defs mpsc_full_def fun_upd_twist [of "Suc 0" 0])
qed

section \<open>Receiving many\<close>

text \<open>A \<open>recv\<close> that is pending has used up the budget or found the queue empty and left its waker.\<close>

lemma recv_poll_cases:
  assumes "recv_poll b cx (s, rx) = Inr (b', (s', rx'), r, ws)"
  shows "(r = Pending \<longrightarrow> (b = Some 0 \<and> s' = s \<and> ws = [cx]) \<or> (mp_queue s' = [] \<and> mp_recv_waker s' = Some cx))
    \<and> (r = Ready None \<longrightarrow> mp_queue s' = [] \<and> mp_senders s' = 0 \<and> \<not> rx') \<and> (\<forall>x. r = Ready (Some x) \<longrightarrow> rx' = rx \<and> rx)"
  using assms
  by (auto simp: recv_poll_def coop_poll_def poll_proceed_def recv_body_def split: if_splits option.splits list.splits prod.splits)

text \<open>The loop is a run of \<open>recv\<close> steps.\<close>

lemma recv_many_loop_run:
  assumes "mpsc_reach cap y" "recv_many_loop n b cx (ms_chan y, ms_rx y) out = Inr (b', (s, rx), out', r, ws)"
  shows "\<exists>got. out' = out @ got \<and> length got \<le> n
    \<and> mpsc_reach cap (y\<lparr>ms_chan := s, ms_rx := rx, ms_received := ms_received y @ got\<rparr>)
    \<and> (r = Ready () \<longrightarrow> length got = n \<or> mp_queue s = [] \<and> mp_senders s = 0)
    \<and> (r = Pending \<longrightarrow> length got < n \<and> (b' = Some 0 \<and> cx \<in> set ws \<or> mp_queue s = [] \<and> mp_recv_waker s = Some cx))"
  using assms
proof (induction n arbitrary: y b out ws)
  case 0
  then show ?case by (cases y) auto
next
  case (Suc n)
  obtain b1 s1 rx1 r1 w1 where p: "recv_poll b cx (ms_chan y, ms_rx y) = Inr (b1, (s1, rx1), r1, w1)"
    using Suc.prems(2) by (cases "recv_poll b cx (ms_chan y, ms_rx y)") auto
  note step = mpsc_reach.recv [OF Suc.prems(1) p] and c = recv_poll_cases [OF p]
  have b0: "b = Some 0 \<Longrightarrow> b1 = Some 0" using p by (auto simp: recv_poll_def coop_poll_def poll_proceed_def)
  consider "r1 = Pending" | "r1 = Ready None" | x where "r1 = Ready (Some x)" by (cases r1) auto
  then show ?case
  proof cases
    case (3 x)
    let ?y = "y\<lparr>ms_chan := s1, ms_rx := rx1, ms_received := ms_received y @ [x]\<rparr>"
    obtain w2 where l: "recv_many_loop n b1 cx (ms_chan ?y, ms_rx ?y) (out @ [x]) = Inr (b', (s, rx), out', r, w2)" "ws = w1 @ w2"
      using Suc.prems(2) p 3 by (auto split: sum.splits prod.splits)
    from Suc.IH [OF _ l(1)] step 3 obtain got where
      "out' = (out @ [x]) @ got" "length got \<le> n"
      "mpsc_reach cap (?y\<lparr>ms_chan := s, ms_rx := rx, ms_received := ms_received ?y @ got\<rparr>)"
      "r = Ready () \<longrightarrow> length got = n \<or> mp_queue s = [] \<and> mp_senders s = 0"
      "r = Pending \<longrightarrow> length got < n \<and> (b' = Some 0 \<and> cx \<in> set w2 \<or> mp_queue s = [] \<and> mp_recv_waker s = Some cx)"
      by auto
    then show ?thesis using l(2) by (intro exI [of _ "x # got"]) auto
  qed (use Suc.prems(2) p step c b0 in \<open>auto intro!: exI [of _ "[]"]\<close>)
qed

section \<open>Properties\<close>

text \<open>C20. Exactly once, in order: in every execution of senders, reservations, permits and the receiver, what
  the receiver got followed by what is still queued is exactly what the accepted sends handed over, in that order.\<close>

theorem mpsc_exactly_once_in_order:
  assumes "mpsc_reach cap y"
  shows "ms_accepted y = ms_received y @ mp_queue (ms_chan y)"
  using mpsc_reach_inv [OF assms] by (simp add: mpsc_inv_def)

lemma mpsc_exactly_once_in_order_witness:
  "ms_accepted mpsc_demo = ms_received mpsc_demo @ mp_queue (ms_chan mpsc_demo) \<and> ms_accepted mpsc_demo = [7]"
  using mpsc_exactly_once_in_order [OF mpsc_demo_reach] by (simp add: mpsc_demo_def)

text \<open>A bounded channel never holds more than its capacity, counting the slots held by permits and by
  granted reservations; and a permit always finds its slot: sending through it or dropping it never
  underflows the reservation counter, and it leaves a queue within the capacity.\<close>

theorem mpsc_capacity_and_permits:
  assumes "mpsc_reach (Some c) y"
  shows "length (mp_queue (ms_chan y)) + ms_permits y + tally slot_holder (mp_futs (ms_chan y)) (ms_live y) \<le> c
    \<and> (0 < ms_permits y \<longrightarrow> (\<exists>s r ws. permit_send x (ms_chan y) = Inr (s, r, ws) \<and> length (mp_queue s) \<le> c)
         \<and> (\<exists>s ws. mpsc_permit_drop (ms_chan y) = Inr (s, ws)))"
proof -
  note ok = mpsc_reach_ok(1) [OF assms] and cap = mpsc_reach_ok(2) [OF assms]
  have "length (mp_queue (ms_chan y)) + ms_permits y + tally slot_holder (mp_futs (ms_chan y)) (ms_live y) \<le> c"
    using mp_okD(5) [OF ok] mp_okD(7) [OF ok cap] by simp
  moreover have "(\<exists>s r ws. permit_send x (ms_chan y) = Inr (s, r, ws) \<and> length (mp_queue s) \<le> c)
         \<and> (\<exists>s ws. mpsc_permit_drop (ms_chan y) = Inr (s, ws))" if p: "0 < ms_permits y"
  proof -
    obtain s r ws where s: "permit_send x (ms_chan y) = Inr (s, r, ws)" "mp_ok 0 s (ms_live y) (ms_permits y - 1)" "mp_capacity s = Some c"
      using permit_send_ok [OF ok p, of x] cap by auto
    have "length (mp_queue s) \<le> c" using mp_okD(7) [OF s(2,3)] by simp
    then show ?thesis using s(1) mpsc_permit_drop_ok [OF ok p] by auto
  qed
  ultimately show ?thesis by blast
qed

lemma mpsc_capacity_and_permits_witness:
  "length (mp_queue (ms_chan mpsc_demo)) + ms_permits mpsc_demo + tally slot_holder (mp_futs (ms_chan mpsc_demo)) (ms_live mpsc_demo) \<le> 2
   \<and> (\<exists>s r ws. permit_send 8 (ms_chan mpsc_demo) = Inr (s, r, ws) \<and> length (mp_queue s) \<le> 2)"
  using mpsc_capacity_and_permits [OF mpsc_demo_reach, of 8] by (simp add: mpsc_demo_def)

text \<open>No lost wakeup for senders: while the receiver is alive, if some sender is queued and the channel
  has room, then a live \<open>Send\<close> has been granted a slot and has yet to use it.\<close>

theorem mpsc_free_slot_is_offered:
  assumes "mpsc_reach cap y" "mp_receiver_alive (ms_chan y)" "mp_send_waiters (ms_chan y) \<noteq> []" "capacity_available (ms_chan y)"
  shows "\<exists>i\<in>ms_live y. mw_granted (mp_futs (ms_chan y) i) \<and> \<not> mw_reserves (mp_futs (ms_chan y) i)"
proof -
  note ok = mpsc_reach_ok(1) [OF assms(1)]
  obtain c where c: "mp_capacity (ms_chan y) = Some c" using mp_okD(6) [OF ok] assms(3) by (cases "mp_capacity (ms_chan y)") auto
  then have "0 < tally slot_offer (mp_futs (ms_chan y)) (ms_live y)"
    using mp_okD(8) [OF ok c assms(2,3)] assms(4) by (simp add: capacity_available_def)
  then show ?thesis using tally_0 [OF mp_okD(1) [OF ok], of slot_offer "mp_futs (ms_chan y)"] by (auto simp: slot_offer_def)
qed

lemma mpsc_free_slot_is_offered_witness:
  "capacity_available (ms_chan mpsc_full) \<and> mp_send_waiters (ms_chan mpsc_full) = [1]
   \<and> (\<exists>i\<in>ms_live mpsc_full. mw_granted (mp_futs (ms_chan mpsc_full) i) \<and> \<not> mw_reserves (mp_futs (ms_chan mpsc_full) i))"
  using mpsc_free_slot_is_offered [OF mpsc_full_reach] by (simp add: mpsc_full_def mpsc_run_defs)

text \<open>Receiving many in one poll: the items go to the end of the vector in the order in which they were
  accepted, at most as many as the limit allows; the number returned is that of the items added since the
  start, and it falls short of the limit only when the channel is empty and all senders are gone. While
  it is pending either the budget is spent and the task is woken, or the channel is empty and its waker is
  in place.\<close>

theorem recv_many_in_order:
  assumes "mpsc_reach cap y" "start \<le> length out" "length out - start \<le> limit"
    "recv_many_poll start limit b cx (ms_chan y, ms_rx y) out = Inr (b', (s, rx), out', r, ws)"
  shows "\<exists>got. out' = out @ got \<and> ms_accepted y = ms_received y @ got @ mp_queue s \<and> length out' - start \<le> limit
    \<and> (\<forall>k. r = Ready k \<longrightarrow> k = length out' - start \<and> (k = limit \<or> mp_queue s = [] \<and> mp_senders s = 0))
    \<and> (r = Pending \<longrightarrow> length out' - start < limit \<and> (b' = Some 0 \<and> cx \<in> set ws \<or> mp_queue s = [] \<and> mp_recv_waker s = Some cx))"
proof -
  obtain r1 where l: "recv_many_loop (limit - (length out - start)) b cx (ms_chan y, ms_rx y) out = Inr (b', (s, rx), out', r1, ws)"
    and r: "r = (case r1 of Pending \<Rightarrow> Pending | Ready _ \<Rightarrow> Ready (length out' - start))"
    using assms(4) by (auto simp: recv_many_poll_def split: sum.splits prod.splits poll.splits)
  obtain got where g: "out' = out @ got" "length got \<le> limit - (length out - start)"
    "mpsc_reach cap (y\<lparr>ms_chan := s, ms_rx := rx, ms_received := ms_received y @ got\<rparr>)"
    "r1 = Ready () \<longrightarrow> length got = limit - (length out - start) \<or> mp_queue s = [] \<and> mp_senders s = 0"
    "r1 = Pending \<longrightarrow> length got < limit - (length out - start) \<and> (b' = Some 0 \<and> cx \<in> set ws \<or> mp_queue s = [] \<and> mp_recv_waker s = Some cx)"
    using recv_many_loop_run [OF assms(1) l] by auto
  have "ms_accepted y = ms_received y @ got @ mp_queue s" using mpsc_reach_inv [OF g(3)] by (simp add: mpsc_inv_def)
  moreover have "length out' - start \<le> limit" "length out' - start = length out - start + length got" using g(1,2) assms(2,3) by auto
  ultimately show ?thesis using g r assms(2,3) by (intro exI [of _ got]) (auto split: poll.splits)
qed

lemma recv_many_in_order_witness:
  "recv_many_poll 0 2 None 3 (ms_chan mpsc_demo, True) [] = Inr (None, ((ms_chan mpsc_demo)\<lparr>mp_queue := [], mp_recv_waker := Some 3\<rparr>, True), [7], Pending, [])
    \<and> (\<exists>got. [7] = [] @ got \<and> ms_accepted mpsc_demo = ms_received mpsc_demo @ got @ [])"
proof -
  have p: "recv_many_poll 0 2 None 3 (ms_chan mpsc_demo, ms_rx mpsc_demo) [] = Inr (None, ((ms_chan mpsc_demo)\<lparr>mp_queue := [], mp_recv_waker := Some 3\<rparr>, True), [7], Pending, [])"
    by (simp add: recv_many_poll_def mpsc_demo_def mpsc_run_defs numeral_2_eq_2)
  from recv_many_in_order [OF mpsc_demo_reach _ _ p] p show ?thesis by (auto simp: mpsc_demo_def)
qed

text \<open>A pending \<open>recv_many\<close> may have removed messages: with one message queued and a limit of two, a poll moves
  the message into the vector and is pending, so dropping the future leaves the channel empty.\<close>

lemma recv_many_pending_has_removed:
  "mpsc_reach (Some 2) mpsc_demo \<and> mp_queue (ms_chan mpsc_demo) = [7]
    \<and> (\<exists>s. recv_many_poll 0 2 None cx (ms_chan mpsc_demo, ms_rx mpsc_demo) [] = Inr (None, (s, True), [7], Pending, []) \<and> mp_queue s = [])"
  using mpsc_demo_reach by (simp add: recv_many_poll_def mpsc_demo_def mpsc_run_defs numeral_2_eq_2)

text \<open>A permit outlives the senders: when the last sender is dropped while a permit is out, the receiver
  reports the end of the channel and forgets it without marking itself gone; a send through the
  permit is then accepted, and the next \<open>recv\<close> panics instead of returning that value.\<close>

theorem permit_sends_into_a_finished_channel:
  "\<exists>y s. mpsc_reach (Some 2) y \<and> \<not> ms_rx y \<and> ms_permits y = 1 \<and> permit_send x (ms_chan y) = Inr (s, Inr (), [])
     \<and> mp_queue s = [x] \<and> recv_poll None cx (s, ms_rx y) = Inl ReceiverDropped"
proof -
  let ?y0 = "mpsc_start (Some 2) :: 'a mpsc_sys"
  let ?c1 = "(channel_inner (Some 2) :: 'a mpsc)\<lparr>mp_reserved := 1\<rparr>"
  let ?c2 = "?c1\<lparr>mp_senders := 0\<rparr>"
  let ?fin = "?y0\<lparr>ms_chan := ?c2, ms_permits := 1, ms_rx := False\<rparr>"
  have "mpsc_reach (Some 2) ?y0" by (rule mpsc_reach.start) simp
  note mpsc_reach.reserve [OF this, of 0]
  note mpsc_reach.reserve_poll [OF this, of 0 None 5 None ?c1 "Ready (Inr ())" "[]"]
  then have 1: "mpsc_reach (Some 2) (?y0\<lparr>ms_chan := ?c1, ms_live := {0}, ms_permits := 1\<rparr>)"
    by (simp add: mpsc_run_defs fun_upd_idem)
  from mpsc_reach.reserve_drop [OF 1, of 0 ?c1 "[]"] have 2: "mpsc_reach (Some 2) (?y0\<lparr>ms_chan := ?c1, ms_permits := 1\<rparr>)"
    by (simp add: mpsc_run_defs fun_upd_idem)
  from mpsc_reach.sender_drop [OF 2, of ?c2 "[]"] have 3: "mpsc_reach (Some 2) (?y0\<lparr>ms_chan := ?c2, ms_permits := 1\<rparr>)"
    by (simp add: mpsc_run_defs)
  from mpsc_reach.recv [OF 3, of None 3 None ?c2 False "Ready None" "[]"] have "mpsc_reach (Some 2) ?fin"
    by (simp add: mpsc_run_defs)
  then show ?thesis
    by (intro exI [of _ ?fin] exI [of _ "?c2\<lparr>mp_reserved := 0, mp_queue := [x]\<rparr>"]) (simp add: permit_send_def mpsc_run_defs)
qed

end
