(* ===== verification/Rwlock.thy ===== *)
theory Rwlock
  imports Coop
begin

text \<open>
  The readers-writer lock of \<open>sync/rwlock.rs\<close>. The state mutex makes each operation atomic; the
  \<open>Read\<close> and \<open>Write\<close> futures with their shared waiter nodes live in a store and the queue holds
  their names. \<open>rw_reach\<close> runs any number of futures and guards; \<open>rw_ok\<close> is its invariant.
\<close>

section \<open>Model\<close>

datatype WaitKind = Reader | Writer

record rw_fut =
  rw_kind :: WaitKind
  rw_granted :: bool
  rw_waker :: "waker option"
  rw_registered :: bool

record rwlock =
  rw_readers :: nat
  rw_writer :: bool
  rw_waiting_writers :: nat
  rw_queue :: "nat list"
  rw_futs :: "nat \<Rightarrow> rw_fut"

text \<open>\<open>Inl ()\<close> is the panic of an unsigned counter that would go below zero.\<close>

type_synonym 'r rw_result = "unit + 'r"

definition rw_fut_new :: "WaitKind \<Rightarrow> rw_fut" where
  "rw_fut_new k = \<lparr>rw_kind = k, rw_granted = False, rw_waker = None, rw_registered = False\<rparr>"

definition rwlock_new :: rwlock where
  "rwlock_new = \<lparr>rw_readers = 0, rw_writer = False, rw_waiting_writers = 0, rw_queue = [], rw_futs = (\<lambda>_. rw_fut_new Reader)\<rparr>"

definition upd_rw :: "nat \<Rightarrow> (rw_fut \<Rightarrow> rw_fut) \<Rightarrow> rwlock \<Rightarrow> rwlock" where
  "upd_rw i f s = s\<lparr>rw_futs := (rw_futs s)(i := f (rw_futs s i))\<rparr>"

text \<open>Setting \<open>granted\<close> and then taking the waker.\<close>

definition grant_waiter :: "nat \<Rightarrow> rwlock \<Rightarrow> rwlock \<times> waker list" where
  "grant_waiter i s = (upd_rw i (\<lambda>w. w\<lparr>rw_granted := True, rw_waker := None\<rparr>) s, wakes_of (rw_waker (rw_futs s i)))"

function wake_readers_locked :: "rwlock \<Rightarrow> rwlock \<times> waker list" where
  "wake_readers_locked s =
     (case rw_queue s of
        [] \<Rightarrow> (s, [])
      | i # is \<Rightarrow>
          if rw_kind (rw_futs s i) \<noteq> Reader then (s, [])
          else
            let (s, ws) = grant_waiter i (s\<lparr>rw_queue := is, rw_readers := rw_readers s + 1\<rparr>);
                (s, ws') = wake_readers_locked s
            in (s, ws @ ws'))"
  by pat_completeness auto
termination
  by (relation "measure (\<lambda>s. length (rw_queue s))") (auto simp: grant_waiter_def upd_rw_def)

declare wake_readers_locked.simps [simp del]

definition wake_next_locked :: "rwlock \<Rightarrow> (rwlock \<times> waker list) rw_result" where
  "wake_next_locked s =
     (if rw_writer s then Inr (s, [])
      else if rw_readers s \<noteq> 0 then
        (case rw_queue s of
           i # _ \<Rightarrow> if rw_kind (rw_futs s i) = Writer then Inr (s, []) else Inr (wake_readers_locked s)
         | [] \<Rightarrow> Inr (wake_readers_locked s))
      else case rw_queue s of
        i # is \<Rightarrow>
          if rw_kind (rw_futs s i) = Writer then
            if rw_waiting_writers s = 0 then Inl ()
            else Inr (grant_waiter i (s\<lparr>rw_queue := is, rw_waiting_writers := rw_waiting_writers s - 1, rw_writer := True\<rparr>))
          else Inr (wake_readers_locked s)
      | [] \<Rightarrow> Inr (wake_readers_locked s))"

definition try_read :: "rwlock \<Rightarrow> rwlock \<times> bool" where
  "try_read s =
     (if rw_writer s \<or> rw_waiting_writers s \<noteq> 0 \<or> rw_queue s \<noteq> [] then (s, False)
      else (s\<lparr>rw_readers := rw_readers s + 1\<rparr>, True))"

definition try_write :: "rwlock \<Rightarrow> rwlock \<times> bool" where
  "try_write s =
     (if rw_writer s \<or> rw_readers s \<noteq> 0 \<or> rw_queue s \<noteq> [] then (s, False) else (s\<lparr>rw_writer := True\<rparr>, True))"

definition read_body :: "nat \<Rightarrow> waker \<Rightarrow> rwlock \<Rightarrow> rwlock \<times> unit poll \<times> waker list" where
  "read_body i cx s =
     (let granted = rw_granted (rw_futs s i);
          s = upd_rw i (\<lambda>w. w\<lparr>rw_granted := False\<rparr>) s
      in if granted then (upd_rw i (\<lambda>w. w\<lparr>rw_registered := False\<rparr>) s, Ready (), [])
         else if \<not> rw_registered (rw_futs s i) \<and> \<not> rw_writer s \<and> rw_waiting_writers s = 0 \<and> rw_queue s = []
         then (s\<lparr>rw_readers := rw_readers s + 1\<rparr>, Ready (), [])
         else
           let s = upd_rw i (\<lambda>w. w\<lparr>rw_waker := Some cx\<rparr>) s;
               s = (if \<not> rw_registered (rw_futs s i)
                    then upd_rw i (\<lambda>w. w\<lparr>rw_registered := True\<rparr>) (s\<lparr>rw_queue := rw_queue s @ [i]\<rparr>)
                    else s)
           in (s, Pending, []))"

definition read_poll :: "budget \<Rightarrow> nat \<Rightarrow> waker \<Rightarrow> rwlock \<Rightarrow> budget \<times> rwlock \<times> unit poll \<times> waker list" where
  "read_poll b i cx s = coop_poll b cx s (read_body i cx s)"

definition read_drop :: "nat \<Rightarrow> rwlock \<Rightarrow> (rwlock \<times> waker list) rw_result" where
  "read_drop i s =
     (let granted = rw_granted (rw_futs s i);
          s = upd_rw i (\<lambda>w. w\<lparr>rw_granted := False\<rparr>) s
      in if granted then
           (if rw_readers s = 0 then Inl () else wake_next_locked (s\<lparr>rw_readers := rw_readers s - 1\<rparr>))
         else if rw_registered (rw_futs s i) then Inr (s\<lparr>rw_queue := filter (\<lambda>j. j \<noteq> i) (rw_queue s)\<rparr>, [])
         else Inr (s, []))"

definition write_body :: "nat \<Rightarrow> waker \<Rightarrow> rwlock \<Rightarrow> rwlock \<times> unit poll \<times> waker list" where
  "write_body i cx s =
     (let granted = rw_granted (rw_futs s i);
          s = upd_rw i (\<lambda>w. w\<lparr>rw_granted := False\<rparr>) s
      in if granted then (upd_rw i (\<lambda>w. w\<lparr>rw_registered := False\<rparr>) s, Ready (), [])
         else if \<not> rw_registered (rw_futs s i) \<and> \<not> rw_writer s \<and> rw_readers s = 0 \<and> rw_queue s = []
         then (s\<lparr>rw_writer := True\<rparr>, Ready (), [])
         else
           let s = upd_rw i (\<lambda>w. w\<lparr>rw_waker := Some cx\<rparr>) s;
               s = (if \<not> rw_registered (rw_futs s i)
                    then upd_rw i (\<lambda>w. w\<lparr>rw_registered := True\<rparr>)
                      (s\<lparr>rw_waiting_writers := rw_waiting_writers s + 1, rw_queue := rw_queue s @ [i]\<rparr>)
                    else s)
           in (s, Pending, []))"

definition write_poll :: "budget \<Rightarrow> nat \<Rightarrow> waker \<Rightarrow> rwlock \<Rightarrow> budget \<times> rwlock \<times> unit poll \<times> waker list" where
  "write_poll b i cx s = coop_poll b cx s (write_body i cx s)"

definition write_drop :: "nat \<Rightarrow> rwlock \<Rightarrow> (rwlock \<times> waker list) rw_result" where
  "write_drop i s =
     (let granted = rw_granted (rw_futs s i);
          s = upd_rw i (\<lambda>w. w\<lparr>rw_granted := False\<rparr>) s
      in if granted then wake_next_locked (s\<lparr>rw_writer := False\<rparr>)
         else if rw_registered (rw_futs s i) then
           (if rw_waiting_writers s = 0 then Inl ()
            else Inr (s\<lparr>rw_queue := filter (\<lambda>j. j \<noteq> i) (rw_queue s), rw_waiting_writers := rw_waiting_writers s - 1\<rparr>, []))
         else Inr (s, []))"

definition read_guard_drop :: "rwlock \<Rightarrow> (rwlock \<times> waker list) rw_result" where
  "read_guard_drop s =
     (if rw_readers s = 0 then Inl () else wake_next_locked (s\<lparr>rw_readers := rw_readers s - 1\<rparr>))"

definition downgrade :: "rwlock \<Rightarrow> (rwlock \<times> waker list) rw_result" where
  "downgrade s = wake_next_locked (s\<lparr>rw_writer := False, rw_readers := 1\<rparr>)"

definition write_guard_drop :: "rwlock \<Rightarrow> (rwlock \<times> waker list) rw_result" where
  "write_guard_drop s = wake_next_locked (s\<lparr>rw_writer := False\<rparr>)"

section \<open>All users of one lock\<close>

record rw_sys =
  rs_lock :: rwlock
  rs_live :: "nat set"
  rs_readers :: nat
  rs_writers :: nat

definition rw_start :: rw_sys where
  "rw_start = \<lparr>rs_lock = rwlock_new, rs_live = {}, rs_readers = 0, rs_writers = 0\<rparr>"

inductive rw_reach :: "rw_sys \<Rightarrow> bool" where
  start: "rw_reach rw_start"
| create: "rw_reach y \<Longrightarrow> i \<notin> rs_live y \<Longrightarrow>
    rw_reach (y\<lparr>rs_lock := upd_rw i (\<lambda>_. rw_fut_new k) (rs_lock y), rs_live := insert i (rs_live y)\<rparr>)"
| read_poll: "rw_reach y \<Longrightarrow> i \<in> rs_live y \<Longrightarrow> rw_kind (rw_futs (rs_lock y) i) = Reader \<Longrightarrow> read_poll b i cx (rs_lock y) = (b', s, r, ws) \<Longrightarrow>
    rw_reach (y\<lparr>rs_lock := s, rs_readers := rs_readers y + of_bool (r = Ready ())\<rparr>)"
| write_poll: "rw_reach y \<Longrightarrow> i \<in> rs_live y \<Longrightarrow> rw_kind (rw_futs (rs_lock y) i) = Writer \<Longrightarrow> write_poll b i cx (rs_lock y) = (b', s, r, ws) \<Longrightarrow>
    rw_reach (y\<lparr>rs_lock := s, rs_writers := rs_writers y + of_bool (r = Ready ())\<rparr>)"
| read_drop: "rw_reach y \<Longrightarrow> i \<in> rs_live y \<Longrightarrow> rw_kind (rw_futs (rs_lock y) i) = Reader \<Longrightarrow> read_drop i (rs_lock y) = Inr (s, ws) \<Longrightarrow>
    rw_reach (y\<lparr>rs_lock := s, rs_live := rs_live y - {i}\<rparr>)"
| write_drop: "rw_reach y \<Longrightarrow> i \<in> rs_live y \<Longrightarrow> rw_kind (rw_futs (rs_lock y) i) = Writer \<Longrightarrow> write_drop i (rs_lock y) = Inr (s, ws) \<Longrightarrow>
    rw_reach (y\<lparr>rs_lock := s, rs_live := rs_live y - {i}\<rparr>)"
| try_read: "rw_reach y \<Longrightarrow> try_read (rs_lock y) = (s, ok) \<Longrightarrow> rw_reach (y\<lparr>rs_lock := s, rs_readers := rs_readers y + of_bool ok\<rparr>)"
| try_write: "rw_reach y \<Longrightarrow> try_write (rs_lock y) = (s, ok) \<Longrightarrow> rw_reach (y\<lparr>rs_lock := s, rs_writers := rs_writers y + of_bool ok\<rparr>)"
| unread: "rw_reach y \<Longrightarrow> 0 < rs_readers y \<Longrightarrow> read_guard_drop (rs_lock y) = Inr (s, ws) \<Longrightarrow>
    rw_reach (y\<lparr>rs_lock := s, rs_readers := rs_readers y - 1\<rparr>)"
| unwrite: "rw_reach y \<Longrightarrow> 0 < rs_writers y \<Longrightarrow> write_guard_drop (rs_lock y) = Inr (s, ws) \<Longrightarrow>
    rw_reach (y\<lparr>rs_lock := s, rs_writers := rs_writers y - 1\<rparr>)"
| downgrade: "rw_reach y \<Longrightarrow> 0 < rs_writers y \<Longrightarrow> downgrade (rs_lock y) = Inr (s, ws) \<Longrightarrow>
    rw_reach (y\<lparr>rs_lock := s, rs_writers := rs_writers y - 1, rs_readers := rs_readers y + 1\<rparr>)"

section \<open>Invariant\<close>

definition rd_holder :: "rw_fut \<Rightarrow> bool" where "rd_holder w \<longleftrightarrow> rw_kind w = Reader \<and> rw_granted w"
definition wr_holder :: "rw_fut \<Rightarrow> bool" where "wr_holder w \<longleftrightarrow> rw_kind w = Writer \<and> rw_granted w"

definition queued_writers :: "rwlock \<Rightarrow> nat" where
  "queued_writers s = length (filter (\<lambda>i. rw_kind (rw_futs s i) = Writer) (rw_queue s))"

definition rw_base :: "rwlock \<Rightarrow> nat set \<Rightarrow> nat \<Rightarrow> nat \<Rightarrow> bool" where
  "rw_base s live r w \<longleftrightarrow>
     finite live \<and> distinct (rw_queue s)
   \<and> (\<forall>i\<in>set (rw_queue s). i \<in> live \<and> rw_registered (rw_futs s i) \<and> \<not> rw_granted (rw_futs s i))
   \<and> (\<forall>i\<in>live. rw_registered (rw_futs s i) \<and> \<not> rw_granted (rw_futs s i) \<longrightarrow> i \<in> set (rw_queue s))
   \<and> rw_readers s = r + tally rd_holder (rw_futs s) live
   \<and> of_bool (rw_writer s) = w + tally wr_holder (rw_futs s) live
   \<and> (rw_writer s \<longrightarrow> rw_readers s = 0)
   \<and> rw_waiting_writers s = queued_writers s"

definition rw_held :: "rwlock \<Rightarrow> bool" where
  "rw_held s \<longleftrightarrow> rw_writer s \<or> 0 < rw_readers s"

definition rw_ok :: "rwlock \<Rightarrow> nat set \<Rightarrow> nat \<Rightarrow> nat \<Rightarrow> bool" where
  "rw_ok s live r w \<longleftrightarrow> rw_base s live r w \<and> (rw_queue s \<noteq> [] \<longrightarrow> rw_held s)"

lemmas holder_defs = rd_holder_def wr_holder_def

lemma upd_rw_simps [simp]:
  "rw_readers (upd_rw i f s) = rw_readers s" "rw_writer (upd_rw i f s) = rw_writer s"
  "rw_waiting_writers (upd_rw i f s) = rw_waiting_writers s" "rw_queue (upd_rw i f s) = rw_queue s"
  "rw_futs (upd_rw i f s) = (rw_futs s)(i := f (rw_futs s i))"
  by (simp_all add: upd_rw_def)

lemma rw_baseD:
  assumes "rw_base s live r w"
  shows "finite live" "distinct (rw_queue s)"
    "i \<in> set (rw_queue s) \<Longrightarrow> i \<in> live \<and> rw_registered (rw_futs s i) \<and> \<not> rw_granted (rw_futs s i)"
    "i \<in> live \<Longrightarrow> rw_registered (rw_futs s i) \<Longrightarrow> \<not> rw_granted (rw_futs s i) \<Longrightarrow> i \<in> set (rw_queue s)"
    "rw_readers s = r + tally rd_holder (rw_futs s) live"
    "of_bool (rw_writer s) = w + tally wr_holder (rw_futs s) live"
    "rw_writer s \<Longrightarrow> rw_readers s = 0"
    "rw_waiting_writers s = queued_writers s"
  using assms unfolding rw_base_def by auto

text \<open>Replacing one live future and adjusting the queue and the counters.\<close>

lemma rw_base_change:
  assumes base: "rw_base s live r w" and i: "i \<in> live"
    and fs: "rw_futs s' = (rw_futs s)(i := x)"
    and q: "distinct (rw_queue s')"
      "set (rw_queue s') = set (rw_queue s) - {i} \<union> (if rw_registered x \<and> \<not> rw_granted x then {i} else {})"
    and rd: "rw_readers s' + of_bool (rd_holder (rw_futs s i)) + r = rw_readers s + of_bool (rd_holder x) + r'"
    and wr: "of_bool (rw_writer s') + of_bool (wr_holder (rw_futs s i)) + w = of_bool (rw_writer s) + of_bool (wr_holder x) + w'"
    and ex: "rw_writer s' \<Longrightarrow> rw_readers s' = 0"
    and ww: "rw_waiting_writers s' = queued_writers s'"
  shows "rw_base s' live r' w'"
proof -
  note d = rw_baseD [OF base]
  have t: "tally P (rw_futs s') live + of_bool (P (rw_futs s i)) = tally P (rw_futs s) live + of_bool (P x)" for P
    unfolding fs by (rule tally_upd [OF d(1) i])
  show ?thesis unfolding rw_base_def
  proof (intro conjI)
    show "\<forall>j\<in>set (rw_queue s'). j \<in> live \<and> rw_registered (rw_futs s' j) \<and> \<not> rw_granted (rw_futs s' j)"
      using d(3) i by (auto simp: fs q(2) split: if_splits)
    show "\<forall>j\<in>live. rw_registered (rw_futs s' j) \<and> \<not> rw_granted (rw_futs s' j) \<longrightarrow> j \<in> set (rw_queue s')"
      using d(4) by (auto simp: fs q(2))
    show "rw_readers s' = r' + tally rd_holder (rw_futs s') live" using d(5) rd t [of rd_holder] by linarith
    show "of_bool (rw_writer s') = w' + tally wr_holder (rw_futs s') live" using d(6) wr t [of wr_holder] by linarith
  qed (use d(1) q(1) ex ww in auto)
qed

text \<open>Forgetting one future, wherever it stands.\<close>

lemma rw_base_remove:
  assumes base: "rw_base s live r w" and i: "i \<in> live"
    and fs: "rw_futs s' = (rw_futs s)(i := x)" and q: "rw_queue s' = filter (\<lambda>j. j \<noteq> i) (rw_queue s)"
    and rd: "rw_readers s' + of_bool (rd_holder (rw_futs s i)) = rw_readers s"
    and wr: "of_bool (rw_writer s') + of_bool (wr_holder (rw_futs s i)) = (of_bool (rw_writer s) :: nat)"
    and ex: "rw_writer s' \<Longrightarrow> rw_readers s' = 0"
    and ww: "rw_waiting_writers s' = queued_writers s'"
  shows "rw_base s' (live - {i}) r w"
proof -
  note d = rw_baseD [OF base]
  have t: "tally P (rw_futs s) live = of_bool (P (rw_futs s i)) + tally P (rw_futs s') (live - {i})" for P
    unfolding fs by (rule tally_leave [OF d(1) i])
  show ?thesis unfolding rw_base_def
  proof (intro conjI)
    show "\<forall>j\<in>set (rw_queue s'). j \<in> live - {i} \<and> rw_registered (rw_futs s' j) \<and> \<not> rw_granted (rw_futs s' j)"
      using d(3) by (auto simp: fs q)
    show "\<forall>j\<in>live - {i}. rw_registered (rw_futs s' j) \<and> \<not> rw_granted (rw_futs s' j) \<longrightarrow> j \<in> set (rw_queue s')"
      using d(4) by (auto simp: fs q)
    show "rw_readers s' = r + tally rd_holder (rw_futs s') (live - {i})" using d(5) rd t [of rd_holder] by linarith
    show "of_bool (rw_writer s') = w + tally wr_holder (rw_futs s') (live - {i})" using d(6) wr t [of wr_holder] by linarith
  qed (use d(1,2) q ex ww in auto)
qed

lemma queued_writers_upd:
  assumes "rw_futs s' = (rw_futs s)(i := x)" "rw_kind x = rw_kind (rw_futs s i)"
  shows "queued_writers s' = length (filter (\<lambda>j. rw_kind (rw_futs s j) = Writer) (rw_queue s'))"
  unfolding queued_writers_def using assms by (intro arg_cong [where f = length] filter_cong) auto

lemma grant_reader_ok:
  assumes base: "rw_base s live r w" and q: "rw_queue s = i # is" and k: "rw_kind (rw_futs s i) = Reader" and nw: "\<not> rw_writer s"
    and g: "grant_waiter i (s\<lparr>rw_queue := is, rw_readers := rw_readers s + 1\<rparr>) = (s', ws)"
  shows "rw_base s' live r w"
proof -
  note d = rw_baseD [OF base]
  let ?x = "(rw_futs s i)\<lparr>rw_granted := True, rw_waker := None\<rparr>"
  have s': "rw_futs s' = (rw_futs s)(i := ?x)" "rw_queue s' = is" "rw_readers s' = rw_readers s + 1"
    "rw_writer s' = rw_writer s" "rw_waiting_writers s' = rw_waiting_writers s"
    using g by (auto simp: grant_waiter_def)
  have o: "i \<in> live" "\<not> rw_granted (rw_futs s i)" using d(3) [of i] q by auto
  have "rw_waiting_writers s' = queued_writers s'"
    using d(8) q k s' queued_writers_upd [OF s'(1)] by (simp add: queued_writers_def)
  then show ?thesis using d(2) q s' o k nw by (intro rw_base_change [OF base o(1) s'(1)]) (auto simp: holder_defs)
qed

lemma grant_writer_ok:
  assumes base: "rw_base s live r w" and q: "rw_queue s = i # is" and k: "rw_kind (rw_futs s i) = Writer" and nh: "\<not> rw_held s"
    and g: "grant_waiter i (s\<lparr>rw_queue := is, rw_waiting_writers := rw_waiting_writers s - 1, rw_writer := True\<rparr>) = (s', ws)"
  shows "rw_base s' live r w \<and> rw_waiting_writers s \<noteq> 0 \<and> rw_writer s'"
proof -
  note d = rw_baseD [OF base]
  let ?x = "(rw_futs s i)\<lparr>rw_granted := True, rw_waker := None\<rparr>"
  have s': "rw_futs s' = (rw_futs s)(i := ?x)" "rw_queue s' = is" "rw_readers s' = rw_readers s"
    "rw_writer s'" "rw_waiting_writers s' = rw_waiting_writers s - 1"
    using g by (auto simp: grant_waiter_def)
  have o: "i \<in> live" "\<not> rw_granted (rw_futs s i)" using d(3) [of i] q by auto
  have "rw_waiting_writers s' = queued_writers s'" "rw_waiting_writers s \<noteq> 0"
    using d(8) q k s' queued_writers_upd [OF s'(1)] by (simp_all add: queued_writers_def)
  moreover from this(1) have "rw_base s' live r w"
    using d(2) q s' o k nh by (intro rw_base_change [OF base o(1) s'(1)]) (auto simp: holder_defs rw_held_def)
  ultimately show ?thesis using s'(4) by simp
qed

lemma wake_readers_ok:
  "rw_base s live r w \<Longrightarrow> \<not> rw_writer s \<Longrightarrow> wake_readers_locked s = (s', ws) \<Longrightarrow> rw_base s' live r w \<and> rw_readers s \<le> rw_readers s'
     \<and> (rw_queue s \<noteq> [] \<and> rw_kind (rw_futs s (hd (rw_queue s))) = Reader \<longrightarrow> rw_held s')"
proof (induction s arbitrary: ws rule: wake_readers_locked.induct)
  case (1 s)
  show ?case
  proof (cases "rw_queue s")
    case Nil
    then show ?thesis using 1 by (simp add: wake_readers_locked.simps [of s])
  next
    case (Cons i "is")
    show ?thesis
    proof (cases "rw_kind (rw_futs s i)")
      case Reader
      obtain s1 ws1 where g: "grant_waiter i (s\<lparr>rw_queue := is, rw_readers := rw_readers s + 1\<rparr>) = (s1, ws1)" by fastforce
      obtain s2 ws2 where l: "wake_readers_locked s1 = (s2, ws2)" by fastforce
      have e: "s2 = s'" using 1(4) Cons Reader g l by (simp add: wake_readers_locked.simps [of s])
      have s1: "rw_base s1 live r w" "\<not> rw_writer s1" "rw_readers s1 = rw_readers s + 1"
        using grant_reader_ok [OF 1(2) Cons Reader 1(3) g] g 1(3) by (auto simp: grant_waiter_def)
      have "rw_base s' live r w \<and> rw_readers s1 \<le> rw_readers s'"
        using 1(1) [OF Cons _ g [symmetric] refl s1(1,2)] Reader l e by simp
      then show ?thesis using s1(3) by (auto simp: rw_held_def)
    next
      case Writer
      then show ?thesis using 1 Cons by (simp add: wake_readers_locked.simps [of s])
    qed
  qed
qed

lemma wake_next_ok:
  assumes base: "rw_base s live r w"
  shows "\<exists>s' ws. wake_next_locked s = Inr (s', ws) \<and> rw_ok s' live r w"
proof -
  obtain s1 ws1 where l: "wake_readers_locked s = (s1, ws1)" by fastforce
  note rd = wake_readers_ok [OF base _ l]
  show ?thesis
  proof (cases "rw_held s")
    case True
    show ?thesis
    proof (cases "rw_writer s")
      case w: True
      then show ?thesis using base by (auto simp: wake_next_locked_def rw_ok_def rw_held_def)
    next
      case False
      then have "0 < rw_readers s" using True by (simp add: rw_held_def)
      then show ?thesis using base rd False l by (auto simp: wake_next_locked_def rw_ok_def rw_held_def split: list.splits)
    qed
  next
    case False
    then have f: "\<not> rw_writer s" "rw_readers s = 0" by (auto simp: rw_held_def)
    show ?thesis
    proof (cases "rw_queue s")
      case Nil
      then have "s1 = s" using l by (simp add: wake_readers_locked.simps [of s])
      then show ?thesis using base f l Nil by (simp add: wake_next_locked_def rw_ok_def)
    next
      case (Cons i "is")
      show ?thesis
      proof (cases "rw_kind (rw_futs s i)")
        case Reader
        then show ?thesis using rd f l Cons by (simp add: wake_next_locked_def rw_ok_def)
      next
        case Writer
        obtain s2 ws2 where g: "grant_waiter i (s\<lparr>rw_queue := is, rw_waiting_writers := rw_waiting_writers s - 1, rw_writer := True\<rparr>) = (s2, ws2)"
          by fastforce
        then show ?thesis using grant_writer_ok [OF base Cons Writer False g] f Cons Writer
          by (simp add: wake_next_locked_def rw_ok_def rw_held_def)
      qed
    qed
  qed
qed

section \<open>The operations keep the invariant\<close>

lemma rw_okD: "rw_ok s live r w \<Longrightarrow> rw_base s live r w" "rw_ok s live r w \<Longrightarrow> rw_queue s \<noteq> [] \<Longrightarrow> rw_held s"
  by (auto simp: rw_ok_def)

text \<open>A poll that leaves the queue alone, and a poll that joins it.\<close>

lemma rw_ok_keep:
  assumes ok: "rw_ok s live r w" and i: "i \<in> live"
    and fs: "rw_futs s' = (rw_futs s)(i := x)" "rw_kind x = rw_kind (rw_futs s i)"
    and q: "rw_queue s' = rw_queue s" "rw_waiting_writers s' = rw_waiting_writers s"
      "(rw_registered x \<and> \<not> rw_granted x) = (rw_registered (rw_futs s i) \<and> \<not> rw_granted (rw_futs s i))"
    and rd: "rw_readers s' + of_bool (rd_holder (rw_futs s i)) + r = rw_readers s + of_bool (rd_holder x) + r'"
    and wr: "of_bool (rw_writer s') + of_bool (wr_holder (rw_futs s i)) + w = of_bool (rw_writer s) + of_bool (wr_holder x) + w'"
    and ex: "rw_writer s' \<Longrightarrow> rw_readers s' = 0" and held: "rw_held s \<Longrightarrow> rw_held s'"
  shows "rw_ok s' live r' w'"
proof -
  note d = rw_baseD [OF rw_okD(1) [OF ok]]
  have "i \<in> set (rw_queue s) \<longleftrightarrow> rw_registered x \<and> \<not> rw_granted x" using d(3,4) [of i] i q(3) by blast
  then have "set (rw_queue s') = set (rw_queue s) - {i} \<union> (if rw_registered x \<and> \<not> rw_granted x then {i} else {})"
    using q(1) by auto
  moreover have "rw_waiting_writers s' = queued_writers s'"
    using queued_writers_upd [OF fs] d(8) q by (simp add: queued_writers_def)
  ultimately have "rw_base s' live r' w'"
    using d(2) q(1) by (intro rw_base_change [OF rw_okD(1) [OF ok] i fs(1) _ _ rd wr ex]) simp_all
  then show ?thesis using rw_okD(2) [OF ok] held q(1) by (simp add: rw_ok_def)
qed

lemma rw_ok_join:
  assumes ok: "rw_ok s live r w" and i: "i \<in> live" and h: "rw_held s"
    and old: "\<not> rw_granted (rw_futs s i)" "\<not> rw_registered (rw_futs s i)"
    and fs: "rw_futs s' = (rw_futs s)(i := x)" "rw_kind x = rw_kind (rw_futs s i)" "rw_registered x" "\<not> rw_granted x"
    and q: "rw_queue s' = rw_queue s @ [i]" "rw_waiting_writers s' = rw_waiting_writers s + of_bool (rw_kind x = Writer)"
    and c: "rw_readers s' = rw_readers s" "rw_writer s' = rw_writer s"
  shows "rw_ok s' live r w"
proof -
  note d = rw_baseD [OF rw_okD(1) [OF ok]]
  have ni: "i \<notin> set (rw_queue s)" using d(3) [of i] old(2) by blast
  have "rw_waiting_writers s' = queued_writers s'"
    using queued_writers_upd [OF fs(1,2)] d(8) q fs(2) by (simp add: queued_writers_def)
  then have "rw_base s' live r w" using d(2,7) q(1) c old fs(3,4) ni
    by (intro rw_base_change [OF rw_okD(1) [OF ok] i fs(1)]) (auto simp: holder_defs)
  then show ?thesis using h c by (simp add: rw_ok_def rw_held_def)
qed

lemma read_body_ok:
  assumes ok: "rw_ok s live r w" and i: "i \<in> live" "rw_kind (rw_futs s i) = Reader" and b: "read_body i cx s = (s', res, ws)"
  shows "rw_ok s' live (r + of_bool (res = Ready ())) w"
proof -
  let ?w = "rw_futs s i"
  note d = rw_baseD [OF rw_okD(1) [OF ok]]
  consider (got) "rw_granted ?w \<or> \<not> rw_registered ?w \<and> \<not> rw_writer s \<and> rw_waiting_writers s = 0 \<and> rw_queue s = []"
    | (join) "\<not> rw_granted ?w" "\<not> rw_registered ?w" "rw_writer s \<or> rw_waiting_writers s \<noteq> 0 \<or> rw_queue s \<noteq> []"
    | (wait) "\<not> rw_granted ?w" "rw_registered ?w" by blast
  then show ?thesis
  proof cases
    case got
    let ?x = "?w\<lparr>rw_granted := False, rw_registered := False\<rparr>"
    have s': "rw_futs s' = (rw_futs s)(i := ?x)" "rw_queue s' = rw_queue s" "rw_readers s' = rw_readers s + of_bool (\<not> rw_granted ?w)"
      "rw_writer s' = rw_writer s" "rw_waiting_writers s' = rw_waiting_writers s" "res = Ready ()"
      using b got by (auto simp: read_body_def Let_def split: if_splits)
    show ?thesis
      by (rule rw_ok_keep [OF ok i(1) s'(1) _ s'(2,5)]) (use s' i got d(7) in \<open>auto simp: holder_defs rw_held_def\<close>)
  next
    case join
    let ?x = "?w\<lparr>rw_granted := False, rw_waker := Some cx, rw_registered := True\<rparr>"
    have s': "rw_futs s' = (rw_futs s)(i := ?x)" "rw_queue s' = rw_queue s @ [i]" "rw_readers s' = rw_readers s" "rw_writer s' = rw_writer s"
      "rw_waiting_writers s' = rw_waiting_writers s" "res = Pending"
      using b join by (auto simp: read_body_def Let_def split: if_splits)
    have "rw_held s" using join(3) rw_okD(2) [OF ok] d(8) by (cases "rw_queue s = []") (auto simp: rw_held_def queued_writers_def)
    from rw_ok_join [OF ok i(1) this join(1,2) s'(1)] show ?thesis using s' i by simp
  next
    case wait
    let ?x = "?w\<lparr>rw_granted := False, rw_waker := Some cx\<rparr>"
    have s': "rw_futs s' = (rw_futs s)(i := ?x)" "rw_queue s' = rw_queue s" "rw_readers s' = rw_readers s" "rw_writer s' = rw_writer s"
      "rw_waiting_writers s' = rw_waiting_writers s" "res = Pending"
      using b wait by (auto simp: read_body_def Let_def)
    show ?thesis
      by (rule rw_ok_keep [OF ok i(1) s'(1) _ s'(2,5)]) (use s' wait d(7) in \<open>auto simp: holder_defs rw_held_def\<close>)
  qed
qed

lemma write_body_ok:
  assumes ok: "rw_ok s live r w" and i: "i \<in> live" "rw_kind (rw_futs s i) = Writer" and b: "write_body i cx s = (s', res, ws)"
  shows "rw_ok s' live r (w + of_bool (res = Ready ()))"
proof -
  let ?w = "rw_futs s i"
  note d = rw_baseD [OF rw_okD(1) [OF ok]]
  consider (got) "rw_granted ?w \<or> \<not> rw_registered ?w \<and> \<not> rw_writer s \<and> rw_readers s = 0 \<and> rw_queue s = []"
    | (join) "\<not> rw_granted ?w" "\<not> rw_registered ?w" "rw_writer s \<or> rw_readers s \<noteq> 0 \<or> rw_queue s \<noteq> []"
    | (wait) "\<not> rw_granted ?w" "rw_registered ?w" by blast
  then show ?thesis
  proof cases
    case got
    let ?x = "?w\<lparr>rw_granted := False, rw_registered := False\<rparr>"
    have s': "rw_futs s' = (rw_futs s)(i := ?x)" "rw_queue s' = rw_queue s" "rw_readers s' = rw_readers s"
      "rw_writer s' = (rw_writer s \<or> \<not> rw_granted ?w)" "rw_waiting_writers s' = rw_waiting_writers s" "res = Ready ()"
      using b got by (auto simp: write_body_def Let_def split: if_splits)
    show ?thesis
      by (rule rw_ok_keep [OF ok i(1) s'(1) _ s'(2,5)]) (use s' i got d(7) in \<open>auto simp: holder_defs rw_held_def\<close>)
  next
    case join
    let ?x = "?w\<lparr>rw_granted := False, rw_waker := Some cx, rw_registered := True\<rparr>"
    have s': "rw_futs s' = (rw_futs s)(i := ?x)" "rw_queue s' = rw_queue s @ [i]" "rw_readers s' = rw_readers s" "rw_writer s' = rw_writer s"
      "rw_waiting_writers s' = rw_waiting_writers s + 1" "res = Pending"
      using b join by (auto simp: write_body_def Let_def split: if_splits)
    have "rw_held s" using join(3) rw_okD(2) [OF ok] by (auto simp: rw_held_def)
    from rw_ok_join [OF ok i(1) this join(1,2) s'(1)] show ?thesis using s' i by simp
  next
    case wait
    let ?x = "?w\<lparr>rw_granted := False, rw_waker := Some cx\<rparr>"
    have s': "rw_futs s' = (rw_futs s)(i := ?x)" "rw_queue s' = rw_queue s" "rw_readers s' = rw_readers s" "rw_writer s' = rw_writer s"
      "rw_waiting_writers s' = rw_waiting_writers s" "res = Pending"
      using b wait by (auto simp: write_body_def Let_def)
    show ?thesis
      by (rule rw_ok_keep [OF ok i(1) s'(1) _ s'(2,5)]) (use s' wait d(7) in \<open>auto simp: holder_defs rw_held_def\<close>)
  qed
qed

lemma rw_ok_new:
  assumes ok: "rw_ok s live r w" and i: "i \<notin> live"
  shows "rw_ok (upd_rw i (\<lambda>_. rw_fut_new k) s) (insert i live) r w"
proof -
  note d = rw_baseD [OF rw_okD(1) [OF ok]]
  let ?s = "upd_rw i (\<lambda>_. rw_fut_new k) s"
  have t: "tally rd_holder (rw_futs ?s) (insert i live) = tally rd_holder (rw_futs s) live"
    "tally wr_holder (rw_futs ?s) (insert i live) = tally wr_holder (rw_futs s) live"
    using tally_insert [OF d(1) i, of rd_holder "rw_futs s" "rw_fut_new k"] tally_insert [OF d(1) i, of wr_holder "rw_futs s" "rw_fut_new k"]
    by (simp_all add: holder_defs rw_fut_new_def)
  have ni: "i \<notin> set (rw_queue s)" using d(3) [of i] i by blast
  then have q: "queued_writers ?s = queued_writers s"
    unfolding queued_writers_def by (intro arg_cong [where f = length]) (auto intro!: filter_cong)
  have "rw_base ?s (insert i live) r w" unfolding rw_base_def
  proof (intro conjI)
    show "\<forall>j\<in>set (rw_queue ?s). j \<in> insert i live \<and> rw_registered (rw_futs ?s j) \<and> \<not> rw_granted (rw_futs ?s j)"
      using d(3) ni by auto
    show "\<forall>j\<in>insert i live. rw_registered (rw_futs ?s j) \<and> \<not> rw_granted (rw_futs ?s j) \<longrightarrow> j \<in> set (rw_queue ?s)"
      using d(4) by (auto simp: rw_fut_new_def)
  qed (use d t q in auto)
  then show ?thesis using rw_okD(2) [OF ok] by (simp add: rw_ok_def rw_held_def)
qed

text \<open>Dropping a future: what it held is given back, otherwise it leaves the queue.\<close>

lemma rw_drop_granted:
  assumes ok: "rw_ok s live r w" and i: "i \<in> live" "rw_granted (rw_futs s i)"
    and s': "rw_futs s' = (rw_futs s)(i := (rw_futs s i)\<lparr>rw_granted := False\<rparr>)" "rw_queue s' = rw_queue s"
      "rw_waiting_writers s' = rw_waiting_writers s"
      "rw_readers s' = rw_readers s - of_bool (rw_kind (rw_futs s i) = Reader)"
      "rw_writer s' = (rw_writer s \<and> rw_kind (rw_futs s i) = Reader)"
  shows "(rw_kind (rw_futs s i) = Reader \<longrightarrow> 0 < rw_readers s) \<and> rw_base s' (live - {i}) r w"
proof -
  note d = rw_baseD [OF rw_okD(1) [OF ok]]
  have h: "rd_holder (rw_futs s i) \<Longrightarrow> 0 < rw_readers s" "wr_holder (rw_futs s i) \<Longrightarrow> rw_writer s"
    using tally_0 [OF d(1), of rd_holder "rw_futs s"] tally_0 [OF d(1), of wr_holder "rw_futs s"] d(5,6) i(1)
    by (auto simp: of_bool_def split: if_splits)
  have ni: "i \<notin> set (rw_queue s)" using d(3) [of i] i(2) by blast
  have ww: "rw_waiting_writers s' = queued_writers s'"
    using queued_writers_upd [OF s'(1)] d(8) s'(2,3) by (simp add: queued_writers_def)
  have "rw_base s' (live - {i}) r w"
  proof (rule rw_base_remove [OF rw_okD(1) [OF ok] i(1) s'(1) _ _ _ _ ww])
    show "rw_queue s' = filter (\<lambda>j. j \<noteq> i) (rw_queue s)" using ni s'(2) by (auto simp: filter_id_conv)
    show "rw_readers s' + of_bool (rd_holder (rw_futs s i)) = rw_readers s"
      using h(1) i(2) s'(4) by (auto simp: rd_holder_def of_bool_def)
    show "of_bool (rw_writer s') + of_bool (wr_holder (rw_futs s i)) = (of_bool (rw_writer s) :: nat)"
      using h(2) i(2) s'(5) by (cases "rw_kind (rw_futs s i)") (auto simp: wr_holder_def)
    show "rw_writer s' \<Longrightarrow> rw_readers s' = 0" using s'(4,5) d(7) by simp
  qed
  then show ?thesis using h(1) i(2) by (simp add: rd_holder_def)
qed

lemma rw_drop_waiting:
  assumes ok: "rw_ok s live r w" and i: "i \<in> live" "\<not> rw_granted (rw_futs s i)"
    and s': "rw_futs s' = (rw_futs s)(i := (rw_futs s i)\<lparr>rw_granted := False\<rparr>)"
      "rw_queue s' = (if rw_registered (rw_futs s i) then filter (\<lambda>j. j \<noteq> i) (rw_queue s) else rw_queue s)"
      "rw_waiting_writers s' = rw_waiting_writers s - of_bool (rw_registered (rw_futs s i) \<and> rw_kind (rw_futs s i) = Writer)"
      "rw_readers s' = rw_readers s" "rw_writer s' = rw_writer s"
  shows "(rw_registered (rw_futs s i) \<and> rw_kind (rw_futs s i) = Writer \<longrightarrow> 0 < rw_waiting_writers s) \<and> rw_ok s' (live - {i}) r w"
proof -
  note d = rw_baseD [OF rw_okD(1) [OF ok]]
  let ?W = "\<lambda>j. rw_kind (rw_futs s j) = Writer"
  have reg: "i \<in> set (rw_queue s) \<longleftrightarrow> rw_registered (rw_futs s i)" using d(3,4) [of i] i by blast
  then have q: "rw_queue s' = filter (\<lambda>j. j \<noteq> i) (rw_queue s)" using s'(2) by (auto simp: filter_id_conv)
  have f: "filter ?W (filter (\<lambda>j. j \<noteq> i) (rw_queue s)) = remove1 i (filter ?W (rw_queue s))"
    using d(2) by (simp add: distinct_remove1_removeAll removeAll_filter_not_eq conj_commute filter_filter eq_commute [of i])
  have n: "length (filter ?W (filter (\<lambda>j. j \<noteq> i) (rw_queue s))) = rw_waiting_writers s - of_bool (rw_registered (rw_futs s i) \<and> ?W i)"
    using d(8) reg unfolding f by (auto simp: length_remove1 queued_writers_def)
  have ww: "rw_waiting_writers s' = queued_writers s'" using queued_writers_upd [OF s'(1)] n q s'(3) by simp
  have pos: "rw_registered (rw_futs s i) \<and> ?W i \<longrightarrow> 0 < rw_waiting_writers s"
    using d(8) reg by (auto simp: queued_writers_def filter_empty_conv)
  have "rw_base s' (live - {i}) r w"
    by (rule rw_base_remove [OF rw_okD(1) [OF ok] i(1) s'(1) q _ _ _ ww]) (use i(2) s'(4,5) d(7) in \<open>auto simp: holder_defs\<close>)
  moreover have "rw_queue s' \<noteq> [] \<Longrightarrow> rw_held s'" using rw_okD(2) [OF ok] s'(4,5) q
    by (cases "rw_queue s = []") (simp_all add: rw_held_def)
  ultimately show ?thesis using pos by (simp add: rw_ok_def)
qed

lemma read_drop_ok:
  assumes ok: "rw_ok s live r w" and i: "i \<in> live" "rw_kind (rw_futs s i) = Reader"
  shows "\<exists>s' ws. read_drop i s = Inr (s', ws) \<and> rw_ok s' (live - {i}) r w"
proof (cases "rw_granted (rw_futs s i)")
  case True
  let ?s = "(upd_rw i (\<lambda>w. w\<lparr>rw_granted := False\<rparr>) s)\<lparr>rw_readers := rw_readers s - 1\<rparr>"
  have "0 < rw_readers s \<and> rw_base ?s (live - {i}) r w" using rw_drop_granted [OF ok i(1) True, of ?s] i(2) by simp
  then show ?thesis using wake_next_ok [of ?s] True by (auto simp: read_drop_def)
next
  case False
  let ?s = "upd_rw i (\<lambda>w. w\<lparr>rw_granted := False\<rparr>) s"
  let ?t = "if rw_registered (rw_futs s i) then ?s\<lparr>rw_queue := filter (\<lambda>j. j \<noteq> i) (rw_queue s)\<rparr> else ?s"
  show ?thesis using rw_drop_waiting [OF ok i(1) False, of ?t] i(2) False
    by (cases "rw_registered (rw_futs s i)") (simp_all add: read_drop_def Let_def)
qed

lemma write_drop_ok:
  assumes ok: "rw_ok s live r w" and i: "i \<in> live" "rw_kind (rw_futs s i) = Writer"
  shows "\<exists>s' ws. write_drop i s = Inr (s', ws) \<and> rw_ok s' (live - {i}) r w"
proof (cases "rw_granted (rw_futs s i)")
  case True
  let ?s = "(upd_rw i (\<lambda>w. w\<lparr>rw_granted := False\<rparr>) s)\<lparr>rw_writer := False\<rparr>"
  have "rw_base ?s (live - {i}) r w" using rw_drop_granted [OF ok i(1) True, of ?s] i(2) by simp
  then show ?thesis using wake_next_ok [of ?s] True by (auto simp: write_drop_def)
next
  case False
  let ?s = "upd_rw i (\<lambda>w. w\<lparr>rw_granted := False\<rparr>) s"
  let ?t = "if rw_registered (rw_futs s i)
    then ?s\<lparr>rw_queue := filter (\<lambda>j. j \<noteq> i) (rw_queue s), rw_waiting_writers := rw_waiting_writers s - 1\<rparr> else ?s"
  show ?thesis using rw_drop_waiting [OF ok i(1) False, of ?t] i(2) False
    by (cases "rw_registered (rw_futs s i)") (simp_all add: write_drop_def Let_def)
qed

text \<open>Releasing a guard, downgrading, and the non-blocking attempts only change the counters.\<close>

lemma rw_base_counters:
  assumes base: "rw_base s live r w"
    and s': "rw_futs s' = rw_futs s" "rw_queue s' = rw_queue s" "rw_waiting_writers s' = rw_waiting_writers s"
      "rw_readers s' + r = rw_readers s + r'" "of_bool (rw_writer s') + w = of_bool (rw_writer s) + w'"
      "rw_writer s' \<longrightarrow> rw_readers s' = 0"
  shows "rw_base s' live r' w'"
proof -
  note d = rw_baseD [OF base]
  have "rw_readers s' = r' + tally rd_holder (rw_futs s') live" unfolding s'(1) using d(5) s'(4) by linarith
  moreover have "of_bool (rw_writer s') = w' + tally wr_holder (rw_futs s') live" unfolding s'(1) using d(6) s'(5) by linarith
  ultimately show ?thesis using d(1-4,8) s'(1,2,3,6) unfolding rw_base_def queued_writers_def by simp
qed

lemma guard_counts:
  assumes ok: "rw_ok s live r w"
  shows "r \<le> rw_readers s" "0 < w \<Longrightarrow> rw_writer s \<and> w = 1 \<and> r = 0 \<and> rw_readers s = 0"
  using rw_baseD(5,6,7) [OF rw_okD(1) [OF ok]] by (auto simp: of_bool_def split: if_splits)

lemma read_guard_drop_ok:
  assumes ok: "rw_ok s live r w" and r: "0 < r"
  shows "\<exists>s' ws. read_guard_drop s = Inr (s', ws) \<and> rw_ok s' live (r - 1) w"
proof -
  have "rw_base (s\<lparr>rw_readers := rw_readers s - 1\<rparr>) live (r - 1) w"
    using guard_counts(1) [OF ok] r rw_baseD(7) [OF rw_okD(1) [OF ok]] by (intro rw_base_counters [OF rw_okD(1) [OF ok]]) auto
  then show ?thesis using wake_next_ok guard_counts(1) [OF ok] r by (auto simp: read_guard_drop_def)
qed

lemma write_guard_drop_ok:
  assumes ok: "rw_ok s live r w" and w: "0 < w"
  shows "\<exists>s' ws. write_guard_drop s = Inr (s', ws) \<and> rw_ok s' live r (w - 1)"
proof -
  have "rw_base (s\<lparr>rw_writer := False\<rparr>) live r (w - 1)"
    using guard_counts(2) [OF ok w] by (intro rw_base_counters [OF rw_okD(1) [OF ok]]) auto
  then show ?thesis using wake_next_ok by (simp add: write_guard_drop_def)
qed

lemma downgrade_ok:
  assumes ok: "rw_ok s live r w" and w: "0 < w"
  shows "\<exists>s' ws. downgrade s = Inr (s', ws) \<and> rw_ok s' live (r + 1) (w - 1)"
proof -
  have "rw_base (s\<lparr>rw_writer := False, rw_readers := 1\<rparr>) live (r + 1) (w - 1)"
    using guard_counts(2) [OF ok w] by (intro rw_base_counters [OF rw_okD(1) [OF ok]]) auto
  then show ?thesis using wake_next_ok by (simp add: downgrade_def)
qed

lemma try_ok:
  assumes ok: "rw_ok s live r w"
  shows "try_read s = (s', b) \<Longrightarrow> rw_ok s' live (r + of_bool b) w" "try_write s = (s', b) \<Longrightarrow> rw_ok s' live r (w + of_bool b)"
proof -
  note base = rw_okD(1) [OF ok]
  have "\<not> rw_writer s \<Longrightarrow> rw_base (s\<lparr>rw_readers := rw_readers s + 1\<rparr>) live (r + 1) w"
    "\<not> rw_writer s \<Longrightarrow> rw_readers s = 0 \<Longrightarrow> rw_base (s\<lparr>rw_writer := True\<rparr>) live r (w + 1)"
    by (rule rw_base_counters [OF base]; simp)+
  then show "try_read s = (s', b) \<Longrightarrow> rw_ok s' live (r + of_bool b) w" "try_write s = (s', b) \<Longrightarrow> rw_ok s' live r (w + of_bool b)"
    using ok by (auto simp: try_read_def try_write_def rw_ok_def split: if_splits)
qed

section \<open>Reachable locks\<close>

abbreviation rw_inv :: "rw_sys \<Rightarrow> bool" where
  "rw_inv y \<equiv> rw_ok (rs_lock y) (rs_live y) (rs_readers y) (rs_writers y)"

lemma rw_reach_inv: "rw_reach y \<Longrightarrow> rw_inv y"
proof (induction rule: rw_reach.induct)
  case start
  then show ?case by (simp add: rw_start_def rwlock_new_def rw_ok_def rw_base_def queued_writers_def)
next
  case (create y i k)
  then show ?case using rw_ok_new by simp
next
  case (read_poll y i b cx b' s r ws)
  from coop_poll_cases [OF read_poll.hyps(4) [unfolded read_poll_def]] show ?case
    using read_poll.IH read_body_ok [OF read_poll.IH read_poll.hyps(2,3), of cx s r ws] by auto
next
  case (write_poll y i b cx b' s r ws)
  from coop_poll_cases [OF write_poll.hyps(4) [unfolded write_poll_def]] show ?case
    using write_poll.IH write_body_ok [OF write_poll.IH write_poll.hyps(2,3), of cx s r ws] by auto
next
  case (read_drop y i s ws)
  then show ?case using read_drop_ok [OF read_drop.IH read_drop.hyps(2,3)] by simp
next
  case (write_drop y i s ws)
  then show ?case using write_drop_ok [OF write_drop.IH write_drop.hyps(2,3)] by simp
next
  case (try_read y s ok)
  then show ?case using try_ok(1) by simp
next
  case (try_write y s ok)
  then show ?case using try_ok(2) by simp
next
  case (unread y s ws)
  then show ?case using read_guard_drop_ok [OF unread.IH unread.hyps(2)] by simp
next
  case (unwrite y s ws)
  then show ?case using write_guard_drop_ok [OF unwrite.IH unwrite.hyps(2)] by simp
next
  case (downgrade y s ws)
  then show ?case using downgrade_ok [OF downgrade.IH downgrade.hyps(2)] by simp
qed

section \<open>Handover\<close>

definition grant_all :: "nat set \<Rightarrow> (nat \<Rightarrow> rw_fut) \<Rightarrow> nat \<Rightarrow> rw_fut" where
  "grant_all A f = (\<lambda>i. if i \<in> A then (f i)\<lparr>rw_granted := True, rw_waker := None\<rparr> else f i)"

abbreviation front_readers :: "rwlock \<Rightarrow> nat list" where
  "front_readers s \<equiv> takeWhile (\<lambda>i. rw_kind (rw_futs s i) = Reader) (rw_queue s)"

lemma wake_readers_result:
  "distinct (rw_queue s) \<Longrightarrow>
   wake_readers_locked s =
     (s\<lparr>rw_queue := dropWhile (\<lambda>i. rw_kind (rw_futs s i) = Reader) (rw_queue s),
        rw_readers := rw_readers s + length (front_readers s), rw_futs := grant_all (set (front_readers s)) (rw_futs s)\<rparr>,
      concat (map (\<lambda>i. wakes_of (rw_waker (rw_futs s i))) (front_readers s)))"
proof (induction "rw_queue s" arbitrary: s)
  case Nil
  then show ?case by (simp add: wake_readers_locked.simps [of s] grant_all_def)
next
  case (Cons i q)
  note q = Cons.hyps(2) [symmetric]
  show ?case
  proof (cases "rw_kind (rw_futs s i)")
    case Reader
    let ?s = "upd_rw i (\<lambda>w. w\<lparr>rw_granted := True, rw_waker := None\<rparr>) (s\<lparr>rw_queue := q, rw_readers := rw_readers s + 1\<rparr>)"
    let ?K = "\<lambda>j. rw_kind (rw_futs s j) = Reader"
    have k: "(\<lambda>j. rw_kind (rw_futs ?s j) = Reader) = ?K" using Reader by (auto simp: fun_eq_iff)
    have ni: "i \<notin> set q" using Cons.prems q by simp
    then have m: "concat (map (\<lambda>j. wakes_of (rw_waker (rw_futs ?s j))) (takeWhile ?K q)) = concat (map (\<lambda>j. wakes_of (rw_waker (rw_futs s j))) (takeWhile ?K q))"
      by (intro arg_cong [where f = concat] map_cong) (auto dest: set_takeWhileD)
    have g: "grant_all (set (takeWhile ?K q)) (rw_futs ?s) = grant_all (set (takeWhile ?K (i # q))) (rw_futs s)"
      using ni Reader by (auto simp: grant_all_def fun_eq_iff dest: set_takeWhileD)
    have "wake_readers_locked ?s = (?s\<lparr>rw_queue := dropWhile ?K q, rw_readers := rw_readers s + 1 + length (takeWhile ?K q),
        rw_futs := grant_all (set (takeWhile ?K q)) (rw_futs ?s)\<rparr>, concat (map (\<lambda>j. wakes_of (rw_waker (rw_futs s j))) (takeWhile ?K q)))"
      using Cons.hyps(1) [of ?s] Cons.prems q unfolding k using m by simp
    then show ?thesis using Reader unfolding g
      by (simp add: wake_readers_locked.simps [of s] q grant_waiter_def upd_rw_def)
  next
    case Writer
    then show ?thesis by (simp add: wake_readers_locked.simps [of s] q grant_all_def)
  qed
qed

section \<open>Properties\<close>

lemmas rw_run_defs = rw_start_def rwlock_new_def upd_rw_def rw_fut_new_def read_poll_def write_poll_def read_body_def write_body_def
  coop_poll_def poll_proceed_def try_read_def try_write_def Let_def

text \<open>A write guard is out; a reader and behind it a writer wait.\<close>

definition rw_demo :: rw_sys where
  "rw_demo = \<lparr>rs_lock = \<lparr>rw_readers = 0, rw_writer = True, rw_waiting_writers = 1, rw_queue = [2, 3],
     rw_futs = (\<lambda>_. rw_fut_new Reader)
       (2 := (rw_fut_new Reader)\<lparr>rw_waker := Some 5, rw_registered := True\<rparr>, 3 := (rw_fut_new Writer)\<lparr>rw_waker := Some 6, rw_registered := True\<rparr>)\<rparr>,
     rs_live = {3, 2}, rs_readers = 0, rs_writers = 1\<rparr>"

lemma rw_demo_reach: "rw_reach rw_demo"
proof -
  let ?l1 = "rwlock_new\<lparr>rw_writer := True\<rparr>"
  let ?f2 = "(\<lambda>_. rw_fut_new Reader)(2 := (rw_fut_new Reader)\<lparr>rw_waker := Some 5, rw_registered := True\<rparr>)"
  let ?l2 = "?l1\<lparr>rw_queue := [2], rw_futs := ?f2\<rparr>"
  note rw_reach.try_write [OF rw_reach.start, of ?l1 True]
  then have 1: "rw_reach (rw_start\<lparr>rs_lock := ?l1, rs_writers := 1\<rparr>)" by (simp add: rw_run_defs)
  note rw_reach.read_poll [OF rw_reach.create [OF 1, of 2 Reader], of 2 None 5 None ?l2 Pending "[]"]
  then have 2: "rw_reach (rw_start\<lparr>rs_lock := ?l2, rs_writers := 1, rs_live := {2}\<rparr>)" by (simp add: rw_run_defs)
  note rw_reach.write_poll [OF rw_reach.create [OF 2, of 3 Writer], of 3 None 6 None "rs_lock rw_demo" Pending "[]"]
  then show ?thesis by (simp add: rw_run_defs rw_demo_def)
qed

text \<open>C21. Exclusion: in every execution at most one write guard is out, and then no read guard is; every
  release, downgrade and cancellation finds the counters it decrements above zero.\<close>

theorem rwlock_excludes:
  assumes "rw_reach y"
  shows "rs_writers y \<le> 1 \<and> (rs_writers y = 1 \<longrightarrow> rs_readers y = 0)
    \<and> (0 < rs_readers y \<longrightarrow> read_guard_drop (rs_lock y) \<noteq> Inl ())
    \<and> (0 < rs_writers y \<longrightarrow> write_guard_drop (rs_lock y) \<noteq> Inl () \<and> downgrade (rs_lock y) \<noteq> Inl ())
    \<and> (\<forall>i\<in>rs_live y. (case rw_kind (rw_futs (rs_lock y) i) of Reader \<Rightarrow> read_drop i (rs_lock y) | Writer \<Rightarrow> write_drop i (rs_lock y)) \<noteq> Inl ())"
proof -
  note ok = rw_reach_inv [OF assms]
  have "rs_writers y \<le> 1 \<and> (rs_writers y = 1 \<longrightarrow> rs_readers y = 0)"
    using guard_counts(2) [OF ok] by (cases "rs_writers y = 0") auto
  moreover have "0 < rs_readers y \<longrightarrow> read_guard_drop (rs_lock y) \<noteq> Inl ()" using read_guard_drop_ok [OF ok] by auto
  moreover have "0 < rs_writers y \<longrightarrow> write_guard_drop (rs_lock y) \<noteq> Inl () \<and> downgrade (rs_lock y) \<noteq> Inl ()"
    using write_guard_drop_ok [OF ok] downgrade_ok [OF ok] by auto
  moreover have "(case rw_kind (rw_futs (rs_lock y) i) of Reader \<Rightarrow> read_drop i (rs_lock y) | Writer \<Rightarrow> write_drop i (rs_lock y)) \<noteq> Inl ()"
    if "i \<in> rs_live y" for i
    using read_drop_ok [OF ok that] write_drop_ok [OF ok that] by (auto split: WaitKind.splits)
  ultimately show ?thesis by blast
qed

lemma rwlock_excludes_witness:
  "rs_writers rw_demo = 1 \<and> rs_readers rw_demo = 0 \<and> write_drop 3 (rs_lock rw_demo) \<noteq> Inl ()"
  using rwlock_excludes [OF rw_demo_reach] by (simp add: rw_demo_def rw_fut_new_def)

text \<open>Nobody waits for a free lock: while the queue is not empty, a guard is out or a live future has
  been granted the lock, so that a later release or drop wakes the queue.\<close>

theorem rwlock_waiters_have_a_holder:
  assumes "rw_reach y" "rw_queue (rs_lock y) \<noteq> []"
  shows "0 < rs_readers y + rs_writers y \<or> (\<exists>i\<in>rs_live y. rw_granted (rw_futs (rs_lock y) i))"
proof -
  note ok = rw_reach_inv [OF assms(1)]
  note d = rw_baseD [OF rw_okD(1) [OF ok]]
  have "rw_held (rs_lock y)" using rw_okD(2) [OF ok assms(2)] .
  then have "0 < rs_readers y + tally rd_holder (rw_futs (rs_lock y)) (rs_live y)
    \<or> 0 < rs_writers y + tally wr_holder (rw_futs (rs_lock y)) (rs_live y)"
    using d(5,6) by (auto simp: rw_held_def)
  then show ?thesis
    using tally_0 [OF d(1), of rd_holder "rw_futs (rs_lock y)"] tally_0 [OF d(1), of wr_holder "rw_futs (rs_lock y)"]
    by (auto simp: holder_defs)
qed

lemma rwlock_waiters_have_a_holder_witness:
  "rw_queue (rs_lock rw_demo) = [2, 3]
   \<and> (0 < rs_readers rw_demo + rs_writers rw_demo \<or> (\<exists>i\<in>rs_live rw_demo. rw_granted (rw_futs (rs_lock rw_demo) i)))"
  using rwlock_waiters_have_a_holder [OF rw_demo_reach] by (simp add: rw_demo_def)

text \<open>Handover: releasing the write guard passes the lock on in queue order: to the writer at the front
  alone, or to all readers in front of the next writer together; whoever is passed the lock is woken.\<close>

theorem rwlock_hands_over_in_order:
  assumes "rw_reach y" "0 < rs_writers y"
  shows "\<exists>s. write_guard_drop (rs_lock y) = Inr (s,
       concat (map (\<lambda>i. wakes_of (rw_waker (rw_futs (rs_lock y) i))) (if front_readers (rs_lock y) = [] then take 1 (rw_queue (rs_lock y)) else front_readers (rs_lock y))))
     \<and> (if front_readers (rs_lock y) = []
        then rw_queue s = drop 1 (rw_queue (rs_lock y)) \<and> rw_readers s = 0 \<and> rw_writer s = (rw_queue (rs_lock y) \<noteq> [])
          \<and> rw_futs s = grant_all (set (take 1 (rw_queue (rs_lock y)))) (rw_futs (rs_lock y))
        else rw_queue s = dropWhile (\<lambda>i. rw_kind (rw_futs (rs_lock y) i) = Reader) (rw_queue (rs_lock y)) \<and> \<not> rw_writer s
          \<and> rw_readers s = length (front_readers (rs_lock y))
          \<and> rw_futs s = grant_all (set (front_readers (rs_lock y))) (rw_futs (rs_lock y)))"
proof -
  let ?s = "rs_lock y"
  note ok = rw_reach_inv [OF assms(1)]
  note d = rw_baseD [OF rw_okD(1) [OF ok]] and g = guard_counts(2) [OF ok assms(2)]
  let ?s0 = "?s\<lparr>rw_writer := False\<rparr>"
  note wr = wake_readers_result [of ?s0, simplified, OF d(2)]
  show ?thesis
  proof (cases "rw_queue ?s")
    case Nil
    then show ?thesis using g wr by (simp add: write_guard_drop_def wake_next_locked_def)
  next
    case (Cons i q)
    show ?thesis
    proof (cases "rw_kind (rw_futs ?s i)")
      case Reader
      then show ?thesis using g wr Cons by (simp add: write_guard_drop_def wake_next_locked_def)
    next
      case Writer
      then have "0 < rw_waiting_writers ?s" using d(8) Cons by (simp add: queued_writers_def)
      then show ?thesis using g Cons Writer
        by (simp add: write_guard_drop_def wake_next_locked_def grant_waiter_def upd_rw_def grant_all_def fun_eq_iff)
    qed
  qed
qed

lemma rwlock_hands_over_in_order_witness:
  "\<exists>s. write_guard_drop (rs_lock rw_demo) = Inr (s, [5]) \<and> rw_queue s = [3] \<and> rw_readers s = 1 \<and> \<not> rw_writer s"
  using rwlock_hands_over_in_order [OF rw_demo_reach] by (auto simp: rw_demo_def rw_fut_new_def wakes_of_def)

text \<open>Cancelling a queued \<open>Write\<close> does not wake the readers behind it: with one read guard out, no writer
  holding or waiting, a queued \<open>Read\<close> stays pending however often it is polled, and \<open>try_read\<close> fails.\<close>

theorem cancelled_write_leaves_readers_waiting:
  "\<exists>y. rw_reach y \<and> \<not> rw_writer (rs_lock y) \<and> rw_waiting_writers (rs_lock y) = 0 \<and> rs_readers y = 1 \<and> rw_queue (rs_lock y) = [3]
     \<and> (\<forall>b cx. \<exists>b' s ws. read_poll b 3 cx (rs_lock y) = (b', s, Pending, ws)) \<and> try_read (rs_lock y) = (rs_lock y, False)"
proof -
  let ?l1 = "rwlock_new\<lparr>rw_readers := 1\<rparr>"
  let ?f2 = "(\<lambda>_. rw_fut_new Reader)(2 := (rw_fut_new Writer)\<lparr>rw_waker := Some 5, rw_registered := True\<rparr>)"
  let ?f3 = "?f2(3 := (rw_fut_new Reader)\<lparr>rw_waker := Some 6, rw_registered := True\<rparr>)"
  let ?l2 = "?l1\<lparr>rw_waiting_writers := 1, rw_queue := [2], rw_futs := ?f2\<rparr>"
  let ?l3 = "?l2\<lparr>rw_queue := [2, 3], rw_futs := ?f3\<rparr>"
  let ?l4 = "?l1\<lparr>rw_queue := [3], rw_futs := ?f3\<rparr>"
  note rw_reach.try_read [OF rw_reach.start, of ?l1 True]
  then have 1: "rw_reach (rw_start\<lparr>rs_lock := ?l1, rs_readers := 1\<rparr>)" by (simp add: rw_run_defs)
  note rw_reach.write_poll [OF rw_reach.create [OF 1, of 2 Writer], of 2 None 5 None ?l2 Pending "[]"]
  then have 2: "rw_reach (rw_start\<lparr>rs_lock := ?l2, rs_readers := 1, rs_live := {2}\<rparr>)" by (simp add: rw_run_defs)
  note rw_reach.read_poll [OF rw_reach.create [OF 2, of 3 Reader], of 3 None 6 None ?l3 Pending "[]"]
  then have 3: "rw_reach (rw_start\<lparr>rs_lock := ?l3, rs_readers := 1, rs_live := {3, 2}\<rparr>)" by (simp add: rw_run_defs)
  note rw_reach.write_drop [OF 3, of 2 ?l4 "[]"]
  then have "rw_reach (rw_start\<lparr>rs_lock := ?l4, rs_readers := 1, rs_live := {3, 2} - {2}\<rparr>)"
    by (simp add: rw_run_defs write_drop_def fun_upd_idem fun_upd_twist [of 3 2])
  then show ?thesis
    by (intro exI [of _ "rw_start\<lparr>rs_lock := ?l4, rs_readers := 1, rs_live := {3, 2} - {2}\<rparr>"]) (auto simp: rw_run_defs split: option.splits)
qed

end
