(* ===== verification/Notify.thy ===== *)
theory Notify
  imports Coop
begin

text \<open>
  \<open>sync/notify.rs\<close>: a condition variable that stores one permit. The \<open>Notified\<close> futures with their
  shared waiter nodes live in a store, the waiter queue holds their names. \<open>nt_reach\<close> runs any
  number of futures against any sequence of notifications.
\<close>

section \<open>Model\<close>

record notified =
  nf_notified :: bool
  nf_waker :: "waker option"
  nf_registered :: bool

record notify =
  nt_permit :: bool
  nt_waiters :: "nat list"
  nt_futs :: "nat \<Rightarrow> notified"

definition notified_new :: notified where
  "notified_new = \<lparr>nf_notified = False, nf_waker = None, nf_registered = False\<rparr>"

definition notify_new :: notify where
  "notify_new = \<lparr>nt_permit = False, nt_waiters = [], nt_futs = (\<lambda>_. notified_new)\<rparr>"

definition upd_nt :: "nat \<Rightarrow> (notified \<Rightarrow> notified) \<Rightarrow> notify \<Rightarrow> notify" where
  "upd_nt i f s = s\<lparr>nt_futs := (nt_futs s)(i := f (nt_futs s i))\<rparr>"

definition notify_one :: "notify \<Rightarrow> notify \<times> waker list" where
  "notify_one s =
     (case nt_waiters s of
        i # is \<Rightarrow> (upd_nt i (\<lambda>w. w\<lparr>nf_notified := True, nf_waker := None\<rparr>) (s\<lparr>nt_waiters := is\<rparr>), wakes_of (nf_waker (nt_futs s i)))
      | [] \<Rightarrow> (s\<lparr>nt_permit := True\<rparr>, []))"

definition notify_waiters :: "notify \<Rightarrow> notify \<times> waker list" where
  "notify_waiters s =
     (let waiters = nt_waiters s;
          s' = fold (\<lambda>i. upd_nt i (\<lambda>w. w\<lparr>nf_notified := True\<rparr>)) waiters (s\<lparr>nt_waiters := []\<rparr>)
      in (fold (\<lambda>i. upd_nt i (\<lambda>w. w\<lparr>nf_waker := None\<rparr>)) waiters s',
          concat (map (\<lambda>i. wakes_of (nf_waker (nt_futs s i))) waiters)))"

definition enable :: "nat \<Rightarrow> notify \<Rightarrow> notify" where
  "enable i s =
     (if nf_registered (nt_futs s i) \<or> nf_notified (nt_futs s i) then s
      else if nt_permit s then upd_nt i (\<lambda>w. w\<lparr>nf_notified := True\<rparr>) (s\<lparr>nt_permit := False\<rparr>)
      else upd_nt i (\<lambda>w. w\<lparr>nf_registered := True\<rparr>) (s\<lparr>nt_waiters := nt_waiters s @ [i]\<rparr>))"

definition notified_body :: "nat \<Rightarrow> waker \<Rightarrow> notify \<Rightarrow> notify \<times> unit poll \<times> waker list" where
  "notified_body i cx s =
     (if nf_notified (nt_futs s i) then (s, Ready (), [])
      else if \<not> nf_registered (nt_futs s i) \<and> nt_permit s
      then (upd_nt i (\<lambda>w. w\<lparr>nf_notified := True\<rparr>) (s\<lparr>nt_permit := False\<rparr>), Ready (), [])
      else
        let s = upd_nt i (\<lambda>w. w\<lparr>nf_waker := Some cx\<rparr>) s;
            s = (if \<not> nf_registered (nt_futs s i)
                 then upd_nt i (\<lambda>w. w\<lparr>nf_registered := True\<rparr>) (s\<lparr>nt_waiters := nt_waiters s @ [i]\<rparr>) else s)
        in (s, Pending, []))"

definition notified_poll :: "budget \<Rightarrow> nat \<Rightarrow> waker \<Rightarrow> notify \<Rightarrow> budget \<times> notify \<times> unit poll \<times> waker list" where
  "notified_poll b i cx s = coop_poll b cx s (notified_body i cx s)"

definition nt_drop :: "nat \<Rightarrow> notify \<Rightarrow> notify" where
  "nt_drop i s =
     (if \<not> nf_registered (nt_futs s i) \<or> nf_notified (nt_futs s i) then s
      else s\<lparr>nt_waiters := filter (\<lambda>j. j \<noteq> i) (nt_waiters s)\<rparr>)"

section \<open>All users of one Notify\<close>

record nt_sys =
  ns_notify :: notify
  ns_live :: "nat set"

inductive nt_reach :: "nt_sys \<Rightarrow> bool" where
  start: "nt_reach \<lparr>ns_notify = notify_new, ns_live = {}\<rparr>"
| create: "nt_reach y \<Longrightarrow> i \<notin> ns_live y \<Longrightarrow>
    nt_reach (y\<lparr>ns_notify := upd_nt i (\<lambda>_. notified_new) (ns_notify y), ns_live := insert i (ns_live y)\<rparr>)"
| enable: "nt_reach y \<Longrightarrow> i \<in> ns_live y \<Longrightarrow> nt_reach (y\<lparr>ns_notify := enable i (ns_notify y)\<rparr>)"
| poll: "nt_reach y \<Longrightarrow> i \<in> ns_live y \<Longrightarrow> notified_poll b i cx (ns_notify y) = (b', s, r, ws) \<Longrightarrow> nt_reach (y\<lparr>ns_notify := s\<rparr>)"
| drop: "nt_reach y \<Longrightarrow> i \<in> ns_live y \<Longrightarrow>
    nt_reach (y\<lparr>ns_notify := nt_drop i (ns_notify y), ns_live := ns_live y - {i}\<rparr>)"
| one: "nt_reach y \<Longrightarrow> nt_reach (y\<lparr>ns_notify := fst (notify_one (ns_notify y))\<rparr>)"
| all: "nt_reach y \<Longrightarrow> nt_reach (y\<lparr>ns_notify := fst (notify_waiters (ns_notify y))\<rparr>)"

section \<open>Invariant\<close>

text \<open>The queue is exactly the live futures that wait, and a permit is stored only while nobody waits.\<close>

definition waiting :: "notified \<Rightarrow> bool" where
  "waiting w \<longleftrightarrow> nf_registered w \<and> \<not> nf_notified w"

definition nt_ok :: "notify \<Rightarrow> nat set \<Rightarrow> bool" where
  "nt_ok s live \<longleftrightarrow> distinct (nt_waiters s) \<and> set (nt_waiters s) = {i \<in> live. waiting (nt_futs s i)}
     \<and> (nt_permit s \<longrightarrow> nt_waiters s = [])"

lemma upd_nt_simps [simp]:
  "nt_permit (upd_nt i f s) = nt_permit s" "nt_waiters (upd_nt i f s) = nt_waiters s"
  "nt_futs (upd_nt i f s) = (nt_futs s)(i := f (nt_futs s i))"
  by (simp_all add: upd_nt_def)

lemma nt_okD:
  assumes "nt_ok s live"
  shows "distinct (nt_waiters s)" "i \<in> set (nt_waiters s) \<longleftrightarrow> i \<in> live \<and> waiting (nt_futs s i)" "nt_permit s \<Longrightarrow> nt_waiters s = []"
  using assms by (auto simp: nt_ok_def)

lemma nt_okI:
  assumes "distinct (nt_waiters s)" "\<And>i. i \<in> set (nt_waiters s) \<longleftrightarrow> i \<in> live \<and> waiting (nt_futs s i)"
    "nt_permit s \<Longrightarrow> nt_waiters s = []"
  shows "nt_ok s live"
  using assms by (auto simp: nt_ok_def)

lemma fold_upd_nt [simp]:
  "nt_waiters (fold (\<lambda>i. upd_nt i f) is s) = nt_waiters s" "nt_permit (fold (\<lambda>i. upd_nt i f) is s) = nt_permit s"
  by (induction "is" arbitrary: s) simp_all

lemma fold_upd_nt_futs:
  "distinct is \<Longrightarrow> nt_futs (fold (\<lambda>i. upd_nt i f) is s) = (\<lambda>j. if j \<in> set is then f (nt_futs s j) else nt_futs s j)"
  by (induction "is" arbitrary: s) auto

lemma notify_one_ok:
  assumes ok: "nt_ok s live"
  shows "nt_ok (fst (notify_one s)) live"
proof (cases "nt_waiters s")
  case Nil
  then show ?thesis using nt_okD [OF ok] by (intro nt_okI) (simp_all add: notify_one_def)
next
  case (Cons i "is")
  note d = nt_okD [OF ok]
  show ?thesis
  proof (rule nt_okI)
    show "j \<in> set (nt_waiters (fst (notify_one s))) \<longleftrightarrow> j \<in> live \<and> waiting (nt_futs (fst (notify_one s)) j)" for j
      using d(1) d(2) [of j] Cons by (auto simp: notify_one_def waiting_def)
  qed (use d Cons in \<open>simp_all add: notify_one_def\<close>)
qed

lemma notify_waiters_result:
  assumes "distinct (nt_waiters s)"
  shows "fst (notify_waiters s) = s\<lparr>nt_waiters := [],
      nt_futs := (\<lambda>j. if j \<in> set (nt_waiters s) then (nt_futs s j)\<lparr>nf_notified := True, nf_waker := None\<rparr> else nt_futs s j)\<rparr>"
  using assms by (intro notify.equality) (simp_all add: notify_waiters_def Let_def fold_upd_nt_futs fun_eq_iff)

lemma notify_waiters_ok:
  assumes ok: "nt_ok s live"
  shows "nt_ok (fst (notify_waiters s)) live"
  using nt_okD [OF ok] unfolding notify_waiters_result [OF nt_okD(1) [OF ok]] by (intro nt_okI) (auto simp: waiting_def)

text \<open>A future that takes the permit, starts to wait, or only stores its waker.\<close>

lemma nt_ok_change:
  assumes ok: "nt_ok s live" and i: "i \<in> live" "\<not> nf_notified (nt_futs s i)" and fs: "nt_futs s' = (nt_futs s)(i := x)"
  shows "\<not> nf_registered (nt_futs s i) \<Longrightarrow> nf_notified x \<Longrightarrow> nt_waiters s' = nt_waiters s \<Longrightarrow> \<not> nt_permit s' \<Longrightarrow> nt_ok s' live"
    and "\<not> nf_registered (nt_futs s i) \<Longrightarrow> waiting x \<Longrightarrow> nt_waiters s' = nt_waiters s @ [i] \<Longrightarrow> \<not> nt_permit s' \<Longrightarrow> nt_ok s' live"
    and "waiting x = waiting (nt_futs s i) \<Longrightarrow> nt_waiters s' = nt_waiters s \<Longrightarrow> nt_permit s' = nt_permit s \<Longrightarrow> nt_ok s' live"
proof -
  note d = nt_okD [OF ok]
  show "nt_ok s' live" if "\<not> nf_registered (nt_futs s i)" "nf_notified x" "nt_waiters s' = nt_waiters s" "\<not> nt_permit s'"
    using d d(2) [of i] that by (intro nt_okI) (auto simp: waiting_def fs)
  show "nt_ok s' live" if "\<not> nf_registered (nt_futs s i)" "waiting x" "nt_waiters s' = nt_waiters s @ [i]" "\<not> nt_permit s'"
    using d d(2) [of i] that i by (intro nt_okI) (auto simp: waiting_def fs)
  show "nt_ok s' live" if "waiting x = waiting (nt_futs s i)" "nt_waiters s' = nt_waiters s" "nt_permit s' = nt_permit s"
    using d that by (intro nt_okI) (auto simp: fs)
qed

lemma notified_body_ok:
  assumes ok: "nt_ok s live" and i: "i \<in> live" and b: "notified_body i cx s = (s', r, ws)"
  shows "nt_ok s' live"
proof (cases "nf_notified (nt_futs s i)")
  case True
  then show ?thesis using ok b by (simp add: notified_body_def)
next
  case False
  note change = nt_ok_change [OF ok i False]
  consider (p) "\<not> nf_registered (nt_futs s i)" "nt_permit s" | (e) "\<not> nf_registered (nt_futs s i)" "\<not> nt_permit s"
    | (w) "nf_registered (nt_futs s i)" by blast
  then show ?thesis
  proof cases
    case p
    show ?thesis by (rule change(1) [of s' "(nt_futs s i)\<lparr>nf_notified := True\<rparr>"]) (use p False b in \<open>auto simp: notified_body_def\<close>)
  next
    case e
    show ?thesis by (rule change(2) [of s' "(nt_futs s i)\<lparr>nf_waker := Some cx, nf_registered := True\<rparr>"])
      (use e False b in \<open>auto simp: notified_body_def waiting_def\<close>)
  next
    case w
    show ?thesis by (rule change(3) [of s' "(nt_futs s i)\<lparr>nf_waker := Some cx\<rparr>"])
      (use w False b in \<open>auto simp: notified_body_def waiting_def\<close>)
  qed
qed

lemma enable_ok:
  assumes ok: "nt_ok s live" and i: "i \<in> live"
  shows "nt_ok (enable i s) live"
proof (cases "nf_notified (nt_futs s i) \<or> nf_registered (nt_futs s i)")
  case True
  then show ?thesis using ok by (auto simp: enable_def)
next
  case False
  then have n: "\<not> nf_notified (nt_futs s i)" "\<not> nf_registered (nt_futs s i)" by auto
  show ?thesis
  proof (cases "nt_permit s")
    case True
    show ?thesis by (rule nt_ok_change(1) [OF ok i n(1) _ n(2), of _ "(nt_futs s i)\<lparr>nf_notified := True\<rparr>"]) (use n True in \<open>simp_all add: enable_def\<close>)
  next
    case False
    show ?thesis by (rule nt_ok_change(2) [OF ok i n(1) _ n(2), of _ "(nt_futs s i)\<lparr>nf_registered := True\<rparr>"])
      (use n False in \<open>simp_all add: enable_def waiting_def\<close>)
  qed
qed

lemma nt_drop_ok:
  assumes ok: "nt_ok s live"
  shows "nt_ok (nt_drop i s) (live - {i})"
proof (cases "waiting (nt_futs s i)")
  case True
  then have "nt_drop i s = s\<lparr>nt_waiters := filter (\<lambda>j. j \<noteq> i) (nt_waiters s)\<rparr>" by (simp add: nt_drop_def waiting_def)
  then show ?thesis using nt_okD [OF ok] by (intro nt_okI) auto
next
  case False
  then have "nt_drop i s = s" by (auto simp: nt_drop_def waiting_def)
  then show ?thesis using nt_okD [OF ok] False by (intro nt_okI) auto
qed

lemma nt_reach_ok: "nt_reach y \<Longrightarrow> nt_ok (ns_notify y) (ns_live y)"
proof (induction rule: nt_reach.induct)
  case start
  then show ?case by (simp add: nt_ok_def notify_new_def)
next
  case (create y i)
  have "j \<in> set (nt_waiters (ns_notify y)) \<Longrightarrow> j \<noteq> i" for j using nt_okD(2) [OF create.IH] create.hyps(2) by blast
  then show ?case using nt_okD [OF create.IH] by (intro nt_okI) (auto simp: waiting_def notified_new_def)
next
  case (poll y i b cx b' s r ws)
  from coop_poll_cases [OF poll.hyps(3) [unfolded notified_poll_def]] show ?case
    using poll.IH notified_body_ok [OF poll.IH poll.hyps(2), of cx s r ws] by auto
qed (simp_all add: enable_ok notify_one_ok notify_waiters_ok nt_drop_ok)

section \<open>Properties\<close>

lemma notified_poll_done: "b \<noteq> Some 0 \<Longrightarrow> nf_notified (nt_futs s i) \<Longrightarrow> \<exists>b' ws. notified_poll b i cx s = (b', s, Ready (), ws)"
  by (cases b) (simp_all add: notified_poll_def notified_body_def coop_poll_def poll_proceed_def)


definition nt_demo :: nt_sys where
  "nt_demo = \<lparr>ns_notify = \<lparr>nt_permit = False, nt_waiters = [2],
     nt_futs = (\<lambda>_. notified_new)(2 := \<lparr>nf_notified = False, nf_waker = Some 5, nf_registered = True\<rparr>)\<rparr>, ns_live = {2}\<rparr>"

lemma nt_demo_reach: "nt_reach nt_demo"
  using nt_reach.poll [OF nt_reach.create [OF nt_reach.start, of 2], of 2 None 5 None "ns_notify nt_demo" Pending "[]"]
  by (simp add: nt_demo_def notify_new_def notified_new_def notified_poll_def notified_body_def coop_poll_def poll_proceed_def upd_nt_def)


text \<open>A permit is stored only while nobody waits, and the queue holds each waiting future once; \<open>notify_waiters\<close>
  notifies exactly the futures that wait at that moment and stores no permit for later ones.\<close>

theorem notify_waiters_reaches_all:
  assumes "nt_reach y" "notify_waiters (ns_notify y) = (s, ws)"
  shows "(nt_permit (ns_notify y) \<longrightarrow> nt_waiters (ns_notify y) = []) \<and> distinct (nt_waiters (ns_notify y))
    \<and> nt_waiters s = [] \<and> nt_permit s = nt_permit (ns_notify y)
    \<and> (\<forall>i\<in>ns_live y. waiting (nt_futs (ns_notify y) i) \<longrightarrow> nf_notified (nt_futs s i) \<and> set (wakes_of (nf_waker (nt_futs (ns_notify y) i))) \<subseteq> set ws)
    \<and> (\<forall>i\<in>ns_live y. \<not> waiting (nt_futs (ns_notify y) i) \<longrightarrow> nt_futs s i = nt_futs (ns_notify y) i)"
proof -
  note d = nt_okD [OF nt_reach_ok [OF assms(1)]]
  have s: "s = (ns_notify y)\<lparr>nt_waiters := [], nt_futs := (\<lambda>j. if j \<in> set (nt_waiters (ns_notify y))
      then (nt_futs (ns_notify y) j)\<lparr>nf_notified := True, nf_waker := None\<rparr> else nt_futs (ns_notify y) j)\<rparr>"
    using notify_waiters_result [OF d(1)] assms(2) by simp
  have "ws = concat (map (\<lambda>i. wakes_of (nf_waker (nt_futs (ns_notify y) i))) (nt_waiters (ns_notify y)))"
    using assms(2) by (simp add: notify_waiters_def Let_def)
  then show ?thesis using d unfolding s by auto
qed

lemma notify_waiters_reaches_all_witness:
  "\<exists>s ws. notify_waiters (ns_notify nt_demo) = (s, ws) \<and> nf_notified (nt_futs s 2) \<and> 5 \<in> set ws"
  using notify_waiters_reaches_all [OF nt_demo_reach]
  by (cases "notify_waiters (ns_notify nt_demo)") (auto simp: nt_demo_def waiting_def wakes_of_def)

end
