(* ===== verification/Oneshot.thy ===== *)
theory Oneshot
  imports Coop
begin

text \<open>
  The one-value channel of \<open>sync/oneshot.rs\<close>: one sender, one receiver, a value handed over at most
  once, and the \<open>closed\<close> future that tells the sender the receiver is gone. \<open>os_reach\<close> interleaves
  the operations of both ends; \<open>os_tx\<close> and \<open>os_rx\<close> say whether an end still has its \<open>inner\<close>.
\<close>

section \<open>Model\<close>

record 'a oneshot =
  os_value :: "'a option"
  os_sent :: bool
  os_receiver_alive :: bool
  os_sender_alive :: bool
  os_receiver_waker :: "waker option"
  os_closed_waker :: "waker option"

datatype os_panic = SenderUsedTwice | ReceiverPolledTwice
datatype RecvError = RecvError

definition oneshot_channel :: "'a oneshot" where
  "oneshot_channel = \<lparr>os_value = None, os_sent = False, os_receiver_alive = True, os_sender_alive = True,
     os_receiver_waker = None, os_closed_waker = None\<rparr>"

text \<open>\<open>send\<close> consumes the sender; \<open>Inl\<close> hands the value back.\<close>

definition os_send :: "'a \<Rightarrow> 'a oneshot \<times> bool \<Rightarrow> os_panic + ('a oneshot \<times> bool) \<times> ('a + unit) \<times> waker list" where
  "os_send v st =
     (let (s, tx) = st in
      if \<not> tx then Inl SenderUsedTwice
      else if \<not> os_receiver_alive s \<or> os_sent s then Inr ((s, False), Inl v, [])
      else Inr ((s\<lparr>os_sent := True, os_value := Some v, os_receiver_waker := None\<rparr>, False), Inr (), wakes_of (os_receiver_waker s)))"

definition os_is_closed :: "'a oneshot \<times> bool \<Rightarrow> bool" where
  "os_is_closed st = (let (s, tx) = st in if tx then \<not> os_receiver_alive s else True)"

definition os_recv_body :: "waker \<Rightarrow> 'a oneshot \<times> bool \<Rightarrow> ('a oneshot \<times> bool) \<times> (RecvError + 'a) poll \<times> waker list" where
  "os_recv_body cx sr =
     (let (s, rx) = sr in
      case os_value s of
        Some v \<Rightarrow> ((s\<lparr>os_value := None\<rparr>, False), Ready (Inr v), [])
      | None \<Rightarrow>
          if os_sent s \<or> \<not> os_sender_alive s then ((s, False), Ready (Inl RecvError), [])
          else ((s\<lparr>os_receiver_waker := Some cx\<rparr>, rx), Pending, []))"

definition os_recv_poll ::
  "budget \<Rightarrow> waker \<Rightarrow> 'a oneshot \<times> bool \<Rightarrow> os_panic + budget \<times> ('a oneshot \<times> bool) \<times> (RecvError + 'a) poll \<times> waker list" where
  "os_recv_poll b cx sr =
     (if b \<noteq> Some 0 \<and> \<not> snd sr then Inl ReceiverPolledTwice else Inr (coop_poll b cx sr (os_recv_body cx sr)))"

definition os_receiver_drop :: "'a oneshot \<times> bool \<Rightarrow> ('a oneshot \<times> bool) \<times> waker list" where
  "os_receiver_drop sr =
     (let (s, rx) = sr in
      if \<not> rx then (sr, [])
      else ((s\<lparr>os_receiver_alive := False, os_closed_waker := None\<rparr>, False), wakes_of (os_closed_waker s)))"

definition os_closed_poll :: "waker \<Rightarrow> 'a oneshot \<times> bool \<Rightarrow> 'a oneshot \<times> unit poll" where
  "os_closed_poll cx st =
     (let (s, tx) = st in
      if \<not> tx then (s, Ready ())
      else if \<not> os_receiver_alive s then (s, Ready ())
      else (s\<lparr>os_closed_waker := Some cx\<rparr>, Pending))"

definition os_sender_drop :: "'a oneshot \<times> bool \<Rightarrow> ('a oneshot \<times> bool) \<times> waker list" where
  "os_sender_drop st =
     (let (s, tx) = st in
      if \<not> tx then (st, [])
      else
        let s' = s\<lparr>os_sender_alive := False\<rparr> in
        if \<not> os_sent s then ((s'\<lparr>os_receiver_waker := None\<rparr>, False), wakes_of (os_receiver_waker s)) else ((s', False), []))"

section \<open>Both ends of one channel\<close>

text \<open>\<open>ox_accepted\<close> is the value of a successful send, \<open>ox_received\<close> what the receiver returned.\<close>

record 'a os_sys =
  ox_chan :: "'a oneshot"
  ox_tx :: bool
  ox_rx :: bool
  ox_accepted :: "'a option"
  ox_received :: "(RecvError + 'a) option"

definition os_start :: "'a os_sys" where
  "os_start = \<lparr>ox_chan = oneshot_channel, ox_tx = True, ox_rx = True, ox_accepted = None, ox_received = None\<rparr>"

inductive os_reach :: "'a os_sys \<Rightarrow> bool" where
  start: "os_reach os_start"
| send: "os_reach y \<Longrightarrow> os_send v (ox_chan y, ox_tx y) = Inr ((s, tx), r, ws) \<Longrightarrow>
    os_reach (y\<lparr>ox_chan := s, ox_tx := tx, ox_accepted := (if r = Inr () then Some v else ox_accepted y)\<rparr>)"
| sender_drop: "os_reach y \<Longrightarrow> os_sender_drop (ox_chan y, ox_tx y) = ((s, tx), ws) \<Longrightarrow> os_reach (y\<lparr>ox_chan := s, ox_tx := tx\<rparr>)"
| closed: "os_reach y \<Longrightarrow> os_closed_poll cx (ox_chan y, ox_tx y) = (s, r) \<Longrightarrow> os_reach (y\<lparr>ox_chan := s\<rparr>)"
| recv: "os_reach y \<Longrightarrow> os_recv_poll b cx (ox_chan y, ox_rx y) = Inr (b', (s, rx), r, ws) \<Longrightarrow>
    os_reach (y\<lparr>ox_chan := s, ox_rx := rx, ox_received := (case r of Ready x \<Rightarrow> Some x | Pending \<Rightarrow> ox_received y)\<rparr>)"
| receiver_drop: "os_reach y \<Longrightarrow> os_receiver_drop (ox_chan y, ox_rx y) = ((s, rx), ws) \<Longrightarrow> os_reach (y\<lparr>ox_chan := s, ox_rx := rx\<rparr>)"

definition os_inv :: "'a os_sys \<Rightarrow> bool" where
  "os_inv y \<longleftrightarrow> (let s = ox_chan y in
     os_sent s = (ox_accepted y \<noteq> None)
   \<and> (ox_tx y \<longrightarrow> \<not> os_sent s \<and> os_sender_alive s)
   \<and> (\<not> ox_tx y \<longrightarrow> os_sent s \<or> \<not> os_sender_alive s \<or> \<not> os_receiver_alive s)
   \<and> (ox_rx y \<longrightarrow> os_receiver_alive s \<and> ox_received y = None)
   \<and> (case ox_received y of
        None \<Rightarrow> os_value s = ox_accepted y
      | Some (Inr v) \<Rightarrow> ox_accepted y = Some v \<and> os_value s = None
      | Some (Inl _) \<Rightarrow> ox_accepted y = None \<and> os_value s = None \<and> \<not> os_sender_alive s)
   \<and> (os_receiver_waker s \<noteq> None \<longrightarrow> \<not> os_sent s \<and> os_sender_alive s)
   \<and> (os_closed_waker s \<noteq> None \<longrightarrow> os_receiver_alive s))"

lemma os_send_inv: "os_inv y \<Longrightarrow> os_send v (ox_chan y, ox_tx y) = Inr ((s, tx), r, ws) \<Longrightarrow>
    os_inv (y\<lparr>ox_chan := s, ox_tx := tx, ox_accepted := (if r = Inr () then Some v else ox_accepted y)\<rparr>)"
  by (auto simp: os_inv_def os_send_def Let_def split: if_splits option.splits sum.splits)

lemma os_sender_drop_inv: "os_inv y \<Longrightarrow> os_sender_drop (ox_chan y, ox_tx y) = ((s, tx), ws) \<Longrightarrow> os_inv (y\<lparr>ox_chan := s, ox_tx := tx\<rparr>)"
  by (auto simp: os_inv_def os_sender_drop_def Let_def split: if_splits option.splits sum.splits)

lemma os_closed_inv: "os_inv y \<Longrightarrow> os_closed_poll cx (ox_chan y, ox_tx y) = (s, r) \<Longrightarrow> os_inv (y\<lparr>ox_chan := s\<rparr>)"
  by (auto simp: os_inv_def os_closed_poll_def Let_def split: if_splits option.splits sum.splits)

lemma os_receiver_drop_inv: "os_inv y \<Longrightarrow> os_receiver_drop (ox_chan y, ox_rx y) = ((s, rx), ws) \<Longrightarrow> os_inv (y\<lparr>ox_chan := s, ox_rx := rx\<rparr>)"
  by (auto simp: os_inv_def os_receiver_drop_def Let_def split: if_splits option.splits sum.splits)

lemma os_recv_inv:
  assumes "os_inv y" "ox_rx y" "os_recv_body cx (ox_chan y, ox_rx y) = ((s, rx), r, ws)"
  shows "os_inv (y\<lparr>ox_chan := s, ox_rx := rx, ox_received := (case r of Ready x \<Rightarrow> Some x | Pending \<Rightarrow> ox_received y)\<rparr>)"
  using assms by (auto simp: os_inv_def os_recv_body_def Let_def split: if_splits option.splits)

lemma os_reach_inv: "os_reach y \<Longrightarrow> os_inv y"
proof (induction rule: os_reach.induct)
  case start
  then show ?case by (simp add: os_inv_def os_start_def oneshot_channel_def)
next
  case (recv y b cx b' s rx r ws)
  then have c: "coop_poll b cx (ox_chan y, ox_rx y) (os_recv_body cx (ox_chan y, ox_rx y)) = (b', (s, rx), r, ws)" "b \<noteq> Some 0 \<Longrightarrow> ox_rx y"
    by (auto simp: os_recv_poll_def split: if_splits)
  from coop_poll_cases [OF c(1)] show ?case
  proof
    assume "b = Some 0 \<and> (s, rx) = (ox_chan y, ox_rx y) \<and> r = Pending \<and> ws = [cx]"
    then show ?thesis using recv.IH by simp
  next
    assume "b \<noteq> Some 0 \<and> os_recv_body cx (ox_chan y, ox_rx y) = ((s, rx), r, ws)"
    then show ?thesis using os_recv_inv recv.IH c(2) by blast
  qed
qed (simp_all add: os_send_inv os_sender_drop_inv os_closed_inv os_receiver_drop_inv)

section \<open>Properties\<close>

definition os_demo :: "nat os_sys" where
  "os_demo = os_start\<lparr>ox_chan := oneshot_channel\<lparr>os_sent := True, os_value := Some 7\<rparr>, ox_tx := False, ox_accepted := Some 7\<rparr>"

lemma os_demo_reach: "os_reach os_demo"
  using os_reach.send [OF os_reach.start, of 7 "ox_chan os_demo" False "Inr ()" "[]"]
  by (simp add: os_demo_def os_start_def oneshot_channel_def os_send_def wakes_of_def)

text \<open>C23. The value is delivered exactly once: in every interleaving an accepted value is either still in the
  channel or was returned by the receiver, never both and never another value; the receiver
  reports an error only if nothing was ever accepted and the sender is gone.\<close>

theorem oneshot_delivers_exactly_once:
  assumes "os_reach y"
  shows "case ox_received y of
      None \<Rightarrow> os_value (ox_chan y) = ox_accepted y
    | Some (Inr v) \<Rightarrow> ox_accepted y = Some v \<and> os_value (ox_chan y) = None
    | Some (Inl e) \<Rightarrow> ox_accepted y = None \<and> \<not> ox_tx y"
  using os_reach_inv [OF assms] by (auto simp: os_inv_def Let_def split: option.splits sum.splits)

lemma oneshot_delivers_exactly_once_witness: "os_value (ox_chan os_demo) = Some 7 \<and> ox_received os_demo = None"
  using oneshot_delivers_exactly_once [OF os_demo_reach] by (simp add: os_demo_def os_start_def)

text \<open>No lost wakeup at either end: a stored receiver waker means that neither a value nor the end of the
  sender is there to report, a stored closed waker that the receiver is alive; and once the sender
  is gone, a live receiver that is given budget completes, with the accepted value if there is one.\<close>

theorem oneshot_no_lost_wakeup:
  assumes "os_reach y"
  shows "(os_receiver_waker (ox_chan y) \<noteq> None \<longrightarrow> ox_accepted y = None \<and> os_sender_alive (ox_chan y))
    \<and> (os_closed_waker (ox_chan y) \<noteq> None \<longrightarrow> os_receiver_alive (ox_chan y))
    \<and> (ox_rx y \<and> \<not> ox_tx y \<and> b \<noteq> Some 0 \<longrightarrow>
        (\<exists>b' s ws. os_recv_poll b cx (ox_chan y, ox_rx y) =
          Inr (b', (s, False), Ready (case ox_accepted y of Some v \<Rightarrow> Inr v | None \<Rightarrow> Inl RecvError), ws)))"
proof -
  have inv: "os_inv y" by (rule os_reach_inv [OF assms])
  have "\<exists>b' s ws. os_recv_poll b cx (ox_chan y, ox_rx y) =
      Inr (b', (s, False), Ready (case ox_accepted y of Some v \<Rightarrow> Inr v | None \<Rightarrow> Inl RecvError), ws)"
    if "ox_rx y" "\<not> ox_tx y" "b \<noteq> Some 0"
    using inv that by (cases b)
      (auto simp: os_inv_def os_recv_poll_def os_recv_body_def coop_poll_def poll_proceed_def Let_def split: option.splits)
  then show ?thesis using inv by (auto simp: os_inv_def Let_def)
qed

lemma oneshot_no_lost_wakeup_witness: "\<exists>b' s ws. os_recv_poll None 5 (ox_chan os_demo, ox_rx os_demo) = Inr (b', (s, False), Ready (Inr 7), ws)"
  using oneshot_no_lost_wakeup [OF os_demo_reach, of None 5] by (simp add: os_demo_def os_start_def)

end
