(* ===== verification/Watch.thy ===== *)
theory Watch
  imports Coop
begin

text \<open>
  The latest-value channel of \<open>sync/watch.rs\<close>: a value with a wrapping 64-bit version and the wakers
  of waiting receivers. Each receiver keeps the version it has observed. Handles share one \<open>Arc\<close>,
  whose strong count the code uses to tell that the sender is gone; dropping a sender first wakes
  the receivers and gives up its \<open>Arc\<close> afterwards, which \<open>wt_reach\<close> keeps as two steps.
\<close>

section \<open>Model\<close>

record 'a watch =
  wt_value :: 'a
  wt_version :: u64
  wt_wakers :: "waker list"

definition watch_channel :: "'a \<Rightarrow> 'a watch" where
  "watch_channel init = \<lparr>wt_value = init, wt_version = 0, wt_wakers = []\<rparr>"

definition wt_send :: "'a \<Rightarrow> 'a watch \<Rightarrow> 'a watch \<times> waker list" where
  "wt_send v s = (s\<lparr>wt_value := v, wt_version := wt_version s + 1, wt_wakers := []\<rparr>, wt_wakers s)"

definition wt_send_replace :: "'a \<Rightarrow> 'a watch \<Rightarrow> 'a watch \<times> 'a \<times> waker list" where
  "wt_send_replace v s = (s\<lparr>wt_value := v, wt_version := wt_version s + 1, wt_wakers := []\<rparr>, wt_value s, wt_wakers s)"

definition wt_sender_drop :: "'a watch \<Rightarrow> 'a watch \<times> waker list" where
  "wt_sender_drop s = (s\<lparr>wt_wakers := []\<rparr>, wt_wakers s)"

text \<open>The receiver operations take the version the receiver has observed.\<close>

definition wt_borrow_and_update :: "'a watch \<Rightarrow> 'a \<times> u64" where
  "wt_borrow_and_update s = (wt_value s, wt_version s)"

definition wt_has_changed :: "u64 \<Rightarrow> 'a watch \<Rightarrow> bool" where
  "wt_has_changed seen s \<longleftrightarrow> wt_version s \<noteq> seen"

definition changed_body :: "nat \<Rightarrow> u64 \<Rightarrow> waker \<Rightarrow> 'a watch \<Rightarrow> 'a watch \<times> (unit + unit) poll \<times> waker list" where
  "changed_body strong_count seen cx s =
     (if wt_version s \<noteq> seen then (s, Ready (Inr ()), [])
      else if strong_count = 1 then (s, Ready (Inl ()), [])
      else (s\<lparr>wt_wakers := wt_wakers s @ [cx]\<rparr>, Pending, []))"

definition poll_changed :: "nat \<Rightarrow> budget \<Rightarrow> u64 \<Rightarrow> waker \<Rightarrow> 'a watch \<Rightarrow> budget \<times> 'a watch \<times> (unit + unit) poll \<times> waker list" where
  "poll_changed strong_count b seen cx s = coop_poll b cx s (changed_body strong_count seen cx s)"

section \<open>All handles of one channel\<close>

text \<open>
  \<open>wx_leaving\<close> counts senders that have woken the receivers but still hold their \<open>Arc\<close>. The ghost
  fields are the values published so far, the number each receiver had observed, and the wakers of
  receivers whose last poll was pending and that have not been woken since.
\<close>

record 'a wt_sys =
  wx_chan :: "'a watch"
  wx_senders :: nat
  wx_leaving :: nat
  wx_seen :: "nat \<rightharpoonup> u64"
  wx_log :: "'a list"
  wx_observed :: "nat \<Rightarrow> nat"
  wx_asleep :: "waker set"

definition wt_count :: "'a wt_sys \<Rightarrow> nat" where
  "wt_count y = wx_senders y + wx_leaving y + card (dom (wx_seen y))"

definition wt_start :: "'a \<Rightarrow> 'a wt_sys" where
  "wt_start v = \<lparr>wx_chan = watch_channel v, wx_senders = 1, wx_leaving = 0, wx_seen = [0 \<mapsto> 0], wx_log = [v], wx_observed = (\<lambda>_. 1),
     wx_asleep = {}\<rparr>"

inductive wt_reach :: "'a wt_sys \<Rightarrow> bool" where
  start: "wt_reach (wt_start v)"
| clone_sender: "wt_reach y \<Longrightarrow> 0 < wx_senders y \<Longrightarrow> wt_reach (y\<lparr>wx_senders := wx_senders y + 1\<rparr>)"
| send: "wt_reach y \<Longrightarrow> 0 < wx_senders y \<Longrightarrow> wt_send v (wx_chan y) = (s, ws) \<Longrightarrow>
    wt_reach (y\<lparr>wx_chan := s, wx_log := wx_log y @ [v], wx_asleep := wx_asleep y - set ws\<rparr>)"
| replace: "wt_reach y \<Longrightarrow> 0 < wx_senders y \<Longrightarrow> wt_send_replace v (wx_chan y) = (s, old, ws) \<Longrightarrow>
    wt_reach (y\<lparr>wx_chan := s, wx_log := wx_log y @ [v], wx_asleep := wx_asleep y - set ws\<rparr>)"
| drop_wakes: "wt_reach y \<Longrightarrow> 0 < wx_senders y \<Longrightarrow> wt_sender_drop (wx_chan y) = (s, ws) \<Longrightarrow>
    wt_reach (y\<lparr>wx_chan := s, wx_senders := wx_senders y - 1, wx_leaving := wx_leaving y + 1, wx_asleep := wx_asleep y - set ws\<rparr>)"
| drop_releases: "wt_reach y \<Longrightarrow> 0 < wx_leaving y \<Longrightarrow> wt_reach (y\<lparr>wx_leaving := wx_leaving y - 1\<rparr>)"
| clone_receiver: "wt_reach y \<Longrightarrow> wx_seen y i = Some n \<Longrightarrow> wx_seen y j = None \<Longrightarrow>
    wt_reach (y\<lparr>wx_seen := (wx_seen y)(j \<mapsto> n), wx_observed := (wx_observed y)(j := wx_observed y i)\<rparr>)"
| update: "wt_reach y \<Longrightarrow> wx_seen y i = Some n \<Longrightarrow> wt_borrow_and_update (wx_chan y) = (v, n') \<Longrightarrow>
    wt_reach (y\<lparr>wx_seen := (wx_seen y)(i \<mapsto> n'), wx_observed := (wx_observed y)(i := length (wx_log y))\<rparr>)"
| poll: "wt_reach y \<Longrightarrow> wx_seen y i = Some n \<Longrightarrow> poll_changed (wt_count y) b n cx (wx_chan y) = (b', s, r, ws) \<Longrightarrow>
    wt_reach (y\<lparr>wx_chan := s, wx_asleep := (if r = Pending then insert cx (wx_asleep y) else wx_asleep y) - set ws\<rparr>)"
| drop_receiver: "wt_reach y \<Longrightarrow> wx_seen y i = Some n \<Longrightarrow> wt_reach (y\<lparr>wx_seen := (wx_seen y)(i := None)\<rparr>)"

text \<open>The version is the number of publications modulo $2^{64}$; whoever sleeps is on the waker list.\<close>

definition wt_inv :: "'a wt_sys \<Rightarrow> bool" where
  "wt_inv y \<longleftrightarrow> wx_log y \<noteq> [] \<and> wt_value (wx_chan y) = last (wx_log y) \<and> wt_version (wx_chan y) = of_nat (length (wx_log y) - 1)
     \<and> (\<forall>i n. wx_seen y i = Some n \<longrightarrow> 0 < wx_observed y i \<and> wx_observed y i \<le> length (wx_log y) \<and> n = of_nat (wx_observed y i - 1))
     \<and> finite (dom (wx_seen y)) \<and> wx_asleep y \<subseteq> set (wt_wakers (wx_chan y))"

lemma wt_publish_inv:
  assumes "wt_inv y"
  shows "wt_inv (y\<lparr>wx_chan := (wx_chan y)\<lparr>wt_value := v, wt_version := wt_version (wx_chan y) + 1, wt_wakers := []\<rparr>,
    wx_log := wx_log y @ [v], wx_asleep := wx_asleep y - set (wt_wakers (wx_chan y))\<rparr>)"
proof -
  have "(of_nat (length (wx_log y) - 1) :: u64) + 1 = of_nat (length (wx_log y))"
    using assms by (cases "length (wx_log y)") (auto simp: wt_inv_def)
  then show ?thesis using assms by (fastforce simp: wt_inv_def)
qed

lemma wt_poll_inv:
  assumes inv: "wt_inv y" and p: "poll_changed c b n cx (wx_chan y) = (b', s, r, ws)"
  shows "wt_inv (y\<lparr>wx_chan := s, wx_asleep := (if r = Pending then insert cx (wx_asleep y) else wx_asleep y) - set ws\<rparr>)"
proof -
  consider (spent) "s = wx_chan y" "r = Pending" "ws = [cx]" | (body) "changed_body c n cx (wx_chan y) = (s, r, ws)"
    using coop_poll_cases [OF p [unfolded poll_changed_def]] by blast
  then show ?thesis
  proof cases
    case spent
    then show ?thesis using inv by (auto simp: wt_inv_def)
  next
    case body
    then show ?thesis using inv by (auto simp: wt_inv_def changed_body_def split: if_splits)
  qed
qed

lemma wt_reach_inv: "wt_reach y \<Longrightarrow> wt_inv y"
proof (induction rule: wt_reach.induct)
  case (start v)
  then show ?case by (simp add: wt_inv_def wt_start_def watch_channel_def)
next
  case (send y v s ws)
  then show ?case using wt_publish_inv [OF send.IH, of v] by (auto simp: wt_send_def)
next
  case (replace y v s old ws)
  then show ?case using wt_publish_inv [OF replace.IH, of v] by (auto simp: wt_send_replace_def)
next
  case (drop_wakes y s ws)
  then show ?case by (auto simp: wt_inv_def wt_sender_drop_def)
next
  case (poll y i n b cx b' s r ws)
  then show ?case using wt_poll_inv by blast
next
  case (update y i n v n')
  then show ?case by (fastforce simp: wt_inv_def wt_borrow_and_update_def of_nat_diff Suc_le_eq)
qed (auto simp: wt_inv_def)

section \<open>Properties\<close>

lemma of_nat_u64_eq_iff: "m \<le> n \<Longrightarrow> n - m < 2 ^ 64 \<Longrightarrow> (of_nat m = (of_nat n :: u64)) \<longleftrightarrow> m = n"
proof
  assume "m \<le> n" "n - m < 2 ^ 64" "of_nat m = (of_nat n :: u64)"
  then have "of_nat (n - m) = (0 :: u64)" by (simp add: of_nat_diff)
  then have "2 ^ 64 dvd n - m" by (simp add: word_of_nat_eq_0_iff)
  then show "m = n" using \<open>m \<le> n\<close> \<open>n - m < 2 ^ 64\<close> by (auto dest: dvd_imp_le)
qed simp

text \<open>A receiver sees the latest value: the stored value is always the last one published, and as long as
  fewer than $2^{64}$ values were published since a receiver's last \<open>borrow_and_update\<close>, \<open>has_changed\<close> tells
  exactly whether there was one, and \<open>changed\<close>, given budget, then completes.\<close>

theorem watch_shows_the_latest:
  assumes "wt_reach y" "wx_seen y i = Some n" "length (wx_log y) - wx_observed y i < 2 ^ 64" "b \<noteq> Some 0"
  shows "wt_value (wx_chan y) = last (wx_log y) \<and> wt_has_changed n (wx_chan y) = (wx_observed y i < length (wx_log y))
    \<and> (wx_observed y i < length (wx_log y) \<longrightarrow> (\<exists>b' ws. poll_changed (wt_count y) b n cx (wx_chan y) = (b', wx_chan y, Ready (Inr ()), ws)))"
proof -
  have inv: "wt_inv y" by (rule wt_reach_inv [OF assms(1)])
  have o: "0 < wx_observed y i" "wx_observed y i \<le> length (wx_log y)" "n = of_nat (wx_observed y i - 1)"
    using inv assms(2) by (auto simp: wt_inv_def)
  have "wt_version (wx_chan y) = n \<longleftrightarrow> wx_observed y i - 1 = length (wx_log y) - 1"
    using of_nat_u64_eq_iff [of "wx_observed y i - 1" "length (wx_log y) - 1"] o assms(3) inv by (auto simp: wt_inv_def)
  then have c: "wt_version (wx_chan y) \<noteq> n \<longleftrightarrow> wx_observed y i < length (wx_log y)" using o by auto
  then show ?thesis using inv assms(4)
    by (cases b) (auto simp: wt_inv_def wt_has_changed_def poll_changed_def changed_body_def coop_poll_def poll_proceed_def)
qed

lemma watch_shows_the_latest_witness:
  "wt_value (wx_chan (wt_start (7::nat))) = 7 \<and> \<not> wt_has_changed 0 (wx_chan (wt_start (7::nat)))"
  using watch_shows_the_latest [OF wt_reach.start [of "7::nat"], of 0 0 None] by (simp add: wt_start_def)

text \<open>No sleeping receiver misses a publication: every receiver that returned pending and was not woken
  since is woken by the next \<open>send\<close>, \<open>send_replace\<close> or sender drop.\<close>

theorem watch_publication_wakes_all:
  assumes "wt_reach y" "wt_send v (wx_chan y) = (s, ws)" "wt_send_replace v' (wx_chan y) = (s', old, ws')" "wt_sender_drop (wx_chan y) = (s'', ws'')"
  shows "wx_asleep y \<subseteq> set ws \<and> wx_asleep y \<subseteq> set ws' \<and> wx_asleep y \<subseteq> set ws'' \<and> old = last (wx_log y)"
  using wt_reach_inv [OF assms(1)] assms(2-4) by (auto simp: wt_inv_def wt_send_def wt_send_replace_def wt_sender_drop_def)

lemma watch_publication_wakes_all_witness: "\<exists>s ws. wt_send 8 (wx_chan (wt_start (7::nat))) = (s, ws) \<and> wx_asleep (wt_start (7::nat)) \<subseteq> set ws"
  using watch_publication_wakes_all [OF wt_reach.start [of "7::nat"], of 8 _ _ 8]
  by (cases "wt_send 8 (wx_chan (wt_start (7::nat)))") (auto simp: wt_send_replace_def wt_sender_drop_def)

text \<open>The end of the channel can be missed: the strong count is one only for a single receiver, so with two
  receivers and no sender left every poll of \<open>changed\<close> is pending, whatever the budget. The same happens
  to a single receiver polled after the last sender woke it and before that sender gave up its \<open>Arc\<close>.\<close>

theorem watch_close_can_be_missed:
  "(\<exists>y :: 'a wt_sys. wt_reach y \<and> wx_senders y = 0 \<and> wx_leaving y = 0 \<and> wx_seen y = [0 \<mapsto> 0, 2 \<mapsto> 0]
     \<and> (\<forall>b cx. \<exists>b' s ws. poll_changed (wt_count y) b 0 cx (wx_chan y) = (b', s, Pending, ws)))
   \<and> (\<exists>y :: 'a wt_sys. wt_reach y \<and> wx_senders y = 0 \<and> wx_leaving y = 0 \<and> wx_seen y = [0 \<mapsto> 0] \<and> wx_asleep y = {5})"
proof -
  fix v :: 'a
  let ?y = "wt_start v :: 'a wt_sys"
  let ?c = "watch_channel v"
  have 1: "wt_reach (?y\<lparr>wx_senders := 0, wx_leaving := 1\<rparr>)"
    using wt_reach.drop_wakes [OF wt_reach.start [of v], of ?c "[]"] by (simp add: wt_start_def watch_channel_def wt_sender_drop_def)
  have 2: "wt_reach (?y\<lparr>wx_senders := 0, wx_leaving := 0\<rparr>)"
    using wt_reach.drop_releases [OF 1] by (simp add: wt_start_def)
  have 3: "wt_reach (?y\<lparr>wx_senders := 0, wx_leaving := 0, wx_seen := [0 \<mapsto> 0, 2 \<mapsto> 0]\<rparr>)"
    using wt_reach.clone_receiver [OF 2, of 0 0 2] by (simp add: wt_start_def fun_upd_idem)
  have 4: "wt_reach (?y\<lparr>wx_chan := ?c\<lparr>wt_wakers := [5]\<rparr>, wx_senders := 0, wx_leaving := 1, wx_asleep := {5}\<rparr>)"
    using wt_reach.poll [OF 1, of 0 0 None 5 None "?c\<lparr>wt_wakers := [5]\<rparr>" Pending "[]"]
    by (simp add: wt_start_def watch_channel_def wt_count_def poll_changed_def changed_body_def coop_poll_def poll_proceed_def)
  have 5: "wt_reach (?y\<lparr>wx_chan := ?c\<lparr>wt_wakers := [5]\<rparr>, wx_senders := 0, wx_leaving := 0, wx_asleep := {5}\<rparr>)"
    using wt_reach.drop_releases [OF 4] by (simp add: wt_start_def)
  let ?two = "?y\<lparr>wx_senders := 0, wx_leaving := 0, wx_seen := [0 \<mapsto> 0, 2 \<mapsto> 0]\<rparr>"
  have "wt_count ?two \<noteq> 1" by (simp add: wt_start_def wt_count_def)
  then have "\<forall>b cx. \<exists>b' s ws. poll_changed (wt_count ?two) b 0 cx (wx_chan ?two) = (b', s, Pending, ws)"
    by (auto simp: poll_changed_def changed_body_def coop_poll_def poll_proceed_def wt_start_def watch_channel_def split: option.splits)
  then have "\<exists>y :: 'a wt_sys. wt_reach y \<and> wx_senders y = 0 \<and> wx_leaving y = 0 \<and> wx_seen y = [0 \<mapsto> 0, 2 \<mapsto> 0]
     \<and> (\<forall>b cx. \<exists>b' s ws. poll_changed (wt_count y) b 0 cx (wx_chan y) = (b', s, Pending, ws))"
    using 3 by (intro exI [of _ ?two]) simp
  moreover have "\<exists>y :: 'a wt_sys. wt_reach y \<and> wx_senders y = 0 \<and> wx_leaving y = 0 \<and> wx_seen y = [0 \<mapsto> 0] \<and> wx_asleep y = {5}"
    using 5 by (intro exI [of _ "?y\<lparr>wx_chan := ?c\<lparr>wt_wakers := [5]\<rparr>, wx_senders := 0, wx_leaving := 0, wx_asleep := {5}\<rparr>"])
      (simp add: wt_start_def)
  ultimately show ?thesis by blast
qed

end
