(* ===== verification/Broadcast.thy ===== *)
theory Broadcast
  imports Coop
begin

text \<open>
  The broadcast channel of \<open>sync/broadcast.rs\<close>: a ring of the most recent values, a sequence number
  and one slot per receiver. A receiver is its id and its cursor. The handles share one \<open>Arc\<close>; that
  its strong count equals the number of slots is the code's test for the absence of senders. The
  sequence numbers are natural numbers (a 64-bit counter that is only incremented).
\<close>

section \<open>Model\<close>

record bc_slot =
  bs_id :: nat
  bs_cursor :: nat
  bs_waker :: "waker option"

record 'a broadcast =
  bc_capacity :: nat
  bc_next_receiver_id :: nat
  bc_buffer :: "'a list"
  bc_next_seq :: nat
  bc_receivers :: "bc_slot list"

datatype bc_panic = CapacityZero | RegisteredTwice
datatype BcRecvError = BcClosed | BcLagged nat
datatype TryRecvError = TryEmpty | TryClosed | TryLagged nat

definition bc_slot_new :: "nat \<Rightarrow> nat \<Rightarrow> bc_slot" where
  "bc_slot_new i c = \<lparr>bs_id = i, bs_cursor = c, bs_waker = None\<rparr>"

definition register_slot :: "nat \<Rightarrow> nat \<Rightarrow> 'a broadcast \<Rightarrow> bc_panic + 'a broadcast" where
  "register_slot i c s =
     (if i \<in> bs_id ` set (bc_receivers s) then Inl RegisteredTwice
      else Inr (s\<lparr>bc_receivers := bc_receivers s @ [bc_slot_new i c]\<rparr>))"

definition bc_channel :: "nat \<Rightarrow> bc_panic + 'a broadcast \<times> nat" where
  "bc_channel cap =
     (if cap = 0 then Inl CapacityZero
      else
        let s = \<lparr>bc_capacity = cap, bc_next_receiver_id = 0, bc_buffer = [], bc_next_seq = 0, bc_receivers = []\<rparr>;
            i = bc_next_receiver_id s
        in case register_slot i 0 (s\<lparr>bc_next_receiver_id := i + 1\<rparr>) of Inl e \<Rightarrow> Inl e | Inr s \<Rightarrow> Inr (s, i))"

text \<open>Cloning a receiver: the id, the state and the cursor of the clone.\<close>

definition bc_clone :: "'a broadcast \<Rightarrow> bc_panic + 'a broadcast \<times> nat \<times> nat" where
  "bc_clone s =
     (let i = bc_next_receiver_id s; c = bc_next_seq s in
      case register_slot i c (s\<lparr>bc_next_receiver_id := i + 1\<rparr>) of Inl e \<Rightarrow> Inl e | Inr s \<Rightarrow> Inr (s, i, c))"

definition first_seq :: "'a broadcast \<Rightarrow> nat" where
  "first_seq s = bc_next_seq s - min (length (bc_buffer s)) (bc_capacity s)"

primrec position :: "nat \<Rightarrow> bc_slot list \<Rightarrow> nat option" where
  "position i [] = None"
| "position i (x # xs) = (if bs_id x = i then Some 0 else map_option Suc (position i xs))"

definition slot_index :: "nat \<Rightarrow> nat \<Rightarrow> 'a broadcast \<Rightarrow> 'a broadcast \<times> nat" where
  "slot_index i c s =
     (case position i (bc_receivers s) of
        Some ix \<Rightarrow> (s, ix)
      | None \<Rightarrow> (s\<lparr>bc_receivers := bc_receivers s @ [bc_slot_new i c]\<rparr>, length (bc_receivers s)))"

definition upd_slot :: "nat \<Rightarrow> nat \<Rightarrow> (bc_slot \<Rightarrow> bc_slot) \<Rightarrow> 'a broadcast \<Rightarrow> 'a broadcast" where
  "upd_slot i c f s =
     (let (s, ix) = slot_index i c s
      in s\<lparr>bc_receivers := (bc_receivers s)[ix := f (bc_receivers s ! ix)]\<rparr>)"

definition bc_send :: "'a \<Rightarrow> 'a broadcast \<Rightarrow> 'a broadcast \<times> ('a + unit) \<times> waker list" where
  "bc_send v s =
     (if bc_receivers s = [] then (s, Inl v, [])
      else
        let buf = (if length (bc_buffer s) = bc_capacity s then drop 1 (bc_buffer s) else bc_buffer s)
        in (s\<lparr>bc_buffer := buf @ [v], bc_next_seq := bc_next_seq s + 1,
              bc_receivers := map (\<lambda>r. r\<lparr>bs_waker := None\<rparr>) (bc_receivers s)\<rparr>,
            Inr (), concat (map (\<lambda>r. wakes_of (bs_waker r)) (bc_receivers s))))"

definition try_recv :: "nat \<Rightarrow> nat \<Rightarrow> nat \<Rightarrow> 'a broadcast \<Rightarrow> 'a broadcast \<times> nat \<times> (TryRecvError + 'a)" where
  "try_recv strong_count i cursor s =
     (if strong_count = length (bc_receivers s) then (s, cursor, Inl TryClosed)
      else
        let first = first_seq s in
        if cursor < first then (upd_slot i first (\<lambda>r. r\<lparr>bs_cursor := first\<rparr>) s, first, Inl (TryLagged (first - cursor)))
        else if cursor < bc_next_seq s then
          (upd_slot i (cursor + 1) (\<lambda>r. r\<lparr>bs_cursor := cursor + 1\<rparr>) s, cursor + 1, Inr (bc_buffer s ! (cursor - first)))
        else (s, cursor, Inl TryEmpty))"

text \<open>The state threaded through a poll is the channel and the cursor of the receiver.\<close>

definition bc_recv_body ::
  "nat \<Rightarrow> nat \<Rightarrow> waker \<Rightarrow> 'a broadcast \<times> nat \<Rightarrow> ('a broadcast \<times> nat) \<times> (BcRecvError + 'a) poll \<times> waker list" where
  "bc_recv_body strong_count i cx sc =
     (let (s, cursor) = sc; first = first_seq s in
      if cursor < first then ((upd_slot i first (\<lambda>r. r\<lparr>bs_cursor := first\<rparr>) s, first), Ready (Inl (BcLagged (first - cursor))), [])
      else if cursor < bc_next_seq s then
        ((upd_slot i (cursor + 1) (\<lambda>r. r\<lparr>bs_cursor := cursor + 1\<rparr>) s, cursor + 1), Ready (Inr (bc_buffer s ! (cursor - first))), [])
      else if strong_count = length (bc_receivers s) then ((s, cursor), Ready (Inl BcClosed), [])
      else ((upd_slot i cursor (\<lambda>r. r\<lparr>bs_waker := Some cx\<rparr>) s, cursor), Pending, []))"

definition bc_recv_poll ::
  "nat \<Rightarrow> budget \<Rightarrow> nat \<Rightarrow> waker \<Rightarrow> 'a broadcast \<times> nat \<Rightarrow> budget \<times> ('a broadcast \<times> nat) \<times> (BcRecvError + 'a) poll \<times> waker list" where
  "bc_recv_poll strong_count b i cx sc = coop_poll b cx sc (bc_recv_body strong_count i cx sc)"

definition bc_receiver_drop :: "nat \<Rightarrow> 'a broadcast \<Rightarrow> 'a broadcast" where
  "bc_receiver_drop i s = s\<lparr>bc_receivers := filter (\<lambda>r. bs_id r \<noteq> i) (bc_receivers s)\<rparr>"

section \<open>All handles of one channel\<close>

text \<open>
  \<open>bx_cursor\<close> holds the receivers, \<open>bx_leaving\<close> counts receivers that have removed their slot but
  still hold their \<open>Arc\<close>. The ghost fields are all values accepted so far and, for each receiver,
  where it started and what it was told.
\<close>

datatype 'a bc_event = Got 'a | Missed nat

record 'a bc_sys =
  bx_chan :: "'a broadcast"
  bx_senders :: nat
  bx_leaving :: nat
  bx_cursor :: "nat \<rightharpoonup> nat"
  bx_log :: "'a list"
  bx_start :: "nat \<Rightarrow> nat"
  bx_told :: "nat \<Rightarrow> 'a bc_event list"

definition bx_count :: "'a bc_sys \<Rightarrow> nat" where
  "bx_count y = bx_senders y + bx_leaving y + card (dom (bx_cursor y))"

fun try_event :: "TryRecvError + 'a \<Rightarrow> 'a bc_event list" where
  "try_event (Inr v) = [Got v]"
| "try_event (Inl (TryLagged k)) = [Missed k]"
| "try_event (Inl TryEmpty) = []"
| "try_event (Inl TryClosed) = []"

fun recv_event :: "(BcRecvError + 'a) poll \<Rightarrow> 'a bc_event list" where
  "recv_event (Ready (Inr v)) = [Got v]"
| "recv_event (Ready (Inl (BcLagged k))) = [Missed k]"
| "recv_event (Ready (Inl BcClosed)) = []"
| "recv_event Pending = []"

inductive bc_reach :: "nat \<Rightarrow> 'a bc_sys \<Rightarrow> bool" for cap :: nat where
  start: "bc_channel cap = Inr (s, i) \<Longrightarrow>
    bc_reach cap \<lparr>bx_chan = s, bx_senders = 1, bx_leaving = 0, bx_cursor = [i \<mapsto> 0], bx_log = [], bx_start = (\<lambda>_. 0), bx_told = (\<lambda>_. [])\<rparr>"
| clone_sender: "bc_reach cap y \<Longrightarrow> 0 < bx_senders y \<Longrightarrow> bc_reach cap (y\<lparr>bx_senders := bx_senders y + 1\<rparr>)"
| drop_sender: "bc_reach cap y \<Longrightarrow> 0 < bx_senders y \<Longrightarrow> bc_reach cap (y\<lparr>bx_senders := bx_senders y - 1\<rparr>)"
| send: "bc_reach cap y \<Longrightarrow> 0 < bx_senders y \<Longrightarrow> bc_send v (bx_chan y) = (s, r, ws) \<Longrightarrow>
    bc_reach cap (y\<lparr>bx_chan := s, bx_log := bx_log y @ (if r = Inr () then [v] else [])\<rparr>)"
| clone: "bc_reach cap y \<Longrightarrow> bx_cursor y j = Some c' \<Longrightarrow> bc_clone (bx_chan y) = Inr (s, i, c) \<Longrightarrow>
    bc_reach cap (y\<lparr>bx_chan := s, bx_cursor := (bx_cursor y)(i \<mapsto> c), bx_start := (bx_start y)(i := c), bx_told := (bx_told y)(i := [])\<rparr>)"
| attempt: "bc_reach cap y \<Longrightarrow> bx_cursor y i = Some c \<Longrightarrow> try_recv (bx_count y) i c (bx_chan y) = (s, c', r) \<Longrightarrow>
    bc_reach cap (y\<lparr>bx_chan := s, bx_cursor := (bx_cursor y)(i \<mapsto> c'), bx_told := (bx_told y)(i := bx_told y i @ try_event r)\<rparr>)"
| poll: "bc_reach cap y \<Longrightarrow> bx_cursor y i = Some c \<Longrightarrow> bc_recv_poll (bx_count y) b i cx (bx_chan y, c) = (b', (s, c'), r, ws) \<Longrightarrow>
    bc_reach cap (y\<lparr>bx_chan := s, bx_cursor := (bx_cursor y)(i \<mapsto> c'), bx_told := (bx_told y)(i := bx_told y i @ recv_event r)\<rparr>)"
| drop: "bc_reach cap y \<Longrightarrow> bx_cursor y i = Some c \<Longrightarrow>
    bc_reach cap (y\<lparr>bx_chan := bc_receiver_drop i (bx_chan y), bx_cursor := (bx_cursor y)(i := None), bx_leaving := bx_leaving y + 1\<rparr>)"
| release: "bc_reach cap y \<Longrightarrow> 0 < bx_leaving y \<Longrightarrow> bc_reach cap (y\<lparr>bx_leaving := bx_leaving y - 1\<rparr>)"

section \<open>Ring and slots\<close>

text \<open>Reading what a receiver was told against the log, from a position.\<close>

fun covers :: "'a list \<Rightarrow> nat \<Rightarrow> 'a bc_event list \<Rightarrow> nat option" where
  "covers log p [] = Some p"
| "covers log p (Got v # es) = (if p < length log \<and> log ! p = v then covers log (p + 1) es else None)"
| "covers log p (Missed k # es) = (if 0 < k \<and> p + k \<le> length log then covers log (p + k) es else None)"

lemma covers_append: "covers log p (es @ es') = (case covers log p es of None \<Rightarrow> None | Some q \<Rightarrow> covers log q es')"
  by (induction log p es rule: covers.induct) auto

lemma covers_extend: "covers log p es = Some q \<Longrightarrow> covers (log @ xs) p es = Some q"
  by (induction log p es rule: covers.induct) (auto simp: nth_append split: if_splits)

definition ring_ok :: "nat \<Rightarrow> 'a list \<Rightarrow> 'a broadcast \<Rightarrow> bool" where
  "ring_ok cap log s \<longleftrightarrow> bc_capacity s = cap \<and> 0 < cap \<and> bc_next_seq s = length log
     \<and> bc_buffer s = drop (length log - cap) log"

definition slots_ok :: "(nat \<rightharpoonup> nat) \<Rightarrow> 'a broadcast \<Rightarrow> bool" where
  "slots_ok cur s \<longleftrightarrow> distinct (map bs_id (bc_receivers s)) \<and> dom cur = set (map bs_id (bc_receivers s))
     \<and> (\<forall>r\<in>set (bc_receivers s). cur (bs_id r) = Some (bs_cursor r) \<and> bs_id r < bc_next_receiver_id s)"

lemma ring_first: "ring_ok cap log s \<Longrightarrow> first_seq s = length log - cap"
  by (auto simp: ring_ok_def first_seq_def min_def)

lemma ring_nth: "ring_ok cap log s \<Longrightarrow> first_seq s \<le> c \<Longrightarrow> c < length log \<Longrightarrow> bc_buffer s ! (c - first_seq s) = log ! c"
  by (simp add: ring_first) (simp add: ring_ok_def)

lemma position_nth: "position i rs = Some ix \<Longrightarrow> ix < length rs \<and> bs_id (rs ! ix) = i"
  by (induction rs arbitrary: ix) (auto split: if_splits)

lemma position_None: "position i rs = None \<longleftrightarrow> i \<notin> bs_id ` set rs"
  by (induction rs) auto

lemma position_update:
  "distinct (map bs_id rs) \<Longrightarrow> position i rs = Some ix \<Longrightarrow> rs[ix := f (rs ! ix)] = map (\<lambda>r. if bs_id r = i then f r else r) rs"
proof (induction rs arbitrary: ix)
  case (Cons r rs)
  have "bs_id r = i \<Longrightarrow> x \<in> set rs \<Longrightarrow> bs_id x \<noteq> i" for x using Cons.prems(1) by (auto simp: image_iff)
  then have "bs_id r = i \<Longrightarrow> map (\<lambda>r. if bs_id r = i then f r else r) rs = rs" by (intro map_idI) auto
  then show ?case using Cons by (auto split: if_splits)
qed simp

lemma upd_slot_map:
  assumes "slots_ok cur s" "i \<in> dom cur"
  shows "upd_slot i c f s = s\<lparr>bc_receivers := map (\<lambda>r. if bs_id r = i then f r else r) (bc_receivers s)\<rparr>"
proof -
  obtain ix where "position i (bc_receivers s) = Some ix"
    using assms position_None [of i "bc_receivers s"] by (cases "position i (bc_receivers s)") (auto simp: slots_ok_def)
  then show ?thesis using position_update [of "bc_receivers s" i ix f] assms(1) by (simp add: upd_slot_def slot_index_def slots_ok_def)
qed

lemma slots_ok_card:
  assumes "slots_ok cur s"
  shows "finite (dom cur)" "card (dom cur) = length (bc_receivers s)"
  using assms distinct_card [of "map bs_id (bc_receivers s)"] by (auto simp: slots_ok_def)

lemma slots_ok_map:
  assumes ok: "slots_ok cur s" and g: "\<And>r. bs_id (g r) = bs_id r" and d: "dom cur' = dom cur"
    and c: "\<And>r. cur (bs_id r) = Some (bs_cursor r) \<Longrightarrow> cur' (bs_id r) = Some (bs_cursor (g r))"
    and s': "bc_receivers s' = map g (bc_receivers s)" "bc_next_receiver_id s' = bc_next_receiver_id s"
  shows "slots_ok cur' s'"
proof -
  have m: "map bs_id (bc_receivers s') = map bs_id (bc_receivers s)" using g s'(1) by simp
  show ?thesis using ok c d g unfolding slots_ok_def m by (simp add: s')
qed

lemma slots_ok_cursor:
  assumes ok: "slots_ok cur s" and i: "i \<in> dom cur"
  shows "slots_ok (cur(i \<mapsto> c)) (upd_slot i c' (\<lambda>r. r\<lparr>bs_cursor := c\<rparr>) s)"
  by (rule slots_ok_map [OF ok, of "\<lambda>r. if bs_id r = i then r\<lparr>bs_cursor := c\<rparr> else r"]) (use i in \<open>auto simp: upd_slot_map [OF ok i]\<close>)

lemma slots_ok_waker:
  assumes ok: "slots_ok cur s" and i: "i \<in> dom cur"
  shows "slots_ok cur (upd_slot i c (\<lambda>r. r\<lparr>bs_waker := w\<rparr>) s)"
  by (rule slots_ok_map [OF ok, of "\<lambda>r. if bs_id r = i then r\<lparr>bs_waker := w\<rparr> else r"]) (use i in \<open>auto simp: upd_slot_map [OF ok i]\<close>)

lemma ring_upd_slot: "slots_ok cur s \<Longrightarrow> i \<in> dom cur \<Longrightarrow> ring_ok cap log (upd_slot i c f s) = ring_ok cap log s"
  by (simp add: upd_slot_map ring_ok_def)

section \<open>Reachable channels\<close>

definition bc_inv :: "nat \<Rightarrow> 'a bc_sys \<Rightarrow> bool" where
  "bc_inv cap y \<longleftrightarrow> ring_ok cap (bx_log y) (bx_chan y) \<and> slots_ok (bx_cursor y) (bx_chan y)
     \<and> (\<forall>i c. bx_cursor y i = Some c \<longrightarrow> covers (bx_log y) (bx_start y i) (bx_told y i) = Some c \<and> c \<le> length (bx_log y))"

text \<open>What one step of reading does, for both ways of reading.\<close>

lemma read_step:
  assumes inv: "bc_inv cap y" and c: "bx_cursor y i = Some c"
    and s: "slots_ok ((bx_cursor y)(i \<mapsto> c')) s" "ring_ok cap (bx_log y) s" and e: "covers (bx_log y) c es = Some c'" "c' \<le> length (bx_log y)"
  shows "bc_inv cap (y\<lparr>bx_chan := s, bx_cursor := (bx_cursor y)(i \<mapsto> c'), bx_told := (bx_told y)(i := bx_told y i @ es)\<rparr>)"
  using assms by (auto simp: bc_inv_def covers_append)

lemma take_facts:
  assumes inv: "bc_inv cap y" and c: "bx_cursor y i = Some c"
  shows "c < first_seq (bx_chan y) \<Longrightarrow> covers (bx_log y) c [Missed (first_seq (bx_chan y) - c)] = Some (first_seq (bx_chan y))"
    and "\<not> c < first_seq (bx_chan y) \<Longrightarrow> c < bc_next_seq (bx_chan y) \<Longrightarrow>
      covers (bx_log y) c [Got (bc_buffer (bx_chan y) ! (c - first_seq (bx_chan y)))] = Some (c + 1)"
    and "first_seq (bx_chan y) \<le> length (bx_log y)" "bc_next_seq (bx_chan y) = length (bx_log y)" "c \<le> length (bx_log y)"
  using inv c ring_first [of cap "bx_log y" "bx_chan y"] ring_nth [of cap "bx_log y" "bx_chan y" c]
  by (auto simp: bc_inv_def) (auto simp: ring_ok_def)

lemma attempt_inv:
  assumes inv: "bc_inv cap y" and c: "bx_cursor y i = Some c" and r: "try_recv n i c (bx_chan y) = (s, c', r)"
  shows "bc_inv cap (y\<lparr>bx_chan := s, bx_cursor := (bx_cursor y)(i \<mapsto> c'), bx_told := (bx_told y)(i := bx_told y i @ try_event r)\<rparr>)"
proof -
  note f = take_facts [OF inv c]
  have ok: "slots_ok (bx_cursor y) (bx_chan y)" "ring_ok cap (bx_log y) (bx_chan y)" "i \<in> dom (bx_cursor y)"
    using inv c by (auto simp: bc_inv_def)
  note u = slots_ok_cursor [OF ok(1,3)] ring_upd_slot [OF ok(1,3)]
  show ?thesis
  proof (rule read_step [OF inv c])
    show "slots_ok ((bx_cursor y)(i \<mapsto> c')) s" using r ok u c by (auto simp: try_recv_def Let_def fun_upd_idem split: if_splits)
    show "ring_ok cap (bx_log y) s" using r ok u by (auto simp: try_recv_def Let_def split: if_splits)
    show "covers (bx_log y) c (try_event r) = Some c'" using r f(1,2) by (auto simp: try_recv_def Let_def split: if_splits)
    show "c' \<le> length (bx_log y)" using r f(3-5) by (auto simp: try_recv_def Let_def split: if_splits)
  qed
qed

lemma poll_inv:
  assumes inv: "bc_inv cap y" and c: "bx_cursor y i = Some c" and r: "bc_recv_body n i cx (bx_chan y, c) = ((s, c'), r, ws)"
  shows "bc_inv cap (y\<lparr>bx_chan := s, bx_cursor := (bx_cursor y)(i \<mapsto> c'), bx_told := (bx_told y)(i := bx_told y i @ recv_event r)\<rparr>)"
proof -
  note f = take_facts [OF inv c]
  have ok: "slots_ok (bx_cursor y) (bx_chan y)" "ring_ok cap (bx_log y) (bx_chan y)" "i \<in> dom (bx_cursor y)"
    using inv c by (auto simp: bc_inv_def)
  note u = slots_ok_cursor [OF ok(1,3)] ring_upd_slot [OF ok(1,3)] slots_ok_waker [OF ok(1,3)]
  show ?thesis
  proof (rule read_step [OF inv c])
    show "slots_ok ((bx_cursor y)(i \<mapsto> c')) s" using r ok u c by (auto simp: bc_recv_body_def Let_def fun_upd_idem split: if_splits)
    show "ring_ok cap (bx_log y) s" using r ok u by (auto simp: bc_recv_body_def Let_def split: if_splits)
    show "covers (bx_log y) c (recv_event r) = Some c'" using r f(1,2) by (auto simp: bc_recv_body_def Let_def split: if_splits)
    show "c' \<le> length (bx_log y)" using r f(3-5) by (auto simp: bc_recv_body_def Let_def split: if_splits)
  qed
qed

lemma send_inv:
  assumes inv: "bc_inv cap y" and r: "bc_send v (bx_chan y) = (s, r, ws)"
  shows "bc_inv cap (y\<lparr>bx_chan := s, bx_log := bx_log y @ (if r = Inr () then [v] else [])\<rparr>)"
proof (cases "bc_receivers (bx_chan y) = []")
  case True
  then show ?thesis using inv r by (auto simp: bc_send_def)
next
  case False
  let ?c = "bx_chan y" and ?l = "bx_log y"
  have ok: "ring_ok cap ?l ?c" "slots_ok (bx_cursor y) ?c" using inv by (auto simp: bc_inv_def)
  have s: "bc_buffer s = (if length (bc_buffer ?c) = bc_capacity ?c then drop 1 (bc_buffer ?c) else bc_buffer ?c) @ [v]"
    "bc_next_seq s = bc_next_seq ?c + 1" "bc_capacity s = bc_capacity ?c" "bc_receivers s = map (\<lambda>r. r\<lparr>bs_waker := None\<rparr>) (bc_receivers ?c)"
    "bc_next_receiver_id s = bc_next_receiver_id ?c" "r = Inr ()"
    using r False by (auto simp: bc_send_def Let_def)
  have "ring_ok cap (?l @ [v]) s"
  proof (cases "cap \<le> length ?l")
    case True
    then show ?thesis using ok(1) s by (simp add: ring_ok_def Suc_diff_le)
  next
    case False
    then show ?thesis using ok(1) s by (simp add: ring_ok_def)
  qed
  moreover have "slots_ok (bx_cursor y) s" by (rule slots_ok_map [OF ok(2) _ _ _ s(4,5)]) auto
  ultimately show ?thesis using inv s(6) by (auto simp: bc_inv_def covers_extend intro: le_SucI)
qed

lemma bc_clone_result:
  assumes "slots_ok cur s"
  shows "bc_clone s = Inr (s\<lparr>bc_next_receiver_id := bc_next_receiver_id s + 1,
    bc_receivers := bc_receivers s @ [bc_slot_new (bc_next_receiver_id s) (bc_next_seq s)]\<rparr>, bc_next_receiver_id s, bc_next_seq s)"
  using assms by (auto simp: bc_clone_def register_slot_def Let_def slots_ok_def)

lemma clone_inv:
  assumes inv: "bc_inv cap y" and c: "bc_clone (bx_chan y) = Inr (s, i, c)"
  shows "bc_inv cap (y\<lparr>bx_chan := s, bx_cursor := (bx_cursor y)(i \<mapsto> c), bx_start := (bx_start y)(i := c), bx_told := (bx_told y)(i := [])\<rparr>)"
proof -
  let ?s = "bx_chan y"
  have ok: "slots_ok (bx_cursor y) ?s" "ring_ok cap (bx_log y) ?s" using inv by (auto simp: bc_inv_def)
  have s: "s = ?s\<lparr>bc_next_receiver_id := i + 1, bc_receivers := bc_receivers ?s @ [bc_slot_new i c]\<rparr>"
    "i = bc_next_receiver_id ?s" "c = length (bx_log y)"
    using c ok(2) unfolding bc_clone_result [OF ok(1)] by (auto simp: ring_ok_def)
  have ne: "r \<in> set (bc_receivers ?s) \<Longrightarrow> bs_id r < i" for r using ok(1) s(2) by (auto simp: slots_ok_def)
  then have "slots_ok ((bx_cursor y)(i \<mapsto> c)) s" using ok(1) unfolding s(1) slots_ok_def by (fastforce simp: bc_slot_new_def)
  moreover have "ring_ok cap (bx_log y) s" using ok(2) s(1) by (simp add: ring_ok_def)
  ultimately show ?thesis using inv s(3) by (simp add: bc_inv_def)
qed

lemma drop_inv':
  assumes inv: "bc_inv cap y"
  shows "bc_inv cap (y\<lparr>bx_chan := bc_receiver_drop i (bx_chan y), bx_cursor := (bx_cursor y)(i := None), bx_leaving := n\<rparr>)"
proof -
  have d: "distinct (map bs_id (filter (\<lambda>r. bs_id r \<noteq> i) rs))" if "distinct (map bs_id rs)" for rs
    using that by (simp add: distinct_map_filter)
  show ?thesis using inv d unfolding bc_inv_def bc_receiver_drop_def slots_ok_def ring_ok_def by auto
qed

lemma bc_reach_inv: "bc_reach cap y \<Longrightarrow> bc_inv cap y"
proof (induction rule: bc_reach.induct)
  case (start s i)
  then show ?case by (auto simp: bc_channel_def register_slot_def bc_inv_def ring_ok_def slots_ok_def bc_slot_new_def Let_def split: if_splits)
next
  case (poll y i c b cx b' s c' r ws)
  from coop_poll_cases [OF poll.hyps(3) [unfolded bc_recv_poll_def]] show ?case
  proof
    assume "b = Some 0 \<and> (s, c') = (bx_chan y, c) \<and> r = Pending \<and> ws = [cx]"
    then show ?thesis using poll.IH poll.hyps(2) by (simp add: fun_upd_idem)
  next
    assume "b \<noteq> Some 0 \<and> bc_recv_body (bx_count y) i cx (bx_chan y, c) = ((s, c'), r, ws)"
    then show ?thesis using poll_inv [OF poll.IH poll.hyps(2)] by blast
  qed
qed (simp_all add: attempt_inv send_inv clone_inv drop_inv', simp_all add: bc_inv_def)

section \<open>Properties\<close>

text \<open>Capacity two; four values sent, none read yet.\<close>

definition bc_chan_demo :: "nat broadcast" where
  "bc_chan_demo = \<lparr>bc_capacity = 2, bc_next_receiver_id = 1, bc_buffer = [30, 40], bc_next_seq = 4, bc_receivers = [bc_slot_new 0 0]\<rparr>"

definition bc_demo :: "nat bc_sys" where
  "bc_demo = \<lparr>bx_chan = bc_chan_demo, bx_senders = 1, bx_leaving = 0, bx_cursor = [0 \<mapsto> 0], bx_log = [10, 20, 30, 40],
     bx_start = (\<lambda>_. 0), bx_told = (\<lambda>_. [])\<rparr>"

lemma bc_start_reach:
  "0 < cap \<Longrightarrow> bc_reach cap \<lparr>bx_chan = \<lparr>bc_capacity = cap, bc_next_receiver_id = 1, bc_buffer = [], bc_next_seq = 0, bc_receivers = [bc_slot_new 0 0]\<rparr>,
     bx_senders = 1, bx_leaving = 0, bx_cursor = [0 \<mapsto> 0], bx_log = [], bx_start = (\<lambda>_. 0), bx_told = (\<lambda>_. [])\<rparr>"
  by (rule bc_reach.start) (simp add: bc_channel_def register_slot_def)

lemma bc_demo_reach: "bc_reach 2 bc_demo"
proof -
  let ?c = "\<lambda>b n. \<lparr>bc_capacity = 2, bc_next_receiver_id = 1, bc_buffer = b, bc_next_seq = n, bc_receivers = [bc_slot_new 0 0]\<rparr> :: nat broadcast"
  let ?y = "\<lambda>b n log. \<lparr>bx_chan = ?c b n, bx_senders = 1, bx_leaving = 0, bx_cursor = [0 \<mapsto> 0], bx_log = log, bx_start = (\<lambda>_. 0), bx_told = (\<lambda>_. [])\<rparr>"
  have "bc_reach 2 (?y [] 0 [])" using bc_start_reach [of 2] by simp
  from bc_reach.send [OF this, of 10 "?c [10] 1" "Inr ()" "[]"] have "bc_reach 2 (?y [10] 1 [10])"
    by (simp add: bc_send_def bc_slot_new_def wakes_of_def)
  from bc_reach.send [OF this, of 20 "?c [10, 20] 2" "Inr ()" "[]"] have "bc_reach 2 (?y [10, 20] 2 [10, 20])"
    by (simp add: bc_send_def bc_slot_new_def wakes_of_def numeral_eq_Suc)
  from bc_reach.send [OF this, of 30 "?c [20, 30] 3" "Inr ()" "[]"] have "bc_reach 2 (?y [20, 30] 3 [10, 20, 30])"
    by (simp add: bc_send_def bc_slot_new_def wakes_of_def)
  from bc_reach.send [OF this, of 40 "?c [30, 40] 4" "Inr ()" "[]"] show ?thesis
    by (simp add: bc_send_def bc_slot_new_def wakes_of_def bc_demo_def bc_chan_demo_def)
qed

text \<open>C24. Every receiver reads the stream in order and without silent gaps: from where it started (the
  beginning, or the moment it was cloned), the values it got and the numbers of values it was told
  to have missed lead exactly to its cursor in the sequence of all accepted values.\<close>

theorem broadcast_accounts_for_every_value:
  assumes "bc_reach cap y" "bx_cursor y i = Some c"
  shows "covers (bx_log y) (bx_start y i) (bx_told y i) = Some c \<and> c \<le> length (bx_log y)"
  using bc_reach_inv [OF assms(1)] assms(2) by (auto simp: bc_inv_def)

lemma broadcast_accounts_for_every_value_witness: "covers (bx_log bc_demo) (bx_start bc_demo 0) (bx_told bc_demo 0) = Some 0 \<and> 0 \<le> length (bx_log bc_demo)"
  using broadcast_accounts_for_every_value [OF bc_demo_reach, of 0 0] by (simp add: bc_demo_def)

text \<open>C25. What a read returns: a receiver that is more than the capacity behind is told exactly how far it is
  behind the oldest buffered value, otherwise it gets the next value of the stream; at the end of
  the stream it is told that the channel is closed or, with a sender left, waits with its waker stored.\<close>

theorem broadcast_read_result:
  assumes "bc_reach cap y" "bx_cursor y i = Some c" "b \<noteq> Some 0"
  shows "\<exists>b' s ws. bc_recv_poll (bx_count y) b i cx (bx_chan y, c) =
     (if c < length (bx_log y) - cap then (b', (s, length (bx_log y) - cap), Ready (Inl (BcLagged (length (bx_log y) - cap - c))), ws)
      else if c < length (bx_log y) then (b', (s, c + 1), Ready (Inr (bx_log y ! c)), ws)
      else if bx_senders y = 0 \<and> bx_leaving y = 0 then (b', (s, c), Ready (Inl BcClosed), ws)
      else (b', (s, c), Pending, ws))
     \<and> (length (bx_log y) \<le> c \<and> 0 < bx_senders y \<longrightarrow> (\<exists>r\<in>set (bc_receivers s). bs_id r = i \<and> bs_waker r = Some cx))"
proof -
  have inv: "bc_inv cap y" by (rule bc_reach_inv [OF assms(1)])
  note f = take_facts [OF inv assms(2)]
  have ok: "slots_ok (bx_cursor y) (bx_chan y)" "ring_ok cap (bx_log y) (bx_chan y)" "i \<in> dom (bx_cursor y)"
    using inv assms(2) by (auto simp: bc_inv_def)
  note first = ring_first [OF ok(2)]
  have n: "bx_count y = length (bc_receivers (bx_chan y)) \<longleftrightarrow> bx_senders y = 0 \<and> bx_leaving y = 0"
    using slots_ok_card(2) [OF ok(1)] by (simp add: bx_count_def)
  have v: "length (bx_log y) - cap \<le> c \<Longrightarrow> c < length (bx_log y) \<Longrightarrow> bc_buffer (bx_chan y) ! (c - (length (bx_log y) - cap)) = bx_log y ! c"
    using ring_nth [OF ok(2), of c] by (simp add: first)
  obtain r where "r \<in> set (bc_receivers (bx_chan y))" "bs_id r = i" using ok(1,3) by (auto simp: slots_ok_def)
  then have w: "\<exists>r\<in>set (bc_receivers (upd_slot i c (\<lambda>r. r\<lparr>bs_waker := Some cx\<rparr>) (bx_chan y))). bs_id r = i \<and> bs_waker r = Some cx"
    unfolding upd_slot_map [OF ok(1,3)] by (intro bexI [of _ "r\<lparr>bs_waker := Some cx\<rparr>"]) (auto simp: image_iff intro!: bexI [of _ r])
  obtain b' where p: "poll_proceed b cx = (b', Ready (), [])" using assms(3) by (cases b) (auto simp: poll_proceed_def)
  show ?thesis using n v w f(4,5)
    by (cases "c < length (bx_log y)") (auto simp: bc_recv_poll_def bc_recv_body_def coop_poll_def p first Let_def)
qed

lemma broadcast_read_result_witness: "\<exists>b' s ws. bc_recv_poll (bx_count bc_demo) None 0 5 (bx_chan bc_demo, 0) = (b', (s, 2), Ready (Inl (BcLagged 2)), ws)"
  using broadcast_read_result [OF bc_demo_reach, of 0 0 None 5] by (simp add: bc_demo_def numeral_2_eq_2)

text \<open>The end of the channel: senders have no destructor, so a receiver that waits is not woken when the
  last one goes, although its next poll would report the end; and \<open>try_recv\<close> reports the end while
  values are still buffered for this receiver, which \<open>poll\<close> would return.\<close>

theorem broadcast_end_is_mishandled:
  "(\<exists>y :: nat bc_sys. bc_reach 2 y \<and> bx_senders y = 0 \<and> bx_leaving y = 0 \<and> bx_cursor y 0 = Some 0
      \<and> map bs_waker (bc_receivers (bx_chan y)) = [Some 5] \<and> bc_recv_body (bx_count y) 0 5 (bx_chan y, 0) = ((bx_chan y, 0), Ready (Inl BcClosed), []))
   \<and> (\<exists>y :: nat bc_sys. bc_reach 2 y \<and> bx_senders y = 0 \<and> bx_cursor y 0 = Some 2 \<and> snd (snd (try_recv (bx_count y) 0 2 (bx_chan y))) = Inl TryClosed
      \<and> fst (snd (bc_recv_body (bx_count y) 0 5 (bx_chan y, 2))) = Ready (Inr 30))"
proof -
  let ?c = "\<lparr>bc_capacity = 2, bc_next_receiver_id = 1, bc_buffer = [], bc_next_seq = 0, bc_receivers = [bc_slot_new 0 0]\<rparr> :: nat broadcast"
  let ?y = "\<lparr>bx_chan = ?c, bx_senders = 1, bx_leaving = 0, bx_cursor = [0 \<mapsto> 0], bx_log = [], bx_start = (\<lambda>_. 0), bx_told = (\<lambda>_. [])\<rparr>"
  let ?w = "?c\<lparr>bc_receivers := [(bc_slot_new 0 0)\<lparr>bs_waker := Some 5\<rparr>]\<rparr>"
  note ev = bc_recv_body_def first_seq_def upd_slot_def slot_index_def bc_slot_new_def bx_count_def
  have "bc_reach 2 ?y" using bc_start_reach [of 2] by simp
  from bc_reach.poll [OF this, of 0 0 None 5 None ?w 0 Pending "[]"] have "bc_reach 2 (?y\<lparr>bx_chan := ?w\<rparr>)"
    by (simp add: bc_recv_poll_def coop_poll_def poll_proceed_def ev fun_upd_idem)
  from bc_reach.drop_sender [OF this] have 1: "bc_reach 2 (?y\<lparr>bx_chan := ?w, bx_senders := 0\<rparr>)" by simp
  from bc_reach.attempt [OF bc_demo_reach, of 0 0 "bc_chan_demo\<lparr>bc_receivers := [bc_slot_new 0 2]\<rparr>" 2 "Inl (TryLagged 2)"]
  have "bc_reach 2 (bc_demo\<lparr>bx_chan := bc_chan_demo\<lparr>bc_receivers := [bc_slot_new 0 2]\<rparr>, bx_cursor := [0 \<mapsto> 2], bx_told := (\<lambda>_. [])(0 := [Missed 2])\<rparr>)"
    by (simp add: try_recv_def ev bc_demo_def bc_chan_demo_def numeral_eq_Suc)
  from bc_reach.drop_sender [OF this]
  have 2: "bc_reach 2 (bc_demo\<lparr>bx_chan := bc_chan_demo\<lparr>bc_receivers := [bc_slot_new 0 2]\<rparr>, bx_cursor := [0 \<mapsto> 2], bx_told := (\<lambda>_. [])(0 := [Missed 2]), bx_senders := 0\<rparr>)"
    by (simp add: bc_demo_def)
  have "\<exists>y :: nat bc_sys. bc_reach 2 y \<and> bx_senders y = 0 \<and> bx_leaving y = 0 \<and> bx_cursor y 0 = Some 0
      \<and> map bs_waker (bc_receivers (bx_chan y)) = [Some 5] \<and> bc_recv_body (bx_count y) 0 5 (bx_chan y, 0) = ((bx_chan y, 0), Ready (Inl BcClosed), [])"
    using 1 by (intro exI [of _ "?y\<lparr>bx_chan := ?w, bx_senders := 0\<rparr>"]) (simp add: ev)
  moreover have "\<exists>y :: nat bc_sys. bc_reach 2 y \<and> bx_senders y = 0 \<and> bx_cursor y 0 = Some 2 \<and> snd (snd (try_recv (bx_count y) 0 2 (bx_chan y))) = Inl TryClosed
      \<and> fst (snd (bc_recv_body (bx_count y) 0 5 (bx_chan y, 2))) = Ready (Inr 30)"
    by (rule exI, rule conjI, rule 2) (simp add: ev try_recv_def bc_demo_def bc_chan_demo_def)
  ultimately show ?thesis by blast
qed

end
