(* ===== verification/Cancel_Token.thy ===== *)
theory Cancel_Token
  imports Prelude "HOL-Library.Multiset"
begin

text \<open>
  The cancellation tokens of \<open>cancellation.rs\<close>. Tokens live in a store (a list indexed by their
  number); \<open>ct_alive\<close> says whether an \<open>Arc\<close> still keeps the token, so that a \<open>Weak\<close> reference
  upgrades. \<open>cancel_run\<close> is \<open>cancel\<close> with its recursion over the children as an explicit stack.
  The flag of a token is read and written outside its locks; \<open>ct_step\<close> interleaves the atomic
  steps of \<open>cancel\<close>, \<open>child_token\<close>, \<open>Cancelled::poll\<close> and the destructors.
\<close>

section \<open>Model\<close>

record token =
  ct_cancelled :: bool
  ct_waiters :: "(nat \<times> waker) list"
  ct_next_waiter_id :: nat
  ct_children :: "nat list"
  ct_alive :: bool

definition token_new :: token where
  "token_new = \<lparr>ct_cancelled = False, ct_waiters = [], ct_next_waiter_id = 0, ct_children = [], ct_alive = True\<rparr>"

text \<open>The swap of the flag, and taking the waiters and the children.\<close>

definition swap_cancelled :: "token \<Rightarrow> token \<times> bool" where
  "swap_cancelled t = (t\<lparr>ct_cancelled := True\<rparr>, ct_cancelled t)"

definition take_lists :: "token \<Rightarrow> token \<times> (nat \<times> waker) list \<times> nat list" where
  "take_lists t = (t\<lparr>ct_waiters := [], ct_children := []\<rparr>, ct_waiters t, ct_children t)"

function cancel_run :: "token list \<Rightarrow> nat list \<Rightarrow> token list \<times> waker list" where
  "cancel_run ts [] = (ts, [])"
| "cancel_run ts (i # todo) =
     (if length ts \<le> i \<or> \<not> ct_alive (ts ! i) then cancel_run ts todo
      else
        let (t, was) = swap_cancelled (ts ! i) in
        if was then cancel_run ts todo
        else
          let (t, waiters, children) = take_lists t;
              (ts, ws) = cancel_run (ts[i := t]) (children @ todo)
          in (ts, map snd waiters @ ws))"
  by pat_completeness auto

definition uncancelled :: "token list \<Rightarrow> nat" where
  "uncancelled ts = length (filter (\<lambda>t. \<not> ct_cancelled t) ts)"

lemma uncancelled_update:
  "i < length ts \<Longrightarrow> \<not> ct_cancelled (ts ! i) \<Longrightarrow> ct_cancelled t \<Longrightarrow> uncancelled (ts[i := t]) < uncancelled ts"
  unfolding uncancelled_def
proof (induction ts arbitrary: i)
  case (Cons x ts)
  then show ?case by (cases i) auto
qed simp

termination cancel_run
  by (relation "inv_image (less_than <*lex*> less_than) (\<lambda>(ts, todo). (uncancelled ts, length todo))")
    (auto simp: swap_cancelled_def take_lists_def not_le uncancelled_update)

definition cancel_token :: "nat \<Rightarrow> token list \<Rightarrow> token list \<times> waker list" where
  "cancel_token i ts = cancel_run ts [i]"

record cancelled_fut =
  cf_token :: nat
  cf_waiter_id :: "nat option"

definition cancelled_new :: "nat \<Rightarrow> cancelled_fut" where
  "cancelled_new i = \<lparr>cf_token = i, cf_waiter_id = None\<rparr>"

definition push_waiter :: "waker \<Rightarrow> token \<Rightarrow> token \<times> nat" where
  "push_waiter cx t =
     (t\<lparr>ct_next_waiter_id := ct_next_waiter_id t + 1, ct_waiters := ct_waiters t @ [(ct_next_waiter_id t, cx)]\<rparr>, ct_next_waiter_id t)"

text \<open>The part of \<open>poll\<close> under the waiter lock: register, then read the flag again.\<close>

definition register_waiter :: "waker \<Rightarrow> cancelled_fut \<Rightarrow> token \<Rightarrow> token \<times> cancelled_fut \<times> waker list" where
  "register_waiter cx f t =
     (let (t, f) =
        (case cf_waiter_id f of
           Some w \<Rightarrow>
             if w \<in> fst ` set (ct_waiters t)
             then (t\<lparr>ct_waiters := map (\<lambda>(v, k). if v = w \<and> k \<noteq> cx then (v, cx) else (v, k)) (ct_waiters t)\<rparr>, f)
             else (case push_waiter cx t of (t, n) \<Rightarrow> (t, f\<lparr>cf_waiter_id := Some n\<rparr>))
         | None \<Rightarrow> (case push_waiter cx t of (t, n) \<Rightarrow> (t, f\<lparr>cf_waiter_id := Some n\<rparr>)))
      in (t, f, if ct_cancelled t then [cx] else []))"

definition swap_remove :: "nat \<Rightarrow> 'a list \<Rightarrow> 'a list" where
  "swap_remove p xs = (if Suc p = length xs then butlast xs else (butlast xs)[p := last xs])"

primrec waiter_position :: "nat \<Rightarrow> (nat \<times> waker) list \<Rightarrow> nat option" where
  "waiter_position w [] = None"
| "waiter_position w (x # xs) = (if fst x = w then Some 0 else map_option Suc (waiter_position w xs))"

definition cancelled_drop :: "cancelled_fut \<Rightarrow> token \<Rightarrow> token" where
  "cancelled_drop f t =
     (case cf_waiter_id f of
        None \<Rightarrow> t
      | Some w \<Rightarrow> (case waiter_position w (ct_waiters t) of None \<Rightarrow> t | Some p \<Rightarrow> t\<lparr>ct_waiters := swap_remove p (ct_waiters t)\<rparr>))"

section \<open>Sequential cancellation\<close>

text \<open>A cancelled token keeps no children; \<open>child_edge\<close> leads to a child that still exists.\<close>

definition child_edge :: "token list \<Rightarrow> nat \<Rightarrow> nat \<Rightarrow> bool" where
  "child_edge ts i j \<longleftrightarrow> i < length ts \<and> j < length ts \<and> j \<in> set (ct_children (ts ! i)) \<and> ct_alive (ts ! j)"

definition taken :: "token list \<Rightarrow> bool" where
  "taken ts \<longleftrightarrow> (\<forall>t\<in>set ts. ct_cancelled t \<longrightarrow> ct_children t = [])"

definition closed_token :: "token \<Rightarrow> token" where
  "closed_token t = t\<lparr>ct_cancelled := True, ct_waiters := [], ct_children := []\<rparr>"

abbreviation skipped :: "token list \<Rightarrow> nat \<Rightarrow> bool" where
  "skipped ts i \<equiv> length ts \<le> i \<or> \<not> ct_alive (ts ! i) \<or> ct_cancelled (ts ! i)"

lemma cancel_run_skip: "skipped ts i \<Longrightarrow> cancel_run ts (i # todo) = cancel_run ts todo"
  by (auto simp: swap_cancelled_def)

lemma cancel_run_take:
  "\<not> skipped ts i \<Longrightarrow> cancel_run (ts[i := closed_token (ts ! i)]) (ct_children (ts ! i) @ todo) = (ts', ws) \<Longrightarrow>
   cancel_run ts (i # todo) = (ts', map snd (ct_waiters (ts ! i)) @ ws)"
  by (simp add: swap_cancelled_def take_lists_def closed_token_def)

declare cancel_run.simps(2) [simp del]

lemma cancel_induct [case_names finish skip take]:
  assumes "\<And>ts. P ts []"
    and "\<And>ts i todo. skipped ts i \<Longrightarrow> P ts todo \<Longrightarrow> P ts (i # todo)"
    and "\<And>ts i todo. \<not> skipped ts i \<Longrightarrow> P (ts[i := closed_token (ts ! i)]) (ct_children (ts ! i) @ todo) \<Longrightarrow> P ts (i # todo)"
  shows "P ts todo"
proof (induction ts todo rule: cancel_run.induct)
  case (1 ts)
  then show ?case by (rule assms(1))
next
  case (2 ts i todo)
  show ?case
  proof (cases "skipped ts i")
    case True
    then show ?thesis using 2(1,2) assms(2) [OF True] by (auto simp: swap_cancelled_def)
  next
    case False
    then show ?thesis using 2(3) assms(3) [OF False] by (auto simp: swap_cancelled_def take_lists_def closed_token_def)
  qed
qed

text \<open>A run only closes tokens, and it ends with every existing token of the stack cancelled.\<close>

lemma cancel_run_frame:
  "cancel_run ts todo = (ts', ws) \<Longrightarrow> length ts' = length ts
     \<and> (\<forall>i<length ts. ts' ! i = ts ! i \<or> \<not> ct_cancelled (ts ! i) \<and> ts' ! i = closed_token (ts ! i))
     \<and> (\<forall>i\<in>set todo. i < length ts \<and> ct_alive (ts ! i) \<longrightarrow> ct_cancelled (ts' ! i))"
proof (induction ts todo arbitrary: ws rule: cancel_induct)
  case (finish ts)
  then show ?case by simp
next
  case (skip ts i todo)
  then have "cancel_run ts todo = (ts', ws)" by (simp add: cancel_run_skip)
  from skip.IH [OF this] skip.hyps show ?case by auto
next
  case (take ts i todo)
  let ?ts = "ts[i := closed_token (ts ! i)]"
  obtain ws1 where r: "cancel_run ?ts (ct_children (ts ! i) @ todo) = (ts', ws1)"
    using cancel_run_take [OF take.hyps(1)] take.prems by (cases "cancel_run ?ts (ct_children (ts ! i) @ todo)") auto
  note IH = take.IH [OF r]
  have i: "i < length ts" using take.hyps by simp
  then have "ts' ! i = closed_token (ts ! i)" using IH by (auto simp: closed_token_def)
  then show ?case using IH i take.hyps by (auto simp: nth_list_update closed_token_def split: if_splits)
qed

text \<open>Every child of a newly cancelled token is cancelled as well.\<close>

lemma cancel_run_children:
  "cancel_run ts todo = (ts', ws) \<Longrightarrow> child_edge ts i j \<Longrightarrow> \<not> ct_cancelled (ts ! i) \<Longrightarrow> ct_cancelled (ts' ! i) \<Longrightarrow> ct_cancelled (ts' ! j)"
proof (induction ts todo arbitrary: ws rule: cancel_induct)
  case (finish ts)
  then show ?case by simp
next
  case (skip ts k todo)
  then show ?case by (simp add: cancel_run_skip)
next
  case (take ts k todo)
  let ?ts = "ts[k := closed_token (ts ! k)]"
  obtain ws1 where r: "cancel_run ?ts (ct_children (ts ! k) @ todo) = (ts', ws1)"
    using cancel_run_take [OF take.hyps(1)] take.prems(1) by (cases "cancel_run ?ts (ct_children (ts ! k) @ todo)") auto
  note fr = cancel_run_frame [OF r]
  have e: "i < length ts" "j < length ts" "j \<in> set (ct_children (ts ! i))" "ct_alive (ts ! j)" using take.prems(2) by (auto simp: child_edge_def)
  show ?case
  proof (cases "i = k")
    case True
    then show ?thesis using fr e by (auto simp: nth_list_update closed_token_def split: if_splits)
  next
    case False
    then have "child_edge ?ts i j" using e by (cases "j = k") (simp_all add: child_edge_def closed_token_def)
    then show ?thesis using take.IH [OF r] take.prems False by simp
  qed
qed

text \<open>Exactly the waiters of the newly cancelled tokens are woken.\<close>

lemma cancel_run_wakes:
  "cancel_run ts todo = (ts', ws) \<Longrightarrow>
   set ws = (\<Union>k\<in>{k. k < length ts \<and> \<not> ct_cancelled (ts ! k) \<and> ct_cancelled (ts' ! k)}. snd ` set (ct_waiters (ts ! k)))"
proof (induction ts todo arbitrary: ws rule: cancel_induct)
  case (finish ts)
  then show ?case by auto
next
  case (skip ts k todo)
  then show ?case by (simp add: cancel_run_skip)
next
  case (take ts i todo)
  let ?ts = "ts[i := closed_token (ts ! i)]"
  let ?new = "\<lambda>ts. {k. k < length ts \<and> \<not> ct_cancelled (ts ! k) \<and> ct_cancelled (ts' ! k)}"
  obtain ws1 where r: "cancel_run ?ts (ct_children (ts ! i) @ todo) = (ts', ws1)"
    using cancel_run_take [OF take.hyps(1)] take.prems(1) by (cases "cancel_run ?ts (ct_children (ts ! i) @ todo)") auto
  have ws: "ws = map snd (ct_waiters (ts ! i)) @ ws1" using cancel_run_take [OF take.hyps(1) r] take.prems by simp
  have i: "i < length ts" "\<not> ct_cancelled (ts ! i)" using take.hyps by auto
  have "ts' ! i = closed_token (ts ! i)" using cancel_run_frame [OF r] i by (auto simp: closed_token_def)
  then have "?new ts = insert i (?new ?ts)" "i \<notin> ?new ?ts" using i by (auto simp: nth_list_update closed_token_def split: if_splits)
  moreover have "(\<Union>k\<in>?new ?ts. snd ` set (ct_waiters (?ts ! k))) = (\<Union>k\<in>?new ?ts. snd ` set (ct_waiters (ts ! k)))"
  proof (rule SUP_cong [OF refl])
    fix k assume "k \<in> ?new ?ts"
    then have "i \<noteq> k" using \<open>i \<notin> ?new ?ts\<close> by blast
    then show "snd ` set (ct_waiters (?ts ! k)) = snd ` set (ct_waiters (ts ! k))" by simp
  qed
  ultimately show ?case using take.IH [OF r] ws by simp
qed

lemma cancel_run_descendants:
  assumes run: "cancel_run ts todo = (ts', ws)" and ok: "taken ts" and i: "ct_cancelled (ts' ! i)"
    and path: "(child_edge ts)\<^sup>*\<^sup>* i j"
  shows "ct_cancelled (ts' ! j)"
  using path
proof induction
  case base
  then show ?case by (rule i)
next
  case (step j k)
  have "\<not> ct_cancelled (ts ! j)" using step.hyps(2) ok by (auto simp: child_edge_def taken_def)
  then show ?case using cancel_run_children [OF run step.hyps(2)] step.IH by blast
qed

section \<open>Interleaved use\<close>

text \<open>
  \<open>cs_todo\<close> holds the tokens on which a running \<open>cancel\<close> is still to be called, \<open>cs_draining\<close> those
  whose flag is set and whose lists are still to be taken. A child being made has read the flag of
  its parent (\<open>False\<close>) or is already on its list (\<open>True\<close>). A future in \<open>cs_checked\<close> is inside
  \<open>poll\<close> past the first test; one in \<open>cs_asleep\<close> returned pending and was not woken since.
\<close>

record ct_sys =
  cs_tokens :: "token list"
  cs_todo :: "nat set"
  cs_draining :: "nat set"
  cs_parent :: "nat \<rightharpoonup> nat"
  cs_making :: "nat \<rightharpoonup> bool"
  cs_futs :: "nat \<rightharpoonup> cancelled_fut"
  cs_checked :: "nat set"
  cs_asleep :: "nat set"

abbreviation tok :: "ct_sys \<Rightarrow> nat \<Rightarrow> token" where
  "tok y i \<equiv> cs_tokens y ! i"

abbreviation upd_tok :: "nat \<Rightarrow> token \<Rightarrow> ct_sys \<Rightarrow> ct_sys" where
  "upd_tok i t y \<equiv> y\<lparr>cs_tokens := (cs_tokens y)[i := t]\<rparr>"

definition woken_by :: "ct_sys \<Rightarrow> nat \<Rightarrow> nat set" where
  "woken_by y i = {f. \<exists>g w. cs_futs y f = Some g \<and> cf_token g = i \<and> cf_waiter_id g = Some w \<and> w \<in> fst ` set (ct_waiters (tok y i))}"

inductive ct_step :: "ct_sys \<Rightarrow> ct_sys \<Rightarrow> bool" where
  new: "ct_step y (y\<lparr>cs_tokens := cs_tokens y @ [token_new]\<rparr>)"
| cancel: "i < length (cs_tokens y) \<Longrightarrow> ct_step y (y\<lparr>cs_todo := insert i (cs_todo y)\<rparr>)"
| swap: "i \<in> cs_todo y \<Longrightarrow> ct_alive (tok y i) \<Longrightarrow> swap_cancelled (tok y i) = (t, was) \<Longrightarrow>
    ct_step y ((upd_tok i t y)\<lparr>cs_todo := cs_todo y - {i}, cs_draining := (if was then cs_draining y else insert i (cs_draining y))\<rparr>)"
| not_upgraded: "i \<in> cs_todo y \<Longrightarrow> \<not> ct_alive (tok y i) \<Longrightarrow> ct_step y (y\<lparr>cs_todo := cs_todo y - {i}\<rparr>)"
| drain: "i \<in> cs_draining y \<Longrightarrow> take_lists (tok y i) = (t, waiters, children) \<Longrightarrow>
    ct_step y ((upd_tok i t y)\<lparr>cs_draining := cs_draining y - {i}, cs_todo := cs_todo y \<union> set children, cs_asleep := cs_asleep y - woken_by y i\<rparr>)"
| child_start: "p < length (cs_tokens y) \<Longrightarrow> ct_alive (tok y p) \<Longrightarrow> c = length (cs_tokens y) \<Longrightarrow>
    ct_step y (y\<lparr>cs_tokens := cs_tokens y @ [token_new], cs_parent := (cs_parent y)(c \<mapsto> p),
      cs_todo := (if ct_cancelled (tok y p) then insert c (cs_todo y) else cs_todo y),
      cs_making := (if ct_cancelled (tok y p) then cs_making y else (cs_making y)(c \<mapsto> False))\<rparr>)"
| child_push: "cs_making y c = Some False \<Longrightarrow> cs_parent y c = Some p \<Longrightarrow>
    ct_step y ((upd_tok p ((tok y p)\<lparr>ct_children := ct_children (tok y p) @ [c]\<rparr>) y)\<lparr>cs_making := (cs_making y)(c \<mapsto> True)\<rparr>)"
| child_check: "cs_making y c = Some True \<Longrightarrow> cs_parent y c = Some p \<Longrightarrow>
    ct_step y (y\<lparr>cs_making := (cs_making y)(c := None), cs_todo := (if ct_cancelled (tok y p) then insert c (cs_todo y) else cs_todo y)\<rparr>)"
| wait: "i < length (cs_tokens y) \<Longrightarrow> ct_alive (tok y i) \<Longrightarrow> cs_futs y f = None \<Longrightarrow>
    ct_step y (y\<lparr>cs_futs := (cs_futs y)(f \<mapsto> cancelled_new i)\<rparr>)"
| poll_ready: "cs_futs y f = Some g \<Longrightarrow> f \<notin> cs_checked y \<Longrightarrow> ct_cancelled (tok y (cf_token g)) \<Longrightarrow>
    ct_step y (y\<lparr>cs_asleep := cs_asleep y - {f}\<rparr>)"
| poll_check: "cs_futs y f = Some g \<Longrightarrow> f \<notin> cs_checked y \<Longrightarrow> \<not> ct_cancelled (tok y (cf_token g)) \<Longrightarrow>
    ct_step y (y\<lparr>cs_checked := insert f (cs_checked y), cs_asleep := cs_asleep y - {f}\<rparr>)"
| poll_register: "f \<in> cs_checked y \<Longrightarrow> cs_futs y f = Some g \<Longrightarrow> register_waiter cx g (tok y (cf_token g)) = (t, g', ws) \<Longrightarrow>
    ct_step y ((upd_tok (cf_token g) t y)\<lparr>cs_futs := (cs_futs y)(f \<mapsto> g'), cs_checked := cs_checked y - {f},
      cs_asleep := (if ws = [] then insert f (cs_asleep y) else cs_asleep y - {f})\<rparr>)"
| drop_future: "cs_futs y f = Some g \<Longrightarrow> f \<notin> cs_checked y \<Longrightarrow>
    ct_step y ((upd_tok (cf_token g) (cancelled_drop g (tok y (cf_token g))) y)\<lparr>cs_futs := (cs_futs y)(f := None), cs_asleep := cs_asleep y - {f}\<rparr>)"
| drop_token: "i < length (cs_tokens y) \<Longrightarrow> \<forall>g\<in>ran (cs_futs y). cf_token g \<noteq> i \<Longrightarrow> \<forall>c. cs_making y c \<noteq> None \<longrightarrow> cs_parent y c \<noteq> Some i \<and> c \<noteq> i \<Longrightarrow>
    ct_step y (upd_tok i ((tok y i)\<lparr>ct_alive := False\<rparr>) y)"

definition ct_start :: ct_sys where
  "ct_start = \<lparr>cs_tokens = [], cs_todo = {}, cs_draining = {}, cs_parent = Map.empty, cs_making = Map.empty, cs_futs = Map.empty,
     cs_checked = {}, cs_asleep = {}\<rparr>"

definition ct_reach :: "ct_sys \<Rightarrow> bool" where
  "ct_reach y \<longleftrightarrow> ct_step\<^sup>*\<^sup>* ct_start y"

subsection \<open>Children\<close>

definition tree_bounds :: "ct_sys \<Rightarrow> bool" where
  "tree_bounds y \<longleftrightarrow> (let n = length (cs_tokens y) in
     cs_todo y \<subseteq> {..<n} \<and> cs_draining y \<subseteq> {..<n}
   \<and> (\<forall>c p. cs_parent y c = Some p \<longrightarrow> c < n \<and> p < n)
   \<and> (\<forall>i<n. set (ct_children (tok y i)) \<subseteq> {..<n})
   \<and> (\<forall>g\<in>ran (cs_futs y). cf_token g < n)
   \<and> (\<forall>i\<in>cs_draining y. ct_cancelled (tok y i)))"

definition tree_inv :: "ct_sys \<Rightarrow> bool" where
  "tree_inv y \<longleftrightarrow>
     (\<forall>c p. cs_parent y c = Some p \<and> ct_cancelled (tok y p) \<and> ct_alive (tok y c) \<and> \<not> ct_cancelled (tok y c) \<and> cs_making y c = None \<longrightarrow>
        c \<in> cs_todo y \<or> p \<in> cs_draining y \<and> c \<in> set (ct_children (tok y p)))
   \<and> (\<forall>c p. cs_parent y c = Some p \<and> \<not> ct_cancelled (tok y p) \<and> cs_making y c \<noteq> Some False \<longrightarrow> c \<in> set (ct_children (tok y p)))"

lemma tree_boundsD:
  assumes "tree_bounds y"
  shows "i \<in> cs_todo y \<Longrightarrow> i < length (cs_tokens y)" "i \<in> cs_draining y \<Longrightarrow> i < length (cs_tokens y)"
    "cs_parent y c = Some p \<Longrightarrow> c < length (cs_tokens y)" "cs_parent y c = Some p \<Longrightarrow> p < length (cs_tokens y)"
    "i < length (cs_tokens y) \<Longrightarrow> j \<in> set (ct_children (tok y i)) \<Longrightarrow> j < length (cs_tokens y)"
    "cs_futs y f = Some g \<Longrightarrow> cf_token g < length (cs_tokens y)" "i \<in> cs_draining y \<Longrightarrow> ct_cancelled (tok y i)"
  using assms unfolding tree_bounds_def Let_def by (auto simp: ran_def)

lemma tree_invD:
  assumes "tree_inv y" "cs_parent y c = Some p"
  shows "ct_cancelled (tok y p) \<Longrightarrow> ct_alive (tok y c) \<Longrightarrow> \<not> ct_cancelled (tok y c) \<Longrightarrow> cs_making y c = None \<Longrightarrow>
      c \<in> cs_todo y \<or> p \<in> cs_draining y \<and> c \<in> set (ct_children (tok y p))"
    "\<not> ct_cancelled (tok y p) \<Longrightarrow> cs_making y c \<noteq> Some False \<Longrightarrow> c \<in> set (ct_children (tok y p))"
  using assms unfolding tree_inv_def by blast+

text \<open>Registering and dropping waiters touch neither the flag nor the children.\<close>

definition same_tree :: "token \<Rightarrow> token \<Rightarrow> bool" where
  "same_tree t t' \<longleftrightarrow> ct_cancelled t' = ct_cancelled t \<and> ct_children t' = ct_children t \<and> ct_alive t' = ct_alive t"

lemma same_tree_ops:
  "register_waiter cx g t = (t', g', ws) \<Longrightarrow> same_tree t t' \<and> cf_token g' = cf_token g \<and> (ws = [] \<longleftrightarrow> \<not> ct_cancelled t)"
  "same_tree t (cancelled_drop g t)"
  by (auto simp: register_waiter_def push_waiter_def cancelled_drop_def same_tree_def Let_def split: option.splits if_splits)

lemma tok_update: "tok (upd_tok i t y) j = (if i = j \<and> i < length (cs_tokens y) then t else tok y j)"
  by (cases "i < length (cs_tokens y)") (simp_all add: nth_list_update not_less list_update_beyond)

lemma tree_same:
  assumes "same_tree (tok y i) t" "length (cs_tokens y') = length (cs_tokens y)"
    "\<And>j. tok y' j = (if i = j \<and> i < length (cs_tokens y) then t else tok y j)"
    "cs_todo y' = cs_todo y" "cs_draining y' = cs_draining y" "cs_parent y' = cs_parent y" "cs_making y' = cs_making y"
    "\<forall>g\<in>ran (cs_futs y'). cf_token g < length (cs_tokens y)"
  shows "tree_bounds y \<Longrightarrow> tree_bounds y'" "tree_inv y \<Longrightarrow> tree_inv y'"
proof -
  have s: "ct_cancelled (tok y' j) = ct_cancelled (tok y j)" "ct_children (tok y' j) = ct_children (tok y j)" "ct_alive (tok y' j) = ct_alive (tok y j)" for j
    using assms(1,3) by (simp_all add: same_tree_def)
  show "tree_bounds y \<Longrightarrow> tree_bounds y'" using assms(2,4-8) unfolding tree_bounds_def Let_def by (simp add: s)
  show "tree_inv y \<Longrightarrow> tree_inv y'" using assms(4-7) unfolding tree_inv_def by (simp add: s)
qed

lemma waiter_steps_same_tree:
  assumes b: "tree_bounds y"
  shows "cs_futs y f = Some g \<Longrightarrow> register_waiter cx g (tok y (cf_token g)) = (t, g', ws) \<Longrightarrow>
    y' = (upd_tok (cf_token g) t y)\<lparr>cs_futs := (cs_futs y)(f \<mapsto> g'), cs_checked := C, cs_asleep := A\<rparr> \<Longrightarrow> tree_bounds y' \<and> (tree_inv y \<longrightarrow> tree_inv y')"
    and "cs_futs y f = Some g \<Longrightarrow>
    y' = (upd_tok (cf_token g) (cancelled_drop g (tok y (cf_token g))) y)\<lparr>cs_futs := (cs_futs y)(f := None), cs_asleep := A\<rparr> \<Longrightarrow> tree_bounds y' \<and> (tree_inv y \<longrightarrow> tree_inv y')"
proof -
  have u: "tok (upd_tok k x y\<lparr>cs_futs := F, cs_checked := C, cs_asleep := A\<rparr>) j = (if k = j \<and> k < length (cs_tokens y) then x else tok y j)"
    "tok (upd_tok k x y\<lparr>cs_futs := F, cs_asleep := A\<rparr>) j = (if k = j \<and> k < length (cs_tokens y) then x else tok y j)" for k x j F C A
    using tok_update [where i = k and t = x and y = y and j = j] by simp_all
  show "tree_bounds y' \<and> (tree_inv y \<longrightarrow> tree_inv y')" if f: "cs_futs y f = Some g" and r: "register_waiter cx g (tok y (cf_token g)) = (t, g', ws)"
    and y': "y' = (upd_tok (cf_token g) t y)\<lparr>cs_futs := (cs_futs y)(f \<mapsto> g'), cs_checked := C, cs_asleep := A\<rparr>"
  proof -
    have "\<forall>g\<in>ran (cs_futs y'). cf_token g < length (cs_tokens y)"
      using tree_boundsD(6) [OF b] f same_tree_ops(1) [OF r] unfolding y' by (auto simp: ran_def)
    from tree_same [OF same_tree_ops(1) [OF r, THEN conjunct1], of y', OF _ _ _ _ _ _ this] show ?thesis using b u unfolding y' by simp
  qed
  show "tree_bounds y' \<and> (tree_inv y \<longrightarrow> tree_inv y')" if f: "cs_futs y f = Some g"
    and y': "y' = (upd_tok (cf_token g) (cancelled_drop g (tok y (cf_token g))) y)\<lparr>cs_futs := (cs_futs y)(f := None), cs_asleep := A\<rparr>"
  proof -
    have "\<forall>g\<in>ran (cs_futs y'). cf_token g < length (cs_tokens y)"
      using tree_boundsD(6) [OF b] unfolding y' by (auto simp: ran_def split: if_splits)
    from tree_same [OF same_tree_ops(2) [of "tok y (cf_token g)" g], of y', OF _ _ _ _ _ _ this] show ?thesis using b u unfolding y' by simp
  qed
qed

lemma tree_invI:
  assumes "\<And>c p. cs_parent y c = Some p \<Longrightarrow> ct_cancelled (tok y p) \<Longrightarrow> ct_alive (tok y c) \<Longrightarrow> \<not> ct_cancelled (tok y c) \<Longrightarrow> cs_making y c = None \<Longrightarrow>
      c \<in> cs_todo y \<or> p \<in> cs_draining y \<and> c \<in> set (ct_children (tok y p))"
    "\<And>c p. cs_parent y c = Some p \<Longrightarrow> \<not> ct_cancelled (tok y p) \<Longrightarrow> cs_making y c \<noteq> Some False \<Longrightarrow> c \<in> set (ct_children (tok y p))"
  shows "tree_inv y"
  using assms unfolding tree_inv_def by blast

lemma bounds_step:
  assumes "ct_step y y'" and b: "tree_bounds y"
  shows "tree_bounds y'"
  using assms(1)
proof cases
  case (poll_register f g cx t g' ws)
  then show ?thesis using waiter_steps_same_tree(1) [OF b poll_register(3,4,1)] by simp
next
  case (drop_future f g)
  then show ?thesis using waiter_steps_same_tree(2) [OF b drop_future(2,1)] by simp
next
  case new
  show ?thesis using b unfolding new tree_bounds_def Let_def by (auto simp: nth_append token_new_def less_Suc_eq subset_iff)
next
  case (swap i tk was)
  have "i < length (cs_tokens y)" "tk = (tok y i)\<lparr>ct_cancelled := True\<rparr>" using tree_boundsD(1) [OF b swap(2)] swap(4) by (auto simp: swap_cancelled_def)
  then show ?thesis using b unfolding swap(1) tree_bounds_def Let_def by (auto simp: nth_list_update subset_iff)
next
  case (drain i tk waiters children)
  have "i < length (cs_tokens y)" "tk = (tok y i)\<lparr>ct_waiters := [], ct_children := []\<rparr>" "children = ct_children (tok y i)"
    using tree_boundsD(2) [OF b drain(2)] drain(3) by (auto simp: take_lists_def)
  then show ?thesis using b unfolding drain(1) tree_bounds_def Let_def by (auto simp: nth_list_update subset_iff)
next
  case (child_start p c)
  show ?thesis using b child_start(2) unfolding child_start(1,4) tree_bounds_def Let_def
    by (auto simp: nth_append token_new_def less_Suc_eq subset_iff)
next
  case (child_push c p)
  show ?thesis using b tree_boundsD(3,4) [OF b child_push(3)] unfolding child_push(1) tree_bounds_def Let_def
    by (auto simp: nth_list_update subset_iff)
next
  case (child_check c p)
  show ?thesis using b tree_boundsD(3) [OF b child_check(3)] unfolding child_check(1) tree_bounds_def Let_def by auto
next
  case (wait i f)
  show ?thesis using b wait(2) unfolding wait(1) tree_bounds_def Let_def by (auto simp: ran_def cancelled_new_def)
next
  case (drop_token i)
  show ?thesis using b drop_token(2) unfolding drop_token(1) tree_bounds_def Let_def by (auto simp: nth_list_update subset_iff)
qed (use b in \<open>auto simp: tree_bounds_def Let_def\<close>)

lemma tree_step:
  assumes "ct_step y y'" and b: "tree_bounds y" and t: "tree_inv y"
  shows "tree_inv y'"
  using assms(1)
proof cases
  case new
  show ?thesis using tree_invD [OF t] tree_boundsD(3,4) [OF b] unfolding new by (intro tree_invI) (auto simp: nth_append)
next
  case (swap i tk was)
  have i: "i < length (cs_tokens y)" using tree_boundsD(1) [OF b swap(2)] .
  have tk: "tk = (tok y i)\<lparr>ct_cancelled := True\<rparr>" "was = ct_cancelled (tok y i)" using swap(4) by (auto simp: swap_cancelled_def)
  show ?thesis using tree_invD [OF t] i unfolding swap(1) tk by (intro tree_invI) (auto simp: nth_list_update split: if_splits)
next
  case (drain i tk waiters children)
  have tk: "tk = (tok y i)\<lparr>ct_waiters := [], ct_children := []\<rparr>" "children = ct_children (tok y i)" using drain(3) by (auto simp: take_lists_def)
  show ?thesis using tree_invD [OF t] tree_boundsD(2,7) [OF b drain(2)] unfolding drain(1) tk
    by (intro tree_invI) (auto simp: nth_list_update split: if_splits)
next
  case (child_start p c)
  show ?thesis using tree_invD [OF t] tree_boundsD(3,4) [OF b] child_start(2,4) unfolding child_start(1)
    by (intro tree_invI) (auto simp: nth_append split: if_splits)
next
  case (child_push c p)
  show ?thesis using tree_invD [OF t] tree_boundsD(4) [OF b child_push(3)] child_push(2,3) unfolding child_push(1)
    by (intro tree_invI) (auto simp: nth_list_update split: if_splits)
next
  case (child_check c p)
  show ?thesis using tree_invD [OF t] child_check(2,3) unfolding child_check(1) by (intro tree_invI) (auto split: if_splits)
next
  case (poll_register f g cx tk g' ws)
  then show ?thesis using waiter_steps_same_tree(1) [OF b poll_register(3,4,1)] t by simp
next
  case (drop_future f g)
  then show ?thesis using waiter_steps_same_tree(2) [OF b drop_future(2,1)] t by simp
next
  case (drop_token i)
  show ?thesis using tree_invD [OF t] drop_token(2) unfolding drop_token(1) by (intro tree_invI) (auto simp: nth_list_update split: if_splits)
qed (use t in \<open>auto simp: tree_inv_def\<close>)

subsection \<open>Waiters\<close>

lemma mset_swap_remove:
  assumes "p < length xs"
  shows "mset (swap_remove p xs) = mset (take p xs @ drop (Suc p) xs)"
proof -
  have xs: "xs = butlast xs @ [last xs]" using assms by (metis append_butlast_last_id length_greater_0_conv less_nat_zero_code not_gr_zero)
  show ?thesis
  proof (cases "Suc p = length xs")
    case True
    then show ?thesis by (simp add: swap_remove_def butlast_conv_take True [symmetric])
  next
    case False
    then have p: "p < length (butlast xs)" using assms by simp
    have "xs ! p \<in># mset (butlast xs)" using nth_mem [OF p] p by (simp add: nth_butlast)
    then have "add_mset (xs ! p) (mset (swap_remove p xs)) = mset (butlast xs @ [last xs])"
      using False p by (simp add: swap_remove_def mset_update nth_butlast)
    also have "\<dots> = mset (take p xs @ xs ! p # drop (Suc p) xs)" using xs id_take_nth_drop [OF assms] by simp
    finally show ?thesis by simp
  qed
qed

lemma waiter_position_nth: "waiter_position w xs = Some p \<Longrightarrow> p < length xs \<and> fst (xs ! p) = w"
  by (induction xs arbitrary: p) (auto split: if_splits)

lemma waiter_position_None: "waiter_position w xs = None \<longleftrightarrow> w \<notin> fst ` set xs"
  by (induction xs) auto

definition waiter_ids :: "token \<Rightarrow> nat set" where
  "waiter_ids t = set (map fst (ct_waiters t))"

definition ids_ok :: "token \<Rightarrow> bool" where
  "ids_ok t \<longleftrightarrow> distinct (map fst (ct_waiters t)) \<and> (\<forall>w\<in>waiter_ids t. w < ct_next_waiter_id t)"

lemma cancelled_drop_ids:
  assumes "ids_ok t"
  shows "ids_ok (cancelled_drop g t) \<and> waiter_ids (cancelled_drop g t) = waiter_ids t - set_option (cf_waiter_id g)
    \<and> ct_next_waiter_id (cancelled_drop g t) = ct_next_waiter_id t"
proof (cases "\<exists>w p. cf_waiter_id g = Some w \<and> waiter_position w (ct_waiters t) = Some p")
  case True
  then obtain w p where w: "cf_waiter_id g = Some w" "waiter_position w (ct_waiters t) = Some p" by blast
  note p = waiter_position_nth [OF w(2)]
  let ?xs = "ct_waiters t"
  have d: "cancelled_drop g t = t\<lparr>ct_waiters := swap_remove p ?xs\<rparr>" using w by (simp add: cancelled_drop_def)
  have m: "mset (map fst (swap_remove p ?xs)) = mset (map fst (take p ?xs @ drop (Suc p) ?xs))"
    using mset_swap_remove [OF p [THEN conjunct1]] by (metis mset_map)
  have s: "map fst ?xs = map fst (take p ?xs) @ w # map fst (drop (Suc p) ?xs)"
    using arg_cong [OF id_take_nth_drop [OF p [THEN conjunct1]], of "map fst"] p by simp
  have o: "distinct (map fst (take p ?xs) @ w # map fst (drop (Suc p) ?xs))" using assms unfolding ids_ok_def s by simp
  have i: "set (map fst (swap_remove p ?xs)) = set (map fst ?xs) - {w}"
    unfolding mset_eq_setD [OF m] using o by (subst s) auto
  have "distinct (map fst (swap_remove p ?xs))" unfolding mset_eq_imp_distinct_iff [OF m] using o by auto
  then show ?thesis using assms i w(1) unfolding d ids_ok_def waiter_ids_def by auto
next
  case False
  then have "cancelled_drop g t = t" "\<And>w. cf_waiter_id g = Some w \<Longrightarrow> w \<notin> waiter_ids t"
    by (auto simp: cancelled_drop_def waiter_ids_def waiter_position_None [symmetric] split: option.splits)
  then show ?thesis using assms by (cases "cf_waiter_id g") auto
qed

lemma register_ids:
  assumes "ids_ok t" "register_waiter cx g t = (t', g', ws)"
  shows "ids_ok t'" "waiter_ids t \<subseteq> waiter_ids t'" "ct_next_waiter_id t \<le> ct_next_waiter_id t'"
    "\<exists>w\<in>waiter_ids t'. cf_waiter_id g' = Some w \<and> (cf_waiter_id g = Some w \<or> w = ct_next_waiter_id t \<and> ct_next_waiter_id t' = Suc w)"
    "cf_token g' = cf_token g"
proof -
  let ?m = "\<lambda>w. t\<lparr>ct_waiters := map (\<lambda>(v, k). if v = w \<and> k \<noteq> cx then (v, cx) else (v, k)) (ct_waiters t)\<rparr>"
  have k: "map fst (ct_waiters (?m w)) = map fst (ct_waiters t)" for w by (simp add: case_prod_beta)
  have m2: "waiter_ids (?m w) = waiter_ids t" for w unfolding waiter_ids_def k by (rule refl)
  have m1: "ids_ok (?m w)" for w using assms(1) unfolding ids_ok_def m2 k by simp
  have push: "ids_ok (fst (push_waiter cx t))" "waiter_ids (fst (push_waiter cx t)) = insert (ct_next_waiter_id t) (waiter_ids t)"
    using assms(1) by (auto simp: ids_ok_def waiter_ids_def push_waiter_def)
  have "ids_ok t' \<and> waiter_ids t \<subseteq> waiter_ids t' \<and> ct_next_waiter_id t \<le> ct_next_waiter_id t' \<and> cf_token g' = cf_token g
    \<and> (\<exists>w\<in>waiter_ids t'. cf_waiter_id g' = Some w \<and> (cf_waiter_id g = Some w \<or> w = ct_next_waiter_id t \<and> ct_next_waiter_id t' = Suc w))"
  proof (cases "\<exists>w. cf_waiter_id g = Some w \<and> w \<in> fst ` set (ct_waiters t)")
    case True
    then obtain w where w: "cf_waiter_id g = Some w" "w \<in> fst ` set (ct_waiters t)" by blast
    then have "t' = ?m w" "g' = g" using assms(2) by (simp_all add: register_waiter_def)
    then show ?thesis using m1 [of w] m2 [of w] w by (simp add: waiter_ids_def)
  next
    case False
    then have "(t', g') = (fst (push_waiter cx t), g\<lparr>cf_waiter_id := Some (ct_next_waiter_id t)\<rparr>)"
      using assms(2) by (cases "cf_waiter_id g") (simp_all add: register_waiter_def push_waiter_def)
    then show ?thesis using push by (auto simp: push_waiter_def)
  qed
  then show "ids_ok t'" "waiter_ids t \<subseteq> waiter_ids t'" "ct_next_waiter_id t \<le> ct_next_waiter_id t'"
    "\<exists>w\<in>waiter_ids t'. cf_waiter_id g' = Some w \<and> (cf_waiter_id g = Some w \<or> w = ct_next_waiter_id t \<and> ct_next_waiter_id t' = Suc w)"
    "cf_token g' = cf_token g" by blast+
qed

definition wait_inv :: "ct_sys \<Rightarrow> bool" where
  "wait_inv y \<longleftrightarrow>
     (\<forall>t\<in>set (cs_tokens y). ids_ok t)
   \<and> (\<forall>f g w. cs_futs y f = Some g \<and> cf_waiter_id g = Some w \<longrightarrow> w < ct_next_waiter_id (tok y (cf_token g)))
   \<and> (\<forall>f f' g g' w. cs_futs y f = Some g \<and> cs_futs y f' = Some g' \<and> cf_token g = cf_token g' \<and> cf_waiter_id g = Some w \<and> cf_waiter_id g' = Some w \<longrightarrow> f = f')
   \<and> (\<forall>f\<in>cs_asleep y. \<exists>g w. cs_futs y f = Some g \<and> cf_waiter_id g = Some w \<and> w \<in> waiter_ids (tok y (cf_token g))
        \<and> (ct_cancelled (tok y (cf_token g)) \<longrightarrow> cf_token g \<in> cs_draining y))"

lemma wait_invD:
  assumes "wait_inv y"
  shows "i < length (cs_tokens y) \<Longrightarrow> ids_ok (tok y i)"
    "cs_futs y f = Some g \<Longrightarrow> cf_waiter_id g = Some w \<Longrightarrow> w < ct_next_waiter_id (tok y (cf_token g))"
    "cs_futs y f = Some g \<Longrightarrow> cs_futs y f' = Some g' \<Longrightarrow> cf_token g = cf_token g' \<Longrightarrow> cf_waiter_id g = Some w \<Longrightarrow> cf_waiter_id g' = Some w \<Longrightarrow> f = f'"
    "f \<in> cs_asleep y \<Longrightarrow> cs_futs y f = Some g \<Longrightarrow> \<exists>w. cf_waiter_id g = Some w \<and> w \<in> waiter_ids (tok y (cf_token g))
        \<and> (ct_cancelled (tok y (cf_token g)) \<longrightarrow> cf_token g \<in> cs_draining y)"
    "f \<in> cs_asleep y \<Longrightarrow> \<exists>g. cs_futs y f = Some g"
proof -
  note w = assms [unfolded wait_inv_def]
  show "i < length (cs_tokens y) \<Longrightarrow> ids_ok (tok y i)" using w by simp
  show "cs_futs y f = Some g \<Longrightarrow> cf_waiter_id g = Some w \<Longrightarrow> w < ct_next_waiter_id (tok y (cf_token g))" using w by blast
  show "cs_futs y f = Some g \<Longrightarrow> cs_futs y f' = Some g' \<Longrightarrow> cf_token g = cf_token g' \<Longrightarrow> cf_waiter_id g = Some w \<Longrightarrow> cf_waiter_id g' = Some w \<Longrightarrow> f = f'"
    using w by blast
  show "f \<in> cs_asleep y \<Longrightarrow> cs_futs y f = Some g \<Longrightarrow> \<exists>w. cf_waiter_id g = Some w \<and> w \<in> waiter_ids (tok y (cf_token g))
        \<and> (ct_cancelled (tok y (cf_token g)) \<longrightarrow> cf_token g \<in> cs_draining y)"
    using w [THEN conjunct2, THEN conjunct2, THEN conjunct2] by fastforce
  show "f \<in> cs_asleep y \<Longrightarrow> \<exists>g. cs_futs y f = Some g" using w by blast
qed

text \<open>Steps that change neither the futures nor what the invariant reads of the tokens they wait on.\<close>

lemma wait_inv_keep:
  assumes b: "tree_bounds y" and w: "wait_inv y" and y': "cs_futs y' = cs_futs y" "cs_asleep y' \<subseteq> cs_asleep y" "\<forall>t\<in>set (cs_tokens y'). ids_ok t"
    and tk: "\<And>i. i < length (cs_tokens y) \<Longrightarrow> ct_next_waiter_id (tok y' i) = ct_next_waiter_id (tok y i)"
    and a: "\<And>f g. f \<in> cs_asleep y' \<Longrightarrow> cs_futs y f = Some g \<Longrightarrow> waiter_ids (tok y' (cf_token g)) = waiter_ids (tok y (cf_token g))
      \<and> (ct_cancelled (tok y' (cf_token g)) \<longrightarrow> ct_cancelled (tok y (cf_token g)) \<and> cf_token g \<in> cs_draining y \<longrightarrow> cf_token g \<in> cs_draining y')
      \<and> (ct_cancelled (tok y' (cf_token g)) \<and> \<not> ct_cancelled (tok y (cf_token g)) \<longrightarrow> cf_token g \<in> cs_draining y')"
  shows "wait_inv y'"
  unfolding wait_inv_def y'(1)
proof (intro conjI)
  show "\<forall>f g w. cs_futs y f = Some g \<and> cf_waiter_id g = Some w \<longrightarrow> w < ct_next_waiter_id (tok y' (cf_token g))"
    using wait_invD(2) [OF w] tk tree_boundsD(6) [OF b] by fastforce
  show "\<forall>f f' g g' w. cs_futs y f = Some g \<and> cs_futs y f' = Some g' \<and> cf_token g = cf_token g' \<and> cf_waiter_id g = Some w \<and> cf_waiter_id g' = Some w \<longrightarrow> f = f'"
    using wait_invD(3) [OF w] by blast
  show "\<forall>f\<in>cs_asleep y'. \<exists>g w. cs_futs y f = Some g \<and> cf_waiter_id g = Some w \<and> w \<in> waiter_ids (tok y' (cf_token g))
        \<and> (ct_cancelled (tok y' (cf_token g)) \<longrightarrow> cf_token g \<in> cs_draining y')"
  proof
    fix f assume f: "f \<in> cs_asleep y'"
    then obtain g where g: "cs_futs y f = Some g" using wait_invD(5) [OF w] y'(2) by blast
    show "\<exists>g w. cs_futs y f = Some g \<and> cf_waiter_id g = Some w \<and> w \<in> waiter_ids (tok y' (cf_token g))
        \<and> (ct_cancelled (tok y' (cf_token g)) \<longrightarrow> cf_token g \<in> cs_draining y')"
      using wait_invD(4) [OF w _ g] a [OF f g] f g y'(2) by auto
  qed
qed (use y'(3) in simp)

lemma set_update: "x \<in> set (xs[i := v]) \<Longrightarrow> x = v \<or> x \<in> set xs"
  by (meson insertE set_update_subset_insert subsetD)

lemma wait_register:
  assumes b: "tree_bounds y" and w: "wait_inv y" and f: "cs_futs y f = Some g" and r: "register_waiter cx g (tok y (cf_token g)) = (t, g', ws)"
    and y': "cs_tokens y' = (cs_tokens y)[cf_token g := t]" "cs_futs y' = (cs_futs y)(f \<mapsto> g')"
      "cs_asleep y' = (if ws = [] then insert f (cs_asleep y) else cs_asleep y - {f})" "cs_draining y' = cs_draining y"
  shows "wait_inv y'"
proof -
  let ?i = "cf_token g"
  have i: "?i < length (cs_tokens y)" using tree_boundsD(6) [OF b f] .
  note ids = register_ids [OF wait_invD(1) [OF w i] r] and s = same_tree_ops(1) [OF r]
  obtain v where v: "v \<in> waiter_ids t" "cf_waiter_id g' = Some v" "cf_waiter_id g = Some v \<or> v = ct_next_waiter_id (tok y ?i) \<and> ct_next_waiter_id t = Suc v"
    using ids(4) by blast
  have tk: "tok y' j = (if j = ?i then t else tok y j)" for j using i y'(1) by (auto simp: nth_list_update)
  have fs: "cs_futs y' h = (if h = f then Some g' else cs_futs y h)" for h using y'(2) by simp
  show ?thesis unfolding wait_inv_def
  proof (intro conjI)
    show "\<forall>t\<in>set (cs_tokens y'). ids_ok t" using w ids(1) unfolding y'(1) wait_inv_def by (auto dest: set_update)
    have new: "v < ct_next_waiter_id t" using ids(1) v(1) by (auto simp: ids_ok_def)
    show "\<forall>h g w. cs_futs y' h = Some g \<and> cf_waiter_id g = Some w \<longrightarrow> w < ct_next_waiter_id (tok y' (cf_token g))"
      using wait_invD(2) [OF w] new v(2) ids(3,5) by (fastforce simp: fs tk split: if_splits)
    have fresh: "h = f" if "cs_futs y h = Some k" "cf_token k = ?i" "cf_waiter_id k = Some v" for h k
      using v(3) wait_invD(3) [OF w that(1) f that(2,3)] wait_invD(2) [OF w that(1,3)] that(2) by auto
    show "\<forall>h h' k k' u. cs_futs y' h = Some k \<and> cs_futs y' h' = Some k' \<and> cf_token k = cf_token k' \<and> cf_waiter_id k = Some u \<and> cf_waiter_id k' = Some u \<longrightarrow> h = h'"
      using wait_invD(3) [OF w] fresh v(2) ids(5) by (fastforce simp: fs split: if_splits)
    show "\<forall>h\<in>cs_asleep y'. \<exists>k u. cs_futs y' h = Some k \<and> cf_waiter_id k = Some u \<and> u \<in> waiter_ids (tok y' (cf_token k))
        \<and> (ct_cancelled (tok y' (cf_token k)) \<longrightarrow> cf_token k \<in> cs_draining y')"
    proof
      fix h assume h: "h \<in> cs_asleep y'"
      show "\<exists>k u. cs_futs y' h = Some k \<and> cf_waiter_id k = Some u \<and> u \<in> waiter_ids (tok y' (cf_token k))
        \<and> (ct_cancelled (tok y' (cf_token k)) \<longrightarrow> cf_token k \<in> cs_draining y')"
      proof (cases "h = f")
        case True
        then have "\<not> ct_cancelled t" using h y'(3) s by (auto simp: same_tree_def split: if_splits)
        then show ?thesis using True v ids(5) by (auto simp: fs tk)
      next
        case False
        then have a: "h \<in> cs_asleep y" using h y'(3) by (auto split: if_splits)
        then obtain k where k: "cs_futs y h = Some k" using wait_invD(5) [OF w] by blast
        then show ?thesis using wait_invD(4) [OF w a k] False ids(2) s y'(4) by (auto simp: fs tk same_tree_def)
      qed
    qed
  qed
qed

lemma wait_drop:
  assumes b: "tree_bounds y" and w: "wait_inv y" and f: "cs_futs y f = Some g"
    and y': "cs_tokens y' = (cs_tokens y)[cf_token g := cancelled_drop g (tok y (cf_token g))]" "cs_futs y' = (cs_futs y)(f := None)"
      "cs_asleep y' = cs_asleep y - {f}" "cs_draining y' = cs_draining y"
  shows "wait_inv y'"
proof -
  let ?i = "cf_token g"
  let ?t = "cancelled_drop g (tok y ?i)"
  have i: "?i < length (cs_tokens y)" using tree_boundsD(6) [OF b f] .
  note ids = cancelled_drop_ids [OF wait_invD(1) [OF w i], of g] and s = same_tree_ops(2) [of "tok y ?i" g]
  have tk: "tok y' j = (if j = ?i then ?t else tok y j)" for j using i y'(1) by (auto simp: nth_list_update)
  have c: "ct_cancelled (tok y' j) = ct_cancelled (tok y j)" for j using s by (simp add: tk same_tree_def)
  have n: "ct_next_waiter_id (tok y' j) = ct_next_waiter_id (tok y j)" for j using ids by (simp add: tk)
  show ?thesis unfolding wait_inv_def
  proof (intro conjI)
    show "\<forall>t\<in>set (cs_tokens y'). ids_ok t" using w ids unfolding y'(1) wait_inv_def by (auto dest: set_update)
    show "\<forall>h g w. cs_futs y' h = Some g \<and> cf_waiter_id g = Some w \<longrightarrow> w < ct_next_waiter_id (tok y' (cf_token g))"
      using wait_invD(2) [OF w] by (auto simp: y'(2) n)
    show "\<forall>h h' k k' u. cs_futs y' h = Some k \<and> cs_futs y' h' = Some k' \<and> cf_token k = cf_token k' \<and> cf_waiter_id k = Some u \<and> cf_waiter_id k' = Some u \<longrightarrow> h = h'"
      using wait_invD(3) [OF w] by (auto simp: y'(2))
    show "\<forall>h\<in>cs_asleep y'. \<exists>k u. cs_futs y' h = Some k \<and> cf_waiter_id k = Some u \<and> u \<in> waiter_ids (tok y' (cf_token k))
        \<and> (ct_cancelled (tok y' (cf_token k)) \<longrightarrow> cf_token k \<in> cs_draining y')"
    proof
      fix h assume "h \<in> cs_asleep y'"
      then have a: "h \<in> cs_asleep y" "h \<noteq> f" using y'(3) by auto
      then obtain k where k: "cs_futs y h = Some k" using wait_invD(5) [OF w] by blast
      from wait_invD(4) [OF w a(1) k] obtain u where u: "cf_waiter_id k = Some u" "u \<in> waiter_ids (tok y (cf_token k))"
        "ct_cancelled (tok y (cf_token k)) \<longrightarrow> cf_token k \<in> cs_draining y" by blast
      have "cf_token k = ?i \<Longrightarrow> cf_waiter_id g \<noteq> Some u" using wait_invD(3) [OF w k f _ u(1)] a(2) by blast
      then have "u \<in> waiter_ids (tok y' (cf_token k))" using u(2) ids by (auto simp: tk)
      then show "\<exists>k u. cs_futs y' h = Some k \<and> cf_waiter_id k = Some u \<and> u \<in> waiter_ids (tok y' (cf_token k))
        \<and> (ct_cancelled (tok y' (cf_token k)) \<longrightarrow> cf_token k \<in> cs_draining y')"
        using k u(1,3) a(2) c y'(2,4) by simp
    qed
  qed
qed

lemma wait_step:
  assumes "ct_step y y'" and b: "tree_bounds y" and w: "wait_inv y"
  shows "wait_inv y'"
  using assms(1)
proof cases
  case (poll_register f g cx t g' ws)
  then show ?thesis by (intro wait_register [OF b w poll_register(3,4)]) simp_all
next
  case (drop_future f g)
  then show ?thesis by (intro wait_drop [OF b w drop_future(2)]) simp_all
next
  case (wait i f)
  have "f \<notin> cs_asleep y" using wait_invD(5) [OF w, of f] wait(4) by auto
  then show ?thesis using w unfolding wait(1) wait_inv_def by (auto simp: cancelled_new_def)
next
  case new
  have n: "ids_ok token_new" by (simp add: ids_ok_def token_new_def waiter_ids_def)
  show ?thesis by (rule wait_inv_keep [OF b w]) (use n w tree_boundsD(6) [OF b] in \<open>auto simp: new nth_append wait_inv_def\<close>)
next
  case (child_start p c)
  have n: "ids_ok token_new" by (simp add: ids_ok_def token_new_def waiter_ids_def)
  show ?thesis by (rule wait_inv_keep [OF b w]) (use n w tree_boundsD(6) [OF b] in \<open>auto simp: child_start(1) nth_append wait_inv_def\<close>)
next
  case (swap i t was)
  have t: "t = (tok y i)\<lparr>ct_cancelled := True\<rparr>" "was = ct_cancelled (tok y i)" "i < length (cs_tokens y)"
    using swap(4) tree_boundsD(1) [OF b swap(2)] by (auto simp: swap_cancelled_def)
  have "ids_ok t" using wait_invD(1) [OF w t(3)] unfolding t(1) by (simp add: ids_ok_def waiter_ids_def)
  then show ?thesis using w t
    by (intro wait_inv_keep [OF b w]) (auto simp: swap(1) nth_list_update waiter_ids_def wait_inv_def dest: set_update split: if_splits)
next
  case (drain i t waiters children)
  have t: "t = (tok y i)\<lparr>ct_waiters := [], ct_children := []\<rparr>" "i < length (cs_tokens y)"
    using drain(3) tree_boundsD(2) [OF b drain(2)] by (auto simp: take_lists_def)
  have a: "cf_token g \<noteq> i" if f: "f \<in> cs_asleep y" "f \<notin> woken_by y i" "cs_futs y f = Some g" for f g
    using wait_invD(4) [OF w f(1,3)] f(2,3) by (auto simp: woken_by_def waiter_ids_def)
  have "ids_ok t" unfolding t(1) by (simp add: ids_ok_def waiter_ids_def)
  then show ?thesis using w a t(2)
    by (intro wait_inv_keep [OF b w]) (auto simp: drain(1) t(1) nth_list_update wait_inv_def dest: set_update)
next
  case (child_push c p)
  have "ids_ok ((tok y p)\<lparr>ct_children := x\<rparr>)" for x
    using wait_invD(1) [OF w tree_boundsD(4) [OF b child_push(3)]] by (simp add: ids_ok_def waiter_ids_def)
  then show ?thesis using w tree_boundsD(4) [OF b child_push(3)]
    by (intro wait_inv_keep [OF b w]) (auto simp: child_push(1) nth_list_update wait_inv_def waiter_ids_def dest: set_update split: if_splits)
next
  case (drop_token i)
  have "ids_ok ((tok y i)\<lparr>ct_alive := False\<rparr>)" using wait_invD(1) [OF w drop_token(2)] by (simp add: ids_ok_def waiter_ids_def)
  then show ?thesis using w drop_token(2)
    by (intro wait_inv_keep [OF b w]) (auto simp: drop_token(1) nth_list_update wait_inv_def waiter_ids_def dest: set_update split: if_splits)
qed (use w in \<open>auto simp: wait_inv_def\<close>)

lemma ct_reach_inv: "ct_reach y \<Longrightarrow> tree_bounds y \<and> tree_inv y \<and> wait_inv y"
  unfolding ct_reach_def
proof (induction rule: rtranclp_induct)
  case base
  then show ?case by (simp add: ct_start_def tree_bounds_def tree_inv_def wait_inv_def)
next
  case (step y y')
  then show ?case using bounds_step tree_step wait_step by blast
qed

section \<open>Properties\<close>

text \<open>\<open>cancel\<close> ends and reaches the whole subtree: every token that can be reached from the given one over
  children that still exist is cancelled, the waiters of exactly the newly cancelled tokens are
  woken, and no other token changes.\<close>

theorem cancel_reaches_all_descendants:
  assumes "taken ts" "i < length ts" "ct_alive (ts ! i)" "cancel_token i ts = (ts', ws)"
  shows "((child_edge ts)\<^sup>*\<^sup>* i j \<longrightarrow> ct_cancelled (ts' ! j))
    \<and> set ws = (\<Union>k\<in>{k. k < length ts \<and> \<not> ct_cancelled (ts ! k) \<and> ct_cancelled (ts' ! k)}. snd ` set (ct_waiters (ts ! k)))
    \<and> length ts' = length ts \<and> (\<forall>k<length ts. ts' ! k = ts ! k \<or> \<not> ct_cancelled (ts ! k) \<and> ts' ! k = closed_token (ts ! k)) \<and> taken ts'"
proof -
  have run: "cancel_run ts [i] = (ts', ws)" using assms(4) by (simp add: cancel_token_def)
  note fr = cancel_run_frame [OF run]
  have "ct_cancelled (ts' ! i)" using fr assms(2,3) by simp
  then have "(child_edge ts)\<^sup>*\<^sup>* i j \<longrightarrow> ct_cancelled (ts' ! j)" using cancel_run_descendants [OF run assms(1)] by blast
  moreover have "taken ts'" using assms(1) fr unfolding taken_def by (fastforce simp: in_set_conv_nth closed_token_def)
  ultimately show ?thesis using fr cancel_run_wakes [OF run] by simp
qed

text \<open>A parent with a waiter and two children, the second of which has been dropped.\<close>

definition family :: "token list" where
  "family = [token_new\<lparr>ct_waiters := [(0, 5)], ct_children := [1, 2]\<rparr>, token_new\<lparr>ct_waiters := [(0, 6)]\<rparr>, token_new\<lparr>ct_alive := False\<rparr>]"

lemma cancel_family: "cancel_token 0 family = ([closed_token (family ! 0), closed_token (family ! 1), family ! 2], [5, 6])"
proof -
  have s: "skipped family' 2" if "family' = [closed_token (family ! 0), closed_token (family ! 1), family ! 2]" for family'
    using that by (simp add: family_def token_new_def)
  have 1: "cancel_run [closed_token (family ! 0), closed_token (family ! 1), family ! 2] [2] = ([closed_token (family ! 0), closed_token (family ! 1), family ! 2], [])"
    using cancel_run_skip [OF s [OF refl], of "[]"] by simp
  have 2: "cancel_run [closed_token (family ! 0), family ! 1, family ! 2] [1, 2] = ([closed_token (family ! 0), closed_token (family ! 1), family ! 2], [6])"
    by (subst cancel_run_take [where ws = "[]"]) (use 1 in \<open>simp_all add: family_def token_new_def closed_token_def\<close>)
  have "cancel_run family [0] = ([closed_token (family ! 0), closed_token (family ! 1), family ! 2], [5, 6])"
    by (subst cancel_run_take [where ws = "[6]"]) (use 2 in \<open>simp_all add: family_def token_new_def closed_token_def\<close>)
  then show ?thesis by (simp add: cancel_token_def)
qed

lemma cancel_reaches_all_descendants_witness:
  "ct_cancelled (fst (cancel_token 0 family) ! 1) \<and> set (snd (cancel_token 0 family)) = {5, 6}"
proof -
  have "taken family" "0 < length family" "ct_alive (family ! 0)" by (simp_all add: taken_def family_def token_new_def)
  note p = cancel_reaches_all_descendants [OF this cancel_family, of 1]
  have "child_edge family 0 1" by (simp add: child_edge_def family_def token_new_def)
  then show ?thesis using p cancel_family by (auto simp: r_into_rtranclp)
qed

text \<open>C26. No cancellation is lost: in every interleaving of cancellations, child creation, polls and drops, once
  no call is in progress any more, every existing child of a cancelled token is cancelled, and no
  future that returned pending and was not woken since waits on a cancelled token.\<close>

theorem no_cancellation_is_lost:
  assumes "ct_reach y" "cs_todo y = {}" "cs_draining y = {}" "cs_making y = Map.empty"
  shows "(\<forall>c p. cs_parent y c = Some p \<and> ct_cancelled (tok y p) \<and> ct_alive (tok y c) \<longrightarrow> ct_cancelled (tok y c))
    \<and> (\<forall>f\<in>cs_asleep y. \<exists>g. cs_futs y f = Some g \<and> \<not> ct_cancelled (tok y (cf_token g)))"
proof -
  have t: "tree_inv y" and w: "wait_inv y" using ct_reach_inv [OF assms(1)] by auto
  have "ct_cancelled (tok y c)" if "cs_parent y c = Some p" "ct_cancelled (tok y p)" "ct_alive (tok y c)" for c p
    using tree_invD(1) [OF t that] assms(2-4) by auto
  moreover have "\<exists>g. cs_futs y f = Some g \<and> \<not> ct_cancelled (tok y (cf_token g))" if "f \<in> cs_asleep y" for f
    using wait_invD(4,5) [OF w that] assms(3) by fastforce
  ultimately show ?thesis by blast
qed

text \<open>One token is made and a future on it is polled once.\<close>

definition ct_demo :: ct_sys where
  "ct_demo = ct_start\<lparr>cs_tokens := [token_new\<lparr>ct_waiters := [(0, 5)], ct_next_waiter_id := 1\<rparr>],
     cs_futs := [7 \<mapsto> \<lparr>cf_token = 0, cf_waiter_id = Some 0\<rparr>], cs_asleep := {7}\<rparr>"

lemma ct_demo_reach: "ct_reach ct_demo"
proof -
  let ?y1 = "ct_start\<lparr>cs_tokens := [token_new]\<rparr>"
  let ?y2 = "?y1\<lparr>cs_futs := [7 \<mapsto> cancelled_new 0]\<rparr>"
  let ?y3 = "?y2\<lparr>cs_checked := {7}\<rparr>"
  have 1: "ct_step ct_start ?y1" using ct_step.new [of ct_start] by (simp add: ct_start_def)
  have 2: "ct_step ?y1 ?y2" using ct_step.wait [of 0 ?y1 7] by (simp add: ct_start_def token_new_def)
  have 3: "ct_step ?y2 ?y3" using ct_step.poll_check [of ?y2 7 "cancelled_new 0"] by (simp add: ct_start_def token_new_def cancelled_new_def)
  have 4: "ct_step ?y3 ct_demo"
    using ct_step.poll_register [of 7 ?y3 "cancelled_new 0" 5 "token_new\<lparr>ct_waiters := [(0, 5)], ct_next_waiter_id := 1\<rparr>" "\<lparr>cf_token = 0, cf_waiter_id = Some 0\<rparr>" "[]"]
    by (simp add: ct_start_def ct_demo_def token_new_def cancelled_new_def register_waiter_def push_waiter_def)
  show ?thesis unfolding ct_reach_def using 1 2 3 4 by (meson converse_rtranclp_into_rtranclp rtranclp.rtrancl_refl)
qed

lemma no_cancellation_is_lost_witness: "\<exists>g. cs_futs ct_demo 7 = Some g \<and> \<not> ct_cancelled (tok ct_demo (cf_token g))"
  using no_cancellation_is_lost [OF ct_demo_reach] by (simp add: ct_demo_def ct_start_def)

end
