(* ===== verification/Worker.thy ===== *)
theory Worker
  imports Local_Queue Injector
begin

unbundle bit_operations_syntax

text \<open>
  The workers of \<open>scheduler/multi_thread/worker.rs\<close> and the generator of \<open>util/rand.rs\<close>: how a
  woken task is routed to a LIFO slot, a run queue or the injector, and how a worker finds its next
  task. The run queues and the injector are the models of their own theories, used through the
  contracts proved there; every operation on a queue is one step here (theory \<open>Local_Queue\<close> treats
  the interleaving inside a queue). Results carry the tasks whose reference was dropped and the
  workers for which \<open>unpark_worker\<close> was called.
\<close>

section \<open>Random numbers\<close>

definition fastrand_new :: "u32 \<Rightarrow> u32" where
  "fastrand_new seed = (if seed = 0 then 0x9e3779b9 else seed)"

definition next_u32 :: "u32 \<Rightarrow> u32" where
  "next_u32 state =
     (let x = state;
          x = x XOR push_bit 13 x;
          x = x XOR drop_bit 17 x;
          x = x XOR push_bit 5 x
      in x)"

definition fastrand_n :: "u32 \<Rightarrow> u32 \<Rightarrow> u32 \<times> u32" where
  "fastrand_n n state = (let x = next_u32 state in (x mod n, x))"

section \<open>Shared state\<close>

definition GLOBAL_QUEUE_INTERVAL :: u32 where "GLOBAL_QUEUE_INTERVAL = 61"
definition MAX_LIFO_POLLS_PER_TICK :: nat where "MAX_LIFO_POLLS_PER_TICK = 3"

record workers =
  wk_queues :: "task_ref local_queue list"
  wk_lifo :: "task_ref option list"
  wk_inject :: injector
  wk_shutdown :: bool
  wk_owner :: "task_ref \<Rightarrow> nat"
  wk_lifo_enabled :: bool
  wk_searching :: nat
  wk_parked :: u64

definition workers_new :: "nat \<Rightarrow> bool \<Rightarrow> workers" where
  "workers_new worker_threads lifo =
     (let n = max worker_threads 1 in
      \<lparr>wk_queues = replicate n local_new, wk_lifo = replicate n None, wk_inject = injector_new, wk_shutdown = False,
       wk_owner = (\<lambda>_. 0), wk_lifo_enabled = lifo, wk_searching = 0, wk_parked = 0\<rparr>)"

text \<open>Results of operations on the run queues: a fault of the queue, or not returning at all.\<close>

type_synonym 'r wk_result = "(queue_fault + 'r) option"

definition bind_wk :: "'a wk_result \<Rightarrow> ('a \<Rightarrow> 'b wk_result) \<Rightarrow> 'b wk_result" where
  "bind_wk m f = (case m of None \<Rightarrow> None | Some (Inl e) \<Rightarrow> Some (Inl e) | Some (Inr x) \<Rightarrow> f x)"

section \<open>Routing of woken tasks\<close>

text \<open>\<open>cur\<close> is the \<open>WORKER_ID\<close> of the calling thread, \<open>self_target\<close> the target of the handle.\<close>

definition mt_schedule :: "nat option \<Rightarrow> nat \<Rightarrow> task_ref \<Rightarrow> workers \<Rightarrow> (workers \<times> task_ref list \<times> nat list) wk_result" where
  "mt_schedule cur self_target t s =
     (if wk_shutdown s then Some (Inr (s, [t], []))
      else
        let owner = wk_owner s t;
            target = (if owner < length (wk_queues s) then owner else self_target)
        in if cur = Some target then
             if wk_lifo_enabled s \<and> wk_lifo s ! target = None
             then Some (Inr (s\<lparr>wk_lifo := (wk_lifo s)[target := Some t]\<rparr>, [], []))
             else
               (case lq_push_back t (wk_queues s ! target) of
                  Inr q \<Rightarrow> Some (Inr (s\<lparr>wk_queues := (wk_queues s)[target := q]\<rparr>, [], []))
                | Inl t \<Rightarrow>
                    bind_wk (push_overflow t [] (wk_queues s ! target)) (\<lambda>(q, overflow).
                      let (ij, ds) = inj_push_batch overflow (wk_inject s)
                      in Some (Inr (s\<lparr>wk_queues := (wk_queues s)[target := q], wk_inject := ij\<rparr>, ds, [target]))))
           else
             let (ij, ds) = inj_push (i_closed (wk_inject s)) t (wk_inject s)
             in Some (Inr (s\<lparr>wk_inject := ij\<rparr>, ds, [target])))"

section \<open>Finding work\<close>

record worker_local =
  wl_tick :: u32
  wl_lifo_polls :: nat
  wl_rand :: u32

definition next_lifo :: "nat \<Rightarrow> worker_local \<Rightarrow> workers \<Rightarrow> task_ref option \<times> worker_local \<times> workers" where
  "next_lifo i w s =
     (if MAX_LIFO_POLLS_PER_TICK \<le> wl_lifo_polls w then (None, w\<lparr>wl_lifo_polls := 0\<rparr>, s)
      else
        case wk_lifo s ! i of
          Some t \<Rightarrow> (Some t, w\<lparr>wl_lifo_polls := wl_lifo_polls w + 1\<rparr>, s\<lparr>wk_lifo := (wk_lifo s)[i := None]\<rparr>)
        | None \<Rightarrow> (None, w, s\<lparr>wk_lifo := (wk_lifo s)[i := None]\<rparr>))"

definition pop_own :: "nat \<Rightarrow> workers \<Rightarrow> (task_ref option \<times> workers) wk_result" where
  "pop_own i s =
     (case lq_pop (wk_queues s ! i) of
        Inl e \<Rightarrow> Some (Inl e)
      | Inr (r, q) \<Rightarrow> Some (Inr (r, s\<lparr>wk_queues := (wk_queues s)[i := q]\<rparr>)))"

definition take_injected :: "nat \<Rightarrow> workers \<Rightarrow> (task_ref option \<times> workers) wk_result" where
  "take_injected i s =
     (case inj_pop (wk_inject s) of
        (None, ij) \<Rightarrow> Some (Inr (None, s\<lparr>wk_inject := ij\<rparr>))
      | (Some t, ij) \<Rightarrow>
          let s = s\<lparr>wk_inject := ij\<rparr> in
          (case lq_push_back t (wk_queues s ! i) of
             Inr q \<Rightarrow> pop_own i (s\<lparr>wk_queues := (wk_queues s)[i := q]\<rparr>)
           | Inl t \<Rightarrow> Some (Inr (Some t, s))))"

primrec steal_loop :: "nat \<Rightarrow> nat \<Rightarrow> nat list \<Rightarrow> workers \<Rightarrow> (task_ref option \<times> workers) wk_result" where
  "steal_loop i start [] s = Some (Inr (None, s))"
| "steal_loop i start (offset # offsets) s =
     (let victim = (start + offset) mod length (wk_queues s) in
      if victim = i then steal_loop i start offsets s
      else
        bind_wk (steal_into (wk_queues s ! victim) (wk_queues s ! i)) (\<lambda>(r, src, dst).
          let s = s\<lparr>wk_queues := (wk_queues s)[victim := src, i := dst]\<rparr>
          in case r of Some t \<Rightarrow> Some (Inr (Some t, s)) | None \<Rightarrow> steal_loop i start offsets s))"

definition steal_work :: "nat \<Rightarrow> u32 \<Rightarrow> workers \<Rightarrow> (task_ref option \<times> u32 \<times> workers) wk_result" where
  "steal_work i rand s =
     (let n = length (wk_queues s) in
      if n < 2 then Some (Inr (None, rand, s))
      else
        let (start, rand) = fastrand_n (of_nat n) rand
        in bind_wk (steal_loop i (unat start) [0..<n] s) (\<lambda>(r, s). Some (Inr (r, rand, s))))"

text \<open>\<open>1 << id\<close>; a shift by 64 or more panics in a debug build, a release build reduces it modulo 64.\<close>

definition parked_bit :: "nat \<Rightarrow> u64" where
  "parked_bit i = push_bit (i mod 64) 1"

definition unpark_any :: "workers \<Rightarrow> workers \<times> nat list" where
  "unpark_any s =
     (if wk_parked s = 0 then (s, [])
      else
        let i = trailing_zeros (wk_parked s) in
        if length (wk_queues s) \<le> i then (s, [])
        else (s\<lparr>wk_parked := wk_parked s AND NOT (parked_bit i)\<rparr>, [i]))"

text \<open>No other worker changes \<open>searching\<close> in between, so the compare-exchange succeeds.\<close>

definition search_and_steal :: "nat \<Rightarrow> u32 \<Rightarrow> workers \<Rightarrow> (task_ref option \<times> u32 \<times> workers \<times> nat list) wk_result" where
  "search_and_steal i rand s =
     (if length (wk_queues s) div 2 \<le> wk_searching s then Some (Inr (None, rand, s, []))
      else
        bind_wk (steal_work i rand (s\<lparr>wk_searching := wk_searching s + 1\<rparr>)) (\<lambda>(r, rand, s).
          let prev = wk_searching s;
              s = s\<lparr>wk_searching := prev - 1\<rparr>
          in if r = None \<and> prev = 1
             then (case unpark_any s of (s, us) \<Rightarrow> Some (Inr (r, rand, s, us)))
             else Some (Inr (r, rand, s, []))))"

definition has_work :: "nat \<Rightarrow> workers \<Rightarrow> bool" where
  "has_work i s \<longleftrightarrow> 0 < i_len (wk_inject s) \<or> wk_lifo s ! i \<noteq> None \<or> 0 < lq_len (wk_queues s ! i)"

text \<open>The part of \<open>IdleState::park\<close> before the driver: the answer is whether the worker blocks.\<close>

definition park_begin :: "nat \<Rightarrow> workers \<Rightarrow> workers \<times> bool" where
  "park_begin i s =
     (let s = s\<lparr>wk_parked := wk_parked s OR parked_bit i\<rparr> in
      if has_work i s then (s\<lparr>wk_parked := wk_parked s AND NOT (parked_bit i)\<rparr>, False) else (s, True))"

text \<open>One round of \<open>worker_loop\<close>: the task it runs next, or what it does without one.\<close>

datatype wk_next = RunTask task_ref | ParkWorker bool | ExitWorker

definition run_next :: "nat \<Rightarrow> task_ref \<Rightarrow> workers \<Rightarrow> workers" where
  "run_next i t s = s\<lparr>wk_owner := (wk_owner s)(t := i)\<rparr>"

definition idle_round :: "bool \<Rightarrow> nat \<Rightarrow> worker_local \<Rightarrow> workers \<Rightarrow> nat list \<Rightarrow> (wk_next \<times> worker_local \<times> workers \<times> nat list) wk_result" where
  "idle_round takeover_requested i w s us =
     (if (wk_shutdown s \<or> takeover_requested) \<and> lq_len (wk_queues s ! i) = 0 \<and> wk_lifo s ! i = None
         \<and> (takeover_requested \<or> i_len (wk_inject s) = 0)
      then Some (Inr (ExitWorker, w, s, us))
      else let (s, blocks) = park_begin i s in Some (Inr (ParkWorker blocks, w, s, us)))"

definition search_round :: "bool \<Rightarrow> bool \<Rightarrow> nat \<Rightarrow> worker_local \<Rightarrow> workers \<Rightarrow> (wk_next \<times> worker_local \<times> workers \<times> nat list) wk_result" where
  "search_round takeover_requested global_first i w s =
     bind_wk (search_and_steal i (wl_rand w) s) (\<lambda>(r, rand, s, us).
       let w = w\<lparr>wl_rand := rand\<rparr> in
       case r of
         Some t \<Rightarrow> Some (Inr (RunTask t, w, run_next i t s, us))
       | None \<Rightarrow>
           if global_first then idle_round takeover_requested i w s us
           else
             bind_wk (take_injected i s) (\<lambda>(r, s).
               case r of
                 Some t \<Rightarrow> Some (Inr (RunTask t, w, run_next i t s, us))
               | None \<Rightarrow> idle_round takeover_requested i w s us))"

definition worker_round :: "bool \<Rightarrow> nat \<Rightarrow> worker_local \<Rightarrow> workers \<Rightarrow> (wk_next \<times> worker_local \<times> workers \<times> nat list) wk_result" where
  "worker_round takeover_requested i w s =
     (case next_lifo i w s of
        (Some t, w, s) \<Rightarrow> Some (Inr (RunTask t, w, run_next i t s, []))
      | (None, w, s) \<Rightarrow>
          bind_wk (pop_own i s) (\<lambda>(r, s).
            case r of
              Some t \<Rightarrow> Some (Inr (RunTask t, w\<lparr>wl_lifo_polls := 0\<rparr>, run_next i t s, []))
            | None \<Rightarrow>
                let w = w\<lparr>wl_tick := wl_tick w + 1\<rparr>;
                    global_first = (wl_tick w mod GLOBAL_QUEUE_INTERVAL = 0)
                in if global_first then
                     bind_wk (take_injected i s) (\<lambda>(r, s).
                       case r of
                         Some t \<Rightarrow> Some (Inr (RunTask t, w, run_next i t s, []))
                       | None \<Rightarrow> search_round takeover_requested global_first i w s)
                   else search_round takeover_requested global_first i w s))"

section \<open>Handing the queue over\<close>

text \<open>\<open>block_in_place\<close> on a worker: its queue and slot go to a takeover thread and come back. \<open>wk_lifo\<close> at
  \<open>i\<close> is the slot of whichever thread acts as worker \<open>i\<close>. \<open>None\<close> is the failed \<open>expect\<close> on a missing
  queue, and for \<open>takeover_end\<close> also the wait for \<open>returned\<close>.\<close>

record takeover =
  tk_queue :: "task_ref local_queue option"
  tk_lifo :: "task_ref option"
  tk_requested :: bool
  tk_returned :: bool

definition takeover_begin :: "nat \<Rightarrow> workers \<Rightarrow> workers \<times> takeover" where
  "takeover_begin i s =
     (s\<lparr>wk_queues := (wk_queues s)[i := local_new], wk_lifo := (wk_lifo s)[i := None]\<rparr>,
      \<lparr>tk_queue = Some (wk_queues s ! i), tk_lifo = wk_lifo s ! i, tk_requested = False, tk_returned = False\<rparr>)"

definition takeover_start :: "nat \<Rightarrow> workers \<times> takeover \<Rightarrow> (workers \<times> takeover) option" where
  "takeover_start i = (\<lambda>(s, tk).
     case tk_queue tk of
       None \<Rightarrow> None
     | Some q \<Rightarrow> Some (s\<lparr>wk_queues := (wk_queues s)[i := q], wk_lifo := (wk_lifo s)[i := tk_lifo tk]\<rparr>,
                      tk\<lparr>tk_queue := None, tk_lifo := None\<rparr>))"

definition takeover_request :: "workers \<times> takeover \<Rightarrow> workers \<times> takeover" where
  "takeover_request = (\<lambda>(s, tk). (s, tk\<lparr>tk_requested := True\<rparr>))"

definition takeover_return :: "nat \<Rightarrow> workers \<times> takeover \<Rightarrow> workers \<times> takeover" where
  "takeover_return i = (\<lambda>(s, tk).
     (s\<lparr>wk_queues := (wk_queues s)[i := local_new], wk_lifo := (wk_lifo s)[i := None]\<rparr>,
      tk\<lparr>tk_queue := Some (wk_queues s ! i), tk_lifo := wk_lifo s ! i, tk_returned := True\<rparr>))"

definition takeover_end :: "nat \<Rightarrow> workers \<times> takeover \<Rightarrow> (workers \<times> takeover) option" where
  "takeover_end i = (\<lambda>(s, tk).
     if \<not> tk_returned tk then None
     else
       case tk_queue tk of
         None \<Rightarrow> None
       | Some q \<Rightarrow> Some (s\<lparr>wk_queues := (wk_queues s)[i := q], wk_lifo := (wk_lifo s)[i := tk_lifo tk]\<rparr>,
                        tk\<lparr>tk_queue := None, tk_lifo := None\<rparr>))"

section \<open>Tasks held by the workers\<close>

definition opt_list :: "'a option \<Rightarrow> 'a list" where
  "opt_list r = (case r of None \<Rightarrow> [] | Some x \<Rightarrow> [x])"

definition wk_tasks :: "workers \<Rightarrow> task_ref list" where
  "wk_tasks s = concat (map lq_items (wk_queues s)) @ concat (map opt_list (wk_lifo s)) @ inj_contents (wk_inject s)"

definition wk_wf :: "workers \<Rightarrow> bool" where
  "wk_wf s \<longleftrightarrow> list_all quiet_inv (wk_queues s) \<and> length (wk_lifo s) = length (wk_queues s) \<and> wk_queues s \<noteq> []
     \<and> inj_inv (wk_inject s) \<and> (i_closed (wk_inject s) \<longrightarrow> wk_shutdown s)"

definition wk_inv :: "workers \<Rightarrow> bool" where
  "wk_inv s \<longleftrightarrow> wk_wf s \<and> distinct (wk_tasks s)"

lemma opt_list_simps [simp]: "opt_list None = []" "opt_list (Some x) = [x]"
  by (simp_all add: opt_list_def)

lemma mset_concat_update:
  "i < length xs \<Longrightarrow> mset (concat (map f (xs[i := v]))) + mset (f (xs ! i)) = mset (concat (map f xs)) + mset (f v)"
  by (induction xs arbitrary: i) (auto split: nat.splits)

lemma wk_wfD:
  assumes "wk_wf s"
  shows "i < length (wk_queues s) \<Longrightarrow> quiet (wk_queues s ! i) (lq_items (wk_queues s ! i))"
    "length (wk_lifo s) = length (wk_queues s)" "wk_queues s \<noteq> []" "queued (wk_inject s) (inj_contents (wk_inject s))"
    "i_closed (wk_inject s) \<Longrightarrow> wk_shutdown s"
  using assms by (auto simp: wk_wf_def list_all_length quiet_inv_def inj_inv_def)

lemma wf_set_queue:
  assumes "wk_wf s" "i < length (wk_queues s)" "quiet q ys"
  defines "s' \<equiv> s\<lparr>wk_queues := (wk_queues s)[i := q]\<rparr>"
  shows "wk_wf s'" "mset (wk_tasks s') + mset (lq_items (wk_queues s ! i)) = mset (wk_tasks s) + mset ys"
proof -
  have "quiet_inv q" using assms(3) quiet_inv_iff by blast
  then show "wk_wf s'" using assms(1,2) by (auto simp: wk_wf_def s'_def list_all_length nth_list_update)
  show "mset (wk_tasks s') + mset (lq_items (wk_queues s ! i)) = mset (wk_tasks s) + mset ys"
    using mset_concat_update [OF assms(2), of lq_items q] quiet_items [OF assms(3)]
    by (simp add: wk_tasks_def s'_def ac_simps)
qed

lemma wf_set_lifo:
  fixes v :: "task_ref option"
  assumes "wk_wf s" "i < length (wk_queues s)"
  defines "s' \<equiv> s\<lparr>wk_lifo := (wk_lifo s)[i := v]\<rparr>"
  shows "wk_wf s'" "mset (wk_tasks s') + mset (opt_list (wk_lifo s ! i)) = mset (wk_tasks s) + mset (opt_list v)"
proof -
  show "wk_wf s'" using assms(1) by (simp add: wk_wf_def s'_def)
  show "mset (wk_tasks s') + mset (opt_list (wk_lifo s ! i)) = mset (wk_tasks s) + mset (opt_list v)"
    using mset_concat_update [of i "wk_lifo s" opt_list v] assms(2) wk_wfD(2) [OF assms(1)]
    by (simp add: wk_tasks_def s'_def ac_simps)
qed

lemma wf_set_inject:
  assumes "wk_wf s" "queued j ys" "i_closed j = i_closed (wk_inject s)"
  defines "s' \<equiv> s\<lparr>wk_inject := j\<rparr>"
  shows "wk_wf s'" "mset (wk_tasks s') + mset (inj_contents (wk_inject s)) = mset (wk_tasks s) + mset ys"
proof -
  have "inj_inv j" using assms(2) inj_inv_iff by blast
  then show "wk_wf s'" using assms(1,3) by (simp add: wk_wf_def s'_def)
  show "mset (wk_tasks s') + mset (inj_contents (wk_inject s)) = mset (wk_tasks s) + mset ys"
    using queued_contents [OF assms(2)] by (simp add: wk_tasks_def s'_def ac_simps)
qed

lemma wk_frame [simp]:
  "wk_wf (s\<lparr>wk_owner := ow\<rparr>) = wk_wf s" "wk_tasks (s\<lparr>wk_owner := ow\<rparr>) = wk_tasks s"
  "wk_wf (s\<lparr>wk_searching := c\<rparr>) = wk_wf s" "wk_tasks (s\<lparr>wk_searching := c\<rparr>) = wk_tasks s"
  "wk_wf (s\<lparr>wk_parked := b\<rparr>) = wk_wf s" "wk_tasks (s\<lparr>wk_parked := b\<rparr>) = wk_tasks s"
  by (simp_all add: wk_wf_def wk_tasks_def)

text \<open>What taking a task does: the task leaves, nothing else does, and the workers stay as many.\<close>

definition took :: "task_ref option \<Rightarrow> workers \<Rightarrow> workers \<Rightarrow> bool" where
  "took r s s' \<longleftrightarrow> wk_wf s' \<and> mset (opt_list r) + mset (wk_tasks s') = mset (wk_tasks s)
     \<and> length (wk_queues s') = length (wk_queues s) \<and> wk_shutdown s' = wk_shutdown s"

lemma took_frame [simp]:
  "took r s (s'\<lparr>wk_owner := ow\<rparr>) = took r s s'" "took r s (s'\<lparr>wk_searching := c\<rparr>) = took r s s'"
  "took r (s\<lparr>wk_searching := c\<rparr>) s' = took r s s'"
  "took r s (s'\<lparr>wk_parked := b\<rparr>) = took r s s'"
  by (simp_all add: took_def)

lemma took_None: "wk_wf s \<Longrightarrow> took None s s"
  by (simp add: took_def)

lemma took_inv: "took r s s' \<Longrightarrow> wk_inv s \<Longrightarrow> wk_inv s'"
  unfolding took_def wk_inv_def by (metis distinct_append mset_append mset_eq_imp_distinct_iff)

section \<open>Each way of finding work\<close>

lemma pop_own_empty:
  assumes "wk_wf s" "i < length (wk_queues s)" "lq_items (wk_queues s ! i) = []"
  shows "pop_own i s = Some (Inr (None, s))"
  using quiet_pop_empty [of "wk_queues s ! i"] wk_wfD(1) [OF assms(1,2)] assms(3) by (simp add: pop_own_def)

lemma pop_own_some:
  assumes "wk_wf s" "i < length (wk_queues s)" "lq_items (wk_queues s ! i) = xs @ [x]"
  shows "\<exists>q. pop_own i s = Some (Inr (Some x, s\<lparr>wk_queues := (wk_queues s)[i := q]\<rparr>)) \<and> quiet q xs
    \<and> took (Some x) s (s\<lparr>wk_queues := (wk_queues s)[i := q]\<rparr>)"
proof -
  obtain q where q: "lq_pop (wk_queues s ! i) = Inr (Some x, q)" "quiet q xs"
    using quiet_pop [of "wk_queues s ! i" xs x] wk_wfD(1) [OF assms(1,2)] assms(3) by auto
  from q(1) have e: "pop_own i s = Some (Inr (Some x, s\<lparr>wk_queues := (wk_queues s)[i := q]\<rparr>))" by (simp add: pop_own_def)
  note w = wf_set_queue [OF assms(1,2) q(2)]
  from w(2) have "mset (opt_list (Some x)) + mset (wk_tasks (s\<lparr>wk_queues := (wk_queues s)[i := q]\<rparr>)) = mset (wk_tasks s)"
    by (simp add: assms(3))
  then have "took (Some x) s (s\<lparr>wk_queues := (wk_queues s)[i := q]\<rparr>)" using w(1) by (simp add: took_def)
  then show ?thesis using e q(2) by blast
qed

lemma next_lifo_took:
  assumes "wk_wf s" "i < length (wk_queues s)" "next_lifo i w s = (r, w', s')"
  shows "took r s s'" "r = None \<Longrightarrow> s' = s"
proof -
  have "took r s s' \<and> (r = None \<longrightarrow> s' = s)"
  proof (cases "MAX_LIFO_POLLS_PER_TICK \<le> wl_lifo_polls w")
    case True
    then show ?thesis using assms(3) took_None [OF assms(1)] by (simp add: next_lifo_def)
  next
    case False
    then have e: "r = wk_lifo s ! i" "s' = s\<lparr>wk_lifo := (wk_lifo s)[i := None]\<rparr>"
      using assms(3) by (auto simp: next_lifo_def split: option.splits)
    then have "r = None \<Longrightarrow> s' = s" using list_update_id [of "wk_lifo s" i] by simp
    then show ?thesis using e wf_set_lifo [OF assms(1,2), of None] by (simp add: took_def ac_simps)
  qed
  then show "took r s s'" "r = None \<Longrightarrow> s' = s" by blast+
qed

text \<open>The injector hands its oldest task to a worker whose own queue is empty.\<close>

lemma take_injected_empty:
  assumes "wk_wf s" "inj_contents (wk_inject s) = []"
  shows "take_injected i s = Some (Inr (None, s))"
  using wk_wfD(4) [OF assms(1)] assms(2) by (simp add: take_injected_def pop_empty)

lemma inj_pop_closed [simp]: "i_closed (snd (inj_pop st)) = i_closed st"
  by (simp add: inj_pop_def Let_def split: option.splits)

lemma take_injected_some:
  assumes "wk_wf s" "i < length (wk_queues s)" "lq_items (wk_queues s ! i) = []" "inj_contents (wk_inject s) = x # xs"
  shows "\<exists>s'. take_injected i s = Some (Inr (Some x, s')) \<and> took (Some x) s s' \<and> inj_contents (wk_inject s') = xs"
proof -
  have q: "queued (wk_inject s) (x # xs)" using wk_wfD(4) [OF assms(1)] assms(4) by simp
  obtain j where j: "inj_pop (wk_inject s) = (Some x, j)" "queued j xs" using pop_queued [OF q] by (metis prod.collapse)
  have jc: "i_closed j = i_closed (wk_inject s)" using j(1) inj_pop_closed [of "wk_inject s"] by simp
  let ?s = "s\<lparr>wk_inject := j\<rparr>"
  note w = wf_set_inject [OF assms(1) j(2) jc]
  obtain q where p: "lq_push_back x (wk_queues ?s ! i) = Inr q" "quiet q [x]"
    using quiet_push [of "wk_queues s ! i" "[]" x] wk_wfD(1) [OF assms(1,2)] assms(3) by auto
  let ?t = "?s\<lparr>wk_queues := (wk_queues ?s)[i := q]\<rparr>"
  have i: "i < length (wk_queues ?s)" using assms(2) by simp
  note v = wf_set_queue [OF w(1) i p(2)]
  have it: "lq_items (wk_queues ?t ! i) = [] @ [x]" using i quiet_items [OF p(2)] by simp
  have i': "i < length (wk_queues ?t)" using assms(2) by simp
  obtain q' where o: "pop_own i ?t = Some (Inr (Some x, ?t\<lparr>wk_queues := (wk_queues ?t)[i := q']\<rparr>))"
    "took (Some x) ?t (?t\<lparr>wk_queues := (wk_queues ?t)[i := q']\<rparr>)"
    using pop_own_some [OF v(1) i' it] by blast
  have "take_injected i s = pop_own i ?t" using j(1) p(1) by (simp add: take_injected_def Let_def)
  moreover have "mset (wk_tasks ?t) = mset (wk_tasks s)" using w(2) v(2) assms(3,4) by simp
  ultimately show ?thesis using o queued_contents [OF j(2)] by (auto simp: took_def)
qed

lemma steal_empty: "quiet q [] \<Longrightarrow> steal_into q dst = Some (Inr (None, q, dst))"
proof -
  assume "quiet q []"
  then obtain S T f where r: "lq_rep q S S T f" "map f [S..<T] = []" by (auto simp: quiet_def)
  then have "S = T" using lq_repD(4) [OF r(1)] by auto
  then show ?thesis using lq_repD(1,2) [OF r(1)] by (simp add: steal_into_def steal_plan_def)
qed

lemma steal_took:
  assumes "wk_wf s" "i < length (wk_queues s)" "v < length (wk_queues s)" "v \<noteq> i"
    "lq_items (wk_queues s ! i) = []" "lq_items (wk_queues s ! v) = x # xs"
  shows "\<exists>src dst. steal_into (wk_queues s ! v) (wk_queues s ! i) = Some (Inr (Some x, src, dst))
    \<and> took (Some x) s (s\<lparr>wk_queues := (wk_queues s)[v := src, i := dst]\<rparr>)"
proof -
  define c where "c = steal_count (Suc (length xs)) (256 - length ([] :: task_ref list))"
  have c: "1 \<le> c" using steal_count_bounds [of "Suc (length xs)" 256] by (simp add: c_def)
  obtain src dst where st: "steal_into (wk_queues s ! v) (wk_queues s ! i) = Some (Inr (Some x, src, dst))"
    "quiet src (drop c (x # xs))" "quiet dst (take (c - 1) xs)"
    using quiet_steal [of "wk_queues s ! v" x xs "wk_queues s ! i" "[]"] wk_wfD(1) [OF assms(1,2)] wk_wfD(1) [OF assms(1,3)] assms(5,6)
    by (auto simp: c_def)
  let ?s = "s\<lparr>wk_queues := (wk_queues s)[v := src]\<rparr>"
  note a = wf_set_queue [OF assms(1,3) st(2)]
  have i: "i < length (wk_queues ?s)" using assms(2) by simp
  note b = wf_set_queue [OF a(1) i st(3)]
  have p: "mset (x # xs) = add_mset x (mset (take (c - 1) xs)) + mset (drop c (x # xs))"
    using c by (cases c) (simp_all flip: mset_append)
  have "add_mset x (mset (wk_tasks (s\<lparr>wk_queues := (wk_queues s)[v := src, i := dst]\<rparr>))) = mset (wk_tasks s)"
    using a(2) b(2) p assms(4,5,6) by simp
  then show ?thesis using st(1) b(1) by (auto simp: took_def)
qed

lemma steal_loop_result:
  assumes "wk_wf s" "i < length (wk_queues s)" "lq_items (wk_queues s ! i) = []"
  shows "\<exists>r s'. steal_loop i start os s = Some (Inr (r, s')) \<and> took r s s' \<and> wk_searching s' = wk_searching s
    \<and> wk_inject s' = wk_inject s
    \<and> (r = None \<longrightarrow> s' = s \<and> (\<forall>k\<in>set os. lq_items (wk_queues s ! ((start + k) mod length (wk_queues s))) = []))"
proof (induction os)
  case Nil
  then show ?case using took_None [OF assms(1)] by simp
next
  case (Cons k os)
  define v where "v = (start + k) mod length (wk_queues s)"
  have v: "v < length (wk_queues s)" unfolding v_def using assms(2) by (intro mod_less_divisor) linarith
  show ?case
  proof (cases "v = i")
    case True
    then have "steal_loop i start (k # os) s = steal_loop i start os s" by (simp add: v_def Let_def)
    then show ?thesis using Cons True assms(3) by (simp add: v_def)
  next
    case False
    show ?thesis
    proof (cases "lq_items (wk_queues s ! v)")
      case Nil
      then have "steal_into (wk_queues s ! v) (wk_queues s ! i) = Some (Inr (None, wk_queues s ! v, wk_queues s ! i))"
        using wk_wfD(1) [OF assms(1) v] steal_empty by simp
      then have "steal_loop i start (k # os) s = steal_loop i start os s"
        using False by (simp add: v_def Let_def bind_wk_def)
      then show ?thesis using Cons Nil by (simp add: v_def)
    next
      case (Cons x xs)
      obtain src dst where st: "steal_into (wk_queues s ! v) (wk_queues s ! i) = Some (Inr (Some x, src, dst))"
        "took (Some x) s (s\<lparr>wk_queues := (wk_queues s)[v := src, i := dst]\<rparr>)"
        using steal_took [OF assms(1,2) v False assms(3) Cons] by blast
      then show ?thesis using False by (simp add: v_def Let_def bind_wk_def)
    qed
  qed
qed

lemma all_victims: "j < n \<Longrightarrow> \<exists>k\<in>set [0..<n]. (start + k) mod n = (j::nat)"
proof -
  assume j: "j < n"
  let ?k = "(n - start mod n + j) mod n"
  have "(start + ?k) mod n = (start mod n + (n - start mod n + j)) mod n" by (simp add: mod_simps)
  also have "start mod n + (n - start mod n + j) = n + j" using mod_less_divisor [of n start] j by linarith
  finally have "(start + ?k) mod n = j" using j by simp
  then show ?thesis using j by (intro bexI [of _ ?k]) auto
qed

definition queues_empty :: "workers \<Rightarrow> bool" where
  "queues_empty s \<longleftrightarrow> list_all (\<lambda>q. lq_items q = []) (wk_queues s)"

lemma steal_work_result:
  assumes "wk_wf s" "i < length (wk_queues s)" "lq_items (wk_queues s ! i) = []"
  shows "\<exists>r rand' s'. steal_work i rand s = Some (Inr (r, rand', s')) \<and> took r s s' \<and> wk_searching s' = wk_searching s
    \<and> wk_inject s' = wk_inject s \<and> (r = None \<longrightarrow> s' = s \<and> queues_empty s)"
proof (cases "length (wk_queues s) < 2")
  case True
  then have "i = 0" "length (wk_queues s) = 1" using assms(2) by linarith+
  then have "queues_empty s" using assms(3) by (auto simp: queues_empty_def list_all_length)
  then show ?thesis using True took_None [OF assms(1)] by (simp add: steal_work_def Let_def)
next
  case False
  let ?n = "length (wk_queues s)"
  let ?st = "unat (fst (fastrand_n (of_nat ?n) rand))"
  obtain r s' where r: "steal_loop i ?st [0..<?n] s = Some (Inr (r, s'))" "took r s s'" "wk_searching s' = wk_searching s"
    "wk_inject s' = wk_inject s"
    "r = None \<Longrightarrow> s' = s \<and> (\<forall>k\<in>set [0..<?n]. lq_items (wk_queues s ! ((?st + k) mod ?n)) = [])"
    using steal_loop_result [OF assms, of ?st "[0..<?n]"] by blast
  have "r = None \<Longrightarrow> s' = s \<and> queues_empty s"
    using r(5) all_victims [of _ ?n ?st] unfolding queues_empty_def list_all_length by metis
  then show ?thesis using r(1-4) False by (simp add: steal_work_def Let_def split_beta bind_wk_def)
qed

lemma unpark_any_took [simp]:
  "took r s (fst (unpark_any s')) = took r s s'" "wk_queues (fst (unpark_any s)) = wk_queues s"
  "wk_inject (fst (unpark_any s)) = wk_inject s" "wk_lifo (fst (unpark_any s)) = wk_lifo s"
  "wk_searching (fst (unpark_any s)) = wk_searching s" "wk_shutdown (fst (unpark_any s)) = wk_shutdown s"
  by (simp_all add: unpark_any_def Let_def)

text \<open>What finding nothing leaves: the queues, the slots and the injector as they were.\<close>

definition same_work :: "workers \<Rightarrow> workers \<Rightarrow> bool" where
  "same_work s s' \<longleftrightarrow> wk_queues s' = wk_queues s \<and> wk_lifo s' = wk_lifo s \<and> wk_inject s' = wk_inject s
     \<and> wk_shutdown s' = wk_shutdown s"

lemma search_and_steal_result:
  assumes "wk_wf s" "i < length (wk_queues s)" "lq_items (wk_queues s ! i) = []"
  shows "\<exists>r rand' s' us. search_and_steal i rand s = Some (Inr (r, rand', s', us)) \<and> took r s s'
    \<and> wk_searching s' = wk_searching s \<and> wk_inject s' = wk_inject s
    \<and> (r = None \<longrightarrow> same_work s s' \<and> (wk_searching s < length (wk_queues s) div 2 \<longrightarrow> queues_empty s))"
proof (cases "length (wk_queues s) div 2 \<le> wk_searching s")
  case True
  then show ?thesis using took_None [OF assms(1)] by (simp add: search_and_steal_def same_work_def)
next
  case False
  let ?s = "s\<lparr>wk_searching := wk_searching s + 1\<rparr>"
  obtain r rand' s' where r: "steal_work i rand ?s = Some (Inr (r, rand', s'))" "took r ?s s'" "wk_searching s' = wk_searching ?s"
    "wk_inject s' = wk_inject s" "r = None \<Longrightarrow> s' = ?s \<and> queues_empty ?s"
    using steal_work_result [of ?s i rand] assms by auto
  have e: "queues_empty ?s = queues_empty s" by (simp add: queues_empty_def)
  show ?thesis
  proof (cases r)
    case None
    obtain u us where u: "unpark_any (s\<lparr>wk_searching := 0\<rparr>) = (u, us)" by fastforce
    then have "took None s u \<and> same_work s u \<and> wk_searching u = 0"
      using unpark_any_took(1) [of None s "s\<lparr>wk_searching := 0\<rparr>"] unpark_any_took(2-) [of "s\<lparr>wk_searching := 0\<rparr>"] took_None [OF assms(1)]
      by (simp add: same_work_def)
    then show ?thesis using None r(1,5) e False took_None [OF assms(1)] u
      by (simp add: search_and_steal_def bind_wk_def Let_def same_work_def split_beta)
  next
    case (Some x)
    then show ?thesis using r(1-4) False by (simp add: search_and_steal_def bind_wk_def)
  qed
qed

lemma same_work_took:
  assumes "took None s s1" "same_work s s1"
  shows "took r s1 s' \<Longrightarrow> took r s s'" "wk_wf s1" "length (wk_queues s1) = length (wk_queues s)"
  using assms by (auto simp: took_def)

lemma bind_wk_simps [simp]: "bind_wk (Some (Inr x)) f = f x" "bind_wk (Some (Inl e)) f = Some (Inl e)" "bind_wk None f = None"
  by (simp_all add: bind_wk_def)

definition ran :: "wk_next \<Rightarrow> task_ref option" where
  "ran nx = (case nx of RunTask t \<Rightarrow> Some t | _ \<Rightarrow> None)"

definition local_empty :: "nat \<Rightarrow> workers \<Rightarrow> bool" where
  "local_empty i s \<longleftrightarrow> lq_items (wk_queues s ! i) = [] \<and> wk_lifo s ! i = None"

text \<open>A round gives the next task or, with nothing to run, parks or ends; it blocks or ends on the
  multi-worker scheduler only with an empty queue and an empty slot of its own.\<close>

definition idle_ok :: "bool \<Rightarrow> nat \<Rightarrow> workers \<Rightarrow> wk_next \<Rightarrow> bool" where
  "idle_ok takeover i s nx \<longleftrightarrow> (case nx of
       RunTask t \<Rightarrow> True
     | ParkWorker blocks \<Rightarrow> blocks \<longrightarrow> local_empty i s \<and> inj_contents (wk_inject s) = []
     | ExitWorker \<Rightarrow> (wk_shutdown s \<or> takeover) \<and> local_empty i s \<and> (takeover \<or> inj_contents (wk_inject s) = []))"

lemma wf_len:
  assumes "wk_wf s" "i < length (wk_queues s)"
  shows "lq_len (wk_queues s ! i) = 0 \<longleftrightarrow> lq_items (wk_queues s ! i) = []" "i_len (wk_inject s) = 0 \<longleftrightarrow> inj_contents (wk_inject s) = []"
  using quiet_len [OF wk_wfD(1) [OF assms]] wk_wfD(4) [OF assms(1)] by (auto simp: queued_def)

lemma idle_round_result:
  assumes "wk_wf s" "i < length (wk_queues s)"
  shows "\<exists>nx s'. idle_round tk i w s us = Some (Inr (nx, w, s', us)) \<and> ran nx = None \<and> took None s s' \<and> same_work s s'
    \<and> idle_ok tk i s' nx"
proof -
  note l = wf_len [OF assms]
  show ?thesis
    using took_None [OF assms(1)] l
    by (auto simp: idle_round_def park_begin_def has_work_def same_work_def idle_ok_def local_empty_def ran_def Let_def)
qed

text \<open>What a round promises: its task has left the workers, the others are kept, the worker that
  runs a task becomes its owner, and one that blocks after it searched leaves every queue empty.\<close>

definition round_ok :: "bool \<Rightarrow> nat \<Rightarrow> workers \<Rightarrow> wk_next \<Rightarrow> workers \<Rightarrow> bool" where
  "round_ok tk i s nx s' \<longleftrightarrow> took (ran nx) s s' \<and> idle_ok tk i s' nx \<and> (\<forall>t. nx = RunTask t \<longrightarrow> wk_owner s' t = i)
     \<and> (nx = ParkWorker True \<and> wk_searching s < length (wk_queues s) div 2 \<longrightarrow> queues_empty s')"

lemma round_run: "took (Some t) s s' \<Longrightarrow> round_ok tk i s (RunTask t) (run_next i t s')"
  by (simp add: round_ok_def ran_def run_next_def idle_ok_def)

lemma round_idle:
  assumes "wk_wf s" "i < length (wk_queues s)" "took None s s1" "same_work s s1"
    "wk_searching s < length (wk_queues s) div 2 \<longrightarrow> queues_empty s"
  shows "\<exists>nx s'. idle_round tk i w s1 us = Some (Inr (nx, w, s', us)) \<and> round_ok tk i s nx s'"
proof -
  note w = same_work_took [OF assms(3,4)]
  obtain nx s' where r: "idle_round tk i w s1 us = Some (Inr (nx, w, s', us))" "ran nx = None" "took None s1 s'" "same_work s1 s'"
    "idle_ok tk i s' nx" using idle_round_result [of s1 i tk w us] w(2,3) assms(2) by auto
  have "queues_empty s' = queues_empty s" using r(4) assms(4) by (simp add: same_work_def queues_empty_def)
  moreover have "took (ran nx) s s'" using w(1) r(2,3) by simp
  ultimately have "round_ok tk i s nx s'" using r(2,5) assms(5) by (auto simp: round_ok_def ran_def)
  then show ?thesis using r(1) by blast
qed

lemma search_round_result:
  assumes "wk_wf s" "i < length (wk_queues s)" "lq_items (wk_queues s ! i) = []"
  shows "\<exists>nx w' s' us. search_round tk g i w s = Some (Inr (nx, w', s', us)) \<and> round_ok tk i s nx s'"
proof -
  obtain r rand' s1 us where r: "search_and_steal i (wl_rand w) s = Some (Inr (r, rand', s1, us))" "took r s s1"
    and n: "r = None \<Longrightarrow> same_work s s1 \<and> (wk_searching s < length (wk_queues s) div 2 \<longrightarrow> queues_empty s)"
    using search_and_steal_result [OF assms] by blast
  show ?thesis
  proof (cases r)
    case (Some t)
    then show ?thesis using r round_run by (auto simp: search_round_def Let_def)
  next
    case None
    note w = same_work_took [of s s1] r(2) n
    have idle: "\<exists>nx s'. idle_round tk i (w\<lparr>wl_rand := rand'\<rparr>) s1 us = Some (Inr (nx, w\<lparr>wl_rand := rand'\<rparr>, s', us)) \<and> round_ok tk i s nx s'"
      using round_idle [OF assms(1,2)] r(2) n None by blast
    show ?thesis
    proof (cases "g \<or> inj_contents (wk_inject s1) = []")
      case True
      then have "search_round tk g i w s = idle_round tk i (w\<lparr>wl_rand := rand'\<rparr>) s1 us"
        using r(1) None take_injected_empty [of s1 i] w(2) n r(2) None
        by (auto simp: search_round_def Let_def took_def)
      then show ?thesis using idle by auto
    next
      case False
      then obtain x xs where x: "inj_contents (wk_inject s1) = x # xs" by (cases "inj_contents (wk_inject s1)") auto
      have q: "wk_wf s1" "i < length (wk_queues s1)" "lq_items (wk_queues s1 ! i) = []"
        using r(2) n None assms(2,3) by (auto simp: took_def same_work_def)
      obtain s' where s': "take_injected i s1 = Some (Inr (Some x, s'))" "took (Some x) s1 s'"
        using take_injected_some [OF q x] by blast
      have "took (Some x) s s'" using same_work_took(1) [of s s1] r(2) n None s'(2) by blast
      then show ?thesis using r(1) None False s'(1) round_run by (auto simp: search_round_def Let_def)
    qed
  qed
qed

lemma worker_round_result:
  assumes "wk_wf s" "i < length (wk_queues s)"
  shows "\<exists>nx w' s' us. worker_round tk i w s = Some (Inr (nx, w', s', us)) \<and> round_ok tk i s nx s'"
proof -
  obtain r w1 s1 where l: "next_lifo i w s = (r, w1, s1)" by (cases "next_lifo i w s")
  show ?thesis
  proof (cases r)
    case (Some t)
    then show ?thesis using l next_lifo_took(1) [OF assms l] round_run by (auto simp: worker_round_def)
  next
    case None
    then have [simp]: "s1 = s" using next_lifo_took(2) [OF assms l] by simp
    show ?thesis
    proof (cases "lq_items (wk_queues s ! i)" rule: rev_cases)
      case (snoc xs x)
      then obtain s2 where "pop_own i s = Some (Inr (Some x, s2))" "took (Some x) s s2"
        using pop_own_some [OF assms snoc] by blast
      then show ?thesis using l None round_run by (auto simp: worker_round_def)
    next
      case Nil
      note e = pop_own_empty [OF assms Nil]
      let ?w = "w1\<lparr>wl_tick := wl_tick w1 + 1\<rparr>"
      let ?g = "wl_tick ?w mod GLOBAL_QUEUE_INTERVAL = 0"
      show ?thesis
      proof (cases "?g \<and> inj_contents (wk_inject s) \<noteq> []")
        case True
        then obtain x xs where x: "inj_contents (wk_inject s) = x # xs" by (cases "inj_contents (wk_inject s)") auto
        obtain s2 where "take_injected i s = Some (Inr (Some x, s2))" "took (Some x) s s2"
          using take_injected_some [OF assms Nil x] by blast
        then show ?thesis using l None e True round_run by (auto simp: worker_round_def Let_def)
      next
        case False
        then have "worker_round tk i w s = search_round tk ?g i ?w s"
          using l None e take_injected_empty [OF assms(1)] by (auto simp: worker_round_def Let_def)
        then show ?thesis using search_round_result [OF assms Nil] by simp
      qed
    qed
  qed
qed

section \<open>Placing a woken task\<close>

lemma push_batch_flag: "i_closed (fst (inj_push_batch ts st)) = i_closed st"
  by (induction ts arbitrary: st) (auto simp: split_beta)

text \<open>Where a task goes when the scheduler runs: into the slot or the run queue of the worker that
  wakes it, when that is its target, else to the end of the injector.\<close>

definition placed :: "nat option \<Rightarrow> nat \<Rightarrow> task_ref \<Rightarrow> workers \<Rightarrow> workers \<Rightarrow> nat list \<Rightarrow> bool" where
  "placed cur target t s s' us \<longleftrightarrow>
     (if cur = Some target
      then (wk_lifo s' ! target = Some t \<or> (\<exists>xs. lq_items (wk_queues s' ! target) = xs @ [t]))
      else inj_contents (wk_inject s') = inj_contents (wk_inject s) @ [t] \<and> us = [target])"

definition sched_ok :: "nat option \<Rightarrow> nat \<Rightarrow> task_ref \<Rightarrow> workers \<Rightarrow> workers \<Rightarrow> task_ref list \<Rightarrow> nat list \<Rightarrow> bool" where
  "sched_ok cur target t s s' ds us \<longleftrightarrow> wk_wf s' \<and> ds = [] \<and> mset (wk_tasks s') = add_mset t (mset (wk_tasks s))
     \<and> length (wk_queues s') = length (wk_queues s) \<and> wk_shutdown s' = wk_shutdown s \<and> placed cur target t s s' us"

definition target_of :: "nat \<Rightarrow> task_ref \<Rightarrow> workers \<Rightarrow> nat" where
  "target_of self_target t s = (if wk_owner s t < length (wk_queues s) then wk_owner s t else self_target)"

lemma schedule_inject:
  assumes "wk_wf s" "\<not> wk_shutdown s" "t \<notin> set (wk_tasks s)" "cur \<noteq> Some (target_of st t s)"
  shows "\<exists>s' us. mt_schedule cur st t s = Some (Inr (s', [], us)) \<and> sched_ok cur (target_of st t s) t s s' [] us"
proof -
  let ?j = "inj_append t (wk_inject s\<lparr>queue_next := (queue_next (wk_inject s))(t := None)\<rparr>)"
  have op: "\<not> i_closed (wk_inject s)" using wk_wfD(5) [OF assms(1)] assms(2) by blast
  have q: "queued ?j (inj_contents (wk_inject s) @ [t])"
    using append_queued [OF wk_wfD(4) [OF assms(1)]] assms(3) by (simp add: wk_tasks_def)
  have c: "i_closed ?j = i_closed (wk_inject s)" by simp
  note w = wf_set_inject [OF assms(1) q c]
  have "mt_schedule cur st t s = Some (Inr (s\<lparr>wk_inject := ?j\<rparr>, [], [target_of st t s]))"
    using assms(2,4) op by (simp add: mt_schedule_def Let_def inj_push_def target_of_def)
  then show ?thesis using w queued_contents [OF q] assms(4) by (auto simp: sched_ok_def placed_def)
qed

lemma schedule_local:
  assumes "wk_inv s" "\<not> wk_shutdown s" "t \<notin> set (wk_tasks s)" "target_of st t s = i" "i < length (wk_queues s)"
  shows "\<exists>s' us. mt_schedule (Some i) st t s = Some (Inr (s', [], us)) \<and> sched_ok (Some i) i t s s' [] us"
proof -
  have wf: "wk_wf s" and dist: "distinct (wk_tasks s)" using assms(1) by (simp_all add: wk_inv_def)
  note l = wk_wfD(2) [OF wf] and tgt = assms(4) [unfolded target_of_def]
  let ?q = "wk_queues s ! i" and ?xs = "lq_items (wk_queues s ! i)"
  note qi = wk_wfD(1) [OF wf assms(5)]
  consider (lifo) "wk_lifo_enabled s \<and> wk_lifo s ! i = None" | (room) "\<not> (wk_lifo_enabled s \<and> wk_lifo s ! i = None)" "length ?xs \<noteq> 256"
    | (full) "\<not> (wk_lifo_enabled s \<and> wk_lifo s ! i = None)" "length ?xs = 256" by blast
  then show ?thesis
  proof cases
    case lifo
    then have "mt_schedule (Some i) st t s = Some (Inr (s\<lparr>wk_lifo := (wk_lifo s)[i := Some t]\<rparr>, [], []))"
      using assms(2) tgt by (simp add: mt_schedule_def Let_def)
    then show ?thesis using wf_set_lifo [OF wf assms(5), of "Some t"] lifo l assms(5) by (auto simp: sched_ok_def placed_def)
  next
    case room
    then obtain q where q: "lq_push_back t ?q = Inr q" "quiet q (?xs @ [t])" using quiet_push [OF qi, of t] by auto
    then have "mt_schedule (Some i) st t s = Some (Inr (s\<lparr>wk_queues := (wk_queues s)[i := q]\<rparr>, [], []))"
      using assms(2) tgt room(1) by (auto simp: mt_schedule_def Let_def)
    then show ?thesis using wf_set_queue [OF wf assms(5) q(2)] quiet_items [OF q(2)] assms(5) by (auto simp: sched_ok_def placed_def)
  next
    case full
    let ?ov = "hd ?xs # rev (take 127 (tl ?xs))"
    obtain q where q: "push_overflow t [] ?q = Some (Inr (q, ?ov))" "quiet q (drop 128 ?xs @ [t])"
      using overflow_full [OF qi full(2), of t "[]"] by auto
    have xs: "mset ?xs = mset ?ov + mset (drop 128 ?xs)"
    proof -
      obtain y ys where y: "?xs = y # ys" using full(2) by (cases ?xs) auto
      have "mset ys = mset (take 127 ys) + mset (drop 127 ys)" by (simp flip: mset_append)
      then show ?thesis by (simp add: y)
    qed
    have pf: "lq_push_back t ?q = Inl t" using quiet_push [OF qi, of t] full(2) by simp
    let ?s = "s\<lparr>wk_queues := (wk_queues s)[i := q]\<rparr>"
    note w = wf_set_queue [OF wf assms(5) q(2)]
    have op: "\<not> i_closed (wk_inject s)" using wk_wfD(5) [OF wf] assms(2) by blast
    have "distinct (inj_contents (wk_inject s) @ ?ov)"
    proof -
      have "mset (wk_tasks s) = mset (concat (map lq_items ((wk_queues s)[i := local_new]))) + mset ?xs
        + mset (concat (map opt_list (wk_lifo s))) + mset (inj_contents (wk_inject s))"
        using mset_concat_update [OF assms(5), of lq_items local_new] by (simp add: wk_tasks_def quiet_items [OF quiet_new])
      then have "mset (wk_tasks s) = mset ((inj_contents (wk_inject s) @ ?ov) @ drop 128 ?xs
          @ concat (map lq_items ((wk_queues s)[i := local_new])) @ concat (map opt_list (wk_lifo s)))"
        using xs by (simp add: ac_simps)
      from mset_eq_imp_distinct_iff [OF this] dist show ?thesis unfolding distinct_append by blast
    qed
    from push_batch_open [OF wk_wfD(4) [OF wf] op this]
    obtain j where j: "inj_push_batch ?ov (wk_inject s) = (j, [])" "queued j (inj_contents (wk_inject s) @ ?ov)"
      by (metis prod.collapse)
    have jc: "i_closed j = i_closed (wk_inject ?s)" using push_batch_flag [of ?ov "wk_inject s"] j(1) by simp
    note v = wf_set_inject [OF w(1) j(2) jc]
    have "mt_schedule (Some i) st t s = Some (Inr (?s\<lparr>wk_inject := j\<rparr>, [], [i]))"
      using assms(2) tgt full(1) pf q(1) j(1) by (auto simp: mt_schedule_def Let_def)
    moreover have "mset (wk_tasks (?s\<lparr>wk_inject := j\<rparr>)) = add_mset t (mset (wk_tasks s))" using v(2) w(2) xs by simp
    ultimately show ?thesis using v(1) quiet_items [OF q(2)] assms(5) by (auto simp: sched_ok_def placed_def)
  qed
qed

lemma schedule_result:
  assumes "wk_inv s" "t \<notin> set (wk_tasks s)" "st < length (wk_queues s)"
  shows "\<exists>s' ds us. mt_schedule cur st t s = Some (Inr (s', ds, us))
    \<and> (if wk_shutdown s then s' = s \<and> ds = [t] else sched_ok cur (target_of st t s) t s s' ds us)"
proof (cases "wk_shutdown s")
  case True
  then show ?thesis by (simp add: mt_schedule_def)
next
  case False
  have "target_of st t s < length (wk_queues s)" using assms(3) by (simp add: target_of_def)
  then show ?thesis using False schedule_local [OF assms(1) False assms(2)] schedule_inject [OF _ False assms(2)] assms(1)
    unfolding wk_inv_def by (cases "cur = Some (target_of st t s)") fastforce+
qed

section \<open>The scheduler as a step relation\<close>

text \<open>Wakes, rounds of the workers and the shutdown, in any order. A wake may come from any thread; the
  state word of a task allows at most one submission at a time (theory \<open>Task_Harness\<close>), which is the
  first premise of \<open>wake\<close>. The lists record what was submitted, run and dropped.\<close>

record wk_sys =
  ws_workers :: workers
  ws_local :: "nat \<Rightarrow> worker_local"
  ws_woken :: "task_ref list"
  ws_run :: "task_ref list"
  ws_dropped :: "task_ref list"

definition local_start :: "nat \<Rightarrow> worker_local" where
  "local_start i = \<lparr>wl_tick = 0, wl_lifo_polls = 0, wl_rand = fastrand_new (of_nat i + 1)\<rparr>"

definition wk_start :: "nat \<Rightarrow> bool \<Rightarrow> wk_sys" where
  "wk_start n lifo = \<lparr>ws_workers = workers_new n lifo, ws_local = local_start, ws_woken = [], ws_run = [], ws_dropped = []\<rparr>"

inductive wk_step :: "wk_sys \<Rightarrow> wk_sys \<Rightarrow> bool" where
  wake: "t \<notin> set (wk_tasks (ws_workers y)) \<Longrightarrow> st < length (wk_queues (ws_workers y)) \<Longrightarrow>
    mt_schedule cur st t (ws_workers y) = Some (Inr (s', ds, us)) \<Longrightarrow>
    wk_step y (y\<lparr>ws_workers := s', ws_woken := t # ws_woken y, ws_dropped := ds @ ws_dropped y\<rparr>)"
| round: "i < length (wk_queues (ws_workers y)) \<Longrightarrow>
    worker_round tk i (ws_local y i) (ws_workers y) = Some (Inr (nx, w', s', us)) \<Longrightarrow>
    wk_step y (y\<lparr>ws_workers := s', ws_local := (ws_local y)(i := w'), ws_run := opt_list (ran nx) @ ws_run y\<rparr>)"
| shutdown: "wk_step y (y\<lparr>ws_workers := (ws_workers y)\<lparr>wk_shutdown := True, wk_inject := inj_close (wk_inject (ws_workers y))\<rparr>\<rparr>)"

definition wk_sys_inv :: "wk_sys \<Rightarrow> bool" where
  "wk_sys_inv y \<longleftrightarrow> wk_inv (ws_workers y)
     \<and> mset (ws_woken y) = mset (ws_run y) + mset (ws_dropped y) + mset (wk_tasks (ws_workers y))
     \<and> (\<not> wk_shutdown (ws_workers y) \<longrightarrow> ws_dropped y = [])"

lemma concat_map_replicate [simp]: "concat (map f (replicate n x)) = concat (replicate n (f x))"
  by (induction n) auto

lemma concat_replicate_Nil [simp]: "concat (replicate n []) = []"
  by (induction n) auto

lemma workers_new_inv: "wk_inv (workers_new n lifo)" "wk_tasks (workers_new n lifo) = []"
proof -
  have q: "lq_items local_new = []" by (rule quiet_items [OF quiet_new])
  have i: "inj_contents injector_new = []" by (rule queued_contents [OF new_queued])
  show "wk_tasks (workers_new n lifo) = []" by (simp add: wk_tasks_def workers_new_def Let_def q i)
  moreover have "quiet_inv local_new" using quiet_new quiet_inv_iff by blast
  moreover have "inj_inv injector_new" using new_queued inj_inv_iff by blast
  ultimately show "wk_inv (workers_new n lifo)"
    by (auto simp: wk_inv_def wk_wf_def workers_new_def Let_def list_all_length new_open)
qed

lemma wk_close_inv: "wk_inv s \<Longrightarrow> wk_inv (s\<lparr>wk_shutdown := True, wk_inject := inj_close (wk_inject s)\<rparr>)"
  "wk_tasks (s\<lparr>wk_shutdown := True, wk_inject := inj_close (wk_inject s)\<rparr>) = wk_tasks s"
  by (simp_all add: wk_inv_def wk_wf_def wk_tasks_def inj_close_def inj_inv_def inj_contents_def queued_def)

lemma sched_ok_inv: "sched_ok cur i t s s' ds us \<Longrightarrow> wk_inv s \<Longrightarrow> t \<notin> set (wk_tasks s) \<Longrightarrow> wk_inv s'"
  unfolding sched_ok_def wk_inv_def by (metis distinct.simps(2) mset.simps(2) mset_eq_imp_distinct_iff)

lemma wk_step_inv: "wk_step y y' \<Longrightarrow> wk_sys_inv y \<Longrightarrow> wk_sys_inv y'"
proof (induction rule: wk_step.induct)
  case (wake t y st cur s' ds us)
  have i: "wk_inv (ws_workers y)" using wake.prems by (simp add: wk_sys_inv_def)
  from schedule_result [OF i wake.hyps(1,2), of cur] wake.hyps(3)
  have "if wk_shutdown (ws_workers y) then s' = ws_workers y \<and> ds = [t] else sched_ok cur (target_of st t (ws_workers y)) t (ws_workers y) s' ds us"
    by simp
  then show ?case using wake.prems sched_ok_inv [OF _ i wake.hyps(1)]
    by (auto simp: wk_sys_inv_def sched_ok_def split: if_splits)
next
  case (round i y tk nx w' s' us)
  have "wk_inv (ws_workers y)" using round.prems by (simp add: wk_sys_inv_def)
  moreover from this have "round_ok tk i (ws_workers y) nx s'"
    using worker_round_result [OF _ round.hyps(1), of tk "ws_local y i"] round.hyps(2) by (auto simp: wk_inv_def)
  then have k: "took (ran nx) (ws_workers y) s'" by (simp add: round_ok_def)
  ultimately have "wk_inv s'" using took_inv by blast
  then show ?case using round.prems k by (auto simp: wk_sys_inv_def took_def ac_simps)
next
  case (shutdown y)
  then show ?case using wk_close_inv [of "ws_workers y"] by (simp add: wk_sys_inv_def)
qed

lemma wk_reach_inv: "wk_step\<^sup>*\<^sup>* (wk_start n lifo) y \<Longrightarrow> wk_sys_inv y"
proof (induction rule: rtranclp_induct)
  case base
  then show ?case using workers_new_inv by (simp add: wk_sys_inv_def wk_start_def)
next
  case (step y z)
  then show ?case using wk_step_inv by blast
qed

section \<open>Properties\<close>


definition wk_demo :: wk_sys where
  "wk_demo = (wk_start 2 True)\<lparr>ws_workers := (workers_new 2 True)\<lparr>wk_lifo := [Some 7, None]\<rparr>, ws_woken := [7]\<rparr>"

lemma wk_demo_step: "wk_step (wk_start 2 True) wk_demo"
proof -
  let ?y = "wk_start 2 True"
  have w: "wk_tasks (ws_workers ?y) = []" using workers_new_inv(2) by (simp add: wk_start_def)
  have m: "max (2::nat) (Suc 0) = Suc (Suc 0)" by simp
  have "mt_schedule (Some 0) 0 7 (ws_workers ?y) = Some (Inr (ws_workers wk_demo, [], []))"
    by (simp add: mt_schedule_def wk_start_def workers_new_def wk_demo_def Let_def m)
  from wk_step.wake [of 7 ?y 0 "Some 0", OF _ _ this] show ?thesis
    by (simp add: w) (simp add: wk_start_def wk_demo_def workers_new_def)
qed


text \<open>C6. A round of a worker always returns without a fault. It blocks in the driver only with an empty
  slot, an empty run queue and an empty injector, and, when the limit on searching workers let it
  search, with every run queue empty; it ends only on a shutdown or a takeover request, with nothing
  of its own left; and the worker that runs a task becomes its owner.\<close>

theorem worker_blocks_only_without_work:
  assumes "wk_inv s" "i < length (wk_queues s)"
  shows "\<exists>nx w' s' us. worker_round tk i w s = Some (Inr (nx, w', s', us)) \<and> wk_inv s'
    \<and> (case nx of
         RunTask t \<Rightarrow> wk_owner s' t = i
       | ParkWorker blocks \<Rightarrow> blocks \<longrightarrow> wk_lifo s' ! i = None \<and> lq_items (wk_queues s' ! i) = [] \<and> inj_contents (wk_inject s') = []
           \<and> (wk_searching s < length (wk_queues s) div 2 \<longrightarrow> (\<forall>q\<in>set (wk_queues s'). lq_items q = []))
       | ExitWorker \<Rightarrow> (wk_shutdown s' \<or> tk) \<and> wk_lifo s' ! i = None \<and> lq_items (wk_queues s' ! i) = [])"
proof -
  obtain nx w' s' us where r: "worker_round tk i w s = Some (Inr (nx, w', s', us))" "round_ok tk i s nx s'"
    using worker_round_result [of s i tk w] assms by (auto simp: wk_inv_def)
  have "wk_inv s'" using r(2) took_inv assms(1) unfolding round_ok_def by blast
  then show ?thesis using r
    by (auto simp: round_ok_def idle_ok_def local_empty_def queues_empty_def list_all_iff split: wk_next.splits)
qed

theorem worker_blocks_only_without_work_witness:
  "\<exists>nx w' s' us. worker_round False 1 (local_start 1) (workers_new 2 True) = Some (Inr (nx, w', s', us)) \<and> wk_inv s'"
proof -
  have "1 < length (wk_queues (workers_new 2 True))" by (simp add: workers_new_def Let_def)
  from worker_blocks_only_without_work [OF workers_new_inv(1) this, of False "local_start 1"] show ?thesis by blast
qed

text \<open>The rounds of a worker whose tasks wake themselves while they run: each is submitted again on the
  same worker before the next round.\<close>

primrec busy_rounds :: "nat \<Rightarrow> nat \<Rightarrow> worker_local \<Rightarrow> workers \<Rightarrow> (task_ref list \<times> worker_local \<times> workers) wk_result" where
  "busy_rounds 0 i w s = Some (Inr ([], w, s))"
| "busy_rounds (Suc n) i w s =
     bind_wk (worker_round False i w s) (\<lambda>(nx, w, s, _).
       case nx of
         RunTask t \<Rightarrow>
           bind_wk (mt_schedule (Some i) i t s) (\<lambda>(s, _).
             bind_wk (busy_rounds n i w s) (\<lambda>(ts, w, s). Some (Inr (t # ts, w, s))))
       | _ \<Rightarrow> Some (Inr ([], w, s)))"

definition busy :: "nat \<Rightarrow> task_ref \<Rightarrow> task_ref \<Rightarrow> workers \<Rightarrow> bool" where
  "busy i a b s \<longleftrightarrow> wk_wf s \<and> \<not> wk_shutdown s \<and> wk_lifo_enabled s \<and> i < length (wk_queues s)
     \<and> wk_lifo s ! i = Some a \<and> lq_items (wk_queues s ! i) = [b]"

lemma busy_round:
  assumes "busy i a b s"
  shows "\<exists>t w' s' s'' us. worker_round False i w s = Some (Inr (RunTask t, w', s', [])) \<and> t \<in> {a, b}
    \<and> mt_schedule (Some i) i t s' = Some (Inr (s'', us)) \<and> busy i a b s'' \<and> wk_inject s'' = wk_inject s"
proof -
  have b: "wk_wf s" "\<not> wk_shutdown s" "wk_lifo_enabled s" "i < length (wk_queues s)" "wk_lifo s ! i = Some a"
    "lq_items (wk_queues s ! i) = [b]" using assms by (simp_all add: busy_def)
  note l = wk_wfD(2) [OF b(1)]
  show ?thesis
  proof (cases "MAX_LIFO_POLLS_PER_TICK \<le> wl_lifo_polls w")
    case False
    let ?s = "s\<lparr>wk_lifo := (wk_lifo s)[i := None], wk_owner := (wk_owner s)(a := i)\<rparr>"
    have "worker_round False i w s = Some (Inr (RunTask a, w\<lparr>wl_lifo_polls := wl_lifo_polls w + 1\<rparr>, ?s, []))"
      using False b(5) by (simp add: worker_round_def next_lifo_def run_next_def)
    moreover have "mt_schedule (Some i) i a ?s = Some (Inr (?s\<lparr>wk_lifo := (wk_lifo ?s)[i := Some a]\<rparr>, [], []))"
      using b(2-4) l by (simp add: mt_schedule_def Let_def)
    moreover have "busy i a b (?s\<lparr>wk_lifo := (wk_lifo ?s)[i := Some a]\<rparr>)"
      using b l by (simp add: busy_def wk_wf_def)
    ultimately show ?thesis by fastforce
  next
    case True
    obtain q where q: "pop_own i s = Some (Inr (Some b, s\<lparr>wk_queues := (wk_queues s)[i := q]\<rparr>))" "quiet q []"
      using pop_own_some [OF b(1,4), of "[]" b] b(6) by auto
    let ?s = "s\<lparr>wk_queues := (wk_queues s)[i := q], wk_owner := (wk_owner s)(b := i)\<rparr>"
    have "worker_round False i w s = Some (Inr (RunTask b, w\<lparr>wl_lifo_polls := 0\<rparr>, ?s, []))"
      using True q(1) by (simp add: worker_round_def next_lifo_def run_next_def)
    moreover obtain q' where q': "lq_push_back b q = Inr q'" "quiet q' [b]" using quiet_push [OF q(2), of b] by auto
    have "mt_schedule (Some i) i b ?s = Some (Inr (?s\<lparr>wk_queues := (wk_queues ?s)[i := q']\<rparr>, [], []))"
      using b q'(1) by (simp add: mt_schedule_def Let_def)
    moreover have "busy i a b (?s\<lparr>wk_queues := (wk_queues ?s)[i := q']\<rparr>)"
      using b quiet_items [OF q'(2)] wf_set_queue(1) [OF b(1,4) q'(2)] by (simp add: busy_def wk_wf_def)
    ultimately show ?thesis by fastforce
  qed
qed

text \<open>Local work starves the injector: while a task in the LIFO slot and a task in the run queue of a
  worker keep waking themselves, the worker runs only these two for any number of rounds, and the
  injector stays as it was. (\<open>tick\<close> counts only the rounds that found no local work, so the check of
  the injector on every 61st tick is never reached.)\<close>

theorem local_work_starves_the_injector:
  assumes "busy i a b s"
  shows "\<exists>ts w' s'. busy_rounds n i w s = Some (Inr (ts, w', s')) \<and> length ts = n \<and> set ts \<subseteq> {a, b}
    \<and> wk_inject s' = wk_inject s"
  using assms
proof (induction n arbitrary: w s)
  case (Suc n)
  obtain t w' s' s'' us where r: "worker_round False i w s = Some (Inr (RunTask t, w', s', []))" "t \<in> {a, b}"
    "mt_schedule (Some i) i t s' = Some (Inr (s'', us))" "busy i a b s''" "wk_inject s'' = wk_inject s"
    using busy_round [OF Suc.prems] by blast
  obtain ts w1 s1 where "busy_rounds n i w' s'' = Some (Inr (ts, w1, s1))" "length ts = n" "set ts \<subseteq> {a, b}"
    "wk_inject s1 = wk_inject s''" using Suc.IH [OF r(4)] by blast
  then show ?case using r by (auto split: prod.splits)
qed simp

definition busy_demo :: workers where
  "busy_demo = (workers_new 1 True)\<lparr>wk_lifo := [Some 7], wk_queues := [lq_put 8 local_new], wk_inject := fst (inj_push False 9 injector_new)\<rparr>"

lemma busy_demo_busy: "busy 0 7 8 busy_demo" "inj_contents (wk_inject busy_demo) = [9]"
proof -
  have q: "quiet (lq_put 8 local_new) ([] @ [8])" by (rule lq_put_quiet) simp_all
  have j: "queued (fst (inj_push False 9 injector_new)) ([] @ [9])"
    using append_queued [OF new_queued, of 9] by (simp add: inj_push_def new_open)
  have "quiet_inv (lq_put 8 local_new)" "inj_inv (fst (inj_push False 9 injector_new))"
    using q j quiet_inv_iff inj_inv_iff by blast+
  moreover have "\<not> i_closed (fst (inj_push False 9 injector_new))" by (simp add: inj_push_def new_open)
  ultimately show "busy 0 7 8 busy_demo" using quiet_items [OF q]
    by (simp add: busy_def busy_demo_def wk_wf_def workers_new_def Let_def)
  show "inj_contents (wk_inject busy_demo) = [9]" using queued_contents [OF j] by (simp add: busy_demo_def)
qed

theorem local_work_starves_the_injector_witness:
  "\<exists>ts w' s'. busy_rounds 100 0 (local_start 0) busy_demo = Some (Inr (ts, w', s')) \<and> 9 \<notin> set ts
    \<and> inj_contents (wk_inject s') = [9]"
  using local_work_starves_the_injector [OF busy_demo_busy(1), of 100 "local_start 0"] busy_demo_busy(2) by fastforce

text \<open>The tasks of a hand-over in progress.\<close>

definition takeover_tasks :: "takeover \<Rightarrow> task_ref list" where
  "takeover_tasks tk = (case tk_queue tk of None \<Rightarrow> [] | Some q \<Rightarrow> lq_items q) @ opt_list (tk_lifo tk)"

lemma handed_over:
  assumes "wk_wf s" "i < length (wk_queues s)"
  shows "mset (wk_tasks (s\<lparr>wk_queues := (wk_queues s)[i := local_new], wk_lifo := (wk_lifo s)[i := None]\<rparr>))
    + mset (lq_items (wk_queues s ! i)) + mset (opt_list (wk_lifo s ! i)) = mset (wk_tasks s)"
proof -
  note a = wf_set_queue [OF assms quiet_new]
  have i: "i < length (wk_queues (s\<lparr>wk_queues := (wk_queues s)[i := local_new]\<rparr>))" using assms(2) by simp
  note b = wf_set_lifo [OF a(1) i, of None]
  show ?thesis using a(2) b(2) by (simp add: ac_simps)
qed

text \<open>Handing a queue to the takeover thread and back is a round trip: the thread starts from exactly
  the queue and the slot of the blocked worker, the worker gets exactly those of the thread back,
  while a hand-over is in progress every task is in one place, and before the thread returned the
  queue the worker cannot take it.\<close>

theorem takeover_round_trip:
  assumes "wk_wf s" "i < length (wk_queues s)" "wk_wf s2" "length (wk_queues s2) = length (wk_queues s)"
  shows "\<exists>tk. takeover_start i (takeover_begin i s) = Some (s, tk)
    \<and> mset (wk_tasks (fst (takeover_begin i s))) + mset (takeover_tasks (snd (takeover_begin i s))) = mset (wk_tasks s)
    \<and> takeover_end i (takeover_request (s2, tk)) = None
    \<and> map_option fst (takeover_end i (takeover_return i (takeover_request (s2, tk)))) = Some s2
    \<and> mset (wk_tasks (fst (takeover_return i (s2, tk)))) + mset (takeover_tasks (snd (takeover_return i (s2, tk)))) = mset (wk_tasks s2)"
  using handed_over [OF assms(1,2)] handed_over [OF assms(3), of i] assms(2,4) wk_wfD(2) [OF assms(1)] wk_wfD(2) [OF assms(3)]
  by (simp add: takeover_begin_def takeover_start_def takeover_request_def takeover_return_def takeover_end_def takeover_tasks_def ac_simps)

theorem takeover_round_trip_witness:
  "\<exists>tk. takeover_start 0 (takeover_begin 0 busy_demo) = Some (busy_demo, tk)
    \<and> map_option fst (takeover_end 0 (takeover_return 0 (takeover_request (busy_demo, tk)))) = Some busy_demo"
proof -
  have "wk_wf busy_demo" "0 < length (wk_queues busy_demo)" using busy_demo_busy(1) by (simp_all add: busy_def)
  from takeover_round_trip [OF this this(1) refl] show ?thesis by blast
qed

end
