(* ===== verification/Blocking_Pool.thy ===== *)
theory Blocking_Pool
  imports Prelude
begin

text \<open>
  The pool for blocking work of \<open>blocking.rs\<close>: the queue of jobs under its lock, the accounting of idle
  and live threads, and the loop of a pool thread. What a thread does under one lock is one step;
  \<open>num_threads\<close> is decremented after the lock is released, so that is a step of its own. A thread may
  return from its wait at any time, notified, timed out or spuriously, so notifications are not
  tracked. Jobs are named by numbers.
\<close>

section \<open>Model\<close>

type_synonym job = nat

record bpool =
  bp_jobs :: "job list"
  bp_idle :: nat
  bp_closed :: bool
  bp_num_threads :: nat
  bp_max_threads :: nat

definition bpool_new :: "nat \<Rightarrow> bpool" where
  "bpool_new max_threads = \<lparr>bp_jobs = [], bp_idle = 0, bp_closed = False, bp_num_threads = 0, bp_max_threads = max_threads\<rparr>"

text \<open>\<open>submit\<close> says what happens to the job and whether a thread is spawned.\<close>

datatype submit_result = JobCancelled | JobQueued bool

definition submit :: "job \<Rightarrow> bpool \<Rightarrow> bpool \<times> submit_result" where
  "submit j p =
     (if bp_closed p then (p, JobCancelled)
      else
        let p = p\<lparr>bp_jobs := bp_jobs p @ [j]\<rparr>;
            spawn = (bp_idle p = 0 \<and> bp_num_threads p < bp_max_threads p);
            p = (if spawn then p\<lparr>bp_num_threads := bp_num_threads p + 1\<rparr> else p)
        in (p, JobQueued spawn))"

datatype bthread = Looking | Running job | Waiting | Exiting | Gone

text \<open>\<open>thread_loop\<close> from the top of the loop to the job, the wait or the exit.\<close>

definition thread_look :: "bpool \<Rightarrow> bpool \<times> bthread" where
  "thread_look p =
     (case bp_jobs p of
        j # js \<Rightarrow> (p\<lparr>bp_jobs := js\<rparr>, Running j)
      | [] \<Rightarrow> if bp_closed p then (p, Exiting) else (p\<lparr>bp_idle := bp_idle p + 1\<rparr>, Waiting))"

text \<open>The return from the wait.\<close>

definition thread_wake :: "bool \<Rightarrow> bpool \<Rightarrow> bpool \<times> bthread" where
  "thread_wake timed_out p =
     (let p = p\<lparr>bp_idle := bp_idle p - 1\<rparr> in
      if timed_out \<and> bp_jobs p = [] \<and> \<not> bp_closed p then (p, Exiting) else (p, Looking))"

definition thread_exit :: "bpool \<Rightarrow> bpool" where
  "thread_exit p = p\<lparr>bp_num_threads := bp_num_threads p - 1\<rparr>"

text \<open>\<open>shutdown\<close>: the flag, and then, under the lock, the jobs that are cancelled.\<close>

definition shutdown_close :: "bpool \<Rightarrow> bpool \<times> bool" where
  "shutdown_close p = (p\<lparr>bp_closed := True\<rparr>, bp_closed p)"

definition shutdown_drain :: "bpool \<Rightarrow> bpool \<times> job list" where
  "shutdown_drain p = (p\<lparr>bp_jobs := []\<rparr>, bp_jobs p)"

section \<open>The pool and its threads\<close>

record bsys =
  bs_pool :: bpool
  bs_threads :: "bthread list"
  bs_draining :: bool
  bs_submitted :: "job list"
  bs_started :: "job list"
  bs_cancelled :: "job list"

definition bs_start :: "nat \<Rightarrow> bsys" where
  "bs_start m = \<lparr>bs_pool = bpool_new m, bs_threads = [], bs_draining = False, bs_submitted = [], bs_started = [], bs_cancelled = []\<rparr>"

definition started :: "bthread \<Rightarrow> job list" where
  "started t = (case t of Running j \<Rightarrow> [j] | _ \<Rightarrow> [])"

text \<open>All interleavings. With \<open>calm\<close>, no job is submitted while a thread is between its decision to
  leave and the decrement of \<open>num_threads\<close>.\<close>

inductive bs_reach :: "bool \<Rightarrow> nat \<Rightarrow> bsys \<Rightarrow> bool" where
  start: "bs_reach calm m (bs_start m)"
| submit_cancelled: "bs_reach calm m y \<Longrightarrow> submit j (bs_pool y) = (p, JobCancelled) \<Longrightarrow>
    bs_reach calm m (y\<lparr>bs_pool := p, bs_submitted := j # bs_submitted y, bs_cancelled := j # bs_cancelled y\<rparr>)"
| submit_queued: "bs_reach calm m y \<Longrightarrow> (calm \<Longrightarrow> Exiting \<notin> set (bs_threads y)) \<Longrightarrow>
    submit j (bs_pool y) = (p, JobQueued spawn) \<Longrightarrow>
    bs_reach calm m (y\<lparr>bs_pool := p, bs_submitted := j # bs_submitted y,
      bs_threads := bs_threads y @ (if spawn then [Looking] else [])\<rparr>)"
| look: "bs_reach calm m y \<Longrightarrow> i < length (bs_threads y) \<Longrightarrow> bs_threads y ! i = Looking \<Longrightarrow>
    thread_look (bs_pool y) = (p, t) \<Longrightarrow>
    bs_reach calm m (y\<lparr>bs_pool := p, bs_threads := (bs_threads y)[i := t], bs_started := started t @ bs_started y\<rparr>)"
| wake: "bs_reach calm m y \<Longrightarrow> i < length (bs_threads y) \<Longrightarrow> bs_threads y ! i = Waiting \<Longrightarrow>
    thread_wake timed_out (bs_pool y) = (p, t) \<Longrightarrow>
    bs_reach calm m (y\<lparr>bs_pool := p, bs_threads := (bs_threads y)[i := t]\<rparr>)"
| finish: "bs_reach calm m y \<Longrightarrow> i < length (bs_threads y) \<Longrightarrow> bs_threads y ! i = Running j \<Longrightarrow>
    bs_reach calm m (y\<lparr>bs_threads := (bs_threads y)[i := Looking]\<rparr>)"
| exit: "bs_reach calm m y \<Longrightarrow> i < length (bs_threads y) \<Longrightarrow> bs_threads y ! i = Exiting \<Longrightarrow>
    bs_reach calm m (y\<lparr>bs_pool := thread_exit (bs_pool y), bs_threads := (bs_threads y)[i := Gone]\<rparr>)"
| close: "bs_reach calm m y \<Longrightarrow> shutdown_close (bs_pool y) = (p, was) \<Longrightarrow>
    bs_reach calm m (y\<lparr>bs_pool := p, bs_draining := bs_draining y \<or> \<not> was\<rparr>)"
| drain: "bs_reach calm m y \<Longrightarrow> bs_draining y \<Longrightarrow> shutdown_drain (bs_pool y) = (p, js) \<Longrightarrow>
    bs_reach calm m (y\<lparr>bs_pool := p, bs_draining := False, bs_cancelled := js @ bs_cancelled y\<rparr>)"

section \<open>Invariant\<close>

text \<open>The number of threads in a given condition.\<close>

definition threads_in :: "(bthread \<Rightarrow> bool) \<Rightarrow> bthread list \<Rightarrow> nat" where
  "threads_in P ts = length (filter P ts)"

definition serving :: "bthread \<Rightarrow> bool" where
  "serving t \<longleftrightarrow> t \<noteq> Exiting \<and> t \<noteq> Gone"

lemma threads_in_update:
  "i < length ts \<Longrightarrow> threads_in P (ts[i := t]) + of_bool (P (ts ! i)) = threads_in P ts + of_bool (P t)"
proof (induction ts arbitrary: i)
  case (Cons a ts)
  then show ?case using Cons.IH [of "i - 1"] by (cases i) (auto simp: threads_in_def)
qed simp

lemma threads_in_simps [simp]: "threads_in P [] = 0" "threads_in P (ts @ us) = threads_in P ts + threads_in P us"
  "threads_in P [t] = of_bool (P t)"
  by (simp_all add: threads_in_def)

lemma threads_in_pos: "0 < threads_in P ts \<longleftrightarrow> (\<exists>t\<in>set ts. P t)"
  by (auto simp: threads_in_def length_greater_0_conv filter_empty_conv simp del: length_greater_0_conv intro: gr0I)

definition bs_inv :: "bool \<Rightarrow> nat \<Rightarrow> bsys \<Rightarrow> bool" where
  "bs_inv calm m y \<longleftrightarrow> bp_max_threads (bs_pool y) = m
     \<and> bp_num_threads (bs_pool y) = threads_in (\<lambda>t. t \<noteq> Gone) (bs_threads y) \<and> bp_num_threads (bs_pool y) \<le> m
     \<and> bp_idle (bs_pool y) = threads_in (\<lambda>t. t = Waiting) (bs_threads y)
     \<and> mset (bs_submitted y) = mset (bs_started y) + mset (bs_cancelled y) + mset (bp_jobs (bs_pool y))
     \<and> (bp_closed (bs_pool y) \<and> \<not> bs_draining y \<longrightarrow> bp_jobs (bs_pool y) = [])
     \<and> (bs_draining y \<longrightarrow> bp_closed (bs_pool y))
     \<and> (\<not> bp_closed (bs_pool y) \<longrightarrow> bs_cancelled y = [])
     \<and> (calm \<and> 0 < m \<and> bp_jobs (bs_pool y) \<noteq> [] \<longrightarrow> 0 < threads_in serving (bs_threads y))"

lemma bs_reach_inv: "bs_reach calm m y \<Longrightarrow> bs_inv calm m y"
proof (induction rule: bs_reach.induct)
  case (start calm m)
  then show ?case by (simp add: bs_inv_def bs_start_def bpool_new_def)
next
  case (submit_cancelled calm m y j p)
  then show ?case by (auto simp: bs_inv_def submit_def Let_def split: if_splits)
next
  case (submit_queued calm m y j p spawn)
  have "0 < threads_in serving (bs_threads y)"
    if "calm" "0 < m" "\<not> (bp_idle (bs_pool y) = 0 \<and> bp_num_threads (bs_pool y) < m)"
  proof -
    from that have "(\<exists>t\<in>set (bs_threads y). t = Waiting) \<or> (\<exists>t\<in>set (bs_threads y). t \<noteq> Gone)"
      using submit_queued.IH unfolding threads_in_pos [symmetric] bs_inv_def by linarith
    then obtain t where t: "t \<in> set (bs_threads y)" "t \<noteq> Gone" by auto
    moreover have "t \<noteq> Exiting" using submit_queued.hyps(2) that(1) t(1) by auto
    ultimately show ?thesis unfolding threads_in_pos by (auto simp: serving_def)
  qed
  then show ?case using submit_queued.IH submit_queued.hyps(3)
    by (auto simp: bs_inv_def submit_def Let_def serving_def split: if_splits)
next
  case (look calm m y i p t)
  note u = threads_in_update [OF look.hyps(2), of _ t]
  show ?case using look.IH look.hyps(4) u [of "\<lambda>t. t \<noteq> Gone"] u [of "\<lambda>t. t = Waiting"] u [of serving]
    by (auto simp: bs_inv_def thread_look_def started_def serving_def look.hyps(3) split: list.splits if_splits)
next
  case (wake calm m y i timed_out p t)
  have p: "p = (bs_pool y)\<lparr>bp_idle := bp_idle (bs_pool y) - 1\<rparr>" "t \<noteq> Gone" "t \<noteq> Waiting"
    "t = Looking \<or> bp_jobs (bs_pool y) = []"
    using wake.hyps(4) by (auto simp: thread_wake_def Let_def split: if_splits)
  note u = threads_in_update [OF wake.hyps(2), of _ t, unfolded wake.hyps(3)]
  have c: "threads_in (\<lambda>t. t \<noteq> Gone) ((bs_threads y)[i := t]) = threads_in (\<lambda>t. t \<noteq> Gone) (bs_threads y)"
    "threads_in (\<lambda>t. t = Waiting) ((bs_threads y)[i := t]) = threads_in (\<lambda>t. t = Waiting) (bs_threads y) - 1"
    "t = Looking \<Longrightarrow> threads_in serving ((bs_threads y)[i := t]) = threads_in serving (bs_threads y)"
    using u [of "\<lambda>t. t \<noteq> Gone"] u [of "\<lambda>t. t = Waiting"] u [of serving] p(2,3) by (simp_all add: serving_def)
  show ?case using wake.IH p(1,4) c by (auto simp: bs_inv_def)
next
  case (finish calm m y i j)
  note u = threads_in_update [OF finish.hyps(2), of _ Looking]
  show ?case using finish.IH u [of "\<lambda>t. t \<noteq> Gone"] u [of "\<lambda>t. t = Waiting"] u [of serving]
    by (auto simp: bs_inv_def serving_def finish.hyps(3))
next
  case (exit calm m y i)
  note u = threads_in_update [OF exit.hyps(2), of _ Gone]
  show ?case using exit.IH u [of "\<lambda>t. t \<noteq> Gone"] u [of "\<lambda>t. t = Waiting"] u [of serving]
    by (auto simp: bs_inv_def thread_exit_def serving_def exit.hyps(3))
next
  case (close calm m y p was)
  then show ?case by (auto simp: bs_inv_def shutdown_close_def)
next
  case (drain calm m y p js)
  then show ?case by (auto simp: bs_inv_def shutdown_drain_def)
qed

lemma submit_simps:
  "submit j p = (if bp_closed p then (p, JobCancelled)
     else if bp_idle p = 0 \<and> bp_num_threads p < bp_max_threads p
     then (p\<lparr>bp_jobs := bp_jobs p @ [j], bp_num_threads := bp_num_threads p + 1\<rparr>, JobQueued True)
     else (p\<lparr>bp_jobs := bp_jobs p @ [j]\<rparr>, JobQueued False))"
  by (simp add: submit_def Let_def)

section \<open>Properties\<close>

text \<open>C9. In every interleaving each submitted job is started once, cancelled once, or still queued; jobs
  are cancelled only by a shutdown and none is left once it has emptied the queue; the counters are
  exact, so there are never more threads than the limit and no counter wraps.\<close>

theorem blocking_jobs_run_once:
  assumes "bs_reach False m y"
  shows "mset (bs_submitted y) = mset (bs_started y) + mset (bs_cancelled y) + mset (bp_jobs (bs_pool y))
    \<and> (\<not> bp_closed (bs_pool y) \<longrightarrow> bs_cancelled y = [])
    \<and> (bp_closed (bs_pool y) \<and> \<not> bs_draining y \<longrightarrow> bp_jobs (bs_pool y) = [])
    \<and> length (filter (\<lambda>t. t \<noteq> Gone) (bs_threads y)) = bp_num_threads (bs_pool y) \<and> bp_num_threads (bs_pool y) \<le> m
    \<and> length (filter (\<lambda>t. t = Waiting) (bs_threads y)) = bp_idle (bs_pool y)"
  using bs_reach_inv [OF assms] by (simp add: bs_inv_def threads_in_def)

definition job_demo :: "nat \<Rightarrow> bsys" where
  "job_demo m = (bs_start m)\<lparr>bs_pool := (bpool_new m)\<lparr>bp_num_threads := 1, bp_idle := 1\<rparr>, bs_threads := [Waiting],
     bs_submitted := [5], bs_started := [5]\<rparr>"

text \<open>One job has been run and its thread waits.\<close>

lemma job_demo_reach: "0 < m \<Longrightarrow> bs_reach calm m (job_demo m)"
proof -
  assume m: "0 < m"
  have 1: "bs_reach calm m ((bs_start m)\<lparr>bs_pool := (bpool_new m)\<lparr>bp_jobs := [5], bp_num_threads := 1\<rparr>, bs_submitted := [5], bs_threads := [Looking]\<rparr>)"
    using bs_reach.submit_queued [OF bs_reach.start, of calm m 5 "(bpool_new m)\<lparr>bp_jobs := [5], bp_num_threads := 1\<rparr>" True] m
    by (simp add: bs_start_def submit_simps bpool_new_def)
  have 2: "bs_reach calm m ((bs_start m)\<lparr>bs_pool := (bpool_new m)\<lparr>bp_num_threads := 1\<rparr>, bs_submitted := [5], bs_threads := [Running 5], bs_started := [5]\<rparr>)"
    using bs_reach.look [OF 1, of 0 "(bpool_new m)\<lparr>bp_num_threads := 1\<rparr>" "Running 5"]
    by (simp add: thread_look_def started_def bs_start_def bpool_new_def)
  have 3: "bs_reach calm m ((bs_start m)\<lparr>bs_pool := (bpool_new m)\<lparr>bp_num_threads := 1\<rparr>, bs_submitted := [5], bs_threads := [Looking], bs_started := [5]\<rparr>)"
    using bs_reach.finish [OF 2, of 0 5] by (simp add: bs_start_def)
  show ?thesis
    using bs_reach.look [OF 3, of 0 "(bpool_new m)\<lparr>bp_num_threads := 1, bp_idle := 1\<rparr>" Waiting]
    by (simp add: thread_look_def started_def bs_start_def bpool_new_def job_demo_def)
qed

theorem blocking_jobs_run_once_witness:
  "mset (bs_submitted (job_demo 2)) = mset (bs_started (job_demo 2)) + mset (bs_cancelled (job_demo 2)) + mset (bp_jobs (bs_pool (job_demo 2)))
   \<and> bs_started (job_demo 2) = [5]"
  using blocking_jobs_run_once [OF job_demo_reach [of 2 False]] by (simp add: job_demo_def)

text \<open>As long as no job arrives while a thread is about to leave, a queued job has a thread that will
  look at the queue again, and such a thread, when it looks, takes the oldest job.\<close>

theorem queued_job_has_a_thread:
  assumes "bs_reach True m y" "0 < m" "bp_jobs (bs_pool y) = j # js"
  shows "(\<exists>t\<in>set (bs_threads y). t = Looking \<or> t = Waiting \<or> (\<exists>k. t = Running k))
    \<and> snd (thread_look (bs_pool y)) = Running j \<and> (\<forall>timed_out. snd (thread_wake timed_out (bs_pool y)) = Looking)"
proof -
  have "0 < threads_in serving (bs_threads y)" using bs_reach_inv [OF assms(1)] assms(2,3) by (simp add: bs_inv_def)
  then obtain t where t: "t \<in> set (bs_threads y)" "serving t" by (auto simp: threads_in_pos)
  have "t = Looking \<or> t = Waiting \<or> (\<exists>k. t = Running k)" using t(2) by (cases t) (auto simp: serving_def)
  then have "\<exists>t\<in>set (bs_threads y). t = Looking \<or> t = Waiting \<or> (\<exists>k. t = Running k)" using t(1) by blast
  then show ?thesis using assms(3) by (simp add: thread_look_def thread_wake_def Let_def)
qed

definition waiting_job :: bsys where
  "waiting_job = (job_demo 2)\<lparr>bs_pool := (bs_pool (job_demo 2))\<lparr>bp_jobs := [6, 7]\<rparr>, bs_submitted := [7, 6, 5]\<rparr>"

lemma waiting_job_reach: "bs_reach calm 2 waiting_job"
proof -
  have 1: "bs_reach calm 2 ((job_demo 2)\<lparr>bs_pool := (bs_pool (job_demo 2))\<lparr>bp_jobs := [6]\<rparr>, bs_submitted := [6, 5]\<rparr>)"
    using bs_reach.submit_queued [OF job_demo_reach [of 2 calm], of 6 "(bs_pool (job_demo 2))\<lparr>bp_jobs := [6]\<rparr>" False]
    by (simp add: job_demo_def submit_simps bpool_new_def bs_start_def)
  show ?thesis
    using bs_reach.submit_queued [OF 1, of 7 "(bs_pool (job_demo 2))\<lparr>bp_jobs := [6, 7]\<rparr>" False]
    by (simp add: job_demo_def submit_simps bpool_new_def bs_start_def waiting_job_def)
qed

theorem queued_job_has_a_thread_witness:
  "snd (thread_look (bs_pool waiting_job)) = Running 6"
  using queued_job_has_a_thread [OF waiting_job_reach [of True], of 6 "[7]"]
  by (simp add: waiting_job_def job_demo_def)

text \<open>Jobs submitted in a burst wait for each other: both submissions count the one idle thread, so no
  thread is spawned for the second job although the limit allows one.\<close>

lemma burst_waits_below_the_limit:
  "\<exists>y. bs_reach True 2 y \<and> bp_jobs (bs_pool y) = [7] \<and> bs_threads y = [Running 6] \<and> bp_num_threads (bs_pool y) < bp_max_threads (bs_pool y)"
proof -
  let ?q = "(bs_pool (job_demo 2))\<lparr>bp_jobs := [6, 7], bp_idle := 0\<rparr>"
  have 1: "bs_reach True 2 (waiting_job\<lparr>bs_pool := ?q, bs_threads := [Looking]\<rparr>)"
    using bs_reach.wake [OF waiting_job_reach [of True], of 0 False ?q Looking]
    by (simp add: waiting_job_def job_demo_def thread_wake_def Let_def bpool_new_def bs_start_def)
  have "bs_reach True 2 (waiting_job\<lparr>bs_pool := ?q\<lparr>bp_jobs := [7]\<rparr>, bs_threads := [Running 6], bs_started := [6, 5]\<rparr>)"
    using bs_reach.look [OF 1, of 0 "?q\<lparr>bp_jobs := [7]\<rparr>" "Running 6"]
    by (simp add: waiting_job_def job_demo_def thread_look_def started_def bpool_new_def bs_start_def)
  then show ?thesis by (intro exI) (auto simp: waiting_job_def job_demo_def bpool_new_def)
qed

text \<open>A job can be stranded: submitted while the last thread is between its decision to leave and the
  decrement of \<open>num_threads\<close>, with the limit reached, it stays queued in an open pool that has no
  thread at all.\<close>

theorem blocking_job_can_be_stranded:
  "\<exists>y. bs_reach False 1 y \<and> bp_jobs (bs_pool y) = [7] \<and> \<not> bp_closed (bs_pool y)
    \<and> bp_num_threads (bs_pool y) = 0 \<and> filter serving (bs_threads y) = []"
proof -
  let ?y = "job_demo 1"
  let ?q = "(bs_pool ?y)\<lparr>bp_idle := 0\<rparr>"
  have 1: "bs_reach False 1 (?y\<lparr>bs_pool := ?q, bs_threads := [Exiting]\<rparr>)"
    using bs_reach.wake [OF job_demo_reach [of 1 False], of 0 True ?q Exiting]
    by (simp add: job_demo_def thread_wake_def Let_def bpool_new_def bs_start_def)
  have 2: "bs_reach False 1 (?y\<lparr>bs_pool := ?q\<lparr>bp_jobs := [7]\<rparr>, bs_threads := [Exiting], bs_submitted := [7, 5]\<rparr>)"
    using bs_reach.submit_queued [OF 1, of 7 "?q\<lparr>bp_jobs := [7]\<rparr>" False]
    by (simp add: job_demo_def submit_simps bpool_new_def bs_start_def)
  have "bs_reach False 1 (?y\<lparr>bs_pool := ?q\<lparr>bp_jobs := [7], bp_num_threads := 0\<rparr>, bs_threads := [Gone], bs_submitted := [7, 5]\<rparr>)"
    using bs_reach.exit [OF 2, of 0] by (simp add: job_demo_def thread_exit_def bpool_new_def bs_start_def)
  then show ?thesis by (intro exI) (auto simp: job_demo_def bpool_new_def serving_def)
qed

end
