(* ===== verification/Futures_Unordered.thy ===== *)
theory Futures_Unordered
  imports Coop "HOL-Library.AList"
begin

text \<open>
  The set of futures of \<open>future/unordered.rs\<close> and \<open>JoinSet\<close> of \<open>future/join_set.rs\<close>: members with ids, the
  queue of ready ids that the wakers of the members fill, and the loop that polls the ready members.
  What a member does when it is polled is a parameter \<open>mp\<close>: it gets the id (which names its waker),
  the member and an environment, and answers the new environment, the member, the result, and the ids
  whose wakers it called during the poll, in order. The loop is a partial function: \<open>None\<close> is not
  returning.
\<close>

section \<open>Model\<close>

record 'f futures_unordered =
  fu_entries :: "(nat \<times> 'f) list"
  fu_next_id :: nat
  fu_ready :: "nat list"
  fu_outer :: "waker option"

definition fu_new :: "'f futures_unordered" where
  "fu_new = \<lparr>fu_entries = [], fu_next_id = 0, fu_ready = [], fu_outer = None\<rparr>"

definition entry_wake :: "nat \<Rightarrow> 'f futures_unordered \<Rightarrow> 'f futures_unordered \<times> waker list" where
  "entry_wake i s = (s\<lparr>fu_ready := fu_ready s @ [i], fu_outer := None\<rparr>, wakes_of (fu_outer s))"

definition fu_push :: "'f \<Rightarrow> 'f futures_unordered \<Rightarrow> 'f futures_unordered" where
  "fu_push f s =
     s\<lparr>fu_next_id := fu_next_id s + 1, fu_ready := fu_ready s @ [fu_next_id s],
       fu_entries := AList.update (fu_next_id s) f (fu_entries s)\<rparr>"

definition fu_len :: "'f futures_unordered \<Rightarrow> nat" where
  "fu_len s = length (fu_entries s)"

definition fu_clear :: "'f futures_unordered \<Rightarrow> 'f futures_unordered" where
  "fu_clear s = s\<lparr>fu_entries := [], fu_ready := []\<rparr>"

text \<open>The wakes of one member's poll, in order.\<close>

primrec entry_wakes :: "nat list \<Rightarrow> 'f futures_unordered \<Rightarrow> 'f futures_unordered \<times> waker list" where
  "entry_wakes [] s = (s, [])"
| "entry_wakes (i # is) s = (case entry_wake i s of (s, ws) \<Rightarrow> (case entry_wakes is s of (s, ws') \<Rightarrow> (s, ws @ ws')))"

type_synonym ('f, 'e, 'o) member_poll = "nat \<Rightarrow> 'f \<Rightarrow> 'e \<Rightarrow> 'e \<times> 'f \<times> 'o poll \<times> nat list"

partial_function (option) fu_loop ::
  "('f, 'e, 'o) member_poll \<Rightarrow> 'f futures_unordered \<Rightarrow> 'e \<Rightarrow> waker list \<Rightarrow> ('e \<times> 'f futures_unordered \<times> 'o option poll \<times> waker list) option" where
  "fu_loop mp s e ws =
     (case fu_ready s of
        [] \<Rightarrow> Some (e, s, if fu_entries s = [] then Ready None else Pending, ws)
      | i # is \<Rightarrow>
          let s = s\<lparr>fu_ready := is\<rparr> in
          (case map_of (fu_entries s) i of
             None \<Rightarrow> fu_loop mp s e ws
           | Some f \<Rightarrow>
               (case mp i f e of (e, f, r, woken) \<Rightarrow>
                  (case entry_wakes woken (s\<lparr>fu_entries := AList.update i f (fu_entries s)\<rparr>) of (s, ws') \<Rightarrow>
                     (case r of
                        Ready out \<Rightarrow> Some (e, s\<lparr>fu_entries := AList.delete i (fu_entries s)\<rparr>, Ready (Some out), ws @ ws')
                      | Pending \<Rightarrow> fu_loop mp s e (ws @ ws'))))))"

definition poll_next_inner ::
  "('f, 'e, 'o) member_poll \<Rightarrow> waker \<Rightarrow> 'f futures_unordered \<Rightarrow> 'e \<Rightarrow> ('e \<times> 'f futures_unordered \<times> 'o option poll \<times> waker list) option" where
  "poll_next_inner mp cx s e = fu_loop mp (s\<lparr>fu_outer := Some cx\<rparr>) e []"

text \<open>\<open>Future::poll\<close> of the set; \<open>Inl\<close> is the \<open>unreachable!\<close> on an empty set.\<close>

definition fu_poll ::
  "('f, 'e, 'o) member_poll \<Rightarrow> waker \<Rightarrow> 'f futures_unordered \<Rightarrow> 'e \<Rightarrow> ('e \<times> 'f futures_unordered \<times> (unit + 'o poll) \<times> waker list) option" where
  "fu_poll mp cx s e =
     map_option (\<lambda>(e, s, r, ws). (e, s, case r of Ready (Some out) \<Rightarrow> Inr (Ready out) | Ready None \<Rightarrow> Inl () | Pending \<Rightarrow> Inr Pending, ws))
       (poll_next_inner mp cx s e)"

text \<open>\<open>JoinSet\<close>: the handles of the tasks are the members; what is aborted is returned.\<close>

definition join_set_spawn :: "'h \<Rightarrow> 'h futures_unordered \<Rightarrow> 'h futures_unordered" where
  "join_set_spawn h s = fu_push h s"

definition join_set_abort_all :: "'h futures_unordered \<Rightarrow> 'h futures_unordered \<times> 'h list" where
  "join_set_abort_all s = (fu_clear s, map snd (fu_entries s))"

definition join_set_drop :: "'h futures_unordered \<Rightarrow> 'h list" where
  "join_set_drop s = map snd (fu_entries s)"

text \<open>The strong count of the payload behind a member's waker, under the entries of its vtable.\<close>

datatype waker_op = WakerClone | WakerWake | WakerWakeByRef | WakerDrop

definition entry_waker_op :: "waker_op \<Rightarrow> nat \<Rightarrow> nat" where
  "entry_waker_op op strong =
     (case op of WakerClone \<Rightarrow> strong + 1 | WakerWake \<Rightarrow> strong | WakerWakeByRef \<Rightarrow> strong | WakerDrop \<Rightarrow> strong - 1)"

section \<open>Wakes\<close>

lemma entry_wakes_fields:
  assumes "entry_wakes is s = (s', ws)"
  shows "fu_ready s' = fu_ready s @ is" "fu_entries s' = fu_entries s" "fu_next_id s' = fu_next_id s"
    "fu_outer s = Some w \<Longrightarrow> fu_outer s' = Some w \<or> w \<in> set ws"
  using assms by (induction "is" arbitrary: s s' ws) (auto simp: entry_wake_def wakes_of_def split: prod.splits option.splits)

text \<open>Ids are below the counter and each is in the map at most once.\<close>

definition fu_inv :: "'f futures_unordered \<Rightarrow> bool" where
  "fu_inv s \<longleftrightarrow> distinct (map fst (fu_entries s)) \<and> (\<forall>i\<in>set (map fst (fu_entries s)). i < fu_next_id s)"

lemma fu_inv_new: "fu_inv fu_new"
  by (simp add: fu_inv_def fu_new_def)

lemma keys_update: "i \<in> set (map fst xs) \<Longrightarrow> map fst (AList.update i f xs) = map fst xs"
  by (simp add: update_keys)

lemma fu_inv_push: "fu_inv s \<Longrightarrow> fu_inv (fu_push f s)"
  by (auto simp: fu_inv_def fu_push_def update_keys distinct_update less_Suc_eq)

section \<open>The loop ends\<close>

text \<open>What the loop relies on: the members call wakers of the set during their polls only as often as
  the environment allows, by a measure \<open>\<mu>\<close>.\<close>

definition wakes_bounded :: "('f, 'e, 'o) member_poll \<Rightarrow> ('e \<Rightarrow> nat) \<Rightarrow> bool" where
  "wakes_bounded mp \<mu> \<longleftrightarrow> (\<forall>i f e e' f' r woken. mp i f e = (e', f', r, woken) \<longrightarrow> length woken + \<mu> e' \<le> \<mu> e)"

definition poll_ok :: "waker \<Rightarrow> 'f futures_unordered \<Rightarrow> 'f futures_unordered \<Rightarrow> 'o option poll \<Rightarrow> waker list \<Rightarrow> bool" where
  "poll_ok cx s s' r ws \<longleftrightarrow> fu_next_id s' = fu_next_id s \<and>
     (case r of
        Pending \<Rightarrow> map fst (fu_entries s') = map fst (fu_entries s) \<and> fu_entries s' \<noteq> [] \<and> fu_ready s' = []
          \<and> (fu_outer s' = Some cx \<or> cx \<in> set ws)
      | Ready None \<Rightarrow> fu_entries s = [] \<and> fu_entries s' = []
      | Ready (Some _) \<Rightarrow> \<exists>i\<in>set (map fst (fu_entries s)). map fst (fu_entries s') = removeAll i (map fst (fu_entries s)))"

lemma poll_ok_cong:
  assumes "fu_next_id s1 = fu_next_id s" "map fst (fu_entries s1) = map fst (fu_entries s)"
  shows "poll_ok cx s1 s' r ws = poll_ok cx s s' r ws"
proof -
  have "fu_entries s1 = [] \<longleftrightarrow> fu_entries s = []" using assms(2) by (metis map_is_Nil_conv)
  then show ?thesis unfolding poll_ok_def assms by (cases r) (auto split: option.splits)
qed

lemma fu_loop_ends:
  assumes "wakes_bounded mp \<mu>" "fu_outer s = Some cx \<or> cx \<in> set ws"
  shows "\<exists>e' s' r ws'. fu_loop mp s e ws = Some (e', s', r, ws') \<and> poll_ok cx s s' r ws'"
  using assms(2)
proof (induction "length (fu_ready s) + \<mu> e" arbitrary: s e ws rule: less_induct)
  case less
  show ?case
  proof (cases "fu_ready s")
    case Nil
    then show ?thesis using less.prems by (subst fu_loop.simps) (auto simp: poll_ok_def)
  next
    case (Cons i "is")
    let ?s = "s\<lparr>fu_ready := is\<rparr>"
    show ?thesis
    proof (cases "map_of (fu_entries s) i")
      case None
      then have "fu_loop mp s e ws = fu_loop mp ?s e ws" using Cons by (subst fu_loop.simps) simp
      then show ?thesis using less.hyps [of ?s e ws] less.prems Cons by (simp add: poll_ok_cong [of ?s s])
    next
      case (Some f)
      obtain e1 f1 r woken where m: "mp i f e = (e1, f1, r, woken)" by (cases "mp i f e")
      let ?t = "?s\<lparr>fu_entries := AList.update i f1 (fu_entries s)\<rparr>"
      obtain s1 ws1 where w: "entry_wakes woken ?t = (s1, ws1)" by fastforce
      note fs = entry_wakes_fields [OF w]
      have k: "i \<in> set (map fst (fu_entries s))" using map_of_SomeD [OF Some] by force
      have keys: "map fst (fu_entries s1) = map fst (fu_entries s)" using fs(2) keys_update [OF k] by simp
      show ?thesis
      proof (cases r)
        case (Ready out)
        have "fu_loop mp s e ws = Some (e1, s1\<lparr>fu_entries := AList.delete i (fu_entries s1)\<rparr>, Ready (Some out), ws @ ws1)"
          using Cons Some m w Ready by (subst fu_loop.simps) simp
        then show ?thesis using k keys fs(3) by (auto simp: poll_ok_def delete_keys)
      next
        case Pending
        have "length woken + \<mu> e1 \<le> \<mu> e" using assms(1) m unfolding wakes_bounded_def by blast
        then have lt: "length (fu_ready s1) + \<mu> e1 < length (fu_ready s) + \<mu> e" using fs(1) Cons by simp
        have o: "fu_outer s1 = Some cx \<or> cx \<in> set (ws @ ws1)" using less.prems fs(4) [of cx] by auto
        have "fu_loop mp s e ws = fu_loop mp s1 e1 (ws @ ws1)"
          using Cons Some m w Pending by (subst fu_loop.simps) simp
        then show ?thesis using less.hyps [OF lt o] fs(3) by (simp add: poll_ok_cong [OF _ keys])
      qed
    qed
  qed
qed

section \<open>The loop need not end\<close>

text \<open>Members that are resource futures: each poll starts with \<open>poll_proceed\<close> on the budget of the task.\<close>

definition coop_members :: "(nat \<Rightarrow> 'f \<Rightarrow> 'f \<times> 'o poll \<times> nat list) \<Rightarrow> ('f, budget, 'o) member_poll" where
  "coop_members body i f b = coop_poll b i f (body i f)"

lemma spent_loop:
  assumes "fu_loop mp s e ws = Some y"
  shows "mp = coop_members body \<longrightarrow> e = Some 0 \<longrightarrow> \<not> (\<exists>i\<in>set (fu_ready s). i \<in> set (map fst (fu_entries s)))"
proof (induction mp s e ws y rule: fu_loop.raw_induct)
  case 2
  show ?case by (rule assms)
next
  case (1 loop mp s e ws y)
  note IH = "1"(1) and step = "1"(2)
  show ?case
  proof (intro impI)
    assume mp: "mp = coop_members body" and e: "e = Some 0"
    show "\<not> (\<exists>i\<in>set (fu_ready s). i \<in> set (map fst (fu_entries s)))"
    proof (cases "fu_ready s")
      case (Cons i "is")
      let ?s = "s\<lparr>fu_ready := is\<rparr>"
      show ?thesis
      proof (cases "map_of (fu_entries s) i")
        case None
        then have "loop mp ?s e ws = Some y" using step Cons by simp
        from IH [OF this] show ?thesis using None Cons mp e by (auto simp: map_of_eq_None_iff)
      next
        case (Some f)
        let ?t = "?s\<lparr>fu_entries := AList.update i f (fu_entries s)\<rparr>"
        have k: "i \<in> set (map fst (fu_entries s))" using map_of_SomeD [OF Some] by force
        obtain s1 ws1 where w: "entry_wakes [i] ?t = (s1, ws1)" by fastforce
        have "mp i f e = (e, f, Pending, [i])" using mp e by (simp add: coop_members_def)
        then have "loop mp s1 e (ws @ ws1) = Some y" using step Cons Some w by simp
        moreover have "i \<in> set (fu_ready s1)" "i \<in> set (map fst (fu_entries s1))"
          using entry_wakes_fields [OF w] keys_update [OF k, of f] k by auto
        ultimately show ?thesis using IH mp e by blast
      qed
    qed simp
  qed
qed

section \<open>Properties\<close>


text \<open>A member that yields a given number of times: each poll wakes itself.\<close>

definition yielding :: "(nat, nat, nat) member_poll" where
  "yielding i f e = (if f = 0 \<or> e = 0 then (e, f, Ready i, []) else (e - 1, f - 1, Pending, [i]))"


text \<open>With the cooperative budget of the task spent, polling a set that has a ready member never
  returns when its members are resource futures: each poll of a member puts it back into the ready
  queue, and the loop takes it out again.\<close>

theorem unordered_poll_spins_without_budget:
  assumes "i \<in> set (fu_ready s)" "i \<in> set (map fst (fu_entries s))"
  shows "poll_next_inner (coop_members body) cx s (Some 0) = None"
proof (rule ccontr)
  assume "poll_next_inner (coop_members body) cx s (Some 0) \<noteq> None"
  then obtain y where "fu_loop (coop_members body) (s\<lparr>fu_outer := Some cx\<rparr>) (Some 0) [] = Some y"
    unfolding poll_next_inner_def by auto
  from spent_loop [OF this, of body] show False using assms by auto
qed

theorem unordered_poll_spins_without_budget_witness:
  "poll_next_inner (coop_members (\<lambda>i f. (f, Ready f, []))) 9 (fu_push 7 fu_new) (Some 0) = None"
  by (rule unordered_poll_spins_without_budget [of 0]) (simp_all add: fu_push_def fu_new_def)

text \<open>Dropping or aborting a join set aborts every task in it, each once.\<close>

lemma join_set_aborts_all:
  assumes "fu_inv s"
  shows "snd (join_set_abort_all s) = join_set_drop s" "length (join_set_drop s) = fu_len s" "fu_len (fst (join_set_abort_all s)) = 0"
    "fu_inv (join_set_spawn h s)" "join_set_drop (join_set_spawn h s) = join_set_drop s @ [h]"
proof -
  have n: "fu_next_id s \<notin> fst ` set (fu_entries s)" using assms by (auto simp: fu_inv_def)
  show "snd (join_set_abort_all s) = join_set_drop s" "length (join_set_drop s) = fu_len s" "fu_len (fst (join_set_abort_all s)) = 0"
    by (simp_all add: join_set_abort_all_def join_set_drop_def fu_len_def fu_clear_def)
  show "fu_inv (join_set_spawn h s)" using assms by (simp add: join_set_spawn_def fu_inv_push)
  show "join_set_drop (join_set_spawn h s) = join_set_drop s @ [h]"
    using n by (simp add: join_set_spawn_def join_set_drop_def fu_push_def update_fresh)
qed

text \<open>Waking a member's waker by value leaks: the clone and the wake that consumes it leave the count
  one higher, with no waker more.\<close>

lemma wake_by_value_leaks: "entry_waker_op WakerWake (entry_waker_op WakerClone n) = n + 1"
  "entry_waker_op WakerDrop (entry_waker_op WakerClone n) = n"
  by (simp_all add: entry_waker_op_def)

end
