(* ===== verification/Current_Thread.thy ===== *)
theory Current_Thread
  imports Prelude
begin

text \<open>
  The single-threaded scheduler of \<open>scheduler/current_thread.rs\<close>: its three queues, the routing of wakes,
  the choice of the next task, and the protocol by which \<open>block_on\<close> goes to sleep and is woken. Tasks
  and threads are named by numbers.
\<close>

section \<open>Model\<close>

definition CT_GLOBAL_QUEUE_INTERVAL :: u32 where "CT_GLOBAL_QUEUE_INTERVAL = 61"

record cthread =
  cu_local :: "nat list"
  cu_injection :: "nat list"
  cu_deferred :: "nat list"
  cu_owner :: "nat option"
  cu_owner_thread :: nat
  cu_unparker :: "nat option"
  cu_tick :: u32
  cu_closed :: bool
  cu_shutdown_complete :: bool

definition cthread_new :: "nat \<Rightarrow> cthread" where
  "cthread_new current =
     \<lparr>cu_local = [], cu_injection = [], cu_deferred = [], cu_owner = None, cu_owner_thread = current, cu_unparker = None,
      cu_tick = 0, cu_closed = False, cu_shutdown_complete = False\<rparr>"

definition is_owner_thread :: "nat \<Rightarrow> cthread \<Rightarrow> bool" where
  "is_owner_thread current s \<longleftrightarrow> cu_owner s = Some current \<or> (cu_closed s \<and> cu_owner_thread s = current)"

text \<open>\<open>enqueue\<close> up to the unpark: where the task went. A task that went to the injection queue is
  followed by \<open>unpark_owner\<close>, which names the thread that is unparked.\<close>

datatype enqueued = EnqDropped | EnqLocal | EnqInjected

definition enqueue :: "nat \<Rightarrow> nat \<Rightarrow> cthread \<Rightarrow> cthread \<times> enqueued" where
  "enqueue current t s =
     (if cu_closed s \<and> cu_shutdown_complete s then (s, EnqDropped)
      else if cu_owner s = Some current \<and> \<not> cu_closed s then (s\<lparr>cu_local := cu_local s @ [t]\<rparr>, EnqLocal)
      else (s\<lparr>cu_injection := cu_injection s @ [t]\<rparr>, EnqInjected))"

definition unpark_owner :: "cthread \<Rightarrow> nat option" where
  "unpark_owner s = cu_unparker s"

text \<open>\<open>VecDeque::pop_front\<close>.\<close>

definition pop_front_deque :: "'a list \<Rightarrow> 'a option \<times> 'a list" where
  "pop_front_deque q = (case q of [] \<Rightarrow> (None, []) | x # xs \<Rightarrow> (Some x, xs))"

definition next_task :: "cthread \<Rightarrow> nat option \<times> cthread" where
  "next_task s =
     (let tick = cu_tick s + 1;
          s = s\<lparr>cu_tick := tick\<rparr>
      in case pop_front_deque (cu_deferred s) of
           (Some t, q) \<Rightarrow> (Some t, s\<lparr>cu_deferred := q\<rparr>)
         | (None, _) \<Rightarrow>
             (case (if tick mod CT_GLOBAL_QUEUE_INTERVAL = 0 then pop_front_deque (cu_injection s) else (None, cu_injection s)) of
                (Some t, q) \<Rightarrow> (Some t, s\<lparr>cu_injection := q\<rparr>)
              | (None, _) \<Rightarrow>
                  (case pop_front_deque (cu_local s) of
                     (Some t, q) \<Rightarrow> (Some t, s\<lparr>cu_local := q\<rparr>)
                   | (None, _) \<Rightarrow>
                       (case pop_front_deque (cu_injection s) of (r, q) \<Rightarrow> (r, s\<lparr>cu_injection := q\<rparr>)))))"

text \<open>\<open>block_on\<close>: taking the runtime, and the cleanup guard. \<open>None\<close> is the failed assertion.\<close>

definition block_on_begin :: "nat \<Rightarrow> cthread \<Rightarrow> cthread option" where
  "block_on_begin current s =
     (if cu_owner s \<noteq> None then None else Some (s\<lparr>cu_owner := Some current, cu_unparker := Some current\<rparr>))"

definition block_on_cleanup :: "nat \<Rightarrow> cthread \<Rightarrow> cthread" where
  "block_on_cleanup current s =
     (let s = s\<lparr>cu_unparker := None\<rparr> in if cu_owner s = Some current then s\<lparr>cu_owner := None\<rparr> else s)"

text \<open>The check of the queues before the thread parks.\<close>

definition has_queued_work :: "cthread \<Rightarrow> bool" where
  "has_queued_work s \<longleftrightarrow> cu_deferred s \<noteq> [] \<or> cu_local s \<noteq> [] \<or> cu_injection s \<noteq> []"

text \<open>\<open>defer_dealloc\<close>: \<open>None\<close> when the entry is leaked.\<close>

definition defer_dealloc :: "nat \<Rightarrow> nat \<Rightarrow> cthread \<Rightarrow> cthread option" where
  "defer_dealloc current t s =
     (if cu_closed s \<and> cu_shutdown_complete s \<and> \<not> is_owner_thread current s then None
      else Some (s\<lparr>cu_deferred := cu_deferred s @ [t]\<rparr>))"

text \<open>The order in which \<open>shutdown\<close> empties the queues.\<close>

definition shutdown_next :: "cthread \<Rightarrow> nat option \<times> cthread" where
  "shutdown_next s =
     (case pop_front_deque (cu_deferred s) of
        (Some t, q) \<Rightarrow> (Some t, s\<lparr>cu_deferred := q\<rparr>)
      | (None, _) \<Rightarrow>
          (case pop_front_deque (cu_local s) of
             (Some t, q) \<Rightarrow> (Some t, s\<lparr>cu_local := q\<rparr>)
           | (None, _) \<Rightarrow>
               (case pop_front_deque (cu_injection s) of (r, q) \<Rightarrow> (r, s\<lparr>cu_injection := q\<rparr>))))"

definition cu_tasks :: "cthread \<Rightarrow> nat list" where
  "cu_tasks s = cu_deferred s @ cu_local s @ cu_injection s"

section \<open>Choosing the next task\<close>

lemma pop_front_deque_simps [simp]: "pop_front_deque [] = (None, [])" "pop_front_deque (x # xs) = (Some x, xs)"
  by (simp_all add: pop_front_deque_def)

lemma next_task_tick [simp]: "cu_tick (snd (next_task s)) = cu_tick s + 1"
  by (auto simp: next_task_def Let_def split: prod.splits option.splits)

lemma next_task_cases:
  "next_task s =
     (let tick = cu_tick s + 1; s' = s\<lparr>cu_tick := tick\<rparr> in
      case cu_deferred s of
        t # ts \<Rightarrow> (Some t, s'\<lparr>cu_deferred := ts\<rparr>)
      | [] \<Rightarrow>
          if tick mod 61 = 0 \<and> cu_injection s \<noteq> [] \<or> cu_local s = [] \<and> cu_injection s \<noteq> []
          then (Some (hd (cu_injection s)), s'\<lparr>cu_injection := tl (cu_injection s)\<rparr>)
          else if cu_local s \<noteq> [] then (Some (hd (cu_local s)), s'\<lparr>cu_local := tl (cu_local s)\<rparr>)
          else (None, s'))"
  by (cases "cu_deferred s"; cases "cu_injection s"; cases "cu_local s")
    (auto simp: next_task_def Let_def CT_GLOBAL_QUEUE_INTERVAL_def)

text \<open>Rounds of the scheduler, with whatever arrives before each: the tasks taken, in order.\<close>

primrec cu_rounds :: "(nat list \<times> nat list) list \<Rightarrow> cthread \<Rightarrow> nat list \<times> cthread" where
  "cu_rounds [] s = ([], s)"
| "cu_rounds (arrival # as) s =
     (let s = s\<lparr>cu_local := cu_local s @ fst arrival, cu_injection := cu_injection s @ snd arrival\<rparr>;
          (r, s) = next_task s;
          (ts, s) = cu_rounds as s
      in ((case r of None \<Rightarrow> [] | Some t \<Rightarrow> [t]) @ ts, s))"

text \<open>Of any 61 consecutive values of the wrapping counter one is a multiple of 61: 0 follows the last
  value, and 57 values lie between it and the last multiple before.\<close>

definition due_in :: "u32 \<Rightarrow> nat" where
  "due_in tick = (let n = unat tick in if n + (61 - n mod 61) < 2 ^ 32 then 61 - n mod 61 else 2 ^ 32 - n)"

lemma due_in_bounds: "1 \<le> due_in tick" "due_in tick \<le> 61"
proof -
  have n: "unat tick < 2 ^ 32" by (rule order_less_le_trans [OF unsigned_less]) simp
  define k where "k = unat tick mod 61"
  have "k < 61" by (simp add: k_def)
  then show "1 \<le> due_in tick" "due_in tick \<le> 61" using n by (auto simp: due_in_def Let_def simp flip: k_def)
qed

lemma due_step:
  "if due_in tick = 1 then (tick + 1) mod 61 = 0 else due_in (tick + 1) = due_in tick - 1"
proof -
  let ?n = "unat tick"
  have n: "?n < 2 ^ 32" by (rule order_less_le_trans [OF unsigned_less]) simp
  show ?thesis
  proof (cases "?n = 2 ^ 32 - 1")
    case True
    then have "unat tick = unat (- 1 :: u32)" by (simp add: unsigned_minus_1_eq_mask mask_eq_exp_minus_1)
    then have "tick = - 1" by (simp only: unsigned_word_eqI)
    moreover have "due_in tick = 1" unfolding due_in_def Let_def True by simp
    ultimately show ?thesis by simp
  next
    case False
    then have s: "unat (tick + 1) = ?n + 1" using n by (simp add: unat_word_ariths)
    have m: "(?n + 1) mod 61 = (if ?n mod 61 = 60 then 0 else ?n mod 61 + 1)" by (simp add: mod_Suc)
    have z: "(tick + 1) mod 61 = 0 \<longleftrightarrow> (?n + 1) mod 61 = 0" using s by (simp add: word_unat_eq_iff unat_mod_distrib)
    show ?thesis using n False m z s unfolding due_in_def Let_def by (auto split: if_splits)
  qed
qed

text \<open>What one choice does to the injection queue, with no deferred entry.\<close>

lemma next_task_injection:
  assumes "cu_deferred s = []" "cu_injection s = x # xs" "next_task s = (r, s')"
  shows "cu_deferred s' = []" "cu_tick s' = cu_tick s + 1"
    "r = Some x \<and> cu_injection s' = xs \<or> cu_injection s' = x # xs \<and> (cu_tick s + 1) mod 61 \<noteq> 0"
  using assms by (auto simp: next_task_cases Let_def split: if_splits)

lemma cu_rounds_serve:
  assumes "cu_deferred s = []" "cu_injection s = xs @ t # ys" "due_in (cu_tick s) + 61 * length xs \<le> length as"
  shows "t \<in> set (fst (cu_rounds as s))"
  using assms
proof (induction as arbitrary: s xs ys)
  case Nil
  then show ?case using due_in_bounds(1) [of "cu_tick s"] by simp
next
  case (Cons a as)
  let ?s = "s\<lparr>cu_local := cu_local s @ fst a, cu_injection := cu_injection s @ snd a\<rparr>"
  obtain r s' where n: "next_task ?s = (r, s')" by fastforce
  have i: "cu_injection ?s = xs @ t # (ys @ snd a)" "cu_deferred ?s = []" using Cons.prems by simp_all
  note b = due_in_bounds [of "cu_tick s"] due_in_bounds [of "cu_tick s + 1"]
  have goal: "t \<in> set (fst (cu_rounds (a # as) s)) \<longleftrightarrow> r = Some t \<or> t \<in> set (fst (cu_rounds as s'))"
    using n by (auto simp: split_beta Let_def split: option.splits)
  obtain x zs where z: "cu_injection ?s = x # zs" by (metis i(1) append_is_Nil_conv list.exhaust)
  note f = next_task_injection [OF i(2) z n]
  have tk: "cu_tick s' = cu_tick s + 1" using f(2) by simp
  from f(3) show ?case
  proof
    assume p: "r = Some x \<and> cu_injection s' = zs"
    show ?thesis
    proof (cases xs)
      case Nil
      then show ?thesis using goal p z i(1) by simp
    next
      case (Cons x' xs')
      then have "cu_injection s' = xs' @ t # (ys @ snd a)" using p z i(1) by simp
      moreover have "due_in (cu_tick s') + 61 * length xs' \<le> length as"
        using Cons.prems(3) Cons b tk by simp
      ultimately show ?thesis using goal Cons.IH [OF f(1)] by blast
    qed
  next
    assume p: "cu_injection s' = x # zs \<and> (cu_tick ?s + 1) mod 61 \<noteq> 0"
    then have "due_in (cu_tick s + 1) = due_in (cu_tick s) - 1" using due_step [of "cu_tick s"] by (simp split: if_splits)
    then have "due_in (cu_tick s') + 61 * length xs \<le> length as" using Cons.prems(3) b tk by simp
    moreover have "cu_injection s' = xs @ t # (ys @ snd a)" using p z i(1) by simp
    ultimately show ?thesis using goal Cons.IH [OF f(1)] by blast
  qed
qed

section \<open>Going to sleep\<close>

text \<open>
  \<open>block_on\<close> by its phases: at the top of the loop (before \<open>woken\<close> is swapped and the root future polled),
  choosing and running tasks, idle after \<open>next_task\<close> found none (timers fire here), committed to park
  after the check of the queues, and parked. \<open>token\<close> is the park token of the thread, \<open>unparks\<close> counts
  the wakes that have stored their work but not yet called \<open>unpark\<close>. The thread is number 0; wakes
  come from it or from others.
\<close>

datatype sleep_phase = Top | Choosing | Idle | Committed | Parked

record cu_sys =
  us_sched :: cthread
  us_phase :: sleep_phase
  us_token :: bool
  us_unparks :: nat
  us_woken :: bool

inductive us_reach :: "cu_sys \<Rightarrow> bool" where
  start: "block_on_begin 0 s = Some s' \<Longrightarrow> \<not> cu_closed s \<Longrightarrow>
    us_reach \<lparr>us_sched = s', us_phase = Top, us_token = False, us_unparks = 0, us_woken = True\<rparr>"
| local_wake: "us_reach y \<Longrightarrow> us_phase y \<in> {Top, Choosing, Idle} \<Longrightarrow> enqueue 0 t (us_sched y) = (s', EnqLocal) \<Longrightarrow>
    us_reach (y\<lparr>us_sched := s'\<rparr>)"
| remote_wake: "us_reach y \<Longrightarrow> th \<noteq> 0 \<Longrightarrow> enqueue th t (us_sched y) = (s', EnqInjected) \<Longrightarrow>
    us_reach (y\<lparr>us_sched := s', us_unparks := us_unparks y + 1\<rparr>)"
| remote_dealloc: "us_reach y \<Longrightarrow> defer_dealloc th t (us_sched y) = Some s' \<Longrightarrow>
    us_reach (y\<lparr>us_sched := s', us_unparks := us_unparks y + 1\<rparr>)"
| root_wake: "us_reach y \<Longrightarrow> us_reach (y\<lparr>us_woken := True, us_unparks := us_unparks y + 1\<rparr>)"
| unpark: "us_reach y \<Longrightarrow> us_unparks y = Suc n \<Longrightarrow>
    us_reach (y\<lparr>us_unparks := n, us_token := us_token y \<or> unpark_owner (us_sched y) = Some 0\<rparr>)"
| poll_root: "us_reach y \<Longrightarrow> us_phase y = Top \<Longrightarrow> us_reach (y\<lparr>us_woken := False, us_phase := Choosing\<rparr>)"
| run_task: "us_reach y \<Longrightarrow> us_phase y = Choosing \<Longrightarrow> next_task (us_sched y) = (Some t, s') \<Longrightarrow>
    us_reach (y\<lparr>us_sched := s', us_phase := Top\<rparr>)"
| no_task: "us_reach y \<Longrightarrow> us_phase y = Choosing \<Longrightarrow> next_task (us_sched y) = (None, s') \<Longrightarrow>
    us_reach (y\<lparr>us_sched := s', us_phase := Idle\<rparr>)"
| check: "us_reach y \<Longrightarrow> us_phase y = Idle \<Longrightarrow>
    us_reach (y\<lparr>us_phase := (if has_queued_work (us_sched y) then Top else Committed)\<rparr>)"
| park: "us_reach y \<Longrightarrow> us_phase y = Committed \<Longrightarrow>
    us_reach (y\<lparr>us_phase := (if us_token y then Top else Parked), us_token := False\<rparr>)"
| unparked: "us_reach y \<Longrightarrow> us_phase y = Parked \<Longrightarrow> us_reach (y\<lparr>us_phase := Top, us_token := False\<rparr>)"

definition us_inv :: "cu_sys \<Rightarrow> bool" where
  "us_inv y \<longleftrightarrow> cu_owner (us_sched y) = Some 0 \<and> cu_unparker (us_sched y) = Some 0
     \<and> (us_woken y \<and> us_phase y \<noteq> Top \<longrightarrow> us_token y \<or> 0 < us_unparks y)
     \<and> (has_queued_work (us_sched y) \<and> us_phase y \<in> {Committed, Parked} \<longrightarrow> us_token y \<or> 0 < us_unparks y)"

lemma next_task_threads:
  assumes "next_task s = (r, s')"
  shows "cu_owner s' = cu_owner s" "cu_unparker s' = cu_unparker s"
  using assms by (auto simp: next_task_cases Let_def split: if_splits list.splits)

lemma us_reach_inv: "us_reach y \<Longrightarrow> us_inv y"
proof (induction rule: us_reach.induct)
  case (start s s')
  then show ?case by (auto simp: us_inv_def block_on_begin_def split: if_splits)
next
  case (local_wake y t s')
  then show ?case by (auto simp: us_inv_def enqueue_def has_queued_work_def split: if_splits)
next
  case (remote_wake y th t s')
  then show ?case by (auto simp: us_inv_def enqueue_def split: if_splits)
next
  case (remote_dealloc y th t s')
  then show ?case by (auto simp: us_inv_def defer_dealloc_def split: if_splits)
next
  case (root_wake y)
  then show ?case by (simp add: us_inv_def)
next
  case (unpark y n)
  then show ?case by (simp add: us_inv_def unpark_owner_def)
next
  case (poll_root y)
  then show ?case by (simp add: us_inv_def)
next
  case (run_task y t s')
  then show ?case using next_task_threads [of "us_sched y"] by (simp add: us_inv_def)
next
  case (no_task y s')
  then show ?case using next_task_threads [of "us_sched y"] by (simp add: us_inv_def)
next
  case (check y)
  then show ?case by (simp add: us_inv_def)
next
  case (park y)
  then show ?case by (auto simp: us_inv_def)
next
  case (unparked y)
  then show ?case by (simp add: us_inv_def)
qed

section \<open>Properties\<close>

text \<open>Injected tasks do not starve: whatever arrives, a task in the injection queue with \<open>k\<close> tasks before
  it is taken within 61 * (k + 1) choices, wherever the wrapping 32-bit counter stands, as long as no
  deferred deallocations come in between.\<close>

theorem injected_task_is_taken_in_time:
  assumes "cu_deferred s = []" "cu_injection s = xs @ t # ys" "61 * (length xs + 1) \<le> length arrivals"
  shows "t \<in> set (fst (cu_rounds arrivals s))"
  using cu_rounds_serve [OF assms(1,2), of arrivals] assms(3) due_in_bounds(2) [of "cu_tick s"] by simp

theorem injected_task_is_taken_in_time_witness:
  "7 \<in> set (fst (cu_rounds (replicate 200 ([1, 2], [])) ((cthread_new 0)\<lparr>cu_injection := [8, 7], cu_local := [3], cu_tick := - 1\<rparr>)))"
  by (rule injected_task_is_taken_in_time [of _ "[8]" _ "[]"]) (simp_all add: cthread_new_def)

text \<open>C8. \<open>block_on\<close> does not sleep through work: when its thread has decided to park or is parked and a
  task is queued or the root future has been woken, the park token is set or an unpark is on its
  way. So the park returns.\<close>

theorem block_on_never_sleeps_on_work:
  assumes "us_reach y" "us_phase y \<in> {Committed, Parked}" "cu_tasks (us_sched y) \<noteq> [] \<or> us_woken y"
  shows "us_token y \<or> 0 < us_unparks y"
  using us_reach_inv [OF assms(1)] assms(2,3) by (auto simp: us_inv_def has_queued_work_def cu_tasks_def)

definition sleepy :: cu_sys where
  "sleepy = \<lparr>us_sched = (cthread_new 0)\<lparr>cu_owner := Some 0, cu_unparker := Some 0, cu_tick := 1, cu_injection := [7]\<rparr>,
     us_phase = Committed, us_token = False, us_unparks = 1, us_woken = False\<rparr>"

lemma sleepy_reach: "us_reach sleepy"
proof -
  let ?s = "(cthread_new 0)\<lparr>cu_owner := Some 0, cu_unparker := Some 0\<rparr>"
  have 1: "us_reach \<lparr>us_sched = ?s, us_phase = Top, us_token = False, us_unparks = 0, us_woken = True\<rparr>"
    by (rule us_reach.start [of "cthread_new 0"]) (simp_all add: block_on_begin_def cthread_new_def)
  have 2: "us_reach \<lparr>us_sched = ?s, us_phase = Choosing, us_token = False, us_unparks = 0, us_woken = False\<rparr>"
    using us_reach.poll_root [OF 1] by simp
  have 3: "us_reach \<lparr>us_sched = ?s\<lparr>cu_tick := 1\<rparr>, us_phase = Idle, us_token = False, us_unparks = 0, us_woken = False\<rparr>"
    using us_reach.no_task [OF 2, of "?s\<lparr>cu_tick := 1\<rparr>"] by (simp add: next_task_cases cthread_new_def)
  have 4: "us_reach \<lparr>us_sched = ?s\<lparr>cu_tick := 1\<rparr>, us_phase = Committed, us_token = False, us_unparks = 0, us_woken = False\<rparr>"
    using us_reach.check [OF 3] by (simp add: has_queued_work_def cthread_new_def)
  show ?thesis
    using us_reach.remote_wake [OF 4, of 2 7 "?s\<lparr>cu_tick := 1, cu_injection := [7]\<rparr>"]
    by (simp add: enqueue_def cthread_new_def sleepy_def)
qed

theorem block_on_never_sleeps_on_work_witness: "us_token sleepy \<or> 0 < us_unparks sleepy"
  by (rule block_on_never_sleeps_on_work [OF sleepy_reach]) (simp_all add: sleepy_def cu_tasks_def)

text \<open>Every task that is queued is taken once: a choice removes exactly the task it answers, and both
  ways of emptying the queues end with none left.\<close>

lemma choices_conserve:
  "mset (cu_tasks s) = mset (cu_tasks (snd (next_task s))) + mset (case fst (next_task s) of None \<Rightarrow> [] | Some t \<Rightarrow> [t])"
  "mset (cu_tasks s) = mset (cu_tasks (snd (shutdown_next s))) + mset (case fst (shutdown_next s) of None \<Rightarrow> [] | Some t \<Rightarrow> [t])"
  "fst (next_task s) = None \<longleftrightarrow> cu_tasks s = []" "fst (shutdown_next s) = None \<longleftrightarrow> cu_tasks s = []"
  by (cases "cu_deferred s"; cases "cu_local s"; cases "cu_injection s"; simp add: next_task_cases shutdown_next_def cu_tasks_def Let_def)+

end
