(* ===== verification/Buffered_Io.thy ===== *)
theory Buffered_Io
  imports Prelude
begin

text \<open>
  Buffered readers and writers (\<open>io/buf.rs\<close>), the loops of the extension traits (\<open>io/mod.rs\<close>) and the
  copying operations (\<open>io/ops.rs\<close>). The inner reader or writer is a parameter, given by its polling
  functions; what the traits document about it are the locales \<open>async_write\<close> and \<open>async_read\<close>. A
  \<open>ReadBuf\<close> is modelled by the room it has and the bytes that a poll adds to it. \<open>await\<close> polls until
  the operation is ready; \<open>None\<close> is not returning.
\<close>

section \<open>Interfaces of the traits\<close>

datatype io_error = IoError nat | WriteZero | UnexpectedEof | InvalidData

type_synonym bytes = "u8 list"
type_synonym ('w, 'r) io_poll = "'w \<Rightarrow> (io_error + 'r) poll \<times> 'w"

text \<open>\<open>AsyncWrite\<close>: \<open>accepted\<close> are the bytes taken so far, \<open>delivered\<close> those that have reached the
  destination. A write that is pending or fails has taken nothing, a flush that succeeds has delivered
  everything.\<close>

locale async_write =
  fixes pw :: "bytes \<Rightarrow> ('w, nat) io_poll"
    and pf :: "('w, unit) io_poll"
    and accepted :: "'w \<Rightarrow> bytes"
    and delivered :: "'w \<Rightarrow> bytes"
    and winv :: "'w \<Rightarrow> bool"
  assumes write_ok: "winv w \<Longrightarrow> pw bs w = (Ready (Inr n), w') \<Longrightarrow> n \<le> length bs \<and> accepted w' = accepted w @ take n bs"
    and write_not: "winv w \<Longrightarrow> pw bs w = (r, w') \<Longrightarrow> (\<forall>n. r \<noteq> Ready (Inr n)) \<Longrightarrow> accepted w' = accepted w"
    and write_inv: "winv w \<Longrightarrow> winv (snd (pw bs w))"
    and flush_keeps: "winv w \<Longrightarrow> winv (snd (pf w)) \<and> accepted (snd (pf w)) = accepted w"
    and flush_ok: "winv w \<Longrightarrow> pf w = (Ready (Inr ()), w') \<Longrightarrow> delivered w' = accepted w'"

text \<open>A writer that is always ready, never fails and takes something.\<close>

locale prompt_write = async_write +
  assumes write_prompt: "winv w \<Longrightarrow> bs \<noteq> [] \<Longrightarrow> \<exists>n w'. pw bs w = (Ready (Inr n), w') \<and> 0 < n"
    and flush_prompt: "winv w \<Longrightarrow> \<exists>w'. pf w = (Ready (Inr ()), w')"

text \<open>\<open>AsyncRead\<close>: \<open>rest\<close> are the bytes still to come. A pending or failed read consumes nothing; an empty
  result with room in the buffer is the end of the stream.\<close>

locale async_read =
  fixes pr :: "nat \<Rightarrow> ('r, bytes) io_poll"
    and rest :: "'r \<Rightarrow> bytes"
    and rinv :: "'r \<Rightarrow> bool"
  assumes read_ok: "rinv r \<Longrightarrow> pr n r = (Ready (Inr bs), r') \<Longrightarrow> length bs \<le> n \<and> rest r = bs @ rest r'"
    and read_eof: "rinv r \<Longrightarrow> pr n r = (Ready (Inr []), r') \<Longrightarrow> 0 < n \<Longrightarrow> rest r = []"
    and read_not: "rinv r \<Longrightarrow> pr n r = (x, r') \<Longrightarrow> (\<forall>bs. x \<noteq> Ready (Inr bs)) \<Longrightarrow> rest r' = rest r"
    and read_inv: "rinv r \<Longrightarrow> rinv (snd (pr n r))"

locale prompt_read = async_read +
  assumes read_prompt: "rinv r \<Longrightarrow> \<exists>bs r'. pr n r = (Ready (Inr bs), r')"

section \<open>Buffered writer\<close>

definition DEFAULT_CAPACITY :: nat where "DEFAULT_CAPACITY = 8 * 1024"

record 'w buf_writer =
  bw_inner :: 'w
  bw_buffer :: bytes
  bw_pos :: nat
  bw_capacity :: nat

definition buf_writer_with_capacity :: "nat \<Rightarrow> 'w \<Rightarrow> 'w buf_writer option" where
  "buf_writer_with_capacity capacity w =
     (if capacity = 0 then None else Some \<lparr>bw_inner = w, bw_buffer = [], bw_pos = 0, bw_capacity = capacity\<rparr>)"

definition bw_compact :: "'w buf_writer \<Rightarrow> 'w buf_writer" where
  "bw_compact b = (if 0 < bw_pos b then b\<lparr>bw_buffer := drop (bw_pos b) (bw_buffer b), bw_pos := 0\<rparr> else b)"

function (sequential) bw_flush_loop :: "(bytes \<Rightarrow> ('w, nat) io_poll) \<Rightarrow> ('w buf_writer, unit) io_poll" where
  "bw_flush_loop pw b =
     (if bw_pos b < length (bw_buffer b)
      then case pw (drop (bw_pos b) (bw_buffer b)) (bw_inner b) of
             (Pending, w) \<Rightarrow> (Pending, b\<lparr>bw_inner := w\<rparr>)
           | (Ready (Inl e), w) \<Rightarrow> (Ready (Inl e), b\<lparr>bw_inner := w\<rparr>)
           | (Ready (Inr n), w) \<Rightarrow>
               if n = 0 then (Ready (Inl WriteZero), b\<lparr>bw_inner := w\<rparr>)
               else bw_flush_loop pw (b\<lparr>bw_inner := w, bw_pos := bw_pos b + n\<rparr>)
      else (Ready (Inr ()), b))"
  by pat_completeness auto
termination by (relation "measure (\<lambda>(pw, b). length (bw_buffer b) - bw_pos b)") auto

definition bw_poll_flush :: "(bytes \<Rightarrow> ('w, nat) io_poll) \<Rightarrow> ('w, unit) io_poll \<Rightarrow> ('w buf_writer, unit) io_poll" where
  "bw_poll_flush pw pf b =
     (case bw_flush_loop pw b of
        (Ready (Inr u), b) \<Rightarrow>
          let b = b\<lparr>bw_buffer := [], bw_pos := 0\<rparr>
          in (case pf (bw_inner b) of (r, w) \<Rightarrow> (r, b\<lparr>bw_inner := w\<rparr>))
      | (r, b) \<Rightarrow> (r, b))"

definition bw_store :: "(bytes \<Rightarrow> ('w, nat) io_poll) \<Rightarrow> bytes \<Rightarrow> ('w buf_writer, nat) io_poll" where
  "bw_store pw bs b =
     (if bw_buffer b = [] \<and> bw_capacity b \<le> length bs
      then (case pw bs (bw_inner b) of (r, w) \<Rightarrow> (r, b\<lparr>bw_inner := w\<rparr>))
      else
        let amount = min (length bs) (bw_capacity b - length (bw_buffer b))
        in (Ready (Inr amount), b\<lparr>bw_buffer := bw_buffer b @ take amount bs\<rparr>))"

definition bw_poll_write :: "(bytes \<Rightarrow> ('w, nat) io_poll) \<Rightarrow> ('w, unit) io_poll \<Rightarrow> bytes \<Rightarrow> ('w buf_writer, nat) io_poll" where
  "bw_poll_write pw pf bs b =
     (if bs = [] then (Ready (Inr 0), b)
      else
        let b = bw_compact b in
        if length (bw_buffer b) = bw_capacity b
        then (case bw_poll_flush pw pf b of
                (Pending, b) \<Rightarrow> (Pending, b)
              | (Ready (Inl e), b) \<Rightarrow> (Ready (Inl e), b)
              | (Ready (Inr _), b) \<Rightarrow> bw_store pw bs (b\<lparr>bw_buffer := []\<rparr>))
        else bw_store pw bs b)"

definition bw_poll_shutdown ::
  "(bytes \<Rightarrow> ('w, nat) io_poll) \<Rightarrow> ('w, unit) io_poll \<Rightarrow> ('w, unit) io_poll \<Rightarrow> ('w buf_writer, unit) io_poll" where
  "bw_poll_shutdown pw pf ps b =
     (case bw_poll_flush pw pf b of
        (Ready (Inr _), b) \<Rightarrow> (case ps (bw_inner b) of (r, w) \<Rightarrow> (r, b\<lparr>bw_inner := w\<rparr>))
      | (r, b) \<Rightarrow> (r, b))"

section \<open>Buffered reader\<close>

record 'r buf_reader =
  br_inner :: 'r
  br_buffer :: bytes
  br_pos :: nat
  br_cap :: nat

definition buf_reader_with_capacity :: "nat \<Rightarrow> 'r \<Rightarrow> 'r buf_reader option" where
  "buf_reader_with_capacity capacity r =
     (if capacity = 0 then None
      else Some \<lparr>br_inner = r, br_buffer = replicate capacity 0, br_pos = 0, br_cap = 0\<rparr>)"

text \<open>The bytes of a read overwrite the beginning of the buffer.\<close>

definition poll_fill_buf :: "(nat \<Rightarrow> ('r, bytes) io_poll) \<Rightarrow> ('r buf_reader, bytes) io_poll" where
  "poll_fill_buf pr b =
     (if br_pos b < br_cap b then (Ready (Inr (drop (br_pos b) (take (br_cap b) (br_buffer b)))), b)
      else
        case pr (length (br_buffer b)) (br_inner b) of
          (Pending, r) \<Rightarrow> (Pending, b\<lparr>br_inner := r\<rparr>)
        | (Ready (Inl e), r) \<Rightarrow> (Ready (Inl e), b\<lparr>br_inner := r\<rparr>)
        | (Ready (Inr bs), r) \<Rightarrow>
            let buffer = bs @ drop (length bs) (br_buffer b)
            in (Ready (Inr (take (length bs) buffer)), b\<lparr>br_inner := r, br_buffer := buffer, br_pos := 0, br_cap := length bs\<rparr>))"

definition br_consume :: "nat \<Rightarrow> 'r buf_reader \<Rightarrow> 'r buf_reader" where
  "br_consume amount b = b\<lparr>br_pos := min (br_pos b + amount) (br_cap b)\<rparr>"

definition br_poll_read :: "(nat \<Rightarrow> ('r, bytes) io_poll) \<Rightarrow> nat \<Rightarrow> ('r buf_reader, bytes) io_poll" where
  "br_poll_read pr n b =
     (if n = 0 then (Ready (Inr []), b)
      else
        case poll_fill_buf pr b of
          (Pending, b) \<Rightarrow> (Pending, b)
        | (Ready (Inl e), b) \<Rightarrow> (Ready (Inl e), b)
        | (Ready (Inr available), b) \<Rightarrow>
            let amount = min (length available) n
            in (Ready (Inr (take amount available)), b\<lparr>br_pos := br_pos b + amount\<rparr>))"

section \<open>Loops over the traits\<close>

partial_function (option) await :: "('s, 'a) io_poll \<Rightarrow> 's \<Rightarrow> ((io_error + 'a) \<times> 's) option" where
  "await p s = (case p s of (Pending, s) \<Rightarrow> await p s | (Ready x, s) \<Rightarrow> Some (x, s))"

text \<open>\<open>write_all\<close>, with what is left to write as its argument.\<close>

partial_function (option) write_all :: "(bytes \<Rightarrow> ('w, nat) io_poll) \<Rightarrow> bytes \<Rightarrow> 'w \<Rightarrow> ((io_error + unit) \<times> 'w) option" where
  "write_all pw bs w =
     (if bs = [] then Some (Inr (), w)
      else
        case await (pw bs) w of
          None \<Rightarrow> None
        | Some (Inl e, w) \<Rightarrow> Some (Inl e, w)
        | Some (Inr n, w) \<Rightarrow> if n = 0 then Some (Inl WriteZero, w) else write_all pw (drop n bs) w)"

text \<open>\<open>read_exact\<close>, with the bytes read so far and the number still missing.\<close>

partial_function (option) read_exact :: "(nat \<Rightarrow> ('r, bytes) io_poll) \<Rightarrow> bytes \<Rightarrow> nat \<Rightarrow> 'r \<Rightarrow> ((io_error + bytes) \<times> 'r) option" where
  "read_exact pr got n r =
     (if n = 0 then Some (Inr got, r)
      else
        case await (pr n) r of
          None \<Rightarrow> None
        | Some (Inl e, r) \<Rightarrow> Some (Inl e, r)
        | Some (Inr bs, r) \<Rightarrow> if bs = [] then Some (Inl UnexpectedEof, r) else read_exact pr (got @ bs) (n - length bs) r)"

partial_function (option) read_to_end :: "(nat \<Rightarrow> ('r, bytes) io_poll) \<Rightarrow> bytes \<Rightarrow> 'r \<Rightarrow> ((io_error + bytes) \<times> 'r) option" where
  "read_to_end pr buf r =
     (case await (pr 8192) r of
        None \<Rightarrow> None
      | Some (Inl e, r) \<Rightarrow> Some (Inl e, r)
      | Some (Inr bs, r) \<Rightarrow> if bs = [] then Some (Inr buf, r) else read_to_end pr (buf @ bs) r)"

text \<open>\<open>read_until\<close> reads single bytes.\<close>

partial_function (option) read_until :: "(nat \<Rightarrow> ('r, bytes) io_poll) \<Rightarrow> u8 \<Rightarrow> bytes \<Rightarrow> 'r \<Rightarrow> ((io_error + bytes) \<times> 'r) option" where
  "read_until pr delimiter out r =
     (case await (pr 1) r of
        None \<Rightarrow> None
      | Some (Inl e, r) \<Rightarrow> Some (Inl e, r)
      | Some (Inr bs, r) \<Rightarrow>
          if bs = [] then Some (Inr out, r)
          else if hd bs = delimiter then Some (Inr (out @ [hd bs]), r)
          else read_until pr delimiter (out @ [hd bs]) r)"

partial_function (option) copy_loop ::
  "(nat \<Rightarrow> ('r, bytes) io_poll) \<Rightarrow> (bytes \<Rightarrow> ('w, nat) io_poll) \<Rightarrow> ('w, unit) io_poll \<Rightarrow> nat \<Rightarrow> 'r \<Rightarrow> 'w
   \<Rightarrow> ((io_error + nat) \<times> 'r \<times> 'w) option" where
  "copy_loop pr pw pf copied r w =
     (case await (pr 8192) r of
        None \<Rightarrow> None
      | Some (Inl e, r) \<Rightarrow> Some (Inl e, r, w)
      | Some (Inr bs, r) \<Rightarrow>
          if bs = []
          then (case await pf w of
                  None \<Rightarrow> None
                | Some (Inl e, w) \<Rightarrow> Some (Inl e, r, w)
                | Some (Inr _, w) \<Rightarrow> Some (Inr copied, r, w))
          else (case write_all pw bs w of
                  None \<Rightarrow> None
                | Some (Inl e, w) \<Rightarrow> Some (Inl e, r, w)
                | Some (Inr _, w) \<Rightarrow> copy_loop pr pw pf (copied + length bs) r w))"

definition copy ::
  "(nat \<Rightarrow> ('r, bytes) io_poll) \<Rightarrow> (bytes \<Rightarrow> ('w, nat) io_poll) \<Rightarrow> ('w, unit) io_poll \<Rightarrow> 'r \<Rightarrow> 'w \<Rightarrow> ((io_error + nat) \<times> 'r \<times> 'w) option" where
  "copy pr pw pf r w = copy_loop pr pw pf 0 r w"

section \<open>One direction of copy_bidirectional\<close>

record direction_state =
  ds_buffer :: bytes
  ds_filled :: nat
  ds_pos :: nat
  ds_eof :: bool
  ds_copied :: nat
  ds_dst_shutdown :: bool

definition direction_new :: direction_state where
  "direction_new = \<lparr>ds_buffer = replicate 8192 0, ds_filled = 0, ds_pos = 0, ds_eof = False, ds_copied = 0, ds_dst_shutdown = False\<rparr>"

datatype direction_poll = DirPending | DirDone

partial_function (option) poll_direction ::
  "(nat \<Rightarrow> ('r, bytes) io_poll) \<Rightarrow> (bytes \<Rightarrow> ('w, nat) io_poll) \<Rightarrow> ('w, unit) io_poll \<Rightarrow> 'r \<Rightarrow> 'w \<Rightarrow> direction_state
   \<Rightarrow> ((io_error + direction_poll) \<times> 'r \<times> 'w \<times> direction_state) option" where
  "poll_direction pr pw ps r w d =
     (if ds_pos d < ds_filled d
      then (case pw (drop (ds_pos d) (take (ds_filled d) (ds_buffer d))) w of
              (Pending, w) \<Rightarrow> Some (Inr DirPending, r, w, d)
            | (Ready (Inl e), w) \<Rightarrow> Some (Inl e, r, w, d)
            | (Ready (Inr n), w) \<Rightarrow>
                if n = 0 then Some (Inl WriteZero, r, w, d)
                else poll_direction pr pw ps r w (d\<lparr>ds_pos := ds_pos d + n, ds_copied := ds_copied d + n\<rparr>))
      else if ds_eof d
      then (if \<not> ds_dst_shutdown d
            then (case ps w of
                    (Pending, w) \<Rightarrow> Some (Inr DirPending, r, w, d)
                  | (Ready (Inl e), w) \<Rightarrow> Some (Inl e, r, w, d)
                  | (Ready (Inr _), w) \<Rightarrow> Some (Inr DirDone, r, w, d\<lparr>ds_dst_shutdown := True\<rparr>))
            else Some (Inr DirDone, r, w, d))
      else (case pr (length (ds_buffer d)) r of
              (Pending, r) \<Rightarrow> Some (Inr DirPending, r, w, d)
            | (Ready (Inl e), r) \<Rightarrow> Some (Inl e, r, w, d)
            | (Ready (Inr bs), r) \<Rightarrow>
                poll_direction pr pw ps r w
                  (d\<lparr>ds_buffer := bs @ drop (length bs) (ds_buffer d), ds_filled := length bs, ds_pos := 0, ds_eof := (bs = [])\<rparr>)))"

section \<open>The buffered writer is a writer\<close>

definition bw_accepted :: "('w \<Rightarrow> bytes) \<Rightarrow> 'w buf_writer \<Rightarrow> bytes" where
  "bw_accepted accepted b = accepted (bw_inner b) @ drop (bw_pos b) (bw_buffer b)"

definition bw_inv :: "('w \<Rightarrow> bool) \<Rightarrow> 'w buf_writer \<Rightarrow> bool" where
  "bw_inv winv b \<longleftrightarrow> winv (bw_inner b) \<and> bw_pos b \<le> length (bw_buffer b) \<and> length (bw_buffer b) \<le> bw_capacity b \<and> 0 < bw_capacity b"

definition br_rest :: "('r \<Rightarrow> bytes) \<Rightarrow> 'r buf_reader \<Rightarrow> bytes" where
  "br_rest rest b = drop (br_pos b) (take (br_cap b) (br_buffer b)) @ rest (br_inner b)"

definition br_inv :: "('r \<Rightarrow> bool) \<Rightarrow> 'r buf_reader \<Rightarrow> bool" where
  "br_inv rinv b \<longleftrightarrow> rinv (br_inner b) \<and> br_pos b \<le> br_cap b \<and> br_cap b \<le> length (br_buffer b) \<and> br_buffer b \<noteq> []"

declare bw_flush_loop.simps [simp del]

context async_write
begin

lemma write_result:
  assumes "winv w" "pw bs w = (x, w')"
  shows "winv w'" "x = Ready (Inr n) \<Longrightarrow> n \<le> length bs \<and> accepted w' = accepted w @ take n bs"
    "x = Pending \<Longrightarrow> accepted w' = accepted w" "x = Ready (Inl e) \<Longrightarrow> accepted w' = accepted w"
  using write_inv [OF assms(1), of bs] write_ok [OF assms(1)] write_not [OF assms] assms(2) by auto

lemma flush_loop_keeps:
  assumes "bw_inv winv b" "bw_flush_loop pw b = (r, b')"
  shows "bw_inv winv b' \<and> bw_accepted accepted b' = bw_accepted accepted b \<and> bw_capacity b' = bw_capacity b
    \<and> (r = Ready (Inr ()) \<longrightarrow> bw_pos b' = length (bw_buffer b'))"
  using assms
proof (induction "length (bw_buffer b) - bw_pos b" arbitrary: b rule: less_induct)
  case less
  note unfold = bw_flush_loop.simps [of pw b]
  show ?case
  proof (cases "bw_pos b < length (bw_buffer b)")
    case False
    then show ?thesis using less.prems by (auto simp: unfold bw_inv_def)
  next
    case True
    obtain x w where p: "pw (drop (bw_pos b) (bw_buffer b)) (bw_inner b) = (x, w)" by fastforce
    have wi: "winv (bw_inner b)" using less.prems(1) by (simp add: bw_inv_def)
    note res = write_result [OF wi p]
    consider (stay) "x = Pending \<or> (\<exists>e. x = Ready (Inl e)) \<or> x = Ready (Inr 0)" | (more) n where "x = Ready (Inr n)" "0 < n"
      by (metis gr0I old.sum.exhaust poll.exhaust)
    then show ?thesis
    proof cases
      case stay
      then have "b' = b\<lparr>bw_inner := w\<rparr>" "r \<noteq> Ready (Inr ())" using less.prems(2) True p by (auto simp: unfold)
      moreover have "accepted w = accepted (bw_inner b)" using stay res(2) [of 0] res(3,4) by auto
      ultimately show ?thesis using less.prems(1) res(1) by (simp add: bw_inv_def bw_accepted_def)
    next
      case more
      let ?b = "b\<lparr>bw_inner := w, bw_pos := bw_pos b + n\<rparr>"
      have n: "n \<le> length (bw_buffer b) - bw_pos b" "accepted w = accepted (bw_inner b) @ take n (drop (bw_pos b) (bw_buffer b))"
        using res(2) [OF more(1)] by simp_all
      have l: "bw_flush_loop pw ?b = (r, b')" using less.prems(2) True p more by (simp add: unfold)
      have "bw_inv winv ?b" using less.prems(1) n(1) True res(1) by (simp add: bw_inv_def)
      from less.hyps [OF _ this l] have h: "bw_inv winv b' \<and> bw_accepted accepted b' = bw_accepted accepted ?b \<and> bw_capacity b' = bw_capacity ?b
        \<and> (r = Ready (Inr ()) \<longrightarrow> bw_pos b' = length (bw_buffer b'))" using True more(2) by simp
      have "drop (bw_pos b) (bw_buffer b) = take n (drop (bw_pos b) (bw_buffer b)) @ drop (bw_pos b + n) (bw_buffer b)"
        by (simp add: add.commute flip: drop_drop)
      then have "bw_accepted accepted ?b = bw_accepted accepted b" using n(2) by (simp add: bw_accepted_def)
      then show ?thesis using h by simp
    qed
  qed
qed

lemma bw_flush_keeps:
  assumes "bw_inv winv b" "bw_poll_flush pw pf b = (r, b')"
  shows "bw_inv winv b'" "bw_accepted accepted b' = bw_accepted accepted b" "bw_capacity b' = bw_capacity b"
    "r = Ready (Inr ()) \<Longrightarrow> bw_buffer b' = [] \<and> bw_pos b' = 0 \<and> delivered (bw_inner b') = bw_accepted accepted b'"
proof -
  obtain x c where l: "bw_flush_loop pw b = (x, c)" by fastforce
  note k = flush_loop_keeps [OF assms(1) l]
  have "bw_inv winv b' \<and> bw_accepted accepted b' = bw_accepted accepted b \<and> bw_capacity b' = bw_capacity b
    \<and> (r = Ready (Inr ()) \<longrightarrow> bw_buffer b' = [] \<and> bw_pos b' = 0 \<and> delivered (bw_inner b') = bw_accepted accepted b')"
  proof (cases "x = Ready (Inr ())")
    case False
    then have "r = x" "b' = c" using assms(2) l by (auto simp: bw_poll_flush_def split: poll.splits sum.splits)
    then show ?thesis using k False by simp
  next
    case True
    have wi: "winv (bw_inner c)" using k by (simp add: bw_inv_def)
    obtain y w where f: "pf (bw_inner c) = (y, w)" by fastforce
    have b': "r = y" "b' = c\<lparr>bw_buffer := [], bw_pos := 0, bw_inner := w\<rparr>"
      using assms(2) l True f by (simp_all add: bw_poll_flush_def Let_def)
    have "winv w" "accepted w = accepted (bw_inner c)" "y = Ready (Inr ()) \<Longrightarrow> delivered w = accepted w"
      using flush_keeps [OF wi] flush_ok [OF wi] f by auto
    then show ?thesis using b' k True by (auto simp: bw_inv_def bw_accepted_def)
  qed
  then show "bw_inv winv b'" "bw_accepted accepted b' = bw_accepted accepted b" "bw_capacity b' = bw_capacity b"
    "r = Ready (Inr ()) \<Longrightarrow> bw_buffer b' = [] \<and> bw_pos b' = 0 \<and> delivered (bw_inner b') = bw_accepted accepted b'" by blast+
qed

lemma bw_store_result:
  assumes "bw_inv winv b" "bw_pos b = 0" "length (bw_buffer b) < bw_capacity b" "bw_store pw bs b = (r, b')"
  shows "bw_inv winv b' \<and> (case r of Ready (Inr n) \<Rightarrow> n \<le> length bs \<and> bw_accepted accepted b' = bw_accepted accepted b @ take n bs
      | _ \<Rightarrow> bw_accepted accepted b' = bw_accepted accepted b)"
proof (cases "bw_buffer b = [] \<and> bw_capacity b \<le> length bs")
  case True
  obtain x w where p: "pw bs (bw_inner b) = (x, w)" by fastforce
  have wi: "winv (bw_inner b)" using assms(1) by (simp add: bw_inv_def)
  have b': "r = x" "b' = b\<lparr>bw_inner := w\<rparr>" using assms(4) True p by (simp_all add: bw_store_def)
  show ?thesis using b' True write_result [OF wi p] assms(1)
    by (auto simp: bw_inv_def bw_accepted_def split: poll.splits sum.splits)
next
  case False
  then have "r = Ready (Inr (min (length bs) (bw_capacity b - length (bw_buffer b))))"
    "b' = b\<lparr>bw_buffer := bw_buffer b @ take (min (length bs) (bw_capacity b - length (bw_buffer b))) bs\<rparr>"
    using assms(4) by (auto simp: bw_store_def Let_def)
  then show ?thesis using assms(1-3) by (simp add: bw_inv_def bw_accepted_def)
qed

lemma bw_compact_keeps:
  assumes "bw_inv winv b"
  shows "bw_inv winv (bw_compact b)" "bw_accepted accepted (bw_compact b) = bw_accepted accepted b" "bw_pos (bw_compact b) = 0"
  using assms by (auto simp: bw_compact_def bw_inv_def bw_accepted_def)

lemma bw_write_result:
  assumes "bw_inv winv b" "bw_poll_write pw pf bs b = (r, b')"
  shows "bw_inv winv b' \<and> (case r of Ready (Inr n) \<Rightarrow> n \<le> length bs \<and> bw_accepted accepted b' = bw_accepted accepted b @ take n bs
      | _ \<Rightarrow> bw_accepted accepted b' = bw_accepted accepted b)"
proof (cases "bs = []")
  case True
  then show ?thesis using assms by (auto simp: bw_poll_write_def)
next
  case ne: False
  let ?c = "bw_compact b"
  note c = bw_compact_keeps [OF assms(1)]
  show ?thesis
  proof (cases "length (bw_buffer ?c) = bw_capacity ?c")
    case False
    then have lt: "length (bw_buffer ?c) < bw_capacity ?c" using c(1) by (simp add: bw_inv_def)
    have "bw_store pw bs ?c = (r, b')" using assms(2) ne False by (simp add: bw_poll_write_def Let_def)
    from bw_store_result [OF c(1,3) lt this, unfolded c(2)] show ?thesis .
  next
    case True
    obtain x d where f: "bw_poll_flush pw pf ?c = (x, d)" by fastforce
    note k = bw_flush_keeps [OF c(1) f]
    show ?thesis
    proof (cases "x = Ready (Inr ())")
      case False
      then have "b' = d" "\<forall>n. r \<noteq> Ready (Inr n)"
        using assms(2) ne True f by (auto simp: bw_poll_write_def Let_def split: poll.splits sum.splits)
      then show ?thesis using k(1,2) c(2) by (auto split: poll.splits sum.splits)
    next
      case ok: True
      note e = k(4) [OF ok]
      have "d\<lparr>bw_buffer := []\<rparr> = d" using e by simp
      then have "bw_store pw bs d = (r, b')" using assms(2) ne True f ok by (simp add: bw_poll_write_def Let_def)
      moreover have "length (bw_buffer d) < bw_capacity d" using e k(1) by (simp add: bw_inv_def)
      ultimately show ?thesis using bw_store_result [OF k(1), of bs r b', unfolded k(2) c(2)] e by simp
    qed
  qed
qed

text \<open>A buffered writer keeps the contract of the writer it wraps; what it has accepted is what the inner
  writer has accepted and what is still in the buffer.\<close>

lemma buf_writer_is_writer:
  "async_write (bw_poll_write pw pf) (bw_poll_flush pw pf) (bw_accepted accepted) (\<lambda>b. delivered (bw_inner b)) (bw_inv winv)"
proof (unfold_locales, goal_cases)
  case (1 b bs n b') then show ?case using bw_write_result [OF 1] by simp
next
  case (2 b bs r b') then show ?case using bw_write_result [OF 2(1,2)] by (auto split: poll.splits sum.splits)
next
  case (3 b bs) then show ?case using bw_write_result [OF 3, of bs "fst (bw_poll_write pw pf bs b)"] by simp
next
  case (4 b) then show ?case using bw_flush_keeps [OF 4, of "fst (bw_poll_flush pw pf b)"] by simp
next
  case (5 b b') then show ?case using bw_flush_keeps(4) [OF 5] by simp
qed

end

context prompt_write
begin

lemma flush_loop_prompt:
  assumes "bw_inv winv b"
  shows "\<exists>b'. bw_flush_loop pw b = (Ready (Inr ()), b')"
  using assms
proof (induction "length (bw_buffer b) - bw_pos b" arbitrary: b rule: less_induct)
  case less
  show ?case
  proof (cases "bw_pos b < length (bw_buffer b)")
    case False
    then show ?thesis by (simp add: bw_flush_loop.simps [of pw b])
  next
    case True
    have wi: "winv (bw_inner b)" using less.prems by (simp add: bw_inv_def)
    obtain n w where p: "pw (drop (bw_pos b) (bw_buffer b)) (bw_inner b) = (Ready (Inr n), w)" "0 < n"
      using write_prompt [OF wi, of "drop (bw_pos b) (bw_buffer b)"] True by auto
    let ?b = "b\<lparr>bw_inner := w, bw_pos := bw_pos b + n\<rparr>"
    have "bw_inv winv ?b" using write_result(1,2) [OF wi p(1)] less.prems True by (auto simp: bw_inv_def)
    from less.hyps [OF _ this] show ?thesis using True p by (simp add: bw_flush_loop.simps [of pw b])
  qed
qed

lemma bw_flush_prompt:
  assumes "bw_inv winv b"
  shows "\<exists>b'. bw_poll_flush pw pf b = (Ready (Inr ()), b')"
proof -
  obtain c where c: "bw_flush_loop pw b = (Ready (Inr ()), c)" using flush_loop_prompt [OF assms] by blast
  then have "winv (bw_inner c)" using flush_loop_keeps [OF assms c] by (simp add: bw_inv_def)
  then show ?thesis using flush_prompt c by (fastforce simp: bw_poll_flush_def Let_def)
qed

lemma bw_store_prompt:
  assumes "bw_inv winv b" "length (bw_buffer b) < bw_capacity b" "bs \<noteq> []"
  shows "\<exists>n b'. bw_store pw bs b = (Ready (Inr n), b') \<and> 0 < n"
proof -
  have "winv (bw_inner b)" using assms(1) by (simp add: bw_inv_def)
  then show ?thesis using write_prompt [of "bw_inner b" bs] assms(2,3) by (fastforce simp: bw_store_def Let_def)
qed

lemma buf_writer_is_prompt:
  "prompt_write (bw_poll_write pw pf) (bw_poll_flush pw pf) (bw_accepted accepted) (\<lambda>b. delivered (bw_inner b)) (bw_inv winv)"
proof (intro prompt_write.intro prompt_write_axioms.intro buf_writer_is_writer, goal_cases)
  case (1 b bs)
  let ?c = "bw_compact b"
  note c = bw_compact_keeps [OF 1(1)]
  show ?case
  proof (cases "length (bw_buffer ?c) = bw_capacity ?c")
    case False
    then have "length (bw_buffer ?c) < bw_capacity ?c" using c(1) by (simp add: bw_inv_def)
    then show ?thesis using bw_store_prompt [OF c(1)] False 1(2) by (simp add: bw_poll_write_def Let_def)
  next
    case True
    obtain d where f: "bw_poll_flush pw pf ?c = (Ready (Inr ()), d)" using bw_flush_prompt [OF c(1)] by blast
    note k = bw_flush_keeps [OF c(1) f]
    have d: "d\<lparr>bw_buffer := []\<rparr> = d" "length (bw_buffer d) < bw_capacity d" using k(1,4) by (simp_all add: bw_inv_def)
    show ?thesis using bw_store_prompt [OF k(1) d(2) 1(2)] True 1(2) f d(1) by (simp add: bw_poll_write_def Let_def)
  qed
next
  case (2 b) then show ?case by (rule bw_flush_prompt)
qed

end

section \<open>The buffered reader is a reader\<close>

context async_read
begin

lemma read_result:
  assumes "rinv r" "pr n r = (x, r')"
  shows "rinv r'" "x = Ready (Inr bs) \<Longrightarrow> length bs \<le> n \<and> rest r = bs @ rest r' \<and> (0 < n \<and> bs = [] \<longrightarrow> rest r = [])"
    "x = Pending \<Longrightarrow> rest r' = rest r" "x = Ready (Inl e) \<Longrightarrow> rest r' = rest r"
  using read_inv [OF assms(1), of n] read_ok [OF assms(1)] read_eof [OF assms(1)] read_not [OF assms] assms(2) by auto

lemma fill_buf_result:
  assumes "br_inv rinv b" "poll_fill_buf pr b = (x, b')"
  shows "br_inv rinv b' \<and> br_rest rest b' = br_rest rest b \<and>
    (\<forall>bs. x = Ready (Inr bs) \<longrightarrow> bs = drop (br_pos b') (take (br_cap b') (br_buffer b')) \<and> (bs = [] \<longrightarrow> br_rest rest b = []))"
proof (cases "br_pos b < br_cap b")
  case True
  then have "x = Ready (Inr (drop (br_pos b) (take (br_cap b) (br_buffer b))))" "b' = b"
    using assms(2) by (auto simp: poll_fill_buf_def)
  then show ?thesis using assms(1) True by (simp add: br_inv_def)
next
  case False
  then have e: "drop (br_pos b) (take (br_cap b) (br_buffer b)) = []" by simp
  obtain y r where p: "pr (length (br_buffer b)) (br_inner b) = (y, r)" by fastforce
  have ri: "rinv (br_inner b)" "br_buffer b \<noteq> []" using assms(1) by (simp_all add: br_inv_def)
  note res = read_result [OF ri(1) p]
  consider (stay) "y = Pending \<or> (\<exists>e. y = Ready (Inl e))" | (got) bs where "y = Ready (Inr bs)"
    by (metis old.sum.exhaust poll.exhaust)
  then show ?thesis
  proof cases
    case stay
    then have b': "b' = b\<lparr>br_inner := r\<rparr>" "\<forall>bs. x \<noteq> Ready (Inr bs)" using assms(2) False p by (auto simp: poll_fill_buf_def)
    moreover have "rest r = rest (br_inner b)" using stay res(3,4) by auto
    ultimately show ?thesis using assms(1) res(1) by (simp add: br_inv_def br_rest_def)
  next
    case got
    have b': "x = Ready (Inr bs)" "b' = b\<lparr>br_inner := r, br_buffer := bs @ drop (length bs) (br_buffer b), br_pos := 0, br_cap := length bs\<rparr>"
      using assms(2) False p got by (simp_all add: poll_fill_buf_def Let_def)
    show ?thesis using b' res(1) res(2) [OF got] ri(2) e by (auto simp: br_inv_def br_rest_def)
  qed
qed

lemma br_read_result:
  assumes "br_inv rinv b" "br_poll_read pr n b = (x, b')"
  shows "br_inv rinv b'" "x = Ready (Inr bs) \<Longrightarrow> length bs \<le> n \<and> br_rest rest b = bs @ br_rest rest b' \<and> (0 < n \<and> bs = [] \<longrightarrow> br_rest rest b = [])"
    "\<forall>bs. x \<noteq> Ready (Inr bs) \<Longrightarrow> br_rest rest b' = br_rest rest b"
proof -
  have "br_inv rinv b' \<and> (\<forall>bs. x = Ready (Inr bs) \<longrightarrow> length bs \<le> n \<and> br_rest rest b = bs @ br_rest rest b' \<and> (0 < n \<and> bs = [] \<longrightarrow> br_rest rest b = []))
    \<and> ((\<forall>bs. x \<noteq> Ready (Inr bs)) \<longrightarrow> br_rest rest b' = br_rest rest b)"
  proof (cases "n = 0")
    case True
    then show ?thesis using assms by (auto simp: br_poll_read_def)
  next
    case n: False
    obtain y c where f: "poll_fill_buf pr b = (y, c)" by fastforce
    note k = fill_buf_result [OF assms(1) f]
    show ?thesis
    proof (cases "\<exists>av. y = Ready (Inr av)")
      case False
      then have "b' = c" "\<forall>bs. x \<noteq> Ready (Inr bs)" using assms(2) n f by (auto simp: br_poll_read_def split: poll.splits sum.splits)
      then show ?thesis using k by simp
    next
      case True
      then obtain av where av: "y = Ready (Inr av)" by blast
      let ?m = "min (length av) n"
      have a: "av = drop (br_pos c) (take (br_cap c) (br_buffer c))" "av = [] \<longrightarrow> br_rest rest b = []" using k av by auto
      have b': "x = Ready (Inr (take ?m av))" "b' = c\<lparr>br_pos := br_pos c + ?m\<rparr>"
        using assms(2) n f av by (simp_all add: br_poll_read_def Let_def)
      have len: "length av = br_cap c - br_pos c" using k a(1) by (simp add: br_inv_def)
      have "av = take ?m av @ drop (br_pos c + ?m) (take (br_cap c) (br_buffer c))"
        using a(1) by (metis add.commute append_take_drop_id drop_drop)
      moreover have "br_rest rest b = av @ rest (br_inner c)" using k a(1) unfolding br_rest_def by metis
      ultimately have "br_rest rest b = take ?m av @ br_rest rest b'" unfolding br_rest_def b'(2) by (simp flip: append_assoc)
      moreover have "br_inv rinv b'" using k b'(2) len by (auto simp: br_inv_def)
      moreover have "take ?m av = [] \<Longrightarrow> av = []" using n by (cases av; cases n) auto
      ultimately show ?thesis using b'(1) a(2) by auto
    qed
  qed
  then show "br_inv rinv b'" "x = Ready (Inr bs) \<Longrightarrow> length bs \<le> n \<and> br_rest rest b = bs @ br_rest rest b' \<and> (0 < n \<and> bs = [] \<longrightarrow> br_rest rest b = [])"
    "\<forall>bs. x \<noteq> Ready (Inr bs) \<Longrightarrow> br_rest rest b' = br_rest rest b" by blast+
qed

lemma buf_reader_is_reader: "async_read (br_poll_read pr) (br_rest rest) (br_inv rinv)"
proof (unfold_locales, goal_cases)
  case (1 b n bs b') then show ?case using br_read_result(2) [OF 1] by simp
next
  case (2 b n b') then show ?case using br_read_result(2) [OF 2(1,2) refl] by blast
next
  case (3 b n x b') then show ?case using br_read_result(3) [OF 3(1,2)] by blast
next
  case (4 b n) then show ?case using br_read_result(1) [OF 4, of n "fst (br_poll_read pr n b)"] by simp
qed

end

context prompt_read
begin

lemma buf_reader_is_prompt: "prompt_read (br_poll_read pr) (br_rest rest) (br_inv rinv)"
proof (intro prompt_read.intro prompt_read_axioms.intro buf_reader_is_reader)
  fix b :: "'a buf_reader" and n :: nat
  assume "br_inv rinv b"
  then have "rinv (br_inner b)" by (simp add: br_inv_def)
  from read_prompt [OF this, of "length (br_buffer b)"]
  show "\<exists>bs b'. br_poll_read pr n b = (Ready (Inr bs), b')" by (auto simp: br_poll_read_def poll_fill_buf_def Let_def)
qed

end

section \<open>Copying\<close>

lemma await_prompt: "p s = (Ready x, s') \<Longrightarrow> await p s = Some (x, s')"
  by (subst await.simps) simp

context prompt_write
begin

lemma write_all_prompt:
  assumes "winv w"
  shows "\<exists>w'. write_all pw bs w = Some (Inr (), w') \<and> winv w' \<and> accepted w' = accepted w @ bs"
  using assms
proof (induction "length bs" arbitrary: bs w rule: less_induct)
  case less
  show ?case
  proof (cases "bs = []")
    case True
    then show ?thesis using less.prems by (subst write_all.simps) simp
  next
    case False
    obtain n w1 where p: "pw bs w = (Ready (Inr n), w1)" "0 < n" using write_prompt [OF less.prems False] by blast
    note r = write_result [OF less.prems p(1)]
    have "length (drop n bs) < length bs" using p(2) False by simp
    from less.hyps [OF this r(1)] obtain w' where w': "write_all pw (drop n bs) w1 = Some (Inr (), w')" "winv w'"
      "accepted w' = accepted w1 @ drop n bs" by blast
    have "write_all pw bs w = Some (Inr (), w')"
      using False p w'(1) await_prompt [of "pw bs", OF p(1)] by (subst write_all.simps) simp
    then show ?thesis using w' r(2) [OF refl] by simp
  qed
qed

end

context prompt_read
begin

lemma read_awaits:
  assumes "rinv r"
  shows "\<exists>bs r'. await (pr n) r = Some (Inr bs, r') \<and> rinv r' \<and> length bs \<le> n \<and> rest r = bs @ rest r' \<and> (0 < n \<and> bs = [] \<longrightarrow> rest r = [])"
proof -
  obtain bs r' where p: "pr n r = (Ready (Inr bs), r')" using read_prompt [OF assms] by blast
  show ?thesis using await_prompt [of "pr n", OF p] read_result(1) [OF assms p] read_result(2) [OF assms p refl] by blast
qed

lemma read_exact_result:
  assumes "rinv r"
  shows "\<exists>r'. read_exact pr got n r = Some (if n \<le> length (rest r) then Inr (got @ take n (rest r)) else Inl UnexpectedEof, r') \<and> rest r' = drop n (rest r)"
  using assms
proof (induction n arbitrary: got r rule: less_induct)
  case (less n)
  show ?case
  proof (cases "n = 0")
    case True
    then show ?thesis by (subst read_exact.simps) simp
  next
    case False
    obtain bs r1 where a: "await (pr n) r = Some (Inr bs, r1)" "rinv r1" "length bs \<le> n" "rest r = bs @ rest r1" "0 < n \<and> bs = [] \<longrightarrow> rest r = []"
      using read_awaits [OF less.prems] by blast
    show ?thesis
    proof (cases "bs = []")
      case True
      then show ?thesis using False a by (subst read_exact.simps) simp
    next
      case ne: False
      have "n - length bs < n" using ne False by simp
      from less.IH [OF this a(2), of "got @ bs"] obtain r' where
        "read_exact pr (got @ bs) (n - length bs) r1 = Some (if n - length bs \<le> length (rest r1) then Inr ((got @ bs) @ take (n - length bs) (rest r1)) else Inl UnexpectedEof, r')"
        "rest r' = drop (n - length bs) (rest r1)" by blast
      then show ?thesis using False ne a(1,3,4) by (subst read_exact.simps) auto
    qed
  qed
qed

lemma read_to_end_result:
  assumes "rinv r"
  shows "\<exists>r'. read_to_end pr buf r = Some (Inr (buf @ rest r), r') \<and> rest r' = []"
  using assms
proof (induction "length (rest r)" arbitrary: buf r rule: less_induct)
  case less
  obtain bs r1 where a: "await (pr 8192) r = Some (Inr bs, r1)" "rinv r1" "rest r = bs @ rest r1" "bs = [] \<longrightarrow> rest r = []"
    using read_awaits [OF less.prems, of 8192] by auto
  show ?case
  proof (cases "bs = []")
    case True
    then show ?thesis using a by (subst read_to_end.simps) simp
  next
    case False
    then have "length (rest r1) < length (rest r)" using a(3) by simp
    from less.hyps [OF this a(2), of "buf @ bs"] show ?thesis using False a(1,3) by (subst read_to_end.simps) simp
  qed
qed

lemma read_until_result:
  assumes "rinv r"
  shows "\<exists>r'. read_until pr c out r = Some (Inr (out @ takeWhile (\<lambda>x. x \<noteq> c) (rest r) @ take 1 (dropWhile (\<lambda>x. x \<noteq> c) (rest r))), r')
    \<and> rest r' = drop 1 (dropWhile (\<lambda>x. x \<noteq> c) (rest r))"
  using assms
proof (induction "length (rest r)" arbitrary: out r rule: less_induct)
  case less
  obtain bs r1 where a: "await (pr 1) r = Some (Inr bs, r1)" "rinv r1" "length bs \<le> 1" "rest r = bs @ rest r1" "bs = [] \<longrightarrow> rest r = []"
    using read_awaits [OF less.prems, of 1] by auto
  show ?case
  proof (cases bs)
    case Nil
    then show ?thesis using a by (subst read_until.simps) simp
  next
    case (Cons x ys)
    then have x: "bs = [x]" using a(3) by simp
    show ?thesis
    proof (cases "x = c")
      case True
      then show ?thesis using a(1,4) x by (subst read_until.simps) simp
    next
      case False
      have "length (rest r1) < length (rest r)" using a(4) x by simp
      from less.hyps [OF this a(2), of "out @ [x]"] show ?thesis using False a(1,4) x by (subst read_until.simps) simp
    qed
  qed
qed

end

locale prompt_copy = r: prompt_read pr rest rinv + w: prompt_write pw pf accepted delivered winv
  for pr :: "nat \<Rightarrow> ('r, bytes) io_poll" and rest :: "'r \<Rightarrow> bytes" and rinv :: "'r \<Rightarrow> bool"
    and pw :: "bytes \<Rightarrow> ('w, nat) io_poll" and pf :: "('w, unit) io_poll"
    and accepted :: "'w \<Rightarrow> bytes" and delivered :: "'w \<Rightarrow> bytes" and winv :: "'w \<Rightarrow> bool"
begin

lemma copy_loop_all:
  assumes "rinv a" "winv b"
  shows "\<exists>a' b'. copy_loop pr pw pf copied a b = Some (Inr (copied + length (rest a)), a', b')
    \<and> rest a' = [] \<and> accepted b' = accepted b @ rest a \<and> delivered b' = accepted b'"
  using assms
proof (induction "length (rest a)" arbitrary: a b copied rule: less_induct)
  case less
  obtain bs a1 where p: "pr 8192 a = (Ready (Inr bs), a1)" using r.read_prompt [OF less.prems(1)] by blast
  note res = r.read_result [OF less.prems(1) p]
  have rd: "rest a = bs @ rest a1" "bs = [] \<Longrightarrow> rest a = []" using res(2) [OF refl] by auto
  show ?case
  proof (cases "bs = []")
    case True
    obtain b1 where f: "pf b = (Ready (Inr ()), b1)" using w.flush_prompt [OF less.prems(2)] by blast
    have "accepted b1 = accepted b" "delivered b1 = accepted b1" using w.flush_keeps [OF less.prems(2)] w.flush_ok [OF less.prems(2) f] f by auto
    moreover have "copy_loop pr pw pf copied a b = Some (Inr copied, a1, b1)"
      using True await_prompt [of "pr 8192", OF p] await_prompt [of pf, OF f] by (subst copy_loop.simps) simp
    ultimately show ?thesis using rd True by auto
  next
    case False
    obtain b1 where wr: "write_all pw bs b = Some (Inr (), b1)" "winv b1" "accepted b1 = accepted b @ bs"
      using w.write_all_prompt [OF less.prems(2), of bs] by blast
    have "length (rest a1) < length (rest a)" using rd(1) False by simp
    from less.hyps [OF this res(1) wr(2), of "copied + length bs"] obtain a' b' where
      h: "copy_loop pr pw pf (copied + length bs) a1 b1 = Some (Inr (copied + length bs + length (rest a1)), a', b')"
      "rest a' = []" "accepted b' = accepted b1 @ rest a1" "delivered b' = accepted b'" by blast
    have "copy_loop pr pw pf copied a b = copy_loop pr pw pf (copied + length bs) a1 b1"
      using False await_prompt [of "pr 8192", OF p] wr(1) by (subst copy_loop.simps) simp
    then show ?thesis using h wr(3) rd(1) by (simp add: add.assoc)
  qed
qed

end

section \<open>Memory\<close>

text \<open>The in-memory reader and writer of the tests in \<open>io/ops.rs\<close>.\<close>

record memory_io =
  mem_input :: bytes
  mem_position :: nat
  mem_output :: bytes

definition memory_new :: "bytes \<Rightarrow> memory_io" where
  "memory_new input = \<lparr>mem_input = input, mem_position = 0, mem_output = []\<rparr>"

definition mem_read :: "nat \<Rightarrow> (memory_io, bytes) io_poll" where
  "mem_read room m =
     (let amount = min (length (mem_input m) - mem_position m) room
      in (Ready (Inr (take amount (drop (mem_position m) (mem_input m)))), m\<lparr>mem_position := mem_position m + amount\<rparr>))"

definition mem_write :: "bytes \<Rightarrow> (memory_io, nat) io_poll" where
  "mem_write bs m = (Ready (Inr (length bs)), m\<lparr>mem_output := mem_output m @ bs\<rparr>)"

definition mem_flush :: "(memory_io, unit) io_poll" where
  "mem_flush m = (Ready (Inr ()), m)"

abbreviation mem_rest :: "memory_io \<Rightarrow> bytes" where
  "mem_rest m \<equiv> drop (mem_position m) (mem_input m)"

interpretation mem_r: prompt_read mem_read mem_rest "\<lambda>m. mem_position m \<le> length (mem_input m)"
proof (unfold_locales, goal_cases)
  case (1 m n bs m')
  then show ?case by (auto simp: mem_read_def Let_def) (metis append_take_drop_id drop_drop add.commute)
next
  case (2 m n m')
  then show ?case by (auto simp: mem_read_def Let_def min_def split: if_splits)
qed (auto simp: mem_read_def Let_def)

interpretation mem_w: prompt_write mem_write mem_flush mem_output mem_output "\<lambda>_. True"
  by unfold_locales (auto simp: mem_write_def mem_flush_def)

interpretation mem_br: prompt_read "br_poll_read mem_read" "br_rest mem_rest" "br_inv (\<lambda>m. mem_position m \<le> length (mem_input m))"
  by (rule mem_r.buf_reader_is_prompt)

interpretation mem_bw: prompt_write "bw_poll_write mem_write mem_flush" "bw_poll_flush mem_write mem_flush" "bw_accepted mem_output"
  "\<lambda>b. mem_output (bw_inner b)" "bw_inv (\<lambda>_. True)"
  by (rule mem_w.buf_writer_is_prompt)

interpretation mem_copy: prompt_copy "br_poll_read mem_read" "br_rest mem_rest" "br_inv (\<lambda>m. mem_position m \<le> length (mem_input m))"
  "bw_poll_write mem_write mem_flush" "bw_poll_flush mem_write mem_flush" "bw_accepted mem_output"
  "\<lambda>b. mem_output (bw_inner b)" "bw_inv (\<lambda>_. True)"
  by unfold_locales

section \<open>One direction moves bytes in order\<close>

definition ds_pending :: "direction_state \<Rightarrow> bytes" where
  "ds_pending d = drop (ds_pos d) (take (ds_filled d) (ds_buffer d))"

definition ds_inv :: "direction_state \<Rightarrow> bytes \<Rightarrow> bool" where
  "ds_inv d rest_bytes \<longleftrightarrow> ds_pos d \<le> ds_filled d \<and> ds_filled d \<le> length (ds_buffer d) \<and> ds_buffer d \<noteq> [] \<and> (ds_eof d \<longrightarrow> rest_bytes = [])"

text \<open>What one call of \<open>poll_direction\<close> keeps, as a relation between the states before and after it.\<close>

definition moved ::
  "('r \<Rightarrow> bytes) \<Rightarrow> ('r \<Rightarrow> bool) \<Rightarrow> ('w \<Rightarrow> bytes) \<Rightarrow> ('w \<Rightarrow> bool) \<Rightarrow> 'r \<times> 'w \<times> direction_state
   \<Rightarrow> 'r \<times> 'w \<times> direction_state \<Rightarrow> bool" where
  "moved rest rinv accepted winv = (\<lambda>(r, w, d) (r', w', d').
     rinv r' \<and> winv w' \<and> ds_inv d' (rest r')
     \<and> accepted w' @ ds_pending d' @ rest r' = accepted w @ ds_pending d @ rest r
     \<and> length (accepted w') + ds_copied d = length (accepted w) + ds_copied d')"

lemma moved_trans:
  "moved rest rinv accepted winv x y \<Longrightarrow> moved rest rinv accepted winv y z \<Longrightarrow> moved rest rinv accepted winv x z"
  by (auto simp: moved_def split: prod.splits)

locale copy_ends = r: async_read pr rest rinv + w: async_write pw pf accepted delivered winv
  for pr :: "nat \<Rightarrow> ('r, bytes) io_poll" and rest :: "'r \<Rightarrow> bytes" and rinv :: "'r \<Rightarrow> bool"
    and pw :: "bytes \<Rightarrow> ('w, nat) io_poll" and pf :: "('w, unit) io_poll"
    and accepted :: "'w \<Rightarrow> bytes" and delivered :: "'w \<Rightarrow> bytes" and winv :: "'w \<Rightarrow> bool" +
  fixes ps :: "('w, unit) io_poll"
  assumes shutdown_keeps: "winv b \<Longrightarrow> winv (snd (ps b)) \<and> accepted (snd (ps b)) = accepted b"
begin

abbreviation mv :: "'r \<times> 'w \<times> direction_state \<Rightarrow> 'r \<times> 'w \<times> direction_state \<Rightarrow> bool" where
  "mv \<equiv> moved rest rinv accepted winv"

lemma moved_write:
  assumes "rinv a" "winv b" "ds_inv d (rest a)" "ds_pos d < ds_filled d" "pw (ds_pending d) b = (x, b')"
  shows "x = Ready (Inr n) \<Longrightarrow> mv (a, b, d) (a, b', d\<lparr>ds_pos := ds_pos d + n, ds_copied := ds_copied d + n\<rparr>)"
    "x = Pending \<or> x = Ready (Inl e) \<or> x = Ready (Inr 0) \<Longrightarrow> mv (a, b, d) (a, b', d)"
proof -
  note res = w.write_result [OF assms(2,5)]
  have l: "length (ds_pending d) = ds_filled d - ds_pos d" using assms(3) by (simp add: ds_pending_def ds_inv_def)
  show "mv (a, b, d) (a, b', d\<lparr>ds_pos := ds_pos d + n, ds_copied := ds_copied d + n\<rparr>)" if "x = Ready (Inr n)"
  proof -
    have n: "n \<le> ds_filled d - ds_pos d" "accepted b' = accepted b @ take n (ds_pending d)" using res(2) [OF that] l by simp_all
    have "drop (ds_pos d + n) (take (ds_filled d) (ds_buffer d)) = drop n (ds_pending d)" by (simp add: ds_pending_def add.commute)
    then have "ds_pending (d\<lparr>ds_pos := ds_pos d + n, ds_copied := ds_copied d + n\<rparr>) = drop n (ds_pending d)"
      by (simp add: ds_pending_def)
    then show ?thesis using n assms(1,3,4) res(1) l by (simp add: moved_def ds_inv_def)
  qed
  show "mv (a, b, d) (a, b', d)" if "x = Pending \<or> x = Ready (Inl e) \<or> x = Ready (Inr 0)"
    using that res(1) res(2) [of 0] res(3,4) assms(1,3) by (auto simp: moved_def)
qed

lemma moved_read:
  assumes "rinv a" "winv b" "ds_inv d (rest a)" "\<not> ds_pos d < ds_filled d" "pr (length (ds_buffer d)) a = (x, a')"
  shows "x = Ready (Inr bs) \<Longrightarrow> mv (a, b, d) (a', b, d\<lparr>ds_buffer := bs @ drop (length bs) (ds_buffer d), ds_filled := length bs, ds_pos := 0, ds_eof := (bs = [])\<rparr>)"
    "\<not> ds_eof d \<Longrightarrow> x = Pending \<or> x = Ready (Inl e) \<Longrightarrow> mv (a, b, d) (a', b, d)"
proof -
  note res = r.read_result [OF assms(1,5)]
  have e: "ds_pending d = []" using assms(4) by (simp add: ds_pending_def)
  show "mv (a, b, d) (a', b, d\<lparr>ds_buffer := bs @ drop (length bs) (ds_buffer d), ds_filled := length bs, ds_pos := 0, ds_eof := (bs = [])\<rparr>)"
    if "x = Ready (Inr bs)"
  proof -
    have g: "length bs \<le> length (ds_buffer d)" "rest a = bs @ rest a'" "bs = [] \<longrightarrow> rest a = []"
      using res(2) [OF that] assms(3) by (auto simp: ds_inv_def)
    then show ?thesis using assms(2,3) res(1) e by (auto simp: moved_def ds_inv_def ds_pending_def)
  qed
  show "mv (a, b, d) (a', b, d)" if "\<not> ds_eof d" "x = Pending \<or> x = Ready (Inl e)"
    using that res(1,3,4) assms(2,3) by (auto simp: moved_def ds_inv_def)
qed

lemma moved_shutdown:
  assumes "rinv a" "winv b" "ds_inv d (rest a)" "ps b = (x, b')"
  shows "mv (a, b, d) (a, b', d\<lparr>ds_dst_shutdown := v\<rparr>)" "mv (a, b, d) (a, b', d)"
proof -
  have "winv b'" "accepted b' = accepted b" using shutdown_keeps [OF assms(2)] assms(4) by simp_all
  then show "mv (a, b, d) (a, b', d\<lparr>ds_dst_shutdown := v\<rparr>)" "mv (a, b, d) (a, b', d)"
    using assms(1,3) by (simp_all add: moved_def ds_inv_def ds_pending_def)
qed

lemma mv_refl: "rinv a \<Longrightarrow> winv b \<Longrightarrow> ds_inv d (rest a) \<Longrightarrow> mv (a, b, d) (a, b, d)"
  by (simp add: moved_def)

lemma direction_moves:
  assumes "poll_direction p q z a b d = Some y"
  shows "p = pr \<longrightarrow> q = pw \<longrightarrow> z = ps \<longrightarrow> rinv a \<longrightarrow> winv b \<longrightarrow> ds_inv d (rest a) \<longrightarrow>
    mv (a, b, d) (snd y) \<and> (fst y = Inr DirDone \<longrightarrow> (case snd y of (a', b', d') \<Rightarrow> ds_pending d' = [] \<and> rest a' = []))"
proof (induction p q z a b d y rule: poll_direction.raw_induct)
  case 2
  show ?case by (rule assms)
next
  case (1 loop p q z a b d y)
  note IH = "1"(1) and step = "1"(2)
  show ?case
  proof (intro impI)
    assume eqs: "p = pr" "q = pw" "z = ps" and inv: "rinv a" "winv b" "ds_inv d (rest a)"
    have IH': "mv (a, b, d) (snd y) \<and> (fst y = Inr DirDone \<longrightarrow> (case snd y of (a', b', d') \<Rightarrow> ds_pending d' = [] \<and> rest a' = []))"
      if "loop pr pw ps a1 b1 d1 = Some y" "mv (a, b, d) (a1, b1, d1)" for a1 b1 d1
    proof -
      have "rinv a1" "winv b1" "ds_inv d1 (rest a1)" using that(2) by (auto simp: moved_def)
      with IH [OF that(1)] show ?thesis using moved_trans [OF that(2)] by auto
    qed
    consider (sending) "ds_pos d < ds_filled d" | (ending) "\<not> ds_pos d < ds_filled d" "ds_eof d" | (reading) "\<not> ds_pos d < ds_filled d" "\<not> ds_eof d"
      by blast
    then show "mv (a, b, d) (snd y) \<and> (fst y = Inr DirDone \<longrightarrow> (case snd y of (a', b', d') \<Rightarrow> ds_pending d' = [] \<and> rest a' = []))"
    proof cases
      case sending
      obtain x b1 where w: "pw (ds_pending d) b = (x, b1)" by fastforce
      note m = moved_write [OF inv sending w]
      consider n where "x = Ready (Inr n)" "n \<noteq> 0" | "x = Pending" | e where "x = Ready (Inl e)" | "x = Ready (Inr 0)"
        by (metis old.sum.exhaust poll.exhaust)
      then show ?thesis
      proof cases
        case 1
        then have "loop pr pw ps a b1 (d\<lparr>ds_pos := ds_pos d + n, ds_copied := ds_copied d + n\<rparr>) = Some y"
          using step eqs sending w by (simp add: ds_pending_def)
        from IH' [OF this m(1) [OF 1(1)]] show ?thesis .
      qed (use step eqs sending w m(2) in \<open>auto simp: ds_pending_def\<close>)
    next
      case ending
      have e: "ds_pending d = []" "rest a = []" using ending inv(3) by (simp_all add: ds_pending_def ds_inv_def)
      obtain x b1 where w: "ps b = (x, b1)" by fastforce
      note m = moved_shutdown [OF inv w]
      show ?thesis
      proof (cases "ds_dst_shutdown d")
        case True
        then show ?thesis using step eqs ending e mv_refl [OF inv] by auto
      next
        case False
        consider u where "x = Ready (Inr u)" | "x = Pending" | e where "x = Ready (Inl e)" by (metis old.sum.exhaust poll.exhaust)
        then show ?thesis using step eqs ending e w False m by cases (auto simp: ds_pending_def)
      qed
    next
      case reading
      obtain x a1 where w: "pr (length (ds_buffer d)) a = (x, a1)" by fastforce
      note m = moved_read [OF inv reading(1) w]
      consider bs where "x = Ready (Inr bs)" | "x = Pending" | e where "x = Ready (Inl e)" by (metis old.sum.exhaust poll.exhaust)
      then show ?thesis
      proof cases
        case 1
        then have "loop pr pw ps a1 b (d\<lparr>ds_buffer := bs @ drop (length bs) (ds_buffer d), ds_filled := length bs, ds_pos := 0, ds_eof := (bs = [])\<rparr>) = Some y"
          using step eqs reading w by simp
        from IH' [OF this m(1) [OF 1]] show ?thesis .
      qed (use step eqs reading w m(2) in auto)
    qed
  qed
qed

end

interpretation mem_ends: copy_ends mem_read mem_rest "\<lambda>m. mem_position m \<le> length (mem_input m)" mem_write mem_flush mem_output mem_output "\<lambda>_. True" mem_flush
  by unfold_locales (simp add: mem_flush_def)

section \<open>Properties\<close>

text \<open>C10. A buffered writer over any writer that keeps the documented contract neither loses, repeats nor
  reorders bytes: a write that reports \<open>n\<close> bytes has accepted exactly the first \<open>n\<close>, one that is
  pending or fails has accepted none, the buffer never exceeds its capacity, and a flush that succeeds
  has delivered everything accepted before.\<close>

theorem buffered_writer_keeps_every_byte:
  assumes "async_write pw pf accepted delivered winv" "bw_inv winv b"
    "bw_poll_write pw pf bs b = (r, b1)" "bw_poll_flush pw pf b1 = (f, b2)"
  shows "(case r of Ready (Inr n) \<Rightarrow> n \<le> length bs \<and> bw_accepted accepted b1 = bw_accepted accepted b @ take n bs
      | _ \<Rightarrow> bw_accepted accepted b1 = bw_accepted accepted b)
    \<and> length (bw_buffer b1) \<le> bw_capacity b1 \<and> bw_accepted accepted b2 = bw_accepted accepted b1 \<and> bw_inv winv b2
    \<and> (f = Ready (Inr ()) \<longrightarrow> bw_buffer b2 = [] \<and> delivered (bw_inner b2) = bw_accepted accepted b1)"
proof -
  note w = async_write.bw_write_result [OF assms(1-3)]
  then have i: "bw_inv winv b1" by blast
  note k = async_write.bw_flush_keeps [OF assms(1) i assms(4)]
  have "length (bw_buffer b1) \<le> bw_capacity b1" using i by (simp add: bw_inv_def)
  then show ?thesis using w k by auto
qed

definition mem_buffer :: "memory_io buf_writer" where
  "mem_buffer = \<lparr>bw_inner = memory_new [], bw_buffer = [1, 2], bw_pos = 0, bw_capacity = 4\<rparr>"

theorem buffered_writer_keeps_every_byte_witness:
  "mem_output (bw_inner (snd (bw_poll_flush mem_write mem_flush (snd (bw_poll_write mem_write mem_flush [3, 4, 5] mem_buffer))))) = [1, 2, 3, 4]"
proof -
  let ?b1 = "mem_buffer\<lparr>bw_buffer := [1, 2, 3, 4]\<rparr>"
  have w: "bw_poll_write mem_write mem_flush [3, 4, 5] mem_buffer = (Ready (Inr 2), ?b1)"
    by (simp add: bw_poll_write_def bw_compact_def bw_store_def mem_buffer_def Let_def)
  obtain f b2 where fl: "bw_poll_flush mem_write mem_flush ?b1 = (f, b2)" by fastforce
  have i: "bw_inv (\<lambda>_. True) mem_buffer" by (simp add: bw_inv_def mem_buffer_def)
  have "f = Ready (Inr ())" using fl by (simp add: bw_poll_flush_def bw_flush_loop.simps mem_buffer_def mem_write_def mem_flush_def)
  moreover note buffered_writer_keeps_every_byte [OF mem_w.async_write_axioms i w fl]
  ultimately show ?thesis using w fl by (simp add: bw_accepted_def mem_buffer_def memory_new_def)
qed



text \<open>One direction of \<open>copy_bidirectional\<close> moves bytes in order whatever its ends do: after a call that
  returns, what the destination has accepted, what is in the buffer and what the source still holds is
  the sequence from before, the count grows by what was accepted, and \<open>Done\<close> means that the whole
  source has been accepted.\<close>

theorem copy_direction_moves_in_order:
  assumes "copy_ends pr rest rinv pw pf accepted delivered winv ps" "rinv r" "winv w" "ds_inv d (rest r)"
    "poll_direction pr pw ps r w d = Some (res, r', w', d')"
  shows "accepted w' @ ds_pending d' @ rest r' = accepted w @ ds_pending d @ rest r
    \<and> length (accepted w') + ds_copied d = length (accepted w) + ds_copied d'
    \<and> (res = Inr DirDone \<longrightarrow> accepted w' = accepted w @ ds_pending d @ rest r)"
proof -
  note m = copy_ends.direction_moves [OF assms(1,5)]
  have mv: "moved rest rinv accepted winv (r, w, d) (r', w', d')" "res = Inr DirDone \<longrightarrow> ds_pending d' = [] \<and> rest r' = []"
    using m assms(2-4) by auto
  have s: "accepted w' @ ds_pending d' @ rest r' = accepted w @ ds_pending d @ rest r"
    "length (accepted w') + ds_copied d = length (accepted w) + ds_copied d'" using mv(1) by (auto simp: moved_def)
  show ?thesis using s mv(2) by auto
qed

declare poll_direction.simps [code]

definition short_direction :: direction_state where
  "short_direction = direction_new\<lparr>ds_buffer := [0, 0]\<rparr>"

lemma short_direction_run:
  "poll_direction mem_read mem_write mem_flush (memory_new [5, 6, 7]) (memory_new []) short_direction =
     Some (Inr DirDone, (memory_new [5, 6, 7])\<lparr>mem_position := 3\<rparr>, (memory_new [])\<lparr>mem_output := [5, 6, 7]\<rparr>,
       short_direction\<lparr>ds_buffer := [7, 6], ds_filled := 0, ds_pos := 0, ds_eof := True, ds_copied := 3, ds_dst_shutdown := True\<rparr>)"
  by code_simp

theorem copy_direction_moves_in_order_witness:
  "mem_output ((memory_new [])\<lparr>mem_output := [5, 6, 7]\<rparr>) = mem_output (memory_new []) @ ds_pending short_direction @ mem_rest (memory_new [5, 6, 7])
   \<and> fst (the (poll_direction mem_read mem_write mem_flush (memory_new [5, 6, 7]) (memory_new []) short_direction)) = Inr DirDone"
proof -
  have "mem_position (memory_new [5, 6, 7]) \<le> length (mem_input (memory_new [5, 6, 7]))" "ds_inv short_direction (mem_rest (memory_new [5, 6, 7]))"
    by (simp_all add: memory_new_def ds_inv_def short_direction_def direction_new_def)
  from copy_direction_moves_in_order [OF mem_ends.copy_ends_axioms this(1) _ this(2) short_direction_run] short_direction_run
  show ?thesis by simp
qed

text \<open>The reading loops on a reader that is always ready: \<open>read_exact\<close> returns exactly the number of
  bytes asked for, or \<open>UnexpectedEof\<close> when the stream is shorter, \<open>read_to_end\<close> returns everything, and
  \<open>read_until\<close> stops right after the first delimiter, leaving the rest of the stream unread.\<close>

theorem reading_loops_exact:
  assumes "prompt_read pr rest rinv" "rinv r"
  shows "(\<exists>r'. read_exact pr [] n r = Some (if n \<le> length (rest r) then Inr (take n (rest r)) else Inl UnexpectedEof, r') \<and> rest r' = drop n (rest r))
    \<and> (\<exists>r'. read_to_end pr buf r = Some (Inr (buf @ rest r), r') \<and> rest r' = [])
    \<and> (\<exists>line r'. read_until pr c [] r = Some (Inr line, r') \<and> rest r = line @ rest r' \<and> c \<notin> set (butlast line)
         \<and> (rest r' \<noteq> [] \<longrightarrow> line \<noteq> [] \<and> last line = c))"
proof -
  let ?P = "\<lambda>x. x \<noteq> c"
  let ?d = "dropWhile ?P (rest r)" and ?t = "takeWhile ?P (rest r)"
  have s: "rest r = ?t @ take 1 ?d @ drop 1 ?d" by simp
  have b: "c \<notin> set (butlast (?t @ take 1 ?d))"
    by (cases ?d) (auto simp: butlast_append dest: in_set_butlastD set_takeWhileD)
  have l: "drop 1 ?d \<noteq> [] \<Longrightarrow> ?t @ take 1 ?d \<noteq> [] \<and> last (?t @ take 1 ?d) = c"
    using hd_dropWhile [of ?P "rest r"] by (cases ?d) auto
  show ?thesis
    using prompt_read.read_exact_result [OF assms, of "[]" n] prompt_read.read_to_end_result [OF assms, of buf]
      prompt_read.read_until_result [OF assms, of c "[]"] s b l by (metis append_Nil append_assoc)
qed

theorem reading_loops_exact_witness:
  "(\<exists>m. read_exact mem_read [] 2 (memory_new [7, 8, 9]) = Some (Inr [7, 8], m)) \<and> (\<exists>m. read_exact mem_read [] 5 (memory_new [7, 8, 9]) = Some (Inl UnexpectedEof, m))"
proof -
  have i: "mem_position (memory_new [7, 8, 9]) \<le> length (mem_input (memory_new [7, 8, 9]))" by (simp add: memory_new_def)
  show ?thesis
    using reading_loops_exact [OF mem_r.prompt_read_axioms i, of 2] reading_loops_exact [OF mem_r.prompt_read_axioms i, of 5]
    by (auto simp: memory_new_def)
qed

end
