(* ===== verification/Io_Readiness.thy ===== *)
theory Io_Readiness
  imports Prelude
begin

text \<open>
  Readiness of registered descriptors: the flag sets of \<open>io/mod.rs\<close>, the tokens of \<open>sys/mod.rs\<close>, and
  \<open>ScheduledIo\<close>, the \<open>Readiness\<close> future and the dispatch of events of \<open>io/driver.rs\<close>. The packed word keeps
  its width. Waiters are named by numbers, a new one for each registration; the overflow list is a
  list (theory \<open>Intrusive_List\<close> shows that the linked list behaves like one).
\<close>

section \<open>Flag sets and tokens\<close>


definition INT_READABLE :: u16 where "INT_READABLE = 0b0001"
definition INT_WRITABLE :: u16 where "INT_WRITABLE = 0b0010"

definition interest_is_readable :: "u16 \<Rightarrow> bool" where
  "interest_is_readable i \<longleftrightarrow> i AND INT_READABLE \<noteq> 0"

definition interest_is_writable :: "u16 \<Rightarrow> bool" where
  "interest_is_writable i \<longleftrightarrow> i AND INT_WRITABLE \<noteq> 0"

definition READY_READABLE :: u16 where "READY_READABLE = 0b00001"
definition READY_WRITABLE :: u16 where "READY_WRITABLE = 0b00010"
definition READ_CLOSED :: u16 where "READ_CLOSED = 0b00100"
definition WRITE_CLOSED :: u16 where "WRITE_CLOSED = 0b01000"
definition READY_ERROR :: u16 where "READY_ERROR = 0b10000"

definition ready_is_readable :: "u16 \<Rightarrow> bool" where
  "ready_is_readable r \<longleftrightarrow> r AND (READY_READABLE OR READ_CLOSED OR READY_ERROR) \<noteq> 0"

definition ready_is_writable :: "u16 \<Rightarrow> bool" where
  "ready_is_writable r \<longleftrightarrow> r AND (READY_WRITABLE OR WRITE_CLOSED OR READY_ERROR) \<noteq> 0"

definition interest_satisfied :: "u16 \<Rightarrow> u16 \<Rightarrow> bool" where
  "interest_satisfied interest ready =
     (case (interest_is_readable interest, interest_is_writable interest) of
        (True, False) \<Rightarrow> ready_is_readable ready
      | (False, True) \<Rightarrow> ready_is_writable ready
      | (True, True) \<Rightarrow> ready_is_readable ready \<or> ready_is_writable ready
      | (False, False) \<Rightarrow> False)"

definition io_token_new :: "u64 \<Rightarrow> u32 \<Rightarrow> u64" where
  "io_token_new index generation = push_bit 32 (ucast generation) OR index"

definition token_index :: "u64 \<Rightarrow> u64" where
  "token_index t = t AND 0xFFFFFFFF"

definition token_generation :: "u64 \<Rightarrow> u32" where
  "token_generation t = ucast (drop_bit 32 t)"

section \<open>The packed word\<close>

definition SHUTDOWN_BIT :: u64 where "SHUTDOWN_BIT = push_bit 16 1"
definition READY_SHIFT :: nat where "READY_SHIFT = 17"
definition READY_MASK :: u64 where "READY_MASK = push_bit READY_SHIFT 0xFFFF"
definition GEN_SHIFT :: nat where "GEN_SHIFT = 33"

definition packed_ready :: "u64 \<Rightarrow> u16" where
  "packed_ready packed = ucast (drop_bit READY_SHIFT (packed AND READY_MASK))"

definition packed_generation :: "u64 \<Rightarrow> u32" where
  "packed_generation packed = ucast (drop_bit GEN_SHIFT packed)"

definition packed_new :: "u32 \<Rightarrow> u64" where
  "packed_new generation = push_bit GEN_SHIFT (ucast generation)"

text \<open>The store of \<open>set_readiness_and_wake\<close>, and one round of the loop of \<open>clear_ready\<close>: \<open>None\<close> when it
  returns without a change.\<close>

definition packed_set :: "u16 \<Rightarrow> u64 \<Rightarrow> u64" where
  "packed_set ready packed =
     (let ready_bits = packed_ready packed OR ready
      in (packed AND NOT READY_MASK) OR push_bit READY_SHIFT (ucast ready_bits))"

definition packed_clear :: "u32 \<Rightarrow> u16 \<Rightarrow> u64 \<Rightarrow> u64 option" where
  "packed_clear generation ready packed =
     (if packed_generation packed \<noteq> generation then None
      else if packed_ready packed \<noteq> ready then None
      else Some (packed AND NOT (push_bit READY_SHIFT (ucast ready))))"

section \<open>Bits\<close>

lemma ready_mask_bits: "bit READY_MASK n \<longleftrightarrow> 17 \<le> n \<and> n < 33"
proof -
  have "(0xFFFF :: u64) = mask 16" by (simp add: mask_eq_exp_minus_1)
  then have eq: "READY_MASK = push_bit 17 (mask 16)" by (simp only: READY_MASK_def READY_SHIFT_def)
  show ?thesis unfolding eq by (auto simp: bit_simps)
qed

lemma bit_packed_ready: "bit (packed_ready p) n \<longleftrightarrow> n < 16 \<and> bit p (17 + n)"
  unfolding packed_ready_def READY_SHIFT_def by (auto simp: bit_simps ready_mask_bits)

lemma bit_packed_generation: "bit (packed_generation p) n \<longleftrightarrow> n < 31 \<and> bit p (33 + n)"
  unfolding packed_generation_def GEN_SHIFT_def
  by (auto simp: bit_simps dest: bit_imp_le_length)

lemma packed_set_fields [simp]:
  "packed_ready (packed_set r p) = packed_ready p OR r" "packed_generation (packed_set r p) = packed_generation p"
  "bit (packed_set r p) 16 = bit p 16"
proof -
  show "packed_ready (packed_set r p) = packed_ready p OR r"
    by (rule bit_word_eqI) (auto simp: bit_packed_ready packed_set_def Let_def READY_SHIFT_def bit_simps ready_mask_bits)
  show "packed_generation (packed_set r p) = packed_generation p"
    by (rule bit_word_eqI) (auto simp: bit_packed_generation packed_set_def Let_def READY_SHIFT_def bit_simps ready_mask_bits dest: bit_imp_le_length)
  show "bit (packed_set r p) 16 = bit p 16"
    by (simp add: packed_set_def Let_def READY_SHIFT_def bit_simps ready_mask_bits)
qed

lemma packed_clear_fields:
  assumes "packed_clear g r p = Some p'"
  shows "packed_ready p' = 0" "packed_generation p' = packed_generation p" "bit p' 16 = bit p 16"
proof -
  have p: "packed_ready p = r" "p' = p AND NOT (push_bit 17 (ucast r))" using assms by (auto simp: packed_clear_def READY_SHIFT_def split: if_splits)
  show "packed_ready p' = 0"
    by (rule bit_word_eqI) (auto simp: p(2) bit_packed_ready bit_simps simp flip: p(1))
  show "packed_generation p' = packed_generation p"
    by (rule bit_word_eqI) (auto simp: p(2) bit_packed_generation bit_simps dest: bit_imp_le_length)
  show "bit p' 16 = bit p 16" by (simp add: p(2) bit_simps)
qed

lemma packed_new_fields [simp]:
  "packed_ready (packed_new g) = 0" "\<not> bit (packed_new g) 16" "packed_generation (packed_new g) = take_bit 31 g"
proof -
  show "packed_ready (packed_new g) = 0"
    by (rule bit_word_eqI) (auto simp: bit_packed_ready packed_new_def GEN_SHIFT_def bit_simps)
  show "\<not> bit (packed_new g) 16" by (simp add: packed_new_def GEN_SHIFT_def bit_simps)
  show "packed_generation (packed_new g) = take_bit 31 g"
    by (rule bit_word_eqI) (auto simp: bit_packed_generation packed_new_def GEN_SHIFT_def bit_simps)
qed

lemma token_fields:
  assumes "index < 2 ^ 32"
  shows "token_index (io_token_new index g) = index" "token_generation (io_token_new index g) = g"
proof -
  have m: "(0xFFFFFFFF :: u64) = mask 32" by (simp add: mask_eq_exp_minus_1)
  have "index AND mask 32 = index" using assms by (intro less_mask_eq) simp
  then have i: "bit index n \<Longrightarrow> n < 32" for n by (metis bit_and_iff bit_mask_iff)
  show "token_index (io_token_new index g) = index"
    unfolding token_index_def io_token_new_def m by (rule bit_word_eqI) (auto simp: bit_simps dest: i)
  show "token_generation (io_token_new index g) = g"
    unfolding token_generation_def io_token_new_def by (rule bit_word_eqI) (auto simp: bit_simps dest: i)
qed

section \<open>Registered descriptors\<close>

record io_waiter =
  iw_waker :: waker
  iw_interests :: u16

record scheduled_io =
  si_packed :: u64
  si_reader :: "nat option"
  si_writer :: "nat option"
  si_list :: "nat list"
  si_waiters :: "nat \<Rightarrow> io_waiter"
  si_next :: nat

definition scheduled_new :: "u32 \<Rightarrow> scheduled_io" where
  "scheduled_new generation =
     \<lparr>si_packed = packed_new generation, si_reader = None, si_writer = None, si_list = [],
      si_waiters = (\<lambda>_. \<lparr>iw_waker = 0, iw_interests = 0\<rparr>), si_next = 0\<rparr>"

text \<open>\<open>readiness\<close>: the ready set and the generation of the event.\<close>

definition io_readiness :: "u16 \<Rightarrow> scheduled_io \<Rightarrow> (u16 \<times> u32) option" where
  "io_readiness interest s =
     (if si_packed s AND SHUTDOWN_BIT \<noteq> 0
      then Some (READ_CLOSED OR WRITE_CLOSED OR READY_ERROR, packed_generation (si_packed s))
      else
        let ready = packed_ready (si_packed s)
        in if interest_satisfied interest ready then Some (ready, packed_generation (si_packed s)) else None)"

definition take_matching :: "(nat \<Rightarrow> io_waiter) \<Rightarrow> u16 \<Rightarrow> nat option \<Rightarrow> nat list \<times> nat option" where
  "take_matching wt ready slot =
     (case slot of
        None \<Rightarrow> ([], None)
      | Some node \<Rightarrow> if interest_satisfied (iw_interests (wt node)) ready then ([node], None) else ([], Some node))"

text \<open>The loop over the overflow list: each node is popped once, and pushed back if it does not match.\<close>

primrec wake_list :: "(nat \<Rightarrow> io_waiter) \<Rightarrow> u16 \<Rightarrow> nat \<Rightarrow> nat list \<Rightarrow> nat list \<Rightarrow> nat list \<times> nat list" where
  "wake_list wt ready 0 popped xs = (popped, xs)"
| "wake_list wt ready (Suc n) popped xs =
     (case xs of
        [] \<Rightarrow> (popped, [])
      | node # rest \<Rightarrow>
          if interest_satisfied (iw_interests (wt node)) ready then wake_list wt ready n (popped @ [node]) rest
          else wake_list wt ready n popped (rest @ [node]))"

text \<open>\<open>set_readiness_and_wake\<close> after it has read the word \<open>packed\<close>, under the lock: the new state and the
  waiters that were removed, whose wakers are called after the lock is released.\<close>

definition set_and_wake :: "u16 \<Rightarrow> u64 \<Rightarrow> scheduled_io \<Rightarrow> scheduled_io \<times> nat list" where
  "set_and_wake ready packed s =
     (let s = s\<lparr>si_packed := packed_set ready packed\<rparr>;
          (p1, reader) = take_matching (si_waiters s) ready (si_reader s);
          (p2, writer) = take_matching (si_waiters s) ready (si_writer s);
          (popped, list) = wake_list (si_waiters s) ready (length (si_list s)) (p1 @ p2) (si_list s)
      in (s\<lparr>si_reader := reader, si_writer := writer, si_list := list\<rparr>, popped))"

definition set_readiness_and_wake :: "u16 \<Rightarrow> scheduled_io \<Rightarrow> scheduled_io \<times> waker list" where
  "set_readiness_and_wake ready s =
     (case set_and_wake ready (si_packed s) s of (s', popped) \<Rightarrow> (s', map (iw_waker \<circ> si_waiters s') popped))"

definition io_clear_ready :: "u32 \<Rightarrow> u16 \<Rightarrow> scheduled_io \<Rightarrow> scheduled_io" where
  "io_clear_ready generation ready s =
     (case packed_clear generation ready (si_packed s) of None \<Rightarrow> s | Some p \<Rightarrow> s\<lparr>si_packed := p\<rparr>)"

datatype io_slot = ReaderSlot | WriterSlot
datatype waiter_state = Unregistered | InSlot io_slot nat | InList nat

text \<open>\<open>add_waiter\<close>: \<open>Inl\<close> is the event that the caller returns instead of parking.\<close>

definition add_waiter :: "u16 \<Rightarrow> waker \<Rightarrow> scheduled_io \<Rightarrow> ((u16 \<times> u32) + waiter_state) \<times> scheduled_io" where
  "add_waiter interest w s =
     (let ready = packed_ready (si_packed s) in
      if interest_satisfied interest ready \<or> si_packed s AND SHUTDOWN_BIT \<noteq> 0
      then (Inl (ready, packed_generation (si_packed s)), s)
      else
        let node = si_next s;
            s = s\<lparr>si_waiters := (si_waiters s)(node := \<lparr>iw_waker = w, iw_interests = interest\<rparr>), si_next := node + 1\<rparr>
        in if interest_is_readable interest \<and> si_reader s = None
           then (Inr (InSlot ReaderSlot node), s\<lparr>si_reader := Some node\<rparr>)
           else if interest_is_writable interest \<and> si_writer s = None
           then (Inr (InSlot WriterSlot node), s\<lparr>si_writer := Some node\<rparr>)
           else (Inr (InList node), s\<lparr>si_list := si_list s @ [node]\<rparr>))"

definition detach :: "waiter_state \<Rightarrow> scheduled_io \<Rightarrow> scheduled_io" where
  "detach st s =
     (case st of
        Unregistered \<Rightarrow> s
      | InSlot ReaderSlot node \<Rightarrow> if si_reader s = Some node then s\<lparr>si_reader := None\<rparr> else s
      | InSlot WriterSlot node \<Rightarrow> if si_writer s = Some node then s\<lparr>si_writer := None\<rparr> else s
      | InList node \<Rightarrow> if node \<in> set (si_list s) then s\<lparr>si_list := remove1 node (si_list s)\<rparr> else s)"

record readiness_fut =
  rf_interests :: u16
  rf_state :: waiter_state

text \<open>\<open>Readiness::poll\<close> in one piece, when nothing happens in between.\<close>

definition readiness_poll :: "waker \<Rightarrow> readiness_fut \<Rightarrow> scheduled_io \<Rightarrow> (u16 \<times> u32) poll \<times> readiness_fut \<times> scheduled_io" where
  "readiness_poll cx f s =
     (case io_readiness (rf_interests f) s of
        Some event \<Rightarrow> (Ready event, f\<lparr>rf_state := Unregistered\<rparr>, detach (rf_state f) s)
      | None \<Rightarrow>
          (case add_waiter (rf_interests f) cx (detach (rf_state f) s) of
             (Inr st, s) \<Rightarrow> (Pending, f\<lparr>rf_state := st\<rparr>, s)
           | (Inl event, s) \<Rightarrow> (Ready event, f\<lparr>rf_state := Unregistered\<rparr>, s)))"

text \<open>The dispatch of one event, with the slab as a map.\<close>

definition dispatch_event :: "u64 \<Rightarrow> u16 \<Rightarrow> (u64 \<Rightarrow> scheduled_io option) \<Rightarrow> (u64 \<Rightarrow> scheduled_io option) \<times> waker list" where
  "dispatch_event token ready slab =
     (case slab (token_index token) of
        None \<Rightarrow> (slab, [])
      | Some s \<Rightarrow>
          if packed_generation (si_packed s) \<noteq> token_generation token then (slab, [])
          else (case set_readiness_and_wake ready s of (s', ws) \<Rightarrow> (slab(token_index token := Some s'), ws)))"

section \<open>Interleavings\<close>

text \<open>
  The lock of the waiters is held from the load to the store of \<open>set_readiness_and_wake\<close> (\<open>is_set\<close> holds
  the word that was read) and during \<open>add_waiter\<close> and \<open>detach\<close>; \<open>clear_ready\<close> and the load at the start of
  a poll do not take it. \<open>is_asleep\<close> are the futures whose last poll returned \<open>Pending\<close> and that have not
  been woken or polled since, \<open>is_waker\<close> the waker of the last poll.
\<close>

record io_sys =
  is_io :: scheduled_io
  is_futs :: "nat \<Rightarrow> readiness_fut option"
  is_polls :: "nat set"
  is_asleep :: "nat set"
  is_waker :: "nat \<Rightarrow> waker"
  is_set :: "(u64 \<times> u16) option"

definition state_node :: "waiter_state \<Rightarrow> nat option" where
  "state_node st = (case st of Unregistered \<Rightarrow> None | InSlot _ node \<Rightarrow> Some node | InList node \<Rightarrow> Some node)"

definition still_asleep :: "nat list \<Rightarrow> (nat \<Rightarrow> readiness_fut option) \<Rightarrow> nat set \<Rightarrow> nat set" where
  "still_asleep popped futs fs = {f \<in> fs. \<forall>g node. futs f = Some g \<and> state_node (rf_state g) = Some node \<longrightarrow> node \<notin> set popped}"

definition io_start :: "u32 \<Rightarrow> io_sys" where
  "io_start g = \<lparr>is_io = scheduled_new g, is_futs = Map.empty, is_polls = {}, is_asleep = {}, is_waker = (\<lambda>_. 0), is_set = None\<rparr>"

inductive io_reach :: "u32 \<Rightarrow> io_sys \<Rightarrow> bool" where
  start: "io_reach g (io_start g)"
| new: "io_reach g y \<Longrightarrow> is_futs y f = None \<Longrightarrow>
    io_reach g (y\<lparr>is_futs := (is_futs y)(f \<mapsto> \<lparr>rf_interests = i, rf_state = Unregistered\<rparr>)\<rparr>)"
| poll_ready: "io_reach g y \<Longrightarrow> is_futs y f = Some fu \<Longrightarrow> is_set y = None \<Longrightarrow> io_readiness (rf_interests fu) (is_io y) = Some ev \<Longrightarrow>
    io_reach g (y\<lparr>is_io := detach (rf_state fu) (is_io y), is_futs := (is_futs y)(f \<mapsto> fu\<lparr>rf_state := Unregistered\<rparr>),
      is_asleep := is_asleep y - {f}, is_polls := is_polls y - {f}\<rparr>)"
| poll_detach: "io_reach g y \<Longrightarrow> is_futs y f = Some fu \<Longrightarrow> is_set y = None \<Longrightarrow>
    io_reach g (y\<lparr>is_io := detach (rf_state fu) (is_io y), is_futs := (is_futs y)(f \<mapsto> fu\<lparr>rf_state := Unregistered\<rparr>),
      is_asleep := is_asleep y - {f}, is_polls := insert f (is_polls y)\<rparr>)"
| poll_park: "io_reach g y \<Longrightarrow> is_futs y f = Some fu \<Longrightarrow> f \<in> is_polls y \<Longrightarrow> rf_state fu = Unregistered \<Longrightarrow> is_set y = None \<Longrightarrow>
    add_waiter (rf_interests fu) cx (is_io y) = (Inr st, s') \<Longrightarrow>
    io_reach g (y\<lparr>is_io := s', is_futs := (is_futs y)(f \<mapsto> fu\<lparr>rf_state := st\<rparr>), is_polls := is_polls y - {f},
      is_asleep := insert f (is_asleep y), is_waker := (is_waker y)(f := cx)\<rparr>)"
| poll_late: "io_reach g y \<Longrightarrow> is_futs y f = Some fu \<Longrightarrow> f \<in> is_polls y \<Longrightarrow> is_set y = None \<Longrightarrow>
    add_waiter (rf_interests fu) cx (is_io y) = (Inl ev, s') \<Longrightarrow>
    io_reach g (y\<lparr>is_io := s', is_polls := is_polls y - {f}\<rparr>)"
| drop: "io_reach g y \<Longrightarrow> is_futs y f = Some fu \<Longrightarrow> is_set y = None \<Longrightarrow>
    io_reach g (y\<lparr>is_io := detach (rf_state fu) (is_io y), is_futs := (is_futs y)(f := None),
      is_asleep := is_asleep y - {f}, is_polls := is_polls y - {f}\<rparr>)"
| set_begin: "io_reach g y \<Longrightarrow> is_set y = None \<Longrightarrow> io_reach g (y\<lparr>is_set := Some (si_packed (is_io y), r)\<rparr>)"
| set_end: "io_reach g y \<Longrightarrow> is_set y = Some (p, r) \<Longrightarrow> set_and_wake r p (is_io y) = (s', popped) \<Longrightarrow>
    io_reach g (y\<lparr>is_io := s', is_set := None, is_asleep := still_asleep popped (is_futs y) (is_asleep y)\<rparr>)"
| clear: "io_reach g y \<Longrightarrow> io_reach g (y\<lparr>is_io := io_clear_ready gen r (is_io y)\<rparr>)"

section \<open>Waiting is exact\<close>

lemma and_or_nonzero: "(a OR b) AND m \<noteq> (0 :: u16) \<longleftrightarrow> a AND m \<noteq> 0 \<or> b AND m \<noteq> 0"
  by (simp add: bit.conj_disj_distrib2 or_eq_0_iff)

lemma satisfied_or: "interest_satisfied i (a OR b) \<longleftrightarrow> interest_satisfied i a \<or> interest_satisfied i b"
  by (auto simp: interest_satisfied_def ready_is_readable_def ready_is_writable_def and_or_nonzero split: bool.splits)

lemma satisfied_0 [simp]: "\<not> interest_satisfied i 0"
  by (simp add: interest_satisfied_def ready_is_readable_def ready_is_writable_def split: bool.splits)

lemma shutdown_bit: "p AND SHUTDOWN_BIT \<noteq> 0 \<longleftrightarrow> bit p 16"
proof -
  have eq: "SHUTDOWN_BIT = 2 ^ 16" by (simp add: SHUTDOWN_BIT_def)
  show ?thesis unfolding eq by (simp only: and_exp_eq_0_iff_not_bit not_not)
qed

lemma wake_list_result:
  "wake_list wt r (length xs) popped (xs @ ys) =
     (popped @ filter (\<lambda>n. interest_satisfied (iw_interests (wt n)) r) xs, ys @ filter (\<lambda>n. \<not> interest_satisfied (iw_interests (wt n)) r) xs)"
  by (induction xs arbitrary: popped ys) auto

definition io_queue :: "scheduled_io \<Rightarrow> nat list" where
  "io_queue s = wakes_of (si_reader s) @ wakes_of (si_writer s) @ si_list s"

lemma set_and_wake_result:
  assumes "set_and_wake r p s = (s', popped)"
  defines "hit \<equiv> \<lambda>n. interest_satisfied (iw_interests (si_waiters s n)) r"
  shows "popped = filter hit (io_queue s)" "io_queue s' = filter (\<lambda>n. \<not> hit n) (io_queue s)"
    "si_packed s' = packed_set r p" "si_waiters s' = si_waiters s" "si_next s' = si_next s"
    "si_reader s' = (case si_reader s of None \<Rightarrow> None | Some n \<Rightarrow> if hit n then None else Some n)"
    "si_writer s' = (case si_writer s of None \<Rightarrow> None | Some n \<Rightarrow> if hit n then None else Some n)"
    "si_list s' = filter (\<lambda>n. \<not> hit n) (si_list s)"
  using assms wake_list_result [of "si_waiters s" r "si_list s" _ "[]"]
  by (auto simp: set_and_wake_def Let_def take_matching_def io_queue_def wakes_of_def split: option.splits if_splits prod.splits)

text \<open>Where a registered future is queued.\<close>

definition at_place :: "waiter_state \<Rightarrow> scheduled_io \<Rightarrow> bool" where
  "at_place st s = (case st of Unregistered \<Rightarrow> False | InSlot ReaderSlot n \<Rightarrow> si_reader s = Some n
     | InSlot WriterSlot n \<Rightarrow> si_writer s = Some n | InList n \<Rightarrow> n \<in> set (si_list s))"

text \<open>The state of the descriptor: queued waiters exist, once each, and what is ready satisfies none of
  them, nor did the word that an event in progress has read.\<close>

definition desc_inv :: "scheduled_io \<Rightarrow> (u64 \<times> u16) option \<Rightarrow> bool" where
  "desc_inv s lock \<longleftrightarrow> distinct (io_queue s) \<and> (\<forall>n\<in>set (io_queue s). n < si_next s) \<and> \<not> bit (si_packed s) 16
     \<and> (\<forall>n\<in>set (io_queue s). \<not> interest_satisfied (iw_interests (si_waiters s n)) (packed_ready (si_packed s)))
     \<and> (\<forall>p r. lock = Some (p, r) \<longrightarrow> \<not> bit p 16
          \<and> (\<forall>n\<in>set (io_queue s). \<not> interest_satisfied (iw_interests (si_waiters s n)) (packed_ready p)))"

definition futs_inv :: "io_sys \<Rightarrow> bool" where
  "futs_inv y \<longleftrightarrow>
     (\<forall>f fu n. is_futs y f = Some fu \<and> state_node (rf_state fu) = Some n \<longrightarrow> n < si_next (is_io y))
     \<and> (\<forall>f f' fu fu' n. is_futs y f = Some fu \<and> is_futs y f' = Some fu' \<and> state_node (rf_state fu) = Some n
          \<and> state_node (rf_state fu') = Some n \<longrightarrow> f = f')
     \<and> (\<forall>f\<in>is_asleep y. \<exists>fu n. is_futs y f = Some fu \<and> state_node (rf_state fu) = Some n \<and> at_place (rf_state fu) (is_io y)
          \<and> si_waiters (is_io y) n = \<lparr>iw_waker = is_waker y f, iw_interests = rf_interests fu\<rparr>)"

lemma at_place_queued: "at_place st s \<Longrightarrow> state_node st = Some n \<Longrightarrow> n \<in> set (io_queue s)"
  by (auto simp: at_place_def state_node_def io_queue_def wakes_of_def split: waiter_state.splits io_slot.splits)

lemma detach_fields [simp]:
  "si_packed (detach st s) = si_packed s" "si_waiters (detach st s) = si_waiters s" "si_next (detach st s) = si_next s"
  by (simp_all add: detach_def split: waiter_state.splits io_slot.splits)

lemma detach_queue: "distinct (io_queue s) \<Longrightarrow> distinct (io_queue (detach st s)) \<and> set (io_queue (detach st s)) \<subseteq> set (io_queue s)"
  by (auto simp: detach_def io_queue_def wakes_of_def split: waiter_state.splits io_slot.splits option.splits dest: notin_set_remove1 in_set_remove1)

lemma detach_desc: "desc_inv s lock \<Longrightarrow> desc_inv (detach st s) lock"
  using detach_queue [of s st] unfolding desc_inv_def by (auto dest: subsetD)

lemma detach_place:
  assumes "at_place st' s" "state_node st' \<noteq> state_node st \<or> st = Unregistered" "distinct (io_queue s)"
  shows "at_place st' (detach st s)"
  using assms by (auto simp: at_place_def detach_def state_node_def split: waiter_state.splits io_slot.splits)

lemma detach_futs:
  assumes "futs_inv y" "desc_inv (is_io y) lock" "is_futs y f = Some fu" "g = None \<or> g = Some (fu\<lparr>rf_state := Unregistered\<rparr>)"
  shows "futs_inv (y\<lparr>is_io := detach (rf_state fu) (is_io y), is_futs := (is_futs y)(f := g), is_asleep := is_asleep y - {f}, is_polls := ps\<rparr>)"
proof -
  have d: "distinct (io_queue (is_io y))" using assms(2) by (simp add: desc_inv_def)
  have keep: "\<exists>gu n. is_futs y h = Some gu \<and> state_node (rf_state gu) = Some n \<and> at_place (rf_state gu) (detach (rf_state fu) (is_io y))
      \<and> si_waiters (is_io y) n = \<lparr>iw_waker = is_waker y h, iw_interests = rf_interests gu\<rparr>"
    if asl: "h \<in> is_asleep y" and ne: "h \<noteq> f" for h
  proof -
    obtain gu n where h: "is_futs y h = Some gu" "state_node (rf_state gu) = Some n" "at_place (rf_state gu) (is_io y)"
      "si_waiters (is_io y) n = \<lparr>iw_waker = is_waker y h, iw_interests = rf_interests gu\<rparr>"
      using assms(1) asl unfolding futs_inv_def by blast
    have "state_node (rf_state gu) \<noteq> state_node (rf_state fu)"
      using assms(1,3) h(1,2) ne unfolding futs_inv_def by metis
    then show ?thesis using h detach_place [OF h(3) _ d] by blast
  qed
  show ?thesis using assms(1,4) keep unfolding futs_inv_def by (auto simp: state_node_def split: if_splits)
qed

lemma add_waiter_result:
  assumes "desc_inv s None" "add_waiter i cx s = (Inr st, s')"
  shows "desc_inv s' None" "state_node st = Some (si_next s)" "si_next s' = si_next s + 1" "at_place st s'"
    "si_waiters s' = (si_waiters s)(si_next s := \<lparr>iw_waker = cx, iw_interests = i\<rparr>)"
    "at_place st0 s \<Longrightarrow> at_place st0 s'"
proof -
  have u: "\<not> interest_satisfied i (packed_ready (si_packed s))" using assms(2) by (auto simp: add_waiter_def Let_def split: if_splits)
  have n: "si_next s \<notin> set (io_queue s)" using assms(1) by (auto simp: desc_inv_def)
  have a: "si_packed s' = si_packed s \<and> state_node st = Some (si_next s) \<and> si_next s' = si_next s + 1 \<and> at_place st s'
    \<and> si_waiters s' = (si_waiters s)(si_next s := \<lparr>iw_waker = cx, iw_interests = i\<rparr>) \<and> (at_place st0 s \<longrightarrow> at_place st0 s')
    \<and> mset (io_queue s') = add_mset (si_next s) (mset (io_queue s))"
    using assms(2) by (auto simp: add_waiter_def Let_def state_node_def at_place_def io_queue_def wakes_of_def split: if_splits waiter_state.splits io_slot.splits)
  then have q: "set (io_queue s') = insert (si_next s) (set (io_queue s))" by (metis set_mset_mset set_mset_add_mset_insert)
  have "distinct (io_queue s')" using a n assms(1) unfolding desc_inv_def by (metis distinct.simps(2) mset.simps(2) mset_eq_imp_distinct_iff)
  then show "desc_inv s' None" using a q u n assms(1) unfolding desc_inv_def by (auto simp: less_Suc_eq)
  show "state_node st = Some (si_next s)" "si_next s' = si_next s + 1" "at_place st s'"
    "si_waiters s' = (si_waiters s)(si_next s := \<lparr>iw_waker = cx, iw_interests = i\<rparr>)" "at_place st0 s \<Longrightarrow> at_place st0 s'"
    using a by blast+
qed

lemma futs_invD:
  assumes "futs_inv y"
  shows "is_futs y f = Some fu \<Longrightarrow> state_node (rf_state fu) = Some n \<Longrightarrow> n < si_next (is_io y)"
    "is_futs y f = Some fu \<Longrightarrow> is_futs y f' = Some fu' \<Longrightarrow> state_node (rf_state fu) = Some n \<Longrightarrow> state_node (rf_state fu') = Some n \<Longrightarrow> f = f'"
    "is_futs y f = Some fu \<Longrightarrow> state_node (rf_state fu) \<noteq> Some (si_next (is_io y))"
    "f \<in> is_asleep y \<Longrightarrow> \<exists>fu n. is_futs y f = Some fu \<and> state_node (rf_state fu) = Some n \<and> at_place (rf_state fu) (is_io y)
      \<and> si_waiters (is_io y) n = \<lparr>iw_waker = is_waker y f, iw_interests = rf_interests fu\<rparr>"
  using assms unfolding futs_inv_def by blast+

lemma new_futs:
  assumes "futs_inv y" "is_futs y f = None"
  shows "futs_inv (y\<lparr>is_futs := (is_futs y)(f \<mapsto> \<lparr>rf_interests = i, rf_state = Unregistered\<rparr>)\<rparr>)"
  unfolding futs_inv_def
proof (intro conjI allI impI ballI, goal_cases)
  case (1 h gu n)
  then show ?case using futs_invD(1) [OF assms(1)] by (auto simp: state_node_def split: if_splits)
next
  case (2 h h' gu gu' n)
  then show ?case using futs_invD(2) [OF assms(1), of h gu h' gu' n] by (auto simp: state_node_def split: if_splits)
next
  case (3 h)
  then show ?case using futs_invD(4) [OF assms(1), of h] assms(2) by auto
qed

lemma add_waiter_late: "add_waiter i cx s = (Inl ev, s') \<Longrightarrow> s' = s"
  by (auto simp: add_waiter_def Let_def split: if_splits)

lemma park_futs:
  assumes "futs_inv y" "desc_inv (is_io y) None" "is_futs y f = Some fu" "add_waiter (rf_interests fu) cx (is_io y) = (Inr st, s')"
  shows "futs_inv (y\<lparr>is_io := s', is_futs := (is_futs y)(f \<mapsto> fu\<lparr>rf_state := st\<rparr>), is_polls := ps,
      is_asleep := insert f (is_asleep y), is_waker := (is_waker y)(f := cx)\<rparr>)"
proof -
  note r = add_waiter_result [OF assms(2,4)]
  let ?n = "si_next (is_io y)"
  have old: "is_futs y h = Some gu \<Longrightarrow> state_node (rf_state gu) = Some n \<Longrightarrow> n < ?n" for h gu n
    using assms(1) unfolding futs_inv_def by blast
  have keep: "\<exists>gu n. is_futs y h = Some gu \<and> state_node (rf_state gu) = Some n \<and> at_place (rf_state gu) s'
      \<and> si_waiters s' n = \<lparr>iw_waker = is_waker y h, iw_interests = rf_interests gu\<rparr>"
    if asl: "h \<in> is_asleep y" for h
  proof -
    obtain gu n where h: "is_futs y h = Some gu" "state_node (rf_state gu) = Some n" "at_place (rf_state gu) (is_io y)"
      "si_waiters (is_io y) n = \<lparr>iw_waker = is_waker y h, iw_interests = rf_interests gu\<rparr>"
      using assms(1) asl unfolding futs_inv_def by blast
    then have "n \<noteq> ?n" using old by blast
    then show ?thesis using h r(5) r(6) [OF h(3)] by auto
  qed
  show ?thesis
    unfolding futs_inv_def
  proof (intro conjI allI impI ballI, goal_cases)
    case (1 h gu n)
    then show ?case using old r(2,3) by (auto split: if_splits dest: less_SucI)
  next
    case (2 h h' gu gu' n)
    then show ?case using futs_invD(2) [OF assms(1), of h gu h' gu' n] futs_invD(3) [OF assms(1)] r(2) by (auto split: if_splits)
  next
    case (3 h)
    then show ?case using keep [of h] r(2,4,5) by (cases "h = f") auto
  qed
qed

lemma set_desc:
  assumes "desc_inv s (Some (p, r))" "set_and_wake r p s = (s', popped)"
  shows "desc_inv s' None"
proof -
  note k = set_and_wake_result [OF assms(2)]
  show ?thesis using assms(1) unfolding desc_inv_def k(2-5) by (auto simp: satisfied_or)
qed

lemma set_futs:
  assumes "futs_inv y" "set_and_wake r p (is_io y) = (s', popped)"
  shows "futs_inv (y\<lparr>is_io := s', is_set := None, is_asleep := still_asleep popped (is_futs y) (is_asleep y)\<rparr>)"
proof -
  note k = set_and_wake_result [OF assms(2)]
  have "\<exists>gu n. is_futs y h = Some gu \<and> state_node (rf_state gu) = Some n \<and> at_place (rf_state gu) s'
      \<and> si_waiters s' n = \<lparr>iw_waker = is_waker y h, iw_interests = rf_interests gu\<rparr>"
    if asl: "h \<in> still_asleep popped (is_futs y) (is_asleep y)" for h
  proof -
    have "h \<in> is_asleep y" using asl by (simp add: still_asleep_def)
    then obtain gu n where h: "is_futs y h = Some gu" "state_node (rf_state gu) = Some n" "at_place (rf_state gu) (is_io y)"
      "si_waiters (is_io y) n = \<lparr>iw_waker = is_waker y h, iw_interests = rf_interests gu\<rparr>"
      using assms(1) unfolding futs_inv_def by blast
    have "n \<notin> set popped" using asl h by (simp add: still_asleep_def)
    then have "\<not> interest_satisfied (iw_interests (si_waiters (is_io y) n)) r" using at_place_queued [OF h(3,2)] k(1) by auto
    then have "at_place (rf_state gu) s'" using h(2,3) k(6-8)
      by (auto simp: at_place_def state_node_def split: waiter_state.splits io_slot.splits)
    then show ?thesis using h k(4) by auto
  qed
  then show ?thesis using assms(1) k(5) unfolding futs_inv_def by simp
qed

lemma clear_desc: "desc_inv s lock \<Longrightarrow> desc_inv (io_clear_ready g r s) lock"
proof (cases "packed_clear g r (si_packed s)")
  case None
  then show "desc_inv s lock \<Longrightarrow> ?thesis" by (simp add: io_clear_ready_def)
next
  case (Some p)
  then show "desc_inv s lock \<Longrightarrow> ?thesis" using packed_clear_fields [OF Some] by (simp add: io_clear_ready_def desc_inv_def io_queue_def)
qed

lemma clear_fields [simp]:
  "si_next (io_clear_ready g r s) = si_next s" "si_waiters (io_clear_ready g r s) = si_waiters s"
  "at_place st (io_clear_ready g r s) = at_place st s"
  by (simp_all add: io_clear_ready_def at_place_def split: option.splits waiter_state.splits io_slot.splits)

lemma io_reach_inv: "io_reach g y \<Longrightarrow> desc_inv (is_io y) (is_set y) \<and> futs_inv y"
proof (induction rule: io_reach.induct)
  case (start g)
  then show ?case by (simp add: io_start_def desc_inv_def futs_inv_def scheduled_new_def io_queue_def wakes_of_def)
next
  case (new g y f i)
  then show ?case using new_futs [of y f i] by simp
next
  case (poll_ready g y f fu ev)
  then show ?case using detach_desc detach_futs [of y "is_set y" f fu] by auto
next
  case (poll_detach g y f fu)
  then show ?case using detach_desc detach_futs [of y "is_set y" f fu] by auto
next
  case (poll_park g y f fu cx st s')
  then show ?case using add_waiter_result(1) park_futs [of y f fu cx st s'] by auto
next
  case (poll_late g y f fu cx ev s')
  have "s' = is_io y" by (rule add_waiter_late [OF poll_late.hyps(5)])
  then show ?case using poll_late.IH by (simp add: futs_inv_def)
next
  case (drop g y f fu)
  then show ?case using detach_desc detach_futs [of y "is_set y" f fu None] by auto
next
  case (set_begin g y r)
  then show ?case by (auto simp: desc_inv_def futs_inv_def)
next
  case (set_end g y p r s' popped)
  then show ?case using set_desc set_futs by auto
next
  case (clear g y gen r)
  then show ?case using clear_desc by (auto simp: futs_inv_def)
qed

section \<open>Generations\<close>

lemma detach_packed: "si_packed (detach st s) = si_packed s"
  by simp

lemma add_waiter_packed: "add_waiter i cx s = (x, s') \<Longrightarrow> si_packed s' = si_packed s"
  by (auto simp: add_waiter_def Let_def split: if_splits)

lemma clear_generation: "packed_generation (si_packed (io_clear_ready g r s)) = packed_generation (si_packed s)"
  using packed_clear_fields(2) by (auto simp: io_clear_ready_def split: option.splits)

lemma generation_kept:
  "io_reach g y \<Longrightarrow> packed_generation (si_packed (is_io y)) = take_bit 31 g
     \<and> (\<forall>p r. is_set y = Some (p, r) \<longrightarrow> packed_generation p = take_bit 31 g)"
proof (induction rule: io_reach.induct)
  case (start g)
  then show ?case by (simp add: io_start_def scheduled_new_def)
next
  case (poll_park g y f fu cx st s')
  then show ?case using add_waiter_packed [OF poll_park.hyps(6)] by simp
next
  case (poll_late g y f fu cx ev s')
  then show ?case using add_waiter_packed [OF poll_late.hyps(5)] by simp
next
  case (set_end g y p r s' popped)
  then show ?case using set_and_wake_result(3) [OF set_end.hyps(3)] by simp
qed (simp_all add: clear_generation)

lemma low_generation: "take_bit 31 g = g \<longleftrightarrow> g < 2 ^ 31" for g :: u32
proof
  assume "take_bit 31 g = g"
  then have "g = g AND mask 31" by (simp add: take_bit_eq_mask)
  moreover have "g AND mask 31 < 2 ^ 31" by (rule and_mask_less_size) (simp add: word_size)
  ultimately show "g < 2 ^ 31" by metis
next
  assume "g < 2 ^ 31"
  then show "take_bit 31 g = g" unfolding take_bit_eq_mask by (intro less_mask_eq) simp
qed

section \<open>Properties\<close>

text \<open>C7. No readiness is lost and no wrong task is woken: while a \<open>Readiness\<close> future sleeps, what is ready does
  not satisfy its interest, in every interleaving of polls, events, clears and drops; the next event
  that satisfies it calls the waker of its last poll; and an event wakes only waiters whose interest
  it satisfies.\<close>

theorem readiness_is_not_lost:
  assumes "io_reach g y" "f \<in> is_asleep y" "is_futs y f = Some fu"
  shows "\<not> interest_satisfied (rf_interests fu) (packed_ready (si_packed (is_io y)))
    \<and> (\<forall>r. interest_satisfied (rf_interests fu) r \<longrightarrow> is_waker y f \<in> set (snd (set_readiness_and_wake r (is_io y))))
    \<and> (\<forall>r. \<forall>w\<in>set (snd (set_readiness_and_wake r (is_io y))).
         \<exists>n\<in>set (io_queue (is_io y)). si_waiters (is_io y) n = \<lparr>iw_waker = w, iw_interests = iw_interests (si_waiters (is_io y) n)\<rparr>
           \<and> interest_satisfied (iw_interests (si_waiters (is_io y) n)) r)"
proof -
  have inv: "desc_inv (is_io y) (is_set y)" "futs_inv y" using io_reach_inv [OF assms(1)] by auto
  obtain n where n: "state_node (rf_state fu) = Some n" "at_place (rf_state fu) (is_io y)"
    "si_waiters (is_io y) n = \<lparr>iw_waker = is_waker y f, iw_interests = rf_interests fu\<rparr>"
    using futs_invD(4) [OF inv(2) assms(2)] assms(3) by auto
  have q: "n \<in> set (io_queue (is_io y))" by (rule at_place_queued [OF n(2,1)])
  have u: "\<not> interest_satisfied (rf_interests fu) (packed_ready (si_packed (is_io y)))"
    using inv(1) q n(3) unfolding desc_inv_def by force
  have s: "snd (set_readiness_and_wake r (is_io y)) = map (\<lambda>n. iw_waker (si_waiters (is_io y) n))
      (filter (\<lambda>n. interest_satisfied (iw_interests (si_waiters (is_io y) n)) r) (io_queue (is_io y)))" for r
  proof -
    obtain s' popped where sw: "set_and_wake r (si_packed (is_io y)) (is_io y) = (s', popped)" by fastforce
    show ?thesis using set_and_wake_result(1,4) [OF sw] sw by (simp add: set_readiness_and_wake_def comp_def)
  qed
  show ?thesis unfolding s using u q n(3) by force
qed

definition io_demo :: io_sys where
  "io_demo = (io_start 7)\<lparr>is_io := (scheduled_new 7)\<lparr>si_reader := Some 0, si_next := 1,
       si_waiters := (si_waiters (scheduled_new 7))(0 := \<lparr>iw_waker = 9, iw_interests = INT_READABLE\<rparr>)\<rparr>,
     is_futs := [3 \<mapsto> \<lparr>rf_interests = INT_READABLE, rf_state = InSlot ReaderSlot 0\<rparr>],
     is_asleep := {3}, is_waker := (\<lambda>_. 0)(3 := 9)\<rparr>"

lemma io_demo_reach: "io_reach 7 io_demo"
proof -
  let ?fu = "\<lparr>rf_interests = INT_READABLE, rf_state = Unregistered\<rparr>"
  have 1: "io_reach 7 ((io_start 7)\<lparr>is_futs := [3 \<mapsto> ?fu]\<rparr>)"
    using io_reach.new [OF io_reach.start [of 7], of 3 INT_READABLE] by (simp add: io_start_def)
  have 2: "io_reach 7 ((io_start 7)\<lparr>is_futs := [3 \<mapsto> ?fu], is_polls := {3}\<rparr>)"
    using io_reach.poll_detach [OF 1, of 3 ?fu] by (simp add: io_start_def detach_def)
  have z: "\<not> packed_new 7 AND SHUTDOWN_BIT \<noteq> 0" by (simp add: shutdown_bit)
  have r: "interest_is_readable INT_READABLE" by (simp add: interest_is_readable_def INT_READABLE_def)
  have "add_waiter INT_READABLE 9 (scheduled_new 7) = (Inr (InSlot ReaderSlot 0), is_io io_demo)"
    using z r by (simp add: add_waiter_def scheduled_new_def io_demo_def)
  then show ?thesis
    using io_reach.poll_park [OF 2, of 3 ?fu 9 "InSlot ReaderSlot 0" "is_io io_demo"]
    by (simp add: io_start_def io_demo_def)
qed

theorem readiness_is_not_lost_witness: "9 \<in> set (snd (set_readiness_and_wake READY_READABLE (is_io io_demo)))"
proof -
  have "interest_satisfied INT_READABLE READY_READABLE"
    by (simp add: interest_satisfied_def interest_is_readable_def interest_is_writable_def INT_READABLE_def INT_WRITABLE_def
        ready_is_readable_def READY_READABLE_def READ_CLOSED_def READY_ERROR_def)
  then show ?thesis
    using readiness_is_not_lost [OF io_demo_reach, of 3 "\<lparr>rf_interests = INT_READABLE, rf_state = InSlot ReaderSlot 0\<rparr>"]
    by (simp add: io_demo_def)
qed

text \<open>The index and the generation of a registration survive the way through the kernel: packed into a
  token and read back they are the same, the word of the descriptor keeps the generation whatever
  happens to it, so an event of the registration is delivered and an event with another generation is
  discarded. This holds for the first 2 ^ 31 registrations.\<close>

theorem registration_round_trip:
  assumes "index < 2 ^ 32" "g < 2 ^ 31" "io_reach g y"
  shows "token_index (io_token_new index g) = index \<and> token_generation (io_token_new index g) = g
    \<and> packed_generation (si_packed (is_io y)) = g
    \<and> dispatch_event (io_token_new index g) r [index \<mapsto> is_io y] =
        ([index \<mapsto> fst (set_readiness_and_wake r (is_io y))], snd (set_readiness_and_wake r (is_io y)))
    \<and> (\<forall>g'. g' \<noteq> g \<longrightarrow> dispatch_event (io_token_new index g') r [index \<mapsto> is_io y] = ([index \<mapsto> is_io y], []))"
proof -
  have k: "packed_generation (si_packed (is_io y)) = g" using generation_kept [OF assms(3)] low_generation assms(2) by metis
  show ?thesis using token_fields [OF assms(1)] k by (auto simp: dispatch_event_def split: prod.splits)
qed

theorem registration_round_trip_witness:
  "token_index (io_token_new 5 7) = 5 \<and> token_generation (io_token_new 5 7) = 7 \<and> packed_generation (si_packed (is_io io_demo)) = 7"
  using registration_round_trip [of 5 7, OF _ _ io_demo_reach] by simp

text \<open>From the 2 ^ 31st registration on, the generation does not fit above the readiness bits and its
  highest bit is lost: every event of such a registration is discarded as stale, so its futures are
  never woken.\<close>

theorem late_registrations_get_no_events:
  assumes "index < 2 ^ 32" "2 ^ 31 \<le> g" "io_reach g y" "slab index = Some (is_io y)"
  shows "dispatch_event (io_token_new index g) r slab = (slab, [])"
proof -
  have "take_bit 31 g \<noteq> g" using low_generation [of g] assms(2) by simp
  then have "packed_generation (si_packed (is_io y)) \<noteq> g" using generation_kept [OF assms(3)] by metis
  then show ?thesis using token_fields [OF assms(1)] assms(4) by (simp add: dispatch_event_def)
qed

theorem late_registrations_get_no_events_witness:
  "dispatch_event (io_token_new 5 (2 ^ 31)) READY_READABLE [5 \<mapsto> scheduled_new (2 ^ 31)] = ([5 \<mapsto> scheduled_new (2 ^ 31)], [])"
  by (rule late_registrations_get_no_events [OF _ _ io_reach.start]) (simp_all add: io_start_def)

text \<open>Clearing removes the reported bits only if nothing was reported since, and only for the same
  registration.\<close>

lemma clear_only_what_was_seen:
  "packed_clear g r p = None \<or> packed_generation p = g \<and> packed_ready p = r"
  by (simp add: packed_clear_def)

end
