(* ===== verification/Combinators.thy ===== *)
theory Combinators
  imports Prelude
begin

text \<open>
  The combinators of \<open>future/mod.rs\<close>: joins, fallible joins, selects with and without guards, the
  loop of the \<open>select!\<close> macro, and \<open>yield_now\<close>. A future is a state with a poll function; \<open>'e\<close> is what the
  poll sees of the world (the context, and the resources it asks), and \<open>None\<close> is a panic, such as that
  of a future polled after its completion.
\<close>

section \<open>Model\<close>

type_synonym ('e, 'f, 'o) fut = "'e \<Rightarrow> 'f \<Rightarrow> ('o poll \<times> 'f) option"

subsection \<open>Join\<close>

record ('a, 'x, 'b, 'y) Join2 =
  j_a :: 'a
  j_b :: 'b
  j_a_output :: "'x option"
  j_b_output :: "'y option"

definition join2 :: "'a \<Rightarrow> 'b \<Rightarrow> ('a, 'x, 'b, 'y) Join2" where
  "join2 a b = \<lparr>j_a = a, j_b = b, j_a_output = None, j_b_output = None\<rparr>"

definition join2_poll_a :: "('e, 'a, 'x) fut \<Rightarrow> 'e \<Rightarrow> ('a, 'x, 'b, 'y) Join2 \<Rightarrow> ('a, 'x, 'b, 'y) Join2 option" where
  "join2_poll_a pa e s =
     (if j_a_output s = None
      then case pa e (j_a s) of
             None \<Rightarrow> None
           | Some (Ready x, a) \<Rightarrow> Some (s\<lparr>j_a := a, j_a_output := Some x\<rparr>)
           | Some (Pending, a) \<Rightarrow> Some (s\<lparr>j_a := a\<rparr>)
      else Some s)"

definition join2_poll_b :: "('e, 'b, 'y) fut \<Rightarrow> 'e \<Rightarrow> ('a, 'x, 'b, 'y) Join2 \<Rightarrow> ('a, 'x, 'b, 'y) Join2 option" where
  "join2_poll_b pb e s =
     (if j_b_output s = None
      then case pb e (j_b s) of
             None \<Rightarrow> None
           | Some (Ready y, b) \<Rightarrow> Some (s\<lparr>j_b := b, j_b_output := Some y\<rparr>)
           | Some (Pending, b) \<Rightarrow> Some (s\<lparr>j_b := b\<rparr>)
      else Some s)"

definition join2_poll :: "('e, 'a, 'x) fut \<Rightarrow> ('e, 'b, 'y) fut \<Rightarrow> ('e, ('a, 'x, 'b, 'y) Join2, 'x \<times> 'y) fut" where
  "join2_poll pa pb e s =
     (case join2_poll_a pa e s of
        None \<Rightarrow> None
      | Some s \<Rightarrow>
          (case join2_poll_b pb e s of
             None \<Rightarrow> None
           | Some s \<Rightarrow>
               (case (j_a_output s, j_b_output s) of
                  (Some x, Some y) \<Rightarrow> Some (Ready (x, y), s\<lparr>j_a_output := None, j_b_output := None\<rparr>)
                | _ \<Rightarrow> Some (Pending, s))))"

subsection \<open>Fallible join\<close>

text \<open>One branch of a fallible join: the poll of an unfinished future, with \<open>Inl\<close> for the error that ends
  the join at once.\<close>

definition try_branch :: "('e, 'f, 'err + 'x) fut \<Rightarrow> 'e \<Rightarrow> 'f \<Rightarrow> 'x option \<Rightarrow> (('err \<times> 'f) + 'f \<times> 'x option) option" where
  "try_branch p e f out =
     (if out = None
      then case p e f of
             None \<Rightarrow> None
           | Some (Ready (Inr x), f) \<Rightarrow> Some (Inr (f, Some x))
           | Some (Ready (Inl er), f) \<Rightarrow> Some (Inl (er, f))
           | Some (Pending, f) \<Rightarrow> Some (Inr (f, None))
      else Some (Inr (f, out)))"

definition try_join2_poll :: "('e, 'a, 'err + 'x) fut \<Rightarrow> ('e, 'b, 'err + 'y) fut \<Rightarrow> ('e, ('a, 'x, 'b, 'y) Join2, 'err + 'x \<times> 'y) fut" where
  "try_join2_poll pa pb e s =
     (case try_branch pa e (j_a s) (j_a_output s) of
        None \<Rightarrow> None
      | Some (Inl (er, a)) \<Rightarrow> Some (Ready (Inl er), s\<lparr>j_a := a\<rparr>)
      | Some (Inr (a, xo)) \<Rightarrow>
          (case try_branch pb e (j_b s) (j_b_output s) of
             None \<Rightarrow> None
           | Some (Inl (er, b)) \<Rightarrow> Some (Ready (Inl er), s\<lparr>j_a := a, j_a_output := xo, j_b := b\<rparr>)
           | Some (Inr (b, yo)) \<Rightarrow>
               (case (xo, yo) of
                  (Some x, Some y) \<Rightarrow> Some (Ready (Inr (x, y)), \<lparr>j_a = a, j_b = b, j_a_output = None, j_b_output = None\<rparr>)
                | _ \<Rightarrow> Some (Pending, \<lparr>j_a = a, j_b = b, j_a_output = xo, j_b_output = yo\<rparr>))))"

record ('a, 'x, 'b, 'y, 'c, 'z) TryJoin3 =
  t_a :: 'a
  t_b :: 'b
  t_c :: 'c
  t_a_output :: "'x option"
  t_b_output :: "'y option"
  t_c_output :: "'z option"

definition try_join3 :: "'a \<Rightarrow> 'b \<Rightarrow> 'c \<Rightarrow> ('a, 'x, 'b, 'y, 'c, 'z) TryJoin3" where
  "try_join3 a b c = \<lparr>t_a = a, t_b = b, t_c = c, t_a_output = None, t_b_output = None, t_c_output = None\<rparr>"

definition try_join3_poll ::
  "('e, 'a, 'err + 'x) fut \<Rightarrow> ('e, 'b, 'err + 'y) fut \<Rightarrow> ('e, 'c, 'err + 'z) fut \<Rightarrow>
   ('e, ('a, 'x, 'b, 'y, 'c, 'z) TryJoin3, 'err + 'x \<times> 'y \<times> 'z) fut" where
  "try_join3_poll pa pb pc e s =
     (case try_branch pa e (t_a s) (t_a_output s) of
        None \<Rightarrow> None
      | Some (Inl (er, a)) \<Rightarrow> Some (Ready (Inl er), s\<lparr>t_a := a\<rparr>)
      | Some (Inr (a, xo)) \<Rightarrow>
          (case try_branch pb e (t_b s) (t_b_output s) of
             None \<Rightarrow> None
           | Some (Inl (er, b)) \<Rightarrow> Some (Ready (Inl er), s\<lparr>t_a := a, t_a_output := xo, t_b := b\<rparr>)
           | Some (Inr (b, yo)) \<Rightarrow>
               (case try_branch pc e (t_c s) (t_c_output s) of
                  None \<Rightarrow> None
                | Some (Inl (er, c)) \<Rightarrow> Some (Ready (Inl er), s\<lparr>t_a := a, t_a_output := xo, t_b := b, t_b_output := yo, t_c := c\<rparr>)
                | Some (Inr (c, zo)) \<Rightarrow>
                    (case (xo, yo, zo) of
                       (Some x, Some y, Some z) \<Rightarrow>
                         Some (Ready (Inr (x, y, z)), \<lparr>t_a = a, t_b = b, t_c = c, t_a_output = None, t_b_output = None, t_c_output = None\<rparr>)
                     | _ \<Rightarrow> Some (Pending, \<lparr>t_a = a, t_b = b, t_c = c, t_a_output = xo, t_b_output = yo, t_c_output = zo\<rparr>)))))"

subsection \<open>Select\<close>

datatype ('a, 'b) either = LeftOf 'a | RightOf 'b

record ('a, 'b) Select2 =
  s_a :: 'a
  s_b :: 'b
  s_first_a :: bool
  s_randomize :: bool

text \<open>\<open>SELECT_SEED\<close> and one successful round of \<open>next_select_turn\<close>: the new seed and the turn.\<close>

definition SELECT_SEED :: u64 where "SELECT_SEED = 0x9E3779B97F4A7C15"

definition next_select_turn :: "u64 \<Rightarrow> u64 \<times> bool" where
  "next_select_turn current =
     (let nx = current XOR push_bit 13 current;
          nx = nx XOR drop_bit 7 nx;
          nx = nx XOR push_bit 17 nx
      in (nx, nx AND 1 = 0))"

definition select2 :: "bool \<Rightarrow> 'a \<Rightarrow> 'b \<Rightarrow> ('a, 'b) Select2" where
  "select2 turn a b = \<lparr>s_a = a, s_b = b, s_first_a = turn, s_randomize = True\<rparr>"

definition select2_biased :: "'a \<Rightarrow> 'b \<Rightarrow> ('a, 'b) Select2" where
  "select2_biased a b = \<lparr>s_a = a, s_b = b, s_first_a = True, s_randomize = False\<rparr>"

definition select2_poll :: "('e, 'a, 'x) fut \<Rightarrow> ('e, 'b, 'y) fut \<Rightarrow> ('e, ('a, 'b) Select2, ('x, 'y) either) fut" where
  "select2_poll pa pb e s =
     (let first_a = (if s_randomize s then s_first_a s else True);
          s = (if s_randomize s then s\<lparr>s_first_a := \<not> s_first_a s\<rparr> else s)
      in if first_a
         then (case pa e (s_a s) of
                 None \<Rightarrow> None
               | Some (Ready x, a) \<Rightarrow> Some (Ready (LeftOf x), s\<lparr>s_a := a\<rparr>)
               | Some (Pending, a) \<Rightarrow>
                   (case pb e (s_b s) of
                      None \<Rightarrow> None
                    | Some (Ready y, b) \<Rightarrow> Some (Ready (RightOf y), s\<lparr>s_a := a, s_b := b\<rparr>)
                    | Some (Pending, b) \<Rightarrow> Some (Pending, s\<lparr>s_a := a, s_b := b\<rparr>)))
         else (case pb e (s_b s) of
                 None \<Rightarrow> None
               | Some (Ready y, b) \<Rightarrow> Some (Ready (RightOf y), s\<lparr>s_b := b\<rparr>)
               | Some (Pending, b) \<Rightarrow>
                   (case pa e (s_a s) of
                      None \<Rightarrow> None
                    | Some (Ready x, a) \<Rightarrow> Some (Ready (LeftOf x), s\<lparr>s_a := a, s_b := b\<rparr>)
                    | Some (Pending, a) \<Rightarrow> Some (Pending, s\<lparr>s_a := a, s_b := b\<rparr>))))"

text \<open>\<open>race2\<close>: the value of the branch that won.\<close>

definition race2_poll :: "('e, 'a, 'x) fut \<Rightarrow> ('e, 'b, 'x) fut \<Rightarrow> ('e, ('a, 'b) Select2, 'x) fut" where
  "race2_poll pa pb e s =
     (case select2_poll pa pb e s of
        None \<Rightarrow> None
      | Some (Pending, s) \<Rightarrow> Some (Pending, s)
      | Some (Ready (LeftOf x), s) \<Rightarrow> Some (Ready x, s)
      | Some (Ready (RightOf x), s) \<Rightarrow> Some (Ready x, s))"

subsection \<open>Select with guards\<close>

record ('a, 'b) select2_guarded =
  g_a :: 'a
  g_b :: 'b
  g_a_enabled :: bool
  g_b_enabled :: bool
  g_first_a :: bool
  g_randomize :: bool

definition guarded_new :: "bool \<Rightarrow> 'a \<Rightarrow> bool \<Rightarrow> 'b \<Rightarrow> bool \<Rightarrow> bool \<Rightarrow> ('a, 'b) select2_guarded" where
  "guarded_new turn a a_enabled b b_enabled biased =
     \<lparr>g_a = a, g_b = b, g_a_enabled = a_enabled, g_b_enabled = b_enabled,
      g_first_a = (if biased then True else turn), g_randomize = (\<not> biased)\<rparr>"

definition disable_a :: "('a, 'b) select2_guarded \<Rightarrow> ('a, 'b) select2_guarded" where
  "disable_a s = s\<lparr>g_a_enabled := False\<rparr>"

definition disable_b :: "('a, 'b) select2_guarded \<Rightarrow> ('a, 'b) select2_guarded" where
  "disable_b s = s\<lparr>g_b_enabled := False\<rparr>"

text \<open>A branch is polled only while it is enabled.\<close>

definition poll_enabled :: "bool \<Rightarrow> ('e, 'f, 'o) fut \<Rightarrow> ('e, 'f, 'o) fut" where
  "poll_enabled en p e f = (if en then p e f else Some (Pending, f))"

definition guarded_poll :: "('e, 'a, 'x) fut \<Rightarrow> ('e, 'b, 'y) fut \<Rightarrow> ('e, ('a, 'b) select2_guarded, ('x, 'y) either option) fut" where
  "guarded_poll pa pb e s =
     (if \<not> g_a_enabled s \<and> \<not> g_b_enabled s then Some (Ready None, s)
      else
        let first_a = (if g_randomize s then g_first_a s else True);
            s = (if g_randomize s then s\<lparr>g_first_a := \<not> g_first_a s\<rparr> else s)
        in if first_a
           then (case poll_enabled (g_a_enabled s) pa e (g_a s) of
                   None \<Rightarrow> None
                 | Some (Ready x, a) \<Rightarrow> Some (Ready (Some (LeftOf x)), s\<lparr>g_a := a\<rparr>)
                 | Some (Pending, a) \<Rightarrow>
                     (case poll_enabled (g_b_enabled s) pb e (g_b s) of
                        None \<Rightarrow> None
                      | Some (Ready y, b) \<Rightarrow> Some (Ready (Some (RightOf y)), s\<lparr>g_a := a, g_b := b\<rparr>)
                      | Some (Pending, b) \<Rightarrow> Some (Pending, s\<lparr>g_a := a, g_b := b\<rparr>)))
           else (case poll_enabled (g_b_enabled s) pb e (g_b s) of
                   None \<Rightarrow> None
                 | Some (Ready y, b) \<Rightarrow> Some (Ready (Some (RightOf y)), s\<lparr>g_b := b\<rparr>)
                 | Some (Pending, b) \<Rightarrow>
                     (case poll_enabled (g_a_enabled s) pa e (g_a s) of
                        None \<Rightarrow> None
                      | Some (Ready x, a) \<Rightarrow> Some (Ready (Some (LeftOf x)), s\<lparr>g_a := a, g_b := b\<rparr>)
                      | Some (Pending, a) \<Rightarrow> Some (Pending, s\<lparr>g_a := a, g_b := b\<rparr>))))"

text \<open>The loop of \<open>select!\<close>. \<open>ma\<close> and \<open>mb\<close> say whether a value matches the pattern of its branch; a value that
  does not disables the branch.\<close>

partial_function (option) select_loop ::
  "('x \<Rightarrow> bool) \<Rightarrow> ('y \<Rightarrow> bool) \<Rightarrow> ('e, 'a, 'x) fut \<Rightarrow> ('e, 'b, 'y) fut \<Rightarrow> 'e \<Rightarrow> ('a, 'b) select2_guarded \<Rightarrow>
   (('x, 'y) either option poll \<times> ('a, 'b) select2_guarded) option" where
  "select_loop ma mb pa pb e s =
     (case guarded_poll pa pb e s of
        None \<Rightarrow> None
      | Some (Pending, s) \<Rightarrow> Some (Pending, s)
      | Some (Ready None, s) \<Rightarrow> Some (Ready None, s)
      | Some (Ready (Some (LeftOf x)), s) \<Rightarrow>
          if ma x then Some (Ready (Some (LeftOf x)), s) else select_loop ma mb pa pb e (disable_a s)
      | Some (Ready (Some (RightOf y)), s) \<Rightarrow>
          if mb y then Some (Ready (Some (RightOf y)), s) else select_loop ma mb pa pb e (disable_b s))"

declare select_loop.simps [code]

text \<open>What the expansion makes of the outcome: the branch bodies, the fallback, and the \<open>unreachable!\<close>. A
  fallback of \<open>None\<close> is the panic of a \<open>select!\<close> without \<open>else\<close>.\<close>

definition select_poll ::
  "('x \<Rightarrow> bool) \<Rightarrow> ('y \<Rightarrow> bool) \<Rightarrow> ('x \<Rightarrow> 'o) \<Rightarrow> ('y \<Rightarrow> 'o) \<Rightarrow> 'o option \<Rightarrow> ('e, 'a, 'x) fut \<Rightarrow> ('e, 'b, 'y) fut \<Rightarrow>
   ('e, ('a, 'b) select2_guarded, 'o) fut" where
  "select_poll ma mb fa fb fallback pa pb e s =
     (case select_loop ma mb pa pb e s of
        None \<Rightarrow> None
      | Some (Pending, s) \<Rightarrow> Some (Pending, s)
      | Some (Ready out, s) \<Rightarrow>
          (case out of
             Some (LeftOf x) \<Rightarrow> if ma x then Some (Ready (fa x), s) else None
           | Some (RightOf y) \<Rightarrow> if mb y then Some (Ready (fb y), s) else None
           | None \<Rightarrow> (case fallback of None \<Rightarrow> None | Some o' \<Rightarrow> Some (Ready o', s))))"

text \<open>\<open>select!\<close> with three branches: the last two are a \<open>select!\<close> of their own, the second branch of the
  outer one, always enabled and with a pattern that always matches. Its guards and its turn are given from
  the start; the code evaluates them when the inner \<open>select!\<close> is first polled.\<close>

definition select3_poll ::
  "('x \<Rightarrow> bool) \<Rightarrow> ('y \<Rightarrow> bool) \<Rightarrow> ('z \<Rightarrow> bool) \<Rightarrow> ('x \<Rightarrow> 'o) \<Rightarrow> ('y \<Rightarrow> 'o) \<Rightarrow> ('z \<Rightarrow> 'o) \<Rightarrow>
   ('e, 'a, 'x) fut \<Rightarrow> ('e, 'b, 'y) fut \<Rightarrow> ('e, 'c, 'z) fut \<Rightarrow> ('e, ('a, ('b, 'c) select2_guarded) select2_guarded, 'o) fut" where
  "select3_poll ma mb mc fa fb fc pa pb pc =
     select_poll ma (\<lambda>_. True) fa (\<lambda>o'. o') None pa (select_poll mb mc fb fc None pb pc)"

definition select3_new :: "bool \<Rightarrow> bool \<Rightarrow> 'a \<Rightarrow> bool \<Rightarrow> 'b \<Rightarrow> bool \<Rightarrow> 'c \<Rightarrow> bool \<Rightarrow> ('a, ('b, 'c) select2_guarded) select2_guarded" where
  "select3_new turn1 turn2 a a_enabled b b_enabled c c_enabled =
     guarded_new turn1 a a_enabled (guarded_new turn2 b b_enabled c c_enabled False) True False"

subsection \<open>Yielding\<close>

text \<open>\<open>YieldNow\<close>: the flag, and the wakers called.\<close>

definition yield_now :: bool where "yield_now = False"

definition yield_now_poll :: "waker \<Rightarrow> bool \<Rightarrow> unit poll \<times> bool \<times> waker list" where
  "yield_now_poll cx yielded = (if yielded then (Ready (), yielded, []) else (Pending, True, [cx]))"

section \<open>Running a future\<close>

text \<open>The outcome of polling a future once in each of a sequence of contexts: the number of the poll that
  completed it, and the output.\<close>

datatype 'o outcome = Panicked | Unfinished | Finished nat 'o

definition later :: "'o outcome \<Rightarrow> 'o outcome" where
  "later r = (case r of Finished k x \<Rightarrow> Finished (Suc k) x | _ \<Rightarrow> r)"

primrec run_future :: "('e, 'f, 'o) fut \<Rightarrow> 'e list \<Rightarrow> 'f \<Rightarrow> 'o outcome" where
  "run_future p [] f = Unfinished"
| "run_future p (e # es) f =
     (case p e f of
        None \<Rightarrow> Panicked
      | Some (Ready x, _) \<Rightarrow> Finished 0 x
      | Some (Pending, f') \<Rightarrow> later (run_future p es f'))"

lemma later_simps [simp]: "later Panicked = Panicked" "later Unfinished = Unfinished" "later (Finished k x) = Finished (Suc k) x"
  "later r = Panicked \<longleftrightarrow> r = Panicked"
  by (simp_all add: later_def split: outcome.splits)

lemma later_map [simp]: "map_outcome g (later r) = later (map_outcome g r)"
  by (cases r) simp_all

section \<open>What the combinators compute\<close>

definition join_outcome :: "'x outcome \<Rightarrow> 'y outcome \<Rightarrow> ('x \<times> 'y) outcome" where
  "join_outcome ra rb =
     (case (ra, rb) of (Finished i x, Finished j y) \<Rightarrow> Finished (max i j) (x, y) | _ \<Rightarrow> Unfinished)"

text \<open>What a branch still contributes once its output may have been stored: a stored output counts as
  finished at the next poll.\<close>

definition residual :: "('e, 'f, 'o) fut \<Rightarrow> 'e list \<Rightarrow> 'f \<Rightarrow> 'o option \<Rightarrow> 'o outcome" where
  "residual p es f out = (case out of None \<Rightarrow> run_future p es f | Some x \<Rightarrow> Finished 0 x)"

lemma residual_simps [simp]: "residual p es f None = run_future p es f" "residual p es f (Some x) = Finished 0 x"
  by (simp_all add: residual_def)

lemma join_outcome_later:
  "join_outcome (later ra) (later rb) = later (join_outcome ra rb)"
  "join_outcome (Finished 0 x) (later rb) = later (join_outcome (Finished 0 x) rb)"
  "join_outcome (later ra) (Finished 0 y) = later (join_outcome ra (Finished 0 y))"
  by (cases ra; cases rb; simp add: join_outcome_def)+

lemma join2_run:
  "residual pa es (j_a s) (j_a_output s) \<noteq> Panicked \<Longrightarrow> residual pb es (j_b s) (j_b_output s) \<noteq> Panicked \<Longrightarrow>
   j_a_output s = None \<or> j_b_output s = None \<Longrightarrow>
    run_future (join2_poll pa pb) es s
      = join_outcome (residual pa es (j_a s) (j_a_output s)) (residual pb es (j_b s) (j_b_output s))"
proof (induction es arbitrary: s)
  case Nil
  then show ?case by (auto simp: join_outcome_def residual_def split: option.splits)
next
  case (Cons e es)
  obtain sa where a: "join2_poll_a pa e s = Some sa"
    using Cons.prems(1) by (cases "j_a_output s") (auto simp: join2_poll_a_def split: option.splits poll.splits)
  obtain sb where b: "join2_poll_b pb e sa = Some sb"
    using Cons.prems(2) a
    by (cases "j_b_output s") (auto simp: join2_poll_a_def join2_poll_b_def split: option.splits poll.splits if_splits)
  show ?case
  proof (cases "j_a_output sb = None \<or> j_b_output sb = None")
    case True
    have step: "join2_poll pa pb e s = Some (Pending, sb)"
      using True a b by (auto simp: join2_poll_def split: option.splits)
    have ra: "residual pa (e # es) (j_a s) (j_a_output s) =
        (if j_a_output s = None \<and> j_a_output sb = None then later (run_future pa es (j_a sb)) else residual pa es (j_a sb) (j_a_output sb))"
      using a b by (auto simp: join2_poll_a_def join2_poll_b_def split: option.splits poll.splits if_splits)
    have rb: "residual pb (e # es) (j_b s) (j_b_output s) =
        (if j_b_output s = None \<and> j_b_output sb = None then later (run_future pb es (j_b sb)) else residual pb es (j_b sb) (j_b_output sb))"
      using a b by (auto simp: join2_poll_a_def join2_poll_b_def split: option.splits poll.splits if_splits)
    have mono: "j_a_output s \<noteq> None \<Longrightarrow> j_a_output sb \<noteq> None" "j_b_output s \<noteq> None \<Longrightarrow> j_b_output sb \<noteq> None"
      using a b by (auto simp: join2_poll_a_def join2_poll_b_def split: option.splits poll.splits if_splits)
    have "run_future (join2_poll pa pb) es sb = join_outcome (residual pa es (j_a sb) (j_a_output sb)) (residual pb es (j_b sb) (j_b_output sb))"
      using Cons.IH [of sb] Cons.prems(1,2) True ra rb mono by (auto split: if_splits)
    then have "run_future (join2_poll pa pb) (e # es) s = later (join_outcome (residual pa es (j_a sb) (j_a_output sb)) (residual pb es (j_b sb) (j_b_output sb)))"
      using step by simp
    also have "\<dots> = join_outcome (residual pa (e # es) (j_a s) (j_a_output s)) (residual pb (e # es) (j_b s) (j_b_output s))"
      using True mono unfolding ra rb by (auto simp: join_outcome_later)
    finally show ?thesis .
  next
    case False
    then obtain x y where "j_a_output sb = Some x" "j_b_output sb = Some y" by auto
    then show ?thesis using a b Cons.prems(3)
      by (auto simp: join2_poll_def join2_poll_a_def join2_poll_b_def join_outcome_def split: option.splits poll.splits if_splits)
  qed
qed

text \<open>A fallible join ends with the earliest error, the left one first, or with all values.\<close>

definition try_outcome :: "('err + 'x) outcome \<Rightarrow> ('err + 'y) outcome \<Rightarrow> ('err + 'x \<times> 'y) outcome" where
  "try_outcome ra rb =
     (case (ra, rb) of
        (Finished i (Inl er), Finished j (Inl er')) \<Rightarrow> if i \<le> j then Finished i (Inl er) else Finished j (Inl er')
      | (Finished i (Inl er), _) \<Rightarrow> Finished i (Inl er)
      | (_, Finished j (Inl er)) \<Rightarrow> Finished j (Inl er)
      | (Finished i (Inr x), Finished j (Inr y)) \<Rightarrow> Finished (max i j) (Inr (x, y))
      | _ \<Rightarrow> Unfinished)"

lemma try_outcome_later:
  "try_outcome (later ra) (later rb) = later (try_outcome ra rb)"
  "try_outcome (Finished 0 (Inr x)) (later rb) = later (try_outcome (Finished 0 (Inr x)) rb)"
  "try_outcome (later ra) (Finished 0 (Inr y)) = later (try_outcome ra (Finished 0 (Inr y)))"
  by (cases ra; cases rb; simp add: try_outcome_def split: sum.splits)+

lemma try_outcome_error:
  "try_outcome (Finished 0 (Inl er)) rb = Finished 0 (Inl er)"
  "(\<And>er'. ra \<noteq> Finished 0 (Inl er')) \<Longrightarrow> ra \<noteq> Panicked \<Longrightarrow> try_outcome ra (Finished 0 (Inl er)) = Finished 0 (Inl er)"
  by (cases rb; simp add: try_outcome_def split: sum.splits) (cases ra; auto simp: try_outcome_def split: sum.splits)

abbreviation try_residual :: "('e, 'f, 'err + 'x) fut \<Rightarrow> 'e list \<Rightarrow> 'f \<Rightarrow> 'x option \<Rightarrow> ('err + 'x) outcome" where
  "try_residual p es f out \<equiv> residual p es f (map_option Inr out)"

lemma try_branch_residual:
  assumes "try_branch p e f out = Some (Inr (f', out'))"
  shows "try_residual p (e # es) f out = (if out' = None then later (run_future p es f') else Finished 0 (Inr (the out')))"
    and "out' = None \<Longrightarrow> out = None" and "out \<noteq> None \<Longrightarrow> out' = out"
  using assms by (auto simp: try_branch_def split: option.splits poll.splits sum.splits if_splits)

lemma try_branch_error:
  assumes "try_branch p e f out = Some (Inl (er, f'))"
  shows "try_residual p (e # es) f out = Finished 0 (Inl er)"
  using assms by (auto simp: try_branch_def split: option.splits poll.splits sum.splits if_splits)

lemma try_branch_ok:
  assumes "try_residual p (e # es) f out \<noteq> Panicked"
  obtains er f' where "try_branch p e f out = Some (Inl (er, f'))" | f' out' where "try_branch p e f out = Some (Inr (f', out'))"
  using assms by (fastforce simp: try_branch_def residual_def split: option.splits poll.splits sum.splits if_splits)

lemma try_join2_run:
  "try_residual pa es (j_a s) (j_a_output s) \<noteq> Panicked \<Longrightarrow> try_residual pb es (j_b s) (j_b_output s) \<noteq> Panicked \<Longrightarrow>
   j_a_output s = None \<or> j_b_output s = None \<Longrightarrow>
    run_future (try_join2_poll pa pb) es s
      = try_outcome (try_residual pa es (j_a s) (j_a_output s)) (try_residual pb es (j_b s) (j_b_output s))"
proof (induction es arbitrary: s)
  case Nil
  then show ?case by (auto simp: try_outcome_def residual_def split: option.splits)
next
  case (Cons e es)
  show ?case
  proof (cases rule: try_branch_ok [OF Cons.prems(1)])
    case a: (1 er f')
    then show ?thesis using try_branch_error [OF a, of es] by (simp add: try_join2_poll_def try_outcome_error)
  next
    case a: (2 fa xo)
    note ra = try_branch_residual [OF a]
    show ?thesis
    proof (cases rule: try_branch_ok [OF Cons.prems(2)])
      case b: (1 er f')
      have "try_residual pa (e # es) (j_a s) (j_a_output s) \<noteq> Finished 0 (Inl er')" for er'
        unfolding ra(1) by (cases "run_future pa es fa") auto
      then show ?thesis using try_branch_error [OF b, of es] a b Cons.prems(1) by (simp add: try_join2_poll_def try_outcome_error)
    next
      case b: (2 fb yo)
      note rb = try_branch_residual [OF b]
      show ?thesis
      proof (cases "xo = None \<or> yo = None")
        case True
        let ?s = "\<lparr>j_a = fa, j_b = fb, j_a_output = xo, j_b_output = yo\<rparr>"
        have "try_join2_poll pa pb e s = Some (Pending, ?s)"
          using a b True by (auto simp: try_join2_poll_def split: option.splits)
        moreover have "run_future (try_join2_poll pa pb) es ?s = try_outcome (try_residual pa es fa xo) (try_residual pb es fb yo)"
          using Cons.IH [of ?s] Cons.prems(1,2) ra(1) [of es] rb(1) [of es] True by (auto split: if_splits)
        ultimately show ?thesis using True unfolding ra(1) rb(1)
          by (auto simp: try_outcome_later)
      next
        case False
        then obtain x y where "xo = Some x" "yo = Some y" by auto
        then show ?thesis using a b unfolding ra(1) rb(1) by (simp add: try_join2_poll_def try_outcome_def)
      qed
    qed
  qed
qed

text \<open>One poll of a branch that did not fail: its output is stored, or it is one poll closer.\<close>

definition advanced :: "('err + 'x) outcome \<Rightarrow> ('err + 'x) outcome \<Rightarrow> bool" where
  "advanced r r' \<longleftrightarrow> r = later r' \<or> (\<exists>x. r = Finished 0 (Inr x) \<and> r' = r)"

lemma later_not_now [simp]: "later r \<noteq> Finished 0 x"
  by (cases r) simp_all

lemma advanced_try: "advanced ra ra' \<Longrightarrow> advanced rb rb' \<Longrightarrow> advanced (try_outcome ra rb) (try_outcome ra' rb')"
  by (auto simp: advanced_def try_outcome_later) (simp add: try_outcome_def)

lemma try_now: "try_outcome ra rb = Finished 0 (Inr z) \<longleftrightarrow> (\<exists>x y. ra = Finished 0 (Inr x) \<and> rb = Finished 0 (Inr y) \<and> z = (x, y))"
  by (cases ra; cases rb) (auto simp: try_outcome_def split: sum.splits if_splits)

lemma advanced_residual:
  assumes "try_branch p e f out = Some (Inr (f', out'))"
  shows "advanced (try_residual p (e # es) f out) (try_residual p es f' out')"
  unfolding try_branch_residual(1) [OF assms] by (cases out') (simp_all add: advanced_def)

definition try3_outcome :: "('err + 'x) outcome \<Rightarrow> ('err + 'y) outcome \<Rightarrow> ('err + 'z) outcome \<Rightarrow> ('err + 'x \<times> 'y \<times> 'z) outcome" where
  "try3_outcome ra rb rc = map_outcome (map_sum id (\<lambda>((x, y), z). (x, y, z))) (try_outcome (try_outcome ra rb) rc)"

lemma try_branch_not_error:
  assumes "try_branch p e f out = Some (Inr (f', out'))"
  shows "try_residual p (e # es) f out \<noteq> Finished 0 (Inl er)"
  unfolding try_branch_residual(1) [OF assms] by (cases out') simp_all

lemma try_not_panicked: "ra \<noteq> Panicked \<Longrightarrow> rb \<noteq> Panicked \<Longrightarrow> try_outcome ra rb \<noteq> Panicked"
  by (cases ra; cases rb) (auto simp: try_outcome_def split: sum.splits)

lemma try_error_now: "ra \<noteq> Panicked \<Longrightarrow> rb \<noteq> Panicked \<Longrightarrow>
  try_outcome ra rb = Finished 0 (Inl er) \<Longrightarrow> ra = Finished 0 (Inl er) \<or> rb = Finished 0 (Inl er)"
  by (cases ra; cases rb) (auto simp: try_outcome_def split: sum.splits if_splits)

lemma try_join3_run:
  "try_residual pa es (t_a s) (t_a_output s) \<noteq> Panicked \<Longrightarrow> try_residual pb es (t_b s) (t_b_output s) \<noteq> Panicked \<Longrightarrow>
   try_residual pc es (t_c s) (t_c_output s) \<noteq> Panicked \<Longrightarrow>
   t_a_output s = None \<or> t_b_output s = None \<or> t_c_output s = None \<Longrightarrow>
    run_future (try_join3_poll pa pb pc) es s
      = try3_outcome (try_residual pa es (t_a s) (t_a_output s)) (try_residual pb es (t_b s) (t_b_output s)) (try_residual pc es (t_c s) (t_c_output s))"
proof (induction es arbitrary: s)
  case Nil
  then show ?case by (auto simp: try3_outcome_def try_outcome_def residual_def split: option.splits)
next
  case (Cons e es)
  show ?case
  proof (cases rule: try_branch_ok [OF Cons.prems(1)])
    case a: (1 er f')
    then show ?thesis using try_branch_error [OF a, of es]
      by (simp add: try_join3_poll_def try3_outcome_def try_outcome_error)
  next
    case a: (2 fa xo)
    note na = try_branch_not_error [OF a]
    show ?thesis
    proof (cases rule: try_branch_ok [OF Cons.prems(2)])
      case b: (1 er f')
      show ?thesis using try_branch_error [OF b, of es] a b Cons.prems(1) na
        by (simp add: try_join3_poll_def try3_outcome_def try_outcome_error)
    next
      case b: (2 fb yo)
      note nb = try_branch_not_error [OF b]
      show ?thesis
      proof (cases rule: try_branch_ok [OF Cons.prems(3)])
        case c: (1 er f')
        have "try_outcome (try_residual pa (e # es) (t_a s) (t_a_output s)) (try_residual pb (e # es) (t_b s) (t_b_output s)) \<noteq> Finished 0 (Inl er')" for er'
          using try_error_now [OF Cons.prems(1,2)] na nb by metis
        then show ?thesis using try_branch_error [OF c, of es] a b c try_not_panicked [OF Cons.prems(1,2)]
          by (simp add: try_join3_poll_def try3_outcome_def try_outcome_error)
      next
        case c: (2 fc zo)
        note adv = advanced_residual [OF a, of es] advanced_residual [OF b, of es] advanced_residual [OF c, of es]
        note adv3 = advanced_try [OF advanced_try [OF adv(1,2)] adv(3)]
        show ?thesis
        proof (cases "xo = None \<or> yo = None \<or> zo = None")
          case True
          let ?s = "\<lparr>t_a = fa, t_b = fb, t_c = fc, t_a_output = xo, t_b_output = yo, t_c_output = zo\<rparr>"
          have step: "try_join3_poll pa pb pc e s = Some (Pending, ?s)"
            using a b c True by (auto simp: try_join3_poll_def split: option.splits)
          have "try_residual pa es fa xo \<noteq> Panicked" "try_residual pb es fb yo \<noteq> Panicked" "try_residual pc es fc zo \<noteq> Panicked"
            using adv Cons.prems(1-3) by (auto simp: advanced_def)
          then have "run_future (try_join3_poll pa pb pc) es ?s = try3_outcome (try_residual pa es fa xo) (try_residual pb es fb yo) (try_residual pc es fc zo)"
            using Cons.IH [of ?s] True by simp
          moreover have "try_outcome (try_outcome (try_residual pa (e # es) (t_a s) (t_a_output s)) (try_residual pb (e # es) (t_b s) (t_b_output s)))
              (try_residual pc (e # es) (t_c s) (t_c_output s)) \<noteq> Finished 0 (Inr w)" for w
            using True unfolding try_now try_branch_residual(1) [OF a] try_branch_residual(1) [OF b] try_branch_residual(1) [OF c] by auto
          ultimately show ?thesis using step adv3 unfolding advanced_def try3_outcome_def by auto
        next
          case False
          then obtain x y z where "xo = Some x" "yo = Some y" "zo = Some z" by auto
          then show ?thesis using a b c
            unfolding try_branch_residual(1) [OF a] try_branch_residual(1) [OF b] try_branch_residual(1) [OF c]
            by (simp add: try_join3_poll_def try3_outcome_def try_outcome_def)
        qed
      qed
    qed
  qed
qed

section \<open>Selects\<close>

text \<open>The branch that finishes first; in the same poll, the one that is polled first. \<open>turn i\<close> says whether
  the left branch is polled first in poll \<open>i\<close>.\<close>

definition select_outcome :: "(nat \<Rightarrow> bool) \<Rightarrow> 'x outcome \<Rightarrow> 'y outcome \<Rightarrow> ('x, 'y) either outcome" where
  "select_outcome turn ra rb =
     (case (ra, rb) of
        (Finished i x, Finished j y) \<Rightarrow>
          if i < j \<or> i = j \<and> turn i then Finished i (LeftOf x) else Finished j (RightOf y)
      | (Finished i x, _) \<Rightarrow> Finished i (LeftOf x)
      | (_, Finished j y) \<Rightarrow> Finished j (RightOf y)
      | _ \<Rightarrow> Unfinished)"

definition turn_of :: "bool \<Rightarrow> bool \<Rightarrow> nat \<Rightarrow> bool" where
  "turn_of randomize first_a i = (if randomize then first_a = even i else True)"

lemma turn_of_0 [simp]: "turn_of r f 0 = (if r then f else True)"
  by (simp add: turn_of_def)

lemma turn_of_Suc: "turn_of r (if r then \<not> f else f) = (\<lambda>i. turn_of r f (Suc i))"
  by (auto simp: turn_of_def fun_eq_iff)

lemma select_outcome_later:
  "select_outcome turn (later ra) (later rb) = later (select_outcome (\<lambda>i. turn (Suc i)) ra rb)"
  by (cases ra; cases rb) (auto simp: select_outcome_def)

lemma select_now:
  "turn 0 \<Longrightarrow> select_outcome turn (Finished 0 x) rb = Finished 0 (LeftOf x)"
  "\<not> turn 0 \<Longrightarrow> select_outcome turn ra (Finished 0 y) = Finished 0 (RightOf y)"
  "select_outcome turn (later ra) (Finished 0 y) = Finished 0 (RightOf y)"
  "select_outcome turn (Finished 0 x) (later rb) = Finished 0 (LeftOf x)"
  by (cases ra; cases rb; auto simp: select_outcome_def)+

lemma select2_run:
  "run_future pa es (s_a s) \<noteq> Panicked \<Longrightarrow> run_future pb es (s_b s) \<noteq> Panicked \<Longrightarrow>
    run_future (select2_poll pa pb) es s
      = select_outcome (turn_of (s_randomize s) (s_first_a s)) (run_future pa es (s_a s)) (run_future pb es (s_b s))"
proof (induction es arbitrary: s)
  case (Cons e es)
  obtain ra a where a: "pa e (s_a s) = Some (ra, a)" using Cons.prems(1) by (auto split: option.splits)
  obtain rb b where b: "pb e (s_b s) = Some (rb, b)" using Cons.prems(2) by (auto split: option.splits)
  let ?first = "if s_randomize s then s_first_a s else True"
  let ?s = "s\<lparr>s_a := a, s_b := b, s_first_a := (if s_randomize s then \<not> s_first_a s else s_first_a s)\<rparr>"
  have step: "select2_poll pa pb e s = Some (Pending, ?s)" if "ra = Pending" "rb = Pending"
    using a b that by (cases s) (auto simp: select2_poll_def Let_def)
  have IH: "run_future (select2_poll pa pb) es ?s =
      select_outcome (\<lambda>i. turn_of (s_randomize s) (s_first_a s) (Suc i)) (run_future pa es a) (run_future pb es b)"
    if "ra = Pending" "rb = Pending"
    using Cons.IH [of ?s] Cons.prems a b that by (simp add: turn_of_Suc)
  show ?case
  proof (cases "ra = Pending \<and> rb = Pending")
    case True
    then show ?thesis using step IH a b by (simp add: select_outcome_later)
  next
    case False
    then show ?thesis using a b
      by (cases ra; cases rb; cases ?first) (auto simp: select2_poll_def select_now Let_def split: if_splits)
  qed
qed (simp add: select_outcome_def)

text \<open>The guarded select is the select of the enabled branches.\<close>

lemma guarded_disabled: "run_future (\<lambda>e f. Some (Pending, f)) es f = Unfinished"
  by (induction es) simp_all

definition guard_outcome :: "bool \<Rightarrow> 'x outcome \<Rightarrow> 'x outcome" where
  "guard_outcome en r = (if en then r else Unfinished)"

lemma poll_enabled_run: "run_future (poll_enabled en p) es f = guard_outcome en (run_future p es f)"
proof -
  have "poll_enabled en p = (if en then p else (\<lambda>e f. Some (Pending, f)))" by (auto simp: poll_enabled_def fun_eq_iff)
  then show ?thesis by (simp add: guard_outcome_def guarded_disabled)
qed

definition as_select2 :: "('a, 'b) select2_guarded \<Rightarrow> ('a, 'b) Select2" where
  "as_select2 s = \<lparr>s_a = g_a s, s_b = g_b s, s_first_a = g_first_a s, s_randomize = g_randomize s\<rparr>"

lemma guarded_poll_select:
  assumes "g_a_enabled s \<or> g_b_enabled s"
  shows "guarded_poll pa pb e s =
    map_option (\<lambda>(r, t). (map_poll Some r, s\<lparr>g_a := s_a t, g_b := s_b t, g_first_a := s_first_a t\<rparr>))
      (select2_poll (poll_enabled (g_a_enabled s) pa) (poll_enabled (g_b_enabled s) pb) e (as_select2 s))"
  using assms by (cases s) (auto simp: guarded_poll_def select2_poll_def as_select2_def Let_def split: option.splits poll.splits if_splits)

lemma guarded_run:
  assumes "g_a_enabled s \<or> g_b_enabled s"
    "g_a_enabled s \<Longrightarrow> run_future pa es (g_a s) \<noteq> Panicked" "g_b_enabled s \<Longrightarrow> run_future pb es (g_b s) \<noteq> Panicked"
  shows "run_future (guarded_poll pa pb) es s = map_outcome Some
    (select_outcome (turn_of (g_randomize s) (g_first_a s)) (guard_outcome (g_a_enabled s) (run_future pa es (g_a s)))
       (guard_outcome (g_b_enabled s) (run_future pb es (g_b s))))"
proof -
  let ?pa = "poll_enabled (g_a_enabled s) pa" and ?pb = "poll_enabled (g_b_enabled s) pb"
  have "run_future (guarded_poll pa pb) es t = map_outcome Some (run_future (select2_poll ?pa ?pb) es (as_select2 t))"
    if "g_a_enabled t = g_a_enabled s" "g_b_enabled t = g_b_enabled s" for t
    using that
  proof (induction es arbitrary: t)
    case (Cons e es)
    have *: "guarded_poll pa pb e t = map_option (\<lambda>(r, u). (map_poll Some r, t\<lparr>g_a := s_a u, g_b := s_b u, g_first_a := s_first_a u\<rparr>))
        (select2_poll ?pa ?pb e (as_select2 t))"
      using guarded_poll_select [of t pa pb e] assms(1) Cons.prems by simp
    have "s_randomize u = g_randomize t" if "select2_poll ?pa ?pb e (as_select2 t) = Some (r, u)" for r u
      using that by (auto simp: select2_poll_def as_select2_def Let_def split: option.splits poll.splits if_splits)
    then have "as_select2 (t\<lparr>g_a := s_a u, g_b := s_b u, g_first_a := s_first_a u\<rparr>) = u"
      if "select2_poll ?pa ?pb e (as_select2 t) = Some (r, u)" for r u
      using that by (cases u) (fastforce simp: as_select2_def)
    then show ?case using * Cons.IH Cons.prems by (auto split: option.splits poll.splits)
  qed simp
  moreover have "run_future ?pa es (g_a s) \<noteq> Panicked" "run_future ?pb es (g_b s) \<noteq> Panicked"
    using assms(2,3) by (auto simp: poll_enabled_run guard_outcome_def)
  ultimately show ?thesis using select2_run [of ?pa es "as_select2 s" ?pb]
    by (simp add: poll_enabled_run as_select2_def)
qed

section \<open>The contract of a future\<close>

text \<open>A future that is alive can be polled, and stays alive until it has completed.\<close>

locale future =
  fixes poll :: "('e, 'f, 'o) fut" and alive :: "'f \<Rightarrow> bool"
  assumes poll_alive: "alive f \<Longrightarrow> \<exists>r f'. poll e f = Some (r, f') \<and> (r = Pending \<longrightarrow> alive f')"
begin

lemma run_ok: "alive f \<Longrightarrow> run_future poll es f \<noteq> Panicked"
proof (induction es arbitrary: f)
  case (Cons e es)
  then show ?case using poll_alive [OF Cons.prems, of e] by (auto split: poll.splits)
qed simp

end

text \<open>A guarded select whose enabled branches are alive; and what the loop of \<open>select!\<close> may return.\<close>

definition guarded_alive :: "('a \<Rightarrow> bool) \<Rightarrow> ('b \<Rightarrow> bool) \<Rightarrow> ('a, 'b) select2_guarded \<Rightarrow> bool" where
  "guarded_alive ala alb s \<longleftrightarrow> (g_a_enabled s \<longrightarrow> ala (g_a s)) \<and> (g_b_enabled s \<longrightarrow> alb (g_b s))"

definition select_result ::
  "('a \<Rightarrow> bool) \<Rightarrow> ('b \<Rightarrow> bool) \<Rightarrow> ('x \<Rightarrow> bool) \<Rightarrow> ('y \<Rightarrow> bool) \<Rightarrow> ('a, 'b) select2_guarded \<Rightarrow>
   ('x, 'y) either option poll \<Rightarrow> ('a, 'b) select2_guarded \<Rightarrow> bool" where
  "select_result ala alb ma mb s r s' \<longleftrightarrow>
     (case r of
        Pending \<Rightarrow> guarded_alive ala alb s' \<and> (g_a_enabled s' \<or> g_b_enabled s')
      | Ready None \<Rightarrow> \<not> g_a_enabled s' \<and> \<not> g_b_enabled s'
      | Ready (Some (LeftOf x)) \<Rightarrow> ma x \<and> g_a_enabled s
      | Ready (Some (RightOf y)) \<Rightarrow> mb y \<and> g_b_enabled s)"

lemma select_result_disabled:
  "select_result ala alb ma mb s1 r s' \<Longrightarrow> (g_a_enabled s1 \<longrightarrow> g_a_enabled s) \<Longrightarrow> (g_b_enabled s1 \<longrightarrow> g_b_enabled s) \<Longrightarrow>
    select_result ala alb ma mb s r s'"
  by (auto simp: select_result_def split: poll.splits option.splits either.splits)

locale two_futures = a: future pa ala + b: future pb alb
  for pa :: "('e, 'a, 'x) fut" and ala :: "'a \<Rightarrow> bool" and pb :: "('e, 'b, 'y) fut" and alb :: "'b \<Rightarrow> bool"
begin

text \<open>One poll of a guarded select. A branch that completed may only be polled again if it is disabled.\<close>

lemma guarded_poll_alive:
  assumes "guarded_alive ala alb s"
  shows "\<exists>r s'. guarded_poll pa pb e s = Some (r, s') \<and> g_a_enabled s' = g_a_enabled s \<and> g_b_enabled s' = g_b_enabled s \<and>
    (case r of
       Pending \<Rightarrow> guarded_alive ala alb s' \<and> (g_a_enabled s \<or> g_b_enabled s)
     | Ready None \<Rightarrow> s' = s \<and> \<not> g_a_enabled s \<and> \<not> g_b_enabled s
     | Ready (Some (LeftOf x)) \<Rightarrow> g_a_enabled s \<and> guarded_alive ala alb (disable_a s')
     | Ready (Some (RightOf y)) \<Rightarrow> g_b_enabled s \<and> guarded_alive ala alb (disable_b s'))"
proof -
  obtain ra a where a: "g_a_enabled s \<Longrightarrow> pa e (g_a s) = Some (ra, a) \<and> (ra = Pending \<longrightarrow> ala a)"
    using assms a.poll_alive [of "g_a s" e] by (auto simp: guarded_alive_def)
  obtain rb b where b: "g_b_enabled s \<Longrightarrow> pb e (g_b s) = Some (rb, b) \<and> (rb = Pending \<longrightarrow> alb b)"
    using assms b.poll_alive [of "g_b s" e] by (auto simp: guarded_alive_def)
  show ?thesis
    using a b assms
    by (cases ra; cases rb; cases "g_a_enabled s"; cases "g_b_enabled s"; cases "g_first_a s"; cases "g_randomize s")
      (simp_all add: guarded_poll_def poll_enabled_def guarded_alive_def disable_a_def disable_b_def)
qed

text \<open>The loop of \<open>select!\<close> returns; it ends with a value that matches its pattern, or with no branch left.\<close>

lemma select_loop_alive:
  "guarded_alive ala alb s \<Longrightarrow> \<exists>r s'. select_loop ma mb pa pb e s = Some (r, s') \<and> select_result ala alb ma mb s r s'"
proof (induction "of_bool (g_a_enabled s) + of_bool (g_b_enabled s) :: nat" arbitrary: s rule: less_induct)
  case less
  obtain r s' where p: "guarded_poll pa pb e s = Some (r, s')"
    and en: "g_a_enabled s' = g_a_enabled s" "g_b_enabled s' = g_b_enabled s"
    and c: "case r of
       Pending \<Rightarrow> guarded_alive ala alb s' \<and> (g_a_enabled s \<or> g_b_enabled s)
     | Ready None \<Rightarrow> s' = s \<and> \<not> g_a_enabled s \<and> \<not> g_b_enabled s
     | Ready (Some (LeftOf x)) \<Rightarrow> g_a_enabled s \<and> guarded_alive ala alb (disable_a s')
     | Ready (Some (RightOf y)) \<Rightarrow> g_b_enabled s \<and> guarded_alive ala alb (disable_b s')"
    using guarded_poll_alive [OF less.prems, of e] by blast
  consider (pending) "r = Pending" | (none) "r = Ready None" | (left) x where "r = Ready (Some (LeftOf x))"
    | (right) y where "r = Ready (Some (RightOf y))"
    by (metis either.exhaust option.exhaust poll.exhaust)
  then show ?case
  proof cases
    case left
    show ?thesis
    proof (cases "ma x")
      case False
      have "select_loop ma mb pa pb e s = select_loop ma mb pa pb e (disable_a s')"
        using p left False by (subst select_loop.simps) simp
      moreover have "g_a_enabled s" "guarded_alive ala alb (disable_a s')" using c left by simp_all
      moreover have "\<not> g_a_enabled (disable_a s')" "g_b_enabled (disable_a s') = g_b_enabled s" using en by (simp_all add: disable_a_def)
      ultimately show ?thesis using less.hyps [of "disable_a s'"] by (auto intro: select_result_disabled)
    qed (use p left c in \<open>subst select_loop.simps, simp add: select_result_def\<close>)
  next
    case right
    show ?thesis
    proof (cases "mb y")
      case False
      have "select_loop ma mb pa pb e s = select_loop ma mb pa pb e (disable_b s')"
        using p right False by (subst select_loop.simps) simp
      moreover have "g_b_enabled s" "guarded_alive ala alb (disable_b s')" using c right by simp_all
      moreover have "\<not> g_b_enabled (disable_b s')" "g_a_enabled (disable_b s') = g_a_enabled s" using en by (simp_all add: disable_b_def)
      ultimately show ?thesis using less.hyps [of "disable_b s'"] by (auto intro: select_result_disabled)
    qed (use p right c in \<open>subst select_loop.simps, simp add: select_result_def\<close>)
  qed (use p c en in \<open>subst select_loop.simps, simp add: select_result_def\<close>)+
qed

text \<open>So the expansion of a \<open>select!\<close> with \<open>else\<close> never panics and never reaches its \<open>unreachable!\<close>.\<close>

lemma select_poll_alive:
  assumes "guarded_alive ala alb s" "fallback = None \<Longrightarrow> \<forall>x y. ma x \<and> mb y" "fallback = None \<Longrightarrow> g_a_enabled s \<or> g_b_enabled s"
  shows "\<exists>r s'. select_poll ma mb fa fb fallback pa pb e s = Some (r, s') \<and> (r = Pending \<longrightarrow> guarded_alive ala alb s' \<and> (g_a_enabled s' \<or> g_b_enabled s'))"
proof -
  obtain r s' where l: "select_loop ma mb pa pb e s = Some (r, s')"
    and c: "select_result ala alb ma mb s r s'"
    using select_loop_alive [OF assms(1), of ma mb e] by blast
  have "r \<noteq> Ready None" if "fallback = None"
  proof
    assume "r = Ready None"
    moreover have "select_loop ma mb pa pb e s \<noteq> Some (Ready None, s')"
      using guarded_poll_alive [OF assms(1), of e] assms(2,3) that
      by (subst select_loop.simps) (auto split: option.splits poll.splits either.splits)
    ultimately show False using l by simp
  qed
  then show ?thesis using l c by (auto simp: select_poll_def select_result_def split: poll.splits option.splits either.splits)
qed

end

text \<open>A join and a race of two futures keep the contract, so combinators nest.\<close>

definition join_alive :: "('a \<Rightarrow> bool) \<Rightarrow> ('b \<Rightarrow> bool) \<Rightarrow> ('a, 'x, 'b, 'y) Join2 \<Rightarrow> bool" where
  "join_alive ala alb s \<longleftrightarrow> (j_a_output s = None \<longrightarrow> ala (j_a s)) \<and> (j_b_output s = None \<longrightarrow> alb (j_b s))
     \<and> (j_a_output s = None \<or> j_b_output s = None)"

sublocale two_futures \<subseteq> joined: future "join2_poll pa pb" "join_alive ala alb"
proof
  fix s :: "('a, 'x, 'b, 'y) Join2" and e
  assume s: "join_alive ala alb s"
  obtain ra a where a: "j_a_output s = None \<Longrightarrow> pa e (j_a s) = Some (ra, a) \<and> (ra = Pending \<longrightarrow> ala a)"
    using s a.poll_alive [of "j_a s" e] by (auto simp: join_alive_def)
  obtain rb b where b: "j_b_output s = None \<Longrightarrow> pb e (j_b s) = Some (rb, b) \<and> (rb = Pending \<longrightarrow> alb b)"
    using s b.poll_alive [of "j_b s" e] by (auto simp: join_alive_def)
  show "\<exists>r s'. join2_poll pa pb e s = Some (r, s') \<and> (r = Pending \<longrightarrow> join_alive ala alb s')"
    using s a b by (cases ra; cases rb; cases "j_a_output s"; cases "j_b_output s")
      (simp_all add: join_alive_def join2_poll_def join2_poll_a_def join2_poll_b_def)
qed

sublocale two_futures \<subseteq> selected: future "select2_poll pa pb" "\<lambda>s. ala (s_a s) \<and> alb (s_b s)"
proof
  fix s :: "('a, 'b) Select2" and e
  assume s: "ala (s_a s) \<and> alb (s_b s)"
  obtain ra a where a: "pa e (s_a s) = Some (ra, a)" "ra = Pending \<longrightarrow> ala a"
    using s a.poll_alive [of "s_a s" e] by auto
  obtain rb b where b: "pb e (s_b s) = Some (rb, b)" "rb = Pending \<longrightarrow> alb b"
    using s b.poll_alive [of "s_b s" e] by auto
  show "\<exists>r s'. select2_poll pa pb e s = Some (r, s') \<and> (r = Pending \<longrightarrow> ala (s_a s') \<and> alb (s_b s'))"
    using a b by (cases ra; cases rb; cases "s_randomize s"; cases "s_first_a s") (simp_all add: select2_poll_def)
qed

text \<open>\<open>YieldNow\<close> is a future that is always alive.\<close>

definition yield_fut :: "(waker, bool, unit) fut" where
  "yield_fut cx y = (case yield_now_poll cx y of (r, y', _) \<Rightarrow> Some (r, y'))"

interpretation yielding: future yield_fut "\<lambda>_. True"
  by unfold_locales (auto simp: yield_fut_def yield_now_poll_def)

interpretation two_yields: two_futures yield_fut "\<lambda>_. True" yield_fut "\<lambda>_. True" ..

lemma yield_now_wakes: "yield_now_poll cx yield_now = (Pending, True, [cx])" "fst (yield_now_poll cx True) = Ready ()"
  by (simp_all add: yield_now_poll_def yield_now_def)

section \<open>The random turn\<close>

lemma shift_fixpoint:
  fixes x :: u64
  assumes "0 < k" "\<And>i. bit x i \<longleftrightarrow> i < 64 \<and> k \<le> i \<and> bit x (i - k)"
  shows "x = 0"
proof -
  have "\<not> bit x i" for i
  proof (induction i rule: less_induct)
    case (less i)
    show ?case
    proof
      assume "bit x i"
      then have "k \<le> i" "bit x (i - k)" using assms(2) [of i] by auto
      then show False using less [of "i - k"] assms(1) by simp
    qed
  qed
  then show ?thesis by (auto intro: bit_eqI)
qed

lemma xor_left_nonzero: "x XOR push_bit k x \<noteq> 0" if "x \<noteq> (0 :: u64)" "0 < k"
proof
  assume z: "x XOR push_bit k x = 0"
  have "bit x i \<longleftrightarrow> i < 64 \<and> k \<le> i \<and> bit x (i - k)" for i
    using arg_cong [OF z, of "\<lambda>w. bit w i"] by (auto simp: bit_simps dest: bit_imp_le_length)
  then show False using shift_fixpoint that by blast
qed

lemma xor_right_nonzero: "x XOR drop_bit k x \<noteq> 0" if "x \<noteq> (0 :: u64)" "0 < k"
proof
  assume z: "x XOR drop_bit k x = 0"
  have b: "bit x i \<longleftrightarrow> bit x (i + k)" for i
    using arg_cong [OF z, of "\<lambda>w. bit w i"] by (auto simp: bit_simps ac_simps)
  have n: "bit x i \<longleftrightarrow> bit x (i + n * k)" for i n
  proof (induction n)
    case (Suc n)
    then show ?case using b [of "i + n * k"] by (simp add: ac_simps)
  qed simp
  have "\<not> bit x i" for i
  proof
    assume "bit x i"
    then have "i + 64 * k < 64" using n [of i 64] bit_imp_le_length [of x "i + 64 * k"] by simp
    then show False using that(2) by simp
  qed
  then show False using that(1) by (auto intro: bit_eqI)
qed

text \<open>The seed never becomes zero, so the turns never stop changing for that reason.\<close>

lemma next_select_turn_nonzero: "current \<noteq> 0 \<Longrightarrow> fst (next_select_turn current) \<noteq> 0"
  unfolding next_select_turn_def Let_def fst_conv by (intro xor_left_nonzero xor_right_nonzero) simp_all

section \<open>Properties\<close>

text \<open>C29. The joins compute what they promise, in the poll in which they must: \<open>join2\<close> finishes in the
  poll in which its last branch does, with both outputs; the fallible joins finish in the poll of the
  first error, the leftmost of them, or with all values in the poll of the last. No branch is polled
  after it has completed (that might panic).\<close>

theorem joins_compute_their_outcome:
  assumes "run_future pa es a \<noteq> Panicked" "run_future pb es b \<noteq> Panicked" "run_future pc es c \<noteq> Panicked"
  shows "run_future (join2_poll pa pb) es (join2 a b) = join_outcome (run_future pa es a) (run_future pb es b)
    \<and> run_future (try_join2_poll pa pb) es (join2 a b) = try_outcome (run_future pa es a) (run_future pb es b)
    \<and> run_future (try_join3_poll pa pb pc) es (try_join3 a b c)
      = map_outcome (map_sum id (\<lambda>((x, y), z). (x, y, z))) (try_outcome (try_outcome (run_future pa es a) (run_future pb es b)) (run_future pc es c))"
  using assms join2_run [of pa es "join2 a b" pb] try_join2_run [of pa es "join2 a b" pb]
    try_join3_run [of pa es "try_join3 a b c" pb pc]
  by (simp add: join2_def try_join3_def try3_outcome_def)

text \<open>A future that completes at a given poll, and panics when it is polled again.\<close>

definition after_polls :: "(unit, nat \<times> 'o option, 'o) fut" where
  "after_polls e s =
     (case s of
        (n, None) \<Rightarrow> None
      | (0, Some x) \<Rightarrow> Some (Ready x, (0, None))
      | (Suc n, Some x) \<Rightarrow> Some (Pending, (n, Some x)))"

lemma after_polls_run: "length es = m \<Longrightarrow> run_future after_polls es (n, Some x) = (if n < m then Finished n x else Unfinished)"
proof (induction es arbitrary: n m)
  case (Cons e es)
  then show ?case by (cases n) (auto simp: after_polls_def)
qed simp

theorem joins_compute_their_outcome_witness:
  "run_future (try_join3_poll after_polls after_polls after_polls) [(), (), (), ()]
     (try_join3 (1, Some (Inr 5)) (2, Some (Inl 7)) (2, Some (Inl 8))) = Finished 2 (Inl (7 :: nat) :: nat + nat \<times> nat \<times> nat)
   \<and> run_future (join2_poll after_polls after_polls) [(), (), (), ()] (join2 (1, Some (Inr 5)) (2, Some (Inl 7)))
     = Finished 2 (Inr 5 :: nat + nat, Inl 7 :: nat + nat)"
  using joins_compute_their_outcome [of after_polls "[(), (), (), ()]" "(1, Some (Inr 5 :: nat + nat))" after_polls "(2, Some (Inl 7 :: nat + nat))"
      after_polls "(2, Some (Inl 8 :: nat + nat))"]
  by (simp add: after_polls_run [of _ 4] try_outcome_def join_outcome_def del: run_future.simps)

text \<open>A select finishes with the branch that completes first among the enabled ones; when both complete
  in the same poll, with the one whose turn it is, and the turn alternates from poll to poll unless
  the select is biased. The other branch is not polled again.\<close>

theorem selects_take_the_first:
  assumes "run_future pa es a \<noteq> Panicked" "run_future pb es b \<noteq> Panicked" "en_a \<or> en_b"
  shows "run_future (guarded_poll pa pb) es (guarded_new turn a en_a b en_b biased) = map_outcome Some
    (select_outcome (\<lambda>i. if biased then True else turn = even i)
       (if en_a then run_future pa es a else Unfinished) (if en_b then run_future pb es b else Unfinished))"
proof -
  have "turn_of (\<not> biased) (if biased then True else turn) = (\<lambda>i. if biased then True else turn = even i)"
    by (auto simp: turn_of_def fun_eq_iff)
  then show ?thesis
    using guarded_run [of "guarded_new turn a en_a b en_b biased" pa es pb] assms by (simp add: guarded_new_def guard_outcome_def)
qed

theorem selects_take_the_first_witness:
  "run_future (guarded_poll after_polls after_polls) [(), ()] (guarded_new True (1, Some 5) True (1, Some 6) True False)
     = Finished 1 (Some (RightOf 6 :: (nat, nat) either))
   \<and> run_future (guarded_poll after_polls after_polls) [(), ()] (guarded_new True (1, Some 5) True (0, Some 6) False False)
     = Finished 1 (Some (LeftOf 5 :: (nat, nat) either))"
  using selects_take_the_first [of after_polls "[(), ()]" "(1, Some (5 :: nat))" after_polls "(1, Some (6 :: nat))" True True True False]
    selects_take_the_first [of after_polls "[(), ()]" "(1, Some (5 :: nat))" after_polls "(0, Some (6 :: nat))" True False True False]
  by (simp add: after_polls_run [of _ 2] select_outcome_def del: run_future.simps)

text \<open>C30. The loop of \<open>select!\<close> always returns. It answers with a value that matches the pattern of its
  branch, with \<open>Pending\<close> while an enabled branch is still alive, and with the \<open>else\<close> branch only when no
  branch is enabled any more; a branch that was disabled or has completed is not polled.\<close>

theorem select_macro_returns:
  assumes "future pa ala" "future pb alb" "guarded_alive ala alb s"
  shows "\<exists>r s'. select_loop ma mb pa pb e s = Some (r, s') \<and> select_result ala alb ma mb s r s'"
  using two_futures.select_loop_alive [OF two_futures.intro [OF assms(1,2)] assms(3)] .

theorem select_macro_returns_witness:
  "select_loop (\<lambda>_. False) (\<lambda>_. True) yield_fut yield_fut 3 (guarded_new True True True False True False)
     = Some (Pending, \<lparr>g_a = True, g_b = True, g_a_enabled = False, g_b_enabled = True, g_first_a = True, g_randomize = True\<rparr>)
   \<and> (\<exists>r s'. select_loop (\<lambda>_. False) (\<lambda>_. True) yield_fut yield_fut 3 (guarded_new True True True False True False) = Some (r, s')
      \<and> select_result (\<lambda>_. True) (\<lambda>_. True) (\<lambda>_. False) (\<lambda>_. True) (guarded_new True True True False True False) r s')"
proof
  show "select_loop (\<lambda>_. False) (\<lambda>_. True) yield_fut yield_fut 3 (guarded_new True True True False True False)
     = Some (Pending, \<lparr>g_a = True, g_b = True, g_a_enabled = False, g_b_enabled = True, g_first_a = True, g_randomize = True\<rparr>)"
    by code_simp
  show "\<exists>r s'. select_loop (\<lambda>_. False) (\<lambda>_. True) yield_fut yield_fut 3 (guarded_new True True True False True False) = Some (r, s')
      \<and> select_result (\<lambda>_. True) (\<lambda>_. True) (\<lambda>_. False) (\<lambda>_. True) (guarded_new True True True False True False) r s'"
    by (rule select_macro_returns) (auto intro: yielding.future_axioms simp: guarded_alive_def)
qed

text \<open>With three branches the last two panic together as soon as both are disabled, although the first
  one is enabled and can still complete.\<close>

lemma select3_panics_with_a_live_branch:
  assumes "pa e a = Some (Pending, a')"
  shows "select3_poll ma mb mc fa fb fc pa pb pc e (select3_new turn1 turn2 a True b False c False) = None"
proof -
  let ?rest = "guarded_new turn2 b False c False False"
  have "select_loop mb mc pb pc e ?rest = Some (Ready None, ?rest)"
    by (subst select_loop.simps) (simp add: guarded_poll_def guarded_new_def)
  then have rest: "select_poll mb mc fb fc None pb pc e ?rest = None" by (simp add: select_poll_def)
  have "guarded_poll pa (select_poll mb mc fb fc None pb pc) e (guarded_new turn1 a True ?rest True False) = None"
    using assms rest by (simp add: guarded_poll_def poll_enabled_def guarded_new_def Let_def)
  then have "select_loop ma (\<lambda>_. True) pa (select_poll mb mc fb fc None pb pc) e (guarded_new turn1 a True ?rest True False) = None"
    by (subst select_loop.simps) simp
  then show ?thesis by (simp add: select3_poll_def select3_new_def select_poll_def)
qed

end
