(* ===== verification/Stream_Adapters.thy ===== *)
theory Stream_Adapters
  imports Prelude
begin

text \<open>
  The streams of \<open>stream.rs\<close>: the adapters \<open>map\<close>, \<open>filter\<close> and \<open>fuse\<close>, and the futures that consume a
  stream, over an arbitrary stream with a poll function. \<open>'e\<close> is what a poll sees of the world. Closures
  (\<open>FnMut\<close>) carry a state that each call updates. The loops of \<open>filter\<close> and of the consumers go on while
  the stream is ready, so they may not return; a \<open>panic\<close> is the left side of a sum.
\<close>

section \<open>Model\<close>

type_synonym ('e, 's, 'i) strm = "'e \<Rightarrow> 's \<Rightarrow> 'i option poll \<times> 's"

text \<open>\<open>Iter\<close>: a stream over the items of an iterator.\<close>

definition iter_poll_next :: "('e, 'i list, 'i) strm" where
  "iter_poll_next e xs = (case xs of [] \<Rightarrow> (Ready None, []) | x # xs \<Rightarrow> (Ready (Some x), xs))"

definition map_poll_next :: "('c \<Rightarrow> 'i \<Rightarrow> 'b \<times> 'c) \<Rightarrow> ('e, 's, 'i) strm \<Rightarrow> ('e, 's \<times> 'c, 'b) strm" where
  "map_poll_next f p e st =
     (case st of (s, c) \<Rightarrow>
        (case p e s of
           (Ready (Some x), s) \<Rightarrow> (case f c x of (y, c) \<Rightarrow> (Ready (Some y), (s, c)))
         | (Ready None, s) \<Rightarrow> (Ready None, (s, c))
         | (Pending, s) \<Rightarrow> (Pending, (s, c))))"

partial_function (option) filter_poll_next ::
  "('c \<Rightarrow> 'i \<Rightarrow> bool \<times> 'c) \<Rightarrow> ('e, 's, 'i) strm \<Rightarrow> 'e \<Rightarrow> 's \<times> 'c \<Rightarrow> ('i option poll \<times> 's \<times> 'c) option" where
  "filter_poll_next f p e st =
     (case st of (s, c) \<Rightarrow>
        (case p e s of
           (Ready (Some x), s) \<Rightarrow>
             (case f c x of (keep, c) \<Rightarrow> if keep then Some (Ready (Some x), s, c) else filter_poll_next f p e (s, c))
         | (Ready None, s) \<Rightarrow> Some (Ready None, s, c)
         | (Pending, s) \<Rightarrow> Some (Pending, s, c)))"

declare filter_poll_next.simps [code]

record 's fuse =
  fu_stream :: 's
  fu_done :: bool

definition fuse_new :: "'s \<Rightarrow> 's fuse" where
  "fuse_new s = \<lparr>fu_stream = s, fu_done = False\<rparr>"

definition fuse_poll_next :: "('e, 's, 'i) strm \<Rightarrow> ('e, 's fuse, 'i) strm" where
  "fuse_poll_next p e st =
     (if fu_done st then (Ready None, st)
      else (case p e (fu_stream st) of
              (Ready None, s) \<Rightarrow> (Ready None, st\<lparr>fu_stream := s, fu_done := True\<rparr>)
            | (other, s) \<Rightarrow> (other, st\<lparr>fu_stream := s\<rparr>)))"

datatype stream_panic = FoldPolledAfterCompletion

text \<open>\<open>Fold::poll\<close>: the stream, the accumulator and the closure.\<close>

partial_function (option) fold_poll ::
  "('c \<Rightarrow> 'b \<Rightarrow> 'i \<Rightarrow> 'b \<times> 'c) \<Rightarrow> ('e, 's, 'i) strm \<Rightarrow> 'e \<Rightarrow> 's \<times> 'b option \<times> 'c \<Rightarrow>
   (stream_panic + 'b poll \<times> 's \<times> 'b option \<times> 'c) option" where
  "fold_poll f p e st =
     (case st of (s, acc, c) \<Rightarrow>
        (case p e s of
           (Ready (Some x), s) \<Rightarrow>
             (case acc of
                None \<Rightarrow> Some (Inl FoldPolledAfterCompletion)
              | Some a \<Rightarrow> (case f c a x of (a, c) \<Rightarrow> fold_poll f p e (s, Some a, c)))
         | (Ready None, s) \<Rightarrow>
             (case acc of
                None \<Rightarrow> Some (Inl FoldPolledAfterCompletion)
              | Some a \<Rightarrow> Some (Inr (Ready a, s, None, c)))
         | (Pending, s) \<Rightarrow> Some (Inr (Pending, s, acc, c))))"

declare fold_poll.simps [code]

partial_function (option) for_each_poll ::
  "('c \<Rightarrow> 'i \<Rightarrow> 'c) \<Rightarrow> ('e, 's, 'i) strm \<Rightarrow> 'e \<Rightarrow> 's \<times> 'c \<Rightarrow> (unit poll \<times> 's \<times> 'c) option" where
  "for_each_poll f p e st =
     (case st of (s, c) \<Rightarrow>
        (case p e s of
           (Ready (Some x), s) \<Rightarrow> for_each_poll f p e (s, f c x)
         | (Ready None, s) \<Rightarrow> Some (Ready (), s, c)
         | (Pending, s) \<Rightarrow> Some (Pending, s, c)))"

declare for_each_poll.simps [code]

text \<open>\<open>Count::poll\<close>; the counter is a \<open>usize\<close>.\<close>

partial_function (option) count_poll :: "('e, 's, 'i) strm \<Rightarrow> 'e \<Rightarrow> 's \<times> u64 \<Rightarrow> (u64 poll \<times> 's \<times> u64) option" where
  "count_poll p e st =
     (case st of (s, n) \<Rightarrow>
        (case p e s of
           (Ready (Some x), s) \<Rightarrow> count_poll p e (s, n + 1)
         | (Ready None, s) \<Rightarrow> Some (Ready n, s, n)
         | (Pending, s) \<Rightarrow> Some (Pending, s, n)))"

declare count_poll.simps [code]

text \<open>\<open>Collect::poll\<close> into a \<open>Vec\<close>, whose \<open>finish\<close> does nothing.\<close>

partial_function (option) collect_poll :: "('e, 's, 'i) strm \<Rightarrow> 'e \<Rightarrow> 's \<times> 'i list \<Rightarrow> ('i list poll \<times> 's \<times> 'i list) option" where
  "collect_poll p e st =
     (case st of (s, buf) \<Rightarrow>
        (case p e s of
           (Ready (Some x), s) \<Rightarrow> collect_poll p e (s, buf @ [x])
         | (Ready None, s) \<Rightarrow> Some (Ready buf, s, [])
         | (Pending, s) \<Rightarrow> Some (Pending, s, buf)))"

declare collect_poll.simps [code]

section \<open>The contract of a stream\<close>

text \<open>What one poll may do to the items still to come.\<close>

definition stream_step :: "'i list \<Rightarrow> 'i option poll \<Rightarrow> 'i list \<Rightarrow> bool" where
  "stream_step xs r ys \<longleftrightarrow>
     (case r of Pending \<Rightarrow> ys = xs | Ready None \<Rightarrow> xs = [] \<and> ys = [] | Ready (Some x) \<Rightarrow> xs = x # ys)"

lemma stream_step_simps [simp]:
  "stream_step xs Pending ys \<longleftrightarrow> ys = xs" "stream_step xs (Ready None) ys \<longleftrightarrow> xs = [] \<and> ys = []"
  "stream_step xs (Ready (Some x)) ys \<longleftrightarrow> xs = x # ys"
  by (simp_all add: stream_step_def)

text \<open>\<open>items\<close> are the items still to come. A poll may always answer \<open>Pending\<close>.\<close>

locale finite_stream =
  fixes p :: "('e, 's, 'i) strm" and items :: "'s \<Rightarrow> 'i list" and ok :: "'s \<Rightarrow> bool"
  assumes poll_step: "ok s \<Longrightarrow> p e s = (r, s') \<Longrightarrow> stream_step (items s) r (items s') \<and> ok s'"
begin

lemma next_cases:
  assumes "ok s"
  obtains (item) x s' where "p e s = (Ready (Some x), s')" "items s = x # items s'" "ok s'"
  | (over) s' where "p e s = (Ready None, s')" "items s = []" "items s' = []" "ok s'"
  | (pending) s' where "p e s = (Pending, s')" "items s' = items s" "ok s'"
proof -
  obtain r s' where p: "p e s = (r, s')" by fastforce
  note step = poll_step [OF assms p]
  consider "r = Pending" | "r = Ready None" | x where "r = Ready (Some x)" by (metis option.exhaust poll.exhaust)
  then show thesis using p step that by cases auto
qed

end

text \<open>What the closures make of a list of items.\<close>

primrec map_items :: "('c \<Rightarrow> 'i \<Rightarrow> 'b \<times> 'c) \<Rightarrow> 'c \<Rightarrow> 'i list \<Rightarrow> 'b list" where
  "map_items f c [] = []"
| "map_items f c (x # xs) = (case f c x of (y, c) \<Rightarrow> y # map_items f c xs)"

primrec filter_items :: "('c \<Rightarrow> 'i \<Rightarrow> bool \<times> 'c) \<Rightarrow> 'c \<Rightarrow> 'i list \<Rightarrow> 'i list" where
  "filter_items f c [] = []"
| "filter_items f c (x # xs) = (case f c x of (keep, c) \<Rightarrow> if keep then x # filter_items f c xs else filter_items f c xs)"

primrec fold_items :: "('c \<Rightarrow> 'b \<Rightarrow> 'i \<Rightarrow> 'b \<times> 'c) \<Rightarrow> 'c \<Rightarrow> 'b \<Rightarrow> 'i list \<Rightarrow> 'b" where
  "fold_items f c a [] = a"
| "fold_items f c a (x # xs) = (case f c a x of (a, c) \<Rightarrow> fold_items f c a xs)"

lemma map_items_pure: "map_items (\<lambda>c x. (g x, c)) c xs = map g xs"
  by (induction xs) simp_all

lemma filter_items_pure: "filter_items (\<lambda>c x. (g x, c)) c xs = filter g xs"
  by (induction xs) simp_all

lemma fold_items_pure: "fold_items (\<lambda>c a x. (g a x, c)) c a xs = foldl g a xs"
  by (induction xs arbitrary: a) simp_all

text \<open>A stream is a plain function; \<open>filter\<close> as one, for streams on which its loop returns.\<close>

definition filter_strm :: "('c \<Rightarrow> 'i \<Rightarrow> bool \<times> 'c) \<Rightarrow> ('e, 's, 'i) strm \<Rightarrow> ('e, 's \<times> 'c, 'i) strm" where
  "filter_strm f p e st = the (filter_poll_next f p e st)"

context finite_stream
begin

lemma map_stream: "finite_stream (map_poll_next f p) (\<lambda>(s, c). map_items f c (items s)) (\<lambda>(s, c). ok s)"
proof
  fix st e r st'
  assume st: "case st of (s, c) \<Rightarrow> ok s" and m: "map_poll_next f p e st = (r, st')"
  obtain s c where sc: "st = (s, c)" by fastforce
  then have "ok s" using st by simp
  then show "stream_step (case st of (s, c) \<Rightarrow> map_items f c (items s)) r (case st' of (s, c) \<Rightarrow> map_items f c (items s)) \<and> (case st' of (s, c) \<Rightarrow> ok s)"
    using m sc by (cases rule: next_cases [of s e]) (auto simp: map_poll_next_def split: prod.splits)
qed

text \<open>The loop of \<open>filter\<close> returns.\<close>

lemma filter_returns:
  "ok s \<Longrightarrow> \<exists>r s' c'. filter_poll_next f p e (s, c) = Some (r, s', c') \<and> ok s' \<and>
    stream_step (filter_items f c (items s)) r (filter_items f c' (items s'))"
proof (induction "length (items s)" arbitrary: s c rule: less_induct)
  case less
  show ?case
  proof (cases rule: next_cases [OF less.prems, of e, case_names item over pending])
    case (item x s1)
    obtain keep c1 where f: "f c x = (keep, c1)" by fastforce
    show ?thesis
    proof (cases keep)
      case True
      then show ?thesis using item f by (subst filter_poll_next.simps) simp
    next
      case False
      then have "filter_poll_next f p e (s, c) = filter_poll_next f p e (s1, c1)" using item f by (subst filter_poll_next.simps) simp
      moreover have "filter_items f c (items s) = filter_items f c1 (items s1)" using item f False by simp
      ultimately show ?thesis using less.hyps [of s1 c1] item by simp
    qed
  qed (subst filter_poll_next.simps, simp)+
qed

lemma filter_stream: "finite_stream (filter_strm f p) (\<lambda>(s, c). filter_items f c (items s)) (\<lambda>(s, c). ok s)"
proof
  fix st e r st'
  assume st: "case st of (s, c) \<Rightarrow> ok s" and m: "filter_strm f p e st = (r, st')"
  obtain s c where sc: "st = (s, c)" by fastforce
  then have "ok s" using st by simp
  from filter_returns [OF this, of f e c] m sc
  show "stream_step (case st of (s, c) \<Rightarrow> filter_items f c (items s)) r (case st' of (s, c) \<Rightarrow> filter_items f c (items s)) \<and> (case st' of (s, c) \<Rightarrow> ok s)"
    by (auto simp: filter_strm_def)
qed

lemma fuse_stream: "finite_stream (fuse_poll_next p) (\<lambda>st. if fu_done st then [] else items (fu_stream st)) (\<lambda>st. fu_done st \<or> ok (fu_stream st))"
proof
  fix st e r st'
  assume st: "fu_done st \<or> ok (fu_stream st)" and m: "fuse_poll_next p e st = (r, st')"
  show "stream_step (if fu_done st then [] else items (fu_stream st)) r (if fu_done st' then [] else items (fu_stream st')) \<and> (fu_done st' \<or> ok (fu_stream st'))"
  proof (cases "fu_done st")
    case False
    then have "ok (fu_stream st)" using st by simp
    then show ?thesis using m False by (cases rule: next_cases [of "fu_stream st" e]) (auto simp: fuse_poll_next_def)
  qed (use m in \<open>auto simp: fuse_poll_next_def\<close>)
qed

text \<open>The consumers return; what they have accumulated and what is still to come is always the same.\<close>

lemma fold_returns:
  "ok s \<Longrightarrow> \<exists>r s' acc' c'. fold_poll f p e (s, Some a, c) = Some (Inr (r, s', acc', c')) \<and> ok s' \<and>
    (case r of
       Pending \<Rightarrow> \<exists>a'. acc' = Some a' \<and> fold_items f c' a' (items s') = fold_items f c a (items s)
     | Ready b \<Rightarrow> b = fold_items f c a (items s) \<and> acc' = None)"
proof (induction "length (items s)" arbitrary: s a c rule: less_induct)
  case less
  show ?case
  proof (cases rule: next_cases [OF less.prems, of e, case_names item over pending])
    case (item x s1)
    obtain a1 c1 where f: "f c a x = (a1, c1)" by fastforce
    have "fold_poll f p e (s, Some a, c) = fold_poll f p e (s1, Some a1, c1)" using item f by (subst fold_poll.simps) simp
    moreover have "fold_items f c a (items s) = fold_items f c1 a1 (items s1)" using item f by simp
    ultimately show ?thesis using less.hyps [of s1 a1 c1] item f by (simp cong: poll.case_cong)
  qed (subst fold_poll.simps, simp)+
qed

lemma for_each_returns:
  "ok s \<Longrightarrow> \<exists>r s' c'. for_each_poll f p e (s, c) = Some (r, s', c') \<and> ok s' \<and>
    foldl f c' (items s') = foldl f c (items s) \<and> (r = Ready () \<longrightarrow> items s' = [])"
proof (induction "length (items s)" arbitrary: s c rule: less_induct)
  case less
  show ?case
  proof (cases rule: next_cases [OF less.prems, of e, case_names item over pending])
    case (item x s1)
    have "for_each_poll f p e (s, c) = for_each_poll f p e (s1, f c x)" using item by (subst for_each_poll.simps) simp
    then show ?thesis using less.hyps [of s1 "f c x"] item by simp
  qed (subst for_each_poll.simps, simp)+
qed

lemma count_returns:
  "ok s \<Longrightarrow> \<exists>r s' n'. count_poll p e (s, n) = Some (r, s', n') \<and> ok s' \<and>
    n' + of_nat (length (items s')) = n + of_nat (length (items s)) \<and> (r = Pending \<or> r = Ready n' \<and> items s' = [])"
proof (induction "length (items s)" arbitrary: s n rule: less_induct)
  case less
  show ?case
  proof (cases rule: next_cases [OF less.prems, of e, case_names item over pending])
    case (item x s1)
    have "count_poll p e (s, n) = count_poll p e (s1, n + 1)" using item by (subst count_poll.simps) simp
    then show ?thesis using less.hyps [of s1 "n + 1"] item by (simp add: algebra_simps)
  qed (subst count_poll.simps, simp)+
qed

lemma collect_returns:
  "ok s \<Longrightarrow> \<exists>r s' buf'. collect_poll p e (s, buf) = Some (r, s', buf') \<and> ok s' \<and>
    (case r of Pending \<Rightarrow> buf' @ items s' = buf @ items s | Ready xs \<Rightarrow> xs = buf @ items s)"
proof (induction "length (items s)" arbitrary: s buf rule: less_induct)
  case less
  show ?case
  proof (cases rule: next_cases [OF less.prems, of e, case_names item over pending])
    case (item x s1)
    have "collect_poll p e (s, buf) = collect_poll p e (s1, buf @ [x])" using item by (subst collect_poll.simps) simp
    then show ?thesis using less.hyps [of s1 "buf @ [x]"] item by (simp cong: poll.case_cong)
  qed (subst collect_poll.simps, simp)+
qed

end

section \<open>Instances\<close>

text \<open>The stream of an iterator, and what the adapters make of it.\<close>

interpretation iter: finite_stream iter_poll_next "\<lambda>xs. xs" "\<lambda>_. True"
  by unfold_locales (auto simp: iter_poll_next_def split: list.splits)

text \<open>A fused stream stays at its end whatever the inner stream does, and does not poll it again.\<close>

lemma fuse_stays_done:
  assumes "fuse_poll_next p e st = (Ready None, st')"
  shows "fuse_poll_next q e' st' = (Ready None, st')"
  using assms by (auto simp: fuse_poll_next_def split: if_splits prod.splits poll.splits option.splits)

section \<open>Properties\<close>

text \<open>C31. Adapters and consumers over any stream with finitely many items, which may be pending at any poll:
  every poll returns. Collecting a filtered and mapped stream yields exactly the items that the
  filter keeps, in order, after the map; folding it yields the fold over them; and a pending poll
  loses nothing.\<close>

theorem stream_pipeline_exact:
  assumes "finite_stream p items ok" "ok s"
  shows "filter_poll_next g p e (s, c) \<noteq> None
    \<and> (\<exists>r st' buf'. collect_poll (map_poll_next f (filter_strm g p)) e (((s, c), d), buf) = Some (r, st', buf')
      \<and> (case r of
           Pending \<Rightarrow> (case st' of ((s', c'), d') \<Rightarrow> ok s' \<and> buf' @ map_items f d' (filter_items g c' (items s')) = buf @ map_items f d (filter_items g c (items s)))
         | Ready xs \<Rightarrow> xs = buf @ map_items f d (filter_items g c (items s))))
    \<and> (\<exists>r s' acc' k'. fold_poll h p e (s, Some a, k) = Some (Inr (r, s', acc', k'))
      \<and> (case r of
           Pending \<Rightarrow> ok s' \<and> (\<exists>a'. acc' = Some a' \<and> fold_items h k' a' (items s') = fold_items h k a (items s))
         | Ready b \<Rightarrow> b = fold_items h k a (items s)))"
proof (intro conjI)
  show "filter_poll_next g p e (s, c) \<noteq> None"
    using finite_stream.filter_returns [OF assms, of g e c] by auto
  note mapped = finite_stream.map_stream [OF finite_stream.filter_stream [OF assms(1), of g], of f]
  from finite_stream.collect_returns [OF mapped, of "((s, c), d)" e buf] assms(2)
  show "\<exists>r st' buf'. collect_poll (map_poll_next f (filter_strm g p)) e (((s, c), d), buf) = Some (r, st', buf')
      \<and> (case r of
           Pending \<Rightarrow> (case st' of ((s', c'), d') \<Rightarrow> ok s' \<and> buf' @ map_items f d' (filter_items g c' (items s')) = buf @ map_items f d (filter_items g c (items s)))
         | Ready xs \<Rightarrow> xs = buf @ map_items f d (filter_items g c (items s)))"
    by (fastforce split: poll.splits prod.splits)
  from finite_stream.fold_returns [OF assms, of h e a k]
  show "\<exists>r s' acc' k'. fold_poll h p e (s, Some a, k) = Some (Inr (r, s', acc', k'))
      \<and> (case r of
           Pending \<Rightarrow> ok s' \<and> (\<exists>a'. acc' = Some a' \<and> fold_items h k' a' (items s') = fold_items h k a (items s))
         | Ready b \<Rightarrow> b = fold_items h k a (items s))"
    by (fastforce split: poll.splits)
qed

theorem stream_pipeline_exact_witness:
  "map_items (\<lambda>n x. (x + n, n + 1)) 10 (filter_items (\<lambda>u x. (even x, u)) () [1, 2, 3, 4]) = [12, 15 :: nat]
   \<and> (\<exists>r st' buf'. collect_poll (map_poll_next (\<lambda>n x. (x + n, n + 1)) (filter_strm (\<lambda>u x. (even x, u)) iter_poll_next)) ()
        ((([1, 2, 3, 4 :: nat], ()), 10), []) = Some (r, st', buf')
     \<and> (case r of
          Pending \<Rightarrow> (case st' of ((s', c'), d') \<Rightarrow> True \<and> buf' @ map_items (\<lambda>n x. (x + n, n + 1)) d' (filter_items (\<lambda>u x. (even x, u)) c' s')
            = [] @ map_items (\<lambda>n x. (x + n, n + 1)) 10 (filter_items (\<lambda>u x. (even x, u)) () [1, 2, 3, 4]))
        | Ready xs \<Rightarrow> xs = [] @ map_items (\<lambda>n x. (x + n, n + 1)) 10 (filter_items (\<lambda>u x. (even x, u)) () [1, 2, 3, 4])))"
  by (rule conjI, simp, rule conjunct1 [OF conjunct2 [OF stream_pipeline_exact [OF iter.finite_stream_axioms TrueI]]])

end
