(* ===== verification/Delay_Queue.thy ===== *)
theory Delay_Queue
  imports Timer_Shared "HOL-Library.AList"
begin

text \<open>
  The delay queue of \<open>time/delay_queue.rs\<close>: items under keys, one timer of the driver for each, and a sink
  that all these timers wake and that passes the wake on to the task that polls the queue. The
  operations take the driver's \<open>arm\<close> and \<open>cancel\<close> as arguments; what they rely on is the locale
  \<open>timer_driver\<close>. The iteration order of the \<open>HashMap\<close> of entries is an argument, too.
\<close>

section \<open>Model\<close>

text \<open>\<open>FireSink\<close>. The guard of the mutex lives to the end of the \<open>if let\<close>, so \<open>notify\<close> is atomic.\<close>

record fire_sink =
  fs_waker :: "waker option"
  fs_notified :: bool

definition fire_sink_new :: fire_sink where
  "fire_sink_new = \<lparr>fs_waker = None, fs_notified = False\<rparr>"

definition sink_notify :: "fire_sink \<Rightarrow> fire_sink \<times> waker list" where
  "sink_notify f =
     (case fs_waker f of
        Some w \<Rightarrow> (f\<lparr>fs_waker := None\<rparr>, [w])
      | None \<Rightarrow> (f\<lparr>fs_notified := True\<rparr>, []))"

record 'v dq_entry =
  de_when :: instant
  de_timer :: timer_id
  de_value :: 'v

record 'v expired =
  ex_key :: u64
  ex_deadline :: instant
  ex_item :: 'v

record 'v delay_queue =
  dq_entries :: "(u64 \<times> 'v dq_entry) list"
  dq_expired :: "'v expired list"
  dq_driver :: bool
  dq_closed :: bool
  dq_next_key :: u64
  dq_sink :: fire_sink

definition delay_queue_new :: "'v delay_queue" where
  "delay_queue_new = \<lparr>dq_entries = [], dq_expired = [], dq_driver = False, dq_closed = False, dq_next_key = 0, dq_sink = fire_sink_new\<rparr>"

datatype dq_panic = QueueClosed | NoDriver

type_synonym 'd arm_fn = "timer_id \<Rightarrow> instant \<Rightarrow> waker \<Rightarrow> 'd \<Rightarrow> 'd \<times> bool"

text \<open>\<open>insert_inner\<close> with the id \<open>i\<close> of the new timer entry and the waker \<open>sk\<close> of the sink. \<open>drv\<close> says whether
  the current runtime has a timer driver. The result holds the key and the wakers called.\<close>

definition insert_inner ::
  "'d arm_fn \<Rightarrow> bool \<Rightarrow> waker \<Rightarrow> timer_id \<Rightarrow> instant \<Rightarrow> 'v \<Rightarrow> 'v delay_queue \<Rightarrow> 'd \<Rightarrow>
   dq_panic + 'v delay_queue \<times> 'd \<times> u64 \<times> waker list" where
  "insert_inner arm_fn drv sk i when v q d =
     (if dq_closed q then Inl QueueClosed
      else
        let key = dq_next_key q;
            q = q\<lparr>dq_next_key := key + 1\<rparr>
        in if \<not> dq_driver q \<and> \<not> drv then Inl NoDriver
           else
             let q = q\<lparr>dq_driver := True\<rparr>;
                 (d, due) = arm_fn i when sk d
             in if due
                then
                  let q = q\<lparr>dq_expired := dq_expired q @ [\<lparr>ex_key = key, ex_deadline = when, ex_item = v\<rparr>]\<rparr>;
                      (f, ws) = sink_notify (dq_sink q)
                  in Inr (q\<lparr>dq_sink := f\<rparr>, d, key, ws)
                else Inr (q\<lparr>dq_entries := AList.update key \<lparr>de_when = when, de_timer = i, de_value = v\<rparr> (dq_entries q)\<rparr>, d, key, []))"

definition dq_remove_if ::
  "(timer_id \<Rightarrow> 'd \<Rightarrow> 'd) \<Rightarrow> ('d \<Rightarrow> timer_id \<Rightarrow> bool) \<Rightarrow> u64 \<Rightarrow> ('v \<Rightarrow> bool) \<Rightarrow> 'v delay_queue \<Rightarrow> 'd \<Rightarrow> 'v option \<times> 'v delay_queue \<times> 'd" where
  "dq_remove_if cancel_fn fired key predicate q d =
     (case map_of (dq_entries q) key of
        None \<Rightarrow> (None, q, d)
      | Some en \<Rightarrow>
          if fired d (de_timer en) \<or> \<not> predicate (de_value en) then (None, q, d)
          else
            let d = (if dq_driver q then cancel_fn (de_timer en) d else d)
            in (Some (de_value en), q\<lparr>dq_entries := AList.delete key (dq_entries q)\<rparr>, d))"

definition dq_remove ::
  "(timer_id \<Rightarrow> 'd \<Rightarrow> 'd) \<Rightarrow> ('d \<Rightarrow> timer_id \<Rightarrow> bool) \<Rightarrow> u64 \<Rightarrow> 'v delay_queue \<Rightarrow> 'd \<Rightarrow> 'v option \<times> 'v delay_queue \<times> 'd" where
  "dq_remove cancel_fn fired key q d = dq_remove_if cancel_fn fired key (\<lambda>_. True) q d"

text \<open>The loop over the fired keys in \<open>poll_expired\<close>.\<close>

primrec expire_keys :: "u64 list \<Rightarrow> 'v delay_queue \<Rightarrow> 'v delay_queue" where
  "expire_keys [] q = q"
| "expire_keys (k # ks) q = expire_keys ks
     (case map_of (dq_entries q) k of
        None \<Rightarrow> q
      | Some en \<Rightarrow> q\<lparr>dq_entries := AList.delete k (dq_entries q),
          dq_expired := dq_expired q @ [\<lparr>ex_key = k, ex_deadline = de_when en, ex_item = de_value en\<rparr>]\<rparr>)"

type_synonym 'v dq_order = "(u64 \<times> 'v dq_entry) list \<Rightarrow> (u64 \<times> 'v dq_entry) list"

text \<open>\<open>poll_expired\<close> in its three critical sections: collecting what has fired, registering the waker, and
  looking for a notification that came in between.\<close>

definition poll_scan :: "'v dq_order \<Rightarrow> (timer_id \<Rightarrow> bool) \<Rightarrow> 'v delay_queue \<Rightarrow> 'v expired option \<times> 'v delay_queue" where
  "poll_scan ord fired q =
     (let ks = map fst (filter (\<lambda>(k, en). fired (de_timer en)) (ord (dq_entries q)));
          q = expire_keys ks q
      in case dq_expired q of
           [] \<Rightarrow> (None, q)
         | x # xs \<Rightarrow> (Some x, q\<lparr>dq_expired := xs\<rparr>))"

definition poll_register :: "waker \<Rightarrow> 'v delay_queue \<Rightarrow> 'v delay_queue option" where
  "poll_register cx q =
     (if dq_closed q \<and> dq_entries q = [] \<and> dq_expired q = [] then None
      else Some (q\<lparr>dq_sink := (dq_sink q)\<lparr>fs_waker := Some cx\<rparr>\<rparr>))"

definition poll_notified :: "'v delay_queue \<Rightarrow> bool \<times> 'v delay_queue" where
  "poll_notified q = (fs_notified (dq_sink q), q\<lparr>dq_sink := (dq_sink q)\<lparr>fs_notified := False\<rparr>\<rparr>)"

text \<open>\<open>poll_expired\<close> when no timer fires meanwhile.\<close>

partial_function (option) poll_expired ::
  "'v dq_order \<Rightarrow> (timer_id \<Rightarrow> bool) \<Rightarrow> waker \<Rightarrow> 'v delay_queue \<Rightarrow> ('v expired option poll \<times> 'v delay_queue) option" where
  "poll_expired ord fired cx q =
     (case poll_scan ord fired q of
        (Some x, q) \<Rightarrow> Some (Ready (Some x), q)
      | (None, q) \<Rightarrow>
          (case poll_register cx q of
             None \<Rightarrow> Some (Ready None, q)
           | Some q \<Rightarrow>
               (case poll_notified q of
                  (again, q) \<Rightarrow> if again then poll_expired ord fired cx q else Some (Pending, q))))"

declare poll_expired.simps [code]

definition dq_close :: "'v delay_queue \<Rightarrow> 'v delay_queue" where
  "dq_close q = q\<lparr>dq_closed := True\<rparr>"

definition dq_len :: "'v delay_queue \<Rightarrow> nat" where
  "dq_len q = length (dq_entries q) + length (dq_expired q)"

text \<open>\<open>Drop\<close>: every timer is cancelled.\<close>

definition dq_drop :: "(timer_id \<Rightarrow> 'd \<Rightarrow> 'd) \<Rightarrow> 'v dq_order \<Rightarrow> 'v delay_queue \<Rightarrow> 'd \<Rightarrow> 'd" where
  "dq_drop cancel_fn ord q d = (if dq_driver q then fold (\<lambda>(k, en). cancel_fn (de_timer en)) (ord (dq_entries q)) d else d)"

section \<open>What the queue relies on\<close>

text \<open>\<open>waiting d i\<close> is the waker that firing timer \<open>i\<close> will call.\<close>

locale timer_driver =
  fixes arm_fn :: "instant \<Rightarrow> 'd arm_fn" and cancel_fn :: "timer_id \<Rightarrow> 'd \<Rightarrow> 'd"
    and advance_fn :: "instant \<Rightarrow> 'd \<Rightarrow> ('d \<times> waker list) option"
    and waiting :: "'d \<Rightarrow> timer_id \<Rightarrow> waker option" and fired :: "'d \<Rightarrow> timer_id \<Rightarrow> bool" and good :: "'d \<Rightarrow> bool"
  assumes arm_law: "good d \<Longrightarrow> arm_fn clk i when wk d = (d', due) \<Longrightarrow>
      good d' \<and> fired d' i = due \<and> (\<not> due \<longrightarrow> waiting d' i = Some wk) \<and>
      (\<forall>j. j \<noteq> i \<longrightarrow> waiting d' j = waiting d j \<and> fired d' j = fired d j)"
    and cancel_law: "good d \<Longrightarrow> good (cancel_fn i d) \<and> waiting (cancel_fn i d) i = None \<and>
      (\<forall>j. j \<noteq> i \<longrightarrow> waiting (cancel_fn i d) j = waiting d j \<and> fired (cancel_fn i d) j = fired d j)"
    and advance_law: "good d \<Longrightarrow> advance_fn clk d = Some (d', wks) \<Longrightarrow>
      good d' \<and> (\<forall>j. (fired d' j = fired d j \<and> waiting d' j = waiting d j) \<or>
        (fired d' j \<and> (\<forall>w. waiting d j = Some w \<longrightarrow> w \<in> set wks)))"
begin

lemma drop_cancels_entries:
  assumes "good d" "dq_driver q" "set (ord (dq_entries q)) = set (dq_entries q)"
  shows "good (dq_drop cancel_fn ord q d) \<and> (\<forall>(k, en)\<in>set (dq_entries q). waiting (dq_drop cancel_fn ord q d) (de_timer en) = None)"
proof -
  have "good d \<Longrightarrow> good (fold (\<lambda>(k, en). cancel_fn (de_timer en)) xs d)
      \<and> (\<forall>j. waiting d j = None \<or> j \<in> de_timer ` snd ` set xs \<longrightarrow> waiting (fold (\<lambda>(k, en). cancel_fn (de_timer en)) xs d) j = None)"
    for xs :: "(u64 \<times> 'x dq_entry) list"
  proof (induction xs arbitrary: d)
    case (Cons x xs)
    note c = cancel_law [OF Cons.prems, of "de_timer (snd x)"]
    then have "waiting (cancel_fn (de_timer (snd x)) d) j = None" if "waiting d j = None \<or> j = de_timer (snd x)" for j
      using that by (cases "j = de_timer (snd x)") auto
    then show ?case using Cons.IH [of "cancel_fn (de_timer (snd x)) d"] c by (auto simp: case_prod_beta)
  qed simp
  from this [of "ord (dq_entries q)"] show ?thesis using assms by (force simp: dq_drop_def)
qed

end

text \<open>The timer driver provides it.\<close>

lemma cancel_fired: "ts_inv ts \<Longrightarrow> te_fired (timers (ts_wheel (cancel i ts)) i) = te_fired (timers (ts_wheel ts) i)"
  using remove_fst(6) [of "ts_wheel ts" i] by (simp add: cancel_def ts_inv_def)

interpretation driver: timer_driver arm cancel advance_to_now "\<lambda>ts i. te_waker (timers (ts_wheel ts) i)"
  "\<lambda>ts i. te_fired (timers (ts_wheel ts) i)" ts_inv
proof
  fix d d' :: timer_shared and clk i tm wk due
  assume "ts_inv d" "arm clk i tm wk d = (d', due)"
  then show "ts_inv d' \<and> te_fired (timers (ts_wheel d') i) = due \<and> (\<not> due \<longrightarrow> te_waker (timers (ts_wheel d') i) = Some wk) \<and>
      (\<forall>j. j \<noteq> i \<longrightarrow> te_waker (timers (ts_wheel d') j) = te_waker (timers (ts_wheel d) j)
        \<and> te_fired (timers (ts_wheel d') j) = te_fired (timers (ts_wheel d) j))"
    using arm_effect(1,4,6,7) by simp
next
  fix d :: timer_shared and i
  assume d: "ts_inv d"
  have "te_waker (timers (ts_wheel (cancel i d)) i) = None" by (simp add: cancel_def)
  then show "ts_inv (cancel i d) \<and> te_waker (timers (ts_wheel (cancel i d)) i) = None \<and>
      (\<forall>j. j \<noteq> i \<longrightarrow> te_waker (timers (ts_wheel (cancel i d)) j) = te_waker (timers (ts_wheel d) j)
        \<and> te_fired (timers (ts_wheel (cancel i d)) j) = te_fired (timers (ts_wheel d) j))"
    using cancel_effect(1,3) [OF d] by simp
next
  fix d d' :: timer_shared and clk wks
  assume d: "ts_inv d" and a: "advance_to_now clk d = Some (d', wks)"
  from advance_to_now_effect [OF d, of clk] a
  obtain ids where i: "ts_inv d'" "fires d ids d'" "wks = concat (map (\<lambda>i. wakes_of (te_waker (timers (ts_wheel d) i))) ids)" by auto
  have "w \<in> set wks" if "j \<in> set ids" "te_waker (timers (ts_wheel d) j) = Some w" for j w
    using that i(3) by (force simp: wakes_of_def)
  then show "ts_inv d' \<and> (\<forall>j. (te_fired (timers (ts_wheel d') j) = te_fired (timers (ts_wheel d) j)
        \<and> te_waker (timers (ts_wheel d') j) = te_waker (timers (ts_wheel d) j)) \<or>
        (te_fired (timers (ts_wheel d') j) \<and> (\<forall>w. te_waker (timers (ts_wheel d) j) = Some w \<longrightarrow> w \<in> set wks)))"
    using i(1,2) unfolding fires_def by blast
qed

section \<open>The queue and its driver\<close>

text \<open>
  All interleavings of the owner of the queue, who holds it exclusively, with the driver that fires
  timers from other threads. \<open>ds_flight\<close> counts the wakes of the sink that the driver still has to
  call, \<open>ds_called\<close> says that the waker of the current poll has been called since it began, and
  \<open>ds_asleep\<close> is the waker of a poll that returned \<open>Pending\<close> and has not been woken since. Items put in
  and taken out are recorded. At most 2 ^ 64 - 1 items are inserted. With \<open>one = Some c\<close> the queue is
  always polled with the waker \<open>c\<close>.
\<close>

datatype dq_phase = Idle | Scanning waker | Scanned waker | Registered waker

record 'v dq_sys =
  ds_q :: "'v delay_queue"
  ds_d :: timer_shared
  ds_flight :: nat
  ds_phase :: dq_phase
  ds_called :: bool
  ds_asleep :: "waker option"
  ds_in :: "(u64 \<times> 'v) list"
  ds_out :: "(u64 \<times> 'v) list"

abbreviation dq_fired :: "timer_shared \<Rightarrow> timer_id \<Rightarrow> bool" where
  "dq_fired d i \<equiv> te_fired (timers (ts_wheel d) i)"

definition still_unwoken :: "waker option \<Rightarrow> waker list \<Rightarrow> waker option" where
  "still_unwoken a ws = (case a of None \<Rightarrow> None | Some w \<Rightarrow> if w \<in> set ws then None else Some w)"

inductive dq_reach :: "'v dq_order \<Rightarrow> waker \<Rightarrow> waker option \<Rightarrow> 'v dq_sys \<Rightarrow> bool" for ord :: "'v dq_order" and sk one where
  start: "ts_inv d \<Longrightarrow> dq_reach ord sk one \<lparr>ds_q = delay_queue_new, ds_d = d, ds_flight = 0, ds_phase = Idle, ds_called = False,
    ds_asleep = None, ds_in = [], ds_out = []\<rparr>"
| insert: "dq_reach ord sk one y \<Longrightarrow> ds_phase y = Idle \<Longrightarrow> length (ds_in y) < 2 ^ 64 - 1 \<Longrightarrow>
    i \<notin> de_timer ` snd ` set (dq_entries (ds_q y)) \<Longrightarrow>
    insert_inner (arm clk) drv sk i tm v (ds_q y) (ds_d y) = Inr (q, d, key, ws) \<Longrightarrow>
    dq_reach ord sk one (y\<lparr>ds_q := q, ds_d := d, ds_in := (key, v) # ds_in y, ds_asleep := still_unwoken (ds_asleep y) ws\<rparr>)"
| remove: "dq_reach ord sk one y \<Longrightarrow> ds_phase y = Idle \<Longrightarrow>
    dq_remove_if cancel dq_fired key P (ds_q y) (ds_d y) = (Some v, q, d) \<Longrightarrow>
    dq_reach ord sk one (y\<lparr>ds_q := q, ds_d := d, ds_out := (key, v) # ds_out y\<rparr>)"
| close: "dq_reach ord sk one y \<Longrightarrow> ds_phase y = Idle \<Longrightarrow> dq_reach ord sk one (y\<lparr>ds_q := dq_close (ds_q y)\<rparr>)"
| poll: "dq_reach ord sk one y \<Longrightarrow> ds_phase y = Idle \<Longrightarrow> (\<And>c. one = Some c \<Longrightarrow> cx = c) \<Longrightarrow>
    dq_reach ord sk one (y\<lparr>ds_phase := Scanning cx, ds_called := False, ds_asleep := None\<rparr>)"
| deliver: "dq_reach ord sk one y \<Longrightarrow> ds_phase y = Scanning cx \<Longrightarrow> poll_scan ord (dq_fired (ds_d y)) (ds_q y) = (Some x, q) \<Longrightarrow>
    dq_reach ord sk one (y\<lparr>ds_q := q, ds_phase := Idle, ds_out := (ex_key x, ex_item x) # ds_out y\<rparr>)"
| nothing: "dq_reach ord sk one y \<Longrightarrow> ds_phase y = Scanning cx \<Longrightarrow> poll_scan ord (dq_fired (ds_d y)) (ds_q y) = (None, q) \<Longrightarrow>
    dq_reach ord sk one (y\<lparr>ds_q := q, ds_phase := Scanned cx\<rparr>)"
| finished: "dq_reach ord sk one y \<Longrightarrow> ds_phase y = Scanned cx \<Longrightarrow> poll_register cx (ds_q y) = None \<Longrightarrow>
    dq_reach ord sk one (y\<lparr>ds_phase := Idle\<rparr>)"
| register: "dq_reach ord sk one y \<Longrightarrow> ds_phase y = Scanned cx \<Longrightarrow> poll_register cx (ds_q y) = Some q \<Longrightarrow>
    dq_reach ord sk one (y\<lparr>ds_q := q, ds_phase := Registered cx\<rparr>)"
| again: "dq_reach ord sk one y \<Longrightarrow> ds_phase y = Registered cx \<Longrightarrow> poll_notified (ds_q y) = (True, q) \<Longrightarrow>
    dq_reach ord sk one (y\<lparr>ds_q := q, ds_phase := Scanning cx\<rparr>)"
| pending: "dq_reach ord sk one y \<Longrightarrow> ds_phase y = Registered cx \<Longrightarrow> poll_notified (ds_q y) = (False, q) \<Longrightarrow>
    dq_reach ord sk one (y\<lparr>ds_q := q, ds_phase := Idle, ds_asleep := (if ds_called y then None else Some cx)\<rparr>)"
| fire: "dq_reach ord sk one y \<Longrightarrow> advance_to_now clk (ds_d y) = Some (d, wks) \<Longrightarrow>
    dq_reach ord sk one (y\<lparr>ds_d := d, ds_flight := ds_flight y + count_list wks sk\<rparr>)"
| notify: "dq_reach ord sk one y \<Longrightarrow> ds_flight y = Suc n \<Longrightarrow> sink_notify (dq_sink (ds_q y)) = (f, ws) \<Longrightarrow>
    dq_reach ord sk one (y\<lparr>ds_q := (ds_q y)\<lparr>dq_sink := f\<rparr>, ds_flight := n, ds_asleep := still_unwoken (ds_asleep y) ws,
      ds_called := (ds_called y \<or> (\<exists>cx. ds_phase y \<in> {Scanning cx, Scanned cx, Registered cx} \<and> cx \<in> set ws))\<rparr>)"
| other: "dq_reach ord sk one y \<Longrightarrow> ts_inv d \<Longrightarrow>
    (\<And>k en. (k, en) \<in> set (dq_entries (ds_q y)) \<Longrightarrow> timers (ts_wheel d) (de_timer en) = timers (ts_wheel (ds_d y)) (de_timer en)) \<Longrightarrow>
    dq_reach ord sk one (y\<lparr>ds_d := d\<rparr>)"

section \<open>Invariant\<close>

definition dq_pairs :: "'v delay_queue \<Rightarrow> (u64 \<times> 'v) multiset" where
  "dq_pairs q = image_mset (\<lambda>(k, en). (k, de_value en)) (mset (dq_entries q)) + image_mset (\<lambda>x. (ex_key x, ex_item x)) (mset (dq_expired q))"

text \<open>The entries have different keys, all used before, and each timer has fired or will wake the sink.\<close>

definition entries_ok :: "waker \<Rightarrow> nat \<Rightarrow> timer_shared \<Rightarrow> 'v delay_queue \<Rightarrow> bool" where
  "entries_ok sk n d q \<longleftrightarrow> distinct (map fst (dq_entries q)) \<and> distinct (map (de_timer \<circ> snd) (dq_entries q)) \<and> unat (dq_next_key q) = n
     \<and> (\<forall>(k, en)\<in>set (dq_entries q). unat k < n \<and> (dq_fired d (de_timer en) \<or> te_waker (timers (ts_wheel d) (de_timer en)) = Some sk))"

definition some_fired :: "timer_shared \<Rightarrow> 'v delay_queue \<Rightarrow> bool" where
  "some_fired d q \<longleftrightarrow> (\<exists>(k, en)\<in>set (dq_entries q). dq_fired d (de_timer en))"

lemma mset_delete:
  assumes "distinct (map fst xs)" "map_of xs k = Some v"
  shows "mset xs = add_mset (k, v) (mset (AList.delete k xs))"
  using assms
proof (induction xs)
  case (Cons x xs)
  show ?case
  proof (cases "fst x = k")
    case True
    then have "k \<notin> fst ` set xs" using Cons.prems by auto
    then have "AList.delete k xs = xs" by (rule delete_id)
    then show ?thesis using True Cons.prems by (cases x) simp
  qed (use Cons in \<open>cases x, simp\<close>)
qed simp

lemma expire_keys_effect:
  "distinct (map fst (dq_entries q)) \<Longrightarrow>
    dq_pairs (expire_keys ks q) = dq_pairs q \<and> dq_entries (expire_keys ks q) = filter (\<lambda>(k, en). k \<notin> set ks) (dq_entries q)
    \<and> dq_next_key (expire_keys ks q) = dq_next_key q \<and> dq_sink (expire_keys ks q) = dq_sink q \<and> dq_closed (expire_keys ks q) = dq_closed q
    \<and> (\<exists>xs. dq_expired (expire_keys ks q) = dq_expired q @ xs)"
proof (induction ks arbitrary: q)
  case (Cons k ks)
  show ?case
  proof (cases "map_of (dq_entries q) k")
    case None
    then have "k \<notin> fst ` set (dq_entries q)" by (simp add: map_of_eq_None_iff)
    then have "filter (\<lambda>(k', en). k' \<notin> set (k # ks)) (dq_entries q) = filter (\<lambda>(k, en). k \<notin> set ks) (dq_entries q)"
      by (intro filter_cong) (auto simp: image_iff)
    then show ?thesis using Cons.IH [OF Cons.prems] None by simp
  next
    case (Some en)
    let ?q = "q\<lparr>dq_entries := AList.delete k (dq_entries q), dq_expired := dq_expired q @ [\<lparr>ex_key = k, ex_deadline = de_when en, ex_item = de_value en\<rparr>]\<rparr>"
    have "distinct (map fst (dq_entries ?q))" using Cons.prems by (simp add: distinct_delete)
    moreover have "dq_pairs ?q = dq_pairs q" using mset_delete [OF Cons.prems Some] by (simp add: dq_pairs_def)
    moreover have "filter (\<lambda>(k, en). k \<notin> set ks) (AList.delete k (dq_entries q)) = filter (\<lambda>(k', en). k' \<notin> set (k # ks)) (dq_entries q)"
      by (auto simp: AList.delete_eq intro: filter_cong)
    ultimately show ?thesis using Cons.IH [of ?q] Some by auto
  qed
qed (auto simp: case_prod_beta)

lemma poll_scan_effect:
  assumes "distinct (map fst (dq_entries q))" "set (ord (dq_entries q)) = set (dq_entries q)" "poll_scan ord (dq_fired d) q = (r, q')"
  shows "dq_pairs q = dq_pairs q' + (case r of None \<Rightarrow> {#} | Some x \<Rightarrow> {#(ex_key x, ex_item x)#})"
    and "set (dq_entries q') \<subseteq> set (dq_entries q)" "distinct (map g (dq_entries q)) \<Longrightarrow> distinct (map g (dq_entries q'))" "distinct (map fst (dq_entries q'))" "\<not> some_fired d q'"
    and "dq_next_key q' = dq_next_key q" "dq_sink q' = dq_sink q" "r = None \<longrightarrow> dq_expired q' = []"
proof -
  define ks where "ks = map fst (filter (\<lambda>(k, en). dq_fired d (de_timer en)) (ord (dq_entries q)))"
  define q1 where "q1 = expire_keys ks q"
  note e = expire_keys_effect [OF assms(1), of ks, folded q1_def]
  have s: "(r, q') = (case dq_expired q1 of [] \<Rightarrow> (None, q1) | x # xs \<Rightarrow> (Some x, q1\<lparr>dq_expired := xs\<rparr>))"
    using assms(3) unfolding poll_scan_def Let_def q1_def ks_def by simp
  have same: "dq_entries q' = dq_entries q1" "dq_next_key q' = dq_next_key q1" "dq_sink q' = dq_sink q1" "r = None \<longrightarrow> dq_expired q' = []"
    using s by (auto split: list.splits)
  show "dq_pairs q = dq_pairs q' + (case r of None \<Rightarrow> {#} | Some x \<Rightarrow> {#(ex_key x, ex_item x)#})"
    unfolding conjunct1 [OF e, symmetric] using s by (auto simp: dq_pairs_def split: list.splits)
  show "set (dq_entries q') \<subseteq> set (dq_entries q)" using same e by auto
  show "distinct (map g (dq_entries q)) \<Longrightarrow> distinct (map g (dq_entries q'))" using same e by (simp add: distinct_map_filter)
  show "distinct (map fst (dq_entries q'))" using same e assms(1) by (simp add: distinct_map_filter)
  show "\<not> some_fired d q'"
    using same e assms(2) by (force simp: some_fired_def ks_def)
  show "dq_next_key q' = dq_next_key q" "dq_sink q' = dq_sink q" "r = None \<longrightarrow> dq_expired q' = []"
    using same e by simp_all
qed

definition dq_inv :: "waker \<Rightarrow> 'v dq_sys \<Rightarrow> bool" where
  "dq_inv sk y \<longleftrightarrow> ts_inv (ds_d y) \<and> length (ds_in y) < 2 ^ 64 \<and> entries_ok sk (length (ds_in y)) (ds_d y) (ds_q y)
     \<and> mset (ds_in y) = mset (ds_out y) + dq_pairs (ds_q y)"

lemma dq_pairs_sink [simp]: "dq_pairs (q\<lparr>dq_sink := f\<rparr>) = dq_pairs q" "dq_pairs (q\<lparr>dq_closed := b\<rparr>) = dq_pairs q"
  "entries_ok sk n d (q\<lparr>dq_sink := f\<rparr>) = entries_ok sk n d q" "entries_ok sk n d (q\<lparr>dq_closed := b\<rparr>) = entries_ok sk n d q"
  "some_fired d (q\<lparr>dq_sink := f\<rparr>) = some_fired d q" "some_fired d (q\<lparr>dq_closed := b\<rparr>) = some_fired d q"
  by (simp_all add: dq_pairs_def entries_ok_def some_fired_def)

lemma insert_effect:
  assumes inv: "ts_inv d" "entries_ok sk n d q" "n < 2 ^ 64 - 1" "i \<notin> de_timer ` snd ` set (dq_entries q)"
    and ins: "insert_inner (arm clk) drv sk i tm v q d = Inr (q', d', key, ws)"
  shows "ts_inv d' \<and> entries_ok sk (Suc n) d' q' \<and> dq_pairs q' = add_mset (key, v) (dq_pairs q)
    \<and> (some_fired d' q' \<longleftrightarrow> some_fired d q)
    \<and> (ws = [] \<and> fs_waker (dq_sink q') = fs_waker (dq_sink q) \<and> dq_expired q' = dq_expired q
       \<or> ws = wakes_of (fs_waker (dq_sink q)) \<and> fs_waker (dq_sink q') = None)"
proof -
  obtain d1 due where a: "arm clk i tm sk d = (d1, due)" by fastforce
  note law = driver.arm_law [OF inv(1) a]
  have key: "key = dq_next_key q" "d' = d1" using ins a by (auto simp: insert_inner_def Let_def split: if_splits prod.splits)
  have nk: "unat (dq_next_key q + 1) = Suc n"
    using inv(2,3) by (simp add: entries_ok_def unat_plus_if')
  have fresh: "key \<notin> fst ` set (dq_entries q)" using inv(2) key by (auto simp: entries_ok_def)
  have others: "timers_same" if "timers_same = (\<forall>(k, en)\<in>set (dq_entries q). dq_fired d' (de_timer en) = dq_fired d (de_timer en)
      \<and> te_waker (timers (ts_wheel d') (de_timer en)) = te_waker (timers (ts_wheel d) (de_timer en)))" for timers_same
    using law inv(4) key(2) that by (fastforce simp: image_iff)
  show ?thesis
  proof (cases due)
    case True
    then have q': "dq_entries q' = dq_entries q" "dq_next_key q' = dq_next_key q + 1"
      "dq_expired q' = dq_expired q @ [\<lparr>ex_key = key, ex_deadline = tm, ex_item = v\<rparr>]"
      "ws = wakes_of (fs_waker (dq_sink q)) \<and> fs_waker (dq_sink q') = None"
      using ins a by (auto simp: insert_inner_def Let_def sink_notify_def wakes_of_def split: if_splits option.splits)
    have "entries_ok sk (Suc n) d' q'" using inv(2) q' nk others [OF refl] by (fastforce simp: entries_ok_def)
    moreover have "some_fired d' q' \<longleftrightarrow> some_fired d q" using q' others [OF refl] by (fastforce simp: some_fired_def)
    ultimately show ?thesis using law q' key by (simp add: dq_pairs_def)
  next
    case False
    let ?en = "\<lparr>de_when = tm, de_timer = i, de_value = v\<rparr>"
    have q': "dq_entries q' = AList.update key ?en (dq_entries q)" "dq_next_key q' = dq_next_key q + 1"
      "dq_expired q' = dq_expired q" "ws = []" "dq_sink q' = dq_sink q"
      using ins a False by (auto simp: insert_inner_def Let_def split: if_splits)
    have up: "AList.update key ?en (dq_entries q) = dq_entries q @ [(key, ?en)]"
      using fresh by (rule update_fresh)
    have new: "dq_fired d' i = False" "te_waker (timers (ts_wheel d') i) = Some sk" using law False key by auto
    have "distinct (map (de_timer \<circ> snd) (dq_entries q'))" using inv(2,4) q' up by (auto simp: entries_ok_def)
    then have "entries_ok sk (Suc n) d' q'" using inv(2) q' nk others [OF refl] fresh new key up
      by (fastforce simp: entries_ok_def)
    moreover have "some_fired d' q' \<longleftrightarrow> some_fired d q" using q' others [OF refl] up new by (fastforce simp: some_fired_def)
    ultimately show ?thesis using law q' key up by (simp add: dq_pairs_def)
  qed
qed

lemma remove_effect:
  assumes inv: "ts_inv d" "entries_ok sk n d q" and rm: "dq_remove_if cancel dq_fired key P q d = (Some v, q', d')"
  shows "ts_inv d' \<and> entries_ok sk n d' q' \<and> dq_pairs q = add_mset (key, v) (dq_pairs q') \<and> (some_fired d' q' \<longrightarrow> some_fired d q)
    \<and> dq_sink q' = dq_sink q \<and> dq_expired q' = dq_expired q"
proof -
  obtain en where en: "map_of (dq_entries q) key = Some en" "v = de_value en" "q' = q\<lparr>dq_entries := AList.delete key (dq_entries q)\<rparr>"
    "d' = (if dq_driver q then cancel (de_timer en) d else d)" "\<not> dq_fired d (de_timer en)"
    using rm by (auto simp: dq_remove_if_def Let_def split: option.splits if_splits)
  have dist: "distinct (map fst (dq_entries q))" using inv(2) by (simp add: entries_ok_def)
  note law = driver.cancel_law [OF inv(1), of "de_timer en"]
  have sub: "set (AList.delete key (dq_entries q)) \<subseteq> set (dq_entries q)" by (auto simp: AList.delete_eq)
  have ne: "de_timer en' \<noteq> de_timer en" if "(k, en') \<in> set (AList.delete key (dq_entries q))" for k en'
  proof
    assume t: "de_timer en' = de_timer en"
    have m: "(k, en') \<in> set (dq_entries q)" "(key, en) \<in> set (dq_entries q)" using that sub en(1) by (auto dest: map_of_SomeD)
    have "inj_on (de_timer \<circ> snd) (set (dq_entries q))" using inv(2) by (simp add: entries_ok_def distinct_map)
    then have "(k, en') = (key, en)" using inj_onD [of "de_timer \<circ> snd" "set (dq_entries q)" "(k, en')" "(key, en)"] m t by simp
    then show False using that by (auto simp: AList.delete_eq)
  qed
  have same: "dq_fired d' (de_timer en') = dq_fired d (de_timer en') \<and> te_waker (timers (ts_wheel d') (de_timer en')) = te_waker (timers (ts_wheel d) (de_timer en'))"
    if "(k, en') \<in> set (AList.delete key (dq_entries q))" for k en'
    using ne [OF that] law en(4) by simp
  have "distinct (map fst (AList.delete key (dq_entries q)))" "distinct (map (de_timer \<circ> snd) (AList.delete key (dq_entries q)))"
    using inv(2) by (simp_all add: entries_ok_def AList.delete_eq distinct_map_filter)
  moreover have "unat k < n \<and> (dq_fired d' (de_timer en') \<or> te_waker (timers (ts_wheel d') (de_timer en')) = Some sk)"
    if "(k, en') \<in> set (AList.delete key (dq_entries q))" for k en'
  proof -
    have "(k, en') \<in> set (dq_entries q)" using that sub by blast
    then show ?thesis using same [OF that] inv(2) by (auto simp: entries_ok_def)
  qed
  ultimately have "entries_ok sk n d' q'" using inv(2) en(3) by (auto simp: entries_ok_def)
  moreover have "some_fired d' q' \<longrightarrow> some_fired d q" using en(3) sub same by (fastforce simp: some_fired_def)
  moreover have "dq_pairs q = add_mset (key, v) (dq_pairs q')" using mset_delete [OF dist en(1)] en(2,3) by (simp add: dq_pairs_def)
  ultimately show ?thesis using law en(3,4) inv(1) by simp
qed

lemma scan_ok:
  assumes "entries_ok sk n d q" "\<And>xs. set (ord xs) = set xs" "poll_scan ord (dq_fired d) q = (r, q')"
  shows "entries_ok sk n d q' \<and> \<not> some_fired d q' \<and> dq_sink q' = dq_sink q \<and> (r = None \<longrightarrow> dq_expired q' = [])
    \<and> dq_pairs q = dq_pairs q' + (case r of None \<Rightarrow> {#} | Some x \<Rightarrow> {#(ex_key x, ex_item x)#})"
proof -
  have "distinct (map fst (dq_entries q))" using assms(1) by (simp add: entries_ok_def)
  note e = poll_scan_effect [OF this assms(2,3)]
  show ?thesis using e(1,2,4-) e(3) [of "de_timer \<circ> snd"] assms(1) unfolding entries_ok_def by auto
qed

lemma fire_effect:
  assumes "ts_inv d" "entries_ok sk n d q" "advance_to_now clk d = Some (d', wks)"
  shows "ts_inv d' \<and> entries_ok sk n d' q \<and> (some_fired d' q \<longrightarrow> some_fired d q \<or> 0 < count_list wks sk)"
proof -
  note law = driver.advance_law [OF assms(1,3)]
  have "dq_fired d' (de_timer en) \<or> te_waker (timers (ts_wheel d') (de_timer en)) = Some sk"
    if "(k, en) \<in> set (dq_entries q)" for k en
    using that law assms(2) unfolding entries_ok_def by fastforce
  moreover have "dq_fired d (de_timer en) \<or> sk \<in> set wks" if "(k, en) \<in> set (dq_entries q)" "dq_fired d' (de_timer en)" for k en
    using that law assms(2) unfolding entries_ok_def by fastforce
  ultimately show ?thesis using law assms(2) unfolding entries_ok_def some_fired_def by (force simp: count_list_0_iff)
qed

lemma dq_reach_inv:
  assumes "dq_reach ord sk one y" "\<And>xs. set (ord xs) = set xs"
  shows "dq_inv sk y"
  using assms(1)
proof induction
  case (start d)
  then show ?case by (simp add: dq_inv_def delay_queue_new_def entries_ok_def dq_pairs_def)
next
  case (insert y i clk drv tm v q d key ws)
  then show ?case using insert_effect [of "ds_d y" sk "length (ds_in y)" "ds_q y" i clk drv tm v q d key ws]
    by (simp add: dq_inv_def)
next
  case (remove y key P v q d)
  then show ?case using remove_effect [of "ds_d y" sk "length (ds_in y)" "ds_q y" key P v q d] by (simp add: dq_inv_def)
next
  case (deliver y cx x q)
  then show ?case using scan_ok [of sk "length (ds_in y)" "ds_d y" "ds_q y" ord, OF _ assms(2)] by (fastforce simp: dq_inv_def)
next
  case (nothing y cx q)
  then show ?case using scan_ok [of sk "length (ds_in y)" "ds_d y" "ds_q y" ord, OF _ assms(2)] by (fastforce simp: dq_inv_def)
next
  case (register y cx q)
  then show ?case by (auto simp: dq_inv_def poll_register_def split: if_splits)
next
  case (fire y clk d wks)
  then show ?case using fire_effect [of "ds_d y" sk "length (ds_in y)" "ds_q y" clk d wks] by (simp add: dq_inv_def)
next
  case (other y d)
  then show ?case by (auto simp: dq_inv_def entries_ok_def)
qed (auto simp: dq_inv_def dq_close_def poll_notified_def)

text \<open>With one waker: what is known in each phase.\<close>

definition dq_wake :: "waker \<Rightarrow> 'v dq_sys \<Rightarrow> bool" where
  "dq_wake c y \<longleftrightarrow>
     (let f = dq_sink (ds_q y); noticed = (0 < ds_flight y \<or> fs_notified f \<or> ds_called y)
      in (fs_waker f = None \<or> fs_waker f = Some c) \<and>
         (case ds_phase y of
            Idle \<Rightarrow> ds_asleep y \<noteq> None \<longrightarrow> ds_asleep y = Some c \<and> fs_waker f = Some c \<and> dq_expired (ds_q y) = []
              \<and> (some_fired (ds_d y) (ds_q y) \<longrightarrow> 0 < ds_flight y)
          | Scanning cx \<Rightarrow> cx = c \<and> ds_asleep y = None
          | Scanned cx \<Rightarrow> cx = c \<and> ds_asleep y = None \<and> dq_expired (ds_q y) = [] \<and> (some_fired (ds_d y) (ds_q y) \<longrightarrow> noticed)
          | Registered cx \<Rightarrow> cx = c \<and> ds_asleep y = None \<and> dq_expired (ds_q y) = [] \<and> (some_fired (ds_d y) (ds_q y) \<longrightarrow> noticed)
              \<and> (fs_waker f = Some c \<or> ds_called y)))"

lemma dq_reach_wake:
  assumes "dq_reach ord sk (Some c) y" "\<And>xs. set (ord xs) = set xs"
  shows "dq_wake c y"
  using assms(1)
proof (induction)
  case (start d)
  then show ?case by (simp add: dq_wake_def delay_queue_new_def fire_sink_new_def)
next
  case (insert y i clk drv tm v q d key ws)
  have "dq_inv sk y" using insert.hyps(1) assms(2) by (rule dq_reach_inv)
  then have "some_fired d q = some_fired (ds_d y) (ds_q y) \<and> (ws = [] \<and> fs_waker (dq_sink q) = fs_waker (dq_sink (ds_q y)) \<and> dq_expired q = dq_expired (ds_q y)
       \<or> ws = wakes_of (fs_waker (dq_sink (ds_q y))) \<and> fs_waker (dq_sink q) = None)"
    using insert_effect [of "ds_d y" sk "length (ds_in y)" "ds_q y" i clk drv tm v q d key ws] insert.hyps by (simp add: dq_inv_def)
  then show ?case using insert.IH insert.hyps(2)
    by (auto simp: dq_wake_def Let_def still_unwoken_def wakes_of_def split: option.splits)
next
  case (remove y key P v q d)
  have "dq_inv sk y" using remove.hyps(1) assms(2) by (rule dq_reach_inv)
  then show ?case using remove_effect [of "ds_d y" sk "length (ds_in y)" "ds_q y" key P v q d] remove.hyps remove.IH
    by (auto simp: dq_inv_def dq_wake_def Let_def)
next
  case (deliver y cx x q)
  have "dq_inv sk y" using deliver.hyps(1) assms(2) by (rule dq_reach_inv)
  then show ?case using scan_ok [of sk "length (ds_in y)" "ds_d y" "ds_q y" ord, OF _ assms(2) deliver.hyps(3)] deliver.hyps(2) deliver.IH
    by (auto simp: dq_inv_def dq_wake_def Let_def)
next
  case (nothing y cx q)
  have "dq_inv sk y" using nothing.hyps(1) assms(2) by (rule dq_reach_inv)
  then show ?case using scan_ok [of sk "length (ds_in y)" "ds_d y" "ds_q y" ord, OF _ assms(2) nothing.hyps(3)] nothing.hyps(2) nothing.IH
    by (auto simp: dq_inv_def dq_wake_def Let_def)
next
  case (fire y clk d wks)
  have "dq_inv sk y" using fire.hyps(1) assms(2) by (rule dq_reach_inv)
  then show ?case using fire_effect [of "ds_d y" sk "length (ds_in y)" "ds_q y" clk d wks] fire.hyps fire.IH
    by (auto simp: dq_inv_def dq_wake_def Let_def split: dq_phase.splits)
next
  case (notify y n f ws)
  then show ?case
    by (auto simp: dq_wake_def Let_def sink_notify_def still_unwoken_def split: dq_phase.splits option.splits)
next
  case (other y d)
  have "some_fired d (ds_q y) = some_fired (ds_d y) (ds_q y)"
    unfolding some_fired_def using other.hyps(3) by (intro bex_cong refl) auto
  then show ?case using other.IH by (auto simp: dq_wake_def Let_def split: dq_phase.splits)
next
  case (register y cx q)
  then show ?case by (auto simp: dq_wake_def Let_def poll_register_def split: if_splits)
qed (auto simp: dq_wake_def Let_def dq_close_def poll_notified_def split: dq_phase.splits)

section \<open>Properties\<close>

lemma expire_keys_sink [simp]: "dq_sink (expire_keys ks q) = dq_sink q"
  by (induction ks arbitrary: q) (auto split: option.splits)

lemma poll_scan_sink: "poll_scan ord fired q = (r, q') \<Longrightarrow> dq_sink q' = dq_sink q"
  by (auto simp: poll_scan_def Let_def split: list.splits)

text \<open>The loop of \<open>poll_expired\<close> runs at most twice.\<close>

lemma poll_expired_once: "\<not> fs_notified (dq_sink q) \<Longrightarrow> poll_expired ord fired cx q \<noteq> None"
  using poll_scan_sink [of ord fired q]
  by (subst poll_expired.simps) (auto simp: poll_register_def poll_notified_def split: prod.splits option.splits if_splits)

lemma poll_expired_returns: "poll_expired ord fired cx q \<noteq> None"
  using poll_expired_once [of "q'\<lparr>dq_sink := (dq_sink q')\<lparr>fs_notified := False\<rparr>\<rparr>" for q']
  by (subst poll_expired.simps) (auto simp: poll_notified_def split: prod.splits option.splits)

text \<open>C27. In every interleaving with the driver, each item put into the queue has been taken out once,
  delivered or removed, or is still in it, under the key it was given; keys are never given twice.\<close>

theorem delay_queue_accounts_for_every_item:
  assumes "dq_reach ord sk one y" "\<And>xs. set (ord xs) = set xs"
  shows "mset (ds_in y) = mset (ds_out y) + dq_pairs (ds_q y) \<and> dq_len (ds_q y) + length (ds_out y) = length (ds_in y)"
proof -
  have "mset (ds_in y) = mset (ds_out y) + dq_pairs (ds_q y)" using dq_reach_inv [OF assms] by (simp add: dq_inv_def)
  moreover from arg_cong [OF this, of size] have "dq_len (ds_q y) + length (ds_out y) = length (ds_in y)"
    by (simp add: dq_pairs_def dq_len_def)
  ultimately show ?thesis by blast
qed

text \<open>C28. No expiry is lost: while a task sleeps on the queue and an item is ready for it, the driver is
  about to notify the sink, and the notification calls the waker of the task. This holds for a queue
  that is polled with one waker.\<close>

theorem delay_queue_wake_is_not_lost:
  assumes "dq_reach ord sk (Some c) y" "\<And>xs. set (ord xs) = set xs" "ds_asleep y = Some cx"
    "some_fired (ds_d y) (ds_q y) \<or> dq_expired (ds_q y) \<noteq> []"
  shows "0 < ds_flight y \<and> snd (sink_notify (dq_sink (ds_q y))) = [cx]"
proof -
  have w: "dq_wake c y" using dq_reach_wake [OF assms(1,2)] .
  then have "ds_phase y = Idle" using assms(3) by (auto simp: dq_wake_def Let_def split: dq_phase.splits)
  then show ?thesis using w assms(3,4) by (auto simp: dq_wake_def Let_def sink_notify_def)
qed

text \<open>A state for the witnesses: an item due in ten milliseconds, a task asleep, and twenty milliseconds
  gone by.\<close>

lemma sleeping_demo:
  "\<exists>y. dq_reach (\<lambda>xs. xs) 9 (Some 5) y \<and> ds_asleep y = Some 5 \<and> some_fired (ds_d y) (ds_q y) \<and> ds_in y = [(0, ''item'')]"
proof -
  let ?d = "timer_shared_new 0"
  obtain d1 due where a: "arm 0 1 10000000 9 ?d = (d1, due)" by fastforce
  note ae = arm_effect [OF ts_inv_new a]
  have ms: "instant_to_ms ?d 10000000 = 10" by (simp add: instant_to_ms_def timer_shared_new_def ceil_ms_def as_millis_def subsec_nanos_def U64_MAX_def)
  have nd: "\<not> due" using ae(2) ms by (simp add: now_instant_def now_ms_def real_elapsed_ms_def timer_shared_new_def as_millis_def wheel_new_def)
  let ?en = "\<lparr>de_when = 10000000, de_timer = 1, de_value = ''item''\<rparr>"
  let ?q = "(delay_queue_new :: string delay_queue)\<lparr>dq_next_key := 1, dq_driver := True, dq_entries := [(0, ?en)]\<rparr>"
  let ?y0 = "\<lparr>ds_q = delay_queue_new, ds_d = ?d, ds_flight = 0, ds_phase = Idle, ds_called = False, ds_asleep = None, ds_in = [], ds_out = []\<rparr>"
  have "insert_inner (arm 0) True 9 1 10000000 ''item'' delay_queue_new ?d = Inr (?q, d1, 0, [])"
    using a nd by (simp add: insert_inner_def delay_queue_new_def Let_def)
  then have r1: "dq_reach (\<lambda>xs. xs) 9 (Some 5) (?y0\<lparr>ds_q := ?q, ds_d := d1, ds_in := [(0, ''item'')]\<rparr>)"
    using dq_reach.insert [where y = ?y0 and i = 1 and clk = 0 and drv = True and tm = 10000000 and v = "''item''" and q = ?q and d = d1
        and key = 0 and ws = "[]", OF dq_reach.start [OF ts_inv_new]]
    by (simp add: still_unwoken_def, simp add: delay_queue_new_def)
  have unfired: "\<not> dq_fired d1 1" using ae(4) nd by simp
  have scan: "poll_scan (\<lambda>xs. xs) (dq_fired d1) ?q = (None, ?q)"
    using unfired by (simp add: poll_scan_def delay_queue_new_def)
  let ?q2 = "?q\<lparr>dq_sink := \<lparr>fs_waker = Some 5, fs_notified = False\<rparr>\<rparr>"
  have reg: "poll_register 5 ?q = Some ?q2" "poll_notified ?q2 = (False, ?q2)"
    by (simp_all add: poll_register_def poll_notified_def delay_queue_new_def fire_sink_new_def)
  note r2 = dq_reach.poll [OF r1, of 5]
  have r3: "dq_reach (\<lambda>xs. xs) 9 (Some 5) (?y0\<lparr>ds_q := ?q, ds_d := d1, ds_in := [(0, ''item'')], ds_phase := Scanned 5\<rparr>)"
    using dq_reach.nothing [OF r2, of 5 ?q] scan by simp
  have r4: "dq_reach (\<lambda>xs. xs) 9 (Some 5) (?y0\<lparr>ds_q := ?q2, ds_d := d1, ds_in := [(0, ''item'')], ds_asleep := Some 5\<rparr>)"
    using dq_reach.pending [OF dq_reach.register [OF r3, of 5 ?q2], of 5 ?q2] reg by simp
  have at1: "1 \<in> armed (ts_wheel d1)" "te_deadline (timers (ts_wheel d1) 1) = 10" using ae(3,5) nd ms by simp_all
  have only: "j = 1" if "j \<in> armed (ts_wheel d1)" for j
    using ae(7) [of j] that by (cases "j = 1") (simp_all add: armed_def timer_shared_new_def wheel_new_def timer_entry_new_def)
  have o: "origin d1 = 0" "\<not> paused d1"
    using a by (auto simp: arm_def Let_def timer_shared_new_def split: if_splits)
  have now: "now_ms 20000000 d1 = 20" using o by (simp add: now_ms_def real_elapsed_ms_def as_millis_def U64_MAX_def)
  obtain d2 wks ids where adv: "advance_to_now 20000000 d1 = Some (d2, wks)" and f: "fires d1 ids d2"
    and e: "ids = [] \<longrightarrow> (\<forall>i\<in>armed (ts_wheel d1). now_ms 20000000 d1 < te_deadline (timers (ts_wheel d1) i))"
    using advance_to_now_effect [OF ae(1), of 20000000] by blast
  have "ids \<noteq> []" using e at1 now by auto
  then have "1 \<in> set ids" using f only by (cases ids) (auto simp: fires_def)
  then have "dq_fired d2 1" using f by (auto simp: fires_def)
  from dq_reach.fire [OF r4, of 20000000 d2 wks] adv this
  show ?thesis by (intro exI conjI) (auto simp: some_fired_def delay_queue_new_def)
qed

theorem delay_queue_accounts_for_every_item_witness:
  "\<exists>y. dq_reach (\<lambda>xs. xs) 9 (Some 5) y \<and> ds_in y = [(0, ''item'')] \<and> dq_len (ds_q y) + length (ds_out y) = 1"
proof -
  obtain y where y: "dq_reach (\<lambda>xs. xs) 9 (Some 5) y" "ds_in y = [(0, ''item'')]" using sleeping_demo by blast
  from delay_queue_accounts_for_every_item [OF y(1) refl] y show ?thesis by auto
qed

theorem delay_queue_wake_is_not_lost_witness:
  "\<exists>y. dq_reach (\<lambda>xs. xs) 9 (Some 5) y \<and> ds_in y = [(0, ''item'')] \<and> ds_asleep y = Some 5 \<and> 0 < ds_flight y
    \<and> snd (sink_notify (dq_sink (ds_q y))) = [5]"
proof -
  obtain y where y: "dq_reach (\<lambda>xs. xs) 9 (Some 5) y" "ds_in y = [(0, ''item'')]" "ds_asleep y = Some 5" "some_fired (ds_d y) (ds_q y)"
    using sleeping_demo by blast
  from delay_queue_wake_is_not_lost [OF y(1) refl y(3)] y show ?thesis by auto
qed

text \<open>Items that are already due when they are inserted are delivered in the order of insertion, not of
  their deadlines.\<close>

lemma due_items_keep_insertion_order:
  assumes "arm_fn i1 t1 sk d = (d1, True)" "arm_fn i2 t2 sk d1 = (d2, True)" "ord [] = []"
    "insert_inner arm_fn True sk i1 t1 v1 delay_queue_new d = Inr (q1, d1, k1, ws1)"
    "insert_inner arm_fn True sk i2 t2 v2 q1 d1 = Inr (q2, d2, k2, ws2)"
  shows "poll_expired ord fired cx q2 = Some (Ready (Some \<lparr>ex_key = 0, ex_deadline = t1, ex_item = v1\<rparr>),
    q2\<lparr>dq_expired := [\<lparr>ex_key = 1, ex_deadline = t2, ex_item = v2\<rparr>]\<rparr>)"
  using assms by (subst poll_expired.simps)
    (auto simp: insert_inner_def delay_queue_new_def Let_def sink_notify_def fire_sink_new_def poll_scan_def)

text \<open>A wake is lost when the queue is polled with a new waker while an old one is registered: a timer
  that fires between the scan and the registration calls the old waker, no notification is recorded,
  and the new waker waits although an item is ready.\<close>

lemma new_waker_can_miss_the_wake:
  assumes "fs_waker (dq_sink q) = Some old" "\<not> fs_notified (dq_sink q)" "dq_entries q \<noteq> []"
    "sink_notify (dq_sink q) = (f, ws)" "poll_register cx (q\<lparr>dq_sink := f\<rparr>) = Some q1"
  shows "ws = [old] \<and> fst (poll_notified q1) = False \<and> fs_waker (dq_sink q1) = Some cx"
  using assms by (auto simp: sink_notify_def poll_register_def poll_notified_def split: if_splits)

end
