(* ===== verification/Uring_Rings.thy ===== *)
theory Uring_Rings
  imports Queue_Spec
begin

text \<open>
  The rings that \<open>io/uring.rs\<close> shares with the kernel. The submission ring has entries, an array of
  indices into them, and two 32-bit cursors that wrap; the kernel advances the head and userspace the
  tail. The completion ring is the converse. This theory holds both rings, the operations on each side,
  and the system call that submits. It shows that the submission ring is a bounded queue whatever its
  cursors are, and that reaping reads the completions in the order they were posted.
\<close>

section \<open>Model\<close>

type_synonym i32 = "32 word"

subsection \<open>Entries\<close>

record sqe =
  sqe_opcode :: u8
  sqe_flags :: u8
  sqe_ioprio :: u16
  sqe_fd :: i32
  sqe_off :: u64
  sqe_addr :: u64
  sqe_len :: u32
  sqe_rw_flags :: u32
  sqe_user_data :: u64
  sqe_buf_index :: u16
  sqe_personality :: u16
  sqe_splice_fd_in :: i32

record cqe =
  cqe_user_data :: u64
  cqe_res :: i32
  cqe_flags :: u32

text \<open>\<open>io::Error\<close>: a code of the system, or a kind with the message of the code.\<close>

datatype uring_error = RawOs i32 | WouldBlock string | InvalidInput string | InvalidData string | OtherError string

definition sq_full :: uring_error where
  "sq_full = WouldBlock ''eddy: io_uring submission queue is full''"

definition IORING_SQ_NEED_WAKEUP :: u32 where "IORING_SQ_NEED_WAKEUP = 1"

definition EINTR :: i32 where "EINTR = 4"

subsection \<open>The submission ring\<close>

text \<open>\<open>sq_pending\<close> is the counter of \<open>RingState\<close>: entries that are queued and not yet submitted. \<open>sq_flags\<close> is the
  field in which the kernel's polling thread says that it sleeps.\<close>

record sq_ring =
  sq_head :: u32
  sq_tail :: u32
  sq_entries :: u32
  sq_mask :: u32
  sq_sqes :: "sqe list"
  sq_array :: "u32 list"
  sq_flags :: u32
  sq_pending :: u32

definition saturating_sub_u32 :: "u32 \<Rightarrow> u32 \<Rightarrow> u32" where
  "saturating_sub_u32 a b = (if b \<le> a then a - b else 0)"

definition sq_space_locked :: "sq_ring \<Rightarrow> u32" where
  "sq_space_locked r = saturating_sub_u32 (sq_entries r) (sq_tail r - sq_head r)"

definition queue_sqe_locked :: "sqe \<Rightarrow> sq_ring \<Rightarrow> uring_error + sq_ring" where
  "queue_sqe_locked v r =
     (if sq_entries r \<le> sq_tail r - sq_head r then Inl sq_full
      else
        let index = sq_tail r AND sq_mask r in
        Inr (r\<lparr>sq_sqes := (sq_sqes r)[unat index := v], sq_array := (sq_array r)[unat index := index],
               sq_tail := sq_tail r + 1, sq_pending := sq_pending r + 1\<rparr>))"

text \<open>The kernel consumes \<open>n\<close> entries from the head.\<close>

definition sq_contents :: "sq_ring \<Rightarrow> sqe list" where
  "sq_contents r = map (\<lambda>i. sq_sqes r ! unat (sq_array r ! unat ((sq_head r + of_nat i) AND sq_mask r))) [0..<unat (sq_tail r - sq_head r)]"

definition kernel_consume :: "nat \<Rightarrow> sq_ring \<Rightarrow> sqe list \<times> sq_ring" where
  "kernel_consume n r = (take n (sq_contents r), r\<lparr>sq_head := sq_head r + of_nat n\<rparr>)"

text \<open>Submission. The outcomes of the system call are given: a code of failure, or the number of entries
  that the kernel consumed. After \<open>EINTR\<close> the call is repeated; without an outcome it has not returned.
  With SQPOLL the kernel's thread consumes entries by itself, and the call only wakes it.\<close>

datatype enter_outcome = Submitted u32 | EnterFailed i32

fun wakeup_loop :: "enter_outcome list \<Rightarrow> (uring_error option) option" where
  "wakeup_loop [] = None"
| "wakeup_loop (Submitted n # os) = Some None"
| "wakeup_loop (EnterFailed e # os) = (if e = EINTR then wakeup_loop os else Some (Some (RawOs e)))"

fun enter_loop :: "enter_outcome list \<Rightarrow> sq_ring \<Rightarrow> ((uring_error + u32) \<times> sqe list \<times> sq_ring) option" where
  "enter_loop [] r = None"
| "enter_loop (Submitted n # os) r =
     (let (es, r) = kernel_consume (unat n) r in Some (Inr n, es, r\<lparr>sq_pending := sq_pending r - n\<rparr>))"
| "enter_loop (EnterFailed e # os) r = (if e = EINTR then enter_loop os r else Some (Inl (RawOs e), [], r))"

definition submit_inner :: "bool \<Rightarrow> enter_outcome list \<Rightarrow> sq_ring \<Rightarrow> ((uring_error + u32) \<times> sqe list \<times> sq_ring) option" where
  "submit_inner sqpoll os r =
     (if sq_pending r = 0 then Some (Inr 0, [], r)
      else if sqpoll
      then (if sq_flags r AND IORING_SQ_NEED_WAKEUP \<noteq> 0
            then (case wakeup_loop os of
                    None \<Rightarrow> None
                  | Some (Some e) \<Rightarrow> Some (Inl e, [], r)
                  | Some None \<Rightarrow> Some (Inr (sq_pending r), [], r\<lparr>sq_pending := 0\<rparr>))
            else Some (Inr (sq_pending r), [], r\<lparr>sq_pending := 0\<rparr>))
      else enter_loop os r)"

subsection \<open>The completion ring\<close>

record cq_ring =
  cq_head :: u32
  cq_tail :: u32
  cq_entries :: u32
  cq_mask :: u32
  cq_cqes :: "cqe list"

text \<open>What a reaper reads: as many completions as the cursors say, each at its masked position; and the head
  it publishes when it is done with them.\<close>

definition cq_available :: "cq_ring \<Rightarrow> u32" where
  "cq_available r = cq_tail r - cq_head r"

definition cq_read :: "cq_ring \<Rightarrow> cqe list" where
  "cq_read r = map (\<lambda>i. cq_cqes r ! unat ((cq_head r + of_nat i) AND cq_mask r)) [0..<unat (cq_available r)]"

definition cq_publish :: "u32 \<Rightarrow> cq_ring \<Rightarrow> cq_ring" where
  "cq_publish n r = r\<lparr>cq_head := cq_head r + n\<rparr>"

text \<open>The kernel posts a completion if there is room for it.\<close>

definition kernel_post :: "cqe \<Rightarrow> cq_ring \<Rightarrow> cq_ring option" where
  "kernel_post c r =
     (if cq_available r < cq_entries r
      then Some (r\<lparr>cq_cqes := (cq_cqes r)[unat (cq_tail r AND cq_mask r) := c], cq_tail := cq_tail r + 1\<rparr>)
      else None)"

section \<open>Masked cursors\<close>

text \<open>The kernel makes rings of a power of two, and the mask is one less.\<close>

definition ring_size :: "u32 \<Rightarrow> u32 \<Rightarrow> bool" where
  "ring_size n m \<longleftrightarrow> (\<exists>k<32. n = 2 ^ k \<and> m = mask k)"

lemma unat_two_power: "k < LENGTH('a) \<Longrightarrow> unat (2 ^ k :: 'a::len word) = 2 ^ k"
  using unat_of_nat_lt [of "2 ^ k", where 'a = 'a] by simp

lemma unat_succ32: "Suc (unat w) < 2 ^ 32 \<Longrightarrow> unat (w + 1 :: u32) = Suc (unat w)"
proof -
  assume lt: "Suc (unat w) < 2 ^ 32"
  have "w + 1 = of_nat (Suc (unat w))" by simp
  then show ?thesis using unat_of_nat_lt [where 'a = 32, of "Suc (unat w)"] lt by (simp only:) simp
qed

lemma ring_size_unat: "ring_size n m \<Longrightarrow> \<exists>k<32. unat n = 2 ^ k"
  by (auto simp: ring_size_def unat_two_power)

lemma masked_cursor:
  assumes "ring_size n m"
  shows "unat ((h + of_nat i) AND m) = (unat h + i) mod unat n"
proof -
  obtain k where k: "k < 32" "n = 2 ^ k" "m = mask k" using assms by (auto simp: ring_size_def)
  have "unat ((h + of_nat i) AND mask k) = unat (h + of_nat i) mod 2 ^ k"
    by (simp only: take_bit_eq_mask [symmetric] unsigned_take_bit_eq) (simp only: take_bit_eq_mod)
  also have "unat (h + of_nat i) = (unat h + i) mod 2 ^ 32"
    by (simp add: unat_word_ariths unat_of_nat take_bit_eq_mod mod_simps)
  also have "(unat h + i) mod 2 ^ 32 mod 2 ^ k = (unat h + i) mod 2 ^ k"
    using k(1) by (intro mod_mod_cancel le_imp_power_dvd) simp
  finally show ?thesis using k by (simp add: unat_two_power)
qed

lemma ring_size_pos: "ring_size n m \<Longrightarrow> 0 < unat n \<and> unat n < 2 ^ 32"
  using ring_size_unat [of n m] power_strict_increasing [of _ 32 "2 :: nat"] by fastforce

lemma masked_cursor0: "ring_size n m \<Longrightarrow> unat (h AND m) = unat h mod unat n"
  using masked_cursor [of n m h 0] by simp

text \<open>Positions within one turn of the ring are different.\<close>

lemma mod_window_inj:
  fixes h i j n :: nat
  assumes "i < n" "j < n" "(h + i) mod n = (h + j) mod n"
  shows "i = j"
proof -
  have "b \<le> a \<Longrightarrow> a < n \<Longrightarrow> (h + a) mod n = (h + b) mod n \<Longrightarrow> a = b" for a b
    using mod_eq_dvd_iff_nat [of "h + b" "h + a" n] nat_dvd_not_less [of "a - b" n] by force
  then show ?thesis using assms by (metis nat_le_linear)
qed

text \<open>A ring read from a cursor: writing at the tail appends, and a later head drops.\<close>

definition window :: "'a list \<Rightarrow> nat \<Rightarrow> nat \<Rightarrow> 'a list" where
  "window buf h len = map (\<lambda>i. buf ! ((h + i) mod length buf)) [0..<len]"

lemma window_append:
  assumes "len < length buf"
  shows "window (buf[(h + len) mod length buf := x]) h (Suc len) = window buf h len @ [x]"
proof -
  have "buf[(h + len) mod length buf := x] ! ((h + i) mod length buf) = buf ! ((h + i) mod length buf)" if "i < len" for i
    using mod_window_inj [of i "length buf" len h] that assms by (intro nth_list_update_neq) auto
  moreover have "(h + len) mod length buf < length buf" using assms by (intro mod_less_divisor) linarith
  ultimately show ?thesis by (auto simp: window_def)
qed

lemma window_drop: "n \<le> len \<Longrightarrow> window buf (h + n) (len - n) = drop n (window buf h len)"
proof (intro nth_equalityI)
  fix i assume "n \<le> len" "i < length (window buf (h + n) (len - n))"
  then have "n + i < len" "i < len - n" by (simp_all add: window_def)
  then show "window buf (h + n) (len - n) ! i = drop n (window buf h len) ! i" by (simp add: window_def add.assoc)
qed (simp add: window_def)

lemma window_cong: "h mod length buf = h' mod length buf \<Longrightarrow> window buf h len = window buf h' len"
  unfolding window_def by (intro map_cong refl arg_cong [where f = "(!) buf"] mod_add_cong)

lemma length_window [simp]: "length (window buf h len) = len"
  by (simp add: window_def)

section \<open>The submission ring is a bounded queue\<close>

text \<open>The array entries of the queued part point at their own slots, and, without SQPOLL, \<open>sq_pending\<close> counts
  what is queued.\<close>

definition sq_ok :: "sq_ring \<Rightarrow> bool" where
  "sq_ok r \<longleftrightarrow> ring_size (sq_entries r) (sq_mask r) \<and> length (sq_sqes r) = unat (sq_entries r) \<and> length (sq_array r) = unat (sq_entries r)
     \<and> sq_tail r - sq_head r \<le> sq_entries r
     \<and> (\<forall>i<unat (sq_tail r - sq_head r). unat (sq_array r ! unat ((sq_head r + of_nat i) AND sq_mask r)) = unat ((sq_head r + of_nat i) AND sq_mask r))"

definition sq_new :: "u32 \<Rightarrow> u32 \<Rightarrow> sqe list \<Rightarrow> sq_ring" where
  "sq_new start n es = \<lparr>sq_head = start, sq_tail = start, sq_entries = n, sq_mask = n - 1, sq_sqes = es, sq_array = replicate (unat n) 0,
     sq_flags = 0, sq_pending = 0\<rparr>"

lemma sq_ok_new:
  assumes "k < 32" "length es = 2 ^ k"
  shows "sq_ok (sq_new start (2 ^ k) es)"
  using assms by (auto simp: sq_ok_def sq_new_def ring_size_def unat_two_power mask_eq_exp_minus_1)

lemma sq_contents_window:
  assumes "sq_ok r"
  shows "sq_contents r = window (sq_sqes r) (unat (sq_head r)) (unat (sq_tail r - sq_head r))"
proof -
  have rs: "ring_size (sq_entries r) (sq_mask r)" and l: "length (sq_sqes r) = unat (sq_entries r)"
    using assms by (simp_all add: sq_ok_def)
  show ?thesis
    unfolding sq_contents_def window_def using assms by (intro map_cong refl) (simp add: sq_ok_def l masked_cursor [OF rs])
qed

lemma length_sq_contents [simp]: "length (sq_contents r) = unat (sq_tail r - sq_head r)"
  by (simp add: sq_contents_def)

lemma sq_pending_irrelevant [simp]: "sq_ok (r\<lparr>sq_pending := n\<rparr>) = sq_ok r" "sq_contents (r\<lparr>sq_pending := n\<rparr>) = sq_contents r"
  by (simp_all add: sq_ok_def sq_contents_def)

lemma sq_contents_bound: "sq_ok r \<Longrightarrow> length (sq_contents r) \<le> unat (sq_entries r)"
  by (simp add: sq_ok_def word_le_nat_alt)

lemma sq_space_exact: "sq_ok r \<Longrightarrow> unat (sq_space_locked r) = unat (sq_entries r) - length (sq_contents r)"
  by (simp add: sq_space_locked_def saturating_sub_u32_def sq_ok_def unat_sub)

lemma queue_sqe_full: "sq_ok r \<Longrightarrow> queue_sqe_locked v r = Inl e \<longleftrightarrow> length (sq_contents r) = unat (sq_entries r) \<and> e = sq_full"
  using sq_contents_bound [of r] by (auto simp: queue_sqe_locked_def Let_def word_le_nat_alt)

lemma queue_sqe_appends:
  assumes ok: "sq_ok r" and q: "queue_sqe_locked v r = Inr r'"
  shows "sq_ok r' \<and> sq_contents r' = sq_contents r @ [v] \<and> sq_pending r' = sq_pending r + 1 \<and> sq_entries r' = sq_entries r"
proof -
  let ?len = "sq_tail r - sq_head r" and ?n = "unat (sq_entries r)" and ?i = "unat (sq_tail r AND sq_mask r)"
  have rs: "ring_size (sq_entries r) (sq_mask r)" and l: "length (sq_sqes r) = ?n" "length (sq_array r) = ?n"
    and a: "\<And>i. i < unat ?len \<Longrightarrow> unat (sq_array r ! unat ((sq_head r + of_nat i) AND sq_mask r)) = unat ((sq_head r + of_nat i) AND sq_mask r)"
    using ok by (simp_all add: sq_ok_def)
  have lt: "unat ?len < ?n" using q by (simp add: queue_sqe_locked_def Let_def word_le_nat_alt not_le split: if_splits)
  have r': "r' = r\<lparr>sq_sqes := (sq_sqes r)[?i := v], sq_array := (sq_array r)[?i := sq_tail r AND sq_mask r],
               sq_tail := sq_tail r + 1, sq_pending := sq_pending r + 1\<rparr>"
    using q by (simp add: queue_sqe_locked_def Let_def split: if_splits)
  have lt32: "Suc (unat ?len) < 2 ^ 32" using lt ring_size_pos [OF rs] by simp
  have len': "unat (sq_tail r + 1 - sq_head r) = Suc (unat ?len)"
    using unat_succ32 [OF lt32] by (simp add: algebra_simps)
  have pos: "?i = (unat (sq_head r) + unat ?len) mod ?n"
    using masked_cursor [OF rs, of "sq_head r" "unat ?len"] by simp
  have old: "?i \<noteq> unat ((sq_head r + of_nat i) AND sq_mask r)" if "i < unat ?len" for i
    using mod_window_inj [of i ?n "unat ?len" "unat (sq_head r)"] that lt by (auto simp: pos masked_cursor [OF rs])
  have i: "?i < ?n" using ring_size_pos [OF rs] by (simp add: pos)
  have ok': "sq_ok r'"
    unfolding sq_ok_def
  proof (intro conjI allI impI)
    show "sq_tail r' - sq_head r' \<le> sq_entries r'" using lt len' by (simp add: r' word_le_nat_alt)
    fix i assume "i < unat (sq_tail r' - sq_head r')"
    then have "i < unat ?len \<or> i = unat ?len" by (simp add: r' len' less_Suc_eq)
    then show "unat (sq_array r' ! unat ((sq_head r' + of_nat i) AND sq_mask r')) = unat ((sq_head r' + of_nat i) AND sq_mask r')"
      using a old i l by (auto simp: r' nth_list_update_neq)
  qed (use rs l in \<open>simp_all add: r'\<close>)
  have "sq_contents r' = window ((sq_sqes r)[?i := v]) (unat (sq_head r)) (Suc (unat ?len))"
    using sq_contents_window [OF ok'] by (simp add: r' len')
  also have "\<dots> = sq_contents r @ [v]"
    using window_append [of "unat ?len" "sq_sqes r" "unat (sq_head r)" v] lt by (simp add: pos l sq_contents_window [OF ok])
  finally show ?thesis using ok' by (simp add: r')
qed

lemma consume_drops:
  assumes ok: "sq_ok r" and n: "n \<le> length (sq_contents r)"
  shows "sq_ok (snd (kernel_consume n r)) \<and> sq_contents (snd (kernel_consume n r)) = drop n (sq_contents r)"
proof -
  let ?len = "sq_tail r - sq_head r" and ?r = "snd (kernel_consume n r)" and ?n = "unat (sq_entries r)"
  have rs: "ring_size (sq_entries r) (sq_mask r)" and l: "length (sq_sqes r) = ?n" "length (sq_array r) = ?n"
    and a: "\<And>i. i < unat ?len \<Longrightarrow> unat (sq_array r ! unat ((sq_head r + of_nat i) AND sq_mask r)) = unat ((sq_head r + of_nat i) AND sq_mask r)"
    using ok by (simp_all add: sq_ok_def)
  have r: "?r = r\<lparr>sq_head := sq_head r + of_nat n\<rparr>" by (simp add: kernel_consume_def)
  have n32: "n < 2 ^ 32" using n unsigned_less [where 'a = nat, of ?len] by simp
  have len: "unat (sq_tail r - (sq_head r + of_nat n)) = unat ?len - n"
  proof -
    have "sq_tail r - (sq_head r + of_nat n) = ?len - of_nat n" by (rule diff_diff_add [symmetric])
    moreover have "unat (of_nat n :: u32) = n" using n32 unat_of_nat_lt [where 'a = 32, of n] by simp
    ultimately show ?thesis using n unat_sub [of "of_nat n" ?len] by (simp only: word_le_nat_alt length_sq_contents)
  qed
  have ok': "sq_ok ?r"
    unfolding sq_ok_def
  proof (intro conjI allI impI)
    show "sq_tail ?r - sq_head ?r \<le> sq_entries ?r" using sq_contents_bound [OF ok] len by (simp add: r word_le_nat_alt)
    fix i assume "i < unat (sq_tail ?r - sq_head ?r)"
    then have "n + i < unat ?len" by (simp add: r len)
    from a [OF this] show "unat (sq_array ?r ! unat ((sq_head ?r + of_nat i) AND sq_mask ?r)) = unat ((sq_head ?r + of_nat i) AND sq_mask ?r)"
      by (simp add: r add.assoc)
  qed (use rs l in \<open>simp_all add: r\<close>)
  have "sq_contents ?r = window (sq_sqes r) (unat (sq_head r + of_nat n)) (unat ?len - n)"
    using sq_contents_window [OF ok'] by (simp add: r len)
  also have "\<dots> = window (sq_sqes r) (unat (sq_head r) + n) (unat ?len - n)"
    using masked_cursor [OF rs, of "sq_head r" n] masked_cursor0 [OF rs, of "sq_head r + of_nat n"] by (intro window_cong) (simp add: l)
  also have "\<dots> = drop n (sq_contents r)"
    using n by (simp add: window_drop sq_contents_window [OF ok])
  finally show ?thesis using ok' by blast
qed

text \<open>One entry at a time, the two sides of the ring are a queue in order of arrival.\<close>

definition sq_put :: "sqe \<Rightarrow> sq_ring \<Rightarrow> sq_ring" where
  "sq_put v r = (case queue_sqe_locked v r of Inl _ \<Rightarrow> r | Inr r' \<Rightarrow> r')"

definition sq_take_one :: "sq_ring \<Rightarrow> sqe option \<times> sq_ring" where
  "sq_take_one r = (if sq_head r = sq_tail r then (None, r) else let (es, r) = kernel_consume 1 r in (Some (hd es), r))"

lemma sq_contents_empty: "sq_contents r = [] \<longleftrightarrow> sq_head r = sq_tail r"
  using length_0_conv [of "sq_contents r"] by (auto simp: unat_eq_0)

interpretation sq: fifo_queue sq_ok sq_contents "\<lambda>_ r. length (sq_contents r) < unat (sq_entries r)" sq_put sq_take_one
proof (unfold_locales, goal_cases)
  case (1 r v)
  then show ?case using queue_sqe_full [of r v] queue_sqe_appends [of r v] by (cases "queue_sqe_locked v r") (auto simp: sq_put_def)
next
  case (2 r v)
  then show ?case using queue_sqe_full [of r v] queue_sqe_appends [of r v] by (cases "queue_sqe_locked v r") (auto simp: sq_put_def)
next
  case (3 r)
  then show ?case using consume_drops [of r 1] length_greater_0_conv [of "sq_contents r"]
    by (auto simp: sq_take_one_def sq_contents_empty [symmetric] Suc_le_eq split: prod.splits)
next
  case (4 r)
  then show ?case by (simp add: sq_take_one_def sq_contents_empty)
next
  case (5 r x xs)
  then have "sq_head r \<noteq> sq_tail r" "1 \<le> length (sq_contents r)" using sq_contents_empty [of r] by auto
  then show ?case using 5 consume_drops [of r 1] by (auto simp: sq_take_one_def kernel_consume_def)
qed

text \<open>Submission moves a prefix of the queue to the kernel and keeps the count, unless it fails; \<open>EINTR\<close> alone
  repeats the call.\<close>

lemma enter_loop_effect:
  assumes "sq_ok r" "enter_loop os r = Some (res, es, r')" "unat (sq_pending r) = length (sq_contents r)"
    "\<And>n. Submitted n \<in> set os \<Longrightarrow> n \<le> sq_pending r"
  shows "sq_ok r' \<and> sq_contents r = es @ sq_contents r' \<and> unat (sq_pending r') = length (sq_contents r') \<and> sq_entries r' = sq_entries r
    \<and> (case res of Inr n \<Rightarrow> length es = unat n | Inl e \<Rightarrow> es = [] \<and> r' = r \<and> e \<noteq> RawOs EINTR)"
  using assms
proof (induction os r rule: enter_loop.induct)
  case (2 n os r)
  have n: "n \<le> sq_pending r" using "2.prems"(4) by simp
  then have le: "unat n \<le> length (sq_contents r)" using "2.prems"(3) by (simp add: word_le_nat_alt)
  obtain es1 r1 where k: "kernel_consume (unat n) r = (es1, r1)" by fastforce
  then have r1: "es1 = take (unat n) (sq_contents r)" "sq_pending r1 = sq_pending r" "sq_entries r1 = sq_entries r"
    by (auto simp: kernel_consume_def)
  from consume_drops [OF "2.prems"(1) le] k have c: "sq_ok r1" "sq_contents r1 = drop (unat n) (sq_contents r)" by simp_all
  have out: "res = Inr n" "es = es1" "r' = r1\<lparr>sq_pending := sq_pending r - n\<rparr>" using "2.prems"(2) k r1 by simp_all
  have "unat (sq_pending r - n) = length (sq_contents r1)" using c(2) n "2.prems"(3) by (simp add: unat_sub del: length_sq_contents)
  then show ?case using c r1 le by (simp add: out del: length_sq_contents)
next
  case (3 e os r)
  then show ?case by (auto split: if_splits)
qed simp

lemma enter_loop_returns:
  "(\<exists>pre o' post. os = map EnterFailed (replicate pre EINTR) @ o' # post \<and> o' \<noteq> EnterFailed EINTR) \<Longrightarrow> enter_loop os r \<noteq> None"
proof (elim exE conjE)
  fix pre o' post
  assume "os = map EnterFailed (replicate pre EINTR) @ o' # post" "o' \<noteq> EnterFailed EINTR"
  then show "enter_loop os r \<noteq> None"
    by (induction pre arbitrary: os) (cases o', auto simp: Let_def split: prod.splits)+
qed

section \<open>The completion ring\<close>

definition cq_ok :: "cq_ring \<Rightarrow> bool" where
  "cq_ok r \<longleftrightarrow> ring_size (cq_entries r) (cq_mask r) \<and> length (cq_cqes r) = unat (cq_entries r) \<and> cq_available r \<le> cq_entries r"

lemma cq_read_window: "cq_ok r \<Longrightarrow> cq_read r = window (cq_cqes r) (unat (cq_head r)) (unat (cq_available r))"
  by (auto simp: cq_read_def window_def cq_ok_def masked_cursor)

lemma length_cq_read [simp]: "length (cq_read r) = unat (cq_available r)"
  by (simp add: cq_read_def)

lemma kernel_post_appends:
  assumes ok: "cq_ok r" and p: "kernel_post c r = Some r'"
  shows "cq_ok r' \<and> cq_read r' = cq_read r @ [c]"
proof -
  let ?n = "unat (cq_entries r)" and ?i = "unat (cq_tail r AND cq_mask r)" and ?len = "cq_available r"
  have rs: "ring_size (cq_entries r) (cq_mask r)" and l: "length (cq_cqes r) = ?n" using ok by (simp_all add: cq_ok_def)
  have lt: "unat ?len < ?n" and r': "r' = r\<lparr>cq_cqes := (cq_cqes r)[?i := c], cq_tail := cq_tail r + 1\<rparr>"
    using p by (auto simp: kernel_post_def word_less_nat_alt split: if_splits)
  have lt32: "Suc (unat ?len) < 2 ^ 32" using lt ring_size_pos [OF rs] by simp
  have "cq_available r' = ?len + 1" by (simp add: r' cq_available_def)
  then have len': "unat (cq_available r') = Suc (unat ?len)" using unat_succ32 [OF lt32] by simp
  have pos: "?i = (unat (cq_head r) + unat ?len) mod ?n"
    using masked_cursor [OF rs, of "cq_head r" "unat ?len"] by (simp add: cq_available_def)
  have ok': "cq_ok r'" using rs l lt len' by (auto simp: cq_ok_def word_le_nat_alt r' simp del: of_nat_Suc)
  have "cq_read r' = window ((cq_cqes r)[?i := c]) (unat (cq_head r)) (Suc (unat ?len))"
    using cq_read_window [OF ok'] len' by (simp add: r')
  also have "\<dots> = cq_read r @ [c]"
    using window_append [of "unat ?len" "cq_cqes r" "unat (cq_head r)" c] lt by (simp add: pos l cq_read_window [OF ok])
  finally show ?thesis using ok' by simp
qed

text \<open>Publishing the head after a pass leaves what was posted in the meantime.\<close>

lemma cq_publish_drops:
  assumes ok: "cq_ok r" and n: "unat n \<le> length (cq_read r)"
  shows "cq_ok (cq_publish n r) \<and> cq_read (cq_publish n r) = drop (unat n) (cq_read r)"
proof -
  have rs: "ring_size (cq_entries r) (cq_mask r)" and l: "length (cq_cqes r) = unat (cq_entries r)" using ok by (simp_all add: cq_ok_def)
  have "cq_available (cq_publish n r) = cq_available r - n"
    unfolding cq_available_def cq_publish_def by (simp add: diff_diff_add)
  then have len: "unat (cq_available (cq_publish n r)) = unat (cq_available r) - unat n"
    using n by (simp add: unat_sub word_le_nat_alt)
  have ok': "cq_ok (cq_publish n r)" using ok len by (auto simp: cq_ok_def word_le_nat_alt cq_publish_def)
  have "cq_read (cq_publish n r) = window (cq_cqes r) (unat (cq_head r + n)) (unat (cq_available r) - unat n)"
    using cq_read_window [OF ok'] by (simp add: len) (simp add: cq_publish_def)
  also have "\<dots> = window (cq_cqes r) (unat (cq_head r) + unat n) (unat (cq_available r) - unat n)"
    using masked_cursor [OF rs, of "cq_head r" "unat n"] masked_cursor0 [OF rs, of "cq_head r + n"] by (intro window_cong) (simp add: l)
  also have "\<dots> = drop (unat n) (cq_read r)" using n by (simp add: window_drop cq_read_window [OF ok])
  finally show ?thesis using ok' by blast
qed

section \<open>Entries in transit\<close>

text \<open>Both sides of the rings over time: what userspace queued, what the kernel took, what the kernel posted,
  and what was reaped. The rings start at any value of their cursors. With SQPOLL the kernel takes
  entries when it likes; otherwise it takes what the system call reports, which is never more than the
  call passed.\<close>

inductive rings_reach :: "bool \<Rightarrow> sq_ring \<Rightarrow> sqe list \<Rightarrow> sqe list \<Rightarrow> cq_ring \<Rightarrow> cqe list \<Rightarrow> cqe list \<Rightarrow> bool" for sqpoll where
  start: "sq_ok q \<Longrightarrow> sq_contents q = [] \<Longrightarrow> sq_pending q = 0 \<Longrightarrow> cq_ok c \<Longrightarrow> cq_read c = [] \<Longrightarrow> rings_reach sqpoll q [] [] c [] []"
| queue: "rings_reach sqpoll q qd tk c ps rp \<Longrightarrow> queue_sqe_locked v q = Inr q' \<Longrightarrow> rings_reach sqpoll q' (qd @ [v]) tk c ps rp"
| submit: "rings_reach sqpoll q qd tk c ps rp \<Longrightarrow> submit_inner sqpoll os q = Some (res, es, q') \<Longrightarrow>
    (\<And>n. Submitted n \<in> set os \<Longrightarrow> n \<le> sq_pending q) \<Longrightarrow> rings_reach sqpoll q' qd (tk @ es) c ps rp"
| poller: "rings_reach sqpoll q qd tk c ps rp \<Longrightarrow> sqpoll \<Longrightarrow> n \<le> length (sq_contents q) \<Longrightarrow> kernel_consume n q = (es, q') \<Longrightarrow>
    rings_reach sqpoll q' qd (tk @ es) c ps rp"
| post: "rings_reach sqpoll q qd tk c ps rp \<Longrightarrow> kernel_post x c = Some c' \<Longrightarrow> rings_reach sqpoll q qd tk c' (ps @ [x]) rp"
| reap: "rings_reach sqpoll q qd tk c ps rp \<Longrightarrow> unat n \<le> length (cq_read c) \<Longrightarrow>
    rings_reach sqpoll q qd tk (cq_publish n c) ps (rp @ take (unat n) (cq_read c))"

lemma rings_reach_inv:
  "rings_reach sqpoll q qd tk c ps rp \<Longrightarrow>
    sq_ok q \<and> qd = tk @ sq_contents q \<and> (\<not> sqpoll \<longrightarrow> unat (sq_pending q) = length (sq_contents q)) \<and> cq_ok c \<and> ps = rp @ cq_read c"
proof (induction rule: rings_reach.induct)
  case (queue q qd tk c ps rp v q')
  then have a: "sq_ok q'" "sq_contents q' = sq_contents q @ [v]" "sq_pending q' = sq_pending q + 1" using queue_sqe_appends by blast+
  have "unat (sq_pending q + 1) = Suc (unat (sq_pending q))" if "unat (sq_pending q) = length (sq_contents q)"
  proof -
    have "length (sq_contents q') \<le> unat (sq_entries q')" using sq_contents_bound [OF a(1)] .
    moreover have "unat (sq_entries q') < 2 ^ 32" using a(1) ring_size_pos by (auto simp: sq_ok_def)
    ultimately have lt: "Suc (unat (sq_pending q)) < 2 ^ 32" using that a(2) by (simp del: length_sq_contents)
    then show ?thesis by (rule unat_succ32)
  qed
  then show ?case using queue a by (simp del: length_sq_contents)
next
  case (submit q qd tk c ps rp os res es q')
  show ?case
  proof (cases "sq_pending q = 0 \<or> sqpoll")
    case True
    then show ?thesis using submit by (auto simp: submit_inner_def split: if_splits option.splits)
  next
    case False
    then have "enter_loop os q = Some (res, es, q')" using submit.hyps(2) by (simp add: submit_inner_def)
    from enter_loop_effect [OF _ this] submit False show ?thesis by auto
  qed
next
  case (poller q qd tk c ps rp n es q')
  then show ?case using consume_drops [of q n] by (auto simp: kernel_consume_def)
next
  case (post q qd tk c ps rp x c')
  then show ?case using kernel_post_appends [OF _ post.hyps(2)] by simp
next
  case (reap q qd tk c ps rp n)
  then show ?case using cq_publish_drops by simp
qed simp

text \<open>C35. The rings shared with the kernel are bounded queues, wherever their cursors stand and however often
  they wrap: the kernel takes the queued entries in order, each once; an entry is refused exactly when
  the ring is full, and the space reported before is exact; what is reaped is what was posted, in
  order, each once; and without SQPOLL the count of pending entries is exact.\<close>

theorem rings_deliver_in_order:
  assumes "rings_reach sqpoll q qd tk c ps rp"
  shows "qd = tk @ sq_contents q \<and> ps = rp @ cq_read c \<and> length (sq_contents q) \<le> unat (sq_entries q)
    \<and> unat (sq_space_locked q) = unat (sq_entries q) - length (sq_contents q)
    \<and> (queue_sqe_locked v q = Inl sq_full \<longleftrightarrow> sq_space_locked q = 0)
    \<and> (\<not> sqpoll \<longrightarrow> unat (sq_pending q) = length (sq_contents q))"
proof -
  note inv = rings_reach_inv [OF assms]
  have "sq_space_locked q = 0 \<longleftrightarrow> length (sq_contents q) = unat (sq_entries q)"
    using inv sq_space_exact [of q] sq_contents_bound [of q] by (auto simp: unat_eq_0 [symmetric] simp del: length_sq_contents)
  then show ?thesis using inv sq_contents_bound [of q] sq_space_exact [of q] queue_sqe_full [of q v sq_full]
    by (simp del: length_sq_contents)
qed

theorem rings_deliver_in_order_witness:
  "\<exists>q a b qd tk c. rings_reach False q qd tk c [] [] \<and> qd = [a, b] \<and> tk = [a] \<and> qd = tk @ sq_contents q \<and> sq_tail q = 0"
proof -
  let ?z = "\<lparr>sqe_opcode = 0, sqe_flags = 0, sqe_ioprio = 0, sqe_fd = 0, sqe_off = 0, sqe_addr = 0, sqe_len = 0, sqe_rw_flags = 0,
    sqe_user_data = 0, sqe_buf_index = 0, sqe_personality = 0, sqe_splice_fd_in = 0\<rparr>"
  let ?c = "\<lparr>cq_head = 7, cq_tail = 7, cq_entries = 4, cq_mask = 3, cq_cqes = replicate 4 \<lparr>cqe_user_data = 0, cqe_res = 0, cqe_flags = 0\<rparr>\<rparr>"
  let ?q0 = "sq_new (- 2) (2 ^ 1) [?z, ?z]" and ?a = "?z\<lparr>sqe_user_data := 1\<rparr>" and ?b = "?z\<lparr>sqe_user_data := 2\<rparr>"
  obtain q1 where q1: "queue_sqe_locked ?a ?q0 = Inr q1" "sq_pending q1 = 1" "sq_tail q1 = - 1"
    by (simp add: queue_sqe_locked_def sq_new_def Let_def)
  have ok0: "sq_ok ?q0" "sq_contents ?q0 = []" "sq_pending ?q0 = 0" "cq_ok ?c" "cq_read ?c = []"
    by (rule sq_ok_new) (simp_all add: sq_contents_def sq_new_def cq_ok_def cq_available_def cq_read_def ring_size_def exI [of _ 2] mask_eq_exp_minus_1)
  note q1c = queue_sqe_appends [OF ok0(1) q1(1)]
  let ?q2 = "(snd (kernel_consume 1 q1))\<lparr>sq_pending := 0\<rparr>"
  have s1: "submit_inner False [EnterFailed EINTR, Submitted 1] q1 = Some (Inr 1, [?a], ?q2)"
    using q1 q1c ok0(2) by (simp add: submit_inner_def kernel_consume_def)
  have ok2: "sq_ok ?q2" "sq_contents ?q2 = []" "sq_tail ?q2 = - 1" "unat (sq_entries ?q2) = 2"
    using consume_drops [of q1 1] q1c ok0(2) q1(3) by (simp_all add: kernel_consume_def sq_new_def del: length_sq_contents)
  then obtain q3 where q3: "queue_sqe_locked ?b ?q2 = Inr q3"
    using queue_sqe_full [OF ok2(1), of ?b] by (cases "queue_sqe_locked ?b ?q2") auto
  have r: "rings_reach False q3 ([?a] @ [?b]) [?a] ?c [] []"
  proof (rule rings_reach.queue [OF _ q3])
    have "rings_reach False q1 ([] @ [?a]) [] ?c [] []" by (rule rings_reach.queue [OF rings_reach.start q1(1)]) (use ok0 in simp_all)
    then have "rings_reach False q1 [?a] [] ?c [] []" by simp
    from rings_reach.submit [OF this s1] q1(2) show "rings_reach False ?q2 [?a] [?a] ?c [] []" by simp
  qed
  have "sq_tail q3 = 0" using q3 ok2(3) by (auto simp: queue_sqe_locked_def Let_def split: if_splits)
  moreover have "[?a] @ [?b] = [?a] @ sq_contents q3" by (rule conjunct1 [OF rings_deliver_in_order [OF r]])
  moreover have "[?a] @ [?b] = [?a, ?b]" by simp
  ultimately show ?thesis using r by blast
qed

end
