(* ===== verification/Io_Uring.thy ===== *)
theory Io_Uring
  imports Uring_Rings
begin

text \<open>
  The operations in flight of \<open>io/uring.rs\<close>: the slabs of operations and of orphans, the tables that find
  them by user data, starting and cancelling operations, reaping completions, multishot streams with
  their provided buffers, and the futures on top. A \<open>Slab\<close> is an association list; which vacant key an
  insertion takes is a parameter (\<open>vacant\<close>). The outcomes of system calls are parameters, too. A panic is
  \<open>None\<close>.
\<close>

section \<open>Constants and resources\<close>

definition IORING_OP_READV :: u8 where "IORING_OP_READV = 1"
definition IORING_OP_WRITEV :: u8 where "IORING_OP_WRITEV = 2"
definition IORING_OP_TIMEOUT :: u8 where "IORING_OP_TIMEOUT = 11"
definition IORING_OP_ACCEPT :: u8 where "IORING_OP_ACCEPT = 13"
definition IORING_OP_ASYNC_CANCEL :: u8 where "IORING_OP_ASYNC_CANCEL = 14"
definition IORING_OP_CONNECT :: u8 where "IORING_OP_CONNECT = 16"
definition IORING_OP_CLOSE :: u8 where "IORING_OP_CLOSE = 19"
definition IORING_OP_READ :: u8 where "IORING_OP_READ = 22"
definition IORING_OP_WRITE :: u8 where "IORING_OP_WRITE = 23"
definition IORING_OP_SEND :: u8 where "IORING_OP_SEND = 26"
definition IORING_OP_RECV :: u8 where "IORING_OP_RECV = 27"
definition IORING_OP_PROVIDE_BUFFERS :: u8 where "IORING_OP_PROVIDE_BUFFERS = 31"
definition IORING_OP_REMOVE_BUFFERS :: u8 where "IORING_OP_REMOVE_BUFFERS = 32"

definition IOSQE_IO_DRAIN :: u8 where "IOSQE_IO_DRAIN = 2"
definition IOSQE_BUFFER_SELECT :: u8 where "IOSQE_BUFFER_SELECT = 32"
definition IORING_ACCEPT_MULTISHOT :: u16 where "IORING_ACCEPT_MULTISHOT = 1"
definition IORING_RECV_MULTISHOT :: u16 where "IORING_RECV_MULTISHOT = 2"
definition IORING_CQE_F_BUFFER :: u32 where "IORING_CQE_F_BUFFER = 1"
definition IORING_CQE_F_MORE :: u32 where "IORING_CQE_F_MORE = 2"
definition IORING_CQE_BUFFER_SHIFT :: nat where "IORING_CQE_BUFFER_SHIFT = 16"

text \<open>\<open>SOCK_NONBLOCK | SOCK_CLOEXEC\<close> of the target.\<close>

definition ACCEPT_FLAGS :: u32 where "ACCEPT_FLAGS = 0x800 OR 0x80000"

definition ETIME :: i32 where "ETIME = 62"

text \<open>A \<open>Vec<u8>\<close>: the address of its allocation and its bytes, which the kernel may write.\<close>

record vec_u8 =
  v_ptr :: u64
  v_bytes :: "u8 list"

record registered_buffers =
  rb_ring_fd :: i32
  rb_buffers :: "vec_u8 list"

record registered_files =
  rf_ring_fd :: i32
  rf_files :: "i32 list"

datatype op_resource =
    Buffer vec_u8
  | Vectored "vec_u8 list" u64 "(u64 \<times> nat) list"
  | Address vec_u8 u32
  | FixedBuffer registered_buffers u16 u32
  | FixedFileBuffer registered_files u32 vec_u8
  | AcceptOp
  | MultishotAccept
  | MultishotRecv vec_u8
  | CloseOp

text \<open>\<open>vectored_resource\<close>; the address of the allocated array of vectors is given.\<close>

definition vectored_resource :: "u64 \<Rightarrow> vec_u8 list \<Rightarrow> op_resource" where
  "vectored_resource p bufs = Vectored bufs p (map (\<lambda>b. (v_ptr b, length (v_bytes b))) bufs)"

definition u32_try_from :: "string \<Rightarrow> nat \<Rightarrow> uring_error + u32" where
  "u32_try_from msg n = (if n < 2 ^ 32 then Inr (of_nat n) else Inl (InvalidInput msg))"

fun addr_len :: "op_resource \<Rightarrow> (uring_error + u64 \<times> u32) option" where
  "addr_len (Buffer b) = Some (and_then (u32_try_from ''eddy: io_uring buffer is too large'' (length (v_bytes b))) (\<lambda>n. Inr (v_ptr b, n)))"
| "addr_len (Vectored bufs p iovecs) = Some (and_then (u32_try_from ''eddy: too many io_uring vectors'' (length iovecs)) (\<lambda>n. Inr (p, n)))"
| "addr_len (Address b n) = Some (Inr (v_ptr b, n))"
| "addr_len (FixedBuffer reg i n) = (if unat i < length (rb_buffers reg) then Some (Inr (v_ptr (rb_buffers reg ! unat i), n)) else None)"
| "addr_len (FixedFileBuffer reg i b) = Some (and_then (u32_try_from ''eddy: fixed-file buffer is too large'' (length (v_bytes b))) (\<lambda>n. Inr (v_ptr b, n)))"
| "addr_len AcceptOp = Some (Inr (0, 0))"
| "addr_len MultishotAccept = Some (Inr (0, 0))"
| "addr_len (MultishotRecv b) = Some (Inr (0, 0))"
| "addr_len CloseOp = Some (Inr (0, 0))"

fun buffer_index :: "op_resource \<Rightarrow> u16" where
  "buffer_index (FixedBuffer reg i n) = i"
| "buffer_index _ = 0"

fun fixed_file_index :: "op_resource \<Rightarrow> i32 option" where
  "fixed_file_index (FixedFileBuffer reg i b) = Some i"
| "fixed_file_index _ = None"

section \<open>The state of the ring\<close>

datatype multishot_event = EvAccept "uring_error + i32" | EvRecv "uring_error + nat \<times> u8 list"

datatype multishot_kind = KindAccept | KindRecv u32 u16

record multishot_state =
  ms_kind :: multishot_kind
  ms_events :: "multishot_event list"
  ms_terminal :: bool
  ms_cleanup_complete :: bool
  ms_cleanup_user_data :: "u64 option"

record op_state =
  op_res :: op_resource
  op_result :: "(uring_error + nat) option"
  op_waker :: "waker option"
  op_user_data :: u64
  op_multishot :: "multishot_state option"

record orphaned_op =
  or_res :: op_resource
  or_user_data :: u64
  or_multishot :: "multishot_state option"

text \<open>\<open>Inner\<close> with its \<open>RingState\<close>. \<open>sqpoll\<close> is the flag of its parameters.\<close>

record uring =
  rs_sqpoll :: bool
  rs_sq :: sq_ring
  rs_cq :: cq_ring
  rs_ops :: "(nat \<times> op_state) list"
  rs_ops_by :: "u64 \<rightharpoonup> nat"
  rs_orphaned :: "(nat \<times> orphaned_op) list"
  rs_orphaned_by :: "u64 \<rightharpoonup> nat"
  rs_cancel_targets :: "u64 \<rightharpoonup> u64"
  rs_provide_targets :: "u64 \<rightharpoonup> u64"
  rs_cleanup_targets :: "u64 set"
  rs_next_user_data :: u64
  rs_next_buffer_group :: u16

definition uring_new :: "bool \<Rightarrow> sq_ring \<Rightarrow> cq_ring \<Rightarrow> uring" where
  "uring_new sqpoll sq cq = \<lparr>rs_sqpoll = sqpoll, rs_sq = sq, rs_cq = cq, rs_ops = [], rs_ops_by = Map.empty, rs_orphaned = [],
     rs_orphaned_by = Map.empty, rs_cancel_targets = Map.empty, rs_provide_targets = Map.empty, rs_cleanup_targets = {},
     rs_next_user_data = 1, rs_next_buffer_group = 1\<rparr>"

definition next_user_data :: "uring \<Rightarrow> (uring_error + u64) \<times> uring" where
  "next_user_data s =
     (let candidate = rs_next_user_data s;
          s = s\<lparr>rs_next_user_data := max (candidate + 1) 1\<rparr> in
      if candidate \<noteq> 0 \<and> rs_ops_by s candidate = None \<and> rs_orphaned_by s candidate = None
         \<and> rs_provide_targets s candidate = None \<and> candidate \<notin> rs_cleanup_targets s
      then (Inr candidate, s)
      else (Inl (OtherError ''eddy: io_uring user_data space exhausted''), s))"

definition queue_sqe :: "sqe \<Rightarrow> uring \<Rightarrow> uring_error + uring" where
  "queue_sqe v s = and_then (queue_sqe_locked v (rs_sq s)) (\<lambda>q. Inr (s\<lparr>rs_sq := q\<rparr>))"

definition uring_submit :: "enter_outcome list \<Rightarrow> uring \<Rightarrow> ((uring_error + u32) \<times> sqe list \<times> uring) option" where
  "uring_submit os s = map_option (\<lambda>(res, es, q). (res, es, s\<lparr>rs_sq := q\<rparr>)) (submit_inner (rs_sqpoll s) os (rs_sq s))"

type_synonym slab_keys = "nat list \<Rightarrow> nat"

definition insert_op :: "slab_keys \<Rightarrow> op_state \<Rightarrow> uring \<Rightarrow> nat \<times> uring" where
  "insert_op vacant op s =
     (let key = vacant (map fst (rs_ops s)) in
      (key, s\<lparr>rs_ops := rs_ops s @ [(key, op)], rs_ops_by := (rs_ops_by s)(op_user_data op \<mapsto> key)\<rparr>))"

definition remove_op :: "u64 \<Rightarrow> nat \<Rightarrow> uring \<Rightarrow> uring" where
  "remove_op ud key s = s\<lparr>rs_ops := AList.delete key (rs_ops s), rs_ops_by := (rs_ops_by s)(ud := None)\<rparr>"

section \<open>Starting operations\<close>

definition start_op ::
  "slab_keys \<Rightarrow> u8 \<Rightarrow> i32 \<Rightarrow> op_resource \<Rightarrow> u64 \<Rightarrow> u32 \<Rightarrow> u32 \<Rightarrow> waker \<Rightarrow> uring \<Rightarrow> ((uring_error \<times> op_resource + nat) \<times> uring) option" where
  "start_op vacant opc fd res offset len rw wk s =
     (case next_user_data s of
        (Inl e, s) \<Rightarrow> Some (Inl (e, res), s)
      | (Inr ud, s) \<Rightarrow>
          let (key, s) = insert_op vacant \<lparr>op_res = res, op_result = None, op_waker = Some wk, op_user_data = ud, op_multishot = None\<rparr> s in
          (case addr_len res of
             None \<Rightarrow> None
           | Some (Inl e) \<Rightarrow> Some (Inl (e, res), remove_op ud key s)
           | Some (Inr (addr, rlen)) \<Rightarrow>
               (case queue_sqe \<lparr>sqe_opcode = opc, sqe_flags = of_bool (fixed_file_index res \<noteq> None), sqe_ioprio = 0,
                    sqe_fd = (case fixed_file_index res of None \<Rightarrow> fd | Some i \<Rightarrow> i),
                    sqe_off = (if opc = IORING_OP_CONNECT then ucast rlen else offset), sqe_addr = addr,
                    sqe_len = (if opc = IORING_OP_CONNECT then 0 else if len = 0 then rlen else len),
                    sqe_rw_flags = rw, sqe_user_data = ud, sqe_buf_index = buffer_index res, sqe_personality = 0, sqe_splice_fd_in = 0\<rparr> s of
                  Inl e \<Rightarrow> Some (Inl (e, res), remove_op ud key s)
                | Inr s \<Rightarrow> Some (Inr key, s))))"

text \<open>An entry with the fields that the remaining operations set.\<close>

definition sqe_of :: "u8 \<Rightarrow> u8 \<Rightarrow> u16 \<Rightarrow> i32 \<Rightarrow> u64 \<Rightarrow> u64 \<Rightarrow> u32 \<Rightarrow> u32 \<Rightarrow> u64 \<Rightarrow> u16 \<Rightarrow> sqe" where
  "sqe_of opc fl ioprio fd off addr len rw ud bi =
     \<lparr>sqe_opcode = opc, sqe_flags = fl, sqe_ioprio = ioprio, sqe_fd = fd, sqe_off = off, sqe_addr = addr, sqe_len = len, sqe_rw_flags = rw,
      sqe_user_data = ud, sqe_buf_index = bi, sqe_personality = 0, sqe_splice_fd_in = 0\<rparr>"

definition start_multishot_accept :: "slab_keys \<Rightarrow> i32 \<Rightarrow> waker \<Rightarrow> uring \<Rightarrow> (uring_error + nat) \<times> uring" where
  "start_multishot_accept vacant fd wk s =
     (if sq_space_locked (rs_sq s) < 1 then (Inl sq_full, s)
      else (case next_user_data s of
         (Inl e, s) \<Rightarrow> (Inl e, s)
       | (Inr ud, s) \<Rightarrow>
           let (key, s) = insert_op vacant \<lparr>op_res = MultishotAccept, op_result = None, op_waker = Some wk, op_user_data = ud,
                 op_multishot = Some \<lparr>ms_kind = KindAccept, ms_events = [], ms_terminal = False, ms_cleanup_complete = True,
                   ms_cleanup_user_data = None\<rparr>\<rparr> s in
           (case queue_sqe (sqe_of IORING_OP_ACCEPT 0 IORING_ACCEPT_MULTISHOT fd 0 0 0 ACCEPT_FLAGS ud 0) s of
              Inl e \<Rightarrow> (Inl e, remove_op ud key s)
            | Inr s \<Rightarrow> (Inr key, s))))"

text \<open>The multishot receive. \<open>p\<close> is the address of the allocated buffers. When the second user data or the
  first entry fails, the operation stays in its slab, as the code returns early.\<close>

definition start_multishot_recv :: "slab_keys \<Rightarrow> u64 \<Rightarrow> i32 \<Rightarrow> nat \<Rightarrow> nat \<Rightarrow> waker \<Rightarrow> uring \<Rightarrow> (uring_error + nat) \<times> uring" where
  "start_multishot_recv vacant p fd buffer_size buffer_count wk s =
     (if \<not> buffer_size < 2 ^ 32 then (Inl (InvalidInput ''eddy: multishot receive buffer is too large''), s)
      else if \<not> buffer_count < 2 ^ 16 then (Inl (InvalidInput ''eddy: too many multishot receive buffers''), s)
      else if buffer_size = 0 \<or> buffer_count = 0 then (Inl (InvalidInput ''eddy: multishot receive buffers must be non-empty''), s)
      else if sq_space_locked (rs_sq s) < 2 then (Inl sq_full, s)
      else (case next_user_data s of
         (Inl e, s) \<Rightarrow> (Inl e, s)
       | (Inr ud, s) \<Rightarrow>
           let grp = rs_next_buffer_group s;
               s = s\<lparr>rs_next_buffer_group := max (grp + 1) 1\<rparr>;
               (key, s) = insert_op vacant \<lparr>op_res = MultishotRecv \<lparr>v_ptr = p, v_bytes = replicate (buffer_size * buffer_count) 0\<rparr>,
                 op_result = None, op_waker = Some wk, op_user_data = ud,
                 op_multishot = Some \<lparr>ms_kind = KindRecv (of_nat buffer_size) grp, ms_events = [], ms_terminal = False,
                   ms_cleanup_complete = False, ms_cleanup_user_data = None\<rparr>\<rparr> s in
           (case next_user_data s of
              (Inl e, s) \<Rightarrow> (Inl e, s)
            | (Inr control, s) \<Rightarrow>
                (case queue_sqe (sqe_of IORING_OP_PROVIDE_BUFFERS 0 0 (of_nat buffer_count) 0 p (of_nat buffer_size) 0 control grp) s of
                   Inl e \<Rightarrow> (Inl e, s)
                 | Inr s \<Rightarrow>
                     let s = s\<lparr>rs_provide_targets := (rs_provide_targets s)(control \<mapsto> ud)\<rparr> in
                     (case queue_sqe (sqe_of IORING_OP_RECV (IOSQE_IO_DRAIN OR IOSQE_BUFFER_SELECT) IORING_RECV_MULTISHOT fd 0 0
                         (of_nat buffer_size) 0 ud grp) s of
                        Inl e \<Rightarrow> (Inl e, remove_op ud key (s\<lparr>rs_provide_targets := (rs_provide_targets s)(control := None)\<rparr>))
                      | Inr s \<Rightarrow> (Inr key, s))))))"

section \<open>Results, streams, cancellation\<close>

definition take_op_result :: "nat \<Rightarrow> uring \<Rightarrow> ((uring_error + nat) \<times> op_resource) option \<times> uring" where
  "take_op_result key s =
     (case map_of (rs_ops s) key of
        None \<Rightarrow> (None, s)
      | Some op \<Rightarrow>
          (case op_result op of
             None \<Rightarrow> (None, s)
           | Some r \<Rightarrow> (Some (r, op_res op), remove_op (op_user_data op) key s)))"

text \<open>The typed variants: the selector of the expected resource, and a panic for any other.\<close>

definition take_result_as :: "(op_resource \<Rightarrow> 'r option) \<Rightarrow> nat \<Rightarrow> uring \<Rightarrow> (((uring_error + nat) \<times> 'r) option \<times> uring) option" where
  "take_result_as sel key s =
     (case take_op_result key s of
        (None, s) \<Rightarrow> Some (None, s)
      | (Some (r, res), s) \<Rightarrow> (case sel res of None \<Rightarrow> None | Some x \<Rightarrow> Some (Some (r, x), s)))"

fun as_buffer :: "op_resource \<Rightarrow> vec_u8 option" where
  "as_buffer (Buffer b) = Some b"
| "as_buffer _ = None"

fun as_vectored :: "op_resource \<Rightarrow> vec_u8 list option" where
  "as_vectored (Vectored bufs p iovecs) = Some bufs"
| "as_vectored _ = None"

fun as_fixed_buffer :: "op_resource \<Rightarrow> registered_buffers option" where
  "as_fixed_buffer (FixedBuffer reg i n) = Some reg"
| "as_fixed_buffer _ = None"

fun as_fixed_file :: "op_resource \<Rightarrow> (vec_u8 \<times> registered_files) option" where
  "as_fixed_file (FixedFileBuffer reg i b) = Some (b, reg)"
| "as_fixed_file _ = None"

definition update_op :: "nat \<Rightarrow> (op_state \<Rightarrow> op_state) \<Rightarrow> uring \<Rightarrow> uring" where
  "update_op key f s = s\<lparr>rs_ops := map (\<lambda>(k, op). (k, if k = key then f op else op)) (rs_ops s)\<rparr>"

definition update_orphan :: "nat \<Rightarrow> (orphaned_op \<Rightarrow> orphaned_op) \<Rightarrow> uring \<Rightarrow> uring" where
  "update_orphan key f s = s\<lparr>rs_orphaned := map (\<lambda>(k, op). (k, if k = key then f op else op)) (rs_orphaned s)\<rparr>"

definition take_multishot_event :: "nat \<Rightarrow> uring \<Rightarrow> multishot_event option \<times> uring" where
  "take_multishot_event key s =
     (case map_of (rs_ops s) key of
        None \<Rightarrow> (None, s)
      | Some op \<Rightarrow>
          (case op_multishot op of
             None \<Rightarrow> (None, s)
           | Some ms \<Rightarrow>
               (case ms_events ms of
                  [] \<Rightarrow> (None, s)
                | ev # evs \<Rightarrow> (Some ev, update_op key (op_multishot_update (\<lambda>_. Some (ms\<lparr>ms_events := evs\<rparr>))) s))))"

definition multishot_finished :: "nat \<Rightarrow> uring \<Rightarrow> bool" where
  "multishot_finished key s =
     (case Option.bind (map_of (rs_ops s) key) op_multishot of
        None \<Rightarrow> False
      | Some ms \<Rightarrow> ms_terminal ms \<and> ms_events ms = [] \<and> ms_cleanup_complete ms)"

definition remove_multishot :: "nat \<Rightarrow> uring \<Rightarrow> uring" where
  "remove_multishot key s = (case map_of (rs_ops s) key of None \<Rightarrow> s | Some op \<Rightarrow> remove_op (op_user_data op) key s)"

definition set_waker :: "nat \<Rightarrow> waker \<Rightarrow> uring \<Rightarrow> uring" where
  "set_waker key wk = update_op key (\<lambda>op. op\<lparr>op_waker := Some wk\<rparr>)"

text \<open>The descriptors that are closed when unpolled events are dropped.\<close>

definition drop_multishot_events :: "multishot_state option \<Rightarrow> i32 list" where
  "drop_multishot_events m =
     (case m of None \<Rightarrow> [] | Some ms \<Rightarrow> concat (map (\<lambda>ev. case ev of EvAccept (Inr fd) \<Rightarrow> [fd] | _ \<Rightarrow> []) (ms_events ms)))"

definition op_complete :: "op_state \<Rightarrow> bool" where
  "op_complete op \<longleftrightarrow> op_result op \<noteq> None \<or> (case op_multishot op of None \<Rightarrow> False | Some ms \<Rightarrow> ms_terminal ms)"

text \<open>\<open>orphan\<close>, up to the cancellation: the descriptors it closes, and the operation to cancel.\<close>

definition orphan_locked :: "slab_keys \<Rightarrow> nat \<Rightarrow> uring \<Rightarrow> i32 list \<times> u64 option \<times> uring" where
  "orphan_locked vacant key s =
     (case map_of (rs_ops s) key of
        None \<Rightarrow> ([], None, s)
      | Some op \<Rightarrow>
          let ud = op_user_data op; s = remove_op ud key s in
          if op_complete op
          then ((case (op_res op, op_result op) of (AcceptOp, Some (Inr fd)) \<Rightarrow> [of_nat fd] | _ \<Rightarrow> []) @ drop_multishot_events (op_multishot op), None, s)
          else
            let okey = vacant (map fst (rs_orphaned s)) in
            ([], Some ud, s\<lparr>rs_orphaned := rs_orphaned s @ [(okey, \<lparr>or_res = op_res op, or_user_data = ud, or_multishot = op_multishot op\<rparr>)],
                            rs_orphaned_by := (rs_orphaned_by s)(ud \<mapsto> okey)\<rparr>))"

text \<open>The cancellation: queued under the lock, then submitted, and forgotten if the submission fails.\<close>

definition submit_cancel_locked :: "u64 \<Rightarrow> uring \<Rightarrow> u64 option \<times> uring" where
  "submit_cancel_locked target s =
     (case next_user_data s of
        (Inl e, s) \<Rightarrow> (None, s)
      | (Inr cud, s) \<Rightarrow>
          (case queue_sqe (sqe_of IORING_OP_ASYNC_CANCEL 0 0 (- 1) 0 target 0 0 cud 0) s of
             Inl e \<Rightarrow> (None, s)
           | Inr s \<Rightarrow> (Some cud, s\<lparr>rs_cancel_targets := (rs_cancel_targets s)(cud \<mapsto> target)\<rparr>)))"

definition forget_cancel :: "u64 \<Rightarrow> uring \<Rightarrow> uring" where
  "forget_cancel cud s = s\<lparr>rs_cancel_targets := (rs_cancel_targets s)(cud := None)\<rparr>"

definition submit_cancel :: "enter_outcome list \<Rightarrow> u64 \<Rightarrow> uring \<Rightarrow> (sqe list \<times> uring) option" where
  "submit_cancel os target s =
     (case submit_cancel_locked target s of
        (None, s) \<Rightarrow> Some ([], s)
      | (Some cud, s) \<Rightarrow>
          (case uring_submit os s of
             None \<Rightarrow> None
           | Some (Inr n, es, s) \<Rightarrow> Some (es, s)
           | Some (Inl e, es, s) \<Rightarrow> Some (es, forget_cancel cud s)))"

definition uring_orphan :: "slab_keys \<Rightarrow> enter_outcome list \<Rightarrow> nat \<Rightarrow> uring \<Rightarrow> (i32 list \<times> sqe list \<times> uring) option" where
  "uring_orphan vacant os key s =
     (case orphan_locked vacant key s of
        (fds, None, s) \<Rightarrow> Some (fds, [], s)
      | (fds, Some ud, s) \<Rightarrow> map_option (\<lambda>(es, s). (fds, es, s)) (submit_cancel os ud s))"

section \<open>Provided buffers\<close>

definition queue_provide_buffer_locked :: "u64 \<Rightarrow> u64 \<Rightarrow> u32 \<Rightarrow> u16 \<Rightarrow> u16 \<Rightarrow> uring \<Rightarrow> (uring_error + unit) \<times> uring" where
  "queue_provide_buffer_locked target addr len grp bid s =
     (case next_user_data s of
        (Inl e, s) \<Rightarrow> (Inl e, s)
      | (Inr ud, s) \<Rightarrow>
          (case queue_sqe (sqe_of IORING_OP_PROVIDE_BUFFERS 0 0 1 (ucast bid) addr len 0 ud grp) s of
             Inl e \<Rightarrow> (Inl e, s)
           | Inr s \<Rightarrow> (Inr (), s\<lparr>rs_provide_targets := (rs_provide_targets s)(ud \<mapsto> target)\<rparr>)))"

definition queue_remove_buffers_locked :: "u64 \<Rightarrow> u16 \<Rightarrow> u16 \<Rightarrow> uring \<Rightarrow> (uring_error + u64) \<times> uring" where
  "queue_remove_buffers_locked target cnt grp s =
     (case next_user_data s of
        (Inl e, s) \<Rightarrow> (Inl e, s)
      | (Inr ud, s) \<Rightarrow>
          (case queue_sqe (sqe_of IORING_OP_REMOVE_BUFFERS IOSQE_IO_DRAIN 0 (ucast cnt) 0 0 0 0 ud grp) s of
             Inl e \<Rightarrow> (Inl e, s)
           | Inr s \<Rightarrow> (Inr ud, s\<lparr>rs_provide_targets := (rs_provide_targets s)(ud \<mapsto> target), rs_cleanup_targets := insert ud (rs_cleanup_targets s)\<rparr>)))"

text \<open>Outer \<open>None\<close>: the \<open>unreachable!\<close> or a division by zero.\<close>

definition cleanup_request :: "op_resource \<Rightarrow> multishot_state option \<Rightarrow> u64 \<Rightarrow> ((u64 \<times> u16 \<times> u16) option) option" where
  "cleanup_request res m ud =
     (case m of
        None \<Rightarrow> Some None
      | Some ms \<Rightarrow>
          if \<not> ms_terminal ms \<or> ms_cleanup_complete ms \<or> ms_cleanup_user_data ms \<noteq> None then Some None
          else (case ms_kind ms of
                  KindAccept \<Rightarrow> Some None
                | KindRecv bsize grp \<Rightarrow>
                    (case res of
                       MultishotRecv b \<Rightarrow>
                         if bsize = 0 then None
                         else let n = length (v_bytes b) div unat bsize in
                              Some (if n < 2 ^ 16 then Some (ud, of_nat n, grp) else None)
                     | _ \<Rightarrow> None)))"

fun collect_requests :: "((u64 \<times> u16 \<times> u16) option) option list \<Rightarrow> (u64 \<times> u16 \<times> u16) list option" where
  "collect_requests [] = Some []"
| "collect_requests (None # rs) = None"
| "collect_requests (Some r # rs) = map_option (\<lambda>xs. (case r of None \<Rightarrow> xs | Some x \<Rightarrow> x # xs)) (collect_requests rs)"

text \<open>\<open>iter_mut().find(...)\<close> followed by an update of what was found.\<close>

primrec update_first :: "('a \<Rightarrow> bool) \<Rightarrow> ('a \<Rightarrow> 'a) \<Rightarrow> (nat \<times> 'a) list \<Rightarrow> (nat \<times> 'a) list" where
  "update_first P f [] = []"
| "update_first P f (x # xs) = (if P (snd x) then (fst x, f (snd x)) # xs else x # update_first P f xs)"

definition mark_cleanup :: "u64 \<Rightarrow> u64 \<Rightarrow> uring \<Rightarrow> uring" where
  "mark_cleanup target cud s =
     s\<lparr>rs_ops := update_first (\<lambda>op. op_user_data op = target)
          (op_multishot_update (map_option (\<lambda>ms. ms\<lparr>ms_cleanup_user_data := Some cud\<rparr>))) (rs_ops s),
       rs_orphaned := update_first (\<lambda>op. or_user_data op = target)
          (or_multishot_update (map_option (\<lambda>ms. ms\<lparr>ms_cleanup_user_data := Some cud\<rparr>))) (rs_orphaned s)\<rparr>"

fun queue_cleanups :: "(u64 \<times> u16 \<times> u16) list \<Rightarrow> uring \<Rightarrow> bool \<times> uring" where
  "queue_cleanups [] s = (False, s)"
| "queue_cleanups ((target, cnt, grp) # rs) s =
     (case queue_remove_buffers_locked target cnt grp s of
        (Inl e, s) \<Rightarrow> queue_cleanups rs s
      | (Inr cud, s) \<Rightarrow> (True, snd (queue_cleanups rs (mark_cleanup target cud s))))"

text \<open>The slabs are visited in the order of their keys.\<close>

definition queue_pending_cleanups_locked :: "uring \<Rightarrow> (bool \<times> uring) option" where
  "queue_pending_cleanups_locked s =
     map_option (\<lambda>rs. queue_cleanups rs s)
       (collect_requests
          (map (\<lambda>(k, op). cleanup_request (op_res op) (op_multishot op) (op_user_data op)) (sort_key fst (rs_ops s))
           @ map (\<lambda>(k, op). cleanup_request (or_res op) (or_multishot op) (or_user_data op)) (sort_key fst (rs_orphaned s))))"

section \<open>Reaping\<close>

text \<open>\<open>io::Error::from_raw_os_error(-(res as i64) as i32)\<close>, or the number.\<close>

definition os_result :: "i32 \<Rightarrow> uring_error + nat" where
  "os_result res = (if sint res < 0 then Inl (RawOs (- res)) else Inr (unat res))"

text \<open>What one completion did: the state, the wakers to call, the descriptors closed, and the buffer to
  hand back to the kernel.\<close>

type_synonym refill = "(u64 \<times> u64 \<times> u32 \<times> u16 \<times> u16) option"
type_synonym reaped = "uring \<times> waker list \<times> i32 list \<times> refill"

definition slab_remove_orphan :: "nat \<Rightarrow> uring \<Rightarrow> uring option" where
  "slab_remove_orphan key s =
     (if map_of (rs_orphaned s) key = None then None else Some (s\<lparr>rs_orphaned := AList.delete key (rs_orphaned s)\<rparr>))"

definition slab_remove_op :: "nat \<Rightarrow> uring \<Rightarrow> uring option" where
  "slab_remove_op key s = (if map_of (rs_ops s) key = None then None else Some (s\<lparr>rs_ops := AList.delete key (rs_ops s)\<rparr>))"

definition reap_cancel :: "u64 \<Rightarrow> i32 \<Rightarrow> uring \<Rightarrow> uring option" where
  "reap_cancel target res s =
     (if res \<noteq> 0 then Some s
      else (case rs_orphaned_by s target of
              Some key \<Rightarrow>
                if Option.bind (map_of (rs_orphaned s) key) or_multishot = None
                then slab_remove_orphan key (s\<lparr>rs_orphaned_by := (rs_orphaned_by s)(target := None)\<rparr>)
                else Some s
            | None \<Rightarrow>
                (case rs_ops_by s target of
                   Some key \<Rightarrow>
                     if Option.bind (map_of (rs_ops s) key) op_multishot = None
                     then slab_remove_op key (s\<lparr>rs_ops_by := (rs_ops_by s)(target := None)\<rparr>)
                     else Some s
                 | None \<Rightarrow> Some s)))"

definition kind_error :: "multishot_kind \<Rightarrow> uring_error \<Rightarrow> multishot_event" where
  "kind_error k e = (case k of KindAccept \<Rightarrow> EvAccept (Inl e) | KindRecv _ _ \<Rightarrow> EvRecv (Inl e))"

definition reap_cleanup :: "u64 \<Rightarrow> i32 \<Rightarrow> uring \<Rightarrow> (uring \<times> waker list) option" where
  "reap_cleanup target res s =
     (case rs_ops_by s target of
        Some key \<Rightarrow>
          (case map_of (rs_ops s) key of
             None \<Rightarrow> Some (s, [])
           | Some op \<Rightarrow>
               (case op_multishot op of
                  None \<Rightarrow> Some (s, [])
                | Some ms \<Rightarrow>
                    Some (update_op key (\<lambda>op. op\<lparr>op_multishot := Some (ms\<lparr>ms_cleanup_user_data := None,
                            ms_cleanup_complete := (ms_cleanup_complete ms \<or> 0 \<le> sint res)\<rparr>), op_waker := None\<rparr>) s,
                          wakes_of (op_waker op))))
      | None \<Rightarrow>
          (case rs_orphaned_by s target of
             None \<Rightarrow> Some (s, [])
           | Some key \<Rightarrow>
               (case Option.bind (map_of (rs_orphaned s) key) or_multishot of
                  None \<Rightarrow> Some (s, [])
                | Some ms \<Rightarrow>
                    let s = update_orphan key (\<lambda>op. op\<lparr>or_multishot := Some (ms\<lparr>ms_cleanup_user_data := None,
                              ms_cleanup_complete := (0 \<le> sint res)\<rparr>)\<rparr>) s in
                    if 0 \<le> sint res \<and> ms_terminal ms \<and> ms_events ms = []
                    then map_option (\<lambda>s. (s, [])) (slab_remove_orphan key (s\<lparr>rs_orphaned_by := (rs_orphaned_by s)(target := None)\<rparr>))
                    else Some (s, []))))"

definition reap_provide :: "u64 \<Rightarrow> u64 \<Rightarrow> i32 \<Rightarrow> uring \<Rightarrow> (uring \<times> waker list) option" where
  "reap_provide ud target res s =
     (let cleanup = ud \<in> rs_cleanup_targets s; s = s\<lparr>rs_cleanup_targets := rs_cleanup_targets s - {ud}\<rparr> in
      if cleanup then reap_cleanup target res s
      else if sint res < 0
      then (case rs_ops_by s target of
              None \<Rightarrow> Some (s, [])
            | Some key \<Rightarrow>
                (case map_of (rs_ops s) key of
                   None \<Rightarrow> Some (s, [])
                 | Some op \<Rightarrow>
                     (case op_multishot op of
                        None \<Rightarrow> Some (s, [])
                      | Some ms \<Rightarrow>
                          Some (update_op key (\<lambda>op. op\<lparr>op_multishot := Some (ms\<lparr>ms_events := ms_events ms @ [kind_error (ms_kind ms) (RawOs (- res))],
                                  ms_terminal := True\<rparr>), op_waker := None\<rparr>) s,
                                wakes_of (op_waker op)))))
      else Some (s, []))"

text \<open>The event of a receive completion, and whether the buffer goes back. \<open>None\<close> is a panic.\<close>

definition uring_recv_event :: "op_resource \<Rightarrow> cqe \<Rightarrow> u32 \<Rightarrow> u16 \<Rightarrow> bool \<Rightarrow> (multishot_event \<times> refill) option" where
  "uring_recv_event res c bsize grp has_more =
     (if sint (cqe_res c) < 0 then Some (EvRecv (Inl (RawOs (- cqe_res c))), None)
      else if cqe_flags c AND IORING_CQE_F_BUFFER = 0
      then Some (EvRecv (Inl (InvalidData ''eddy: multishot receive CQE did not select a buffer'')), None)
      else (case res of
              MultishotRecv b \<Rightarrow>
                let bid = unat (drop_bit IORING_CQE_BUFFER_SHIFT (cqe_flags c)); len = unat (cqe_res c); start = bid * unat bsize in
                if bsize = 0 then None
                else if length (v_bytes b) div unat bsize \<le> bid \<or> unat bsize < len
                then Some (EvRecv (Inl (InvalidData ''eddy: multishot receive returned an invalid buffer'')), None)
                else Some (EvRecv (Inr (len, take len (drop start (v_bytes b)))),
                           if has_more then Some (cqe_user_data c, v_ptr b + of_nat start, bsize, grp, of_nat bid) else None)
            | _ \<Rightarrow> None))"

definition reap_op :: "nat \<Rightarrow> cqe \<Rightarrow> uring \<Rightarrow> reaped option" where
  "reap_op key c s =
     (case map_of (rs_ops s) key of
        None \<Rightarrow> Some (s, [], [], None)
      | Some op \<Rightarrow>
          (case op_multishot op of
             Some ms \<Rightarrow>
               let has_more = cqe_flags c AND IORING_CQE_F_MORE \<noteq> 0 in
               (case (case ms_kind ms of
                        KindAccept \<Rightarrow> Some (EvAccept (if sint (cqe_res c) < 0 then Inl (RawOs (- cqe_res c)) else Inr (cqe_res c)), None)
                      | KindRecv bsize grp \<Rightarrow> uring_recv_event (op_res op) c bsize grp has_more) of
                  None \<Rightarrow> None
                | Some (ev, refill) \<Rightarrow>
                    Some (update_op key (\<lambda>op. op\<lparr>op_multishot := Some (ms\<lparr>ms_events := ms_events ms @ [ev], ms_terminal := \<not> has_more\<rparr>),
                            op_waker := None\<rparr>) s, wakes_of (op_waker op), [], refill))
           | None \<Rightarrow>
               Some (update_op key (\<lambda>op. op\<lparr>op_result := Some (os_result (cqe_res c)), op_waker := None\<rparr>) s, wakes_of (op_waker op), [], None)))"

definition reap_orphan :: "nat \<Rightarrow> cqe \<Rightarrow> uring \<Rightarrow> reaped option" where
  "reap_orphan key c s =
     (let ud = cqe_user_data c;
          unlisted = s\<lparr>rs_orphaned_by := (rs_orphaned_by s)(ud := None)\<rparr> in
      case Option.bind (map_of (rs_orphaned s) key) or_multishot of
        Some ms \<Rightarrow>
          let fds = (if map_option or_res (map_of (rs_orphaned s) key) = Some MultishotAccept \<and> 0 \<le> sint (cqe_res c) then [cqe_res c] else []) in
          if cqe_flags c AND IORING_CQE_F_MORE \<noteq> 0 then Some (s, [], fds, None)
          else if ms_cleanup_complete ms
          then map_option (\<lambda>s. (s, [], fds, None)) (slab_remove_orphan key unlisted)
          else Some (update_orphan key (\<lambda>op. op\<lparr>or_multishot := Some (ms\<lparr>ms_terminal := True\<rparr>)\<rparr>) s, [], fds, None)
      | None \<Rightarrow>
          (case map_of (rs_orphaned s) key of
             None \<Rightarrow> None
           | Some op \<Rightarrow>
               map_option (\<lambda>s. (s, [], if or_res op = AcceptOp \<and> 0 \<le> sint (cqe_res c) then [cqe_res c] else [], None))
                 (slab_remove_orphan key unlisted)))"

definition reap_cqe :: "cqe \<Rightarrow> uring \<Rightarrow> reaped option" where
  "reap_cqe c s =
     (let ud = cqe_user_data c in
      case rs_cancel_targets s ud of
        Some target \<Rightarrow>
          map_option (\<lambda>s. (s, [], [], None)) (reap_cancel target (cqe_res c) (s\<lparr>rs_cancel_targets := (rs_cancel_targets s)(ud := None)\<rparr>))
      | None \<Rightarrow>
          (case rs_provide_targets s ud of
             Some target \<Rightarrow>
               map_option (\<lambda>(s, ws). (s, ws, [], None))
                 (reap_provide ud target (cqe_res c) (s\<lparr>rs_provide_targets := (rs_provide_targets s)(ud := None)\<rparr>))
           | None \<Rightarrow>
               (case rs_ops_by s ud of
                  Some key \<Rightarrow> reap_op key c s
                | None \<Rightarrow>
                    (case rs_orphaned_by s ud of
                       Some key \<Rightarrow> reap_orphan key c s
                     | None \<Rightarrow> Some (s, [], [], None)))))"

fun reap_loop :: "cqe list \<Rightarrow> uring \<Rightarrow> (uring \<times> waker list \<times> i32 list \<times> bool) option" where
  "reap_loop [] s = Some (s, [], [], False)"
| "reap_loop (c # cs) s =
     (case reap_cqe c s of
        None \<Rightarrow> None
      | Some (s, ws, fds, refill) \<Rightarrow>
          let (q, s) = (case refill of
                 None \<Rightarrow> (False, s)
               | Some (target, addr, len, grp, bid) \<Rightarrow>
                   (case queue_provide_buffer_locked target addr len grp bid s of (Inl e, s) \<Rightarrow> (False, s) | (Inr _, s) \<Rightarrow> (True, s))) in
          (case reap_loop cs s of
             None \<Rightarrow> None
           | Some (s, ws', fds', q') \<Rightarrow> Some (s, ws @ ws', fds @ fds', q \<or> q')))"

text \<open>A whole pass. Under the lock: the available completions, the clean-up requests, and the published head;
  then a submission if something was queued. The result is the number of completions.\<close>

definition reap_locked :: "uring \<Rightarrow> (nat \<times> waker list \<times> i32 list \<times> bool \<times> uring) option" where
  "reap_locked s =
     (case reap_loop (cq_read (rs_cq s)) s of
        None \<Rightarrow> None
      | Some (s1, ws, fds, q) \<Rightarrow>
          (case queue_pending_cleanups_locked s1 of
             None \<Rightarrow> None
           | Some (q', s2) \<Rightarrow>
               let n = cq_available (rs_cq s) in Some (unat n, ws, fds, q \<or> q', s2\<lparr>rs_cq := cq_publish n (rs_cq s2)\<rparr>)))"

definition reap_completions_inner :: "enter_outcome list \<Rightarrow> uring \<Rightarrow> (nat \<times> waker list \<times> i32 list \<times> sqe list \<times> uring) option" where
  "reap_completions_inner os s =
     (case reap_locked s of
        None \<Rightarrow> None
      | Some (n, ws, fds, q, s) \<Rightarrow>
          if q then (case uring_submit os s of None \<Rightarrow> None | Some (r, es, s) \<Rightarrow> Some (n, ws, fds, es, s))
          else Some (n, ws, fds, [], s))"

end
