(* ===== verification/Uring_Futures.thy ===== *)
theory Uring_Futures
  imports Io_Uring
begin

text \<open>
  The futures of \<open>io/uring.rs\<close>. Each holds its resource until the first poll, and then the key of its
  operation. \<open>os\<close> and \<open>os'\<close> are the outcomes of the submission of a poll and of the submission of a
  cancellation; the entries that the kernel took are part of the result.
\<close>

section \<open>What the futures share\<close>

text \<open>A poll after the operation was started: the result, or the waker is registered.\<close>

definition poll_started ::
  "(op_resource \<Rightarrow> 'r option) \<Rightarrow> waker \<Rightarrow> nat \<Rightarrow> uring \<Rightarrow> (((uring_error + nat) \<times> 'r) option \<times> uring) option" where
  "poll_started sel wk key s =
     (case take_result_as sel key s of
        None \<Rightarrow> None
      | Some (Some x, s) \<Rightarrow> Some (Some x, s)
      | Some (None, s) \<Rightarrow> Some (None, set_waker key wk s))"

text \<open>The submission that follows a start. If it fails, the operation is orphaned and the future reports the
  error.\<close>

definition submit_started ::
  "slab_keys \<Rightarrow> enter_outcome list \<Rightarrow> enter_outcome list \<Rightarrow> nat \<Rightarrow> uring \<Rightarrow> (uring_error option \<times> sqe list \<times> uring) option" where
  "submit_started vacant os os' key s =
     (case uring_submit os s of
        None \<Rightarrow> None
      | Some (Inr n, es, s) \<Rightarrow> Some (None, es, s)
      | Some (Inl e, es, s) \<Rightarrow>
          (case uring_orphan vacant os' key s of
             None \<Rightarrow> None
           | Some (fds, es', s) \<Rightarrow> Some (Some e, es @ es', s)))"

text \<open>Dropping a future.\<close>

definition drop_key :: "slab_keys \<Rightarrow> enter_outcome list \<Rightarrow> nat option \<Rightarrow> uring \<Rightarrow> (i32 list \<times> sqe list \<times> uring) option" where
  "drop_key vacant os key s = (case key of None \<Rightarrow> Some ([], [], s) | Some k \<Rightarrow> uring_orphan vacant os k s)"

text \<open>\<open>Vec::new()\<close>.\<close>

definition vec_empty :: vec_u8 where "vec_empty = \<lparr>v_ptr = 1, v_bytes = []\<rparr>"

section \<open>Owned buffers\<close>

text \<open>\<open>ReadOwned\<close>, \<open>WriteOwned\<close>, \<open>SendOwned\<close> and \<open>RecvOwned\<close>, which differ in their opcode, their message and in
  whether they have an offset.\<close>

record buffer_owned =
  bo_fd :: i32
  bo_offset :: u64
  bo_buffer :: "vec_u8 option"
  bo_key :: "nat option"

type_synonym ('f, 'o) uring_poll = "slab_keys \<Rightarrow> enter_outcome list \<Rightarrow> enter_outcome list \<Rightarrow> waker \<Rightarrow> 'f \<Rightarrow> uring \<Rightarrow> ('o poll \<times> sqe list \<times> 'f \<times> uring) option"

definition buffer_poll :: "u8 \<Rightarrow> string \<Rightarrow> (buffer_owned, (uring_error + nat) \<times> vec_u8) uring_poll" where
  "buffer_poll opc msg vacant os os' wk f s =
     (case bo_key f of
        Some key \<Rightarrow>
          (case poll_started as_buffer wk key s of
             None \<Rightarrow> None
           | Some (Some (r, b), s) \<Rightarrow> Some (Ready (r, b), [], f\<lparr>bo_key := None\<rparr>, s)
           | Some (None, s) \<Rightarrow> Some (Pending, [], f, s))
      | None \<Rightarrow>
          (case bo_buffer f of
             None \<Rightarrow> None
           | Some b \<Rightarrow>
               let f = f\<lparr>bo_buffer := None\<rparr> in
               (case u32_try_from msg (length (v_bytes b)) of
                  Inl e \<Rightarrow> Some (Ready (Inl e, b), [], f, s)
                | Inr len \<Rightarrow>
                    (case start_op vacant opc (bo_fd f) (Buffer b) (bo_offset f) len 0 wk s of
                       None \<Rightarrow> None
                     | Some (Inr key, s) \<Rightarrow>
                         (case submit_started vacant os os' key s of
                            None \<Rightarrow> None
                          | Some (None, es, s) \<Rightarrow> Some (Pending, es, f\<lparr>bo_key := Some key\<rparr>, s)
                          | Some (Some e, es, s) \<Rightarrow> Some (Ready (Inl e, vec_empty), es, f, s))
                     | Some (Inl (e, res), s) \<Rightarrow>
                         (case as_buffer res of None \<Rightarrow> None | Some b \<Rightarrow> Some (Ready (Inl e, b), [], f, s))))))"

definition read_at :: "i32 \<Rightarrow> vec_u8 \<Rightarrow> u64 \<Rightarrow> buffer_owned" where
  "read_at fd b off = \<lparr>bo_fd = fd, bo_offset = off, bo_buffer = Some b, bo_key = None\<rparr>"

definition uring_read_poll :: "(buffer_owned, (uring_error + nat) \<times> vec_u8) uring_poll" where
  "uring_read_poll = buffer_poll IORING_OP_READ ''eddy: read buffer is too large''"

definition write_at :: "i32 \<Rightarrow> vec_u8 \<Rightarrow> u64 \<Rightarrow> buffer_owned" where
  "write_at fd b off = \<lparr>bo_fd = fd, bo_offset = off, bo_buffer = Some b, bo_key = None\<rparr>"

definition uring_write_poll :: "(buffer_owned, (uring_error + nat) \<times> vec_u8) uring_poll" where
  "uring_write_poll = buffer_poll IORING_OP_WRITE ''eddy: write buffer is too large''"

definition uring_send :: "i32 \<Rightarrow> vec_u8 \<Rightarrow> buffer_owned" where
  "uring_send fd b = \<lparr>bo_fd = fd, bo_offset = 0, bo_buffer = Some b, bo_key = None\<rparr>"

definition uring_send_poll :: "(buffer_owned, (uring_error + nat) \<times> vec_u8) uring_poll" where
  "uring_send_poll = buffer_poll IORING_OP_SEND ''eddy: send buffer is too large''"

definition uring_recv :: "i32 \<Rightarrow> vec_u8 \<Rightarrow> buffer_owned" where
  "uring_recv fd b = \<lparr>bo_fd = fd, bo_offset = 0, bo_buffer = Some b, bo_key = None\<rparr>"

definition uring_recv_poll :: "(buffer_owned, (uring_error + nat) \<times> vec_u8) uring_poll" where
  "uring_recv_poll = buffer_poll IORING_OP_RECV ''eddy: recv buffer is too large''"

section \<open>Vectors, accept, connect, close, timeout\<close>

text \<open>Futures that hold a resource: \<open>ReadvOwned\<close>, \<open>WritevOwned\<close>, \<open>AcceptOwned\<close>, \<open>ConnectOwned\<close>, \<open>CloseOwned\<close> and
  \<open>TimeoutOwned\<close>. The last four report only the result. \<open>AcceptOp\<close> and \<open>CloseOp\<close> are made anew by each
  first poll, so these futures can be polled again after a failed start.\<close>

record resource_owned =
  ro_fd :: i32
  ro_offset :: u64
  ro_resource :: "op_resource option"
  ro_key :: "nat option"

definition vectored_poll :: "u8 \<Rightarrow> (resource_owned, (uring_error + nat) \<times> vec_u8 list) uring_poll" where
  "vectored_poll opc vacant os os' wk f s =
     (case ro_key f of
        Some key \<Rightarrow>
          (case poll_started as_vectored wk key s of
             None \<Rightarrow> None
           | Some (Some (r, bufs), s) \<Rightarrow> Some (Ready (r, bufs), [], f\<lparr>ro_key := None\<rparr>, s)
           | Some (None, s) \<Rightarrow> Some (Pending, [], f, s))
      | None \<Rightarrow>
          (case ro_resource f of
             None \<Rightarrow> None
           | Some res \<Rightarrow>
               let f = f\<lparr>ro_resource := None\<rparr> in
               (case start_op vacant opc (ro_fd f) res (ro_offset f) 0 0 wk s of
                  None \<Rightarrow> None
                | Some (Inr key, s) \<Rightarrow>
                    (case submit_started vacant os os' key s of
                       None \<Rightarrow> None
                     | Some (None, es, s) \<Rightarrow> Some (Pending, es, f\<lparr>ro_key := Some key\<rparr>, s)
                     | Some (Some e, es, s) \<Rightarrow> Some (Ready (Inl e, []), es, f, s))
                | Some (Inl (e, res), s) \<Rightarrow>
                    (case as_vectored res of None \<Rightarrow> None | Some bufs \<Rightarrow> Some (Ready (Inl e, bufs), [], f, s)))))"

definition readv_at :: "i32 \<Rightarrow> u64 \<Rightarrow> vec_u8 list \<Rightarrow> u64 \<Rightarrow> resource_owned" where
  "readv_at fd p bufs off = \<lparr>ro_fd = fd, ro_offset = off, ro_resource = Some (vectored_resource p bufs), ro_key = None\<rparr>"

definition readv_poll :: "(resource_owned, (uring_error + nat) \<times> vec_u8 list) uring_poll" where
  "readv_poll = vectored_poll IORING_OP_READV"

definition writev_at :: "i32 \<Rightarrow> u64 \<Rightarrow> vec_u8 list \<Rightarrow> u64 \<Rightarrow> resource_owned" where
  "writev_at fd p bufs off = \<lparr>ro_fd = fd, ro_offset = off, ro_resource = Some (vectored_resource p bufs), ro_key = None\<rparr>"

definition writev_poll :: "(resource_owned, (uring_error + nat) \<times> vec_u8 list) uring_poll" where
  "writev_poll = vectored_poll IORING_OP_WRITEV"

text \<open>The poll of a future that reports only the result: \<open>next\<close> is the resource of the first poll with what
  is left for another, and \<open>out\<close> what becomes of the result.\<close>

definition plain_poll ::
  "u8 \<Rightarrow> u32 \<Rightarrow> u32 \<Rightarrow> (resource_owned \<Rightarrow> (op_resource \<times> resource_owned) option) \<Rightarrow> (op_resource \<Rightarrow> unit option) \<Rightarrow>
   (uring_error + nat \<Rightarrow> uring_error + 'o) \<Rightarrow> (resource_owned, uring_error + 'o) uring_poll" where
  "plain_poll opc len rw nxt sel out vacant os os' wk f s =
     (case ro_key f of
        Some key \<Rightarrow>
          (case poll_started sel wk key s of
             None \<Rightarrow> None
           | Some (Some (r, _), s) \<Rightarrow> Some (Ready (out r), [], f\<lparr>ro_key := None\<rparr>, s)
           | Some (None, s) \<Rightarrow> Some (Pending, [], f, s))
      | None \<Rightarrow>
          (case nxt f of
             None \<Rightarrow> None
           | Some (res, f) \<Rightarrow>
               (case start_op vacant opc (ro_fd f) res (ro_offset f) len rw wk s of
                  None \<Rightarrow> None
                | Some (Inr key, s) \<Rightarrow>
                    (case submit_started vacant os os' key s of
                       None \<Rightarrow> None
                     | Some (None, es, s) \<Rightarrow> Some (Pending, es, f\<lparr>ro_key := Some key\<rparr>, s)
                     | Some (Some e, es, s) \<Rightarrow> Some (Ready (Inl e), es, f, s))
                | Some (Inl (e, res), s) \<Rightarrow> Some (Ready (Inl e), [], f, s))))"

definition take_resource :: "resource_owned \<Rightarrow> (op_resource \<times> resource_owned) option" where
  "take_resource f = map_option (\<lambda>res. (res, f\<lparr>ro_resource := None\<rparr>)) (ro_resource f)"

text \<open>The \<open>debug_assert!\<close> of the resource is not a panic of a release build.\<close>

definition any_resource :: "op_resource \<Rightarrow> unit option" where "any_resource res = Some ()"

definition void :: "uring_error + nat \<Rightarrow> uring_error + unit" where "void r = map_sum id (\<lambda>_. ()) r"

definition uring_accept :: "i32 \<Rightarrow> resource_owned" where
  "uring_accept fd = \<lparr>ro_fd = fd, ro_offset = 0, ro_resource = None, ro_key = None\<rparr>"

definition accept_poll :: "(resource_owned, uring_error + i32) uring_poll" where
  "accept_poll = plain_poll IORING_OP_ACCEPT 0 ACCEPT_FLAGS (\<lambda>f. Some (AcceptOp, f)) any_resource (map_sum id of_nat)"

text \<open>The bytes of the socket address are given.\<close>

definition uring_connect :: "i32 \<Rightarrow> vec_u8 \<Rightarrow> resource_owned" where
  "uring_connect fd b = \<lparr>ro_fd = fd, ro_offset = 0, ro_resource = Some (Address b (of_nat (length (v_bytes b)))), ro_key = None\<rparr>"

definition connect_poll :: "(resource_owned, uring_error + unit) uring_poll" where
  "connect_poll = plain_poll IORING_OP_CONNECT 0 0 take_resource any_resource void"

definition uring_close :: "i32 \<Rightarrow> resource_owned" where
  "uring_close fd = \<lparr>ro_fd = fd, ro_offset = 0, ro_resource = None, ro_key = None\<rparr>"

definition close_poll :: "(resource_owned, uring_error + unit) uring_poll" where
  "close_poll = plain_poll IORING_OP_CLOSE 0 0 (\<lambda>f. Some (CloseOp, f)) any_resource void"

definition timeout_outcome :: "uring_error + nat \<Rightarrow> uring_error + unit" where
  "timeout_outcome r = (case r of Inr _ \<Rightarrow> Inr () | Inl e \<Rightarrow> if e = RawOs ETIME then Inr () else Inl e)"

definition uring_timeout_poll :: "(resource_owned, uring_error + unit) uring_poll" where
  "uring_timeout_poll = plain_poll IORING_OP_TIMEOUT 1 0 take_resource (map_option (\<lambda>_. ()) \<circ> as_buffer) timeout_outcome"

text \<open>The timespec of a timeout, as two little-endian 64-bit numbers; the seconds are capped at \<open>i64::MAX\<close>.\<close>

definition to_bytes :: "u64 \<Rightarrow> u8 list" where
  "to_bytes w = map (\<lambda>i. ucast (drop_bit (8 * i) w)) [0..<8]"

definition from_bytes :: "u8 list \<Rightarrow> u64" where
  "from_bytes bs = foldr (\<lambda>b acc. ucast b OR push_bit 8 acc) bs 0"

definition timeout_buffer :: "u64 \<Rightarrow> u32 \<Rightarrow> u8 list" where
  "timeout_buffer secs nanos = to_bytes (min secs (2 ^ 63 - 1)) @ to_bytes (ucast nanos)"

definition uring_timeout :: "u64 \<Rightarrow> u64 \<Rightarrow> u32 \<Rightarrow> resource_owned" where
  "uring_timeout p secs nanos =
     \<lparr>ro_fd = - 1, ro_offset = 0, ro_resource = Some (Buffer \<lparr>v_ptr = p, v_bytes = timeout_buffer secs nanos\<rparr>), ro_key = None\<rparr>"

section \<open>Registered buffers and files\<close>

definition register_buffers :: "(i32 + unit) \<Rightarrow> (i32 + i32) \<Rightarrow> vec_u8 list \<Rightarrow> uring_error + registered_buffers" where
  "register_buffers reg dup bufs =
     (if bufs = [] then Inl (InvalidInput ''eddy: at least one io_uring buffer is required'')
      else if 2 ^ 32 - 1 < length bufs then Inl (InvalidInput ''eddy: too many io_uring registered buffers'')
      else if \<exists>b\<in>set bufs. 2 ^ 32 - 1 < length (v_bytes b) then Inl (InvalidInput ''eddy: registered io_uring buffer is too large'')
      else (case dup of
              Inl e \<Rightarrow> Inl (RawOs e)
            | Inr fd \<Rightarrow> (case reg of Inl e \<Rightarrow> Inl (RawOs e) | Inr _ \<Rightarrow> Inr \<lparr>rb_ring_fd = fd, rb_buffers = bufs\<rparr>)))"

definition register_files :: "(i32 + unit) \<Rightarrow> (i32 + i32) \<Rightarrow> i32 list \<Rightarrow> uring_error + registered_files" where
  "register_files reg dup files =
     (if files = [] then Inl (InvalidInput ''eddy: at least one io_uring file is required'')
      else if 2 ^ 32 - 1 < length files then Inl (InvalidInput ''eddy: too many io_uring registered files'')
      else (case dup of
              Inl e \<Rightarrow> Inl (RawOs e)
            | Inr fd \<Rightarrow> (case reg of Inl e \<Rightarrow> Inl (RawOs e) | Inr _ \<Rightarrow> Inr \<lparr>rf_ring_fd = fd, rf_files = files\<rparr>)))"

record fixed_buffer_owned =
  fb_fd :: i32
  fb_index :: nat
  fb_length :: nat
  fb_registration :: "registered_buffers option"
  fb_key :: "nat option"
  fb_opcode :: u8

definition buffers_read_fixed :: "registered_buffers \<Rightarrow> i32 \<Rightarrow> nat \<Rightarrow> nat \<Rightarrow> fixed_buffer_owned" where
  "buffers_read_fixed reg fd i n = \<lparr>fb_fd = fd, fb_index = i, fb_length = n, fb_registration = Some reg, fb_key = None, fb_opcode = IORING_OP_READ\<rparr>"

definition buffers_write_fixed :: "registered_buffers \<Rightarrow> i32 \<Rightarrow> nat \<Rightarrow> nat \<Rightarrow> fixed_buffer_owned" where
  "buffers_write_fixed reg fd i n = \<lparr>fb_fd = fd, fb_index = i, fb_length = n, fb_registration = Some reg, fb_key = None, fb_opcode = IORING_OP_WRITE\<rparr>"

text \<open>The checks before a fixed-buffer operation.\<close>

definition fixed_buffer_check :: "registered_buffers \<Rightarrow> nat \<Rightarrow> nat \<Rightarrow> uring_error + unit" where
  "fixed_buffer_check reg i len =
     (if \<not> i < length (rb_buffers reg) then Inl (InvalidInput ''eddy: fixed-buffer index is out of range'')
      else if \<not> i < 2 ^ 16 then Inl (InvalidInput ''eddy: fixed-buffer index exceeds the io_uring ABI'')
      else if length (v_bytes (rb_buffers reg ! i)) < len \<or> 2 ^ 32 - 1 < len
      then Inl (InvalidInput ''eddy: fixed-buffer operation exceeds the registered buffer'')
      else Inr ())"

definition fixed_buffer_poll :: "(fixed_buffer_owned, (uring_error + nat) \<times> registered_buffers option) uring_poll" where
  "fixed_buffer_poll vacant os os' wk f s =
     (case fb_key f of
        Some key \<Rightarrow>
          (case poll_started as_fixed_buffer wk key s of
             None \<Rightarrow> None
           | Some (Some (r, reg), s) \<Rightarrow> Some (Ready (r, Some reg), [], f\<lparr>fb_key := None\<rparr>, s)
           | Some (None, s) \<Rightarrow> Some (Pending, [], f, s))
      | None \<Rightarrow>
          (case fb_registration f of
             None \<Rightarrow> None
           | Some reg \<Rightarrow>
               let f = f\<lparr>fb_registration := None\<rparr> in
               (case fixed_buffer_check reg (fb_index f) (fb_length f) of
                  Inl e \<Rightarrow> Some (Ready (Inl e, Some reg), [], f, s)
                | Inr _ \<Rightarrow>
                    (case start_op vacant (fb_opcode f) (fb_fd f) (FixedBuffer reg (of_nat (fb_index f)) (of_nat (fb_length f))) 0
                        (of_nat (fb_length f)) 0 wk s of
                       None \<Rightarrow> None
                     | Some (Inr key, s) \<Rightarrow>
                         (case submit_started vacant os os' key s of
                            None \<Rightarrow> None
                          | Some (None, es, s) \<Rightarrow> Some (Pending, es, f\<lparr>fb_key := Some key\<rparr>, s)
                          | Some (Some e, es, s) \<Rightarrow> Some (Ready (Inl e, None), es, f, s))
                     | Some (Inl (e, res), s) \<Rightarrow> Some (Ready (Inl e, Some reg), [], f, s)))))"

record fixed_file_owned =
  ff_index :: nat
  ff_buffer :: "vec_u8 option"
  ff_registration :: "registered_files option"
  ff_key :: "nat option"
  ff_opcode :: u8

definition files_read_fixed :: "registered_files \<Rightarrow> nat \<Rightarrow> vec_u8 \<Rightarrow> fixed_file_owned" where
  "files_read_fixed reg i b = \<lparr>ff_index = i, ff_buffer = Some b, ff_registration = Some reg, ff_key = None, ff_opcode = IORING_OP_READ\<rparr>"

definition files_write_fixed :: "registered_files \<Rightarrow> nat \<Rightarrow> vec_u8 \<Rightarrow> fixed_file_owned" where
  "files_write_fixed reg i b = \<lparr>ff_index = i, ff_buffer = Some b, ff_registration = Some reg, ff_key = None, ff_opcode = IORING_OP_WRITE\<rparr>"

definition fixed_file_poll :: "(fixed_file_owned, (uring_error + nat) \<times> vec_u8 \<times> registered_files option) uring_poll" where
  "fixed_file_poll vacant os os' wk f s =
     (case ff_key f of
        Some key \<Rightarrow>
          (case poll_started as_fixed_file wk key s of
             None \<Rightarrow> None
           | Some (Some (r, b, reg), s) \<Rightarrow> Some (Ready (r, b, Some reg), [], f\<lparr>ff_key := None\<rparr>, s)
           | Some (None, s) \<Rightarrow> Some (Pending, [], f, s))
      | None \<Rightarrow>
          (case (ff_registration f, ff_buffer f) of
             (Some reg, Some b) \<Rightarrow>
               let f = f\<lparr>ff_registration := None, ff_buffer := None\<rparr> in
               if \<not> ff_index f < length (rf_files reg)
               then Some (Ready (Inl (InvalidInput ''eddy: fixed-file index is out of range''), b, Some reg), [], f, s)
               else if \<not> ff_index f < 2 ^ 31
               then Some (Ready (Inl (InvalidInput ''eddy: fixed-file index exceeds the io_uring ABI''), b, Some reg), [], f, s)
               else (case start_op vacant (ff_opcode f) (- 1) (FixedFileBuffer reg (of_nat (ff_index f)) b) 0 0 0 wk s of
                       None \<Rightarrow> None
                     | Some (Inr key, s) \<Rightarrow>
                         (case submit_started vacant os os' key s of
                            None \<Rightarrow> None
                          | Some (None, es, s) \<Rightarrow> Some (Pending, es, f\<lparr>ff_key := Some key\<rparr>, s)
                          | Some (Some e, es, s) \<Rightarrow> Some (Ready (Inl e, vec_empty, None), es, f, s))
                     | Some (Inl (e, res), s) \<Rightarrow>
                         (case as_fixed_file res of None \<Rightarrow> None | Some (b, _) \<Rightarrow> Some (Ready (Inl e, b, Some reg), [], f, s)))
           | _ \<Rightarrow> None))"

section \<open>Multishot streams\<close>

record multishot_stream =
  st_fd :: i32
  st_buffer_size :: nat
  st_buffer_count :: nat
  st_key :: "nat option"
  st_start_error :: "uring_error option"
  st_done :: bool

definition stream_new :: "i32 \<Rightarrow> nat \<Rightarrow> nat \<Rightarrow> multishot_stream" where
  "stream_new fd n k = \<lparr>st_fd = fd, st_buffer_size = n, st_buffer_count = k, st_key = None, st_start_error = None, st_done = False\<rparr>"

text \<open>The two streams differ in the start and in the events they accept.\<close>

definition stream_poll_next ::
  "(waker \<Rightarrow> multishot_stream \<Rightarrow> uring \<Rightarrow> (uring_error + nat) \<times> uring) \<Rightarrow> (multishot_event \<Rightarrow> (uring_error + 'o) option) \<Rightarrow>
   (multishot_stream, uring_error + 'o option) uring_poll" where
  "stream_poll_next begin_op sel vacant os os' wk f s =
     (if st_done f then Some (Ready (Inr None), [], f, s)
      else (case st_start_error f of
         Some e \<Rightarrow> Some (Ready (Inl e), [], f\<lparr>st_start_error := None, st_done := True\<rparr>, s)
       | None \<Rightarrow>
           (case st_key f of
              Some key \<Rightarrow>
                (case take_multishot_event key s of
                   (Some ev, s) \<Rightarrow> (case sel ev of None \<Rightarrow> None | Some r \<Rightarrow> Some (Ready (map_sum id Some r), [], f, s))
                 | (None, s) \<Rightarrow>
                     if multishot_finished key s
                     then Some (Ready (Inr None), [], f\<lparr>st_key := None, st_done := True\<rparr>, remove_multishot key s)
                     else Some (Pending, [], f, set_waker key wk s))
            | None \<Rightarrow>
                (case begin_op wk f s of
                   (Inr key, s) \<Rightarrow>
                     (case submit_started vacant os os' key s of
                        None \<Rightarrow> None
                      | Some (None, es, s) \<Rightarrow> Some (Pending, es, f\<lparr>st_key := Some key\<rparr>, s)
                      | Some (Some e, es, s) \<Rightarrow> Some (Ready (Inl e), es, f, s))
                 | (Inl e, s) \<Rightarrow> Some (Ready (Inl e), [], f\<lparr>st_done := True\<rparr>, s)))))"

fun accepted :: "multishot_event \<Rightarrow> (uring_error + i32) option" where
  "accepted (EvAccept r) = Some r"
| "accepted (EvRecv r) = None"

fun received :: "multishot_event \<Rightarrow> (uring_error + nat \<times> u8 list) option" where
  "received (EvRecv r) = Some r"
| "received (EvAccept r) = None"

definition accept_multishot_poll_next :: "(multishot_stream, uring_error + i32 option) uring_poll" where
  "accept_multishot_poll_next vacant = stream_poll_next (\<lambda>wk f. start_multishot_accept vacant (st_fd f) wk) accepted vacant"

definition recv_multishot_poll_next :: "u64 \<Rightarrow> (multishot_stream, uring_error + (nat \<times> u8 list) option) uring_poll" where
  "recv_multishot_poll_next p vacant =
     stream_poll_next (\<lambda>wk f. start_multishot_recv vacant p (st_fd f) (st_buffer_size f) (st_buffer_count f) wk) received vacant"

section \<open>Waiting, falling back, and the end of a ring\<close>

text \<open>A wait for completions ends in an error, or with what the kernel has done to the completion ring.\<close>

type_synonym wait_outcome = "i32 + (cq_ring \<Rightarrow> cq_ring)"

definition submit_and_wait :: "enter_outcome list \<Rightarrow> wait_outcome \<Rightarrow> enter_outcome list \<Rightarrow> uring \<Rightarrow> ((uring_error + unit) \<times> waker list \<times> sqe list \<times> uring) option" where
  "submit_and_wait os w os' s =
     (case uring_submit os s of
        None \<Rightarrow> None
      | Some (Inl e, es, s) \<Rightarrow> Some (Inl e, [], es, s)
      | Some (Inr n, es, s) \<Rightarrow>
          (case w of
             Inl e \<Rightarrow> Some (Inl (RawOs e), [], es, s)
           | Inr post \<Rightarrow>
               (case reap_completions_inner os' (s\<lparr>rs_cq := post (rs_cq s)\<rparr>) of
                  None \<Rightarrow> None
                | Some (n, ws, fds, es', s) \<Rightarrow> Some (Inr (), ws, es @ es', s))))"

text \<open>The error numbers for which the caller should use the readiness driver: \<open>ENOSYS\<close>, \<open>EPERM\<close>, \<open>EACCES\<close> and
  \<open>ENODEV\<close>. \<open>made\<close> is the outcome of \<open>IoUring::new\<close>.\<close>

definition is_unavailable :: "uring_error \<Rightarrow> bool" where
  "is_unavailable e \<longleftrightarrow> e \<in> RawOs ` {38, 1, 13, 19}"

definition new_or_fallback :: "uring_error + 'r \<Rightarrow> uring_error + 'r option" where
  "new_or_fallback made = (case made of Inr r \<Rightarrow> Inr (Some r) | Inl e \<Rightarrow> if is_unavailable e then Inr None else Inl e)"

definition uring_probe :: "uring_error + 'r \<Rightarrow> uring_error + bool" where
  "uring_probe made = map_sum id (\<lambda>r. r \<noteq> None) (new_or_fallback made)"

text \<open>\<open>Drop for Inner\<close>: everything is cancelled, then completions are reaped until both slabs are empty or a wait
  fails. \<open>ws\<close> are the rounds of the loop: the outcomes of the submission after a reap, and of the wait.\<close>

definition drop_targets :: "uring \<Rightarrow> u64 list" where
  "drop_targets s = map (op_user_data \<circ> snd) (sort_key fst (rs_ops s)) @ map (or_user_data \<circ> snd) (sort_key fst (rs_orphaned s))"

fun drop_cancels :: "u64 list \<Rightarrow> uring \<Rightarrow> uring" where
  "drop_cancels [] s = s"
| "drop_cancels (t # ts) s =
     (case next_user_data s of
        (Inl e, s) \<Rightarrow> s
      | (Inr cud, s) \<Rightarrow>
          drop_cancels ts
            (case queue_sqe (sqe_of IORING_OP_ASYNC_CANCEL 0 0 (- 1) 0 t 0 0 cud 0) s of
               Inl e \<Rightarrow> s
             | Inr s \<Rightarrow> s\<lparr>rs_cancel_targets := (rs_cancel_targets s)(cud \<mapsto> t)\<rparr>))"

definition drop_finished :: "uring \<Rightarrow> uring" where
  "drop_finished s = fold (\<lambda>(k, op) s. if op_result op \<noteq> None then remove_op (op_user_data op) k s else s) (rs_ops s) s"

fun drop_rounds :: "(enter_outcome list \<times> wait_outcome) list \<Rightarrow> uring \<Rightarrow> uring option" where
  "drop_rounds [] s = None"
| "drop_rounds ((os, w) # ws) s =
     (case reap_completions_inner os s of
        None \<Rightarrow> None
      | Some (n, wakes, fds, es, s) \<Rightarrow>
          let s = drop_finished s in
          if rs_ops s = [] \<and> rs_orphaned s = [] then Some s
          else (case w of
             Inl e \<Rightarrow> if e = EINTR then drop_rounds ws s else Some s
           | Inr post \<Rightarrow> drop_rounds ws (s\<lparr>rs_cq := post (rs_cq s)\<rparr>)))"

definition uring_drop :: "enter_outcome list \<Rightarrow> enter_outcome list \<Rightarrow> (enter_outcome list \<times> wait_outcome) list \<Rightarrow> uring \<Rightarrow> uring option" where
  "uring_drop os os' ws s =
     (case uring_submit os s of
        None \<Rightarrow> None
      | Some (r, es, s) \<Rightarrow>
          let targets = drop_targets s in
          (case uring_submit os' (drop_cancels targets s) of
             None \<Rightarrow> None
           | Some (r, es, s) \<Rightarrow> if targets = [] then Some s else drop_rounds ws s))"

text \<open>The memory of the slabs goes with the ring only when they are empty, unless a wait has failed.\<close>

lemma drop_rounds_drain:
  "drop_rounds ws s = Some s' \<Longrightarrow> (rs_ops s' = [] \<and> rs_orphaned s' = []) \<or> (\<exists>os e. (os, Inl e) \<in> set ws \<and> e \<noteq> EINTR)"
proof (induction ws arbitrary: s)
  case (Cons r ws)
  obtain os w where r: "r = (os, w)" by fastforce
  show ?case using Cons.prems unfolding r
    by (auto simp: Let_def split: option.splits prod.splits sum.splits if_splits dest!: Cons.IH)
qed simp
end
