(* ===== verification/Uring_Safety.thy ===== *)
theory Uring_Safety
  imports Uring_Futures
begin

text \<open>
  Correctness of the operations in flight. The tables of the ring are consistent, which excludes its
  panics. A view of the tables, from user data to the resource and the status of the operation, carries
  the safety proof: whatever the kernel holds in flight, the ring keeps the memory it was told about.
\<close>

section \<open>Consistent tables\<close>

fun is_multishot :: "op_resource \<Rightarrow> bool" where
  "is_multishot MultishotAccept = True"
| "is_multishot (MultishotRecv b) = True"
| "is_multishot _ = False"

definition op_ok :: "op_resource \<Rightarrow> multishot_state option \<Rightarrow> bool" where
  "op_ok res m \<longleftrightarrow>
     (case m of
        None \<Rightarrow> \<not> is_multishot res
      | Some ms \<Rightarrow>
          (case ms_kind ms of
             KindAccept \<Rightarrow> res = MultishotAccept \<and> (\<forall>ev\<in>set (ms_events ms). \<exists>r. ev = EvAccept r)
           | KindRecv n g \<Rightarrow> n \<noteq> 0 \<and> (\<exists>b. res = MultishotRecv b) \<and> (\<forall>ev\<in>set (ms_events ms). \<exists>r. ev = EvRecv r)))"

text \<open>A table finds exactly the operations of its slab.\<close>

definition tab_ok :: "('a \<Rightarrow> u64) \<Rightarrow> (nat \<rightharpoonup> 'a) \<Rightarrow> (u64 \<rightharpoonup> nat) \<Rightarrow> bool" where
  "tab_ok ud m tab \<longleftrightarrow> (\<forall>u k. tab u = Some k \<longleftrightarrow> (\<exists>x. m k = Some x \<and> ud x = u))"

lemma tab_lookup: "tab_ok ud m tab \<Longrightarrow> tab u = Some k \<Longrightarrow> \<exists>x. m k = Some x \<and> ud x = u"
  by (simp add: tab_ok_def)

lemma tab_entry: "tab_ok ud m tab \<Longrightarrow> m k = Some x \<Longrightarrow> tab (ud x) = Some k"
  by (simp add: tab_ok_def)

lemma tab_insert:
  assumes t: "tab_ok ud m tab" and n: "m key = None" "tab (ud x) = None"
  shows "tab_ok ud (m(key \<mapsto> x)) (tab(ud x \<mapsto> key))"
  unfolding tab_ok_def
proof (intro allI)
  fix u k
  have "\<And>y. m k = Some y \<Longrightarrow> ud y \<noteq> ud x" using tab_entry [OF t] n(2) by force
  moreover have "tab u \<noteq> Some key" using tab_lookup [OF t] n(1) by fastforce
  ultimately show "(tab(ud x \<mapsto> key)) u = Some k \<longleftrightarrow> (\<exists>y. (m(key \<mapsto> x)) k = Some y \<and> ud y = u)"
    using t by (auto simp: tab_ok_def)
qed

lemma tab_remove:
  assumes t: "tab_ok ud m tab" and x: "m key = Some x"
  shows "tab_ok ud (m(key := None)) (tab(ud x := None))"
  unfolding tab_ok_def
proof (intro allI)
  fix u k
  have a: "m k = Some y \<Longrightarrow> ud y = ud x \<Longrightarrow> k = key" for y using tab_entry [OF t] x by (metis option.inject)
  have b: "tab u = Some key \<Longrightarrow> u = ud x" using tab_lookup [OF t] x by fastforce
  show "(tab(ud x := None)) u = Some k \<longleftrightarrow> (\<exists>y. (m(key := None)) k = Some y \<and> ud y = u)"
  proof (cases "u = ud x \<or> k = key")
    case True
    then have "(tab(ud x := None)) u \<noteq> Some k" using b by auto
    moreover have "\<nexists>y. (m(key := None)) k = Some y \<and> ud y = u" using a True by (metis fun_upd_apply option.distinct(1) x option.inject)
    ultimately show ?thesis by blast
  next
    case False
    then show ?thesis using t by (simp add: tab_ok_def)
  qed
qed

lemma tab_update:
  assumes t: "tab_ok ud m tab" and x: "m key = Some x" "ud y = ud x"
  shows "tab_ok ud (m(key \<mapsto> y)) tab"
  using assms by (auto simp: tab_ok_def)

lemma tab_only: "tab_ok ud m tab \<Longrightarrow> m key = Some x \<Longrightarrow> tab u = Some key \<Longrightarrow> u = ud x"
  by (auto simp: tab_ok_def)

lemma tab_not: "tab_ok ud m tab \<Longrightarrow> m key = None \<Longrightarrow> tab u \<noteq> Some key"
  by (auto simp: tab_ok_def)

text \<open>The tables of the ring: no user data is in both, and resources fit their kind.\<close>

definition idx_ok :: "(nat \<rightharpoonup> op_state) \<Rightarrow> (u64 \<rightharpoonup> nat) \<Rightarrow> (nat \<rightharpoonup> orphaned_op) \<Rightarrow> (u64 \<rightharpoonup> nat) \<Rightarrow> bool" where
  "idx_ok m oby r rby \<longleftrightarrow> tab_ok op_user_data m oby \<and> tab_ok or_user_data r rby
     \<and> (\<forall>u. oby u = None \<or> rby u = None)
     \<and> (\<forall>k op. m k = Some op \<longrightarrow> op_ok (op_res op) (op_multishot op) \<and> (op_multishot op \<noteq> None \<longrightarrow> op_result op = None))
     \<and> (\<forall>k op. r k = Some op \<longrightarrow> op_ok (or_res op) (or_multishot op))"

definition uring_ok :: "uring \<Rightarrow> bool" where
  "uring_ok s \<longleftrightarrow> distinct (map fst (rs_ops s)) \<and> distinct (map fst (rs_orphaned s))
     \<and> idx_ok (map_of (rs_ops s)) (rs_ops_by s) (map_of (rs_orphaned s)) (rs_orphaned_by s)"

datatype status = InFlight | Done "uring_error + nat" | Terminal

definition multishot_status :: "multishot_state option \<Rightarrow> status" where
  "multishot_status m = (case m of None \<Rightarrow> InFlight | Some ms \<Rightarrow> if ms_terminal ms then Terminal else InFlight)"

definition op_status :: "op_state \<Rightarrow> status" where
  "op_status op = (case op_result op of Some r \<Rightarrow> Done r | None \<Rightarrow> multishot_status (op_multishot op))"

abbreviation op_view :: "op_state \<Rightarrow> op_resource \<times> status" where
  "op_view op \<equiv> (op_res op, op_status op)"

abbreviation orphan_view :: "orphaned_op \<Rightarrow> op_resource \<times> status" where
  "orphan_view op \<equiv> (or_res op, multishot_status (or_multishot op))"

definition trk :: "(nat \<rightharpoonup> op_state) \<Rightarrow> (u64 \<rightharpoonup> nat) \<Rightarrow> (nat \<rightharpoonup> orphaned_op) \<Rightarrow> (u64 \<rightharpoonup> nat) \<Rightarrow> u64 \<rightharpoonup> op_resource \<times> status" where
  "trk m oby r rby u =
     (case oby u of
        Some k \<Rightarrow> map_option op_view (m k)
      | None \<Rightarrow> (case rby u of Some k \<Rightarrow> map_option orphan_view (r k) | None \<Rightarrow> None))"

definition tracked :: "uring \<Rightarrow> u64 \<rightharpoonup> op_resource \<times> status" where
  "tracked s = trk (map_of (rs_ops s)) (rs_ops_by s) (map_of (rs_orphaned s)) (rs_orphaned_by s)"

lemma is_complete_status: "op_complete op \<longleftrightarrow> op_status op \<noteq> InFlight"
  by (auto simp: op_complete_def op_status_def multishot_status_def split: option.splits)

lemma op_ok_simps:
  "op_ok res None \<longleftrightarrow> \<not> is_multishot res"
  "op_ok res (Some ms) \<Longrightarrow> is_multishot res"
  by (auto simp: op_ok_def split: multishot_kind.splits)

lemma map_of_update_slab: "map_of al key = Some x \<Longrightarrow> map_of (map (\<lambda>(k, op). (k, if k = key then f op else op)) al) = (map_of al)(key \<mapsto> f x)"
proof (induction al)
  case (Cons p al)
  have "map_of (map (\<lambda>(k, op). (k, if k = key then f op else op)) al) k = map_of al k" if "k \<noteq> key" for k
    using that by (induction al) auto
  then show ?case using Cons by (cases "fst p = key") (auto simp: fun_eq_iff split: prod.splits)
qed simp

lemma fst_update_slab: "map fst (map (\<lambda>(k, op). (k, if k = key then f op else op)) al) = map fst al"
  by (induction al) auto

lemma map_of_append_fresh: "k \<notin> set (map fst al) \<Longrightarrow> map_of (al @ [(k, x)]) = (map_of al)(k \<mapsto> x)"
  by (induction al) (auto simp: fun_eq_iff)

lemmas idx_parts = idx_ok_def [THEN iffD1, THEN conjunct1] idx_ok_def [THEN iffD1, THEN conjunct2, THEN conjunct1]

lemma trk_None: "idx_ok m oby r rby \<Longrightarrow> trk m oby r rby u = None \<longleftrightarrow> oby u = None \<and> rby u = None"
  using tab_lookup [OF idx_parts(1), of m oby r rby u] tab_lookup [OF idx_parts(2), of m oby r rby u]
  by (auto simp: trk_def split: option.splits)

text \<open>The changes that the operations make to the tables, and what they do to the view.\<close>

lemma idx_insert:
  assumes ok: "idx_ok m oby r rby" and key: "m key = None" and u: "u = op_user_data op" "oby u = None" "rby u = None"
    and op: "op_ok (op_res op) (op_multishot op)" "op_result op = None"
  shows "idx_ok (m(key \<mapsto> op)) (oby(u \<mapsto> key)) r rby \<and> trk (m(key \<mapsto> op)) (oby(u \<mapsto> key)) r rby = (trk m oby r rby)(u \<mapsto> op_view op)"
  using assms tab_insert [OF idx_parts(1) [OF ok], of key op] tab_not [OF idx_parts(1) [OF ok] key]
  by (auto simp: idx_ok_def trk_def fun_eq_iff split: option.splits)

lemma idx_remove:
  assumes ok: "idx_ok m oby r rby" and op: "m key = Some op" and u: "u = op_user_data op"
  shows "idx_ok (m(key := None)) (oby(u := None)) r rby \<and> trk (m(key := None)) (oby(u := None)) r rby = (trk m oby r rby)(u := None)"
proof -
  have "rby u = None" using ok tab_entry [OF idx_parts(1) [OF ok] op] u by (metis idx_ok_def option.distinct(1))
  then show ?thesis
    using assms tab_remove [OF idx_parts(1) [OF ok] op] tab_only [OF idx_parts(1) [OF ok] op]
    by (auto simp: idx_ok_def trk_def fun_eq_iff split: option.splits)
qed

lemma idx_update:
  assumes ok: "idx_ok m oby r rby" and op: "m key = Some op" and u: "op_user_data op' = op_user_data op"
    and f: "op_ok (op_res op') (op_multishot op')" "op_multishot op' \<noteq> None \<longrightarrow> op_result op' = None"
  shows "idx_ok (m(key \<mapsto> op')) oby r rby \<and> trk (m(key \<mapsto> op')) oby r rby = (trk m oby r rby)(op_user_data op \<mapsto> op_view op')"
proof
  note lk = tab_entry [OF idx_parts(1) [OF ok] op] and only = tab_only [OF idx_parts(1) [OF ok] op]
  show "idx_ok (m(key \<mapsto> op')) oby r rby" using ok f tab_update [OF idx_parts(1) [OF ok] op u] by (simp add: idx_ok_def)
  show "trk (m(key \<mapsto> op')) oby r rby = (trk m oby r rby)(op_user_data op \<mapsto> op_view op')"
  proof
    fix u
    have "oby u = Some key \<Longrightarrow> u = op_user_data op" by (rule only)
    then show "trk (m(key \<mapsto> op')) oby r rby u = ((trk m oby r rby)(op_user_data op \<mapsto> op_view op')) u"
      using lk by (cases "u = op_user_data op") (auto simp: trk_def split: option.split)
  qed
qed

lemma idx_orphan_insert:
  assumes ok: "idx_ok m oby r rby" and key: "r key = None" and u: "u = or_user_data op" "oby u = None" "rby u = None"
    and op: "op_ok (or_res op) (or_multishot op)"
  shows "idx_ok m oby (r(key \<mapsto> op)) (rby(u \<mapsto> key)) \<and> trk m oby (r(key \<mapsto> op)) (rby(u \<mapsto> key)) = (trk m oby r rby)(u \<mapsto> orphan_view op)"
  using assms tab_insert [OF idx_parts(2) [OF ok], of key op] tab_not [OF idx_parts(2) [OF ok] key]
  by (auto simp: idx_ok_def trk_def fun_eq_iff split: option.splits)

lemma idx_orphan_remove:
  assumes ok: "idx_ok m oby r rby" and op: "r key = Some op" and u: "u = or_user_data op"
  shows "idx_ok m oby (r(key := None)) (rby(u := None)) \<and> trk m oby (r(key := None)) (rby(u := None)) = (trk m oby r rby)(u := None)"
proof -
  have "oby u = None" using ok tab_entry [OF idx_parts(2) [OF ok] op] u by (metis idx_ok_def option.distinct(1))
  then show ?thesis
    using assms tab_remove [OF idx_parts(2) [OF ok] op] tab_only [OF idx_parts(2) [OF ok] op]
    by (auto simp: idx_ok_def trk_def fun_eq_iff split: option.splits)
qed

lemma idx_orphan_update:
  assumes ok: "idx_ok m oby r rby" and op: "r key = Some op" and u: "or_user_data op' = or_user_data op"
    and f: "op_ok (or_res op') (or_multishot op')"
  shows "idx_ok m oby (r(key \<mapsto> op')) rby \<and> trk m oby (r(key \<mapsto> op')) rby = (trk m oby r rby)(or_user_data op \<mapsto> orphan_view op')"
proof -
  note lk = tab_entry [OF idx_parts(2) [OF ok] op] and only = tab_only [OF idx_parts(2) [OF ok] op]
  have n: "oby (or_user_data op) = None" using ok lk by (metis idx_ok_def option.distinct(1))
  have "idx_ok m oby (r(key \<mapsto> op')) rby" using ok f tab_update [OF idx_parts(2) [OF ok] op u] by (simp add: idx_ok_def)
  moreover have "trk m oby (r(key \<mapsto> op')) rby = (trk m oby r rby)(or_user_data op \<mapsto> orphan_view op')"
  proof
    fix u
    have "rby u = Some key \<Longrightarrow> u = or_user_data op" by (rule only)
    then show "trk m oby (r(key \<mapsto> op')) rby u = ((trk m oby r rby)(or_user_data op \<mapsto> orphan_view op')) u"
      using lk n by (cases "u = or_user_data op") (auto simp: trk_def split: option.split)
  qed
  ultimately show ?thesis by blast
qed

section \<open>What the operations do to the view\<close>

text \<open>The contract of the slab's vacant keys.\<close>

definition vacant_ok :: "slab_keys \<Rightarrow> bool" where
  "vacant_ok vacant \<longleftrightarrow> (\<forall>ks. vacant ks \<notin> set ks)"

lemma ring_ok_simps [simp]:
  "uring_ok (s\<lparr>rs_sq := q\<rparr>) = uring_ok s" "uring_ok (s\<lparr>rs_cq := c\<rparr>) = uring_ok s" "uring_ok (s\<lparr>rs_cancel_targets := ct\<rparr>) = uring_ok s"
  "uring_ok (s\<lparr>rs_provide_targets := pt\<rparr>) = uring_ok s" "uring_ok (s\<lparr>rs_cleanup_targets := cl\<rparr>) = uring_ok s"
  "uring_ok (s\<lparr>rs_next_user_data := n\<rparr>) = uring_ok s" "uring_ok (s\<lparr>rs_next_buffer_group := g\<rparr>) = uring_ok s"
  by (simp_all add: uring_ok_def)

lemma tracked_simps [simp]:
  "tracked (s\<lparr>rs_sq := q\<rparr>) = tracked s" "tracked (s\<lparr>rs_cq := c\<rparr>) = tracked s" "tracked (s\<lparr>rs_cancel_targets := ct\<rparr>) = tracked s"
  "tracked (s\<lparr>rs_provide_targets := pt\<rparr>) = tracked s" "tracked (s\<lparr>rs_cleanup_targets := cl\<rparr>) = tracked s"
  "tracked (s\<lparr>rs_next_user_data := n\<rparr>) = tracked s" "tracked (s\<lparr>rs_next_buffer_group := g\<rparr>) = tracked s"
  by (simp_all add: tracked_def)

lemma ring_ok_idx: "uring_ok s \<Longrightarrow> idx_ok (map_of (rs_ops s)) (rs_ops_by s) (map_of (rs_orphaned s)) (rs_orphaned_by s)"
  by (simp add: uring_ok_def)

lemma ring_ok_lookup: "uring_ok s \<Longrightarrow> rs_ops_by s u = Some k \<Longrightarrow> \<exists>op. map_of (rs_ops s) k = Some op \<and> op_user_data op = u"
  using tab_lookup [OF idx_parts(1) [OF ring_ok_idx]] .

lemma ring_ok_entry: "uring_ok s \<Longrightarrow> map_of (rs_ops s) k = Some op \<Longrightarrow> rs_ops_by s (op_user_data op) = Some k"
  using tab_entry [OF idx_parts(1) [OF ring_ok_idx]] .

lemma ring_ok_orphan_lookup: "uring_ok s \<Longrightarrow> rs_orphaned_by s u = Some k \<Longrightarrow> \<exists>op. map_of (rs_orphaned s) k = Some op \<and> or_user_data op = u"
  using tab_lookup [OF idx_parts(2) [OF ring_ok_idx]] .

lemma ring_ok_orphan_entry: "uring_ok s \<Longrightarrow> map_of (rs_orphaned s) k = Some op \<Longrightarrow> rs_orphaned_by s (or_user_data op) = Some k"
  using tab_entry [OF idx_parts(2) [OF ring_ok_idx]] .

lemma ring_ok_disjoint: "uring_ok s \<Longrightarrow> rs_ops_by s u = None \<or> rs_orphaned_by s u = None"
  using ring_ok_idx [of s] by (simp add: idx_ok_def)

lemma ring_ok_op: "uring_ok s \<Longrightarrow> map_of (rs_ops s) k = Some op \<Longrightarrow> op_ok (op_res op) (op_multishot op) \<and> (op_multishot op \<noteq> None \<longrightarrow> op_result op = None)"
  using ring_ok_idx [of s] by (simp add: idx_ok_def)

lemma ring_ok_orphan: "uring_ok s \<Longrightarrow> map_of (rs_orphaned s) k = Some op \<Longrightarrow> op_ok (or_res op) (or_multishot op)"
  using ring_ok_idx [of s] by (simp add: idx_ok_def)

lemma tracked_None: "uring_ok s \<Longrightarrow> tracked s u = None \<longleftrightarrow> rs_ops_by s u = None \<and> rs_orphaned_by s u = None"
  unfolding tracked_def by (rule trk_None [OF ring_ok_idx])

lemma tracked_op: "uring_ok s \<Longrightarrow> map_of (rs_ops s) k = Some op \<Longrightarrow> tracked s (op_user_data op) = Some (op_view op)"
  by (simp add: tracked_def trk_def ring_ok_entry)

lemma tracked_orphan: "uring_ok s \<Longrightarrow> map_of (rs_orphaned s) k = Some op \<Longrightarrow> tracked s (or_user_data op) = Some (orphan_view op)"
  using ring_ok_orphan_entry [of s k op] ring_ok_disjoint [of s "or_user_data op"] by (simp add: tracked_def trk_def)

lemma next_user_data_effect:
  assumes "next_user_data s = (r, s')"
  shows "s' = s\<lparr>rs_next_user_data := max (rs_next_user_data s + 1) 1\<rparr>
    \<and> (\<forall>ud. r = Inr ud \<longrightarrow> ud = rs_next_user_data s \<and> rs_ops_by s ud = None \<and> rs_orphaned_by s ud = None
        \<and> rs_provide_targets s ud = None \<and> ud \<notin> rs_cleanup_targets s)"
  using assms by (auto simp: next_user_data_def Let_def split: if_splits)

lemma insert_op_effect:
  assumes ok: "uring_ok s" and v: "vacant_ok vacant" and i: "insert_op vacant op s = (key, s')"
    and u: "rs_ops_by s (op_user_data op) = None" "rs_orphaned_by s (op_user_data op) = None"
    and op: "op_ok (op_res op) (op_multishot op)" "op_result op = None"
  shows "uring_ok s' \<and> tracked s' = (tracked s)(op_user_data op \<mapsto> op_view op) \<and> map_of (rs_ops s') = (map_of (rs_ops s))(key \<mapsto> op)
    \<and> map_of (rs_ops s) key = None \<and> remove_op (op_user_data op) key s' = s"
proof -
  have "key = vacant (map fst (rs_ops s))" using i by (simp add: insert_op_def Let_def)
  then have f: "key \<notin> set (map fst (rs_ops s))" using v unfolding vacant_ok_def by blast
  have s': "s' = s\<lparr>rs_ops := rs_ops s @ [(key, op)], rs_ops_by := (rs_ops_by s)(op_user_data op \<mapsto> key)\<rparr>"
    using i by (auto simp: insert_op_def Let_def)
  have n: "map_of (rs_ops s) key = None" using f by (simp add: map_of_eq_None_iff)
  have "(rs_ops_by s)(op_user_data op := None) = rs_ops_by s" using u(1) by (simp add: fun_upd_idem)
  moreover have "filter (\<lambda>(k', _). key \<noteq> k') (rs_ops s) = rs_ops s" using f by (intro filter_True) force
  ultimately have "remove_op (op_user_data op) key s' = s" by (simp add: s' remove_op_def AList.delete_eq)
  then show ?thesis
    using idx_insert [OF ring_ok_idx [OF ok] n refl u op] map_of_append_fresh [OF f, of op] ok f n
    by (simp add: s' uring_ok_def tracked_def)
qed

lemma remove_op_effect:
  assumes ok: "uring_ok s" and op: "map_of (rs_ops s) key = Some op"
  shows "uring_ok (remove_op (op_user_data op) key s) \<and> tracked (remove_op (op_user_data op) key s) = (tracked s)(op_user_data op := None)"
  using idx_remove [OF ring_ok_idx [OF ok] op refl] ok by (simp add: remove_op_def uring_ok_def tracked_def delete_conv' distinct_delete)

lemma update_op_effect:
  assumes ok: "uring_ok s" and op: "map_of (rs_ops s) key = Some op" and u: "op_user_data (f op) = op_user_data op"
    and f: "op_ok (op_res (f op)) (op_multishot (f op))" "op_multishot (f op) \<noteq> None \<longrightarrow> op_result (f op) = None"
  shows "uring_ok (update_op key f s) \<and> tracked (update_op key f s) = (tracked s)(op_user_data op \<mapsto> op_view (f op))
    \<and> map_of (rs_ops (update_op key f s)) = (map_of (rs_ops s))(key \<mapsto> f op)"
  using idx_update [OF ring_ok_idx [OF ok] op u f] ok
  by (simp add: update_op_def uring_ok_def tracked_def map_of_update_slab [OF op] fst_update_slab del: map_map)

lemma update_orphan_effect:
  assumes ok: "uring_ok s" and op: "map_of (rs_orphaned s) key = Some op" and u: "or_user_data (f op) = or_user_data op"
    and f: "op_ok (or_res (f op)) (or_multishot (f op))"
  shows "uring_ok (update_orphan key f s) \<and> tracked (update_orphan key f s) = (tracked s)(or_user_data op \<mapsto> orphan_view (f op))
    \<and> map_of (rs_orphaned (update_orphan key f s)) = (map_of (rs_orphaned s))(key \<mapsto> f op)"
  using idx_orphan_update [OF ring_ok_idx [OF ok] op u f] ok
  by (simp add: update_orphan_def uring_ok_def tracked_def map_of_update_slab [OF op] fst_update_slab del: map_map)

lemma remove_orphan_effect:
  assumes ok: "uring_ok s" and op: "map_of (rs_orphaned s) key = Some op" and u: "u = or_user_data op"
  shows "\<exists>s'. slab_remove_orphan key (s\<lparr>rs_orphaned_by := (rs_orphaned_by s)(u := None)\<rparr>) = Some s' \<and> uring_ok s' \<and> tracked s' = (tracked s)(u := None)
    \<and> s' = s\<lparr>rs_orphaned := rs_orphaned s', rs_orphaned_by := rs_orphaned_by s'\<rparr>"
  using idx_orphan_remove [OF ring_ok_idx [OF ok] op u] ok op
  by (simp add: slab_remove_orphan_def uring_ok_def tracked_def delete_conv' distinct_delete)

lemma remove_op_by_effect:
  assumes ok: "uring_ok s" and op: "map_of (rs_ops s) key = Some op" and u: "u = op_user_data op"
  shows "\<exists>s'. slab_remove_op key (s\<lparr>rs_ops_by := (rs_ops_by s)(u := None)\<rparr>) = Some s' \<and> uring_ok s' \<and> tracked s' = (tracked s)(u := None)
    \<and> s' = s\<lparr>rs_ops := rs_ops s', rs_ops_by := rs_ops_by s'\<rparr>"
  using idx_remove [OF ring_ok_idx [OF ok] op u] ok op
  by (simp add: slab_remove_op_def uring_ok_def tracked_def delete_conv' distinct_delete)

lemma orphan_locked_effect:
  assumes ok: "uring_ok s" and v: "vacant_ok vacant" and op: "map_of (rs_ops s) key = Some op" and o: "orphan_locked vacant key s = (fds, t, s')"
  shows "uring_ok s' \<and> tracked s' = (if op_complete op then (tracked s)(op_user_data op := None) else tracked s)
    \<and> t = (if op_complete op then None else Some (op_user_data op))
    \<and> s' = s\<lparr>rs_ops := AList.delete key (rs_ops s), rs_ops_by := (rs_ops_by s)(op_user_data op := None),
              rs_orphaned := rs_orphaned s', rs_orphaned_by := rs_orphaned_by s'\<rparr>"
proof (cases "op_complete op")
  case True
  then show ?thesis using o op remove_op_effect [OF ok op] by (simp add: orphan_locked_def Let_def) (auto simp: remove_op_def)
next
  case False
  let ?s = "remove_op (op_user_data op) key s" and ?u = "op_user_data op"
  let ?o = "\<lparr>or_res = op_res op, or_user_data = ?u, or_multishot = op_multishot op\<rparr>"
  define k where "k = vacant (map fst (rs_orphaned ?s))"
  have s': "s' = ?s\<lparr>rs_orphaned := rs_orphaned ?s @ [(k, ?o)], rs_orphaned_by := (rs_orphaned_by ?s)(?u \<mapsto> k)\<rparr>" "t = Some ?u"
    using o op False by (simp_all add: orphan_locked_def Let_def k_def)
  note re = remove_op_effect [OF ok op]
  have f: "k \<notin> set (map fst (rs_orphaned ?s))" using v unfolding k_def vacant_ok_def by blast
  then have n: "map_of (rs_orphaned ?s) k = None" by (simp add: map_of_eq_None_iff)
  have bys: "rs_ops_by ?s ?u = None" "rs_orphaned_by ?s ?u = None"
    using ring_ok_entry [OF ok op] ring_ok_disjoint [OF ok, of ?u] by (simp_all add: remove_op_def)
  have st: "op_status op = InFlight" using False by (simp add: is_complete_status)
  then have "multishot_status (op_multishot op) = InFlight" by (simp add: op_status_def split: option.splits)
  then have "(tracked ?s)(?u \<mapsto> orphan_view ?o) = tracked s"
    using re tracked_op [OF ok op] st by (auto simp: fun_eq_iff)
  moreover have "op_ok (or_res ?o) (or_multishot ?o)" using ring_ok_op [OF ok op] by simp
  from idx_orphan_insert [where op = ?o, OF ring_ok_idx [OF conjunct1 [OF re]] n _ _ _ this] bys
  have "idx_ok (map_of (rs_ops ?s)) (rs_ops_by ?s) ((map_of (rs_orphaned ?s))(k \<mapsto> ?o)) ((rs_orphaned_by ?s)(?u \<mapsto> k))
    \<and> trk (map_of (rs_ops ?s)) (rs_ops_by ?s) ((map_of (rs_orphaned ?s))(k \<mapsto> ?o)) ((rs_orphaned_by ?s)(?u \<mapsto> k)) = (tracked ?s)(?u \<mapsto> orphan_view ?o)"
    by (simp add: tracked_def)
  ultimately show ?thesis using re False f map_of_append_fresh [OF f, of ?o]
    by (simp add: s' uring_ok_def tracked_def) (simp add: remove_op_def)
qed

section \<open>Safety of what is in flight\<close>

definition is_final :: "cqe \<Rightarrow> bool" where
  "is_final c \<longleftrightarrow> cqe_flags c AND IORING_CQE_F_MORE = 0"

definition is_control :: "sqe \<Rightarrow> bool" where
  "is_control e \<longleftrightarrow> sqe_opcode e \<in> {IORING_OP_ASYNC_CANCEL, IORING_OP_PROVIDE_BUFFERS, IORING_OP_REMOVE_BUFFERS}"

text \<open>The resource holds the memory that the entry names: its address, and no more than its length. A
  multishot receive names no memory; the kernel writes into the buffers of its resource.\<close>

definition owns_memory :: "op_resource \<Rightarrow> sqe \<Rightarrow> bool" where
  "owns_memory r e \<longleftrightarrow> is_multishot r \<or>
     (\<exists>a l. addr_len r = Some (Inr (a, l)) \<and> sqe_addr e = a
        \<and> (if sqe_opcode e = IORING_OP_CONNECT then sqe_off e = ucast l else sqe_len e \<le> l))"

text \<open>The invariant over the view \<open>tr\<close>, the targets of cancellations, provisions and clean-ups, the next user
  data, the entries \<open>live\<close> that are queued or held by the kernel, and the completions \<open>cqs\<close> not yet reaped:
  user data are used once; a completion belongs to an operation that is still in flight, or was
  cancelled; every entry of an operation in \<open>live\<close> has its resource tracked.\<close>

definition uds_ok :: "(u64 \<rightharpoonup> op_resource \<times> status) \<Rightarrow> (u64 \<rightharpoonup> u64) \<Rightarrow> (u64 \<rightharpoonup> u64) \<Rightarrow> u64 \<Rightarrow> sqe list \<Rightarrow> cqe list \<Rightarrow> bool" where
  "uds_ok tr ct pt nxt live cqs \<longleftrightarrow> (\<forall>u\<in>dom tr \<union> dom ct \<union> ran ct \<union> dom pt \<union> sqe_user_data ` set live \<union> cqe_user_data ` set cqs. u < nxt)
     \<and> (\<forall>u. tr u \<noteq> None \<longrightarrow> ct u = None \<and> pt u = None) \<and> (\<forall>u. ct u \<noteq> None \<longrightarrow> pt u = None)"

definition live_ok :: "(u64 \<rightharpoonup> op_resource \<times> status) \<Rightarrow> sqe list \<Rightarrow> bool" where
  "live_ok tr live \<longleftrightarrow> distinct (map sqe_user_data live)
     \<and> (\<forall>e\<in>set live. if is_control e then tr (sqe_user_data e) = None
         else \<exists>r. tr (sqe_user_data e) = Some (r, InFlight) \<and> owns_memory r e \<and> (sqe_ioprio e \<noteq> 0 \<longrightarrow> is_multishot r))"

definition cqs_ok :: "(u64 \<rightharpoonup> op_resource \<times> status) \<Rightarrow> u64 set \<Rightarrow> cqe list \<Rightarrow> bool" where
  "cqs_ok tr lv cqs \<longleftrightarrow> sorted_wrt (\<lambda>c d. is_final c \<longrightarrow> cqe_user_data c \<noteq> cqe_user_data d) cqs
     \<and> (\<forall>c\<in>set cqs. (is_final c \<longrightarrow> cqe_user_data c \<notin> lv)
         \<and> (\<forall>r st. tr (cqe_user_data c) = Some (r, st) \<longrightarrow> st = InFlight \<and> (is_final c \<or> is_multishot r)))"

definition targets_ok :: "(u64 \<rightharpoonup> u64) \<Rightarrow> (u64 \<rightharpoonup> u64) \<Rightarrow> u64 set \<Rightarrow> sqe list \<Rightarrow> cqe list \<Rightarrow> bool" where
  "targets_ok ct pt cl live cqs \<longleftrightarrow>
     (\<forall>u t. ct u = Some t \<longrightarrow> (\<forall>e\<in>set live. sqe_user_data e = u \<longrightarrow> sqe_opcode e = IORING_OP_ASYNC_CANCEL \<and> sqe_addr e = t)
        \<and> (\<forall>c\<in>set cqs. cqe_user_data c = u \<longrightarrow> cqe_res c = 0 \<longrightarrow> t \<notin> sqe_user_data ` set live))
   \<and> (\<forall>u. pt u \<noteq> None \<longrightarrow> u \<notin> cl \<longrightarrow> (\<forall>e\<in>set live. sqe_user_data e = u \<longrightarrow> sqe_opcode e = IORING_OP_PROVIDE_BUFFERS)
        \<and> (\<forall>c\<in>set cqs. cqe_user_data c = u \<longrightarrow> 0 \<le> sint (cqe_res c)))"

definition safe ::
  "(u64 \<rightharpoonup> op_resource \<times> status) \<Rightarrow> (u64 \<rightharpoonup> u64) \<Rightarrow> (u64 \<rightharpoonup> u64) \<Rightarrow> u64 set \<Rightarrow> u64 \<Rightarrow> sqe list \<Rightarrow> cqe list \<Rightarrow> bool" where
  "safe tr ct pt cl nxt live cqs \<longleftrightarrow> uds_ok tr ct pt nxt live cqs \<and> live_ok tr live \<and> cqs_ok tr (sqe_user_data ` set live) cqs
     \<and> targets_ok ct pt cl live cqs"

lemmas safe_defs = safe_def uds_ok_def live_ok_def cqs_ok_def targets_ok_def

lemma safe_new: "0 < nxt \<Longrightarrow> safe Map.empty Map.empty Map.empty {} nxt [] []"
  by (simp add: safe_defs)

lemma safe_fresh:
  assumes "safe tr ct pt cl nxt live cqs"
  shows "tr nxt = None" "ct nxt = None" "pt nxt = None" "\<forall>e\<in>set live. sqe_user_data e \<noteq> nxt" "\<forall>c\<in>set cqs. cqe_user_data c \<noteq> nxt"
    "ct u = Some t \<Longrightarrow> t \<noteq> nxt"
proof -
  have b: "u < nxt" if "u \<in> dom tr \<union> dom ct \<union> ran ct \<union> dom pt \<union> sqe_user_data ` set live \<union> cqe_user_data ` set cqs" for u
    using assms that unfolding safe_def uds_ok_def by blast
  show "tr nxt = None" "ct nxt = None" "pt nxt = None" using b [of nxt] by auto
  show "\<forall>e\<in>set live. sqe_user_data e \<noteq> nxt" "\<forall>c\<in>set cqs. cqe_user_data c \<noteq> nxt" using b by fastforce+
  show "ct u = Some t \<Longrightarrow> t \<noteq> nxt" using b [of t] ranI [of ct u t] by auto
qed

text \<open>Allocation of user data.\<close>

lemma safe_skip: "safe tr ct pt cl nxt live cqs \<Longrightarrow> nxt < n \<Longrightarrow> safe tr ct pt cl n live cqs"
  unfolding safe_def uds_ok_def by (meson less_trans)

lemma safe_track:
  assumes s: "safe tr ct pt cl nxt live cqs" and n: "nxt < n"
  shows "safe (tr(nxt \<mapsto> (r, InFlight))) ct pt cl n live cqs"
  unfolding safe_def
proof (intro conjI)
  note f = safe_fresh [OF s] and s' = safe_skip [OF s n]
  show "uds_ok (tr(nxt \<mapsto> (r, InFlight))) ct pt n live cqs" using s' n f by (auto simp: safe_def uds_ok_def)
  show "live_ok (tr(nxt \<mapsto> (r, InFlight))) live" using s f(4) by (auto simp: safe_def live_ok_def)
  show "cqs_ok (tr(nxt \<mapsto> (r, InFlight))) (sqe_user_data ` set live) cqs" using s f(5) by (auto simp: safe_def cqs_ok_def)
  show "targets_ok ct pt cl live cqs" using s by (simp add: safe_def)
qed

lemma safe_queue:
  assumes s: "safe tr ct pt cl nxt live cqs" and e: "\<not> is_control e" "tr (sqe_user_data e) = Some (r, InFlight)" "owns_memory r e"
      "sqe_ioprio e \<noteq> 0 \<longrightarrow> is_multishot r"
    and f: "\<forall>e'\<in>set live. sqe_user_data e' \<noteq> sqe_user_data e" "\<forall>c\<in>set cqs. cqe_user_data c \<noteq> sqe_user_data e"
      "\<And>u t. ct u = Some t \<Longrightarrow> t \<noteq> sqe_user_data e"
  shows "safe tr ct pt cl nxt (e # live) cqs"
  unfolding safe_def
proof (intro conjI)
  have t: "ct (sqe_user_data e) = None" "pt (sqe_user_data e) = None" "sqe_user_data e < nxt"
    using s e(2) by (auto simp: safe_def uds_ok_def)
  show "uds_ok tr ct pt nxt (e # live) cqs" using s t(3) by (auto simp: safe_def uds_ok_def)
  show "live_ok tr (e # live)" using s e f(1) by (auto simp: safe_def live_ok_def image_iff)
  show "cqs_ok tr (sqe_user_data ` set (e # live)) cqs" using s f(2) by (auto simp: safe_def cqs_ok_def)
  show "targets_ok ct pt cl (e # live) cqs" using s t f(3) by (auto simp: safe_def targets_ok_def)
qed

lemma safe_control:
  assumes s: "safe tr ct pt cl nxt live cqs" and n: "nxt < n" and e: "is_control e" "sqe_user_data e = nxt"
  shows "safe tr ct pt cl n (e # live) cqs"
  unfolding safe_def
proof (intro conjI)
  note f = safe_fresh [OF s] and s' = safe_skip [OF s n]
  show "uds_ok tr ct pt n (e # live) cqs" using s' n e(2) by (auto simp: safe_def uds_ok_def)
  show "live_ok tr (e # live)" using s e f(1,4) by (auto simp: safe_def live_ok_def image_iff)
  show "cqs_ok tr (sqe_user_data ` set (e # live)) cqs" using s e f(5) by (auto simp: safe_def cqs_ok_def)
  show "targets_ok ct pt cl (e # live) cqs" using s e f(2,3,6) by (auto simp: safe_def targets_ok_def)
qed

lemma safe_register_cancel:
  assumes s: "safe tr ct pt cl nxt live cqs" and u: "tr u = None" "pt u = None" "u \<notin> cqe_user_data ` set cqs" "u < nxt" "t < nxt"
    and e: "\<And>e. e \<in> set live \<Longrightarrow> sqe_user_data e = u \<Longrightarrow> sqe_opcode e = IORING_OP_ASYNC_CANCEL \<and> sqe_addr e = t"
  shows "safe tr (ct(u \<mapsto> t)) pt cl nxt live cqs"
  unfolding safe_def
proof (intro conjI)
  have "ran (ct(u \<mapsto> t)) \<subseteq> insert t (ran ct)" by (auto simp: ran_def)
  then show "uds_ok tr (ct(u \<mapsto> t)) pt nxt live cqs" using s u by (auto simp: safe_def uds_ok_def)
  show "targets_ok (ct(u \<mapsto> t)) pt cl live cqs" using s u e by (auto simp: safe_def targets_ok_def)
qed (use s in \<open>simp_all add: safe_def\<close>)

lemma safe_register_provide:
  assumes s: "safe tr ct pt cl nxt live cqs" and u: "tr u = None" "ct u = None" "u \<notin> cqe_user_data ` set cqs" "u < nxt"
    and e: "\<And>e. e \<in> set live \<Longrightarrow> sqe_user_data e = u \<Longrightarrow> u \<in> cl' \<or> sqe_opcode e = IORING_OP_PROVIDE_BUFFERS" and cl: "cl \<subseteq> cl'"
  shows "safe tr ct (pt(u \<mapsto> t)) cl' nxt live cqs"
  unfolding safe_def
proof (intro conjI)
  show "uds_ok tr ct (pt(u \<mapsto> t)) nxt live cqs" using s u by (auto simp: safe_def uds_ok_def)
  show "targets_ok ct (pt(u \<mapsto> t)) cl' live cqs" using s u e cl by (auto simp: safe_def targets_ok_def)
qed (use s in \<open>simp_all add: safe_def\<close>)

lemma safe_unregister_cancel: "safe tr ct pt cl nxt live cqs \<Longrightarrow> safe tr (ct(u := None)) pt cl nxt live cqs"
  by (auto simp: safe_def uds_ok_def targets_ok_def ran_def split: if_splits)

lemma safe_unregister_provide: "safe tr ct pt cl nxt live cqs \<Longrightarrow> cl - {u} \<subseteq> cl' \<Longrightarrow> safe tr ct (pt(u := None)) cl' nxt live cqs"
  by (auto simp: safe_def uds_ok_def targets_ok_def split: if_splits)

text \<open>Results taken, operations forgotten, completions reaped.\<close>

lemma safe_untrack:
  assumes s: "safe tr ct pt cl nxt live cqs" and n: "\<And>e. e \<in> set live \<Longrightarrow> \<not> is_control e \<Longrightarrow> sqe_user_data e \<noteq> u"
  shows "safe (tr(u := None)) ct pt cl nxt live cqs"
  unfolding safe_def
proof (intro conjI)
  show "uds_ok (tr(u := None)) ct pt nxt live cqs" using s by (auto simp: safe_def uds_ok_def)
  show "live_ok (tr(u := None)) live" using s n by (auto simp: safe_def live_ok_def)
  show "cqs_ok (tr(u := None)) (sqe_user_data ` set live) cqs" using s by (auto simp: safe_def cqs_ok_def)
qed (use s in \<open>simp add: safe_def\<close>)

lemma safe_untrack_finished:
  assumes "safe tr ct pt cl nxt live cqs" "tr u = Some (r, st)" "st \<noteq> InFlight"
  shows "safe (tr(u := None)) ct pt cl nxt live cqs"
  using assms by (intro safe_untrack) (auto simp: safe_def live_ok_def)

lemma safe_reaped: "safe tr ct pt cl nxt live (c # cs) \<Longrightarrow> safe tr ct pt cl nxt live cs"
  by (simp add: safe_defs)

lemma safe_finish:
  assumes s: "safe tr ct pt cl nxt live (c # cs)" and c: "is_final c" "tr (cqe_user_data c) = Some (r, InFlight)"
  shows "safe (tr(cqe_user_data c \<mapsto> (r, st))) ct pt cl nxt live cs"
    and "safe (tr(cqe_user_data c := None)) ct pt cl nxt live cs"
proof -
  have "cqs_ok tr (sqe_user_data ` set live) (c # cs)" using s by (simp add: safe_def)
  then have n: "\<forall>e\<in>set live. sqe_user_data e \<noteq> cqe_user_data c" "\<forall>d\<in>set cs. cqe_user_data d \<noteq> cqe_user_data c"
    using c(1) by (auto simp: cqs_ok_def image_iff)
  note s' = safe_reaped [OF s]
  show "safe (tr(cqe_user_data c \<mapsto> (r, st))) ct pt cl nxt live cs"
    unfolding safe_def
  proof (intro conjI)
    show "uds_ok (tr(cqe_user_data c \<mapsto> (r, st))) ct pt nxt live cs" using s s' c(2) by (auto simp: safe_def uds_ok_def)
    show "live_ok (tr(cqe_user_data c \<mapsto> (r, st))) live" using s' n(1) by (auto simp: safe_def live_ok_def)
    show "cqs_ok (tr(cqe_user_data c \<mapsto> (r, st))) (sqe_user_data ` set live) cs" using s' n(2) by (auto simp: safe_def cqs_ok_def)
  qed (use s' in \<open>simp add: safe_def\<close>)
  show "safe (tr(cqe_user_data c := None)) ct pt cl nxt live cs"
    using n(1) by (intro safe_untrack [OF s']) blast
qed

text \<open>The kernel.\<close>

lemma safe_perm:
  assumes "mset live = mset live'"
  shows "safe tr ct pt cl nxt live cqs = safe tr ct pt cl nxt live' cqs"
proof -
  have "set live = set live'" using assms by (rule mset_eq_setD)
  moreover have "distinct (map sqe_user_data live) = distinct (map sqe_user_data live')"
    using assms by (intro mset_eq_imp_distinct_iff) simp
  ultimately show ?thesis by (simp add: safe_defs)
qed

lemma safe_post:
  assumes s: "safe tr ct pt cl nxt (e # live) cqs" and c: "cqe_user_data c = sqe_user_data e"
    and cancel: "sqe_opcode e = IORING_OP_ASYNC_CANCEL \<Longrightarrow> cqe_res c = 0 \<Longrightarrow> sqe_addr e \<notin> sqe_user_data ` set live"
    and provide: "sqe_opcode e = IORING_OP_PROVIDE_BUFFERS \<Longrightarrow> 0 \<le> sint (cqe_res c)"
  shows "is_final c \<Longrightarrow> safe tr ct pt cl nxt live (cqs @ [c])"
    and "\<not> is_final c \<Longrightarrow> sqe_ioprio e \<noteq> 0 \<Longrightarrow> \<not> is_control e \<Longrightarrow> safe tr ct pt cl nxt (e # live) (cqs @ [c])"
proof -
  have n: "\<forall>e'\<in>set live. sqe_user_data e' \<noteq> sqe_user_data e" using s by (auto simp: safe_def live_ok_def image_iff)
  have d: "\<forall>d\<in>set cqs. is_final d \<longrightarrow> cqe_user_data d \<noteq> sqe_user_data e" using s by (auto simp: safe_def cqs_ok_def)
  have t: "tr (sqe_user_data e) = Some (r, st) \<Longrightarrow> st = InFlight \<and> (sqe_ioprio e \<noteq> 0 \<longrightarrow> is_multishot r)" for r st
    using s by (auto simp: safe_def live_ok_def split: if_splits)
  have u: "uds_ok tr ct pt nxt (e # live) (cqs @ [c])" using s c by (auto simp: safe_def uds_ok_def)
  show "safe tr ct pt cl nxt live (cqs @ [c])" if fin: "is_final c"
    unfolding safe_def
  proof (intro conjI)
    show "uds_ok tr ct pt nxt live (cqs @ [c])" using u by (auto simp: uds_ok_def)
    show "live_ok tr live" using s by (auto simp: safe_def live_ok_def)
    show "cqs_ok tr (sqe_user_data ` set live) (cqs @ [c])"
      using s c n d t fin by (auto simp: safe_def cqs_ok_def sorted_wrt_append)
    show "targets_ok ct pt cl live (cqs @ [c])" using s c cancel provide by (auto simp: safe_def targets_ok_def)
  qed
  show "safe tr ct pt cl nxt (e # live) (cqs @ [c])" if m: "\<not> is_final c" "sqe_ioprio e \<noteq> 0" "\<not> is_control e"
    unfolding safe_def
  proof (intro conjI)
    show "live_ok tr (e # live)" using s by (simp add: safe_def)
    show "cqs_ok tr (sqe_user_data ` set (e # live)) (cqs @ [c])"
      using s c d t m by (auto simp: safe_def cqs_ok_def sorted_wrt_append)
    have "ct (sqe_user_data e) = None" "pt (sqe_user_data e) = None"
      using s m(3) by (auto simp: safe_def live_ok_def uds_ok_def)
    then show "targets_ok ct pt cl (e # live) (cqs @ [c])" using s c by (auto simp: safe_def targets_ok_def)
  qed (rule u)
qed

lemma safe_reorder:
  assumes s: "safe tr ct pt cl nxt live (xs @ ys @ c # zs)" and c: "\<And>d. d \<in> set ys \<Longrightarrow> cqe_user_data d \<noteq> cqe_user_data c"
  shows "safe tr ct pt cl nxt live (xs @ c # ys @ zs)"
proof -
  have "set (xs @ ys @ c # zs) = set (xs @ c # ys @ zs)" by auto
  moreover have "sorted_wrt (\<lambda>c d. is_final c \<longrightarrow> cqe_user_data c \<noteq> cqe_user_data d) (xs @ c # ys @ zs)"
    using s c by (fastforce simp: safe_def cqs_ok_def sorted_wrt_append)
  ultimately show ?thesis using s by (simp add: safe_defs)
qed

section \<open>Every operation keeps the invariant\<close>

definition pending_ok :: "uring \<Rightarrow> bool" where
  "pending_ok s \<longleftrightarrow> rs_sqpoll s \<or> unat (sq_pending (rs_sq s)) = length (sq_contents (rs_sq s))"

text \<open>\<open>kern\<close> are the requests that the kernel has taken, \<open>cqs\<close> the completions not yet reaped.\<close>

definition wsafe :: "uring \<Rightarrow> sqe list \<Rightarrow> cqe list \<Rightarrow> bool" where
  "wsafe s kern cqs \<longleftrightarrow> uring_ok s \<and> sq_ok (rs_sq s) \<and> pending_ok s
     \<and> safe (tracked s) (rs_cancel_targets s) (rs_provide_targets s) (rs_cleanup_targets s) (rs_next_user_data s) (sq_contents (rs_sq s) @ kern) cqs"

lemma next_succ:
  fixes n :: u64
  assumes "Suc (unat n) < 2 ^ 64"
  shows "n < max (n + 1) 1 \<and> unat (max (n + 1) 1) = Suc (unat n)"
proof -
  have "n + 1 = of_nat (Suc (unat n))" by simp
  then have u: "unat (n + 1) = Suc (unat n)" using unat_of_nat_lt [where 'a = 64, of "Suc (unat n)"] assms by (simp only:) simp
  then have "1 \<le> n + 1" by (simp add: word_le_nat_alt)
  then show ?thesis using u by (simp add: max_def word_less_nat_alt)
qed

lemma alloc_effect:
  assumes w: "wsafe s kern cqs" and n: "next_user_data s = (r, s')" and user_data_left: "Suc (unat (rs_next_user_data s)) < 2 ^ 64"
  shows "wsafe s' kern cqs \<and> unat (rs_next_user_data s') = Suc (unat (rs_next_user_data s)) \<and> rs_next_user_data s < rs_next_user_data s'
    \<and> s' = s\<lparr>rs_next_user_data := rs_next_user_data s'\<rparr>"
  using next_user_data_effect [OF n] next_succ [OF user_data_left] w safe_skip
  by (auto simp: wsafe_def pending_ok_def)

lemma queue_effect:
  assumes w: "wsafe s kern cqs" and q: "queue_sqe e s = Inr s'"
  shows "sq_ok (rs_sq s') \<and> pending_ok s' \<and> uring_ok s' \<and> s' = s\<lparr>rs_sq := rs_sq s'\<rparr>
    \<and> mset (sq_contents (rs_sq s') @ kern) = mset (e # sq_contents (rs_sq s) @ kern)"
proof -
  obtain q' where q': "queue_sqe_locked e (rs_sq s) = Inr q'" "s' = s\<lparr>rs_sq := q'\<rparr>"
    using q by (auto simp: queue_sqe_def and_then_eq_Inr)
  have ok: "sq_ok (rs_sq s)" using w by (simp add: wsafe_def)
  note a = queue_sqe_appends [OF ok q'(1)]
  have "unat (sq_pending q') = length (sq_contents q')" if "unat (sq_pending (rs_sq s)) = length (sq_contents (rs_sq s))"
  proof -
    have "length (sq_contents q') \<le> unat (sq_entries q')" "unat (sq_entries q') < 2 ^ 32"
      using sq_contents_bound [of q'] ring_size_pos [of "sq_entries q'" "sq_mask q'"] a by (auto simp: sq_ok_def)
    then have "Suc (unat (sq_pending (rs_sq s))) < 2 ^ 32" using a that by (simp del: length_sq_contents)
    from unat_succ32 [OF this] show ?thesis using a that by (simp del: length_sq_contents)
  qed
  then show ?thesis using a q'(2) w by (auto simp: wsafe_def pending_ok_def)
qed

lemma wsafe_perm:
  assumes "safe (tracked s) (rs_cancel_targets s) (rs_provide_targets s) (rs_cleanup_targets s) (rs_next_user_data s) live cqs"
    "mset (sq_contents (rs_sq s) @ kern) = mset live" "uring_ok s" "sq_ok (rs_sq s)" "pending_ok s"
  shows "wsafe s kern cqs"
  using assms safe_perm [OF assms(2)] by (simp add: wsafe_def)

lemma wsafe_safe:
  "wsafe s kern cqs \<Longrightarrow>
    safe (tracked s) (rs_cancel_targets s) (rs_provide_targets s) (rs_cleanup_targets s) (rs_next_user_data s) (sq_contents (rs_sq s) @ kern) cqs"
  by (simp add: wsafe_def)

text \<open>A control entry, with or without its registration.\<close>

lemma queue_control_effect:
  assumes w: "wsafe s kern cqs" and n: "next_user_data s = (Inr ud, s1)" and user_data_left: "Suc (unat (rs_next_user_data s)) < 2 ^ 64"
    and e: "is_control e" "sqe_user_data e = ud" and q: "queue_sqe e s1 = Inr s2"
  shows "wsafe s2 kern cqs \<and> unat (rs_next_user_data s2) = Suc (unat (rs_next_user_data s))
    \<and> s2 = s\<lparr>rs_next_user_data := rs_next_user_data s2, rs_sq := rs_sq s2\<rparr>
    \<and> (sqe_opcode e = IORING_OP_ASYNC_CANCEL \<longrightarrow> sqe_addr e < rs_next_user_data s2 \<longrightarrow>
        wsafe (s2\<lparr>rs_cancel_targets := (rs_cancel_targets s2)(ud \<mapsto> sqe_addr e)\<rparr>) kern cqs)
    \<and> (sqe_opcode e = IORING_OP_PROVIDE_BUFFERS \<longrightarrow> wsafe (s2\<lparr>rs_provide_targets := (rs_provide_targets s2)(ud \<mapsto> t)\<rparr>) kern cqs)
    \<and> wsafe (s2\<lparr>rs_provide_targets := (rs_provide_targets s2)(ud \<mapsto> t), rs_cleanup_targets := insert ud (rs_cleanup_targets s2)\<rparr>) kern cqs"
proof -
  note a = alloc_effect [OF w n user_data_left]
  then have w1: "wsafe s1 kern cqs" by blast
  note qe = queue_effect [OF w1 q]
  have ud: "ud = rs_next_user_data s" using next_user_data_effect [OF n] by simp
  note sf = wsafe_safe [OF w]
  have s1: "s1 = s\<lparr>rs_next_user_data := rs_next_user_data s1\<rparr>" "rs_next_user_data s < rs_next_user_data s1" using a by blast+
  have s2: "s2 = s\<lparr>rs_next_user_data := rs_next_user_data s1, rs_sq := rs_sq s2\<rparr>" using qe s1(1) by (metis uring.surjective uring.update_convs)
  have same: "tracked s2 = tracked s" "rs_cancel_targets s2 = rs_cancel_targets s" "rs_provide_targets s2 = rs_provide_targets s"
    "rs_cleanup_targets s2 = rs_cleanup_targets s" "rs_next_user_data s2 = rs_next_user_data s1"
    by (subst s2, simp)+
  have live: "mset (sq_contents (rs_sq s2) @ kern) = mset (e # sq_contents (rs_sq s) @ kern)"
  proof -
    have "rs_sq s1 = rs_sq s" by (subst s1(1)) simp
    then show ?thesis using qe by simp
  qed
  have c: "safe (tracked s2) (rs_cancel_targets s2) (rs_provide_targets s2) (rs_cleanup_targets s2) (rs_next_user_data s2) (e # sq_contents (rs_sq s) @ kern) cqs"
    unfolding same using safe_control [OF sf s1(2) e(1)] e(2) ud by simp
  have ok: "uring_ok s2" "sq_ok (rs_sq s2)" "pending_ok s2" using qe by blast+
  have w2: "wsafe s2 kern cqs" by (rule wsafe_perm [OF c live ok])
  note f = safe_fresh [OF sf]
  have u: "tracked s2 ud = None" "rs_cancel_targets s2 ud = None" "rs_provide_targets s2 ud = None" "ud \<notin> cqe_user_data ` set cqs" "ud < rs_next_user_data s2"
    using f s1(2) unfolding same ud by auto
  have only: "e' = e" if "e' \<in> set (e # sq_contents (rs_sq s) @ kern)" "sqe_user_data e' = ud" for e'
    using that f(4) e(2) ud by auto
  have can: "wsafe (s2\<lparr>rs_cancel_targets := (rs_cancel_targets s2)(ud \<mapsto> sqe_addr e)\<rparr>) kern cqs"
    if "sqe_opcode e = IORING_OP_ASYNC_CANCEL" "sqe_addr e < rs_next_user_data s2"
    using safe_register_cancel [OF c u(1,3,4,5) that(2)] only that(1) live ok by (intro wsafe_perm [where live = "e # sq_contents (rs_sq s) @ kern"]) (auto simp: pending_ok_def)
  have pro: "wsafe (s2\<lparr>rs_provide_targets := (rs_provide_targets s2)(ud \<mapsto> t)\<rparr>) kern cqs" if "sqe_opcode e = IORING_OP_PROVIDE_BUFFERS"
    using safe_register_provide [OF c u(1,2,4,5), of "rs_cleanup_targets s2" t] only that live ok
    by (intro wsafe_perm [where live = "e # sq_contents (rs_sq s) @ kern"]) (auto simp: pending_ok_def)
  have cle: "wsafe (s2\<lparr>rs_provide_targets := (rs_provide_targets s2)(ud \<mapsto> t), rs_cleanup_targets := insert ud (rs_cleanup_targets s2)\<rparr>) kern cqs"
    using safe_register_provide [OF c u(1,2,4,5), of "insert ud (rs_cleanup_targets s2)" t] live ok
    by (intro wsafe_perm [where live = "e # sq_contents (rs_sq s) @ kern"]) (auto simp: pending_ok_def)
  show ?thesis using w2 can pro cle a s2 same(5) by auto
qed

text \<open>Starting an operation. On success the new operation is tracked and its entry queued; on failure nothing
  has changed but the counter.\<close>

lemma queue_op_effect:
  assumes w: "wsafe s kern cqs" and v: "vacant_ok vacant" and n: "next_user_data s = (Inr ud, s1)" and user_data_left: "Suc (unat (rs_next_user_data s)) < 2 ^ 64"
    and i: "insert_op vacant op s1 = (key, s2)" and op: "op_user_data op = ud" "op_result op = None" "op_ok (op_res op) (op_multishot op)" "op_status op = InFlight"
  shows "wsafe s2 kern cqs \<and> tracked s2 = (tracked s)(ud \<mapsto> (op_res op, InFlight)) \<and> map_of (rs_ops s2) = (map_of (rs_ops s))(key \<mapsto> op)
    \<and> map_of (rs_ops s) key = None \<and> remove_op ud key s2 = s1 \<and> wsafe s1 kern cqs
    \<and> s2 = s\<lparr>rs_next_user_data := rs_next_user_data s2, rs_ops := rs_ops s2, rs_ops_by := rs_ops_by s2\<rparr>
    \<and> unat (rs_next_user_data s2) = Suc (unat (rs_next_user_data s)) \<and> ud = rs_next_user_data s
    \<and> (\<forall>e s3. sqe_user_data e = ud \<longrightarrow> \<not> is_control e \<longrightarrow> owns_memory (op_res op) e \<longrightarrow> (sqe_ioprio e \<noteq> 0 \<longrightarrow> is_multishot (op_res op)) \<longrightarrow>
        queue_sqe e s2 = Inr s3 \<longrightarrow> wsafe s3 kern cqs \<and> s3 = s2\<lparr>rs_sq := rs_sq s3\<rparr>)"
proof -
  note a = alloc_effect [OF w n user_data_left] and ne = next_user_data_effect [OF n] and sf = wsafe_safe [OF w]
  have w1: "wsafe s1 kern cqs" and lt: "rs_next_user_data s < rs_next_user_data s1" and s1: "s1 = s\<lparr>rs_next_user_data := rs_next_user_data s1\<rparr>"
    using a by blast+
  have ok1: "uring_ok s1" using w1 by (simp add: wsafe_def)
  have ud: "ud = rs_next_user_data s" and fr: "rs_ops_by s ud = None" "rs_orphaned_by s ud = None" using ne by blast+
  have fr1: "rs_ops_by s1 (op_user_data op) = None" "rs_orphaned_by s1 (op_user_data op) = None" by (subst s1, simp add: fr op)+
  note ie = insert_op_effect [OF ok1 v i fr1 op(3,2)]
  have s2: "s2 = s1\<lparr>rs_ops := rs_ops s2, rs_ops_by := rs_ops_by s2\<rparr>" using i by (auto simp: insert_op_def Let_def)
  have t1: "tracked s1 = tracked s" "rs_ops s1 = rs_ops s" by (subst s1, simp)+
  have t2: "tracked s2 = (tracked s)(ud \<mapsto> (op_res op, InFlight))" using ie op t1 by simp
  have same: "rs_cancel_targets s2 = rs_cancel_targets s" "rs_provide_targets s2 = rs_provide_targets s" "rs_cleanup_targets s2 = rs_cleanup_targets s"
    "rs_next_user_data s2 = rs_next_user_data s1" "rs_sq s2 = rs_sq s" "rs_sqpoll s2 = rs_sqpoll s"
    by (subst s2, subst s1, simp)+
  have sf2: "safe (tracked s2) (rs_cancel_targets s2) (rs_provide_targets s2) (rs_cleanup_targets s2) (rs_next_user_data s2) (sq_contents (rs_sq s2) @ kern) cqs"
    unfolding same t2 ud by (rule safe_track [OF sf lt])
  have w2: "wsafe s2 kern cqs" using sf2 ie w by (simp add: wsafe_def same pending_ok_def)
  note f = safe_fresh [OF sf]
  have "wsafe s3 kern cqs \<and> s3 = s2\<lparr>rs_sq := rs_sq s3\<rparr>"
    if e: "sqe_user_data e = ud" "\<not> is_control e" "owns_memory (op_res op) e" "sqe_ioprio e \<noteq> 0 \<longrightarrow> is_multishot (op_res op)" and q: "queue_sqe e s2 = Inr s3" for e s3
  proof -
    note qe = queue_effect [OF w2 q]
    have s3: "s3 = s2\<lparr>rs_sq := rs_sq s3\<rparr>" using qe by blast
    have "safe (tracked s2) (rs_cancel_targets s2) (rs_provide_targets s2) (rs_cleanup_targets s2) (rs_next_user_data s2) (e # sq_contents (rs_sq s2) @ kern) cqs"
      by (rule safe_queue [OF sf2 e(2) _ e(3,4)]) (use f(4,5,6) in \<open>auto simp: e(1) t2 ud same\<close>)
    then have "safe (tracked s3) (rs_cancel_targets s3) (rs_provide_targets s3) (rs_cleanup_targets s3) (rs_next_user_data s3) (e # sq_contents (rs_sq s2) @ kern) cqs"
      by (subst (1 2 3 4 5) s3) simp
    then show ?thesis using wsafe_perm qe s3 by blast
  qed
  moreover have "s2 = s\<lparr>rs_next_user_data := rs_next_user_data s2, rs_ops := rs_ops s2, rs_ops_by := rs_ops_by s2\<rparr>"
    by (subst s2, subst s1) (simp add: same)
  ultimately show ?thesis using w2 t2 ie op(1) t1 w1 a ud same(4) by simp
qed

text \<open>What a start leaves of the rest of the ring; \<open>k\<close> is the key of the new operation.\<close>

definition grows :: "op_resource \<Rightarrow> uring \<Rightarrow> uring \<Rightarrow> nat option \<Rightarrow> bool" where
  "grows res s s' k \<longleftrightarrow> rs_cancel_targets s' = rs_cancel_targets s \<and> rs_cq s' = rs_cq s
     \<and> (\<forall>k op. map_of (rs_ops s) k = Some op \<longrightarrow> map_of (rs_ops s') k = Some op)
     \<and> (\<forall>u. u \<noteq> rs_next_user_data s \<longrightarrow> rs_ops_by s' u = rs_ops_by s u)
     \<and> (tracked s' = tracked s \<or> tracked s' = (tracked s)(rs_next_user_data s \<mapsto> (res, InFlight)))
     \<and> (\<forall>key. k = Some key \<longrightarrow> (\<exists>op. map_of (rs_ops s') key = Some op \<and> op_user_data op = rs_next_user_data s)
          \<and> map_of (rs_ops s) key = None \<and> tracked s' (rs_next_user_data s) = Some (res, InFlight))"

lemma grows_alloc: "next_user_data s = (r, s') \<Longrightarrow> grows res s s' None"
  using next_user_data_effect [of s r s'] by (auto simp: grows_def)

lemma insert_op_by: "insert_op vacant op s = (key, s') \<Longrightarrow> rs_ops_by s' = (rs_ops_by s)(op_user_data op \<mapsto> key) \<and> rs_cq s' = rs_cq s"
  by (auto simp: insert_op_def Let_def)

lemma start_op_effect:
  assumes w: "wsafe s kern cqs" and v: "vacant_ok vacant" and user_data_left: "Suc (unat (rs_next_user_data s)) < 2 ^ 64"
    and res: "\<not> is_multishot res" and opc: "opc \<notin> {IORING_OP_ASYNC_CANCEL, IORING_OP_PROVIDE_BUFFERS, IORING_OP_REMOVE_BUFFERS}"
    and len: "\<And>a l. addr_len res = Some (Inr (a, l)) \<Longrightarrow> len \<le> l"
    and st: "start_op vacant opc fd res off len rw wk s = Some (out, s')"
  shows "wsafe s' kern cqs \<and> unat (rs_next_user_data s') = Suc (unat (rs_next_user_data s))
    \<and> grows res s s' (case out of Inl _ \<Rightarrow> None | Inr key \<Rightarrow> Some key) \<and> (\<forall>e r. out = Inl (e, r) \<longrightarrow> r = res)"
proof -
  obtain r1 s1 where n: "next_user_data s = (r1, s1)" by fastforce
  note a = alloc_effect [OF w n user_data_left]
  show ?thesis
  proof (cases r1)
    case (Inl e)
    then show ?thesis using st n a grows_alloc [OF n] by (auto simp: start_op_def)
  next
    case (Inr ud)
    let ?op = "\<lparr>op_res = res, op_result = None, op_waker = Some wk, op_user_data = ud, op_multishot = None\<rparr>"
    obtain key s2 where i: "insert_op vacant ?op s1 = (key, s2)" by fastforce
    have "op_ok (op_res ?op) (op_multishot ?op)" "op_status ?op = InFlight"
      using res by (simp_all add: op_ok_simps op_status_def multishot_status_def)
    note qo = queue_op_effect [OF w v n [unfolded Inr] user_data_left i _ _ this, simplified]
    have undo: "remove_op ud key s2 = s1" "wsafe s1 kern cqs" "ud = rs_next_user_data s" using qo by blast+
    have cq: "rs_cq s2 = rs_cq s" using insert_op_by [OF i] next_user_data_effect [OF n] by auto
    have by2: "u \<noteq> ud \<Longrightarrow> rs_ops_by s2 u = rs_ops_by s u" for u using insert_op_by [OF i] next_user_data_effect [OF n] by auto
    have ct: "rs_cancel_targets s2 = rs_cancel_targets s" using i next_user_data_effect [OF n] by (auto simp: insert_op_def Let_def)
    obtain ar where ar: "addr_len res = Some ar" using st n Inr i by (auto simp: start_op_def split: option.splits)
    show ?thesis
    proof (cases ar)
      case (Inl e)
      then show ?thesis using st n Inr i ar undo a grows_alloc [OF n, of res] \<open>r1 = Inr ud\<close> by (auto simp: start_op_def)
    next
      case ar': (Inr p)
      obtain addr rlen where p: "p = (addr, rlen)" by fastforce
      define e where "e = \<lparr>sqe_opcode = opc, sqe_flags = of_bool (fixed_file_index res \<noteq> None), sqe_ioprio = 0,
        sqe_fd = (case fixed_file_index res of None \<Rightarrow> fd | Some i \<Rightarrow> i),
        sqe_off = (if opc = IORING_OP_CONNECT then ucast rlen else off), sqe_addr = addr,
        sqe_len = (if opc = IORING_OP_CONNECT then 0 else if len = 0 then rlen else len),
        sqe_rw_flags = rw, sqe_user_data = ud, sqe_buf_index = buffer_index res, sqe_personality = 0, sqe_splice_fd_in = 0\<rparr>"
      have e: "sqe_user_data e = ud" "\<not> is_control e" "owns_memory res e" "sqe_ioprio e = 0"
        using opc ar ar' p len [of addr rlen] by (auto simp: e_def is_control_def owns_memory_def)
      have st': "(case queue_sqe e s2 of Inl er \<Rightarrow> Some (Inl (er, res), remove_op ud key s2) | Inr s \<Rightarrow> Some (Inr key, s)) = Some (out, s')"
        using st by (simp add: start_op_def n Inr i ar ar' p e_def)
      show ?thesis
      proof (cases "queue_sqe e s2")
        case (Inl er)
        then show ?thesis using st' undo a grows_alloc [OF n, of res] by auto
      next
        case q: (Inr s3)
        then have o: "out = Inr key" "s' = s3" using st' by simp_all
        from qo e q have w3: "wsafe s3 kern cqs" and s3: "s3 = s2\<lparr>rs_sq := rs_sq s3\<rparr>" by blast+
        have eqs: "tracked s3 = tracked s2" "rs_ops s3 = rs_ops s2" "rs_ops_by s3 = rs_ops_by s2" "rs_next_user_data s3 = rs_next_user_data s2"
            "rs_cancel_targets s3 = rs_cancel_targets s" "rs_cq s3 = rs_cq s"
          by (subst s3, simp add: ct cq)+
        show ?thesis using w3 qo by2 cq by (auto simp: o eqs grows_def)
      qed
    qed
  qed
qed

lemma queue_data_effect:
  assumes w: "wsafe s kern cqs" and q: "queue_sqe e s = Inr s'"
    and e: "\<not> is_control e" "tracked s (sqe_user_data e) = Some (r, InFlight)" "owns_memory r e" "sqe_ioprio e \<noteq> 0 \<longrightarrow> is_multishot r"
    and f: "\<forall>e'\<in>set (sq_contents (rs_sq s) @ kern). sqe_user_data e' \<noteq> sqe_user_data e" "\<forall>c\<in>set cqs. cqe_user_data c \<noteq> sqe_user_data e"
      "\<And>u t. rs_cancel_targets s u = Some t \<Longrightarrow> t \<noteq> sqe_user_data e"
  shows "wsafe s' kern cqs \<and> s' = s\<lparr>rs_sq := rs_sq s'\<rparr>"
proof -
  note qe = queue_effect [OF w q]
  have s': "s' = s\<lparr>rs_sq := rs_sq s'\<rparr>" using qe by blast
  have "safe (tracked s) (rs_cancel_targets s) (rs_provide_targets s) (rs_cleanup_targets s) (rs_next_user_data s) (e # sq_contents (rs_sq s) @ kern) cqs"
    by (rule safe_queue [OF wsafe_safe [OF w] e f])
  then have "safe (tracked s') (rs_cancel_targets s') (rs_provide_targets s') (rs_cleanup_targets s') (rs_next_user_data s') (e # sq_contents (rs_sq s) @ kern) cqs"
    by (subst (1 2 3 4 5) s') simp
  then show ?thesis using wsafe_perm qe s' by blast
qed

lemma queue_sqe_room:
  assumes "sq_ok (rs_sq s)" "queue_sqe e s = Inl er"
  shows "length (sq_contents (rs_sq s)) = unat (sq_entries (rs_sq s))"
  using assms queue_sqe_full [of "rs_sq s" e er] by (cases "queue_sqe_locked e (rs_sq s)") (auto simp: queue_sqe_def)

lemma start_multishot_accept_effect:
  assumes w: "wsafe s kern cqs" and v: "vacant_ok vacant" and user_data_left: "Suc (unat (rs_next_user_data s)) < 2 ^ 64"
    and st: "start_multishot_accept vacant fd wk s = (out, s')"
  shows "wsafe s' kern cqs \<and> unat (rs_next_user_data s') \<le> Suc (unat (rs_next_user_data s)) \<and> unat (rs_next_user_data s) \<le> unat (rs_next_user_data s')
    \<and> grows MultishotAccept s s' (case out of Inl _ \<Rightarrow> None | Inr key \<Rightarrow> Some key)"
proof (cases "sq_space_locked (rs_sq s) < 1")
  case True
  then show ?thesis using st w by (auto simp: start_multishot_accept_def grows_def)
next
  case sp: False
  obtain r1 s1 where n: "next_user_data s = (r1, s1)" by fastforce
  note a = alloc_effect [OF w n user_data_left]
  show ?thesis
  proof (cases r1)
    case (Inl e)
    then show ?thesis using st sp n a grows_alloc [OF n] by (auto simp: start_multishot_accept_def)
  next
    case (Inr ud)
    let ?op = "\<lparr>op_res = MultishotAccept, op_result = None, op_waker = Some wk, op_user_data = ud,
      op_multishot = Some \<lparr>ms_kind = KindAccept, ms_events = [], ms_terminal = False, ms_cleanup_complete = True, ms_cleanup_user_data = None\<rparr>\<rparr>"
    let ?e = "sqe_of IORING_OP_ACCEPT 0 IORING_ACCEPT_MULTISHOT fd 0 0 0 ACCEPT_FLAGS ud 0"
    obtain key s2 where i: "insert_op vacant ?op s1 = (key, s2)" by fastforce
    have "op_ok (op_res ?op) (op_multishot ?op)" "op_status ?op = InFlight"
      by (simp_all add: op_ok_def op_status_def multishot_status_def)
    note qo = queue_op_effect [OF w v n [unfolded Inr] user_data_left i _ _ this, simplified]
    have undo: "remove_op ud key s2 = s1" "wsafe s1 kern cqs" "ud = rs_next_user_data s" using qo by blast+
    have s2: "rs_cq s2 = rs_cq s" "rs_cancel_targets s2 = rs_cancel_targets s" "\<And>u. u \<noteq> ud \<Longrightarrow> rs_ops_by s2 u = rs_ops_by s u"
      using i next_user_data_effect [OF n] by (auto simp: insert_op_def Let_def)
    have e: "sqe_user_data ?e = ud" "\<not> is_control ?e" "owns_memory MultishotAccept ?e"
      by (simp_all add: sqe_of_def is_control_def owns_memory_def IORING_OP_ACCEPT_def IORING_OP_ASYNC_CANCEL_def IORING_OP_PROVIDE_BUFFERS_def IORING_OP_REMOVE_BUFFERS_def)
    have st': "(case queue_sqe ?e s2 of Inl er \<Rightarrow> (Inl er, remove_op ud key s2) | Inr s \<Rightarrow> (Inr key, s)) = (out, s')"
      using st sp by (simp add: start_multishot_accept_def n Inr i)
    show ?thesis
    proof (cases "queue_sqe ?e s2")
      case (Inl er)
      then show ?thesis using st' undo a grows_alloc [OF n] by auto
    next
      case q: (Inr s3)
      then have o: "out = Inr key" "s' = s3" using st' by simp_all
      from qo e q have w3: "wsafe s3 kern cqs" and s3: "s3 = s2\<lparr>rs_sq := rs_sq s3\<rparr>" by simp_all
      have eqs: "tracked s3 = tracked s2" "rs_ops s3 = rs_ops s2" "rs_ops_by s3 = rs_ops_by s2" "rs_next_user_data s3 = rs_next_user_data s2"
          "rs_cancel_targets s3 = rs_cancel_targets s" "rs_cq s3 = rs_cq s"
        by (subst s3, simp add: s2)+
      show ?thesis using w3 qo s2 by (auto simp: o eqs grows_def)
    qed
  qed
qed
end
