(* ===== verification/Uring_Steps.thy ===== *)
theory Uring_Steps
  imports Uring_Safety
begin

text \<open>
  Every operation of the completion ring keeps the invariant of \<open>Uring_Safety\<close>: starting, submitting,
  reaping, refills and clean-ups, taking results, orphaning and cancelling; and so does the kernel when
  it writes into the buffers of an operation.
\<close>

section \<open>Multishot receive\<close>

lemma next_user_data_group:
  "next_user_data s = (r, s1) \<Longrightarrow> next_user_data (s\<lparr>rs_next_buffer_group := g\<rparr>) = (r, s1\<lparr>rs_next_buffer_group := g\<rparr>)"
  by (auto simp: next_user_data_def Let_def split: if_splits)

lemma wsafe_group [simp]: "wsafe (s\<lparr>rs_next_buffer_group := g\<rparr>) kern cqs = wsafe s kern cqs"
  by (simp add: wsafe_def pending_ok_def)

lemma opcodes_differ [simp]:
  "IORING_OP_RECV \<noteq> IORING_OP_ASYNC_CANCEL" "IORING_OP_RECV \<noteq> IORING_OP_PROVIDE_BUFFERS" "IORING_OP_RECV \<noteq> IORING_OP_REMOVE_BUFFERS"
  by (simp_all add: IORING_OP_RECV_def IORING_OP_ASYNC_CANCEL_def IORING_OP_PROVIDE_BUFFERS_def IORING_OP_REMOVE_BUFFERS_def)

text \<open>The two entries of a multishot receive, once the operation is in its slab as \<open>ud\<close>.\<close>

lemma recv_entries_effect:
  assumes w: "wsafe s kern cqs" and t: "tracked s ud = Some (MultishotRecv b, InFlight)" and user_data_left: "Suc (unat (rs_next_user_data s)) < 2 ^ 64"
    and sp: "length (sq_contents (rs_sq s)) + 2 \<le> unat (sq_entries (rs_sq s))"
    and fr: "\<forall>e\<in>set (sq_contents (rs_sq s) @ kern). sqe_user_data e \<noteq> ud" "\<forall>c\<in>set cqs. cqe_user_data c \<noteq> ud"
      "\<And>u t. rs_cancel_targets s u = Some t \<Longrightarrow> t \<noteq> ud"
    and n: "next_user_data s = (Inr control, s1)"
    and e1: "e1 = sqe_of IORING_OP_PROVIDE_BUFFERS fl pr cnt off addr len rw control grp"
    and e2: "e2 = sqe_of IORING_OP_RECV fl' pr' fd off' addr' len' rw' ud grp"
  shows "\<exists>s2 s4. queue_sqe e1 s1 = Inr s2 \<and> queue_sqe e2 (s2\<lparr>rs_provide_targets := (rs_provide_targets s2)(control \<mapsto> ud)\<rparr>) = Inr s4
    \<and> wsafe s4 kern cqs \<and> unat (rs_next_user_data s4) = Suc (unat (rs_next_user_data s))
    \<and> s4 = s\<lparr>rs_next_user_data := rs_next_user_data s4, rs_sq := rs_sq s4, rs_provide_targets := rs_provide_targets s4\<rparr>"
proof -
  note a = alloc_effect [OF w n user_data_left]
  have w1: "wsafe s1 kern cqs" and s1: "s1 = s\<lparr>rs_next_user_data := rs_next_user_data s1\<rparr>" using a by blast+
  have sq1: "rs_sq s1 = rs_sq s" by (subst s1) simp
  have ok: "sq_ok (rs_sq s)" using w by (simp add: wsafe_def)
  obtain s2 where q1: "queue_sqe e1 s1 = Inr s2"
    using queue_sqe_room [of s1 e1] ok sp by (cases "queue_sqe e1 s1") (auto simp: sq1 simp del: length_sq_contents)
  have c: "is_control e1" "sqe_user_data e1 = control" "sqe_opcode e1 = IORING_OP_PROVIDE_BUFFERS" by (simp_all add: e1 sqe_of_def is_control_def)
  note qc = queue_control_effect [OF w n user_data_left c(1,2) q1, of ud]
  have s2: "s2 = s\<lparr>rs_next_user_data := rs_next_user_data s2, rs_sq := rs_sq s2\<rparr>" "unat (rs_next_user_data s2) = Suc (unat (rs_next_user_data s))"
    using qc by blast+
  let ?s3 = "s2\<lparr>rs_provide_targets := (rs_provide_targets s2)(control \<mapsto> ud)\<rparr>"
  have w3: "wsafe ?s3 kern cqs" using qc c(3) by blast
  have len3: "sq_ok (rs_sq ?s3)" "length (sq_contents (rs_sq ?s3)) = Suc (length (sq_contents (rs_sq s)))" "sq_entries (rs_sq ?s3) = sq_entries (rs_sq s)"
    and mem3: "set (sq_contents (rs_sq ?s3) @ kern) = insert e1 (set (sq_contents (rs_sq s) @ kern))"
  proof -
    obtain q' where q': "queue_sqe_locked e1 (rs_sq s) = Inr q'" "rs_sq s2 = q'" using q1 by (auto simp: queue_sqe_def and_then_eq_Inr sq1)
    note ap = queue_sqe_appends [OF ok q'(1)]
    show "sq_ok (rs_sq ?s3)" "sq_entries (rs_sq ?s3) = sq_entries (rs_sq s)"
      "length (sq_contents (rs_sq ?s3)) = Suc (length (sq_contents (rs_sq s)))" "set (sq_contents (rs_sq ?s3) @ kern) = insert e1 (set (sq_contents (rs_sq s) @ kern))"
      using ap q'(2) by (simp_all del: length_sq_contents)
  qed
  obtain s4 where q2: "queue_sqe e2 ?s3 = Inr s4"
    using queue_sqe_room [OF len3(1), of e2] len3 sp by (cases "queue_sqe e2 ?s3") (auto simp del: length_sq_contents)
  have ud: "ud \<noteq> control"
    using t safe_fresh(1) [OF wsafe_safe [OF w]] next_user_data_effect [OF n] by auto
  have t3: "tracked s2 = tracked s" "rs_cancel_targets s2 = rs_cancel_targets s" by (subst s2, simp)+
  have d: "\<not> is_control e2" "sqe_user_data e2 = ud" "owns_memory (MultishotRecv b) e2" by (simp_all add: e2 sqe_of_def is_control_def owns_memory_def)
  have w4: "wsafe s4 kern cqs \<and> s4 = ?s3\<lparr>rs_sq := rs_sq s4\<rparr>"
    by (rule queue_data_effect [OF w3 q2 d(1), of "MultishotRecv b"]) (use t d fr ud mem3 c(2) in \<open>auto simp: t3\<close>)
  then have s4: "s4 = ?s3\<lparr>rs_sq := rs_sq s4\<rparr>" by blast
  have "rs_next_user_data s4 = rs_next_user_data s2" by (subst s4) simp
  moreover have "s4 = s\<lparr>rs_next_user_data := rs_next_user_data s4, rs_sq := rs_sq s4, rs_provide_targets := rs_provide_targets s4\<rparr>"
    by (subst s4, subst s2(1), subst (2) s4, subst (4) s4) simp
  ultimately show ?thesis using w4 q1 q2 s2(2) by auto
qed

lemma start_multishot_recv_effect:
  assumes w: "wsafe s kern cqs" and v: "vacant_ok vacant" and user_data_left: "Suc (Suc (unat (rs_next_user_data s))) < 2 ^ 64"
    and st: "start_multishot_recv vacant p fd bs bc wk s = (out, s')"
  shows "wsafe s' kern cqs \<and> unat (rs_next_user_data s') \<le> Suc (Suc (unat (rs_next_user_data s))) \<and> unat (rs_next_user_data s) \<le> unat (rs_next_user_data s')
    \<and> grows (MultishotRecv \<lparr>v_ptr = p, v_bytes = replicate (bs * bc) 0\<rparr>) s s' (case out of Inl _ \<Rightarrow> None | Inr key \<Rightarrow> Some key)"
proof -
  let ?b = "\<lparr>v_ptr = p, v_bytes = replicate (bs * bc) 0\<rparr>"
  have same: "wsafe s kern cqs \<and> unat (rs_next_user_data s) \<le> Suc (Suc (unat (rs_next_user_data s))) \<and> grows (MultishotRecv ?b) s s None"
    using w by (simp add: grows_def)
  show ?thesis
  proof (cases "bs < 2 ^ 32 \<and> bc < 2 ^ 16 \<and> bs \<noteq> 0 \<and> bc \<noteq> 0 \<and> \<not> sq_space_locked (rs_sq s) < 2")
    case False
    then have "\<exists>e. out = Inl e \<and> s' = s" using st by (auto simp: start_multishot_recv_def split: if_splits)
    then show ?thesis using same by auto
  next
    case True
    then have g: "bs < 2 ^ 32" "bc < 2 ^ 16" "bs \<noteq> 0" "bc \<noteq> 0" "\<not> sq_space_locked (rs_sq s) < 2" by blast+
    have ok: "sq_ok (rs_sq s)" using w by (simp add: wsafe_def)
    have sp: "length (sq_contents (rs_sq s)) + 2 \<le> unat (sq_entries (rs_sq s))"
      using g(5) sq_space_exact [OF ok] by (simp add: word_less_nat_alt del: length_sq_contents)
    have room1: "Suc (unat (rs_next_user_data s)) < 2 ^ 64" using user_data_left by simp
    obtain r1 s1 where n: "next_user_data s = (r1, s1)" by fastforce
    show ?thesis
    proof (cases r1)
      case (Inl e)
      then have "out = Inl e \<and> s' = s1" using st g by (simp add: start_multishot_recv_def n)
      then show ?thesis using alloc_effect [OF w n room1] grows_alloc [OF n, of "MultishotRecv ?b"] by auto
    next
      case (Inr ud)
      define grp where "grp = rs_next_buffer_group s1"
      let ?s0 = "s\<lparr>rs_next_buffer_group := max (grp + 1) 1\<rparr>" and ?s1 = "s1\<lparr>rs_next_buffer_group := max (grp + 1) 1\<rparr>"
      let ?op = "\<lparr>op_res = MultishotRecv ?b, op_result = None, op_waker = Some wk, op_user_data = ud,
        op_multishot = Some \<lparr>ms_kind = KindRecv (of_nat bs) grp, ms_events = [], ms_terminal = False, ms_cleanup_complete = False, ms_cleanup_user_data = None\<rparr>\<rparr>"
      have n0: "next_user_data ?s0 = (Inr ud, ?s1)" using next_user_data_group [OF n] Inr by simp
      obtain key s2 where i: "insert_op vacant ?op ?s1 = (key, s2)" by fastforce
      have "unat (of_nat bs :: u32) = bs" using unat_of_nat_lt [where 'a = 32, of bs] g(1) by simp
      then have "(of_nat bs :: u32) \<noteq> 0" using g(3) by (metis unat_0)
      then have opk: "op_ok (op_res ?op) (op_multishot ?op)" "op_status ?op = InFlight"
        by (auto simp: op_ok_def op_status_def multishot_status_def)
      have room0: "Suc (unat (rs_next_user_data ?s0)) < 2 ^ 64" using room1 by simp
      note qo = queue_op_effect [OF _ v n0 room0 i _ _ opk, of kern cqs, simplified, OF w]
      have w2: "wsafe s2 kern cqs" and t2: "tracked s2 = (tracked s)(ud \<mapsto> (MultishotRecv ?b, InFlight))" and ud: "ud = rs_next_user_data s"
        and m2: "map_of (rs_ops s2) = (map_of (rs_ops s))(key \<mapsto> ?op)" "map_of (rs_ops s) key = None" and nx2: "unat (rs_next_user_data s2) = Suc (unat (rs_next_user_data s))"
        using qo by blast+
      have s2: "rs_cq s2 = rs_cq s" "rs_cancel_targets s2 = rs_cancel_targets s" "rs_sq s2 = rs_sq s" "\<And>u. u \<noteq> ud \<Longrightarrow> rs_ops_by s2 u = rs_ops_by s u"
        using i next_user_data_effect [OF n] by (auto simp: insert_op_def Let_def)
      have gr: "grows (MultishotRecv ?b) s s' k" if "rs_ops s' = rs_ops s2" "rs_ops_by s' = rs_ops_by s2" "tracked s' = tracked s2"
        "rs_cancel_targets s' = rs_cancel_targets s2" "rs_cq s' = rs_cq s2" "k = None \<or> k = Some key" for k
        using that m2 t2 s2 ud by (auto simp: grows_def)
      obtain r3 s3 where n3: "next_user_data s2 = (r3, s3)" by fastforce
      have room2: "Suc (unat (rs_next_user_data s2)) < 2 ^ 64" using nx2 user_data_left by simp
      show ?thesis
      proof (cases r3)
        case (Inl e)
        then have o: "out = Inl e" "s' = s3" using st g Inr i n3 by (simp_all add: start_multishot_recv_def n grp_def [symmetric] Let_def)
        note a3 = alloc_effect [OF w2 n3 room2]
        have s3: "s3 = s2\<lparr>rs_next_user_data := rs_next_user_data s3\<rparr>" using a3 by blast
        have "grows (MultishotRecv ?b) s s' None" unfolding o by (rule gr [unfolded o]) ((subst s3, simp)+, simp)
        then show ?thesis using a3 nx2 o by auto
      next
        case control: (Inr control)
        note fr = safe_fresh [OF wsafe_safe [OF w]]
        define e1 where "e1 = sqe_of IORING_OP_PROVIDE_BUFFERS 0 0 (of_nat bc) 0 p (of_nat bs) 0 control grp"
        define e2 where "e2 = sqe_of IORING_OP_RECV (IOSQE_IO_DRAIN OR IOSQE_BUFFER_SELECT) IORING_RECV_MULTISHOT fd 0 0 (of_nat bs) 0 ud grp"
        obtain s4 s5 where q: "queue_sqe e1 s3 = Inr s4" "queue_sqe e2 (s4\<lparr>rs_provide_targets := (rs_provide_targets s4)(control \<mapsto> ud)\<rparr>) = Inr s5"
          and w5: "wsafe s5 kern cqs" "unat (rs_next_user_data s5) = Suc (unat (rs_next_user_data s2))"
          and s5: "s5 = s2\<lparr>rs_next_user_data := rs_next_user_data s5, rs_sq := rs_sq s5, rs_provide_targets := rs_provide_targets s5\<rparr>"
          using recv_entries_effect [OF w2 _ room2 _ _ _ _ n3 [unfolded control] e1_def e2_def, of ?b] t2 sp fr(4,5,6) by (auto simp: s2 ud simp del: length_sq_contents)
        have o: "out = Inr key" "s' = s5" using st g Inr i n3 control q
          by (simp_all add: start_multishot_recv_def n grp_def [symmetric] Let_def e1_def e2_def)
        have "grows (MultishotRecv ?b) s s' (Some key)" unfolding o by (rule gr [unfolded o]) ((subst s5, simp)+, simp)
        then show ?thesis using w5 nx2 o by auto
      qed
    qed
  qed
qed

section \<open>Reaping\<close>

text \<open>What reaping the completions \<open>cs\<close> leaves as it is: the held operations, with their resources; and every
  result it adds is that of a completion for the operation.\<close>

definition evolves :: "cqe list \<Rightarrow> uring \<Rightarrow> uring \<Rightarrow> bool" where
  "evolves cs s s' \<longleftrightarrow> rs_ops_by s' = rs_ops_by s \<and> rs_cq s' = rs_cq s \<and> rs_sqpoll s' = rs_sqpoll s
     \<and> length (rs_ops s') = length (rs_ops s) \<and> length (rs_orphaned s') \<le> length (rs_orphaned s)
     \<and> (\<forall>u t. rs_cancel_targets s' u = Some t \<longrightarrow> (\<exists>u. rs_cancel_targets s u = Some t))
     \<and> (\<forall>k op. map_of (rs_ops s) k = Some op \<longrightarrow> (\<exists>op'. map_of (rs_ops s') k = Some op' \<and> op_user_data op' = op_user_data op))
     \<and> (\<forall>u r st. tracked s' u = Some (r, st) \<longrightarrow> (\<exists>st'. tracked s u = Some (r, st')
          \<and> (\<forall>x. st = Done x \<longrightarrow> st' = Done x \<or> (\<exists>c\<in>set cs. cqe_user_data c = u \<and> x = os_result (cqe_res c)))))"

lemma evolves_trans:
  assumes "evolves cs s s'" "evolves cs' s' s''"
  shows "evolves (cs @ cs') s s''"
  unfolding evolves_def
proof (intro conjI allI impI)
  fix u r st assume "tracked s'' u = Some (r, st)"
  then obtain st1 where 1: "tracked s' u = Some (r, st1)" "\<forall>x. st = Done x \<longrightarrow> st1 = Done x \<or> (\<exists>c\<in>set cs'. cqe_user_data c = u \<and> x = os_result (cqe_res c))"
    using assms(2) unfolding evolves_def by blast
  obtain st2 where 2: "tracked s u = Some (r, st2)" "\<forall>x. st1 = Done x \<longrightarrow> st2 = Done x \<or> (\<exists>c\<in>set cs. cqe_user_data c = u \<and> x = os_result (cqe_res c))"
    using assms(1) 1(1) unfolding evolves_def by blast
  show "\<exists>st'. tracked s u = Some (r, st') \<and> (\<forall>x. st = Done x \<longrightarrow> st' = Done x \<or> (\<exists>c\<in>set (cs @ cs'). cqe_user_data c = u \<and> x = os_result (cqe_res c)))"
    using 1(2) 2 by (intro exI [of _ st2]) auto
next
  fix k op assume "map_of (rs_ops s) k = Some op"
  then obtain op1 where 1: "map_of (rs_ops s') k = Some op1" "op_user_data op1 = op_user_data op" using assms(1) unfolding evolves_def by blast
  then obtain op2 where "map_of (rs_ops s'') k = Some op2" "op_user_data op2 = op_user_data op1" using assms(2) unfolding evolves_def by blast
  then show "\<exists>op'. map_of (rs_ops s'') k = Some op' \<and> op_user_data op' = op_user_data op" using 1 by auto
next
  fix u t assume "rs_cancel_targets s'' u = Some t"
  then obtain v where "rs_cancel_targets s' v = Some t" using assms(2) unfolding evolves_def by blast
  then show "\<exists>u. rs_cancel_targets s u = Some t" using assms(1) unfolding evolves_def by blast
qed (use assms in \<open>auto simp: evolves_def\<close>)

lemma evolves_refl [simp]: "evolves cs s s"
  by (auto simp: evolves_def)

lemma evolves_fields [simp]:
  "evolves cs s (s'\<lparr>rs_sq := q\<rparr>) = evolves cs s s'" "evolves cs s (s'\<lparr>rs_provide_targets := pt\<rparr>) = evolves cs s s'"
  "evolves cs s (s'\<lparr>rs_cleanup_targets := cl\<rparr>) = evolves cs s s'" "evolves cs s (s'\<lparr>rs_next_user_data := n\<rparr>) = evolves cs s s'"
  "evolves cs (s\<lparr>rs_provide_targets := pt\<rparr>) s' = evolves cs s s'" "evolves cs (s\<lparr>rs_cleanup_targets := cl\<rparr>) s' = evolves cs s s'"
  by (simp_all add: evolves_def)

lemma evolves_uncancel: "evolves cs (s\<lparr>rs_cancel_targets := (rs_cancel_targets s)(u := None)\<rparr>) s' \<Longrightarrow> evolves cs s s'"
  by (auto simp: evolves_def split: if_splits) metis+

text \<open>The changes of a reap keep the rest.\<close>

lemma evolves_update_op:
  assumes ok: "uring_ok s" and op: "map_of (rs_ops s) key = Some op" and u: "op_user_data (f op) = op_user_data op" "op_res (f op) = op_res op"
    and f: "op_ok (op_res (f op)) (op_multishot (f op))" "op_multishot (f op) \<noteq> None \<longrightarrow> op_result (f op) = None"
    and r: "\<And>x. op_result (f op) = Some x \<Longrightarrow> op_result op = Some x \<or> (\<exists>c\<in>set cs. cqe_user_data c = op_user_data op \<and> x = os_result (cqe_res c))"
  shows "evolves cs s (update_op key f s)"
proof -
  note ue = update_op_effect [where f = f, OF ok op u(1) f]
  have dn: "\<And>x. op_status (f op) = Done x \<Longrightarrow> op_status op = Done x \<or> (\<exists>c\<in>set cs. cqe_user_data c = op_user_data op \<and> x = os_result (cqe_res c))"
    using r by (auto simp: op_status_def multishot_status_def split: option.splits if_splits)
  show ?thesis
    unfolding evolves_def
  proof (intro conjI allI impI)
    fix v r st assume t: "tracked (update_op key f s) v = Some (r, st)"
    show "\<exists>st'. tracked s v = Some (r, st') \<and> (\<forall>x. st = Done x \<longrightarrow> st' = Done x \<or> (\<exists>c\<in>set cs. cqe_user_data c = v \<and> x = os_result (cqe_res c)))"
      using t ue tracked_op [OF ok op] u(2) dn by (cases "v = op_user_data op") auto
  next
    fix k op' assume "map_of (rs_ops s) k = Some op'"
    then show "\<exists>op''. map_of (rs_ops (update_op key f s)) k = Some op'' \<and> op_user_data op'' = op_user_data op'"
      using ue op u(1) by (cases "k = key") auto
  qed (auto simp: update_op_def)
qed

lemma evolves_orphans:
  assumes "s' = s\<lparr>rs_orphaned := rs_orphaned s', rs_orphaned_by := rs_orphaned_by s'\<rparr>" "length (rs_orphaned s') \<le> length (rs_orphaned s)"
    and t: "\<And>u r st. tracked s' u = Some (r, st) \<Longrightarrow> \<exists>st'. tracked s u = Some (r, st') \<and> (\<forall>x. st = Done x \<longrightarrow> st' = Done x)"
  shows "evolves cs s s'"
proof -
  have "rs_ops_by s' = rs_ops_by s" "rs_cq s' = rs_cq s" "rs_sqpoll s' = rs_sqpoll s" "rs_ops s' = rs_ops s" "rs_cancel_targets s' = rs_cancel_targets s"
    by (subst assms(1), simp)+
  then show ?thesis using assms(2) t unfolding evolves_def by simp blast
qed

lemma wsafe_view:
  assumes w: "wsafe s kern cqs" and ok: "uring_ok s'"
    and f: "rs_sq s' = rs_sq s" "rs_sqpoll s' = rs_sqpoll s"
    and sf: "safe (tracked s') (rs_cancel_targets s') (rs_provide_targets s') (rs_cleanup_targets s') (rs_next_user_data s') (sq_contents (rs_sq s) @ kern) cqs'"
  shows "wsafe s' kern cqs'"
  using assms by (simp add: wsafe_def pending_ok_def)

lemma wsafe_update_op:
  assumes w: "wsafe s kern cqs" and op: "map_of (rs_ops s) key = Some op" and u: "op_user_data (f op) = op_user_data op"
    and f: "op_ok (op_res (f op)) (op_multishot (f op))" "op_multishot (f op) \<noteq> None \<longrightarrow> op_result (f op) = None"
    and sf: "safe ((tracked s)(op_user_data op \<mapsto> op_view (f op))) (rs_cancel_targets s) (rs_provide_targets s) (rs_cleanup_targets s) (rs_next_user_data s)
      (sq_contents (rs_sq s) @ kern) cqs'"
  shows "wsafe (update_op key f s) kern cqs'"
proof -
  have ok: "uring_ok s" using w by (simp add: wsafe_def)
  note ue = update_op_effect [where f = f, OF ok op u f]
  show ?thesis by (rule wsafe_view [OF w]) (use ue sf in \<open>simp_all add: update_op_def del: map_map\<close>)
qed

text \<open>An update that changes neither the resource nor the status is invisible.\<close>

lemma wsafe_update_op_same:
  assumes w: "wsafe s kern cqs" and op: "map_of (rs_ops s) key = Some op" and u: "op_user_data (f op) = op_user_data op" "op_view (f op) = op_view op"
    and f: "op_ok (op_res (f op)) (op_multishot (f op))" "op_multishot (f op) \<noteq> None \<longrightarrow> op_result (f op) = None"
  shows "wsafe (update_op key f s) kern cqs \<and> tracked (update_op key f s) = tracked s"
proof -
  have ok: "uring_ok s" using w by (simp add: wsafe_def)
  then have "(tracked s)(op_user_data op \<mapsto> op_view (f op)) = tracked s" using tracked_op [OF ok op] u(2) by (auto simp: fun_eq_iff)
  then show ?thesis using wsafe_update_op [where f = f, OF w op u(1) f] wsafe_safe [OF w] update_op_effect [where f = f, OF ok op u(1) f] by simp
qed

lemma wsafe_update_orphan:
  assumes w: "wsafe s kern cqs" and op: "map_of (rs_orphaned s) key = Some op" and u: "or_user_data (f op) = or_user_data op" "or_res (f op) = or_res op"
    and f: "op_ok (or_res (f op)) (or_multishot (f op))"
    and sf: "safe ((tracked s)(or_user_data op \<mapsto> orphan_view (f op))) (rs_cancel_targets s) (rs_provide_targets s) (rs_cleanup_targets s) (rs_next_user_data s)
      (sq_contents (rs_sq s) @ kern) cqs'"
  shows "wsafe (update_orphan key f s) kern cqs' \<and> evolves cs s (update_orphan key f s)"
proof
  have ok: "uring_ok s" using w by (simp add: wsafe_def)
  note ue = update_orphan_effect [where f = f, OF ok op u(1) f]
  show "wsafe (update_orphan key f s) kern cqs'"
    by (rule wsafe_view [OF w]) (use ue sf in \<open>simp_all add: update_orphan_def del: map_map\<close>)
  have "multishot_status (or_multishot (f op)) \<noteq> Done x" for x by (auto simp: multishot_status_def split: option.splits)
  then show "evolves cs s (update_orphan key f s)"
    by (intro evolves_orphans) (use ue tracked_orphan [OF ok op] u(2) in \<open>auto simp: update_orphan_def split: if_splits\<close>)
qed

lemma wsafe_remove_orphan:
  assumes w: "wsafe s kern cqs" and op: "map_of (rs_orphaned s) key = Some op" and u: "u = or_user_data op"
    and sf: "safe ((tracked s)(u := None)) (rs_cancel_targets s) (rs_provide_targets s) (rs_cleanup_targets s) (rs_next_user_data s)
      (sq_contents (rs_sq s) @ kern) cqs'"
  shows "\<exists>s'. slab_remove_orphan key (s\<lparr>rs_orphaned_by := (rs_orphaned_by s)(u := None)\<rparr>) = Some s' \<and> wsafe s' kern cqs' \<and> evolves cs s s'
    \<and> rs_sq s' = rs_sq s \<and> rs_next_user_data s' = rs_next_user_data s"
proof -
  have ok: "uring_ok s" using w by (simp add: wsafe_def)
  obtain s' where s': "slab_remove_orphan key (s\<lparr>rs_orphaned_by := (rs_orphaned_by s)(u := None)\<rparr>) = Some s'" "uring_ok s'" "tracked s' = (tracked s)(u := None)"
    and eq: "s' = s\<lparr>rs_orphaned := rs_orphaned s', rs_orphaned_by := rs_orphaned_by s'\<rparr>"
    using remove_orphan_effect [OF ok op u] by blast
  have fl: "rs_sq s' = rs_sq s" "rs_sqpoll s' = rs_sqpoll s" "rs_cancel_targets s' = rs_cancel_targets s" "rs_provide_targets s' = rs_provide_targets s"
    "rs_cleanup_targets s' = rs_cleanup_targets s" "rs_next_user_data s' = rs_next_user_data s" by (subst eq, simp)+
  have "length (rs_orphaned s') \<le> length (rs_orphaned s)"
    using s'(1) by (auto simp: slab_remove_orphan_def AList.delete_eq split: if_splits)
  then have "evolves cs s s'" by (intro evolves_orphans [OF eq]) (use s'(3) in \<open>auto split: if_splits\<close>)
  moreover have "wsafe s' kern cqs'" by (rule wsafe_view [OF w]) (use s' fl sf in simp_all)
  ultimately show ?thesis using s'(1) fl by blast
qed

lemma reap_cancel_effect:
  assumes w: "wsafe s kern cs" and t: "res = 0 \<Longrightarrow> t \<notin> sqe_user_data ` set (sq_contents (rs_sq s) @ kern)" and n: "rs_ops_by s t = None"
  shows "\<exists>s'. reap_cancel t res s = Some s' \<and> wsafe s' kern cs \<and> evolves c s s' \<and> rs_sq s' = rs_sq s \<and> rs_next_user_data s' = rs_next_user_data s"
proof (cases "res = 0 \<and> (\<exists>key. rs_orphaned_by s t = Some key \<and> Option.bind (map_of (rs_orphaned s) key) or_multishot = None)")
  case True
  then obtain key where key: "res = 0" "rs_orphaned_by s t = Some key" "Option.bind (map_of (rs_orphaned s) key) or_multishot = None" by blast
  have ok: "uring_ok s" using w by (simp add: wsafe_def)
  obtain op where op: "map_of (rs_orphaned s) key = Some op" "or_user_data op = t" using ring_ok_orphan_lookup [OF ok key(2)] by blast
  have "safe ((tracked s)(t := None)) (rs_cancel_targets s) (rs_provide_targets s) (rs_cleanup_targets s) (rs_next_user_data s) (sq_contents (rs_sq s) @ kern) cs"
    by (rule safe_untrack [OF wsafe_safe [OF w]]) (use t key(1) in auto)
  from wsafe_remove_orphan [OF w op(1) _ this, of c] op(2) show ?thesis using key by (simp add: reap_cancel_def)
next
  case False
  then have "reap_cancel t res s = Some s" using n by (auto simp: reap_cancel_def split: option.splits)
  then show ?thesis using w by simp
qed

lemma op_ok_cleanup: "op_ok res (Some ms) \<Longrightarrow> op_ok res (Some (ms\<lparr>ms_cleanup_user_data := x, ms_cleanup_complete := y\<rparr>))"
  by (simp add: op_ok_def split: multishot_kind.splits)

lemma multishot_no_result: "uring_ok s \<Longrightarrow> map_of (rs_ops s) k = Some op \<Longrightarrow> op_multishot op = Some ms \<Longrightarrow> op_result op = None"
  using ring_ok_op by fastforce

lemma reap_cleanup_effect:
  assumes w: "wsafe s kern cs"
  shows "\<exists>s' ws. reap_cleanup t res s = Some (s', ws) \<and> wsafe s' kern cs \<and> evolves c s s' \<and> rs_sq s' = rs_sq s \<and> rs_next_user_data s' = rs_next_user_data s"
proof -
  have ok: "uring_ok s" using w by (simp add: wsafe_def)
  show ?thesis
  proof (cases "rs_ops_by s t")
    case (Some key)
    obtain op where op: "map_of (rs_ops s) key = Some op" "op_user_data op = t" using ring_ok_lookup [OF ok Some] by blast
    show ?thesis
    proof (cases "op_multishot op")
      case None
      then show ?thesis using Some op w by (simp add: reap_cleanup_def)
    next
      case ms: (Some ms)
      let ?f = "\<lambda>op. op\<lparr>op_multishot := Some (ms\<lparr>ms_cleanup_user_data := None, ms_cleanup_complete := (ms_cleanup_complete ms \<or> 0 \<le> sint res)\<rparr>), op_waker := None\<rparr>"
      have "op_ok (op_res op) (op_multishot (?f op))" "op_view (?f op) = op_view op"
        using ring_ok_op [OF ok op(1)] ms by (auto simp: op_ok_cleanup op_status_def multishot_status_def split: option.splits)
      then have "wsafe (update_op key ?f s) kern cs" "evolves c s (update_op key ?f s)"
        using wsafe_update_op_same [where f = ?f, OF w op(1)] evolves_update_op [where f = ?f, OF ok op(1)] multishot_no_result [OF ok op(1) ms] by auto
      then show ?thesis using Some op ms by (simp add: reap_cleanup_def) (simp add: update_op_def)
    qed
  next
    case none: None
    show ?thesis
    proof (cases "rs_orphaned_by s t")
      case None
      then show ?thesis using none w by (simp add: reap_cleanup_def)
    next
      case (Some key)
      obtain op where op: "map_of (rs_orphaned s) key = Some op" "or_user_data op = t" using ring_ok_orphan_lookup [OF ok Some] by blast
      show ?thesis
      proof (cases "or_multishot op")
        case None
        then show ?thesis using none Some op w by (simp add: reap_cleanup_def)
      next
        case ms: (Some ms)
        let ?f = "\<lambda>op. op\<lparr>or_multishot := Some (ms\<lparr>ms_cleanup_user_data := None, ms_cleanup_complete := (0 \<le> sint res)\<rparr>)\<rparr>"
        let ?s1 = "update_orphan key ?f s"
        have f: "op_ok (or_res op) (or_multishot (?f op))" "orphan_view (?f op) = orphan_view op"
          using ring_ok_orphan [OF ok op(1)] ms by (auto simp: op_ok_cleanup multishot_status_def)
        have tr: "(tracked s)(or_user_data op \<mapsto> orphan_view (?f op)) = tracked s"
          unfolding f(2) using tracked_orphan [OF ok op(1)] by (auto simp: fun_eq_iff)
        have w1: "wsafe ?s1 kern cs \<and> evolves [] s ?s1"
          by (rule wsafe_update_orphan [where f = ?f, OF w op(1)]) (use f wsafe_safe [OF w] tr in simp_all)
        have "or_user_data (?f op) = or_user_data op" "op_ok (or_res (?f op)) (or_multishot (?f op))" using f(1) by simp_all
        note ue = update_orphan_effect [where f = ?f, OF ok op(1) this]
        have fl: "rs_sq ?s1 = rs_sq s" "rs_next_user_data ?s1 = rs_next_user_data s" "rs_orphaned_by ?s1 = rs_orphaned_by s"
          by (simp_all add: update_orphan_def)
        show ?thesis
        proof (cases "0 \<le> sint res \<and> ms_terminal ms \<and> ms_events ms = []")
          case True
          have op1: "map_of (rs_orphaned ?s1) key = Some (?f op)" using ue by simp
          have "tracked ?s1 t = Some (or_res op, Terminal)" using ue op(2) True by (simp add: multishot_status_def)
          from safe_untrack_finished [OF wsafe_safe [OF conjunct1 [OF w1]] this]
          have sf: "safe ((tracked ?s1)(t := None)) (rs_cancel_targets ?s1) (rs_provide_targets ?s1) (rs_cleanup_targets ?s1) (rs_next_user_data ?s1)
            (sq_contents (rs_sq ?s1) @ kern) cs" by simp
          obtain s' where s': "slab_remove_orphan key (?s1\<lparr>rs_orphaned_by := (rs_orphaned_by ?s1)(t := None)\<rparr>) = Some s'" "wsafe s' kern cs" "evolves c ?s1 s'"
            "rs_sq s' = rs_sq ?s1" "rs_next_user_data s' = rs_next_user_data ?s1"
            using wsafe_remove_orphan [OF conjunct1 [OF w1] op1 _ sf, of c] op(2) by auto
          have "evolves c s s'" using evolves_trans [OF conjunct2 [OF w1] s'(3)] by simp
          then show ?thesis using none Some op ms True s' fl by (simp add: reap_cleanup_def Let_def)
        next
          case False
          then have "reap_cleanup t res s = Some (?s1, [])" using none Some op ms by (auto simp: reap_cleanup_def Let_def)
          moreover have "evolves c s ?s1" using evolves_trans [OF conjunct2 [OF w1] evolves_refl, of c] by simp
          ultimately show ?thesis using w1 fl by simp
        qed
      qed
    qed
  qed
qed

lemma recv_event_returns: "n \<noteq> 0 \<Longrightarrow> \<exists>r rf. uring_recv_event (MultishotRecv b) c n g hm = Some (EvRecv r, rf)"
  by (simp add: uring_recv_event_def Let_def)

lemma reap_op_effect:
  assumes w: "wsafe s kern (c # cs)" and key: "rs_ops_by s (cqe_user_data c) = Some key"
  shows "\<exists>s' ws rf. reap_op key c s = Some (s', ws, [], rf) \<and> wsafe s' kern cs \<and> evolves [c] s s' \<and> rs_sq s' = rs_sq s \<and> rs_next_user_data s' = rs_next_user_data s"
proof -
  have ok: "uring_ok s" using w by (simp add: wsafe_def)
  note sf = wsafe_safe [OF w]
  obtain op where op: "map_of (rs_ops s) key = Some op" "op_user_data op = cqe_user_data c" using ring_ok_lookup [OF ok key] by blast
  have t: "tracked s (cqe_user_data c) = Some (op_view op)" using tracked_op [OF ok op(1)] op(2) by simp
  have fl: "op_status op = InFlight" "is_final c \<or> is_multishot (op_res op)"
    using sf t by (auto simp: safe_def cqs_ok_def)
  have fin: "safe ((tracked s)(op_user_data op \<mapsto> (op_res op, st))) (rs_cancel_targets s) (rs_provide_targets s) (rs_cleanup_targets s) (rs_next_user_data s)
      (sq_contents (rs_sq s) @ kern) cs" if "is_final c \<or> st = InFlight" for st
  proof (cases "is_final c")
    case True
    then show ?thesis using safe_finish(1) [OF sf True] t fl(1) op(2) by simp
  next
    case False
    then have "(tracked s)(op_user_data op \<mapsto> (op_res op, st)) = tracked s" using that t fl(1) op(2) by (auto simp: fun_eq_iff)
    then show ?thesis using safe_reaped [OF sf] by simp
  qed
  show ?thesis
  proof (cases "op_multishot op")
    case None
    let ?f = "\<lambda>op. op\<lparr>op_result := Some (os_result (cqe_res c)), op_waker := None\<rparr>"
    have f: "op_ok (op_res op) (op_multishot (?f op))" "op_view (?f op) = (op_res op, Done (os_result (cqe_res c)))" "is_final c"
      using ring_ok_op [OF ok op(1)] None fl(2) by (auto simp: op_ok_simps op_status_def)
    have "wsafe (update_op key ?f s) kern cs"
      by (rule wsafe_update_op [where f = ?f, OF w op(1)]) (use f None fin in simp_all)
    moreover have "evolves [c] s (update_op key ?f s)"
      by (rule evolves_update_op [where f = ?f, OF ok op(1)]) (use f None op(2) in simp_all)
    ultimately show ?thesis using op None by (simp add: reap_op_def) (simp add: update_op_def)
  next
    case (Some ms)
    define hm where "hm = (cqe_flags c AND IORING_CQE_F_MORE \<noteq> 0)"
    obtain ev rf where ev: "(case ms_kind ms of
        KindAccept \<Rightarrow> Some (EvAccept (if sint (cqe_res c) < 0 then Inl (RawOs (- cqe_res c)) else Inr (cqe_res c)), None)
      | KindRecv bsize grp \<Rightarrow> uring_recv_event (op_res op) c bsize grp hm) = Some (ev, rf)"
      and oke: "op_ok (op_res op) (Some (ms\<lparr>ms_events := ms_events ms @ [ev], ms_terminal := \<not> hm\<rparr>))"
    proof (cases "ms_kind ms")
      case KindAccept
      then show ?thesis using that ring_ok_op [OF ok op(1)] Some by (simp add: op_ok_def)
    next
      case (KindRecv n g)
      then obtain b where b: "op_res op = MultishotRecv b" "n \<noteq> 0" using ring_ok_op [OF ok op(1)] Some by (auto simp: op_ok_def)
      obtain r rf where "uring_recv_event (op_res op) c n g hm = Some (EvRecv r, rf)"
        using recv_event_returns [OF b(2)] b(1) by metis
      then show ?thesis using that KindRecv ring_ok_op [OF ok op(1)] Some by (auto simp: op_ok_def)
    qed
    let ?f = "\<lambda>op. op\<lparr>op_multishot := Some (ms\<lparr>ms_events := ms_events ms @ [ev], ms_terminal := \<not> hm\<rparr>), op_waker := None\<rparr>"
    have nr: "op_result op = None" by (rule multishot_no_result [OF ok op(1) Some])
    have f: "op_view (?f op) = (op_res op, if is_final c then Terminal else InFlight)"
      using nr by (simp add: op_status_def multishot_status_def is_final_def hm_def)
    have "wsafe (update_op key ?f s) kern cs"
      by (rule wsafe_update_op [where f = ?f, OF w op(1)]) (use f oke nr fin in simp_all)
    moreover have "evolves [c] s (update_op key ?f s)"
      by (rule evolves_update_op [where f = ?f, OF ok op(1)]) (use oke nr in simp_all)
    moreover have "reap_op key c s = Some (update_op key ?f s, wakes_of (op_waker op), [], rf)"
      using op Some ev by (simp add: reap_op_def hm_def [symmetric])
    ultimately show ?thesis by (simp add: update_op_def)
  qed
qed

lemma reap_orphan_effect:
  assumes w: "wsafe s kern (c # cs)" and key: "rs_orphaned_by s (cqe_user_data c) = Some key"
  shows "\<exists>s' fds. reap_orphan key c s = Some (s', [], fds, None) \<and> wsafe s' kern cs \<and> evolves [c] s s' \<and> rs_sq s' = rs_sq s \<and> rs_next_user_data s' = rs_next_user_data s"
proof -
  have ok: "uring_ok s" using w by (simp add: wsafe_def)
  note sf = wsafe_safe [OF w]
  obtain op where op: "map_of (rs_orphaned s) key = Some op" "or_user_data op = cqe_user_data c" using ring_ok_orphan_lookup [OF ok key] by blast
  have t: "tracked s (cqe_user_data c) = Some (orphan_view op)" using tracked_orphan [OF ok op(1)] op(2) by simp
  have fl: "multishot_status (or_multishot op) = InFlight" "is_final c \<or> is_multishot (or_res op)"
    using sf t by (auto simp: safe_def cqs_ok_def)
  have w': "wsafe s kern cs" by (rule wsafe_view [OF w ok]) (use safe_reaped [OF sf] in simp_all)
  obtain s' where s': "is_final c \<Longrightarrow> slab_remove_orphan key (s\<lparr>rs_orphaned_by := (rs_orphaned_by s)(cqe_user_data c := None)\<rparr>) = Some s'
      \<and> wsafe s' kern cs \<and> evolves [c] s s' \<and> rs_sq s' = rs_sq s \<and> rs_next_user_data s' = rs_next_user_data s"
    using safe_finish(2) [OF sf] t fl(1) wsafe_remove_orphan [OF w op(1), of "cqe_user_data c" cs "[c]"] op(2) by auto
  show ?thesis
  proof (cases "or_multishot op")
    case None
    then have "is_final c" using ring_ok_orphan [OF ok op(1)] fl(2) by (simp add: op_ok_simps)
    then show ?thesis using s' op None by (simp add: reap_orphan_def)
  next
    case (Some ms)
    show ?thesis
    proof (cases "is_final c")
      case False
      then show ?thesis using op Some w' by (simp add: reap_orphan_def is_final_def Let_def)
    next
      case True
      show ?thesis
      proof (cases "ms_cleanup_complete ms")
        case cc: True
        then show ?thesis using s' [OF True] op Some True by (simp add: reap_orphan_def is_final_def Let_def)
      next
        case False
        let ?f = "\<lambda>op. op\<lparr>or_multishot := Some (ms\<lparr>ms_terminal := True\<rparr>)\<rparr>"
        have f: "op_ok (or_res op) (or_multishot (?f op))" "orphan_view (?f op) = (or_res op, Terminal)"
          using ring_ok_orphan [OF ok op(1)] Some by (auto simp: op_ok_def multishot_status_def split: multishot_kind.splits)
        have "wsafe (update_orphan key ?f s) kern cs \<and> evolves [c] s (update_orphan key ?f s)"
          by (rule wsafe_update_orphan [where f = ?f, OF w op(1)]) (use f safe_finish(1) [OF sf True] t fl(1) op(2) in simp_all)
        then show ?thesis using op Some True False by (simp add: reap_orphan_def is_final_def Let_def) (simp add: update_orphan_def)
      qed
    qed
  qed
qed

text \<open>One completion.\<close>

lemma reap_cqe_effect:
  assumes w: "wsafe s kern (c # cs)" and nt: "\<And>u t. rs_cancel_targets s u = Some t \<Longrightarrow> rs_ops_by s t = None"
  shows "\<exists>s' ws fds rf. reap_cqe c s = Some (s', ws, fds, rf) \<and> wsafe s' kern cs \<and> evolves [c] s s' \<and> rs_sq s' = rs_sq s
    \<and> rs_next_user_data s' = rs_next_user_data s"
proof -
  note sf = wsafe_safe [OF w]
  have ok: "uring_ok s" using w by (simp add: wsafe_def)
  let ?u = "cqe_user_data c"
  show ?thesis
  proof (cases "rs_cancel_targets s ?u")
    case (Some t)
    let ?s = "s\<lparr>rs_cancel_targets := (rs_cancel_targets s)(?u := None)\<rparr>"
    have w1: "wsafe ?s kern cs"
      by (rule wsafe_view [OF w]) (use ok safe_unregister_cancel [OF safe_reaped [OF sf]] in simp_all)
    have "cqe_res c = 0 \<Longrightarrow> t \<notin> sqe_user_data ` set (sq_contents (rs_sq ?s) @ kern)"
      using sf Some by (auto simp: safe_def targets_ok_def)
    then obtain s' where s': "reap_cancel t (cqe_res c) ?s = Some s'" "wsafe s' kern cs" "evolves [c] ?s s'" "rs_sq s' = rs_sq s" "rs_next_user_data s' = rs_next_user_data s"
      using reap_cancel_effect [OF w1, of "cqe_res c" t "[c]"] nt [OF Some] by auto
    then show ?thesis using Some evolves_uncancel [OF s'(3)] by (simp add: reap_cqe_def Let_def)
  next
    case nc: None
    show ?thesis
    proof (cases "rs_provide_targets s ?u")
      case (Some t)
      let ?s = "s\<lparr>rs_provide_targets := (rs_provide_targets s)(?u := None)\<rparr>"
      let ?s1 = "?s\<lparr>rs_cleanup_targets := rs_cleanup_targets ?s - {?u}\<rparr>"
      have w1: "wsafe ?s1 kern cs"
        by (rule wsafe_view [OF w]) (use ok safe_unregister_provide [OF safe_reaped [OF sf], of ?u "rs_cleanup_targets s - {?u}"] in simp_all)
      have "?u \<notin> rs_cleanup_targets s \<Longrightarrow> 0 \<le> sint (cqe_res c)" using sf Some by (auto simp: safe_def targets_ok_def)
      then have "\<exists>s' ws. reap_provide ?u t (cqe_res c) ?s = Some (s', ws) \<and> wsafe s' kern cs \<and> evolves [c] ?s1 s' \<and> rs_sq s' = rs_sq s
          \<and> rs_next_user_data s' = rs_next_user_data s"
        using reap_cleanup_effect [OF w1, of t "cqe_res c" "[c]"] w1 by (cases "?u \<in> rs_cleanup_targets s") (auto simp: reap_provide_def Let_def)
      then show ?thesis using nc Some by (auto simp: reap_cqe_def Let_def)
    next
      case np: None
      have w1: "wsafe s kern cs" by (rule wsafe_view [OF w ok]) (use safe_reaped [OF sf] in simp_all)
      show ?thesis
        using reap_op_effect [OF w] reap_orphan_effect [OF w] w1
        by (cases "rs_ops_by s ?u"; cases "rs_orphaned_by s ?u") (auto simp: reap_cqe_def nc np Let_def)
    qed
  qed
qed

section \<open>Submission, refills and clean-ups\<close>

lemma submit_effect:
  assumes w: "wsafe s kern cqs" and st: "uring_submit os s = Some (res, es, s')" and os: "\<And>n. Submitted n \<in> set os \<Longrightarrow> n \<le> sq_pending (rs_sq s)"
  shows "wsafe s' (kern @ es) cqs \<and> s' = s\<lparr>rs_sq := rs_sq s'\<rparr>"
proof -
  obtain q where q: "submit_inner (rs_sqpoll s) os (rs_sq s) = Some (res, es, q)" "s' = s\<lparr>rs_sq := q\<rparr>"
    using st by (auto simp: uring_submit_def)
  have ok: "sq_ok (rs_sq s)" "pending_ok s" "uring_ok s" using w by (simp_all add: wsafe_def)
  have e: "sq_ok q \<and> sq_contents (rs_sq s) = es @ sq_contents q \<and> (rs_sqpoll s \<or> unat (sq_pending q) = length (sq_contents q))"
  proof (cases "sq_pending (rs_sq s) = 0 \<or> rs_sqpoll s")
    case True
    then show ?thesis using q(1) ok by (auto simp: submit_inner_def pending_ok_def split: if_splits option.splits)
  next
    case False
    then have "enter_loop os (rs_sq s) = Some (res, es, q)" using q(1) by (simp add: submit_inner_def)
    from enter_loop_effect [OF ok(1) this _ os] show ?thesis using False ok(2) by (auto simp: pending_ok_def)
  qed
  have "wsafe s' (kern @ es) cqs"
    by (rule wsafe_perm [where live = "sq_contents (rs_sq s) @ kern"]) (use wsafe_safe [OF w] ok e in \<open>auto simp: q(2) pending_ok_def\<close>)
  then show ?thesis by (simp add: q(2))
qed

lemma provide_buffer_effect:
  assumes w: "wsafe s kern cqs" and user_data_left: "Suc (unat (rs_next_user_data s)) < 2 ^ 64" and p: "queue_provide_buffer_locked t addr len grp bid s = (r, s')"
  shows "wsafe s' kern cqs \<and> evolves [] s s' \<and> unat (rs_next_user_data s') \<le> Suc (unat (rs_next_user_data s)) \<and> unat (rs_next_user_data s) \<le> unat (rs_next_user_data s')"
proof -
  obtain r1 s1 where n: "next_user_data s = (r1, s1)" by fastforce
  note a = alloc_effect [OF w n user_data_left]
  have s1: "s1 = s\<lparr>rs_next_user_data := rs_next_user_data s1\<rparr>" using a by blast
  have ev1: "evolves [] s s1" by (subst s1) simp
  show ?thesis
  proof (cases r1)
    case (Inl e)
    then show ?thesis using p n a ev1 by (auto simp: queue_provide_buffer_locked_def)
  next
    case (Inr ud)
    define e where "e = sqe_of IORING_OP_PROVIDE_BUFFERS 0 0 1 (ucast bid) addr len 0 ud grp"
    show ?thesis
    proof (cases "queue_sqe e s1")
      case (Inl er)
      then show ?thesis using p n a ev1 Inr by (auto simp: queue_provide_buffer_locked_def e_def)
    next
      case q: (Inr s2)
      have "is_control e" "sqe_user_data e = ud" "sqe_opcode e = IORING_OP_PROVIDE_BUFFERS" by (simp_all add: e_def sqe_of_def is_control_def)
      note qc = queue_control_effect [OF w n [unfolded Inr] user_data_left this(1,2) q, of t] and op = this(3)
      have s2: "s2 = s\<lparr>rs_next_user_data := rs_next_user_data s2, rs_sq := rs_sq s2\<rparr>" using qc by blast
      have ev2: "evolves [] s s2" by (subst s2) simp
      have "s' = s2\<lparr>rs_provide_targets := (rs_provide_targets s2)(ud \<mapsto> t)\<rparr>" using p n Inr q by (simp add: queue_provide_buffer_locked_def e_def)
      then show ?thesis using qc op ev2 by simp
    qed
  qed
qed

lemma remove_buffers_effect:
  assumes w: "wsafe s kern cqs" and user_data_left: "Suc (unat (rs_next_user_data s)) < 2 ^ 64" and p: "queue_remove_buffers_locked t cnt grp s = (r, s')"
  shows "wsafe s' kern cqs \<and> evolves [] s s' \<and> unat (rs_next_user_data s') \<le> Suc (unat (rs_next_user_data s)) \<and> unat (rs_next_user_data s) \<le> unat (rs_next_user_data s')"
proof -
  obtain r1 s1 where n: "next_user_data s = (r1, s1)" by fastforce
  note a = alloc_effect [OF w n user_data_left]
  have s1: "s1 = s\<lparr>rs_next_user_data := rs_next_user_data s1\<rparr>" using a by blast
  have ev1: "evolves [] s s1" by (subst s1) simp
  show ?thesis
  proof (cases r1)
    case (Inl e)
    then show ?thesis using p n a ev1 by (auto simp: queue_remove_buffers_locked_def)
  next
    case (Inr ud)
    define e where "e = sqe_of IORING_OP_REMOVE_BUFFERS IOSQE_IO_DRAIN 0 (ucast cnt) 0 0 0 0 ud grp"
    show ?thesis
    proof (cases "queue_sqe e s1")
      case (Inl er)
      then show ?thesis using p n a ev1 Inr by (auto simp: queue_remove_buffers_locked_def e_def)
    next
      case q: (Inr s2)
      have "is_control e" "sqe_user_data e = ud" by (simp_all add: e_def sqe_of_def is_control_def)
      note qc = queue_control_effect [OF w n [unfolded Inr] user_data_left this q, of t]
      have s2: "s2 = s\<lparr>rs_next_user_data := rs_next_user_data s2, rs_sq := rs_sq s2\<rparr>" using qc by blast
      have ev2: "evolves [] s s2" by (subst s2) simp
      have "s' = s2\<lparr>rs_provide_targets := (rs_provide_targets s2)(ud \<mapsto> t), rs_cleanup_targets := insert ud (rs_cleanup_targets s2)\<rparr>"
        using p n Inr q by (simp add: queue_remove_buffers_locked_def e_def)
      then show ?thesis using qc ev2 by simp
    qed
  qed
qed

text \<open>Marking a clean-up changes neither user data, nor resources, nor status.\<close>

lemma update_first_map_of:
  "map_of (update_first P f al) k = map_of al k \<or> (\<exists>x. map_of al k = Some x \<and> map_of (update_first P f al) k = Some (f x))"
  by (induction al) auto

lemma update_first_fst [simp]: "map fst (update_first P f al) = map fst al"
  by (induction al) auto

lemma update_first_length [simp]: "length (update_first P f al) = length al"
  by (induction al) auto

lemma tab_ok_map: "tab_ok ud m tab \<longleftrightarrow> (\<forall>u k. tab u = Some k \<longleftrightarrow> map_option ud (m k) = Some u)"
  by (auto simp: tab_ok_def)

lemma idx_cong:
  assumes ok: "idx_ok m oby r rby" and m: "\<And>k. m' k = m k \<or> (\<exists>x. m k = Some x \<and> m' k = Some (f x))" and r: "\<And>k. r' k = r k \<or> (\<exists>x. r k = Some x \<and> r' k = Some (g x))"
    and f: "\<And>x. op_user_data (f x) = op_user_data x" "\<And>x. op_view (f x) = op_view x" "\<And>x. op_ok (op_res (f x)) (op_multishot (f x)) = op_ok (op_res x) (op_multishot x)"
      "\<And>x. (op_multishot (f x) \<noteq> None) = (op_multishot x \<noteq> None)" "\<And>x. op_result (f x) = op_result x"
    and g: "\<And>x. or_user_data (g x) = or_user_data x" "\<And>x. orphan_view (g x) = orphan_view x" "\<And>x. op_ok (or_res (g x)) (or_multishot (g x)) = op_ok (or_res x) (or_multishot x)"
  shows "idx_ok m' oby r' rby \<and> trk m' oby r' rby = trk m oby r rby"
proof -
  have mo: "map_option op_user_data (m' k) = map_option op_user_data (m k)" "map_option op_view (m' k) = map_option op_view (m k)" for k
    using m [of k] f(1,2) by auto
  have ro: "map_option or_user_data (r' k) = map_option or_user_data (r k)" "map_option orphan_view (r' k) = map_option orphan_view (r k)" for k
    using r [of k] g(1,2) by auto
  have "trk m' oby r' rby = trk m oby r rby" unfolding trk_def mo(2) ro(2) ..
  moreover have "op_ok (op_res op) (op_multishot op) \<and> (op_multishot op \<noteq> None \<longrightarrow> op_result op = None)" if "m' k = Some op" for k op
    using m [of k] that ok f(3,4,5) unfolding idx_ok_def by (metis option.inject)
  moreover have "op_ok (or_res op) (or_multishot op)" if "r' k = Some op" for k op
    using r [of k] that ok g(3) unfolding idx_ok_def by (metis option.inject)
  moreover have "tab_ok op_user_data m' oby" "tab_ok or_user_data r' rby"
    unfolding tab_ok_map mo(1) ro(1) using ok unfolding idx_ok_def tab_ok_map by blast+
  moreover have "\<forall>u. oby u = None \<or> rby u = None" using ok by (simp add: idx_ok_def)
  ultimately show ?thesis unfolding idx_ok_def by simp
qed

lemma mark_cleanup_effect:
  assumes w: "wsafe s kern cqs"
  shows "wsafe (mark_cleanup t cud s) kern cqs \<and> evolves [] s (mark_cleanup t cud s)"
proof -
  let ?f = "op_multishot_update (map_option (\<lambda>ms. ms\<lparr>ms_cleanup_user_data := Some cud\<rparr>)) :: op_state \<Rightarrow> op_state"
  let ?g = "or_multishot_update (map_option (\<lambda>ms. ms\<lparr>ms_cleanup_user_data := Some cud\<rparr>)) :: orphaned_op \<Rightarrow> orphaned_op"
  let ?s = "mark_cleanup t cud s" and ?m = "map_of (rs_ops s)" and ?r = "map_of (rs_orphaned s)"
  let ?m' = "map_of (rs_ops ?s)" and ?r' = "map_of (rs_orphaned ?s)"
  have ok: "uring_ok s" using w by (simp add: wsafe_def)
  have m: "?m' k = ?m k \<or> (\<exists>x. ?m k = Some x \<and> ?m' k = Some (?f x))" for k
    using update_first_map_of [of _ ?f "rs_ops s" k] by (simp add: mark_cleanup_def)
  have r: "?r' k = ?r k \<or> (\<exists>x. ?r k = Some x \<and> ?r' k = Some (?g x))" for k
    using update_first_map_of [of _ ?g "rs_orphaned s" k] by (simp add: mark_cleanup_def)
  have ff: "op_user_data (?f x) = op_user_data x" "op_view (?f x) = op_view x" "op_ok (op_res (?f x)) (op_multishot (?f x)) = op_ok (op_res x) (op_multishot x)"
      "(op_multishot (?f x) \<noteq> None) = (op_multishot x \<noteq> None)" "op_result (?f x) = op_result x" for x
    by (auto simp: op_status_def multishot_status_def op_ok_def split: option.splits multishot_kind.splits)
  have gg: "or_user_data (?g x) = or_user_data x" "orphan_view (?g x) = orphan_view x" "op_ok (or_res (?g x)) (or_multishot (?g x)) = op_ok (or_res x) (or_multishot x)" for x
    by (auto simp: multishot_status_def op_ok_def split: option.splits multishot_kind.splits)
  have by': "rs_ops_by ?s = rs_ops_by s" "rs_orphaned_by ?s = rs_orphaned_by s" by (simp_all add: mark_cleanup_def)
  have ix: "idx_ok ?m' (rs_ops_by ?s) ?r' (rs_orphaned_by ?s) \<and> trk ?m' (rs_ops_by ?s) ?r' (rs_orphaned_by ?s) = tracked s"
    unfolding by' tracked_def by (rule idx_cong [where f = ?f and g = ?g, OF ring_ok_idx [OF ok] m r]) (use ff gg in simp_all)
  then have ok': "uring_ok ?s" "tracked ?s = tracked s" using ok by (simp_all add: uring_ok_def tracked_def) (simp_all add: mark_cleanup_def)
  have "wsafe ?s kern cqs" by (rule wsafe_view [OF w ok'(1)]) (use wsafe_safe [OF w] in \<open>simp_all only: ok'(2)\<close>, simp_all add: mark_cleanup_def)
  moreover have "\<exists>op'. ?m' k = Some op' \<and> op_user_data op' = op_user_data op" if "?m k = Some op" for k op
    using m [of k] that by auto
  then have "evolves [] s ?s" unfolding evolves_def ok'(2) by (auto simp: mark_cleanup_def)
  ultimately show ?thesis by blast
qed

lemma queue_cleanups_effect:
  assumes "wsafe s kern cqs" "unat (rs_next_user_data s) + length rs < 2 ^ 64 - 1"
  shows "\<exists>b s'. queue_cleanups rs s = (b, s') \<and> wsafe s' kern cqs \<and> evolves [] s s' \<and> unat (rs_next_user_data s') \<le> unat (rs_next_user_data s) + length rs \<and> unat (rs_next_user_data s) \<le> unat (rs_next_user_data s')"
  using assms
proof (induction rs s rule: queue_cleanups.induct)
  case (2 t cnt grp rs s)
  obtain r s1 where p: "queue_remove_buffers_locked t cnt grp s = (r, s1)" by fastforce
  have user_data_left: "Suc (unat (rs_next_user_data s)) < 2 ^ 64" using "2.prems"(2) by simp
  note re = remove_buffers_effect [OF "2.prems"(1) user_data_left p]
  show ?case
  proof (cases r)
    case (Inl e)
    with "2.IH"(1) [OF p [symmetric] this] re "2.prems"(2) obtain b s' where
      *: "queue_cleanups rs s1 = (b, s')" "wsafe s' kern cqs" "evolves [] s1 s'" "unat (rs_next_user_data s') \<le> unat (rs_next_user_data s1) + length rs" "unat (rs_next_user_data s1) \<le> unat (rs_next_user_data s')"
      by auto
    then show ?thesis using p Inl re evolves_trans [of "[]" s s1 "[]" s'] by auto
  next
    case (Inr cud)
    let ?s2 = "mark_cleanup t cud s1"
    have w2: "wsafe ?s2 kern cqs" "evolves [] s1 ?s2" using mark_cleanup_effect re by blast+
    have nx: "rs_next_user_data ?s2 = rs_next_user_data s1" by (simp add: mark_cleanup_def)
    with "2.IH"(2) [OF p [symmetric] Inr] w2 re "2.prems"(2) obtain b s' where
      *: "queue_cleanups rs ?s2 = (b, s')" "wsafe s' kern cqs" "evolves [] ?s2 s'" "unat (rs_next_user_data s') \<le> unat (rs_next_user_data s1) + length rs" "unat (rs_next_user_data s1) \<le> unat (rs_next_user_data s')"
      by auto
    have "evolves [] s s'" using evolves_trans [of "[]" s s1 "[]" ?s2] evolves_trans [of "[]" s ?s2 "[]" s'] re w2(2) *(3) by simp
    then show ?thesis using p Inr re * by (intro exI [of _ True] exI [of _ s']) simp
  qed
qed (auto intro: exI [of _ False])

lemma collect_requests_returns:
  "None \<notin> set xs \<Longrightarrow> \<exists>rs. collect_requests xs = Some rs \<and> length rs \<le> length xs"
proof (induction xs rule: collect_requests.induct)
  case (3 r rs)
  then show ?case by (cases r) auto
qed simp_all

lemma cleanup_request_returns: "op_ok res m \<Longrightarrow> cleanup_request res m ud \<noteq> None"
  by (auto simp: cleanup_request_def op_ok_def Let_def split: option.splits multishot_kind.splits)

lemma pending_cleanups_effect:
  assumes w: "wsafe s kern cqs" and user_data_left: "unat (rs_next_user_data s) + length (rs_ops s) + length (rs_orphaned s) < 2 ^ 64 - 1"
  shows "\<exists>b s'. queue_pending_cleanups_locked s = Some (b, s') \<and> wsafe s' kern cqs \<and> evolves [] s s' \<and> unat (rs_next_user_data s) \<le> unat (rs_next_user_data s')"
proof -
  have ok: "uring_ok s" using w by (simp add: wsafe_def)
  let ?xs = "map (\<lambda>(k, op). cleanup_request (op_res op) (op_multishot op) (op_user_data op)) (sort_key fst (rs_ops s))
           @ map (\<lambda>(k, op). cleanup_request (or_res op) (or_multishot op) (or_user_data op)) (sort_key fst (rs_orphaned s))"
  have d: "distinct (map fst (rs_ops s))" "distinct (map fst (rs_orphaned s))" using ok by (simp_all add: uring_ok_def)
  have "cleanup_request (op_res op) (op_multishot op) (op_user_data op) \<noteq> None" if "(k, op) \<in> set (rs_ops s)" for k op
    using cleanup_request_returns ring_ok_op [OF ok map_of_is_SomeI [OF d(1) that]] by blast
  moreover have "cleanup_request (or_res op) (or_multishot op) (or_user_data op) \<noteq> None" if "(k, op) \<in> set (rs_orphaned s)" for k op
    using cleanup_request_returns ring_ok_orphan [OF ok map_of_is_SomeI [OF d(2) that]] by blast
  ultimately have "None \<notin> set ?xs" by fastforce
  then obtain rs where rs: "collect_requests ?xs = Some rs" "length rs \<le> length ?xs" using collect_requests_returns by blast
  from queue_cleanups_effect [OF w, of rs] rs(2) user_data_left show ?thesis
    by (auto simp: queue_pending_cleanups_locked_def rs(1))
qed

lemma reap_loop_effect:
  assumes "wsafe s kern (cs @ due)" "\<And>u t. rs_cancel_targets s u = Some t \<Longrightarrow> rs_ops_by s t = None"
    "unat (rs_next_user_data s) + length cs < 2 ^ 64 - 1"
  shows "\<exists>s' ws fds q. reap_loop cs s = Some (s', ws, fds, q) \<and> wsafe s' kern due \<and> evolves cs s s'
    \<and> unat (rs_next_user_data s') \<le> unat (rs_next_user_data s) + length cs \<and> unat (rs_next_user_data s) \<le> unat (rs_next_user_data s')"
  using assms
proof (induction cs arbitrary: s)
  case (Cons c cs)
  obtain s1 ws fds rf where r: "reap_cqe c s = Some (s1, ws, fds, rf)" "wsafe s1 kern (cs @ due)" "evolves [c] s s1" "rs_next_user_data s1 = rs_next_user_data s"
    using reap_cqe_effect [of s kern c "cs @ due"] Cons.prems(1,2) by auto
  define qs where "qs = (case rf of None \<Rightarrow> (False, s1)
    | Some (t, addr, len, grp, bid) \<Rightarrow> (case queue_provide_buffer_locked t addr len grp bid s1 of (Inl e, s) \<Rightarrow> (False, s) | (Inr _, s) \<Rightarrow> (True, s)))"
  obtain q s2 where qs: "qs = (q, s2)" by fastforce
  have s2: "wsafe s2 kern (cs @ due) \<and> evolves [] s1 s2 \<and> unat (rs_next_user_data s2) \<le> Suc (unat (rs_next_user_data s1)) \<and> unat (rs_next_user_data s1) \<le> unat (rs_next_user_data s2)"
  proof (cases rf)
    case None
    then show ?thesis using qs r by (simp add: qs_def)
  next
    case (Some p)
    obtain t addr len grp bid where p: "p = (t, addr, len, grp, bid)" by (cases p)
    obtain x s3 where x: "queue_provide_buffer_locked t addr len grp bid s1 = (x, s3)" by fastforce
    have "s2 = s3" using qs Some p x by (cases x) (simp_all add: qs_def)
    then show ?thesis using provide_buffer_effect [OF r(2) _ x] r(4) Cons.prems(3) by simp
  qed
  have ev: "evolves [c] s s2" using evolves_trans [OF r(3), of "[]" s2] s2 by simp
  have "rs_ops_by s2 t = None" if "rs_cancel_targets s2 u = Some t" for u t
    using ev Cons.prems(2) that unfolding evolves_def by metis
  with Cons.IH [of s2] s2 r(4) Cons.prems(3) obtain s' ws' fds' q' where
    *: "reap_loop cs s2 = Some (s', ws', fds', q')" "wsafe s' kern due" "evolves cs s2 s'" "unat (rs_next_user_data s') \<le> unat (rs_next_user_data s2) + length cs" "unat (rs_next_user_data s2) \<le> unat (rs_next_user_data s')"
    by (auto simp: r(4))
  have "reap_loop (c # cs) s = Some (s', ws @ ws', fds @ fds', q \<or> q')"
    using r(1) qs * by (simp add: qs_def [symmetric])
  then show ?case using * evolves_trans [OF ev *(3)] s2 r(4) by auto
qed (auto intro: exI [of _ False])

text \<open>A whole pass over the completions.\<close>

definition user_data_left :: "uring \<Rightarrow> bool" where
  "user_data_left s \<longleftrightarrow> unat (rs_next_user_data s) + unat (cq_available (rs_cq s)) + length (rs_ops s) + length (rs_orphaned s) < 2 ^ 64 - 2"

lemma reap_effect:
  assumes w: "wsafe s kern (cq_read (rs_cq s) @ due)" and cq: "cq_ok (rs_cq s)" and nt: "\<And>u t. rs_cancel_targets s u = Some t \<Longrightarrow> rs_ops_by s t = None"
    and rm: "user_data_left s"
  shows "\<exists>n ws fds q s2. reap_locked s = Some (n, ws, fds, q, s2\<lparr>rs_cq := cq_publish (cq_available (rs_cq s)) (rs_cq s)\<rparr>)
    \<and> wsafe s2 kern due \<and> evolves (cq_read (rs_cq s)) s s2 \<and> unat (rs_next_user_data s) \<le> unat (rs_next_user_data s2)"
proof -
  have "\<exists>s' ws fds q. reap_loop (cq_read (rs_cq s)) s = Some (s', ws, fds, q) \<and> wsafe s' kern due \<and> evolves (cq_read (rs_cq s)) s s'
      \<and> unat (rs_next_user_data s') \<le> unat (rs_next_user_data s) + length (cq_read (rs_cq s)) \<and> unat (rs_next_user_data s) \<le> unat (rs_next_user_data s')"
    by (rule reap_loop_effect [OF w nt]) (use rm in \<open>auto simp: user_data_left_def\<close>)
  then obtain s1 ws fds q where l: "reap_loop (cq_read (rs_cq s)) s = Some (s1, ws, fds, q)" "wsafe s1 kern due" "evolves (cq_read (rs_cq s)) s s1"
    "unat (rs_next_user_data s1) \<le> unat (rs_next_user_data s) + length (cq_read (rs_cq s))" "unat (rs_next_user_data s) \<le> unat (rs_next_user_data s1)"
    by blast
  have "length (rs_ops s1) = length (rs_ops s)" "length (rs_orphaned s1) \<le> length (rs_orphaned s)" using l(3) by (simp_all add: evolves_def)
  then have "unat (rs_next_user_data s1) + length (rs_ops s1) + length (rs_orphaned s1) < 2 ^ 64 - 1" using l(4) rm by (simp add: user_data_left_def)
  from pending_cleanups_effect [OF l(2) this] obtain b s2 where c: "queue_pending_cleanups_locked s1 = Some (b, s2)" "wsafe s2 kern due" "evolves [] s1 s2"
    "unat (rs_next_user_data s1) \<le> unat (rs_next_user_data s2)" by blast
  have ev: "evolves (cq_read (rs_cq s)) s s2" using evolves_trans [OF l(3) c(3)] by simp
  then have "rs_cq s2 = rs_cq s" by (simp add: evolves_def)
  then have "reap_locked s = Some (unat (cq_available (rs_cq s)), ws, fds, q \<or> b, s2\<lparr>rs_cq := cq_publish (cq_available (rs_cq s)) (rs_cq s)\<rparr>)"
    using l(1) c(1) by (simp add: reap_locked_def Let_def)
  then show ?thesis using c(2,4) ev l(5) by (meson le_trans)
qed

section \<open>Results, orphans, cancellations, and what the kernel writes\<close>

lemma wsafe_remove_op:
  assumes w: "wsafe s kern cqs" and op: "map_of (rs_ops s) key = Some op" "op_complete op"
  shows "wsafe (remove_op (op_user_data op) key s) kern cqs \<and> tracked (remove_op (op_user_data op) key s) = (tracked s)(op_user_data op := None)"
proof -
  have ok: "uring_ok s" using w by (simp add: wsafe_def)
  note re = remove_op_effect [OF ok op(1)]
  have "safe ((tracked s)(op_user_data op := None)) (rs_cancel_targets s) (rs_provide_targets s) (rs_cleanup_targets s) (rs_next_user_data s) (sq_contents (rs_sq s) @ kern) cqs"
    using tracked_op [OF ok op(1)] op(2) by (intro safe_untrack_finished [OF wsafe_safe [OF w]]) (auto simp: is_complete_status)
  moreover have "rs_sq (remove_op (op_user_data op) key s) = rs_sq s" "rs_sqpoll (remove_op (op_user_data op) key s) = rs_sqpoll s"
    by (simp_all add: remove_op_def)
  ultimately have "wsafe (remove_op (op_user_data op) key s) kern cqs"
    by (intro wsafe_view [OF w]) (use re in \<open>simp_all only:\<close>, simp_all add: remove_op_def)
  then show ?thesis using re by blast
qed

lemma wsafe_orphan:
  assumes w: "wsafe s kern cqs" and v: "vacant_ok vacant" and op: "map_of (rs_ops s) key = Some op" and o: "orphan_locked vacant key s = (fds, t, s')"
  shows "wsafe s' kern cqs \<and> (\<forall>u x. tracked s' u = Some x \<longrightarrow> tracked s u = Some x) \<and> t = (if op_complete op then None else Some (op_user_data op))
    \<and> map_of (rs_ops s') = (map_of (rs_ops s))(key := None) \<and> rs_ops_by s' = (rs_ops_by s)(op_user_data op := None)
    \<and> rs_cancel_targets s' = rs_cancel_targets s \<and> rs_cq s' = rs_cq s \<and> rs_next_user_data s' = rs_next_user_data s"
proof -
  have ok: "uring_ok s" using w by (simp add: wsafe_def)
  note oe = orphan_locked_effect [OF ok v op o]
  have s': "s' = s\<lparr>rs_ops := AList.delete key (rs_ops s), rs_ops_by := (rs_ops_by s)(op_user_data op := None), rs_orphaned := rs_orphaned s', rs_orphaned_by := rs_orphaned_by s'\<rparr>"
    using oe by blast
  have fl: "rs_sq s' = rs_sq s" "rs_sqpoll s' = rs_sqpoll s" "rs_cancel_targets s' = rs_cancel_targets s" "rs_provide_targets s' = rs_provide_targets s"
    "rs_cleanup_targets s' = rs_cleanup_targets s" "rs_next_user_data s' = rs_next_user_data s" "rs_cq s' = rs_cq s"
    "rs_ops_by s' = (rs_ops_by s)(op_user_data op := None)" "rs_ops s' = AList.delete key (rs_ops s)" by (subst s', simp)+
  have "safe (tracked s') (rs_cancel_targets s) (rs_provide_targets s) (rs_cleanup_targets s) (rs_next_user_data s) (sq_contents (rs_sq s) @ kern) cqs"
  proof (cases "op_complete op")
    case True
    then show ?thesis using safe_untrack_finished [OF wsafe_safe [OF w]] tracked_op [OF ok op] oe by (auto simp: is_complete_status)
  next
    case False
    then show ?thesis using wsafe_safe [OF w] oe by simp
  qed
  then have "wsafe s' kern cqs" by (intro wsafe_view [OF w]) (use oe fl in simp_all)
  then show ?thesis using oe fl by (auto simp: delete_conv' split: if_splits)
qed

lemma uring_cancel_effect:
  assumes w: "wsafe s kern cqs" and rm: "Suc (unat (rs_next_user_data s)) < 2 ^ 64" and t: "t < rs_next_user_data s" and c: "submit_cancel_locked t s = (r, s')"
  shows "wsafe s' kern cqs \<and> rs_next_user_data s \<le> rs_next_user_data s' \<and> s' = s\<lparr>rs_next_user_data := rs_next_user_data s', rs_sq := rs_sq s', rs_cancel_targets := rs_cancel_targets s'\<rparr>
    \<and> (\<forall>u t'. rs_cancel_targets s' u = Some t' \<longrightarrow> t' = t \<or> rs_cancel_targets s u = Some t')"
proof -
  obtain r1 s1 where n: "next_user_data s = (r1, s1)" by fastforce
  note a = alloc_effect [OF w n rm]
  have s1: "s1 = s\<lparr>rs_next_user_data := rs_next_user_data s1\<rparr>" and lt: "rs_next_user_data s < rs_next_user_data s1" using a by blast+
  have q1: "rs_sq s1 = rs_sq s" "rs_cancel_targets s1 = rs_cancel_targets s" by (subst s1, simp)+
  have e1: "s1 = s\<lparr>rs_next_user_data := rs_next_user_data s1, rs_sq := rs_sq s1, rs_cancel_targets := rs_cancel_targets s1\<rparr>" "rs_cancel_targets s1 = rs_cancel_targets s"
    by (subst s1) (simp_all add: q1)
  show ?thesis
  proof (cases r1)
    case (Inl e)
    then show ?thesis using c n a lt e1 by (auto simp: submit_cancel_locked_def)
  next
    case (Inr ud)
    define e where "e = sqe_of IORING_OP_ASYNC_CANCEL 0 0 (- 1) 0 t 0 0 ud 0"
    show ?thesis
    proof (cases "queue_sqe e s1")
      case (Inl er)
      then show ?thesis using c n a lt e1 Inr by (auto simp: submit_cancel_locked_def e_def)
    next
      case q: (Inr s2)
      have "is_control e" "sqe_user_data e = ud" and ec: "sqe_opcode e = IORING_OP_ASYNC_CANCEL" "sqe_addr e = t" by (simp_all add: e_def sqe_of_def is_control_def)
      note qc = queue_control_effect [OF w n [unfolded Inr] rm this(1,2) q]
      have s2: "s2 = s\<lparr>rs_next_user_data := rs_next_user_data s2, rs_sq := rs_sq s2\<rparr>" "unat (rs_next_user_data s2) = Suc (unat (rs_next_user_data s))" using qc by blast+
      have "t < rs_next_user_data s2" using t s2(2) by (simp add: word_less_nat_alt)
      then have "wsafe (s2\<lparr>rs_cancel_targets := (rs_cancel_targets s2)(ud \<mapsto> t)\<rparr>) kern cqs" using qc ec by blast
      moreover have s': "s' = s2\<lparr>rs_cancel_targets := (rs_cancel_targets s2)(ud \<mapsto> t)\<rparr>" using c n Inr q by (simp add: submit_cancel_locked_def e_def)
      moreover have "s' = s\<lparr>rs_next_user_data := rs_next_user_data s', rs_sq := rs_sq s', rs_cancel_targets := rs_cancel_targets s'\<rparr>"
        unfolding s' by (subst s2(1)) simp
      moreover have "rs_cancel_targets s2 = rs_cancel_targets s" by (subst s2(1)) simp
      ultimately show ?thesis using s2(2) by (auto simp: word_le_nat_alt)
    qed
  qed
qed

text \<open>The kernel fills the buffers of an operation; lengths and addresses stay.\<close>

definition write_vec :: "(vec_u8 \<Rightarrow> u8 list) \<Rightarrow> vec_u8 \<Rightarrow> vec_u8" where
  "write_vec f b = b\<lparr>v_bytes := f b\<rparr>"

fun write_bytes :: "(vec_u8 \<Rightarrow> u8 list) \<Rightarrow> op_resource \<Rightarrow> op_resource" where
  "write_bytes f (Buffer b) = Buffer (write_vec f b)"
| "write_bytes f (Vectored bs p io) = Vectored (map (write_vec f) bs) p io"
| "write_bytes f (FixedBuffer reg i n) = FixedBuffer (reg\<lparr>rb_buffers := map (write_vec f) (rb_buffers reg)\<rparr>) i n"
| "write_bytes f (FixedFileBuffer reg i b) = FixedFileBuffer reg i (write_vec f b)"
| "write_bytes f (MultishotRecv b) = MultishotRecv (write_vec f b)"
| "write_bytes f r = r"

definition kernel_write :: "(vec_u8 \<Rightarrow> u8 list) \<Rightarrow> u64 \<Rightarrow> uring \<Rightarrow> uring" where
  "kernel_write f u s =
     (case rs_ops_by s u of
        Some k \<Rightarrow> update_op k (op_res_update (write_bytes f)) s
      | None \<Rightarrow> (case rs_orphaned_by s u of Some k \<Rightarrow> update_orphan k (or_res_update (write_bytes f)) s | None \<Rightarrow> s))"

definition resource_shape :: "op_resource \<Rightarrow> op_resource" where
  "resource_shape = write_bytes (\<lambda>b. replicate (length (v_bytes b)) 0)"

lemma write_shape:
  assumes "\<And>b. length (f b) = length (v_bytes b)"
  shows "resource_shape (write_bytes f r) = resource_shape r" "addr_len (write_bytes f r) = addr_len r" "is_multishot (write_bytes f r) = is_multishot r"
    "op_ok (write_bytes f r) m = op_ok r m" "owns_memory (write_bytes f r) e = owns_memory r e"
proof -
  show "resource_shape (write_bytes f r) = resource_shape r" by (cases r) (simp_all add: resource_shape_def write_vec_def assms)
  show a: "addr_len (write_bytes f r) = addr_len r" by (cases r) (simp_all add: write_vec_def assms)
  show i: "is_multishot (write_bytes f r) = is_multishot r" by (cases r) simp_all
  have "write_bytes f r = MultishotAccept \<longleftrightarrow> r = MultishotAccept" "(\<exists>b. write_bytes f r = MultishotRecv b) \<longleftrightarrow> (\<exists>b. r = MultishotRecv b)"
    by (cases r, simp_all)+
  then show "op_ok (write_bytes f r) m = op_ok r m" by (simp add: op_ok_def i split: option.split multishot_kind.split)
  show "owns_memory (write_bytes f r) e = owns_memory r e" by (simp add: owns_memory_def a i)
qed

lemma safe_rewrite:
  assumes s: "safe tr ct pt cl nxt live cqs" and u: "tr u = Some (r, st)" and r: "is_multishot r' = is_multishot r" "\<And>e. owns_memory r' e = owns_memory r e"
  shows "safe (tr(u \<mapsto> (r', st))) ct pt cl nxt live cqs"
  unfolding safe_def
proof (intro conjI)
  have "dom (tr(u \<mapsto> (r', st))) = dom tr" using u by auto
  moreover have "(tr(u \<mapsto> (r', st))) v \<noteq> None \<longleftrightarrow> tr v \<noteq> None" for v using u by simp
  ultimately show "uds_ok (tr(u \<mapsto> (r', st))) ct pt nxt live cqs" using s by (simp add: safe_def uds_ok_def)
  show "live_ok (tr(u \<mapsto> (r', st))) live" using s u r by (auto simp: safe_def live_ok_def)
  show "cqs_ok (tr(u \<mapsto> (r', st))) (sqe_user_data ` set live) cqs" using s u r by (auto simp: safe_def cqs_ok_def)
qed (use s in \<open>simp add: safe_def\<close>)

lemma kernel_write_effect:
  assumes w: "wsafe s kern cqs" and f: "\<And>b. length (f b) = length (v_bytes b)"
  shows "wsafe (kernel_write f u s) kern cqs \<and> rs_ops_by (kernel_write f u s) = rs_ops_by s \<and> rs_cq (kernel_write f u s) = rs_cq s
    \<and> rs_cancel_targets (kernel_write f u s) = rs_cancel_targets s \<and> rs_next_user_data (kernel_write f u s) = rs_next_user_data s
    \<and> (\<forall>k op. map_of (rs_ops s) k = Some op \<longrightarrow> (\<exists>op'. map_of (rs_ops (kernel_write f u s)) k = Some op' \<and> op_user_data op' = op_user_data op))
    \<and> (\<forall>v r st. tracked (kernel_write f u s) v = Some (r, st) \<longrightarrow> (\<exists>r'. tracked s v = Some (r', st) \<and> resource_shape r = resource_shape r'))"
proof -
  have ok: "uring_ok s" using w by (simp add: wsafe_def)
  note ws = write_shape [of f, OF f]
  show ?thesis
  proof (cases "rs_ops_by s u")
    case (Some k)
    let ?g = "op_res_update (write_bytes f) :: op_state \<Rightarrow> op_state"
    obtain op where op: "map_of (rs_ops s) k = Some op" "op_user_data op = u" using ring_ok_lookup [OF ok Some] by blast
    have g: "op_user_data (?g op) = op_user_data op" "op_ok (op_res (?g op)) (op_multishot (?g op))" "op_multishot (?g op) \<noteq> None \<longrightarrow> op_result (?g op) = None"
      using ring_ok_op [OF ok op(1)] ws(4) by simp_all
    note ue = update_op_effect [where f = ?g, OF ok op(1) g]
    have t: "tracked s u = Some (op_view op)" using tracked_op [OF ok op(1)] op(2) by simp
    have st: "op_status (?g op) = op_status op" by (simp add: op_status_def split: option.split)
    then have t': "tracked (update_op k ?g s) = (tracked s)(u \<mapsto> (write_bytes f (op_res op), op_status op))" using ue op(2) by simp
    have "wsafe (update_op k ?g s) kern cqs"
      using safe_rewrite [OF wsafe_safe [OF w] t, of "write_bytes f (op_res op)"] ws(3,5) op(2)
      by (intro wsafe_update_op [where f = ?g, OF w op(1) g]) (simp add: st)
    moreover have "\<exists>op''. map_of (rs_ops (update_op k ?g s)) k' = Some op'' \<and> op_user_data op'' = op_user_data op'" if "map_of (rs_ops s) k' = Some op'" for k' op'
      using ue op that by (cases "k' = k") auto
    moreover have "\<exists>r'. tracked s v = Some (r', st) \<and> resource_shape r = resource_shape r'" if "tracked (update_op k ?g s) v = Some (r, st)" for v r st
      using that t t' ws(1) by (cases "v = u") auto
    moreover have "kernel_write f u s = update_op k ?g s" using Some by (simp add: kernel_write_def)
    ultimately show ?thesis by (simp add: update_op_def)
  next
    case none: None
    show ?thesis
    proof (cases "rs_orphaned_by s u")
      case None
      then show ?thesis using none w by (simp add: kernel_write_def)
    next
      case (Some k)
      let ?g = "or_res_update (write_bytes f) :: orphaned_op \<Rightarrow> orphaned_op"
      obtain op where op: "map_of (rs_orphaned s) k = Some op" "or_user_data op = u" using ring_ok_orphan_lookup [OF ok Some] by blast
      have g: "or_user_data (?g op) = or_user_data op" "op_ok (or_res (?g op)) (or_multishot (?g op))"
        using ring_ok_orphan [OF ok op(1)] ws(4) by simp_all
      note ue = update_orphan_effect [where f = ?g, OF ok op(1) g]
      have t: "tracked s u = Some (orphan_view op)" using tracked_orphan [OF ok op(1)] op(2) by simp
      have t': "tracked (update_orphan k ?g s) = (tracked s)(u \<mapsto> (write_bytes f (or_res op), multishot_status (or_multishot op)))" using ue op(2) by simp
      have fl: "rs_sq (update_orphan k ?g s) = rs_sq s" "rs_sqpoll (update_orphan k ?g s) = rs_sqpoll s" by (simp_all add: update_orphan_def)
      have "wsafe (update_orphan k ?g s) kern cqs"
        using safe_rewrite [OF wsafe_safe [OF w] t, of "write_bytes f (or_res op)"] ws(3,5) ue t'
        by (intro wsafe_view [OF w]) (simp_all only: fl, simp_all add: update_orphan_def)
      moreover have "\<exists>r'. tracked s v = Some (r', st) \<and> resource_shape r = resource_shape r'" if "tracked (update_orphan k ?g s) v = Some (r, st)" for v r st
        using that t t' ws(1) by (cases "v = u") auto
      moreover have "kernel_write f u s = update_orphan k ?g s" using none Some by (simp add: kernel_write_def)
      ultimately show ?thesis by (simp add: update_orphan_def)
    qed
  qed
qed
end
