(* ===== verification/Uring_System.thy ===== *)
theory Uring_System
  imports Uring_Steps
begin

text \<open>
  The completion ring with the kernel on its other side, in every interleaving: operations are started,
  submitted, taken by the kernel, completed, reaped, polled, cancelled and cleaned up. The properties of
  \<open>io/uring.rs\<close> are stated here.
\<close>

section \<open>The ring and the kernel\<close>

text \<open>Beside the ring: the requests that the kernel holds, completions it has not posted yet, the keys that
  futures hold, the orphans still to be cancelled; and as history the completions reaped and the
  resource that each operation was started with.\<close>

record uring_sys =
  us_ring :: uring
  us_kern :: "sqe list"
  us_due :: "cqe list"
  us_held :: "nat \<rightharpoonup> u64"
  us_cancel :: "u64 set"
  us_reaped :: "cqe list"
  us_started :: "u64 \<rightharpoonup> op_resource"

text \<open>What is documented of the kernel: it consumes no more entries than it is passed; a request has one final
  completion, and others before it only if it is a multishot request; a cancellation that reports
  success has found its target and ended it; the buffers of a provision are accepted. Each step of the
  ring is one critical section. User data are not exhausted (\<open>user_data_left\<close>). Futures are as in \<open>Uring_Futures\<close>: the
  length they pass does not exceed their buffer.\<close>

definition kernel_answers :: "sqe list \<Rightarrow> sqe \<Rightarrow> cqe \<Rightarrow> bool" where
  "kernel_answers others e c \<longleftrightarrow> cqe_user_data c = sqe_user_data e
     \<and> (sqe_opcode e = IORING_OP_ASYNC_CANCEL \<longrightarrow> cqe_res c = 0 \<longrightarrow> sqe_addr e \<notin> sqe_user_data ` set others)
     \<and> (sqe_opcode e = IORING_OP_PROVIDE_BUFFERS \<longrightarrow> 0 \<le> sint (cqe_res c))"

abbreviation us_next :: "uring_sys \<Rightarrow> u64" where
  "us_next y \<equiv> rs_next_user_data (us_ring y)"

inductive uring_reach :: "slab_keys \<Rightarrow> uring_sys \<Rightarrow> bool" for vacant where
  create: "sq_ok q \<Longrightarrow> sq_contents q = [] \<Longrightarrow> sq_pending q = 0 \<Longrightarrow> cq_ok c \<Longrightarrow> cq_read c = [] \<Longrightarrow>
    uring_reach vacant \<lparr>us_ring = uring_new sqpoll q c, us_kern = [], us_due = [], us_held = Map.empty, us_cancel = {}, us_reaped = [],
      us_started = Map.empty\<rparr>"
| start: "uring_reach vacant y \<Longrightarrow> user_data_left (us_ring y) \<Longrightarrow> \<not> is_multishot res \<Longrightarrow>
    opc \<notin> {IORING_OP_ASYNC_CANCEL, IORING_OP_PROVIDE_BUFFERS, IORING_OP_REMOVE_BUFFERS} \<Longrightarrow>
    (\<And>a l. addr_len res = Some (Inr (a, l)) \<Longrightarrow> len \<le> l) \<Longrightarrow>
    start_op vacant opc fd res off len rw wk (us_ring y) = Some (out, s) \<Longrightarrow>
    uring_reach vacant (y\<lparr>us_ring := s, us_held := (case out of Inl _ \<Rightarrow> us_held y | Inr key \<Rightarrow> (us_held y)(key \<mapsto> us_next y)),
      us_started := (us_started y)(us_next y \<mapsto> res)\<rparr>)"
| accept: "uring_reach vacant y \<Longrightarrow> user_data_left (us_ring y) \<Longrightarrow> start_multishot_accept vacant fd wk (us_ring y) = (out, s) \<Longrightarrow>
    uring_reach vacant (y\<lparr>us_ring := s, us_held := (case out of Inl _ \<Rightarrow> us_held y | Inr key \<Rightarrow> (us_held y)(key \<mapsto> us_next y)),
      us_started := (us_started y)(us_next y \<mapsto> MultishotAccept)\<rparr>)"
| recv: "uring_reach vacant y \<Longrightarrow> user_data_left (us_ring y) \<Longrightarrow> start_multishot_recv vacant p fd bs bc wk (us_ring y) = (out, s) \<Longrightarrow>
    uring_reach vacant (y\<lparr>us_ring := s, us_held := (case out of Inl _ \<Rightarrow> us_held y | Inr key \<Rightarrow> (us_held y)(key \<mapsto> us_next y)),
      us_started := (us_started y)(us_next y \<mapsto> MultishotRecv \<lparr>v_ptr = p, v_bytes = replicate (bs * bc) 0\<rparr>)\<rparr>)"
| uring_submit: "uring_reach vacant y \<Longrightarrow> uring_submit os (us_ring y) = Some (res', es, s) \<Longrightarrow>
    (\<And>n. Submitted n \<in> set os \<Longrightarrow> n \<le> sq_pending (rs_sq (us_ring y))) \<Longrightarrow>
    uring_reach vacant (y\<lparr>us_ring := s, us_kern := us_kern y @ es\<rparr>)"
| poller: "uring_reach vacant y \<Longrightarrow> rs_sqpoll (us_ring y) \<Longrightarrow> n \<le> length (sq_contents (rs_sq (us_ring y))) \<Longrightarrow>
    kernel_consume n (rs_sq (us_ring y)) = (es, q) \<Longrightarrow>
    uring_reach vacant (y\<lparr>us_ring := (us_ring y)\<lparr>rs_sq := q\<rparr>, us_kern := us_kern y @ es\<rparr>)"
| fill: "uring_reach vacant y \<Longrightarrow> e \<in> set (us_kern y) \<Longrightarrow> (\<And>b. length (f b) = length (v_bytes b)) \<Longrightarrow>
    uring_reach vacant (y\<lparr>us_ring := kernel_write f (sqe_user_data e) (us_ring y)\<rparr>)"
| complete: "uring_reach vacant y \<Longrightarrow> us_kern y = es @ e # es' \<Longrightarrow> is_final c \<Longrightarrow>
    kernel_answers (sq_contents (rs_sq (us_ring y)) @ es @ es') e c \<Longrightarrow>
    uring_reach vacant (y\<lparr>us_kern := es @ es', us_due := us_due y @ [c]\<rparr>)"
| multishot: "uring_reach vacant y \<Longrightarrow> e \<in> set (us_kern y) \<Longrightarrow> \<not> is_final c \<Longrightarrow> cqe_user_data c = sqe_user_data e \<Longrightarrow>
    sqe_ioprio e \<noteq> 0 \<Longrightarrow> \<not> is_control e \<Longrightarrow> uring_reach vacant (y\<lparr>us_due := us_due y @ [c]\<rparr>)"
| post: "uring_reach vacant y \<Longrightarrow> us_due y = cs @ c # cs' \<Longrightarrow> (\<And>d. d \<in> set cs \<Longrightarrow> cqe_user_data d \<noteq> cqe_user_data c) \<Longrightarrow>
    kernel_post c (rs_cq (us_ring y)) = Some cq \<Longrightarrow>
    uring_reach vacant (y\<lparr>us_ring := (us_ring y)\<lparr>rs_cq := cq\<rparr>, us_due := cs @ cs'\<rparr>)"
| reap: "uring_reach vacant y \<Longrightarrow> user_data_left (us_ring y) \<Longrightarrow> reap_locked (us_ring y) = Some (n, ws, fds, q, s) \<Longrightarrow>
    uring_reach vacant (y\<lparr>us_ring := s, us_reaped := us_reaped y @ cq_read (rs_cq (us_ring y))\<rparr>)"
| result: "uring_reach vacant y \<Longrightarrow> us_held y key = Some u \<Longrightarrow> take_op_result key (us_ring y) = (Some x, s) \<Longrightarrow>
    uring_reach vacant (y\<lparr>us_ring := s, us_held := (us_held y)(key := None)\<rparr>)"
| event: "uring_reach vacant y \<Longrightarrow> us_held y key = Some u \<Longrightarrow> take_multishot_event key (us_ring y) = (ev, s) \<Longrightarrow>
    uring_reach vacant (y\<lparr>us_ring := s\<rparr>)"
| finished: "uring_reach vacant y \<Longrightarrow> us_held y key = Some u \<Longrightarrow> multishot_finished key (us_ring y) \<Longrightarrow>
    uring_reach vacant (y\<lparr>us_ring := remove_multishot key (us_ring y), us_held := (us_held y)(key := None)\<rparr>)"
| waker: "uring_reach vacant y \<Longrightarrow> us_held y key = Some u \<Longrightarrow> uring_reach vacant (y\<lparr>us_ring := set_waker key wk (us_ring y)\<rparr>)"
| uring_orphan: "uring_reach vacant y \<Longrightarrow> us_held y key = Some u \<Longrightarrow> orphan_locked vacant key (us_ring y) = (fds, t, s) \<Longrightarrow>
    uring_reach vacant (y\<lparr>us_ring := s, us_held := (us_held y)(key := None), us_cancel := us_cancel y \<union> set_option t\<rparr>)"
| cancel: "uring_reach vacant y \<Longrightarrow> t \<in> us_cancel y \<Longrightarrow> user_data_left (us_ring y) \<Longrightarrow> submit_cancel_locked t (us_ring y) = (r, s) \<Longrightarrow>
    uring_reach vacant (y\<lparr>us_ring := s, us_cancel := us_cancel y - {t}\<rparr>)"
| forget: "uring_reach vacant y \<Longrightarrow> uring_reach vacant (y\<lparr>us_ring := forget_cancel cud (us_ring y)\<rparr>)"

section \<open>Invariant\<close>

definition held_ok :: "uring \<Rightarrow> (nat \<rightharpoonup> u64) \<Rightarrow> bool" where
  "held_ok s held \<longleftrightarrow> (\<forall>key u. held key = Some u \<longrightarrow> (\<exists>op. map_of (rs_ops s) key = Some op \<and> op_user_data op = u))"

definition cancel_ok :: "uring \<Rightarrow> u64 set \<Rightarrow> bool" where
  "cancel_ok s cn \<longleftrightarrow> (\<forall>t. t \<in> cn \<or> t \<in> ran (rs_cancel_targets s) \<longrightarrow> rs_ops_by s t = None \<and> t < rs_next_user_data s)"

definition history_ok :: "(u64 \<rightharpoonup> op_resource \<times> status) \<Rightarrow> cqe list \<Rightarrow> (u64 \<rightharpoonup> op_resource) \<Rightarrow> bool" where
  "history_ok tr reaped started \<longleftrightarrow> (\<forall>u r st. tr u = Some (r, st) \<longrightarrow>
     (\<exists>r0. started u = Some r0 \<and> resource_shape r = resource_shape r0) \<and> (\<forall>x. st = Done x \<longrightarrow> (\<exists>c\<in>set reaped. cqe_user_data c = u \<and> x = os_result (cqe_res c))))"

definition sys_inv :: "uring_sys \<Rightarrow> bool" where
  "sys_inv y \<longleftrightarrow> wsafe (us_ring y) (us_kern y) (cq_read (rs_cq (us_ring y)) @ us_due y) \<and> cq_ok (rs_cq (us_ring y))
     \<and> held_ok (us_ring y) (us_held y) \<and> cancel_ok (us_ring y) (us_cancel y)
     \<and> history_ok (tracked (us_ring y)) (us_reaped y) (us_started y)"

lemmas sys_inv_parts = sys_inv_def [THEN iffD1, THEN conjunct1] sys_inv_def [THEN iffD1, THEN conjunct2, THEN conjunct1]
  sys_inv_def [THEN iffD1, THEN conjunct2, THEN conjunct2, THEN conjunct1] sys_inv_def [THEN iffD1, THEN conjunct2, THEN conjunct2, THEN conjunct2, THEN conjunct1]
  sys_inv_def [THEN iffD1, THEN conjunct2, THEN conjunct2, THEN conjunct2, THEN conjunct2]

lemma wsafe_cq [simp]: "wsafe (s\<lparr>rs_cq := c\<rparr>) kern cqs = wsafe s kern cqs"
  by (simp add: wsafe_def pending_ok_def)

lemma held_kept:
  assumes "held_ok s held" "\<And>k op. map_of (rs_ops s) k = Some op \<Longrightarrow> \<exists>op'. map_of (rs_ops s') k = Some op' \<and> op_user_data op' = op_user_data op"
  shows "held_ok s' held"
  using assms unfolding held_ok_def by metis

lemma held_removed: "held_ok s held \<Longrightarrow> map_of (rs_ops s') = (map_of (rs_ops s))(key := None) \<Longrightarrow> held_ok s' (held(key := None))"
  by (auto simp: held_ok_def)

lemma cancel_kept:
  assumes "cancel_ok s cn" "\<And>u. rs_ops_by s u = None \<Longrightarrow> u < rs_next_user_data s \<Longrightarrow> rs_ops_by s' u = None"
    "cn' \<union> ran (rs_cancel_targets s') \<subseteq> cn \<union> ran (rs_cancel_targets s)" "rs_next_user_data s \<le> rs_next_user_data s'"
  shows "cancel_ok s' cn'"
  unfolding cancel_ok_def
proof (intro allI impI)
  fix t assume "t \<in> cn' \<or> t \<in> ran (rs_cancel_targets s')"
  then have "rs_ops_by s t = None \<and> t < rs_next_user_data s" using assms(1,3) by (auto simp: cancel_ok_def)
  then show "rs_ops_by s' t = None \<and> t < rs_next_user_data s'" using assms(2,4) by (meson order_less_le_trans)
qed

lemma history_kept:
  assumes "history_ok tr reaped started" "set reaped \<subseteq> set reaped'"
    "\<And>u r st. tr' u = Some (r, st) \<Longrightarrow> \<exists>r' st'. tr u = Some (r', st') \<and> resource_shape r = resource_shape r'
       \<and> (\<forall>x. st = Done x \<longrightarrow> st' = Done x \<or> (\<exists>c\<in>set reaped'. cqe_user_data c = u \<and> x = os_result (cqe_res c)))"
  shows "history_ok tr' reaped' started"
  unfolding history_ok_def
proof (intro allI impI)
  fix u r st assume "tr' u = Some (r, st)"
  then obtain r' st' where t: "tr u = Some (r', st')" "resource_shape r = resource_shape r'"
    "\<forall>x. st = Done x \<longrightarrow> st' = Done x \<or> (\<exists>c\<in>set reaped'. cqe_user_data c = u \<and> x = os_result (cqe_res c))" using assms(3) by blast
  then show "(\<exists>r0. started u = Some r0 \<and> resource_shape r = resource_shape r0)
      \<and> (\<forall>x. st = Done x \<longrightarrow> (\<exists>c\<in>set reaped'. cqe_user_data c = u \<and> x = os_result (cqe_res c)))"
    using assms(1,2) unfolding history_ok_def by (metis subsetD)
qed

lemma history_shrinks:
  "history_ok tr reaped started \<Longrightarrow> (\<And>u x. tr' u = Some x \<Longrightarrow> tr u = Some x) \<Longrightarrow> history_ok tr' reaped started"
  unfolding history_ok_def by blast

lemma tracked_below: "wsafe s kern cqs \<Longrightarrow> tracked s (rs_next_user_data s) = None"
  using safe_fresh(1) [OF wsafe_safe] .

text \<open>The starts have one argument.\<close>

lemma inv_start:
  assumes y: "sys_inv y" and w: "wsafe s (us_kern y) (cq_read (rs_cq (us_ring y)) @ us_due y)" and n: "unat (us_next y) \<le> unat (rs_next_user_data s)"
    and g: "grows res (us_ring y) s (case out of Inl _ \<Rightarrow> None | Inr key \<Rightarrow> Some key)"
  shows "sys_inv (y\<lparr>us_ring := s, us_held := (case out of Inl _ \<Rightarrow> us_held y | Inr key \<Rightarrow> (us_held y)(key \<mapsto> us_next y)),
      us_started := (us_started y)(us_next y \<mapsto> res)\<rparr>)"
proof -
  let ?r = "us_ring y"
  have g': "rs_cancel_targets s = rs_cancel_targets ?r" "rs_cq s = rs_cq ?r" "\<And>k op. map_of (rs_ops ?r) k = Some op \<Longrightarrow> map_of (rs_ops s) k = Some op"
    "\<And>u. u \<noteq> us_next y \<Longrightarrow> rs_ops_by s u = rs_ops_by ?r u"
    "tracked s = tracked ?r \<or> tracked s = (tracked ?r)(us_next y \<mapsto> (res, InFlight))"
    using g unfolding grows_def by blast+
  have key: "\<exists>op. map_of (rs_ops s) key = Some op \<and> op_user_data op = us_next y" if "out = Inr key" for key
    using g that by (simp add: grows_def)
  have "held_ok s (us_held y)" by (rule held_kept [OF sys_inv_parts(3) [OF y]]) (use g'(3) in blast)
  then have "held_ok s (case out of Inl _ \<Rightarrow> us_held y | Inr key \<Rightarrow> (us_held y)(key \<mapsto> us_next y))"
    using key by (auto simp: held_ok_def split: sum.split)
  moreover have "cancel_ok s (us_cancel y)"
    by (rule cancel_kept [OF sys_inv_parts(4) [OF y]]) (use g'(1,4) n in \<open>auto simp: word_le_nat_alt\<close>)
  moreover have "history_ok (tracked s) (us_reaped y) ((us_started y)(us_next y \<mapsto> res))"
    using sys_inv_parts(5) [OF y] g'(5) tracked_below [OF sys_inv_parts(1) [OF y]] by (auto simp: history_ok_def)
  ultimately show ?thesis using w g'(2) sys_inv_parts(2) [OF y] by (simp add: sys_inv_def)
qed

text \<open>A step that only works on the queues.\<close>

lemma inv_queues:
  assumes y: "sys_inv y" and w: "wsafe s kern (cq_read (rs_cq s) @ due)" and c: "cq_ok (rs_cq s)"
    and s: "s = (us_ring y)\<lparr>rs_sq := rs_sq s, rs_cq := rs_cq s\<rparr>"
  shows "sys_inv (y\<lparr>us_ring := s, us_kern := kern, us_due := due\<rparr>)"
proof -
  have "held_ok s (us_held y)" "cancel_ok s (us_cancel y)" "history_ok (tracked s) (us_reaped y) (us_started y)"
    using sys_inv_parts [OF y] by (subst s, simp add: held_ok_def cancel_ok_def)+
  then show ?thesis using w c by (simp add: sys_inv_def)
qed

lemma inv_complete:
  assumes y: "sys_inv y" and k: "us_kern y = es @ e # es'" and c: "is_final c" "kernel_answers (sq_contents (rs_sq (us_ring y)) @ es @ es') e c"
  shows "sys_inv (y\<lparr>us_kern := es @ es', us_due := us_due y @ [c]\<rparr>)"
proof -
  let ?r = "us_ring y" and ?q = "sq_contents (rs_sq (us_ring y))"
  note w = sys_inv_parts(1) [OF y]
  have "mset (?q @ us_kern y) = mset (e # ?q @ es @ es')" by (simp add: k)
  from safe_perm [OF this] wsafe_safe [OF w]
  have "safe (tracked ?r) (rs_cancel_targets ?r) (rs_provide_targets ?r) (rs_cleanup_targets ?r) (rs_next_user_data ?r) (e # ?q @ es @ es') (cq_read (rs_cq ?r) @ us_due y)"
    by simp
  from safe_post(1) [OF this _ _ _ c(1)] c(2) have "wsafe ?r (es @ es') ((cq_read (rs_cq ?r) @ us_due y) @ [c])"
    using w by (simp add: wsafe_def kernel_answers_def)
  then show ?thesis using y by (simp add: sys_inv_def)
qed

lemma inv_multishot:
  assumes y: "sys_inv y" and e: "e \<in> set (us_kern y)" and c: "\<not> is_final c" "cqe_user_data c = sqe_user_data e" "sqe_ioprio e \<noteq> 0" "\<not> is_control e"
  shows "sys_inv (y\<lparr>us_due := us_due y @ [c]\<rparr>)"
proof -
  let ?r = "us_ring y" and ?q = "sq_contents (rs_sq (us_ring y))"
  note w = sys_inv_parts(1) [OF y]
  obtain es es' where k: "us_kern y = es @ e # es'" using split_list [OF e] by blast
  have m: "mset (?q @ us_kern y) = mset (e # ?q @ es @ es')" by (simp add: k)
  from safe_perm [OF this] wsafe_safe [OF w]
  have "safe (tracked ?r) (rs_cancel_targets ?r) (rs_provide_targets ?r) (rs_cleanup_targets ?r) (rs_next_user_data ?r) (e # ?q @ es @ es') (cq_read (rs_cq ?r) @ us_due y)"
    by simp
  moreover have "sqe_opcode e \<noteq> IORING_OP_ASYNC_CANCEL" "sqe_opcode e \<noteq> IORING_OP_PROVIDE_BUFFERS" using c(4) by (auto simp: is_control_def)
  ultimately have "safe (tracked ?r) (rs_cancel_targets ?r) (rs_provide_targets ?r) (rs_cleanup_targets ?r) (rs_next_user_data ?r) (e # ?q @ es @ es') ((cq_read (rs_cq ?r) @ us_due y) @ [c])"
    by (intro safe_post(2) [OF _ c(2) _ _ c(1,3,4)]) simp_all
  then have "wsafe ?r (us_kern y) ((cq_read (rs_cq ?r) @ us_due y) @ [c])"
    by (rule wsafe_perm [OF _ m]) (use w in \<open>simp_all add: wsafe_def\<close>)
  then show ?thesis using y by (simp add: sys_inv_def)
qed

lemma inv_post:
  assumes y: "sys_inv y" and d: "us_due y = cs @ c # cs'" "\<And>d. d \<in> set cs \<Longrightarrow> cqe_user_data d \<noteq> cqe_user_data c"
    and p: "kernel_post c (rs_cq (us_ring y)) = Some cq"
  shows "sys_inv (y\<lparr>us_ring := (us_ring y)\<lparr>rs_cq := cq\<rparr>, us_due := cs @ cs'\<rparr>)"
proof -
  let ?r = "us_ring y"
  note pa = kernel_post_appends [OF sys_inv_parts(2) [OF y] p]
  have "wsafe ?r (us_kern y) (cq_read (rs_cq ?r) @ c # cs @ cs')"
    using sys_inv_parts(1) [OF y] safe_reorder [OF _ d(2), of _ _ _ _ _ _ "cq_read (rs_cq ?r)" cs cs'] by (simp add: wsafe_def d(1))
  then have "sys_inv (y\<lparr>us_ring := ?r\<lparr>rs_cq := cq\<rparr>, us_kern := us_kern y, us_due := cs @ cs'\<rparr>)"
    using pa by (intro inv_queues [OF y]) simp_all
  then show ?thesis by simp
qed

lemma inv_poller:
  assumes y: "sys_inv y" and r: "rs_sqpoll (us_ring y)" "n \<le> length (sq_contents (rs_sq (us_ring y)))" and k: "kernel_consume n (rs_sq (us_ring y)) = (es, q)"
  shows "sys_inv (y\<lparr>us_ring := (us_ring y)\<lparr>rs_sq := q\<rparr>, us_kern := us_kern y @ es\<rparr>)"
proof -
  let ?r = "us_ring y" and ?q = "sq_contents (rs_sq (us_ring y))"
  note w = sys_inv_parts(1) [OF y]
  have ok: "sq_ok (rs_sq ?r)" using w by (simp add: wsafe_def)
  note cd = consume_drops [OF ok r(2), unfolded k, simplified]
  have "es = take n ?q" using k by (simp add: kernel_consume_def)
  then have "mset ?q = mset es + mset (drop n ?q)" by (metis append_take_drop_id mset_append)
  then have "mset (drop n ?q @ us_kern y @ es) = mset (?q @ us_kern y)" by (simp add: add_ac)
  then have "wsafe (?r\<lparr>rs_sq := q\<rparr>) (us_kern y @ es) (cq_read (rs_cq ?r) @ us_due y)"
    using cd r(1) wsafe_safe [OF w] w by (intro wsafe_perm [where live = "?q @ us_kern y"]) (simp_all add: wsafe_def pending_ok_def)
  then have "sys_inv (y\<lparr>us_ring := ?r\<lparr>rs_sq := q\<rparr>, us_kern := us_kern y @ es, us_due := us_due y\<rparr>)"
    using sys_inv_parts(2) [OF y] by (intro inv_queues [OF y]) simp_all
  then show ?thesis by simp
qed

lemma inv_submit:
  assumes y: "sys_inv y" and st: "uring_submit os (us_ring y) = Some (res', es, s)" and os: "\<And>n. Submitted n \<in> set os \<Longrightarrow> n \<le> sq_pending (rs_sq (us_ring y))"
  shows "sys_inv (y\<lparr>us_ring := s, us_kern := us_kern y @ es\<rparr>)"
proof -
  note e = submit_effect [OF sys_inv_parts(1) [OF y] st os]
  have s: "s = (us_ring y)\<lparr>rs_sq := rs_sq s\<rparr>" using e by blast
  have cq: "rs_cq s = rs_cq (us_ring y)" by (subst s) simp
  have "sys_inv (y\<lparr>us_ring := s, us_kern := us_kern y @ es, us_due := us_due y\<rparr>)"
    by (rule inv_queues [OF y]) (use e cq sys_inv_parts(2) [OF y] s in simp_all)
  then show ?thesis by simp
qed

lemma inv_fill:
  assumes y: "sys_inv y" and f: "\<And>b. length (f b) = length (v_bytes b)"
  shows "sys_inv (y\<lparr>us_ring := kernel_write f u (us_ring y)\<rparr>)"
proof -
  note e = kernel_write_effect [of _ _ _ f, OF sys_inv_parts(1) [OF y] f, of u]
  have "held_ok (kernel_write f u (us_ring y)) (us_held y)" by (rule held_kept [OF sys_inv_parts(3) [OF y]]) (use e in blast)
  moreover have "cancel_ok (kernel_write f u (us_ring y)) (us_cancel y)" by (rule cancel_kept [OF sys_inv_parts(4) [OF y]]) (use e in simp_all)
  moreover have "history_ok (tracked (kernel_write f u (us_ring y))) (us_reaped y) (us_started y)"
    by (rule history_kept [OF sys_inv_parts(5) [OF y]]) (use e in blast)+
  ultimately show ?thesis using e sys_inv_parts(2) [OF y] by (simp add: sys_inv_def)
qed

lemma inv_reap:
  assumes y: "sys_inv y" and rm: "user_data_left (us_ring y)"
  shows "\<exists>n ws fds q s. reap_locked (us_ring y) = Some (n, ws, fds, q, s)
    \<and> sys_inv (y\<lparr>us_ring := s, us_reaped := us_reaped y @ cq_read (rs_cq (us_ring y))\<rparr>)"
proof -
  let ?r = "us_ring y"
  have nt: "rs_cancel_targets ?r u = Some t \<Longrightarrow> rs_ops_by ?r t = None" for u t using sys_inv_parts(4) [OF y] by (auto simp: cancel_ok_def ran_def)
  obtain n ws fds q s2 where r: "reap_locked ?r = Some (n, ws, fds, q, s2\<lparr>rs_cq := cq_publish (cq_available (rs_cq ?r)) (rs_cq ?r)\<rparr>)"
    and w: "wsafe s2 (us_kern y) (us_due y)" and ev: "evolves (cq_read (rs_cq ?r)) ?r s2" and nx: "unat (us_next y) \<le> unat (rs_next_user_data s2)"
    using reap_effect [OF sys_inv_parts(1) [OF y] sys_inv_parts(2) [OF y] _ rm] nt by blast
  note p = cq_publish_drops [OF sys_inv_parts(2) [OF y], of "cq_available (rs_cq ?r)", simplified]
  have "held_ok s2 (us_held y)" by (rule held_kept [OF sys_inv_parts(3) [OF y]]) (use ev in \<open>simp add: evolves_def\<close>)
  moreover have "cancel_ok s2 (us_cancel y)"
    by (rule cancel_kept [OF sys_inv_parts(4) [OF y]]) (use ev nx in \<open>auto simp: evolves_def ran_def word_le_nat_alt\<close>)
  moreover have "history_ok (tracked s2) (us_reaped y @ cq_read (rs_cq ?r)) (us_started y)"
  proof (rule history_kept [OF sys_inv_parts(5) [OF y]])
    fix u r st assume "tracked s2 u = Some (r, st)"
    then obtain st' where "tracked ?r u = Some (r, st')" "\<forall>x. st = Done x \<longrightarrow> st' = Done x \<or> (\<exists>c\<in>set (cq_read (rs_cq ?r)). cqe_user_data c = u \<and> x = os_result (cqe_res c))"
      using ev unfolding evolves_def by blast
    then show "\<exists>r' st'. tracked ?r u = Some (r', st') \<and> resource_shape r = resource_shape r'
        \<and> (\<forall>x. st = Done x \<longrightarrow> st' = Done x \<or> (\<exists>c\<in>set (us_reaped y @ cq_read (rs_cq ?r)). cqe_user_data c = u \<and> x = os_result (cqe_res c)))"
      by auto
  qed simp
  ultimately have "sys_inv (y\<lparr>us_ring := s2\<lparr>rs_cq := cq_publish (cq_available (rs_cq ?r)) (rs_cq ?r)\<rparr>, us_reaped := us_reaped y @ cq_read (rs_cq ?r)\<rparr>)"
    using w p by (simp add: sys_inv_def held_ok_def cancel_ok_def)
  then show ?thesis using r by blast
qed

text \<open>Removing a finished operation, for its result or at the end of its events.\<close>

lemma inv_remove:
  assumes y: "sys_inv y" and op: "map_of (rs_ops (us_ring y)) key = Some op" "op_complete op"
  shows "sys_inv (y\<lparr>us_ring := remove_op (op_user_data op) key (us_ring y), us_held := (us_held y)(key := None)\<rparr>)"
proof -
  let ?s = "remove_op (op_user_data op) key (us_ring y)"
  note e = wsafe_remove_op [OF sys_inv_parts(1) [OF y] op]
  have f: "rs_cq ?s = rs_cq (us_ring y)" "rs_cancel_targets ?s = rs_cancel_targets (us_ring y)" "rs_next_user_data ?s = us_next y"
    "map_of (rs_ops ?s) = (map_of (rs_ops (us_ring y)))(key := None)" "rs_ops_by ?s = (rs_ops_by (us_ring y))(op_user_data op := None)"
    by (simp_all add: remove_op_def delete_conv')
  have "held_ok ?s ((us_held y)(key := None))" by (rule held_removed [OF sys_inv_parts(3) [OF y] f(4)])
  moreover have "cancel_ok ?s (us_cancel y)" by (rule cancel_kept [OF sys_inv_parts(4) [OF y]]) (simp_all add: f)
  moreover have "history_ok (tracked ?s) (us_reaped y) (us_started y)"
    by (rule history_shrinks [OF sys_inv_parts(5) [OF y]]) (use e in \<open>auto split: if_splits\<close>)
  ultimately show ?thesis using e f(1) sys_inv_parts(2) [OF y] by (simp add: sys_inv_def)
qed

text \<open>An update of an operation that neither its resource nor its status shows.\<close>

lemma inv_update:
  assumes y: "sys_inv y" and op: "map_of (rs_ops (us_ring y)) key = Some op" and u: "op_user_data (f op) = op_user_data op" "op_view (f op) = op_view op"
    and f: "op_ok (op_res (f op)) (op_multishot (f op))" "op_multishot (f op) \<noteq> None \<longrightarrow> op_result (f op) = None"
  shows "sys_inv (y\<lparr>us_ring := update_op key f (us_ring y)\<rparr>)"
proof -
  let ?s = "update_op key f (us_ring y)"
  note w = sys_inv_parts(1) [OF y]
  have ok: "uring_ok (us_ring y)" using w by (simp add: wsafe_def)
  note e = wsafe_update_op_same [where f = f, OF w op u f] and m = update_op_effect [where f = f, OF ok op u(1) f]
  have "held_ok ?s (us_held y)" by (rule held_kept [OF sys_inv_parts(3) [OF y]]) (use m op u(1) in auto)
  moreover have "cancel_ok ?s (us_cancel y)" by (rule cancel_kept [OF sys_inv_parts(4) [OF y]]) (simp_all add: update_op_def)
  moreover have "history_ok (tracked ?s) (us_reaped y) (us_started y)" using sys_inv_parts(5) [OF y] e by simp
  moreover have "rs_cq ?s = rs_cq (us_ring y)" by (simp add: update_op_def)
  ultimately show ?thesis using e sys_inv_parts(2) [OF y] by (simp add: sys_inv_def)
qed

lemma held_op: "sys_inv y \<Longrightarrow> us_held y key = Some u \<Longrightarrow> \<exists>op. map_of (rs_ops (us_ring y)) key = Some op \<and> op_user_data op = u"
  using sys_inv_parts(3) [of y] by (simp add: held_ok_def)

lemma inv_event:
  assumes y: "sys_inv y" and h: "us_held y key = Some u" and t: "take_multishot_event key (us_ring y) = (ev, s)"
  shows "sys_inv (y\<lparr>us_ring := s\<rparr>)"
proof (cases "s = us_ring y")
  case False
  obtain op where op: "map_of (rs_ops (us_ring y)) key = Some op" using held_op [OF y h] by blast
  then obtain ms e evs where m: "op_multishot op = Some ms" "ms_events ms = e # evs"
    and s: "s = update_op key (op_multishot_update (\<lambda>_. Some (ms\<lparr>ms_events := evs\<rparr>))) (us_ring y)"
    using t False by (auto simp: take_multishot_event_def split: option.splits list.splits)
  let ?f = "op_multishot_update (\<lambda>_. Some (ms\<lparr>ms_events := evs\<rparr>)) :: op_state \<Rightarrow> op_state"
  have "uring_ok (us_ring y)" using sys_inv_parts(1) [OF y] by (simp add: wsafe_def)
  note o = ring_ok_op [OF this op]
  have "op_ok (op_res (?f op)) (op_multishot (?f op))" using o m by (auto simp: op_ok_def split: multishot_kind.splits)
  moreover have "op_view (?f op) = op_view op" using m by (auto simp: op_status_def multishot_status_def split: option.split)
  ultimately show ?thesis unfolding s using inv_update [where f = ?f, OF y op] o m by simp
qed (use y in simp)

lemma inv_waker:
  assumes y: "sys_inv y" and h: "us_held y key = Some u"
  shows "sys_inv (y\<lparr>us_ring := set_waker key wk (us_ring y)\<rparr>)"
proof -
  let ?f = "\<lambda>op. op\<lparr>op_waker := Some wk\<rparr> :: op_state"
  obtain op where op: "map_of (rs_ops (us_ring y)) key = Some op" using held_op [OF y h] by blast
  have "uring_ok (us_ring y)" using sys_inv_parts(1) [OF y] by (simp add: wsafe_def)
  moreover have "op_view (?f op) = op_view op" by (simp add: op_status_def split: option.split)
  ultimately show ?thesis unfolding set_waker_def using inv_update [where f = ?f, OF y op] ring_ok_op op by simp
qed

lemma inv_orphan:
  assumes y: "sys_inv y" and v: "vacant_ok vacant" and h: "us_held y key = Some u" and o: "orphan_locked vacant key (us_ring y) = (fds, t, s)"
  shows "sys_inv (y\<lparr>us_ring := s, us_held := (us_held y)(key := None), us_cancel := us_cancel y \<union> set_option t\<rparr>)"
proof -
  let ?r = "us_ring y"
  note w = sys_inv_parts(1) [OF y]
  have ok: "uring_ok ?r" using w by (simp add: wsafe_def)
  obtain op where op: "map_of (rs_ops ?r) key = Some op" using held_op [OF y h] by blast
  note e = wsafe_orphan [OF w v op o]
  have tr: "tracked ?r (op_user_data op) = Some (op_view op)" by (rule tracked_op [OF ok op])
  then have "op_user_data op < us_next y" using wsafe_safe [OF w] by (auto simp: safe_def uds_ok_def)
  then have tk: "x < us_next y \<and> rs_ops_by s x = None" if "t = Some x" for x using e that by (auto split: if_splits)
  have "held_ok s ((us_held y)(key := None))" by (rule held_removed [OF sys_inv_parts(3) [OF y]]) (use e in blast)
  moreover have "cancel_ok s (us_cancel y)" by (rule cancel_kept [OF sys_inv_parts(4) [OF y]]) (use e in auto)
  moreover have "rs_next_user_data s = us_next y" using e by blast
  moreover have "history_ok (tracked s) (us_reaped y) (us_started y)" by (rule history_shrinks [OF sys_inv_parts(5) [OF y]]) (use e in blast)
  ultimately show ?thesis using e tk sys_inv_parts(2) [OF y] by (auto simp: sys_inv_def cancel_ok_def)
qed

lemma inv_cancel:
  assumes y: "sys_inv y" and t: "t \<in> us_cancel y" and rm: "user_data_left (us_ring y)" and c: "submit_cancel_locked t (us_ring y) = (r, s)"
  shows "sys_inv (y\<lparr>us_ring := s, us_cancel := us_cancel y - {t}\<rparr>)"
proof -
  have "t < us_next y" using sys_inv_parts(4) [OF y] t by (simp add: cancel_ok_def)
  moreover have "Suc (unat (us_next y)) < 2 ^ 64" using rm by (simp add: user_data_left_def)
  ultimately have e: "wsafe s (us_kern y) (cq_read (rs_cq (us_ring y)) @ us_due y)" "us_next y \<le> rs_next_user_data s"
    "s = (us_ring y)\<lparr>rs_next_user_data := rs_next_user_data s, rs_sq := rs_sq s, rs_cancel_targets := rs_cancel_targets s\<rparr>"
    "\<And>u t'. rs_cancel_targets s u = Some t' \<Longrightarrow> t' = t \<or> rs_cancel_targets (us_ring y) u = Some t'"
    using uring_cancel_effect [OF sys_inv_parts(1) [OF y] _ _ c] by blast+
  have f: "rs_ops_by s = rs_ops_by (us_ring y)" "rs_ops s = rs_ops (us_ring y)" "rs_cq s = rs_cq (us_ring y)" "tracked s = tracked (us_ring y)"
    by (subst e(3), simp add: tracked_def)+
  have "cancel_ok s (us_cancel y - {t})"
    by (rule cancel_kept [OF sys_inv_parts(4) [OF y]]) (use f(1) e(2) e(4) t in \<open>auto simp: ran_def\<close>)
  moreover have "held_ok s (us_held y)" using sys_inv_parts(3) [OF y] by (simp add: held_ok_def f(2))
  ultimately show ?thesis using e(1) f sys_inv_parts(2,5) [OF y] by (simp add: sys_inv_def)
qed

lemma inv_forget:
  assumes y: "sys_inv y"
  shows "sys_inv (y\<lparr>us_ring := forget_cancel cud (us_ring y)\<rparr>)"
proof -
  let ?s = "forget_cancel cud (us_ring y)"
  have "wsafe ?s (us_kern y) (cq_read (rs_cq (us_ring y)) @ us_due y)"
    using sys_inv_parts(1) [OF y] safe_unregister_cancel by (simp add: wsafe_def forget_cancel_def pending_ok_def)
  moreover have "cancel_ok ?s (us_cancel y)" by (rule cancel_kept [OF sys_inv_parts(4) [OF y]]) (auto simp: forget_cancel_def ran_def split: if_splits)
  ultimately show ?thesis using y by (simp add: sys_inv_def held_ok_def forget_cancel_def)
qed

lemma inv_create:
  assumes "sq_ok q" "sq_contents q = []" "sq_pending q = 0" "cq_ok c" "cq_read c = []"
  shows "sys_inv \<lparr>us_ring = uring_new sqpoll q c, us_kern = [], us_due = [], us_held = Map.empty, us_cancel = {}, us_reaped = [],
      us_started = Map.empty\<rparr>"
proof -
  let ?s = "uring_new sqpoll q c"
  have "tracked ?s = Map.empty" by (simp add: tracked_def trk_def uring_new_def fun_eq_iff)
  moreover have "uring_ok ?s" by (simp add: uring_ok_def idx_ok_def tab_ok_def uring_new_def)
  moreover have "pending_ok ?s" using assms by (simp add: pending_ok_def uring_new_def del: length_sq_contents)
  ultimately show ?thesis
    using assms by (simp add: sys_inv_def wsafe_def held_ok_def cancel_ok_def history_ok_def uring_new_def safe_new)
qed

lemma take_result_complete:
  "take_op_result key s = (Some (x, r), s') \<Longrightarrow> \<exists>op. map_of (rs_ops s) key = Some op \<and> op_result op = Some x \<and> op_res op = r \<and> s' = remove_op (op_user_data op) key s"
  by (auto simp: take_op_result_def split: option.splits)

lemma uring_invariant: "uring_reach vacant y \<Longrightarrow> vacant_ok vacant \<Longrightarrow> sys_inv y"
proof (induction rule: uring_reach.induct)
  case (start y res opc len fd off rw wk out s)
  have rm: "Suc (unat (us_next y)) < 2 ^ 64" using start.hyps(2) by (simp add: user_data_left_def)
  from start_op_effect [OF sys_inv_parts(1) start.prems rm start.hyps(3,4,5,6)] start.IH [OF start.prems]
  show ?case by (intro inv_start) auto
next
  case (accept y fd wk out s)
  have rm: "Suc (unat (us_next y)) < 2 ^ 64" using accept.hyps(2) by (simp add: user_data_left_def)
  from start_multishot_accept_effect [OF sys_inv_parts(1) accept.prems rm accept.hyps(3)] accept.IH [OF accept.prems]
  show ?case by (intro inv_start) auto
next
  case (recv y p fd bs bc wk out s)
  have rm: "Suc (Suc (unat (us_next y))) < 2 ^ 64" using recv.hyps(2) by (simp add: user_data_left_def)
  from start_multishot_recv_effect [OF sys_inv_parts(1) recv.prems rm recv.hyps(3)] recv.IH [OF recv.prems]
  show ?case by (intro inv_start) auto
next
  case (result y key u x s)
  obtain r rs where "x = (r, rs)" by fastforce
  then obtain op where "map_of (rs_ops (us_ring y)) key = Some op" "op_result op = Some r" "s = remove_op (op_user_data op) key (us_ring y)"
    using take_result_complete result.hyps(3) by blast
  then show ?case using inv_remove [OF result.IH [OF result.prems]] by (simp add: op_complete_def)
next
  case (finished y key u)
  then show ?case using inv_remove [of y key]
    by (auto simp: multishot_finished_def remove_multishot_def op_complete_def bind_eq_Some_conv split: option.splits)
next
  case (reap y n ws fds q s)
  then show ?case using inv_reap [of y] by fastforce
qed (auto intro: inv_create inv_submit inv_poller inv_fill inv_complete inv_multishot inv_post inv_event inv_waker inv_orphan inv_cancel inv_forget)

section \<open>A read, step by step\<close>

definition demo_vacant :: slab_keys where "demo_vacant ks = Suc (sum_list ks)"

definition demo_sqe :: sqe where
  "demo_sqe = sqe_of IORING_OP_READ 0 0 3 0 64 2 0 1 0"

definition demo_cqe :: cqe where
  "demo_cqe = \<lparr>cqe_user_data = 1, cqe_res = 2, cqe_flags = 0\<rparr>"

abbreviation demo_op :: "(uring_error + nat) option \<Rightarrow> waker option \<Rightarrow> op_state" where
  "demo_op r w \<equiv> \<lparr>op_res = Buffer \<lparr>v_ptr = 64, v_bytes = [0, 0]\<rparr>, op_result = r, op_waker = w, op_user_data = 1, op_multishot = None\<rparr>"

abbreviation demo_ring :: "sq_ring \<Rightarrow> cq_ring \<Rightarrow> op_state \<Rightarrow> uring" where
  "demo_ring q c op \<equiv> (uring_new False q c)\<lparr>rs_ops := [(1, op)], rs_ops_by := [1 \<mapsto> 1], rs_next_user_data := 2\<rparr>"

lemma demo_vacant_ok: "vacant_ok demo_vacant"
  by (auto simp: vacant_ok_def demo_vacant_def dest: member_le_sum_list)

lemma demo_submitted:
  "\<exists>q c. cq_ok c \<and> cq_read c = [] \<and> sq_ok q \<and> sq_contents q = [] \<and>
    uring_reach demo_vacant \<lparr>us_ring = demo_ring q c (demo_op None (Some wk)), us_kern = [demo_sqe], us_due = [], us_held = [1 \<mapsto> 1], us_cancel = {}, us_reaped = [],
      us_started = [1 \<mapsto> Buffer \<lparr>v_ptr = 64, v_bytes = [0, 0]\<rparr>]\<rparr>"
proof -
  let ?c = "\<lparr>cq_head = 7, cq_tail = 7, cq_entries = 4, cq_mask = 3, cq_cqes = replicate 4 \<lparr>cqe_user_data = 0, cqe_res = 0, cqe_flags = 0\<rparr>\<rparr>"
  let ?q0 = "sq_new (- 2) (2 ^ 1) [demo_sqe, demo_sqe]" and ?b = "Buffer \<lparr>v_ptr = 64, v_bytes = [0, 0]\<rparr>"
  have ok0: "sq_ok ?q0" "sq_contents ?q0 = []" "sq_pending ?q0 = 0" "cq_ok ?c" "cq_read ?c = []"
    by (rule sq_ok_new) (simp_all add: sq_contents_def sq_new_def cq_ok_def cq_available_def cq_read_def ring_size_def exI [of _ 2] mask_eq_exp_minus_1)
  obtain q1 where q1: "queue_sqe_locked demo_sqe ?q0 = Inr q1" "sq_pending q1 = 1" by (simp add: queue_sqe_locked_def sq_new_def Let_def)
  note q1c = queue_sqe_appends [OF ok0(1) q1(1)]
  have st: "start_op demo_vacant IORING_OP_READ 3 ?b 0 0 0 wk (uring_new False ?q0 ?c) = Some (Inr 1, demo_ring q1 ?c (demo_op None (Some wk)))"
    using q1(1) by (simp add: start_op_def next_user_data_def insert_op_def uring_new_def Let_def demo_vacant_def queue_sqe_def u32_try_from_def
      demo_sqe_def sqe_of_def IORING_OP_READ_def IORING_OP_CONNECT_def)
  let ?q2 = "(snd (kernel_consume 1 q1))\<lparr>sq_pending := 0\<rparr>"
  have "submit_inner False [Submitted 1] q1 = Some (Inr 1, [demo_sqe], ?q2)"
    using q1 q1c ok0(2) by (simp add: submit_inner_def kernel_consume_def)
  then have sb: "uring_submit [Submitted 1] (demo_ring q1 ?c (demo_op None (Some wk))) = Some (Inr 1, [demo_sqe], demo_ring ?q2 ?c (demo_op None (Some wk)))"
    by (simp add: uring_submit_def uring_new_def)
  have q2: "sq_ok ?q2" "sq_contents ?q2 = []"
    using consume_drops [of q1 1] q1c ok0(2) by (simp_all add: kernel_consume_def del: length_sq_contents)
  have r0: "uring_reach demo_vacant \<lparr>us_ring = uring_new False ?q0 ?c, us_kern = [], us_due = [], us_held = Map.empty, us_cancel = {}, us_reaped = [], us_started = Map.empty\<rparr>"
    using ok0 by (rule uring_reach.create)
  have "user_data_left (uring_new False ?q0 ?c)" by (simp add: user_data_left_def uring_new_def cq_available_def)
  moreover have "IORING_OP_READ \<notin> {IORING_OP_ASYNC_CANCEL, IORING_OP_PROVIDE_BUFFERS, IORING_OP_REMOVE_BUFFERS}"
    by (simp add: IORING_OP_READ_def IORING_OP_ASYNC_CANCEL_def IORING_OP_PROVIDE_BUFFERS_def IORING_OP_REMOVE_BUFFERS_def)
  ultimately have r1: "uring_reach demo_vacant \<lparr>us_ring = demo_ring q1 ?c (demo_op None (Some wk)), us_kern = [], us_due = [], us_held = [1 \<mapsto> 1], us_cancel = {},
      us_reaped = [], us_started = [1 \<mapsto> ?b]\<rparr>"
    using uring_reach.start [OF r0 _ _ _ _, of ?b IORING_OP_READ 0 3 0 0 wk] st by (simp add: uring_new_def)
  have "uring_reach demo_vacant \<lparr>us_ring = demo_ring ?q2 ?c (demo_op None (Some wk)), us_kern = [demo_sqe], us_due = [], us_held = [1 \<mapsto> 1], us_cancel = {},
      us_reaped = [], us_started = [1 \<mapsto> ?b]\<rparr>"
    using uring_reach.uring_submit [OF r1, of "[Submitted 1]"] sb q1(2) by (simp add: uring_new_def)
  then show ?thesis using ok0 q2 by blast
qed

lemma demo_reaped:
  "\<exists>q c. uring_reach demo_vacant \<lparr>us_ring = demo_ring q c (demo_op (Some (Inr 2)) None), us_kern = [], us_due = [], us_held = [1 \<mapsto> 1], us_cancel = {},
      us_reaped = [demo_cqe], us_started = [1 \<mapsto> Buffer \<lparr>v_ptr = 64, v_bytes = [0, 0]\<rparr>]\<rparr>"
proof -
  obtain q c where ok: "cq_ok c" "cq_read c = []" "sq_ok q" "sq_contents q = []"
    and r: "uring_reach demo_vacant \<lparr>us_ring = demo_ring q c (demo_op None (Some 7)), us_kern = [demo_sqe], us_due = [], us_held = [1 \<mapsto> 1], us_cancel = {}, us_reaped = [],
      us_started = [1 \<mapsto> Buffer \<lparr>v_ptr = 64, v_bytes = [0, 0]\<rparr>]\<rparr>" using demo_submitted by blast
  have r1: "uring_reach demo_vacant \<lparr>us_ring = demo_ring q c (demo_op None (Some 7)), us_kern = [], us_due = [demo_cqe], us_held = [1 \<mapsto> 1], us_cancel = {}, us_reaped = [],
      us_started = [1 \<mapsto> Buffer \<lparr>v_ptr = 64, v_bytes = [0, 0]\<rparr>]\<rparr>"
    using uring_reach.complete [OF r, of "[]" demo_sqe "[]" demo_cqe] ok(4)
    by (simp add: kernel_answers_def demo_sqe_def sqe_of_def demo_cqe_def is_final_def uring_new_def)
  have "unat (cq_available c) = 0" using ok(2) length_cq_read [of c] by simp
  then have "cq_available c < cq_entries c" using ok(1) ring_size_pos [of "cq_entries c" "cq_mask c"] by (auto simp: cq_ok_def word_less_nat_alt)
  then obtain c1 where c1: "kernel_post demo_cqe c = Some c1" by (simp add: kernel_post_def)
  have cr: "cq_read c1 = [demo_cqe]" using kernel_post_appends [OF ok(1) c1] ok(2) by simp
  have r2: "uring_reach demo_vacant \<lparr>us_ring = demo_ring q c1 (demo_op None (Some 7)), us_kern = [], us_due = [], us_held = [1 \<mapsto> 1], us_cancel = {}, us_reaped = [],
      us_started = [1 \<mapsto> Buffer \<lparr>v_ptr = 64, v_bytes = [0, 0]\<rparr>]\<rparr>"
    using uring_reach.post [OF r1, of "[]" demo_cqe "[]" c1] c1 by (simp add: uring_new_def)
  have av: "unat (cq_available c1) = 1" using cr length_cq_read [of c1] by simp
  have "reap_locked (demo_ring q c1 (demo_op None (Some 7)))
      = Some (1, [7], [], False, demo_ring q (cq_publish (cq_available c1) c1) (demo_op (Some (Inr 2)) None))"
    using cr av by (simp add: reap_locked_def reap_cqe_def reap_op_def demo_cqe_def uring_new_def update_op_def queue_pending_cleanups_locked_def cleanup_request_def
      os_result_def wakes_of_def Let_def)
  moreover have "user_data_left (demo_ring q c1 (demo_op None (Some 7)))" using av by (simp add: user_data_left_def uring_new_def)
  ultimately have "uring_reach demo_vacant \<lparr>us_ring = demo_ring q (cq_publish (cq_available c1) c1) (demo_op (Some (Inr 2)) None), us_kern = [], us_due = [], us_held = [1 \<mapsto> 1], us_cancel = {},
      us_reaped = [demo_cqe], us_started = [1 \<mapsto> Buffer \<lparr>v_ptr = 64, v_bytes = [0, 0]\<rparr>]\<rparr>"
    using uring_reach.reap [OF r2, of 1 "[7]" "[]" False] cr by (simp add: uring_new_def)
  then show ?thesis by blast
qed

section \<open>What the ring guarantees\<close>

lemma held_view:
  assumes "sys_inv y" "us_held y key = Some u" "us_started y u = Some r0"
  shows "\<exists>op. map_of (rs_ops (us_ring y)) key = Some op \<and> op_user_data op = u \<and> tracked (us_ring y) u = Some (op_view op) \<and> resource_shape (op_res op) = resource_shape r0
    \<and> op_ok (op_res op) (op_multishot op)"
proof -
  obtain op where op: "map_of (rs_ops (us_ring y)) key = Some op" "op_user_data op = u" using held_op [OF assms(1,2)] by blast
  have ok: "uring_ok (us_ring y)" using sys_inv_parts(1) [OF assms(1)] by (simp add: wsafe_def)
  then show ?thesis using op tracked_op [OF ok op(1)] sys_inv_parts(5) [OF assms(1)] assms(3) ring_ok_op [OF ok op(1)]
    unfolding history_ok_def by fastforce
qed

lemma live_entry:
  assumes "wsafe s kern cqs" "e \<in> set (sq_contents (rs_sq s) @ kern)"
  shows "if is_control e then tracked s (sqe_user_data e) = None
    else \<exists>r. tracked s (sqe_user_data e) = Some (r, InFlight) \<and> owns_memory r e"
  using wsafe_safe [OF assms(1)] assms(2) unfolding safe_def live_ok_def by (metis (full_types))

lemma shape_selects:
  assumes "resource_shape r = resource_shape r0"
  shows "as_buffer r = None \<longleftrightarrow> as_buffer r0 = None" "as_vectored r = None \<longleftrightarrow> as_vectored r0 = None" "as_fixed_buffer r = None \<longleftrightarrow> as_fixed_buffer r0 = None"
    "as_fixed_file r = None \<longleftrightarrow> as_fixed_file r0 = None" "r = MultishotAccept \<longleftrightarrow> r0 = MultishotAccept" "(\<exists>b. r = MultishotRecv b) \<longleftrightarrow> (\<exists>b. r0 = MultishotRecv b)"
  using assms by (cases r; cases r0; simp add: resource_shape_def)+

text \<open>A poll of a started operation panics only on a resource of another kind.\<close>

lemma poll_started_returns:
  assumes "map_of (rs_ops s) key = Some op" "sel (op_res op) \<noteq> None"
  shows "poll_started sel wk key s \<noteq> None"
  using assms by (auto simp: poll_started_def take_result_as_def take_op_result_def split: option.split)

lemma held_poll_returns:
  assumes "sys_inv y" "us_held y key = Some u \<and> us_started y u = Some r0" "\<And>r. resource_shape r = resource_shape r0 \<Longrightarrow> sel r = None \<longleftrightarrow> sel r0 = None" "sel r0 \<noteq> None"
  shows "poll_started sel wk key (us_ring y) \<noteq> None"
  using held_view [of y key u r0] assms poll_started_returns by metis

lemma key_polls_return:
  "bo_key f = Some key \<Longrightarrow> poll_started as_buffer wk key s \<noteq> None \<Longrightarrow> buffer_poll opc msg vacant os os' wk f s \<noteq> None"
  "ro_key g = Some key \<Longrightarrow> poll_started as_vectored wk key s \<noteq> None \<Longrightarrow> vectored_poll opc vacant os os' wk g s \<noteq> None"
  "fb_key h = Some key \<Longrightarrow> poll_started as_fixed_buffer wk key s \<noteq> None \<Longrightarrow> fixed_buffer_poll vacant os os' wk h s \<noteq> None"
  "ff_key i = Some key \<Longrightarrow> poll_started as_fixed_file wk key s \<noteq> None \<Longrightarrow> fixed_file_poll vacant os os' wk i s \<noteq> None"
  by (auto simp: buffer_poll_def vectored_poll_def fixed_buffer_poll_def fixed_file_poll_def split: option.split)

lemma stream_poll_returns:
  assumes "map_of (rs_ops s) key = Some op" "st_key f = Some key" "\<And>ms. op_multishot op = Some ms \<Longrightarrow> \<forall>ev\<in>set (ms_events ms). sel ev \<noteq> None"
  shows "stream_poll_next b sel vacant os os' wk f s \<noteq> None"
proof -
  have "sel ev \<noteq> None" if "take_multishot_event key s = (Some ev, s')" for ev s'
    using that assms by (auto simp: take_multishot_event_def split: option.splits list.splits)
  then show ?thesis using assms(2) by (auto simp: stream_poll_next_def split: option.split prod.split)
qed

lemma op_ok_events:
  assumes "op_ok res (Some ms)" "ev \<in> set (ms_events ms)"
  shows "res = MultishotAccept \<Longrightarrow> accepted ev \<noteq> None" "res = MultishotRecv b \<Longrightarrow> received ev \<noteq> None"
  using assms by (auto simp: op_ok_def split: multishot_kind.splits)







section \<open>Corner cases of the code\<close>

text \<open>A cancellation that reports success releases a single-shot operation at once, before its own completion.\<close>

lemma cancel_releases_before_the_target:
  assumes "rs_orphaned_by s t = Some key" "map_of (rs_orphaned s) key = Some op" "or_multishot op = None"
  shows "\<exists>s'. reap_cancel t 0 s = Some s' \<and> map_of (rs_orphaned s') key = None \<and> rs_orphaned_by s' t = None"
  using assms by (simp add: reap_cancel_def slab_remove_orphan_def delete_conv')

text \<open>A failed provision ends the receive for the ring while the kernel still has it, and orphaning it then
  drops the buffers.\<close>

lemma failed_provision_frees_the_buffers:
  assumes "rs_ops_by s t = Some key" "map_of (rs_ops s) key = Some op" "op_multishot op = Some ms" "ud \<notin> rs_cleanup_targets s" "sint res < 0"
  shows "\<exists>s' ws fds s''. reap_provide ud t res s = Some (s', ws) \<and> orphan_locked vacant key s' = (fds, None, s'')
    \<and> map_of (rs_ops s'') key = None \<and> rs_orphaned s'' = rs_orphaned s"
proof -
  let ?f = "\<lambda>op. op\<lparr>op_multishot := Some (ms\<lparr>ms_events := ms_events ms @ [kind_error (ms_kind ms) (RawOs (- res))], ms_terminal := True\<rparr>), op_waker := None\<rparr> :: op_state"
  let ?s = "update_op key ?f (s\<lparr>rs_cleanup_targets := rs_cleanup_targets s - {ud}\<rparr>)"
  have r: "reap_provide ud t res s = Some (?s, wakes_of (op_waker op))" using assms by (simp add: reap_provide_def)
  have "map_of (rs_ops ?s) key = Some (?f op)" using map_of_update_slab [OF assms(2), of ?f] by (simp add: update_op_def)
  then have "\<exists>fds. orphan_locked vacant key ?s = (fds, None, remove_op (op_user_data op) key ?s)" by (simp add: orphan_locked_def op_complete_def Let_def)
  then show ?thesis using r by (auto simp: remove_op_def update_op_def delete_conv')
qed

text \<open>So does orphaning a receive that has ended, when its buffers have not been removed from the kernel yet.\<close>

lemma ended_receive_is_not_cleaned_up:
  assumes "map_of (rs_ops s) key = Some op" "op_multishot op = Some ms" "ms_terminal ms" "\<not> ms_cleanup_complete ms"
  shows "\<exists>fds s'. orphan_locked vacant key s = (fds, None, s') \<and> map_of (rs_ops s') key = None \<and> rs_orphaned s' = rs_orphaned s"
  using assms by (simp add: orphan_locked_def op_complete_def Let_def remove_op_def delete_conv')

text \<open>Descriptors that an accept stream had not taken when it was dropped are never closed: neither when it is
  orphaned nor when the last completion removes the orphan.\<close>

lemma orphaned_accepts_leak:
  assumes op: "map_of (rs_ops s) key = Some op" "op_res op = MultishotAccept" "op_multishot op = Some ms" "op_result op = None"
      "\<not> ms_terminal ms" "ms_cleanup_complete ms" "ms_events ms = [EvAccept (Inr fd)]"
    and v: "vacant_ok vacant" and c: "cqe_user_data c = op_user_data op" "cqe_flags c AND IORING_CQE_F_MORE = 0" "sint (cqe_res c) < 0"
  shows "\<exists>okey s' s''. orphan_locked vacant key s = ([], Some (op_user_data op), s') \<and> rs_orphaned_by s' (op_user_data op) = Some okey
    \<and> reap_orphan okey c s' = Some (s'', [], [], None) \<and> map_of (rs_orphaned s'') okey = None"
proof -
  let ?okey = "vacant (map fst (rs_orphaned s))"
  have "?okey \<notin> set (map fst (rs_orphaned s))" using v unfolding vacant_ok_def by blast
  then have "map_of (rs_orphaned s @ [(?okey, x)]) ?okey = Some x" for x by (subst map_of_append_fresh) simp_all
  then show ?thesis using assms
    by (simp add: orphan_locked_def op_complete_def Let_def remove_op_def reap_orphan_def slab_remove_orphan_def delete_conv')
qed

text \<open>An orphaned receive with an event that nobody will take is kept for ever by its clean-up.\<close>

lemma orphaned_receive_is_kept:
  assumes "rs_ops_by s t = None" "rs_orphaned_by s t = Some key" "map_of (rs_orphaned s) key = Some op" "or_multishot op = Some ms" "ms_events ms \<noteq> []"
  shows "\<exists>s'. reap_cleanup t res s = Some (s', []) \<and> (\<exists>op' ms'. map_of (rs_orphaned s') key = Some op' \<and> or_multishot op' = Some ms' \<and> ms_events ms' \<noteq> [])"
  using assms map_of_update_slab [OF assms(3)] by (simp add: reap_cleanup_def update_orphan_def)

text \<open>A stream that has taken the last event registers its waker in a later critical section: an event reaped in
  between wakes nobody, and the stream sleeps on it.\<close>

lemma multishot_event_wakes_nobody:
  assumes op: "map_of (rs_ops s) key = Some op" "op_multishot op = Some ms" "ms_kind ms = KindAccept" "ms_events ms = []" "\<not> ms_terminal ms" "op_waker op = None"
  shows "take_multishot_event key s = (None, s) \<and> \<not> multishot_finished key s
    \<and> (\<exists>s'. reap_op key c s = Some (s', [], [], None)
        \<and> (\<exists>op' ms'. map_of (rs_ops (set_waker key wk s')) key = Some op' \<and> op_multishot op' = Some ms' \<and> ms_events ms' \<noteq> []))"
proof -
  obtain f where f: "reap_op key c s = Some (update_op key f s, [], [], None)" "\<exists>ms'. op_multishot (f op) = Some ms' \<and> ms_events ms' \<noteq> []"
    using op by (simp add: reap_op_def Let_def wakes_of_def)
  have "map_of (rs_ops (update_op key f s)) key = Some (f op)" using map_of_update_slab [OF op(1), of f] by (simp add: update_op_def)
  from map_of_update_slab [OF this] have "map_of (rs_ops (set_waker key wk (update_op key f s))) key = Some ((f op)\<lparr>op_waker := Some wk\<rparr>)"
    by (simp add: set_waker_def update_op_def)
  then show ?thesis using op f by (auto simp: take_multishot_event_def multishot_finished_def)
qed
end
