(* ===== verification/Console_Wire.thy ===== *)
theory Console_Wire
  imports Prelude
begin

text \<open>
  The event stream between the runtime and its consoles. \<open>instrument.rs\<close> encodes events as tagged payloads
  with a length in front; \<open>eddy-console\<close> decodes them from arbitrary fragments. The two have no code in
  common: here they are proved to agree.
\<close>

unbundle bit_operations_syntax

section \<open>Events\<close>

text \<open>Strings are their UTF-8 bytes. The types of the two crates have the same fields but for instants and
  durations, which the console has in nanoseconds: they are the parameters of the datatype.\<close>

type_synonym str = "u8 list"

record src_location =
  loc_file :: str
  loc_line :: u32

datatype wake_source = WsIo u32 | WsTimer u64 | WsTask u64 | WsChannel str | WsExternal

datatype poll_outcome = PrReady | PrPending | PrPanicked

datatype unpark_reason = UrTask | UrShutdown | UrSteal | UrEvent

datatype ('i, 'd) event =
    TaskSpawned u64 "str option" src_location "u64 option"
  | TaskPollStart u64 u32 'i
  | TaskPollEnd u64 u32 'd poll_outcome
  | TaskWoken u64 wake_source
  | TaskDropped u64 u64 'd 'd
  | TaskAborted u64
  | WorkerPark u32 "'d option"
  | WorkerUnpark u32 unpark_reason
  | WorkerSteal u32 u32 u64
  | QueueDepth u32 u64 u64 bool
  | IoRegistered u32 str u64
  | IoReady u32 str "u64 list"
  | TimerSet u64 'i u64
  | TimerFired u64 'd
  | TimerCancelled u64
  | BlockingDetected u64 'd src_location
  | BudgetExhausted u64
  | ResourceContended str u64 "u64 list"

text \<open>A \<open>Duration\<close> and an \<open>Instant\<close> are nanoseconds.\<close>

type_synonym runtime_event = "(nat, nat) event"
type_synonym console_event = "(u64, u64) event"

section \<open>The encoder\<close>

text \<open>\<open>to_le_bytes\<close> and \<open>from_le_bytes\<close>.\<close>

definition le_bytes :: "nat \<Rightarrow> 'a::len word \<Rightarrow> u8 list" where
  "le_bytes n w = map (\<lambda>i. ucast (drop_bit (8 * i) w)) [0..<n]"

definition of_le_bytes :: "u8 list \<Rightarrow> 'a::len word" where
  "of_le_bytes bs = foldr (\<lambda>b acc. ucast b OR push_bit 8 acc) bs 0"

abbreviation le32 :: "u32 \<Rightarrow> u8 list" where "le32 \<equiv> le_bytes 4"
abbreviation le64 :: "u64 \<Rightarrow> u8 list" where "le64 \<equiv> le_bytes 8"

text \<open>The fields. \<open>None\<close> is the panic of an assertion.\<close>

definition put_u8 :: "u8 \<Rightarrow> u8 list option" where "put_u8 v = Some [v]"
definition put_u32 :: "u32 \<Rightarrow> u8 list option" where "put_u32 v = Some (le32 v)"
definition put_u64 :: "u64 \<Rightarrow> u8 list option" where "put_u64 v = Some (le64 v)"

definition put_bytes :: "u8 list \<Rightarrow> u8 list option" where
  "put_bytes bs = (if length bs \<le> 2 ^ 32 - 1 then Some (le32 (of_nat (length bs)) @ bs) else None)"

definition duration_ns :: "nat \<Rightarrow> u64" where "duration_ns d = of_nat (min d (2 ^ 64 - 1))"

text \<open>\<open>origin\<close> is the start of the clock, once it is set.\<close>

definition instant_ns :: "nat option \<Rightarrow> nat \<Rightarrow> u64" where
  "instant_ns origin t = duration_ns (case origin of None \<Rightarrow> 0 | Some t0 \<Rightarrow> t - t0)"

text \<open>The fields of a payload, one after the other.\<close>

fun cat :: "u8 list option list \<Rightarrow> u8 list option" where
  "cat [] = Some []"
| "cat (None # xs) = None"
| "cat (Some bs # xs) = map_option ((@) bs) (cat xs)"

definition put_location :: "src_location \<Rightarrow> u8 list option" where
  "put_location l = cat [put_bytes (loc_file l), put_u32 (loc_line l)]"

definition put_option :: "('a \<Rightarrow> u8 list option) \<Rightarrow> 'a option \<Rightarrow> u8 list option" where
  "put_option f x = (case x of None \<Rightarrow> put_u8 0 | Some v \<Rightarrow> cat [put_u8 1, f v])"

definition put_ids :: "u64 list \<Rightarrow> u8 list option" where
  "put_ids ids = (if length ids \<le> 2 ^ 32 - 1 then cat (put_u32 (of_nat (length ids)) # map put_u64 ids) else None)"

fun put_source :: "wake_source \<Rightarrow> u8 list option" where
  "put_source (WsIo fd) = cat [put_u8 0, put_u32 fd]"
| "put_source (WsTimer i) = cat [put_u8 1, put_u64 i]"
| "put_source (WsTask i) = cat [put_u8 2, put_u64 i]"
| "put_source (WsChannel k) = cat [put_u8 3, put_bytes k]"
| "put_source WsExternal = put_u8 4"

fun reason_byte :: "unpark_reason \<Rightarrow> u8" where
  "reason_byte UrTask = 0" | "reason_byte UrShutdown = 1" | "reason_byte UrSteal = 2" | "reason_byte UrEvent = 3"

fun result_byte :: "poll_outcome \<Rightarrow> u8" where
  "result_byte PrReady = 0" | "result_byte PrPending = 1" | "result_byte PrPanicked = 2"

fun encode_payload :: "nat option \<Rightarrow> runtime_event \<Rightarrow> u8 list option" where
  "encode_payload origin (TaskSpawned i name l parent) = cat [put_u8 0, put_u64 i, put_option put_bytes name, put_location l, put_option put_u64 parent]"
| "encode_payload origin (TaskPollStart i w t) = cat [put_u8 1, put_u64 i, put_u32 w, put_u64 (instant_ns origin t)]"
| "encode_payload origin (TaskPollEnd i w d r) = cat [put_u8 2, put_u64 i, put_u32 w, put_u64 (duration_ns d), put_u8 (result_byte r)]"
| "encode_payload origin (TaskWoken i src) = cat [put_u8 3, put_u64 i, put_source src]"
| "encode_payload origin (TaskDropped i n b d) = cat [put_u8 4, put_u64 i, put_u64 n, put_u64 (duration_ns b), put_u64 (duration_ns d)]"
| "encode_payload origin (TaskAborted i) = cat [put_u8 5, put_u64 i]"
| "encode_payload origin (WorkerPark w d) = cat [put_u8 6, put_u32 w, put_option (put_u64 \<circ> duration_ns) d]"
| "encode_payload origin (WorkerUnpark w r) = cat [put_u8 7, put_u32 w, put_u8 (reason_byte r)]"
| "encode_payload origin (WorkerSteal a b n) = cat [put_u8 8, put_u32 a, put_u32 b, put_u64 n]"
| "encode_payload origin (QueueDepth w l g f) = cat [put_u8 9, put_u32 w, put_u64 l, put_u64 g, put_u8 (of_bool f)]"
| "encode_payload origin (IoRegistered fd k i) = cat [put_u8 10, put_u32 fd, put_bytes k, put_u64 i]"
| "encode_payload origin (IoReady fd k ids) = cat [put_u8 11, put_u32 fd, put_bytes k, put_ids ids]"
| "encode_payload origin (TimerSet i t n) = cat [put_u8 12, put_u64 i, put_u64 (instant_ns origin t), put_u64 n]"
| "encode_payload origin (TimerFired i d) = cat [put_u8 13, put_u64 i, put_u64 (duration_ns d)]"
| "encode_payload origin (TimerCancelled i) = cat [put_u8 14, put_u64 i]"
| "encode_payload origin (BlockingDetected i d l) = cat [put_u8 15, put_u64 i, put_u64 (duration_ns d), put_location l]"
| "encode_payload origin (BudgetExhausted i) = cat [put_u8 16, put_u64 i]"
| "encode_payload origin (ResourceContended k i ids) = cat [put_u8 17, put_bytes k, put_u64 i, put_ids ids]"

definition encode_frame :: "nat option \<Rightarrow> runtime_event \<Rightarrow> u8 list option" where
  "encode_frame origin ev =
     (case encode_payload origin ev of
        None \<Rightarrow> None
      | Some payload \<Rightarrow> if length payload \<le> 2 ^ 32 - 1 then Some (le32 (of_nat (length payload)) @ payload) else None)"

section \<open>The decoder\<close>

datatype decode_error =
    FrameTooLarge u32 | UnknownTag u8 | TruncatedFrame | InvalidUtf8 | InvalidValue string | TrailingBytes u8 nat

record payload =
  pl_bytes :: "u8 list"
  pl_offset :: nat

type_synonym 'v parser = "payload \<Rightarrow> decode_error + ('v \<times> payload)"

text \<open>The operator \<open>?\<close> of the decoder.\<close>

definition pbind :: "'v parser \<Rightarrow> ('v \<Rightarrow> 'w parser) \<Rightarrow> 'w parser" where
  "pbind f g p = and_then (f p) (\<lambda>(v, p). g v p)"

definition pret :: "'v \<Rightarrow> 'v parser" where "pret v p = Inr (v, p)"

definition pfail :: "decode_error \<Rightarrow> 'v parser" where "pfail e p = Inl e"

definition take_bytes :: "nat \<Rightarrow> u8 list parser" where
  "take_bytes n p =
     (let stop = pl_offset p + n in
      if 2 ^ 64 \<le> stop then Inl TruncatedFrame
      else if length (pl_bytes p) < stop then Inl TruncatedFrame
      else Inr (take n (drop (pl_offset p) (pl_bytes p)), p\<lparr>pl_offset := stop\<rparr>))"

definition get_u8 :: "u8 parser" where "get_u8 = pbind (take_bytes 1) (\<lambda>bs. pret (bs ! 0))"
definition get_u32 :: "u32 parser" where "get_u32 = pbind (take_bytes 4) (\<lambda>bs. pret (of_le_bytes bs))"
definition get_u64 :: "u64 parser" where "get_u64 = pbind (take_bytes 8) (\<lambda>bs. pret (of_le_bytes bs))"

text \<open>\<open>String::from_utf8\<close>.\<close>

definition cont_byte :: "u8 \<Rightarrow> bool" where "cont_byte b \<longleftrightarrow> b AND 0xC0 = 0x80"

definition utf8_second :: "u8 \<Rightarrow> u8 \<Rightarrow> bool" where
  "utf8_second b c \<longleftrightarrow> cont_byte c \<and> (b = 0xE0 \<longrightarrow> 0xA0 \<le> c) \<and> (b = 0xED \<longrightarrow> c \<le> 0x9F) \<and> (b = 0xF0 \<longrightarrow> 0x90 \<le> c) \<and> (b = 0xF4 \<longrightarrow> c \<le> 0x8F)"

fun utf8_valid :: "u8 list \<Rightarrow> bool" where
  "utf8_valid [] = True"
| "utf8_valid (b # bs) =
     (if b < 0x80 then utf8_valid bs
      else if b < 0xC2 \<or> 0xF4 < b then False
      else (case bs of
              [] \<Rightarrow> False
            | c # bs \<Rightarrow>
                if \<not> utf8_second b c then False
                else if b < 0xE0 then utf8_valid bs
                else (case bs of
                        [] \<Rightarrow> False
                      | d # bs \<Rightarrow>
                          if \<not> cont_byte d then False
                          else if b < 0xF0 then utf8_valid bs
                          else (case bs of [] \<Rightarrow> False | e # bs \<Rightarrow> cont_byte e \<and> utf8_valid bs))))"

definition get_string :: "str parser" where
  "get_string = pbind get_u32 (\<lambda>n. pbind (take_bytes (unat n)) (\<lambda>bs. if utf8_valid bs then pret bs else pfail InvalidUtf8))"

definition get_optional :: "string \<Rightarrow> 'v parser \<Rightarrow> 'v option parser" where
  "get_optional what f = pbind get_u8 (\<lambda>m. if m = 0 then pret None else if m = 1 then pbind f (\<lambda>v. pret (Some v)) else pfail (InvalidValue what))"

definition get_optional_string :: "str option parser" where
  "get_optional_string = get_optional ''optional string marker'' get_string"

definition get_optional_u64 :: "u64 option parser" where
  "get_optional_u64 = get_optional ''optional integer marker'' get_u64"

definition get_location :: "src_location parser" where
  "get_location = pbind get_string (\<lambda>f. pbind get_u32 (\<lambda>n. pret \<lparr>loc_file = f, loc_line = n\<rparr>))"

fun get_u64s :: "nat \<Rightarrow> u64 list parser" where
  "get_u64s 0 = pret []"
| "get_u64s (Suc n) = pbind get_u64 (\<lambda>i. pbind (get_u64s n) (\<lambda>ids. pret (i # ids)))"

definition get_id_list :: "u64 list parser" where
  "get_id_list = pbind get_u32 (\<lambda>n p. if (length (pl_bytes p) - pl_offset p) div 8 < unat n then Inl TruncatedFrame else get_u64s (unat n) p)"

definition get_source :: "wake_source parser" where
  "get_source = pbind get_u8 (\<lambda>t.
     if t = 0 then pbind get_u32 (\<lambda>fd. pret (WsIo fd))
     else if t = 1 then pbind get_u64 (\<lambda>i. pret (WsTimer i))
     else if t = 2 then pbind get_u64 (\<lambda>i. pret (WsTask i))
     else if t = 3 then pbind get_string (\<lambda>k. pret (WsChannel k))
     else if t = 4 then pret WsExternal
     else pfail (InvalidValue ''wake source''))"

definition get_reason :: "unpark_reason parser" where
  "get_reason = pbind get_u8 (\<lambda>t. if t = 0 then pret UrTask else if t = 1 then pret UrShutdown else if t = 2 then pret UrSteal
     else if t = 3 then pret UrEvent else pfail (InvalidValue ''unpark reason''))"

definition get_result :: "poll_outcome parser" where
  "get_result = pbind get_u8 (\<lambda>t. if t = 0 then pret PrReady else if t = 1 then pret PrPending else if t = 2 then pret PrPanicked
     else pfail (InvalidValue ''poll result''))"

definition get_flag :: "bool parser" where
  "get_flag = pbind get_u8 (\<lambda>t. if t = 0 then pret False else if t = 1 then pret True else pfail (InvalidValue ''lifo marker''))"

text \<open>The fields that follow a tag.\<close>

definition get_event :: "u8 \<Rightarrow> console_event parser" where
  "get_event tag =
     (if tag = 0 then pbind get_u64 (\<lambda>i. pbind get_optional_string (\<lambda>name. pbind get_location (\<lambda>l. pbind get_optional_u64 (\<lambda>parent. pret (TaskSpawned i name l parent)))))
      else if tag = 1 then pbind get_u64 (\<lambda>i. pbind get_u32 (\<lambda>w. pbind get_u64 (\<lambda>t. pret (TaskPollStart i w t))))
      else if tag = 2 then pbind get_u64 (\<lambda>i. pbind get_u32 (\<lambda>w. pbind get_u64 (\<lambda>d. pbind get_result (\<lambda>r. pret (TaskPollEnd i w d r)))))
      else if tag = 3 then pbind get_u64 (\<lambda>i. pbind get_source (\<lambda>src. pret (TaskWoken i src)))
      else if tag = 4 then pbind get_u64 (\<lambda>i. pbind get_u64 (\<lambda>n. pbind get_u64 (\<lambda>b. pbind get_u64 (\<lambda>d. pret (TaskDropped i n b d)))))
      else if tag = 5 then pbind get_u64 (\<lambda>i. pret (TaskAborted i))
      else if tag = 6 then pbind get_u32 (\<lambda>w. pbind get_optional_u64 (\<lambda>d. pret (WorkerPark w d)))
      else if tag = 7 then pbind get_u32 (\<lambda>w. pbind get_reason (\<lambda>r. pret (WorkerUnpark w r)))
      else if tag = 8 then pbind get_u32 (\<lambda>a. pbind get_u32 (\<lambda>b. pbind get_u64 (\<lambda>n. pret (WorkerSteal a b n))))
      else if tag = 9 then pbind get_u32 (\<lambda>w. pbind get_u64 (\<lambda>l. pbind get_u64 (\<lambda>g. pbind get_flag (\<lambda>f. pret (QueueDepth w l g f)))))
      else if tag = 10 then pbind get_u32 (\<lambda>fd. pbind get_string (\<lambda>k. pbind get_u64 (\<lambda>i. pret (IoRegistered fd k i))))
      else if tag = 11 then pbind get_u32 (\<lambda>fd. pbind get_string (\<lambda>k. pbind get_id_list (\<lambda>ids. pret (IoReady fd k ids))))
      else if tag = 12 then pbind get_u64 (\<lambda>i. pbind get_u64 (\<lambda>t. pbind get_u64 (\<lambda>n. pret (TimerSet i t n))))
      else if tag = 13 then pbind get_u64 (\<lambda>i. pbind get_u64 (\<lambda>d. pret (TimerFired i d)))
      else if tag = 14 then pbind get_u64 (\<lambda>i. pret (TimerCancelled i))
      else if tag = 15 then pbind get_u64 (\<lambda>i. pbind get_u64 (\<lambda>d. pbind get_location (\<lambda>l. pret (BlockingDetected i d l))))
      else if tag = 16 then pbind get_u64 (\<lambda>i. pret (BudgetExhausted i))
      else if tag = 17 then pbind get_string (\<lambda>k. pbind get_u64 (\<lambda>i. pbind get_id_list (\<lambda>ids. pret (ResourceContended k i ids))))
      else pfail (UnknownTag tag))"

definition decode_payload :: "u8 list \<Rightarrow> decode_error + console_event" where
  "decode_payload bs =
     and_then (get_u8 \<lparr>pl_bytes = bs, pl_offset = 0\<rparr>) (\<lambda>(tag, p).
     and_then (get_event tag p) (\<lambda>(ev, p).
       if pl_offset p = length (pl_bytes p) then Inr ev else Inl (TrailingBytes tag (length (pl_bytes p) - pl_offset p))))"

text \<open>\<open>FrameDecoder\<close>. On an error the events of the same call are gone, as \<open>?\<close> drops them.\<close>

definition MAX_FRAME_SIZE :: nat where "MAX_FRAME_SIZE = 16 * 1024 * 1024"

function push_loop :: "console_event list \<Rightarrow> u8 list \<Rightarrow> (decode_error + console_event list) \<times> u8 list" where
  "push_loop evs buf =
     (if length buf < 4 then (Inr evs, buf)
      else
        let size = of_le_bytes (take 4 buf) :: u32 in
        if MAX_FRAME_SIZE < unat size then (Inl (FrameTooLarge size), buf)
        else
          let frame_size = 4 + unat size in
          if length buf < frame_size then (Inr evs, buf)
          else
            (case decode_payload (take (unat size) (drop 4 buf)) of
               Inl e \<Rightarrow> (Inl e, drop frame_size buf)
             | Inr ev \<Rightarrow> push_loop (evs @ [ev]) (drop frame_size buf)))"
  by pat_completeness auto
termination by (relation "measure (length \<circ> snd)") auto

definition decoder_push :: "u8 list \<Rightarrow> u8 list \<Rightarrow> (decode_error + console_event list) \<times> u8 list" where
  "decoder_push bytes buf = push_loop [] (buf @ bytes)"

definition decoder_finish :: "u8 list \<Rightarrow> decode_error + unit" where
  "decoder_finish buf = (if buf = [] then Inr () else Inl TruncatedFrame)"

section \<open>Bytes of integers\<close>

lemma length_le_bytes [simp]: "length (le_bytes n w) = n"
  by (simp add: le_bytes_def)

lemma bit_of_le_bytes:
  "bit (of_le_bytes bs :: 'a::len word) k \<longleftrightarrow> k < LENGTH('a) \<and> k div 8 < length bs \<and> bit (bs ! (k div 8)) (k mod 8)"
proof (induction bs arbitrary: k)
  case (Cons b bs)
  have "of_le_bytes (b # bs) = (ucast b OR push_bit 8 (of_le_bytes bs) :: 'a word)" by (simp add: of_le_bytes_def)
  then have e: "bit (of_le_bytes (b # bs) :: 'a word) k \<longleftrightarrow>
      k < LENGTH('a) \<and> (bit b k \<or> 8 \<le> k \<and> bit (of_le_bytes bs :: 'a word) (k - 8))"
    by (auto simp: bit_or_iff bit_push_bit_iff bit_ucast_iff dest: bit_imp_le_length)
  show ?case
  proof (cases "k < 8")
    case True
    then show ?thesis by (auto simp: e)
  next
    case False
    then have "\<not> bit b k" using bit_imp_le_length [of b k] by auto
    moreover have "k div 8 = Suc ((k - 8) div 8)" "k mod 8 = (k - 8) mod 8" using False by (simp_all add: le_div_geq le_mod_geq)
    ultimately show ?thesis using False Cons.IH [of "k - 8"] by (auto simp: e)
  qed
qed (simp add: of_le_bytes_def)

lemma of_le_bytes_le_bytes:
  assumes "LENGTH('a) = 8 * n"
  shows "of_le_bytes (le_bytes n (w :: 'a::len word)) = w"
proof (rule bit_word_eqI)
  fix k assume k: "k < LENGTH('a)"
  then have "k div 8 < n" using assms by auto
  then show "bit (of_le_bytes (le_bytes n w) :: 'a word) k = bit w k"
    using k by (simp add: bit_of_le_bytes le_bytes_def bit_ucast_iff bit_drop_bit_eq)
qed

lemma le_bytes_of_le_bytes:
  assumes "LENGTH('a) = 8 * n" "length bs = n"
  shows "le_bytes n (of_le_bytes bs :: 'a::len word) = bs"
proof (rule nth_equalityI)
  fix i assume "i < length (le_bytes n (of_le_bytes bs :: 'a word))"
  then have i: "i < n" by simp
  show "le_bytes n (of_le_bytes bs :: 'a word) ! i = bs ! i"
  proof (rule bit_word_eqI)
    fix j assume "j < LENGTH(8)"
    then have j: "j < 8" by simp
    then have "8 * i + j < 8 * n" "(8 * i + j) div 8 = i" "(8 * i + j) mod 8 = j" using i by simp_all
    then show "bit (le_bytes n (of_le_bytes bs :: 'a word) ! i) j = bit (bs ! i) j"
      using i j assms by (simp add: le_bytes_def bit_ucast_iff bit_drop_bit_eq bit_of_le_bytes)
  qed
qed (use assms in simp)

section \<open>Parsers\<close>

text \<open>What a parser accepts: \<open>R v xs\<close> says that it reads exactly the bytes \<open>xs\<close> and returns \<open>v\<close>. Payloads are
  no longer than a vector can be.\<close>

definition payload_ok :: "payload \<Rightarrow> bool" where
  "payload_ok p \<longleftrightarrow> pl_offset p \<le> length (pl_bytes p) \<and> length (pl_bytes p) < 2 ^ 63"

abbreviation unread :: "payload \<Rightarrow> u8 list" where "unread p \<equiv> drop (pl_offset p) (pl_bytes p)"

definition advance :: "nat \<Rightarrow> payload \<Rightarrow> payload" where "advance n p = p\<lparr>pl_offset := pl_offset p + n\<rparr>"

definition parses :: "'v parser \<Rightarrow> ('v \<Rightarrow> u8 list \<Rightarrow> bool) \<Rightarrow> bool" where
  "parses f R \<longleftrightarrow> (\<forall>p v p'. payload_ok p \<longrightarrow> (f p = Inr (v, p') \<longleftrightarrow> (\<exists>xs rs. R v xs \<and> unread p = xs @ rs \<and> p' = advance (length xs) p)))"

lemma advance_ok:
  assumes "payload_ok p" "unread p = xs @ rs"
  shows "payload_ok (advance (length xs) p) \<and> unread (advance (length xs) p) = rs"
proof -
  have "length (unread p) = length xs + length rs" using assms(2) by simp
  then have "pl_offset p + length xs \<le> length (pl_bytes p)" using assms(1) by (auto simp: payload_ok_def)
  moreover have "drop (pl_offset p + length xs) (pl_bytes p) = drop (length xs) (unread p)" by (simp add: add.commute)
  ultimately show ?thesis using assms by (simp add: payload_ok_def advance_def)
qed

lemma parses_cong: "parses f R \<Longrightarrow> (\<And>v xs. R v xs \<longleftrightarrow> S v xs) \<Longrightarrow> parses f S"
  by (simp add: parses_def)

lemma parses_ret: "parses (pret v) (\<lambda>w xs. w = v \<and> xs = [])"
  by (auto simp: parses_def pret_def advance_def)

lemma parses_fail: "parses (pfail e) (\<lambda>w xs. False)"
  by (simp add: parses_def pfail_def)

lemma parses_if: "(b \<Longrightarrow> parses f R) \<Longrightarrow> (\<not> b \<Longrightarrow> parses g S) \<Longrightarrow> parses (if b then f else g) (\<lambda>v xs. if b then R v xs else S v xs)"
  by simp

lemma parses_bind:
  assumes f: "parses f R" and g: "\<And>v. parses (g v) (S v)"
  shows "parses (pbind f g) (\<lambda>w zs. \<exists>v xs ys. zs = xs @ ys \<and> R v xs \<and> S v w ys)"
  unfolding parses_def
proof (intro allI impI)
  fix p w p'
  assume p: "payload_ok p"
  have "pbind f g p = Inr (w, p') \<longleftrightarrow> (\<exists>v q. f p = Inr (v, q) \<and> g v q = Inr (w, p'))"
    by (auto simp: pbind_def and_then_eq_Inr)
  also have "\<dots> \<longleftrightarrow> (\<exists>v xs rs. R v xs \<and> unread p = xs @ rs \<and> g v (advance (length xs) p) = Inr (w, p'))"
    using f p by (auto simp: parses_def)
  also have "\<dots> \<longleftrightarrow> (\<exists>v xs rs ys rs'. R v xs \<and> unread p = xs @ rs \<and> S v w ys \<and> rs = ys @ rs' \<and> p' = advance (length ys) (advance (length xs) p))"
    using g advance_ok [OF p] by (fastforce simp: parses_def)
  also have "\<dots> \<longleftrightarrow> (\<exists>zs rs. (\<exists>v xs ys. zs = xs @ ys \<and> R v xs \<and> S v w ys) \<and> unread p = zs @ rs \<and> p' = advance (length zs) p)"
    by (fastforce simp: advance_def add.assoc)
  finally show "pbind f g p = Inr (w, p') \<longleftrightarrow> (\<exists>zs rs. (\<exists>v xs ys. zs = xs @ ys \<and> R v xs \<and> S v w ys) \<and> unread p = zs @ rs \<and> p' = advance (length zs) p)" .
qed

text \<open>After a parser that inverts an encoding.\<close>

lemma parses_then:
  assumes "parses f (\<lambda>v xs. G v \<and> xs = enc v)" "\<And>v. parses (g v) (S v)"
  shows "parses (pbind f g) (\<lambda>w zs. \<exists>v ys. G v \<and> zs = enc v @ ys \<and> S v w ys)"
  by (rule parses_cong [OF parses_bind [OF assms]]) blast

lemma parses_take: "n < 2 ^ 63 \<Longrightarrow> parses (take_bytes n) (\<lambda>v xs. v = xs \<and> length xs = n)"
  unfolding parses_def
proof (intro allI impI)
  fix p v p' assume n: "n < 2 ^ 63" and p: "payload_ok p"
  show "take_bytes n p = Inr (v, p') \<longleftrightarrow> (\<exists>xs rs. (v = xs \<and> length xs = n) \<and> unread p = xs @ rs \<and> p' = advance (length xs) p)" (is "?l \<longleftrightarrow> ?r")
  proof
    assume ?l
    then have "pl_offset p + n \<le> length (pl_bytes p)" "v = take n (unread p)" "p' = advance n p"
      by (auto simp: take_bytes_def Let_def advance_def split: if_splits)
    then show ?r by (auto intro: exI [of _ "drop n (unread p)"] simp del: drop_drop)
  next
    assume ?r
    then obtain rs where v: "length v = n" "unread p = v @ rs" "p' = advance n p" by blast
    then have "length (unread p) = n + length rs" by simp
    then have "pl_offset p + n \<le> length (pl_bytes p)" using p by (auto simp: payload_ok_def)
    then show ?l using v n p by (simp add: take_bytes_def Let_def advance_def payload_ok_def)
  qed
qed

section \<open>Codecs\<close>

text \<open>A parser and the encoding it inverts: it accepts exactly the encodings of the good values.\<close>

locale codec =
  fixes parse :: "'v parser" and enc :: "'v \<Rightarrow> u8 list" and good :: "'v \<Rightarrow> bool"
  assumes law: "parses parse (\<lambda>v xs. good v \<and> xs = enc v)"
begin

lemma reads:
  assumes "good v" "payload_ok p" "unread p = enc v @ rs"
  shows "parse p = Inr (v, advance (length (enc v)) p)"
  using law assms unfolding parses_def by blast

text \<open>No encoding is a prefix of another.\<close>

lemma prefix_free:
  assumes g: "good v" "good w" and e: "enc v @ rs = enc w @ rs'" and l: "length (enc v @ rs) < 2 ^ 63"
  shows "v = w \<and> rs = rs'"
proof -
  let ?p = "\<lparr>pl_bytes = enc v @ rs, pl_offset = 0\<rparr>"
  have "payload_ok ?p" using l by (simp add: payload_ok_def)
  then have "parse ?p = Inr (v, advance (length (enc v)) ?p)" "parse ?p = Inr (w, advance (length (enc w)) ?p)"
    using reads [OF g(1), of ?p rs] reads [OF g(2), of ?p rs'] e by simp_all
  then show ?thesis using e by simp
qed

end

text \<open>The encodings, as the decoder sees them.\<close>

definition enc_str :: "str \<Rightarrow> u8 list" where "enc_str bs = le32 (of_nat (length bs)) @ bs"

definition good_str :: "str \<Rightarrow> bool" where "good_str bs \<longleftrightarrow> utf8_valid bs \<and> length bs < 2 ^ 32"

definition enc_option :: "('v \<Rightarrow> u8 list) \<Rightarrow> 'v option \<Rightarrow> u8 list" where
  "enc_option f x = (case x of None \<Rightarrow> [0] | Some v \<Rightarrow> 1 # f v)"

definition enc_location :: "src_location \<Rightarrow> u8 list" where "enc_location l = enc_str (loc_file l) @ le32 (loc_line l)"

definition enc_ids :: "u64 list \<Rightarrow> u8 list" where "enc_ids ids = le32 (of_nat (length ids)) @ concat (map le64 ids)"

fun enc_source :: "wake_source \<Rightarrow> u8 list" where
  "enc_source (WsIo fd) = 0 # le32 fd"
| "enc_source (WsTimer i) = 1 # le64 i"
| "enc_source (WsTask i) = 2 # le64 i"
| "enc_source (WsChannel k) = 3 # enc_str k"
| "enc_source WsExternal = [4]"

fun good_source :: "wake_source \<Rightarrow> bool" where
  "good_source (WsChannel k) = good_str k"
| "good_source _ = True"

lemma parses_u8: "parses get_u8 (\<lambda>v xs. True \<and> xs = [v])"
  unfolding get_u8_def by (rule parses_cong [OF parses_bind [OF parses_take parses_ret]]) (auto simp: length_Suc_conv)

lemma parses_tagged:
  assumes "\<And>t. parses (g t) (S t)"
  shows "parses (pbind get_u8 g) (\<lambda>w zs. zs \<noteq> [] \<and> S (hd zs) w (tl zs))"
  by (rule parses_cong [OF parses_then [OF parses_u8 assms]]) (auto simp: neq_Nil_conv)

lemma parses_u32: "parses get_u32 (\<lambda>v xs. True \<and> xs = le32 v)"
  unfolding get_u32_def
  by (rule parses_cong [OF parses_bind [OF parses_take parses_ret]]) (auto simp: of_le_bytes_le_bytes le_bytes_of_le_bytes)

lemma parses_u64: "parses get_u64 (\<lambda>v xs. True \<and> xs = le64 v)"
  unfolding get_u64_def
  by (rule parses_cong [OF parses_bind [OF parses_take parses_ret]]) (auto simp: of_le_bytes_le_bytes le_bytes_of_le_bytes)

lemma u32_length: "length bs = unat (n :: u32) \<longleftrightarrow> length bs < 2 ^ 32 \<and> n = of_nat (length bs)"
  using unat_of_nat_lt [where 'a = 32, of "length bs"] unsigned_less [of n, where 'a = nat] by auto

lemma u32_below: "unat (n :: u32) < 2 ^ 63"
  using unsigned_less [of n, where 'a = nat] by simp

lemma parses_string: "parses get_string (\<lambda>v xs. good_str v \<and> xs = enc_str v)"
  unfolding get_string_def
  by (rule parses_cong [OF parses_then [OF parses_u32 parses_bind [OF parses_take [OF u32_below] parses_if [OF parses_ret parses_fail]]]])
     (auto simp: good_str_def enc_str_def u32_length split: if_splits)

lemma parses_optional:
  assumes "parses f (\<lambda>v xs. G v \<and> xs = enc v)"
  shows "parses (get_optional what f) (\<lambda>v xs. pred_option G v \<and> xs = enc_option enc v)"
  unfolding get_optional_def
proof (rule parses_cong [OF parses_tagged [OF parses_if [OF parses_ret parses_if [OF parses_then [OF assms parses_ret] parses_fail]]]], goal_cases)
  case (1 v xs)
  show ?case by (cases v; cases xs) (auto simp: enc_option_def)
qed

lemma parses_location: "parses get_location (\<lambda>v xs. good_str (loc_file v) \<and> xs = enc_location v)"
  unfolding get_location_def
proof (rule parses_cong [OF parses_then [OF parses_string parses_then [OF parses_u32 parses_ret]]])
  fix v xs
  show "(\<exists>f ys. good_str f \<and> xs = enc_str f @ ys \<and> (\<exists>n zs. True \<and> ys = le32 n @ zs \<and> v = \<lparr>loc_file = f, loc_line = n\<rparr> \<and> zs = []))
      \<longleftrightarrow> good_str (loc_file v) \<and> xs = enc_location v"
    by (cases v) (auto simp: enc_location_def)
qed

lemma parses_u64s: "parses (get_u64s n) (\<lambda>v xs. length v = n \<and> xs = concat (map le64 v))"
proof (induction n)
  case (Suc n)
  show ?case unfolding get_u64s.simps
  proof (rule parses_cong [OF parses_then [OF parses_u64 parses_then [OF Suc parses_ret]]])
    fix v xs
    show "(\<exists>i ys. True \<and> xs = le64 i @ ys \<and> (\<exists>ids zs. length ids = n \<and> ys = concat (map le64 ids) @ zs \<and> v = i # ids \<and> zs = []))
        \<longleftrightarrow> length v = Suc n \<and> xs = concat (map le64 v)"
      by (cases v) auto
  qed
qed (auto intro: parses_cong [OF parses_ret])

lemma length_le64s: "length (concat (map le64 ids)) = 8 * length ids"
  by (induction ids) simp_all

lemma parses_id_list: "parses get_id_list (\<lambda>v xs. length v < 2 ^ 32 \<and> xs = enc_ids v)"
proof -
  have "parses (\<lambda>p. if (length (pl_bytes p) - pl_offset p) div 8 < unat n then Inl TruncatedFrame else get_u64s (unat n) p)
      (\<lambda>v xs. length v = unat n \<and> xs = concat (map le64 v))" for n :: u32
    unfolding parses_def
  proof (intro allI impI)
    fix p v p' assume p: "payload_ok p"
    have "unat n \<le> (length (pl_bytes p) - pl_offset p) div 8" if "length v = unat n" "unread p = concat (map le64 v) @ rs" for v rs
    proof -
      have "length (unread p) = 8 * unat n + length rs" using that length_le64s [of v] by simp
      then show ?thesis by simp
    qed
    then have "\<not> (length (pl_bytes p) - pl_offset p) div 8 < unat n" if "\<exists>xs rs. (length v = unat n \<and> xs = concat (map le64 v)) \<and> unread p = xs @ rs \<and> p' = advance (length xs) p"
      using that by (auto simp: not_less)
    then show "(if (length (pl_bytes p) - pl_offset p) div 8 < unat n then Inl TruncatedFrame else get_u64s (unat n) p) = Inr (v, p') \<longleftrightarrow>
        (\<exists>xs rs. (length v = unat n \<and> xs = concat (map le64 v)) \<and> unread p = xs @ rs \<and> p' = advance (length xs) p)"
      using parses_u64s [of "unat n", unfolded parses_def, rule_format, OF p, of v p'] by (cases "(length (pl_bytes p) - pl_offset p) div 8 < unat n") auto
  qed
  from parses_then [OF parses_u32 this] show ?thesis unfolding get_id_list_def
    by (rule parses_cong) (auto simp: enc_ids_def u32_length)
qed

lemma parses_source: "parses get_source (\<lambda>v xs. good_source v \<and> xs = enc_source v)"
  unfolding get_source_def
proof (rule parses_cong [OF parses_tagged [OF parses_if [OF parses_then [OF parses_u32 parses_ret] parses_if [OF parses_then [OF parses_u64 parses_ret]
    parses_if [OF parses_then [OF parses_u64 parses_ret] parses_if [OF parses_then [OF parses_string parses_ret] parses_if [OF parses_ret parses_fail]]]]]]], goal_cases)
  case (1 v xs)
  show ?case by (cases v; cases xs) auto
qed

lemma parses_reason: "parses get_reason (\<lambda>v xs. True \<and> xs = [reason_byte v])"
  unfolding get_reason_def
proof (rule parses_cong [OF parses_tagged [OF parses_if [OF parses_ret parses_if [OF parses_ret parses_if [OF parses_ret parses_if [OF parses_ret parses_fail]]]]]], goal_cases)
  case (1 v xs)
  show ?case by (cases v; cases xs) auto
qed

lemma parses_result: "parses get_result (\<lambda>v xs. True \<and> xs = [result_byte v])"
  unfolding get_result_def
proof (rule parses_cong [OF parses_tagged [OF parses_if [OF parses_ret parses_if [OF parses_ret parses_if [OF parses_ret parses_fail]]]]], goal_cases)
  case (1 v xs)
  show ?case by (cases v; cases xs) auto
qed

lemma parses_flag: "parses get_flag (\<lambda>v xs. True \<and> xs = [of_bool v])"
  unfolding get_flag_def
proof (rule parses_cong [OF parses_tagged [OF parses_if [OF parses_ret parses_if [OF parses_ret parses_fail]]]], goal_cases)
  case (1 v xs)
  show ?case by (cases v; cases xs) auto
qed

section \<open>Events on the wire\<close>

fun enc_event :: "console_event \<Rightarrow> u8 list" where
  "enc_event (TaskSpawned i name l parent) = 0 # le64 i @ enc_option enc_str name @ enc_location l @ enc_option le64 parent"
| "enc_event (TaskPollStart i w t) = 1 # le64 i @ le32 w @ le64 t"
| "enc_event (TaskPollEnd i w d r) = 2 # le64 i @ le32 w @ le64 d @ [result_byte r]"
| "enc_event (TaskWoken i src) = 3 # le64 i @ enc_source src"
| "enc_event (TaskDropped i n b d) = 4 # le64 i @ le64 n @ le64 b @ le64 d"
| "enc_event (TaskAborted i) = 5 # le64 i"
| "enc_event (WorkerPark w d) = 6 # le32 w @ enc_option le64 d"
| "enc_event (WorkerUnpark w r) = 7 # le32 w @ [reason_byte r]"
| "enc_event (WorkerSteal a b n) = 8 # le32 a @ le32 b @ le64 n"
| "enc_event (QueueDepth w l g f) = 9 # le32 w @ le64 l @ le64 g @ [of_bool f]"
| "enc_event (IoRegistered fd k i) = 10 # le32 fd @ enc_str k @ le64 i"
| "enc_event (IoReady fd k ids) = 11 # le32 fd @ enc_str k @ enc_ids ids"
| "enc_event (TimerSet i t n) = 12 # le64 i @ le64 t @ le64 n"
| "enc_event (TimerFired i d) = 13 # le64 i @ le64 d"
| "enc_event (TimerCancelled i) = 14 # le64 i"
| "enc_event (BlockingDetected i d l) = 15 # le64 i @ le64 d @ enc_location l"
| "enc_event (BudgetExhausted i) = 16 # le64 i"
| "enc_event (ResourceContended k i ids) = 17 # enc_str k @ le64 i @ enc_ids ids"

text \<open>What the types of the runtime guarantee, and its assertions: strings are UTF-8, and lengths fit 32 bits.\<close>

fun good_event :: "('i, 'd) event \<Rightarrow> bool" where
  "good_event (TaskSpawned i name l parent) \<longleftrightarrow> pred_option good_str name \<and> good_str (loc_file l)"
| "good_event (TaskWoken i src) \<longleftrightarrow> good_source src"
| "good_event (IoRegistered fd k i) \<longleftrightarrow> good_str k"
| "good_event (IoReady fd k ids) \<longleftrightarrow> good_str k \<and> length ids < 2 ^ 32"
| "good_event (BlockingDetected i d l) \<longleftrightarrow> good_str (loc_file l)"
| "good_event (ResourceContended k i ids) \<longleftrightarrow> good_str k \<and> length ids < 2 ^ 32"
| "good_event _ \<longleftrightarrow> True"

text \<open>One lemma for each tag.\<close>

lemma parses_event_0: "parses (get_event 0) (\<lambda>ev xs. good_event ev \<and> 0 # xs = enc_event ev)"
proof (simp add: get_event_def get_optional_string_def get_optional_u64_def, rule parses_cong [OF parses_then [OF parses_u64 parses_then [OF parses_optional [OF parses_string] parses_then [OF parses_location parses_then [OF parses_optional [OF parses_u64] parses_ret]]]]], goal_cases)
  case (1 ev xs)
  show ?case by (cases ev) (auto simp: option.pred_True)
qed

lemma parses_event_1: "parses (get_event 1) (\<lambda>ev xs. good_event ev \<and> 1 # xs = enc_event ev)"
proof (simp add: get_event_def, rule parses_cong [OF parses_then [OF parses_u64 parses_then [OF parses_u32 parses_then [OF parses_u64 parses_ret]]]], goal_cases)
  case (1 ev xs)
  show ?case by (cases ev) (auto simp: option.pred_True)
qed

lemma parses_event_2: "parses (get_event 2) (\<lambda>ev xs. good_event ev \<and> 2 # xs = enc_event ev)"
proof (simp add: get_event_def, rule parses_cong [OF parses_then [OF parses_u64 parses_then [OF parses_u32 parses_then [OF parses_u64 parses_then [OF parses_result parses_ret]]]]], goal_cases)
  case (1 ev xs)
  show ?case by (cases ev) (auto simp: option.pred_True)
qed

lemma parses_event_3: "parses (get_event 3) (\<lambda>ev xs. good_event ev \<and> 3 # xs = enc_event ev)"
proof (simp add: get_event_def, rule parses_cong [OF parses_then [OF parses_u64 parses_then [OF parses_source parses_ret]]], goal_cases)
  case (1 ev xs)
  show ?case by (cases ev) (auto simp: option.pred_True)
qed

lemma parses_event_4: "parses (get_event 4) (\<lambda>ev xs. good_event ev \<and> 4 # xs = enc_event ev)"
proof (simp add: get_event_def, rule parses_cong [OF parses_then [OF parses_u64 parses_then [OF parses_u64 parses_then [OF parses_u64 parses_then [OF parses_u64 parses_ret]]]]], goal_cases)
  case (1 ev xs)
  show ?case by (cases ev) (auto simp: option.pred_True)
qed

lemma parses_event_5: "parses (get_event 5) (\<lambda>ev xs. good_event ev \<and> 5 # xs = enc_event ev)"
proof (simp add: get_event_def, rule parses_cong [OF parses_then [OF parses_u64 parses_ret]], goal_cases)
  case (1 ev xs)
  show ?case by (cases ev) (auto simp: option.pred_True)
qed

lemma parses_event_6: "parses (get_event 6) (\<lambda>ev xs. good_event ev \<and> 6 # xs = enc_event ev)"
proof (simp add: get_event_def get_optional_string_def get_optional_u64_def, rule parses_cong [OF parses_then [OF parses_u32 parses_then [OF parses_optional [OF parses_u64] parses_ret]]], goal_cases)
  case (1 ev xs)
  show ?case by (cases ev) (auto simp: option.pred_True)
qed

lemma parses_event_7: "parses (get_event 7) (\<lambda>ev xs. good_event ev \<and> 7 # xs = enc_event ev)"
proof (simp add: get_event_def, rule parses_cong [OF parses_then [OF parses_u32 parses_then [OF parses_reason parses_ret]]], goal_cases)
  case (1 ev xs)
  show ?case by (cases ev) (auto simp: option.pred_True)
qed

lemma parses_event_8: "parses (get_event 8) (\<lambda>ev xs. good_event ev \<and> 8 # xs = enc_event ev)"
proof (simp add: get_event_def, rule parses_cong [OF parses_then [OF parses_u32 parses_then [OF parses_u32 parses_then [OF parses_u64 parses_ret]]]], goal_cases)
  case (1 ev xs)
  show ?case by (cases ev) (auto simp: option.pred_True)
qed

lemma parses_event_9: "parses (get_event 9) (\<lambda>ev xs. good_event ev \<and> 9 # xs = enc_event ev)"
proof (simp add: get_event_def, rule parses_cong [OF parses_then [OF parses_u32 parses_then [OF parses_u64 parses_then [OF parses_u64 parses_then [OF parses_flag parses_ret]]]]], goal_cases)
  case (1 ev xs)
  show ?case by (cases ev) (auto simp: option.pred_True)
qed

lemma parses_event_10: "parses (get_event 10) (\<lambda>ev xs. good_event ev \<and> 10 # xs = enc_event ev)"
proof (simp add: get_event_def, rule parses_cong [OF parses_then [OF parses_u32 parses_then [OF parses_string parses_then [OF parses_u64 parses_ret]]]], goal_cases)
  case (1 ev xs)
  show ?case by (cases ev) (auto simp: option.pred_True)
qed

lemma parses_event_11: "parses (get_event 11) (\<lambda>ev xs. good_event ev \<and> 11 # xs = enc_event ev)"
proof (simp add: get_event_def, rule parses_cong [OF parses_then [OF parses_u32 parses_then [OF parses_string parses_then [OF parses_id_list parses_ret]]]], goal_cases)
  case (1 ev xs)
  show ?case by (cases ev) (auto simp: option.pred_True)
qed

lemma parses_event_12: "parses (get_event 12) (\<lambda>ev xs. good_event ev \<and> 12 # xs = enc_event ev)"
proof (simp add: get_event_def, rule parses_cong [OF parses_then [OF parses_u64 parses_then [OF parses_u64 parses_then [OF parses_u64 parses_ret]]]], goal_cases)
  case (1 ev xs)
  show ?case by (cases ev) (auto simp: option.pred_True)
qed

lemma parses_event_13: "parses (get_event 13) (\<lambda>ev xs. good_event ev \<and> 13 # xs = enc_event ev)"
proof (simp add: get_event_def, rule parses_cong [OF parses_then [OF parses_u64 parses_then [OF parses_u64 parses_ret]]], goal_cases)
  case (1 ev xs)
  show ?case by (cases ev) (auto simp: option.pred_True)
qed

lemma parses_event_14: "parses (get_event 14) (\<lambda>ev xs. good_event ev \<and> 14 # xs = enc_event ev)"
proof (simp add: get_event_def, rule parses_cong [OF parses_then [OF parses_u64 parses_ret]], goal_cases)
  case (1 ev xs)
  show ?case by (cases ev) (auto simp: option.pred_True)
qed

lemma parses_event_15: "parses (get_event 15) (\<lambda>ev xs. good_event ev \<and> 15 # xs = enc_event ev)"
proof (simp add: get_event_def, rule parses_cong [OF parses_then [OF parses_u64 parses_then [OF parses_u64 parses_then [OF parses_location parses_ret]]]], goal_cases)
  case (1 ev xs)
  show ?case by (cases ev) (auto simp: option.pred_True)
qed

lemma parses_event_16: "parses (get_event 16) (\<lambda>ev xs. good_event ev \<and> 16 # xs = enc_event ev)"
proof (simp add: get_event_def, rule parses_cong [OF parses_then [OF parses_u64 parses_ret]], goal_cases)
  case (1 ev xs)
  show ?case by (cases ev) (auto simp: option.pred_True)
qed

lemma parses_event_17: "parses (get_event 17) (\<lambda>ev xs. good_event ev \<and> 17 # xs = enc_event ev)"
proof (simp add: get_event_def, rule parses_cong [OF parses_then [OF parses_string parses_then [OF parses_u64 parses_then [OF parses_id_list parses_ret]]]], goal_cases)
  case (1 ev xs)
  show ?case by (cases ev) (auto simp: option.pred_True)
qed

lemma parses_event: "parses (get_event tag) (\<lambda>ev xs. good_event ev \<and> tag # xs = enc_event ev)"
proof (cases "tag \<in> {0, 1, 2, 3, 4, 5, 6, 7, 8, 9, 10, 11, 12, 13, 14, 15, 16, 17}")
  case True
  then show ?thesis
    using parses_event_0 parses_event_1 parses_event_2 parses_event_3 parses_event_4 parses_event_5 parses_event_6 parses_event_7 parses_event_8
      parses_event_9 parses_event_10 parses_event_11 parses_event_12 parses_event_13 parses_event_14 parses_event_15 parses_event_16 parses_event_17
    by (elim insertE emptyE) (simp_all only:)
next
  case False
  then have g: "get_event tag = pfail (UnknownTag tag)" by (simp add: get_event_def)
  have "tag # xs \<noteq> enc_event ev" for ev :: console_event and xs using False by (cases ev) auto
  then show ?thesis unfolding g by (intro parses_cong [OF parses_fail]) blast
qed

interpretation ids: codec get_id_list enc_ids "\<lambda>ids. length ids < 2 ^ 32"
  by unfold_locales (rule parses_id_list)

interpretation str: codec get_string enc_str good_str
  by unfold_locales (rule parses_string)

interpretation ev: codec "pbind get_u8 get_event" enc_event good_event
proof
  show "parses (pbind get_u8 get_event) (\<lambda>ev xs. good_event ev \<and> xs = enc_event ev)"
  proof (rule parses_cong [OF parses_tagged [OF parses_event]], goal_cases)
    case (1 ev xs)
    show ?case by (cases ev; cases xs) auto
  qed
qed

lemma decode_payload_iff:
  assumes "length bs < 2 ^ 63"
  shows "decode_payload bs = Inr ev \<longleftrightarrow> good_event ev \<and> bs = enc_event ev"
proof -
  let ?p = "\<lparr>pl_bytes = bs, pl_offset = 0\<rparr>"
  have ok: "payload_ok ?p" using assms by (simp add: payload_ok_def)
  have "decode_payload bs = Inr ev \<longleftrightarrow> (\<exists>p. pbind get_u8 get_event ?p = Inr (ev, p) \<and> pl_offset p = length (pl_bytes p))"
    by (auto simp: decode_payload_def pbind_def and_then_eq_Inr split: if_splits)
  also have "\<dots> \<longleftrightarrow> (\<exists>rs. good_event ev \<and> bs = enc_event ev @ rs \<and> length (enc_event ev) = length bs)"
    using ev.law [unfolded parses_def, rule_format, OF ok] by (auto simp: advance_def)
  also have "\<dots> \<longleftrightarrow> good_event ev \<and> bs = enc_event ev" by auto
  finally show ?thesis .
qed

section \<open>The encoder writes these encodings\<close>

abbreviation seen :: "nat option \<Rightarrow> runtime_event \<Rightarrow> console_event" where
  "seen origin \<equiv> map_event (instant_ns origin) duration_ns"

lemma put_ints [simp]: "put_u8 b = Some [b]" "put_u32 w = Some (le32 w)" "put_u64 v = Some (le64 v)"
  by (simp_all add: put_u8_def put_u32_def put_u64_def)

lemma put_str_enc: "good_str bs \<Longrightarrow> put_bytes bs = Some (enc_str bs)"
  by (simp add: put_bytes_def enc_str_def good_str_def)

lemma put_location_enc: "good_str (loc_file l) \<Longrightarrow> put_location l = Some (enc_location l)"
  by (simp add: put_location_def enc_location_def put_str_enc)

lemma put_ids_enc: "length ids < 2 ^ 32 \<Longrightarrow> put_ids ids = Some (enc_ids ids)"
proof -
  have "cat (map put_u64 ids) = Some (concat (map le64 ids))" by (induction ids) simp_all
  then show "length ids < 2 ^ 32 \<Longrightarrow> put_ids ids = Some (enc_ids ids)" by (simp add: put_ids_def enc_ids_def)
qed

lemma put_option_enc: "pred_option (\<lambda>v. f v = Some (enc (g v))) x \<Longrightarrow> put_option f x = Some (enc_option enc (map_option g x))"
  by (cases x) (simp_all add: put_option_def enc_option_def)

lemma put_name_enc: "pred_option good_str x \<Longrightarrow> put_option put_bytes x = Some (enc_option enc_str x)"
  using put_option_enc [of put_bytes enc_str "\<lambda>v. v" x] put_str_enc by (cases x) simp_all

lemma put_number_enc [simp]: "put_option (put_u64 \<circ> g) x = Some (enc_option le64 (map_option g x))" "put_option put_u64 y = Some (enc_option le64 y)"
  using put_option_enc [of "put_u64 \<circ> g" le64 g x] put_option_enc [of put_u64 le64 "\<lambda>v. v" y] by (simp_all add: option.pred_True option.map_ident)

lemma put_source_enc: "good_source src \<Longrightarrow> put_source src = Some (enc_source src)"
  by (cases src) (simp_all add: put_str_enc)

lemma encode_payload_enc: "good_event ev \<Longrightarrow> encode_payload origin ev = Some (enc_event (seen origin ev))"
  by (cases ev) (simp_all add: put_str_enc put_location_enc put_ids_enc put_name_enc put_source_enc)

lemma good_seen [simp]: "good_event (seen origin ev) = good_event ev"
  by (cases ev) simp_all

lemma encode_frame_enc:
  assumes "good_event ev" "length (enc_event (seen origin ev)) \<le> MAX_FRAME_SIZE"
  shows "encode_frame origin ev = Some (le32 (of_nat (length (enc_event (seen origin ev)))) @ enc_event (seen origin ev))"
  using assms by (simp add: encode_frame_def encode_payload_enc MAX_FRAME_SIZE_def)

section \<open>Frames in any fragments\<close>

declare push_loop.simps [simp del]

lemma push_loop_more:
  "push_loop evs buf = (Inr es, buf') \<Longrightarrow> push_loop evs (buf @ bs) = push_loop es (buf' @ bs)"
proof (induction evs buf rule: push_loop.induct)
  case (1 evs buf)
  let ?size = "of_le_bytes (take 4 buf) :: u32"
  show ?case
  proof (cases "length buf < 4 \<or> length buf < 4 + unat ?size")
    case True
    then show ?thesis using "1.prems" by (auto simp: push_loop.simps [of evs buf] Let_def split: if_splits)
  next
    case False
    then have l: "\<not> length buf < 4" "\<not> length buf < 4 + unat ?size" by simp_all
    then have m: "\<not> MAX_FRAME_SIZE < unat ?size" using "1.prems" by (simp add: push_loop.simps [of evs buf] Let_def split: if_splits)
    obtain ev where d: "decode_payload (take (unat ?size) (drop 4 buf)) = Inr ev" "push_loop (evs @ [ev]) (drop (4 + unat ?size) buf) = (Inr es, buf')"
      using "1.prems" l m by (auto simp: push_loop.simps [of evs buf] Let_def split: sum.splits)
    note ih = "1.IH" [OF l(1) refl m refl l(2) d]
    have "take 4 (buf @ bs) = take 4 buf" "take (unat ?size) (drop 4 (buf @ bs)) = take (unat ?size) (drop 4 buf)"
      "drop (4 + unat ?size) (buf @ bs) = drop (4 + unat ?size) buf @ bs" using l by simp_all
    then show ?thesis using l m d ih by (simp add: push_loop.simps [of evs "buf @ bs"] Let_def)
  qed
qed

lemma push_loop_frame:
  assumes "good_event ev" "length (enc_event ev) \<le> MAX_FRAME_SIZE"
  shows "push_loop evs (le32 (of_nat (length (enc_event ev))) @ enc_event ev @ rs) = push_loop (evs @ [ev]) rs"
proof -
  let ?b = "enc_event ev"
  have n: "unat (of_nat (length ?b) :: u32) = length ?b" using assms(2) unat_of_nat_lt [where 'a = 32, of "length ?b"] by (simp add: MAX_FRAME_SIZE_def)
  have "decode_payload ?b = Inr ev" using assms decode_payload_iff [of ?b ev] by (simp add: MAX_FRAME_SIZE_def)
  then show ?thesis
    using assms(2) n by (simp add: push_loop.simps [of evs "le32 (of_nat (length ?b)) @ ?b @ rs"] Let_def of_le_bytes_le_bytes)
qed

lemma push_loop_frames:
  assumes "\<forall>ev\<in>set evs. good_event ev \<and> length (enc_event ev) \<le> MAX_FRAME_SIZE"
  shows "push_loop es (concat (map (\<lambda>ev. le32 (of_nat (length (enc_event ev))) @ enc_event ev) evs) @ rs) = push_loop (es @ evs) rs"
  using assms by (induction evs arbitrary: es) (simp_all add: push_loop_frame)

lemma push_loop_acc:
  "push_loop evs buf = (case push_loop [] buf of (Inr es, b) \<Rightarrow> (Inr (evs @ es), b) | (Inl e, b) \<Rightarrow> (Inl e, b))"
proof (induction "length buf" arbitrary: evs buf rule: less_induct)
  case less
  let ?n = "unat (of_le_bytes (take 4 buf) :: u32)"
  let ?d = "decode_payload (take ?n (drop 4 buf))" and ?r = "drop (4 + ?n) buf"
  show ?case
  proof (cases "length buf < 4 \<or> MAX_FRAME_SIZE < ?n \<or> length buf < 4 + ?n \<or> (\<exists>e. ?d = Inl e)")
    case True
    then show ?thesis by (auto simp: push_loop.simps [of _ buf] Let_def)
  next
    case False
    then obtain ev where d: "?d = Inr ev" by (cases ?d) auto
    then have step: "push_loop evs buf = push_loop (evs @ [ev]) ?r" "push_loop [] buf = push_loop [ev] ?r"
      using False by (simp_all add: push_loop.simps [of evs buf] push_loop.simps [of "[]" buf] Let_def)
    have "length ?r < length buf" using False by auto
    then show ?thesis using less [of ?r "evs @ [ev]"] less [of ?r "[ev]"] unfolding step by (auto split: prod.split sum.split)
  qed
qed

lemma push_loop_fails:
  "push_loop evs buf = (Inl e, buf') \<Longrightarrow> push_loop evs (buf @ bs) = (Inl e, buf' @ bs)"
proof (induction evs buf rule: push_loop.induct)
  case (1 evs buf)
  let ?size = "of_le_bytes (take 4 buf) :: u32"
  have l: "\<not> length buf < 4" using "1.prems" by (auto simp: push_loop.simps [of evs buf])
  then have t: "take 4 (buf @ bs) = take 4 buf" by simp
  show ?case
  proof (cases "MAX_FRAME_SIZE < unat ?size")
    case True
    then have e: "e = FrameTooLarge ?size" "buf' = buf" using "1.prems" l by (auto simp: push_loop.simps [of evs buf] Let_def)
    show ?thesis unfolding e using True l t by (simp add: push_loop.simps [of evs "buf @ bs"] Let_def)
  next
    case m: False
    have l2: "\<not> length buf < 4 + unat ?size" using "1.prems" l m by (auto simp: push_loop.simps [of evs buf] Let_def)
    have t2: "take (unat ?size) (drop 4 (buf @ bs)) = take (unat ?size) (drop 4 buf)"
      "drop (4 + unat ?size) (buf @ bs) = drop (4 + unat ?size) buf @ bs" using l l2 by simp_all
    show ?thesis
    proof (cases "decode_payload (take (unat ?size) (drop 4 buf))")
      case (Inl e')
      then show ?thesis using "1.prems" l l2 m t t2 by (simp add: push_loop.simps [of evs buf] push_loop.simps [of evs "buf @ bs"] Let_def)
    next
      case (Inr ev)
      then have "push_loop (evs @ [ev]) (drop (4 + unat ?size) buf) = (Inl e, buf')"
        using "1.prems" l l2 m by (simp add: push_loop.simps [of evs buf] Let_def)
      from "1.IH" [OF l refl m refl l2 Inr this] show ?thesis
        using l l2 m t t2 Inr by (simp add: push_loop.simps [of evs "buf @ bs"] Let_def)
    qed
  qed
qed

section \<open>The reader of the console\<close>

text \<open>\<open>read_stream\<close>, without a recording. \<open>cs\<close> are the fragments that the reads return and \<open>stop\<close> the error of
  the last read, if it is not the end of the stream.\<close>

datatype disconnect_reason = CleanEof | EofError decode_error | ProtocolError decode_error | SocketError u32

datatype reader_message = Events "console_event list" | Disconnected disconnect_reason

fun read_stream :: "u8 list list \<Rightarrow> u32 option \<Rightarrow> u8 list \<Rightarrow> reader_message list" where
  "read_stream [] stop buf =
     [Disconnected (case stop of Some e \<Rightarrow> SocketError e | None \<Rightarrow> (case decoder_finish buf of Inl e \<Rightarrow> EofError e | Inr _ \<Rightarrow> CleanEof))]"
| "read_stream (c # cs) stop buf =
     (case decoder_push c buf of
        (Inl e, buf) \<Rightarrow> [Disconnected (ProtocolError e)]
      | (Inr es, buf) \<Rightarrow> (if es = [] then [] else [Events es]) @ read_stream cs stop buf)"

lemma push_loop_rest:
  assumes "push_loop evs buf = (Inr es, b)"
  shows "push_loop [] b = (Inr [], b)"
  using push_loop_more [OF assms, of "[]"] assms push_loop_acc [of es b] by (auto split: prod.splits sum.splits)

lemma read_stream_events:
  assumes "push_loop [] (buf @ concat cs) = (Inr es, [])" "push_loop [] buf = (Inr [], buf)"
  shows "\<exists>ess. read_stream cs None buf = map Events ess @ [Disconnected CleanEof] \<and> concat ess = es"
  using assms
proof (induction cs arbitrary: buf es)
  case Nil
  then show ?case by (intro exI [of _ "[]"]) (simp add: decoder_finish_def)
next
  case (Cons c cs)
  obtain r b where r: "push_loop [] (buf @ c) = (r, b)" by fastforce
  show ?case
  proof (cases r)
    case (Inl e)
    then show ?thesis using push_loop_fails [of "[]" "buf @ c" e b "concat cs"] r Cons.prems(1) by simp
  next
    case (Inr e1)
    then have "push_loop e1 (b @ concat cs) = (Inr es, [])" using push_loop_more [of "[]" "buf @ c" e1 b "concat cs"] r Cons.prems(1) by simp
    then obtain e2 where e2: "push_loop [] (b @ concat cs) = (Inr e2, [])" "es = e1 @ e2"
      using push_loop_acc [of e1 "b @ concat cs"] by (auto split: prod.splits sum.splits)
    have "push_loop [] b = (Inr [], b)" using push_loop_rest r Inr by blast
    from Cons.IH [OF e2(1) this] obtain ess where "read_stream cs None b = map Events ess @ [Disconnected CleanEof]" "concat ess = e2" by blast
    then have "read_stream (c # cs) None buf = map Events ((if e1 = [] then [] else [e1]) @ ess) @ [Disconnected CleanEof]
        \<and> concat ((if e1 = [] then [] else [e1]) @ ess) = es"
      using r Inr e2(2) by (simp add: decoder_push_def)
    then show ?thesis by blast
  qed
qed

section \<open>Correctness of the protocol\<close>

lemma wire_round_trip:
  assumes "\<forall>ev\<in>set evs. good_event ev \<and> length (enc_event (seen origin ev)) \<le> MAX_FRAME_SIZE"
  shows "\<exists>frames. map (encode_frame origin) evs = map Some frames
    \<and> (\<forall>cs. concat cs = concat frames \<longrightarrow>
        (\<exists>ess. read_stream cs None [] = map Events ess @ [Disconnected CleanEof] \<and> concat ess = map (seen origin) evs))"
proof -
  let ?f = "\<lambda>ev. le32 (of_nat (length (enc_event ev))) @ enc_event ev"
  have enc: "map (encode_frame origin) evs = map Some (map (?f \<circ> seen origin) evs)"
    using assms encode_frame_enc by auto
  have "push_loop [] (concat (map ?f (map (seen origin) evs)) @ []) = push_loop ([] @ map (seen origin) evs) []"
    using assms by (intro push_loop_frames) auto
  also have "\<dots> = (Inr (map (seen origin) evs), [])" by (simp add: push_loop.simps)
  finally have "push_loop [] (concat (map (?f \<circ> seen origin) evs)) = (Inr (map (seen origin) evs), [])" by simp
  moreover have "push_loop [] [] = (Inr [], [])" by (simp add: push_loop.simps)
  ultimately have "\<exists>ess. read_stream cs None [] = map Events ess @ [Disconnected CleanEof] \<and> concat ess = map (seen origin) evs"
    if "concat cs = concat (map (?f \<circ> seen origin) evs)" for cs
    using read_stream_events [of "[]" cs] that by simp
  then show ?thesis using enc by blast
qed

text \<open>C36. Events survive the wire. Whatever events the runtime emits, with strings in UTF-8 and within the size
  that the console accepts, encoding does not panic, and however the socket cuts the bytes into
  fragments, the reader of the console passes on exactly these events, in order, and then a clean end.
  Instants arrive as nanoseconds since the origin and durations saturate at 64 bits.\<close>

theorem events_survive_the_wire:
  assumes "\<forall>ev\<in>set evs. good_event ev \<and> length (enc_event (seen origin ev)) \<le> MAX_FRAME_SIZE"
  shows "\<exists>frames. map (encode_frame origin) evs = map Some frames
    \<and> (\<forall>cs. concat cs = concat frames \<longrightarrow>
        (\<exists>ess. read_stream cs None [] = map Events ess @ [Disconnected CleanEof] \<and> concat ess = map (seen origin) evs))"
  by (rule wire_round_trip [OF assms])

theorem events_survive_the_wire_witness:
  "\<exists>frames. map (encode_frame (Some 5)) [WorkerPark 3 (Some 7), TaskWoken 1 (WsChannel [0x6F, 0x6B])] = map Some frames
    \<and> (\<forall>cs. concat cs = concat frames \<longrightarrow>
        (\<exists>ess. read_stream cs None [] = map Events ess @ [Disconnected CleanEof] \<and> concat ess = [WorkerPark 3 (Some 7), TaskWoken 1 (WsChannel [0x6F, 0x6B])]))"
proof -
  have "\<forall>ev\<in>set [WorkerPark 3 (Some 7), TaskWoken 1 (WsChannel [0x6F, 0x6B])]. good_event ev \<and> length (enc_event (seen (Some 5) ev)) \<le> MAX_FRAME_SIZE"
    by (simp add: good_str_def enc_option_def enc_str_def MAX_FRAME_SIZE_def)
  from events_survive_the_wire [OF this] show ?thesis by (simp add: duration_ns_def)
qed

text \<open>C37. The decoder accepts exactly the encodings: for any bytes, a payload is decoded to an event if and only
  if it is the encoding of that event, with UTF-8 strings and lengths below \<open>2\<^sup>3\<^sup>2\<close>; every other payload is
  an error. The encoder writes precisely these payloads.\<close>

theorem decoder_accepts_exactly_encodings:
  assumes "length bs < 2 ^ 63" "good_event ev'"
  shows "(decode_payload bs = Inr ev \<longleftrightarrow> good_event ev \<and> bs = enc_event ev)
    \<and> encode_payload origin ev' = Some (enc_event (seen origin ev')) \<and> (encode_payload origin ev' = Some bs \<longrightarrow> decode_payload bs = Inr (seen origin ev'))"
  using assms decode_payload_iff encode_payload_enc by simp

theorem decoder_accepts_exactly_encodings_witness:
  "decode_payload [5, 1, 0, 0, 0, 0, 0, 0, 0] = Inr (TaskAborted 1) \<longleftrightarrow> [5, 1, 0, 0, 0, 0, 0, 0, 0] = enc_event (TaskAborted 1)"
  using decoder_accepts_exactly_encodings [of "[5, 1, 0, 0, 0, 0, 0, 0, 0]" "TaskAborted 1" "TaskAborted 1" None] by simp
end
