(* ===== verification/Console_Model.thy ===== *)
theory Console_Model
  imports Console_Wire "HOL-Library.Product_Lexorder" "HOL-Library.Sublist"
begin

text \<open>
  What the console shows: \<open>ConsoleModel\<close> of \<open>eddy-console\<close>, the projection of the event stream to tasks,
  workers, resources and pending operations, and its reader and selection.
\<close>

section \<open>The views\<close>

definition lit :: "string \<Rightarrow> str" where "lit s = map of_char s"

datatype task_state = Queued | Running | Idle | Complete | Cancelled

fun state_str :: "task_state \<Rightarrow> str" where
  "state_str Queued = lit ''queued''"
| "state_str Running = lit ''running''"
| "state_str Idle = lit ''idle''"
| "state_str Complete = lit ''done''"
| "state_str Cancelled = lit ''cancelled''"

record task_view =
  tv_id :: u64
  tv_name :: str
  tv_state :: task_state
  tv_worker :: u32
  tv_polls :: u64
  tv_total_busy_ns :: u64
  tv_total_idle_ns :: u64
  tv_scheduled :: u64
  tv_location :: "src_location option"
  tv_warnings :: "str list"
  tv_poll_durations_ns :: "u64 list"
  tv_wake_sources :: "str list"

definition task_view_new :: "u64 \<Rightarrow> task_view" where
  "task_view_new i = \<lparr>tv_id = i, tv_name = lit ''<unnamed>'', tv_state = Queued, tv_worker = 0, tv_polls = 0, tv_total_busy_ns = 0, tv_total_idle_ns = 0,
     tv_scheduled = 1, tv_location = None, tv_warnings = [], tv_poll_durations_ns = [], tv_wake_sources = []\<rparr>"

definition saturating_add64 :: "u64 \<Rightarrow> u64 \<Rightarrow> u64" where
  "saturating_add64 a b = (if a + b < a then - 1 else a + b)"

definition tv_warning :: "string \<Rightarrow> task_view \<Rightarrow> task_view" where
  "tv_warning w t = (if lit w \<in> set (tv_warnings t) then t else t\<lparr>tv_warnings := tv_warnings t @ [lit w]\<rparr>)"

definition tv_duration :: "task_view \<Rightarrow> u64" where
  "tv_duration t = saturating_add64 (tv_total_busy_ns t) (tv_total_idle_ns t)"

record worker_view =
  wv_local_queue :: u64
  wv_global_queue :: u64
  wv_parks :: u64
  wv_steals :: u64
  wv_busy_ns :: u64
  wv_polls :: u64

definition worker_view_default :: worker_view where
  "worker_view_default = \<lparr>wv_local_queue = 0, wv_global_queue = 0, wv_parks = 0, wv_steals = 0, wv_busy_ns = 0, wv_polls = 0\<rparr>"

record resource_view =
  rv_kind :: str
  rv_holder :: u64
  rv_waiters :: "u64 list"

datatype pending_resource = PendIo u32 str | PendTimer u64 u64 | PendResource str u64

record pending_operation =
  po_task :: u64
  po_resource :: pending_resource

datatype sort_key_by = SortId | SortTotal | SortBusy | SortIdle | SortPolls

text \<open>The ordered maps are association lists; \<open>values\<close> sorts them. The view, the help and the unfinished filter
  of the terminal are left out.\<close>

record console_model =
  cm_tasks :: "(u64 \<times> task_view) list"
  cm_workers :: "(u32 \<times> worker_view) list"
  cm_resources :: "(str \<times> resource_view) list"
  cm_pending_operations :: "pending_operation list"
  cm_connected :: bool
  cm_disconnect_reason :: "disconnect_reason option"
  cm_event_count :: u64
  cm_selected_task :: nat
  cm_paused :: bool
  cm_sort :: sort_key_by
  cm_filter :: str

definition console_new :: console_model where
  "console_new = \<lparr>cm_tasks = [], cm_workers = [], cm_resources = [], cm_pending_operations = [], cm_connected = True, cm_disconnect_reason = None,
     cm_event_count = 0, cm_selected_task = 0, cm_paused = False, cm_sort = SortId, cm_filter = []\<rparr>"

section \<open>Events\<close>

definition MAX_HISTORY :: nat where "MAX_HISTORY = 64"

definition push_history :: "'a list \<Rightarrow> 'a \<Rightarrow> 'a list" where
  "push_history h v = (if length h = MAX_HISTORY then tl h else h) @ [v]"

fun decimal :: "nat \<Rightarrow> str" where
  "decimal n = (if n < 10 then [of_nat (48 + n)] else decimal (n div 10) @ [of_nat (48 + n mod 10)])"

definition decimal_i32 :: "u32 \<Rightarrow> str" where
  "decimal_i32 w = (if sint w < 0 then 45 # decimal (nat (- sint w)) else decimal (unat w))"

fun wake_source_name :: "wake_source \<Rightarrow> str" where
  "wake_source_name (WsIo fd) = lit ''io:'' @ decimal_i32 fd"
| "wake_source_name (WsTimer i) = lit ''timer:'' @ decimal (unat i)"
| "wake_source_name (WsTask i) = lit ''task:'' @ decimal (unat i)"
| "wake_source_name (WsChannel k) = lit ''channel:'' @ k"
| "wake_source_name WsExternal = lit ''external''"

definition task_mut :: "u64 \<Rightarrow> (task_view \<Rightarrow> task_view) \<Rightarrow> console_model \<Rightarrow> console_model" where
  "task_mut i f m = m\<lparr>cm_tasks := AList.update i (f (case map_of (cm_tasks m) i of Some t \<Rightarrow> t | None \<Rightarrow> task_view_new i)) (cm_tasks m)\<rparr>"

definition worker_mut :: "u32 \<Rightarrow> (worker_view \<Rightarrow> worker_view) \<Rightarrow> console_model \<Rightarrow> console_model" where
  "worker_mut w f m = m\<lparr>cm_workers := AList.update w (f (case map_of (cm_workers m) w of Some v \<Rightarrow> v | None \<Rightarrow> worker_view_default)) (cm_workers m)\<rparr>"

definition retain_pending :: "(pending_operation \<Rightarrow> bool) \<Rightarrow> console_model \<Rightarrow> console_model" where
  "retain_pending P m = m\<lparr>cm_pending_operations := filter P (cm_pending_operations m)\<rparr>"

definition add_pending :: "pending_operation list \<Rightarrow> console_model \<Rightarrow> console_model" where
  "add_pending ops m = m\<lparr>cm_pending_operations := cm_pending_operations m @ ops\<rparr>"

definition is_io :: "u32 \<Rightarrow> pending_operation \<Rightarrow> bool" where
  "is_io fd po \<longleftrightarrow> (case po_resource po of PendIo fd' _ \<Rightarrow> fd' = fd | _ \<Rightarrow> False)"

definition is_timer :: "u64 \<Rightarrow> pending_operation \<Rightarrow> bool" where
  "is_timer i po \<longleftrightarrow> (case po_resource po of PendTimer i' _ \<Rightarrow> i' = i | _ \<Rightarrow> False)"

definition is_resource :: "str \<Rightarrow> pending_operation \<Rightarrow> bool" where
  "is_resource k po \<longleftrightarrow> (case po_resource po of PendResource k' _ \<Rightarrow> k' = k | _ \<Rightarrow> False)"

definition clear_task_pending :: "u64 \<Rightarrow> console_model \<Rightarrow> console_model" where
  "clear_task_pending i = retain_pending (\<lambda>po. po_task po \<noteq> i)"

fun clear_woken_pending :: "u64 \<Rightarrow> wake_source \<Rightarrow> console_model \<Rightarrow> console_model" where
  "clear_woken_pending i (WsIo fd) = retain_pending (\<lambda>po. \<not> (is_io fd po \<and> po_task po = i))"
| "clear_woken_pending i (WsTimer t) = retain_pending (\<lambda>po. \<not> (is_timer t po \<and> po_task po = i))"
| "clear_woken_pending i _ = clear_task_pending i"

fun apply_event :: "console_event \<Rightarrow> console_model \<Rightarrow> console_model" where
  "apply_event (TaskSpawned i name l parent) m =
     task_mut i (\<lambda>t. t\<lparr>tv_name := (case name of Some n \<Rightarrow> n | None \<Rightarrow> lit ''<unnamed>''), tv_location := Some l, tv_state := Queued,
       tv_scheduled := max (tv_scheduled t) 1\<rparr>) m"
| "apply_event (TaskPollStart i w t) m =
     worker_mut w (\<lambda>v. v) (task_mut i (\<lambda>t. t\<lparr>tv_worker := w, tv_state := Running\<rparr>) (clear_task_pending i m))"
| "apply_event (TaskPollEnd i w d r) m =
     worker_mut w (\<lambda>v. v\<lparr>wv_busy_ns := saturating_add64 (wv_busy_ns v) d, wv_polls := saturating_add64 (wv_polls v) 1\<rparr>)
       (task_mut i (\<lambda>t.
          let t = t\<lparr>tv_worker := w, tv_polls := saturating_add64 (tv_polls t) 1, tv_total_busy_ns := saturating_add64 (tv_total_busy_ns t) d,
                tv_poll_durations_ns := push_history (tv_poll_durations_ns t) d\<rparr> in
          (case r of
             PrReady \<Rightarrow> t\<lparr>tv_state := Complete\<rparr>
           | PrPending \<Rightarrow> t\<lparr>tv_state := Idle\<rparr>
           | PrPanicked \<Rightarrow> (tv_warning ''panic'' t)\<lparr>tv_state := Cancelled\<rparr>)) m)"
| "apply_event (TaskWoken i src) m =
     task_mut i (\<lambda>t. t\<lparr>tv_state := Queued, tv_scheduled := saturating_add64 (tv_scheduled t) 1,
       tv_wake_sources := push_history (tv_wake_sources t) (wake_source_name src)\<rparr>) (clear_woken_pending i src m)"
| "apply_event (TaskDropped i n b d) m =
     task_mut i (\<lambda>t. t\<lparr>tv_state := Complete, tv_polls := n, tv_total_busy_ns := b, tv_total_idle_ns := d\<rparr>) (clear_task_pending i m)"
| "apply_event (TaskAborted i) m = task_mut i (\<lambda>t. t\<lparr>tv_state := Cancelled\<rparr>) (clear_task_pending i m)"
| "apply_event (WorkerPark w d) m = worker_mut w (\<lambda>v. v\<lparr>wv_parks := wv_parks v + 1\<rparr>) m"
| "apply_event (WorkerUnpark w r) m = worker_mut w (\<lambda>v. v) m"
| "apply_event (WorkerSteal a b n) m =
     worker_mut b (\<lambda>v. v) (worker_mut a (\<lambda>v. v\<lparr>wv_steals := (case map_of (cm_workers m) a of None \<Rightarrow> n | Some v \<Rightarrow> saturating_add64 (wv_steals v) n)\<rparr>) m)"
| "apply_event (QueueDepth w l g f) m = worker_mut w (\<lambda>v. v\<lparr>wv_local_queue := l, wv_global_queue := g\<rparr>) m"
| "apply_event (BlockingDetected i d l) m =
     task_mut i (\<lambda>t. let t = tv_warning ''blocking'' t in t\<lparr>tv_poll_durations_ns := push_history (tv_poll_durations_ns t) d\<rparr>) m"
| "apply_event (BudgetExhausted i) m = task_mut i (tv_warning ''budget'') m"
| "apply_event (ResourceContended k h ws) m =
     (add_pending (map (\<lambda>i. \<lparr>po_task = i, po_resource = PendResource k h\<rparr>) ws) (retain_pending (\<lambda>po. \<not> is_resource k po) m))
       \<lparr>cm_resources := AList.update k \<lparr>rv_kind = k, rv_holder = h, rv_waiters = ws\<rparr> (cm_resources m)\<rparr>"
| "apply_event (IoRegistered fd k i) m =
     add_pending [\<lparr>po_task = i, po_resource = PendIo fd k\<rparr>] (retain_pending (\<lambda>po. \<not> (is_io fd po \<and> po_task po = i)) m)"
| "apply_event (IoReady fd k ids) m = retain_pending (\<lambda>po. \<not> (is_io fd po \<and> po_task po \<in> set ids)) m"
| "apply_event (TimerSet i t n) m = add_pending [\<lparr>po_task = n, po_resource = PendTimer i t\<rparr>] (retain_pending (\<lambda>po. \<not> is_timer i po) m)"
| "apply_event (TimerFired i d) m = retain_pending (\<lambda>po. \<not> is_timer i po) m"
| "apply_event (TimerCancelled i) m = retain_pending (\<lambda>po. \<not> is_timer i po) m"

definition console_apply :: "console_event \<Rightarrow> console_model \<Rightarrow> console_model" where
  "console_apply ev m = (if cm_paused m then m else apply_event ev (m\<lparr>cm_event_count := saturating_add64 (cm_event_count m) 1\<rparr>))"

definition console_disconnected :: "disconnect_reason \<Rightarrow> console_model \<Rightarrow> console_model" where
  "console_disconnected r m = m\<lparr>cm_connected := False, cm_disconnect_reason := Some r\<rparr>"

text \<open>The messages of the reader, as the loop of \<open>run\<close> handles them.\<close>

fun handle_message :: "reader_message \<Rightarrow> console_model \<Rightarrow> console_model" where
  "handle_message (Events es) m = fold console_apply es m"
| "handle_message (Disconnected r) m = console_disconnected r m"

section \<open>The list of tasks\<close>

definition ascii_lower :: "str \<Rightarrow> str" where
  "ascii_lower = map (\<lambda>b. if 65 \<le> b \<and> b \<le> 90 then b + 32 else b)"

definition matches_filter :: "console_model \<Rightarrow> task_view \<Rightarrow> bool" where
  "matches_filter m t \<longleftrightarrow> cm_filter m = [] \<or> sublist (ascii_lower (cm_filter m)) (ascii_lower (tv_name t))
     \<or> sublist (ascii_lower (cm_filter m)) (ascii_lower (state_str (tv_state t)))"

definition sort_value :: "sort_key_by \<Rightarrow> task_view \<Rightarrow> u64" where
  "sort_value k t = (case k of SortId \<Rightarrow> tv_id t | SortTotal \<Rightarrow> tv_duration t | SortBusy \<Rightarrow> tv_total_busy_ns t | SortIdle \<Rightarrow> tv_total_idle_ns t | SortPolls \<Rightarrow> tv_polls t)"

definition sorted_tasks :: "console_model \<Rightarrow> task_view list" where
  "sorted_tasks m = sort_key (\<lambda>t. (sort_value (cm_sort m) t, tv_id t)) (filter (matches_filter m) (map snd (sort_key fst (cm_tasks m))))"

definition select_next :: "int \<Rightarrow> console_model \<Rightarrow> console_model" where
  "select_next amount m =
     (let n = length (filter (matches_filter m) (map snd (cm_tasks m))) in
      m\<lparr>cm_selected_task := (if n = 0 then 0 else nat ((int (cm_selected_task m) + amount) mod int n))\<rparr>)"

section \<open>The model is a projection of the stream\<close>

text \<open>Which pending operations an event starts and which it ends.\<close>

fun adds :: "console_event \<Rightarrow> pending_operation list" where
  "adds (ResourceContended k h ws) = map (\<lambda>i. \<lparr>po_task = i, po_resource = PendResource k h\<rparr>) ws"
| "adds (IoRegistered fd k i) = [\<lparr>po_task = i, po_resource = PendIo fd k\<rparr>]"
| "adds (TimerSet i t n) = [\<lparr>po_task = n, po_resource = PendTimer i t\<rparr>]"
| "adds _ = []"

fun clears :: "console_event \<Rightarrow> pending_operation \<Rightarrow> bool" where
  "clears (TaskPollStart i w t) po \<longleftrightarrow> po_task po = i"
| "clears (TaskDropped i n b d) po \<longleftrightarrow> po_task po = i"
| "clears (TaskAborted i) po \<longleftrightarrow> po_task po = i"
| "clears (TaskWoken i (WsIo fd)) po \<longleftrightarrow> is_io fd po \<and> po_task po = i"
| "clears (TaskWoken i (WsTimer t)) po \<longleftrightarrow> is_timer t po \<and> po_task po = i"
| "clears (TaskWoken i _) po \<longleftrightarrow> po_task po = i"
| "clears (ResourceContended k h ws) po \<longleftrightarrow> is_resource k po"
| "clears (IoRegistered fd k i) po \<longleftrightarrow> is_io fd po \<and> po_task po = i"
| "clears (IoReady fd k ids) po \<longleftrightarrow> is_io fd po \<and> po_task po \<in> set ids"
| "clears (TimerSet i t n) po \<longleftrightarrow> is_timer i po"
| "clears (TimerFired i d) po \<longleftrightarrow> is_timer i po"
| "clears (TimerCancelled i) po \<longleftrightarrow> is_timer i po"
| "clears _ po \<longleftrightarrow> False"

lemma muts_keep [simp]:
  "cm_pending_operations (task_mut i f m) = cm_pending_operations m" "cm_pending_operations (worker_mut w g m) = cm_pending_operations m"
  "cm_paused (task_mut i f m) = cm_paused m" "cm_paused (worker_mut w g m) = cm_paused m"
  "cm_event_count (task_mut i f m) = cm_event_count m" "cm_event_count (worker_mut w g m) = cm_event_count m"
  "cm_tasks (worker_mut w g m) = cm_tasks m"
  by (simp_all add: task_mut_def worker_mut_def)

lemma pending_keep [simp]:
  "cm_pending_operations (retain_pending P m) = filter P (cm_pending_operations m)" "cm_pending_operations (add_pending ops m) = cm_pending_operations m @ ops"
  "cm_paused (retain_pending P m) = cm_paused m" "cm_paused (add_pending ops m) = cm_paused m"
  "cm_event_count (retain_pending P m) = cm_event_count m" "cm_event_count (add_pending ops m) = cm_event_count m"
  "cm_tasks (retain_pending P m) = cm_tasks m" "cm_tasks (add_pending ops m) = cm_tasks m"
  by (simp_all add: retain_pending_def add_pending_def)

lemma clear_woken_keep [simp]:
  "cm_pending_operations (clear_woken_pending i src m) = filter (\<lambda>po. \<not> clears (TaskWoken i src) po) (cm_pending_operations m)"
  "cm_paused (clear_woken_pending i src m) = cm_paused m" "cm_event_count (clear_woken_pending i src m) = cm_event_count m"
  "cm_tasks (clear_woken_pending i src m) = cm_tasks m"
  by (cases src; simp add: clear_task_pending_def)+

lemma apply_event_pending: "cm_pending_operations (apply_event ev m) = filter (\<lambda>po. \<not> clears ev po) (cm_pending_operations m) @ adds ev"
  by (cases ev) (simp_all add: clear_task_pending_def)

lemma apply_event_counts: "cm_paused (apply_event ev m) = cm_paused m" "cm_event_count (apply_event ev m) = cm_event_count m"
  by (cases ev; simp add: clear_task_pending_def)+

text \<open>The poll durations of a task, of which the last 64 are kept.\<close>

fun durations_of :: "u64 \<Rightarrow> console_event \<Rightarrow> u64 list" where
  "durations_of i (TaskPollEnd j w d r) = (if j = i then [d] else [])"
| "durations_of i (BlockingDetected j d l) = (if j = i then [d] else [])"
| "durations_of i _ = []"

definition shown_durations :: "u64 \<Rightarrow> console_model \<Rightarrow> u64 list" where
  "shown_durations i m = (case map_of (cm_tasks m) i of None \<Rightarrow> [] | Some t \<Rightarrow> tv_poll_durations_ns t)"

definition recent :: "'a list \<Rightarrow> 'a list" where "recent xs = drop (length xs - MAX_HISTORY) xs"

lemma push_history_recent: "push_history (recent xs) v = recent (xs @ [v])"
proof (cases "MAX_HISTORY \<le> length xs")
  case True
  then have "length (recent xs) = MAX_HISTORY" by (simp add: recent_def)
  then have "push_history (recent xs) v = tl (recent xs) @ [v]" by (simp add: push_history_def)
  also have "\<dots> = drop (Suc (length xs - MAX_HISTORY)) xs @ [v]" by (simp add: recent_def tl_drop drop_Suc [symmetric])
  also have "Suc (length xs - MAX_HISTORY) = length (xs @ [v]) - MAX_HISTORY" using True by simp
  also have "drop (length (xs @ [v]) - MAX_HISTORY) xs @ [v] = recent (xs @ [v])" by (simp add: recent_def MAX_HISTORY_def)
  finally show ?thesis .
qed (simp add: recent_def push_history_def)

lemma shown_task_mut:
  "shown_durations i (task_mut j f m) =
     (if i = j then tv_poll_durations_ns (f (case map_of (cm_tasks m) j of Some t \<Rightarrow> t | None \<Rightarrow> task_view_new j)) else shown_durations i m)"
  by (simp add: shown_durations_def task_mut_def update_conv')

lemma shown_other [simp]:
  "shown_durations i (worker_mut w g m) = shown_durations i m" "shown_durations i (retain_pending P m) = shown_durations i m"
  "shown_durations i (add_pending ops m) = shown_durations i m" "shown_durations i (clear_woken_pending k src m) = shown_durations i m"
  "shown_durations i (m\<lparr>cm_resources := rs\<rparr>) = shown_durations i m" "shown_durations i (m\<lparr>cm_event_count := n\<rparr>) = shown_durations i m"
  by (simp_all add: shown_durations_def)

lemma tv_warning_keeps [simp]: "tv_poll_durations_ns (tv_warning w t) = tv_poll_durations_ns t"
  by (simp add: tv_warning_def)

lemma current_durations [simp]:
  "tv_poll_durations_ns (case map_of (cm_tasks m) i of Some t \<Rightarrow> t | None \<Rightarrow> task_view_new i) = shown_durations i m"
  by (simp add: shown_durations_def task_view_new_def split: option.split)

lemma apply_event_durations:
  "shown_durations i (apply_event ev m) = fold (\<lambda>d h. push_history h d) (durations_of i ev) (shown_durations i m)"
  by (cases ev) (auto simp: shown_task_mut clear_task_pending_def Let_def split: poll_outcome.split)

lemma fold_push_history: "fold (\<lambda>d h. push_history h d) ds (recent xs) = recent (xs @ ds)"
  by (induction ds arbitrary: xs) (simp_all add: push_history_recent)

lemma saturating_succ: "saturating_add64 (of_nat (min n (2 ^ 64 - 1))) 1 = of_nat (min (Suc n) (2 ^ 64 - 1))"
proof (cases "n < 2 ^ 64 - 1")
  case True
  then have "unat (of_nat n :: u64) = n" "unat (of_nat (Suc n) :: u64) = Suc n"
    using unat_of_nat_lt [where 'a = 64, of n] unat_of_nat_lt [where 'a = 64, of "Suc n"] by simp_all
  then have "\<not> of_nat (Suc n) < (of_nat n :: u64)" by (simp add: word_less_nat_alt)
  then show ?thesis using True by (simp add: saturating_add64_def min_def add.commute)
next
  case False
  then have "min n (2 ^ 64 - 1) = 2 ^ 64 - 1" "min (Suc n) (2 ^ 64 - 1) = 2 ^ 64 - 1" by simp_all
  then show ?thesis by (simp add: saturating_add64_def)
qed

lemma console_fold:
  "cm_paused (fold console_apply es console_new) = False
   \<and> cm_event_count (fold console_apply es console_new) = of_nat (min (length es) (2 ^ 64 - 1))
   \<and> shown_durations i (fold console_apply es console_new) = recent (concat (map (durations_of i) es))
   \<and> (po \<in> set (cm_pending_operations (fold console_apply es console_new)) \<longleftrightarrow>
        (\<exists>pre ev post. es = pre @ ev # post \<and> po \<in> set (adds ev) \<and> (\<forall>e\<in>set post. \<not> clears e po)))"
proof (induction es rule: rev_induct)
  case Nil
  show ?case by (simp add: console_new_def shown_durations_def recent_def)
next
  case (snoc ev es)
  let ?m = "fold console_apply es console_new"
  have a: "fold console_apply (es @ [ev]) console_new = apply_event ev (?m\<lparr>cm_event_count := saturating_add64 (cm_event_count ?m) 1\<rparr>)"
    using snoc console_apply_def [of ev ?m] by simp
  have hist: "(\<exists>pre e post. es @ [ev] = pre @ e # post \<and> po \<in> set (adds e) \<and> (\<forall>e\<in>set post. \<not> clears e po)) \<longleftrightarrow>
      po \<in> set (adds ev) \<or> \<not> clears ev po \<and> (\<exists>pre e post. es = pre @ e # post \<and> po \<in> set (adds e) \<and> (\<forall>e\<in>set post. \<not> clears e po))" (is "?l \<longleftrightarrow> ?r")
  proof
    assume ?l
    then obtain pre e post where e: "es @ [ev] = pre @ e # post" "po \<in> set (adds e)" "\<forall>e\<in>set post. \<not> clears e po" by blast
    show ?r
    proof (cases post rule: rev_cases)
      case Nil
      then show ?thesis using e by simp
    next
      case (snoc ys y)
      then have "es = pre @ e # ys" "ev = y" using e(1) by simp_all
      then show ?thesis using e snoc by auto
    qed
  next
    assume r: ?r
    show ?l
    proof (cases "po \<in> set (adds ev)")
      case True
      then have "es @ [ev] = es @ ev # [] \<and> po \<in> set (adds ev) \<and> (\<forall>e\<in>set []. \<not> clears e po)" by simp
      then show ?thesis by blast
    next
      case False
      then obtain pre e post where "\<not> clears ev po" "es = pre @ e # post" "po \<in> set (adds e)" "\<forall>e\<in>set post. \<not> clears e po" using r by blast
      then have "es @ [ev] = pre @ e # (post @ [ev]) \<and> po \<in> set (adds e) \<and> (\<forall>e\<in>set (post @ [ev]). \<not> clears e po)" by simp
      then show ?thesis by blast
    qed
  qed
  have "cm_event_count ?m = of_nat (min (length es) (2 ^ 64 - 1))" using snoc by blast
  then have count: "saturating_add64 (cm_event_count ?m) 1 = of_nat (min (length (es @ [ev])) (2 ^ 64 - 1))"
    using saturating_succ [of "length es"] by (simp only: length_append list.size) simp
  show ?case unfolding a hist
  proof (intro conjI)
    show "cm_event_count (apply_event ev (?m\<lparr>cm_event_count := saturating_add64 (cm_event_count ?m) 1\<rparr>)) = of_nat (min (length (es @ [ev])) (2 ^ 64 - 1))"
      unfolding apply_event_counts using count by simp
  qed (use snoc in \<open>auto simp: apply_event_counts apply_event_pending apply_event_durations fold_push_history\<close>)
qed

lemma run_of_reader:
  assumes "read_stream cs None [] = map Events ess @ [Disconnected CleanEof]"
  shows "fold handle_message (read_stream cs None []) console_new = console_disconnected CleanEof (fold console_apply (concat ess) console_new)"
proof -
  have "fold handle_message (map Events ess) m = fold console_apply (concat ess) m" for m by (induction ess arbitrary: m) simp_all
  then show ?thesis by (simp add: assms)
qed



section \<open>Selection\<close>

text \<open>The list of tasks is the filtered tasks, each once, in the chosen order; the selection stays inside it.\<close>

lemma sorted_tasks_sorted:
  "sorted (map (\<lambda>t. (sort_value (cm_sort m) t, tv_id t)) (sorted_tasks m)) \<and> mset (sorted_tasks m) = mset (filter (matches_filter m) (map snd (cm_tasks m)))"
proof -
  have "mset (map snd (sort_key fst (cm_tasks m))) = mset (map snd (cm_tasks m))" by (metis mset_map mset_sort)
  then show ?thesis by (simp add: sorted_tasks_def)
qed

lemma select_next_inside:
  "sorted_tasks m \<noteq> [] \<Longrightarrow> cm_selected_task (select_next k m) < length (sorted_tasks m)"
proof -
  have n: "length (sorted_tasks m) = length (filter (matches_filter m) (map snd (cm_tasks m)))"
    using sorted_tasks_sorted [of m] by (metis size_mset)
  assume "sorted_tasks m \<noteq> []"
  then have "0 < int (length (filter (matches_filter m) (map snd (cm_tasks m))))" using n by (metis length_greater_0_conv of_nat_0_less_iff)
  then show ?thesis unfolding n by (simp add: select_next_def Let_def nat_less_iff)
qed

text \<open>A bad frame in a fragment takes the events before it along.\<close>

lemma bad_frame_drops_events:
  assumes "good_event ev" "length (enc_event ev) \<le> MAX_FRAME_SIZE"
  shows "fst (decoder_push (le32 (of_nat (length (enc_event ev))) @ enc_event ev @ le32 0xFFFFFFFF) []) = Inl (FrameTooLarge 0xFFFFFFFF)"
  using push_loop_frame [OF assms, of "[]" "le32 0xFFFFFFFF"]
  by (simp add: decoder_push_def push_loop.simps [of "[ev]"] Let_def of_le_bytes_le_bytes MAX_FRAME_SIZE_def)
end
