(* ===== verification/Spec2Isabelle.thy ===== *)
theory Spec2Isabelle
  imports Prelude Coop Task_State Task_Harness Timer_Wheel Timer_Shared Intrusive_List Injector Local_Queue Semaphore Mpsc Rwlock
    Notify Oneshot Watch Broadcast Cancel_Token Worker
    Blocking_Pool Futures_Unordered Current_Thread Buffered_Io Io_Readiness Combinators Stream_Adapters Delay_Queue Uring_System Console_Model
begin

text \<open>
  \<^bold>\<open>Verification development for the eddy asynchronous runtime\<close> (\<open>src/crates/eddy/src\<close>).

  Eddy runs tasks (futures with a header and a reference count) on one of two schedulers. A wake sets a
  bit in the state word of the task and submits it to the scheduler; a worker takes it from its LIFO
  slot, its run queue, the global injector or another worker, polls it, and parks when there is
  nothing to do. Timers, the I/O driver and the synchronisation primitives are sources of wakes; the
  blocking pool runs closures on threads of its own. The theories follow these parts.

  \<^bold>\<open>Conventions\<close> (theory \<open>Prelude\<close>). \<open>usize\<close> and \<open>u64\<close> are 64-bit words, \<open>u32\<close> and \<open>u16\<close> words of their
  width; counters of queues are words wherever the code lets them wrap. A waker is a number, and an
  operation returns the list of the wakers it calls, in order. \<open>Poll\<close> is the datatype \<open>poll\<close>; panics,
  aborts and errors are the left side of a sum or \<open>None\<close>. A critical section is one function on the
  record of the protected state; where the code acts without a lock, or between two, each atomic
  access is a step of its own in an inductive relation over all interleavings (\<open>_reach\<close>, \<open>_step\<close>), under
  sequential consistency. Futures that share a node with their channel are kept in a store indexed by
  numbers, so that a future may be polled, dropped or leaked at any time.

  \<^bold>\<open>Tasks.\<close>
  \<^item> \<open>Task_State\<close>: the packed state word of \<open>task/state.rs\<close>: every constant, accessor and transition, and
    the compare-and-swap loop \<open>fetch_update_action\<close>. The transitions refine a state machine of six flags
    and a count; the loop is equivalent to one atomic application of its closure.
  \<^item> \<open>Task_Harness\<close>: one task with all its holders: \<open>task/raw.rs\<close>, \<open>task/harness.rs\<close>, \<open>task/waker.rs\<close>,
    \<open>task/join.rs\<close>, \<open>task/mod.rs\<close>. The reference count equals the number of holders and the cell is freed
    once; one worker polls at a time; no wake is lost; an aborted task completes; and a shutdown can leave
    a join handle that never resolves.
  \<^item> \<open>Coop\<close>: the budget of \<open>coop.rs\<close>: 128 operations, then \<open>Pending\<close> with a wake.

  \<^bold>\<open>Schedulers.\<close>
  \<^item> \<open>Queue_Spec\<close>: the contracts of a task pool and of a first-in first-out queue as locales, interpreted in
    \<open>Intrusive_List\<close>, \<open>Injector\<close> and \<open>Local_Queue\<close>.
  \<^item> \<open>Intrusive_List\<close> (\<open>util/linked_list.rs\<close>): pointer operations over a heap of links refine lists.
  \<^item> \<open>Injector\<close> (\<open>scheduler/multi_thread/inject.rs\<close>): the queue threaded through task headers refines a list,
    and a closed one releases every task once.
  \<^item> \<open>Local_Queue\<close> (\<open>scheduler/multi_thread/queue.rs\<close>): the ring of 256 slots with a packed, wrapping head,
    first as sequential operations that refine lists, then with an owner and any number of thieves
    interleaved: each task is handed out at most once if every claim covers slots still in the queue, and
    a claim from a stale reading of the tail hands one out twice.
  \<^item> \<open>Worker\<close> (\<open>scheduler/multi_thread/worker.rs\<close>, \<open>util/rand.rs\<close>): routing of wakes, the rounds of the worker
    loop, stealing, parking, \<open>block_in_place\<close> and shutdown, with each queue operation as one step. Each
    task runs once, is held in one place, or is dropped by the shutdown; a worker blocks only without
    work; local work can keep the injector waiting.
  \<^item> \<open>Current_Thread\<close> (\<open>scheduler/current_thread.rs\<close>): the queues and the choice of the next task, with the
    bound of 61 choices for injected tasks, and the sleeping protocol of \<open>block_on\<close>.
  \<^item> \<open>Blocking_Pool\<close> (\<open>blocking.rs\<close>): job queue, idle and live counts, thread loop and shutdown. Jobs run at
    most once and the counts are exact; a job submitted while the last thread leaves can be stranded.

  \<^bold>\<open>Time.\<close>
  \<^item> \<open>Timer_Wheel\<close> (\<open>time/wheel.rs\<close>): six levels of 64 slots with occupancy bitmaps. \<open>next_event_at\<close> is never
    late, and \<open>advance_to\<close> returns, loses nothing and expires nothing early.
  \<^item> \<open>Timer_Shared\<close> (\<open>time/wheel.rs\<close>, \<open>time/mod.rs\<close>): the clock that can be paused, arming and firing, \<open>Sleep\<close>,
    \<open>Timeout\<close>, \<open>Interval\<close>.
  \<^item> \<open>Delay_Queue\<close> (\<open>time/delay_queue.rs\<close>): items behind a locale of timer drivers, interpreted by
    \<open>Timer_Shared\<close>, with the steps of \<open>poll_expired\<close> interleaved with expiries. Each item comes out once, and a
    task that sleeps on a ready item is about to be woken.

  \<^bold>\<open>Synchronisation\<close> (\<open>sync/\<close>, \<open>cancellation.rs\<close>).
  \<^item> \<open>Semaphore\<close> with the mutex (conservation of permits, order of service; locale \<open>permit_pool\<close>), \<open>Mpsc\<close>
    (exactly once, in order, within the capacity), \<open>Rwlock\<close> (exclusion, hand-over), \<open>Notify\<close> (no lost
    notification), \<open>Oneshot\<close> (one value, once), \<open>Watch\<close> (the latest value, up to the wrap of the version),
    \<open>Broadcast\<close> (received and missed values account for the whole sequence), \<open>Cancel_Token\<close> (cancellation
    reaches all descendants, and nothing is lost in any interleaving).

  \<^bold>\<open>Futures and I/O.\<close>
  \<^item> \<open>Futures_Unordered\<close> (\<open>future/unordered.rs\<close>, \<open>future/join_set.rs\<close>): the polling loop returns if members
    cause finitely many wakes, and does not return when the budget is spent.
  \<^item> \<open>Buffered_Io\<close> (\<open>io/buf.rs\<close>, \<open>io/mod.rs\<close>, \<open>io/ops.rs\<close>): the contracts of \<open>AsyncRead\<close> and \<open>AsyncWrite\<close> as
    locales; buffered readers and writers keep them, the loops of the extension traits and \<open>copy\<close> are
    correct over every instance. The instance is the in-memory stream of \<open>io/ops.rs\<close>, bare and buffered.
  \<^item> \<open>Io_Readiness\<close> (\<open>io/driver.rs\<close>, \<open>io/mod.rs\<close>, \<open>sys/mod.rs\<close>): the packed readiness word, tokens, waiters of a
    descriptor and the \<open>Readiness\<close> future against dispatch and clear, in every interleaving.
  \<^item> \<open>Combinators\<close> (\<open>future/mod.rs\<close>): joins, selects and the loop of \<open>select!\<close> over arbitrary futures compute
    their outcome, poll no finished branch, and return.
  \<^item> \<open>Stream_Adapters\<close> (\<open>stream.rs\<close>): \<open>filter\<close>, \<open>map\<close>, \<open>fuse\<close>, \<open>fold\<close>, \<open>collect\<close> and the rest over arbitrary streams.

  \<^bold>\<open>Completion ring\<close> (\<open>io/uring.rs\<close>).
  \<^item> \<open>Uring_Rings\<close>: the submission and completion rings in shared memory, with wrapping cursors and masks;
    they refine bounded queues, whatever the order of user and kernel.
  \<^item> \<open>Io_Uring\<close>: the slabs of running and orphaned operations with their tables, starting, submitting,
    reaping, refills and clean-ups of provided buffers, results, cancellation and orphaning.
  \<^item> \<open>Uring_Futures\<close>: the owned-buffer futures, registered buffers and files, the multishot streams, and the
    destructor of the ring.
  \<^item> \<open>Uring_Safety\<close>, \<open>Uring_Steps\<close>: the invariant, over a view from user data to resource and status, and one
    lemma per operation that keeps it.
  \<^item> \<open>Uring_System\<close>: the ring and the kernel in every interleaving. The memory of whatever the kernel holds is
    retained, results belong to their operations, and no lookup or poll panics; at the end, the corner
    cases in which buffers, descriptors or wakes are lost.

  \<^bold>\<open>Console\<close> (\<open>instrument.rs\<close>, \<open>src/crates/eddy-console/src/lib.rs\<close>).
  \<^item> \<open>Console_Wire\<close>: the runtime events, the frames \<open>encode_frame\<close> writes for them, and the decoder and stream
    reader of the console. A locale of codecs, interpreted for identifiers, strings and events, gives the
    round trip; the decoder accepts nothing but encodings, and fragments of any size give the same events.
  \<^item> \<open>Console_Model\<close>: what \<open>ConsoleModel\<close> makes of the events: pending operations, poll histories, counts and
    the sorted table.

  \<^bold>\<open>Loops and bounds.\<close> There is no fuel. Loops over data are structural recursion. The loops that the code does
  not bound (\<open>advance_loop\<close>, \<open>overflow_loop\<close>, \<open>commit_real_head\<close>, \<open>skip_missed\<close>, \<open>fu_loop\<close>, \<open>select_loop\<close>, the polls of
  the stream adapters, the copying and reading loops) are partial functions into \<open>option\<close>, and the theorems show that they return where the code
  promises it, under the stated hypothesis (a positive period, a bounded number of wakes, a reader that
  is always ready). The compare-and-swap loop takes the list of outcomes of its exchanges, and
  the loops around \<open>io_uring_enter\<close> that of its calls.

  \<^bold>\<open>Parameters.\<close> The futures polled by the runtime, the readers and writers below the buffers, the clock, the
  strong counts of shared allocations, the outcomes of racing exchanges and of system calls, the vacant
  keys of a slab and the addresses of allocations are arguments of the definitions. Of the kernel's side
  of the ring \<open>Uring_System\<close> assumes what is documented: one final completion for each request, a cancellation
  that reports success has ended its target, provided buffers are accepted; and that the 64-bit
  user data are not exhausted.

  \<^bold>\<open>Not modelled.\<close> Sockets and the kernel pollers (\<open>io/net.rs\<close>, \<open>io/unix.rs\<close>, \<open>io/poll_evented.rs\<close>, \<open>sys/\<close> but for
  tokens), which are system calls; the slab and the park protocol of the I/O driver; the mapping and
  set-up of the completion ring, its builder and the bytes of socket addresses; where the runtime emits its
  events, the metrics and the instrumentation socket, which do not influence scheduling; drawing, keys and
  recording of the terminal console; the web console; the attribute macros; thread creation and joining; the
  runtime builder and the thread-local handle; memory orderings weaker than sequential consistency.
  Still open in modelled parts: \<open>recv_many\<close>, \<open>BufStream\<close>, text lines, the pairing of the two directions of
  \<open>copy_bidirectional\<close>, the shutdown timeout of the workers.
\<close>

end
